(* ===== verification/Prelude.thy ===== *)
theory Prelude
  imports Main "HOL-Library.Word" "HOL-Library.Monad_Syntax"
begin

text \<open>
  Shared vocabulary of the development.

  \<^item> C integers. A signed \<open>w\<close>-bit object is an \<open>int\<close> and every arithmetic result is passed
    through \<open>chk w\<close>, which is \<open>None\<close> where the mathematical result does not fit: signed
    overflow is undefined in C, and a computation that meets it has no value in the model. A
    theorem that a function returns \<open>Some\<close> therefore also says that it runs without overflow.
    \<open>shr\<close> is the arithmetic right shift of the supported compilers (floor division).  A left
    shift of a signed value multiplies by a power of two: \<open>shl\<close> has no value where the result
    is not representable, \<open>shl_wrap\<close> reduces it to the width as the compilers do; the latter is
    used in the few places where the source shifts bits out at the top.
  \<^item> Bytes are \<open>8 word\<close>; \<open>le_val\<close> reads a byte string as a little-endian number.
  \<^item> Generic facts on \<open>Option.bind\<close>, on updated lists and on \<open>mod\<close> used by every component.
\<close>

named_theorems bounds \<open>facts that bound an integer expression\<close>
named_theorems op_spec \<open>functional specifications of the operations of the model\<close>

type_synonym byte = "8 word"

subsection \<open>Checked machine arithmetic\<close>

definition fits :: "nat \<Rightarrow> int \<Rightarrow> bool" where
  "fits w x \<longleftrightarrow> - (2 ^ (w - 1)) \<le> x \<and> x < 2 ^ (w - 1)"

definition chk :: "nat \<Rightarrow> int \<Rightarrow> int option" where
  "chk w x = (if fits w x then Some x else None)"

abbreviation i32 :: "int \<Rightarrow> int option" where "i32 \<equiv> chk 32"
abbreviation i64 :: "int \<Rightarrow> int option" where "i64 \<equiv> chk 64"

definition shr :: "int \<Rightarrow> nat \<Rightarrow> int" where
  "shr x k = x div 2 ^ k"

definition shl :: "nat \<Rightarrow> int \<Rightarrow> nat \<Rightarrow> int option" where
  "shl w x k = chk w (x * 2 ^ k)"

definition shl_wrap :: "nat \<Rightarrow> int \<Rightarrow> nat \<Rightarrow> int" where
  "shl_wrap w x k = signed_take_bit (w - 1) (x * 2 ^ k)"

definition byte_of :: "int \<Rightarrow> byte" where
  "byte_of x = word_of_int x"

lemma chk_Some [simp]: "fits w x \<Longrightarrow> chk w x = Some x"
  by (simp add: chk_def)

lemma chk_eq_Some_iff: "chk w x = Some y \<longleftrightarrow> fits w x \<and> y = x"
  by (auto simp: chk_def)

lemma fitsI: "\<bar>x\<bar> < 2 ^ (w - 1) \<Longrightarrow> fits w x"
  by (auto simp: fits_def abs_less_iff)

lemma fits_between: "fits w l \<Longrightarrow> fits w u \<Longrightarrow> l \<le> x \<Longrightarrow> x \<le> u \<Longrightarrow> fits w x"
  by (auto simp: fits_def)

lemma bind_Some_iff: "Option.bind m f = Some y \<longleftrightarrow> (\<exists>x. m = Some x \<and> f x = Some y)"
  by (cases m) auto

text \<open>Used as a congruence rule: a bound computation is evaluated before its continuation.\<close>

lemma bind_weak_cong: "m = m' \<Longrightarrow> Option.bind m f = Option.bind m' f"
  by simp

text \<open>
  \<open>runs m Q\<close>: the computation \<open>m\<close> returns (so no operation in it overflows), with a result that
  satisfies \<open>Q\<close>.
\<close>

definition runs :: "'a option \<Rightarrow> ('a \<Rightarrow> bool) \<Rightarrow> bool" where
  "runs m Q \<longleftrightarrow> (\<exists>r. m = Some r \<and> Q r)"

lemma runs_Some [simp]: "runs (Some x) Q \<longleftrightarrow> Q x"
  by (simp add: runs_def)

lemma runs_bind: "runs m Q \<Longrightarrow> (\<And>x. Q x \<Longrightarrow> runs (f x) R) \<Longrightarrow> runs (Option.bind m f) R"
  by (auto simp: runs_def)

lemma runs_mono: "runs m Q \<Longrightarrow> (\<And>x. Q x \<Longrightarrow> R x) \<Longrightarrow> runs m R"
  by (auto simp: runs_def)

lemma runsE: "runs m Q \<Longrightarrow> (\<And>r. m = Some r \<Longrightarrow> Q r \<Longrightarrow> thesis) \<Longrightarrow> thesis"
  by (auto simp: runs_def)

lemma div_mult_between:
  fixes x :: int
  assumes "0 < d"
  shows "x - d < x div d * d" "x div d * d \<le> x"
  using assms pos_mod_bound [of d x] pos_mod_sign [of d x] div_mult_mod_eq [of x d] by linarith+

lemma div_less_of_less_mult:
  fixes x :: int
  assumes "x < c * d" and "0 < d"
  shows "x div d < c"
proof (rule ccontr)
  assume "\<not> x div d < c"
  then have "c * d \<le> x div d * d" using assms(2) by simp
  with assms div_mult_between(2) [of d x] show False by linarith
qed

subsection \<open>Sums of checked products\<close>

text \<open>
  \<open>dot w a [(x1, y1), (x2, y2), \<dots>]\<close> is the C expression \<open>a + x1 * y1 + x2 * y2 + \<dots>\<close>
  with every product and every partial sum checked, from left to right.
\<close>

fun dot :: "nat \<Rightarrow> int \<Rightarrow> (int \<times> int) list \<Rightarrow> int option" where
  "dot w a [] = Some a"
| "dot w a ((x, y) # ps) = do {
     p \<leftarrow> chk w (x * y);
     s \<leftarrow> chk w (a + p);
     dot w s ps }"

declare dot.simps [simp del]

definition dot_val :: "(int \<times> int) list \<Rightarrow> int" where
  "dot_val ps = (\<Sum>(x, y) \<leftarrow> ps. x * y)"

lemma dot_val_simps [simp]:
  "dot_val [] = 0" "dot_val ((x, y) # ps) = x * y + dot_val ps"
  by (simp_all add: dot_val_def)

lemma abs_mult_le: "\<bar>x\<bar> \<le> X \<Longrightarrow> \<bar>y\<bar> \<le> Y \<Longrightarrow> \<bar>x * y\<bar> \<le> X * (Y :: int)"
  by (simp add: abs_mult mult_mono')

lemma dot_uniform:
  assumes "list_all (\<lambda>(x, y). \<bar>x\<bar> \<le> X \<and> \<bar>y\<bar> \<le> Y) ps"
    and "\<bar>a\<bar> + int (length ps) * (X * Y) < 2 ^ (w - 1)" and "0 \<le> X" and "0 \<le> Y"
  shows "dot w a ps = Some (a + dot_val ps)
    \<and> \<bar>a + dot_val ps\<bar> \<le> \<bar>a\<bar> + int (length ps) * (X * Y)"
  using assms
proof (induction ps arbitrary: a)
  case Nil
  then show ?case by (simp add: dot.simps)
next
  case (Cons p ps)
  obtain x y where p: "p = (x, y)" by (cases p)
  have xy: "\<bar>x * y\<bar> \<le> X * Y"
    using Cons.prems(1) p by (auto intro: abs_mult_le)
  have len: "int (length (p # ps)) * (X * Y) = X * Y + int (length ps) * (X * Y)"
    by (simp add: algebra_simps)
  have nn: "0 \<le> int (length ps) * (X * Y)" using Cons.prems by simp
  have "\<bar>x * y\<bar> < 2 ^ (w - 1)" "\<bar>a + x * y\<bar> < 2 ^ (w - 1)"
    using xy Cons.prems(2) len nn abs_triangle_ineq [of a "x * y"] by linarith+
  then have "fits w (x * y)" "fits w (a + x * y)"
    by (auto intro: fitsI)
  moreover have "dot w (a + x * y) ps = Some (a + x * y + dot_val ps)
    \<and> \<bar>a + x * y + dot_val ps\<bar> \<le> \<bar>a + x * y\<bar> + int (length ps) * (X * Y)"
    by (rule Cons.IH) (use Cons.prems len xy abs_triangle_ineq [of a "x * y"] p in auto)
  ultimately show ?case
    using p len xy abs_triangle_ineq [of a "x * y"] by (auto simp: dot.simps add.assoc)
qed

subsection \<open>Little-endian byte strings\<close>

fun le_val :: "byte list \<Rightarrow> int" where
  "le_val [] = 0"
| "le_val (b # bs) = uint b + 256 * le_val bs"

lemma le_val_nonneg [simp]: "0 \<le> le_val bs"
  by (induction bs) auto

lemma le_val_bound: "le_val bs < 256 ^ length bs"
proof (induction bs)
  case Nil
  then show ?case by simp
next
  case (Cons b bs)
  have "uint b < 256" using uint_lt2p [of b] by simp
  with Cons show ?case by simp
qed

lemma le_val_append: "le_val (xs @ ys) = le_val xs + 256 ^ length xs * le_val ys"
  by (induction xs) (auto simp: algebra_simps)

lemma le_val_inj: "length xs = length ys \<Longrightarrow> le_val xs = le_val ys \<Longrightarrow> xs = ys"
proof (induction xs ys rule: list_induct2)
  case Nil
  then show ?case by simp
next
  case (Cons x xs y ys)
  have "uint x < 256" "uint y < 256" "0 \<le> uint x" "0 \<le> uint y"
    using uint_lt2p [of x] uint_lt2p [of y] by simp_all
  then have "uint x = (uint x + 256 * le_val xs) mod 256" "uint y = (uint y + 256 * le_val ys) mod 256"
    by simp_all
  moreover have eq: "uint x + 256 * le_val xs = uint y + 256 * le_val ys"
    using Cons.prems by simp
  ultimately have "uint x = uint y" by metis
  moreover from this eq have "le_val xs = le_val ys" by simp
  ultimately show ?case using Cons.IH by (simp add: word_uint_eq_iff)
qed

lemma le_val_drop: "j \<le> length s \<Longrightarrow> le_val s div 256 ^ j = le_val (drop j s)"
proof -
  assume "j \<le> length s"
  then have "le_val s = le_val (take j s) + 256 ^ j * le_val (drop j s)"
    using le_val_append [of "take j s" "drop j s"] by simp
  moreover have "le_val (take j s) < 256 ^ j"
    using le_val_bound [of "take j s"] \<open>j \<le> length s\<close> by simp
  ultimately show ?thesis by simp
qed

subsection \<open>Bytes of wider integers\<close>

lemma uint_drop_bit: "uint (drop_bit k x) = uint (x :: 'a :: len word) div 2 ^ k"
  by (simp only: unsigned_drop_bit_eq bintr_uint order_refl) (rule drop_bit_eq_div)

lemma uint_byte_of: "uint (byte_of x) = x mod 256"
  by (simp add: byte_of_def uint_word_of_int)

lemma or_disjoint:
  fixes a b :: int
  assumes "0 \<le> a" and "a < 2 ^ k"
  shows "or a (b * 2 ^ k) = a + b * 2 ^ k"
proof -
  have "take_bit k a = a" using assms by (simp add: take_bit_int_eq_self)
  then show ?thesis
    using concat_bit_eq [of k a b] concat_bit_def [of k a b] by (simp add: push_bit_eq_mult)
qed

lemma or_shl_mod:
  fixes a b :: int
  assumes "0 \<le> a" and "a < 2 ^ k" and "k \<le> 8" and "8 \<le> w"
  shows "or a (shl_wrap w b k) mod 256 = a + 2 ^ k * (b mod 2 ^ (8 - k))"
proof -
  have m: "x mod 256 = take_bit 8 x" for x :: int
    by (simp add: take_bit_eq_mod)
  have k: "(256 :: int) = 2 ^ (8 - k) * 2 ^ k"
    using assms(3) by (simp flip: power_add)
  have "or a (shl_wrap w b k) mod 256 = or (take_bit 8 a) (take_bit 8 (b * 2 ^ k))"
    using assms(4) by (simp add: m shl_wrap_def take_bit_or take_bit_signed_take_bit)
  also have "take_bit 8 (b * 2 ^ k) = (b mod 2 ^ (8 - k)) * 2 ^ k"
    unfolding m [symmetric] k by (rule mod_mult_mult2)
  also have "take_bit 8 a = a"
  proof (rule take_bit_int_eq_self [OF assms(1)])
    show "a < 2 ^ 8"
      using assms(2) power_increasing [OF assms(3), of "2 :: int"] by linarith
  qed
  finally show ?thesis unfolding or_disjoint [OF assms(1,2)] by (simp only: mult.commute)
qed

end
