(* ===== verification/Limbs.thy ===== *)
theory Limbs
  imports Prelude
begin

text \<open>
  Multi-limb integers.  The reference field and scalar code of the base OT keeps a number as an
  array of signed limbs and works on it with three statement groups that occur over and over:
  a carry from one limb into another, the removal of the bits above a limb, and the fold of a
  high limb into lower ones.  This theory gives the three groups once (\<open>limb_step\<close>, every C
  operation checked at the width of the array's element type), what a sequence of them computes
  (\<open>limb_run\<close>), and an interval analysis (\<open>ivl_run\<close>) that is proved sound: if the analysis
  succeeds on bounds for the input limbs, then the sequence runs without overflow and the result
  respects the computed bounds.  A locale states what a client gets from a weighted reading of
  the limbs.
\<close>

subsection \<open>Statement groups\<close>

text \<open>
  \<open>Carry r i k m j\<close> is

  \<^verbatim>\<open>carry = (x[i] + r) >> k;  x[j] += carry * m;  x[i] -= carry << k;\<close>

  (no addition is written in the source when \<open>r = 0\<close>, no multiplication when \<open>m = 1\<close>; both
  are then without effect here too).  \<open>Trim i k\<close> is

  \<^verbatim>\<open>carry = x[i] >> k;  x[i] -= carry << k;\<close>

  and \<open>Fold i [(j1, a1), \<dots>]\<close> is

  \<^verbatim>\<open>x[j1] += x[i] * a1;  ...  x[i] = 0;\<close>

  where a negative coefficient stands for a statement \<^verbatim>\<open>x[j] -= x[i] * |a|;\<close>.
\<close>

datatype limb_op =
    Carry int nat nat int nat
  | Trim nat nat
  | Fold nat "(nat \<times> int) list"

fun fold_limb :: "nat \<Rightarrow> nat \<Rightarrow> (nat \<times> int) list \<Rightarrow> int list \<Rightarrow> int list option" where
  "fold_limb w i [] x = Some x"
| "fold_limb w i ((j, a) # js) x = do {
     t \<leftarrow> chk w (x ! i * \<bar>a\<bar>);
     y \<leftarrow> chk w (x ! j + sgn a * t);
     fold_limb w i js (x[j := y]) }"

fun limb_step :: "nat \<Rightarrow> limb_op \<Rightarrow> int list \<Rightarrow> int list option" where
  "limb_step w (Carry r i k m j) x = do {
     t \<leftarrow> chk w (x ! i + r);
     c \<leftarrow> chk w (shr t k * m);
     xj \<leftarrow> chk w (x ! j + c);
     s \<leftarrow> shl w (shr t k) k;
     xi \<leftarrow> chk w (x ! i - s);
     Some (x[j := xj, i := xi]) }"
| "limb_step w (Trim i k) x = do {
     s \<leftarrow> shl w (shr (x ! i) k) k;
     xi \<leftarrow> chk w (x ! i - s);
     Some (x[i := xi]) }"
| "limb_step w (Fold i js) x = do {
     y \<leftarrow> fold_limb w i js x;
     Some (y[i := 0]) }"

fun limb_run :: "nat \<Rightarrow> limb_op list \<Rightarrow> int list \<Rightarrow> int list option" where
  "limb_run w [] x = Some x"
| "limb_run w (s # ss) x = do { y \<leftarrow> limb_step w s x; limb_run w ss y }"

lemma limb_run_append: "limb_run w (xs @ ys) x = Option.bind (limb_run w xs x) (limb_run w ys)"
  by (induction xs arbitrary: x) (auto split: Option.bind_splits)

subsection \<open>Intervals\<close>

type_synonym ivl = "int \<times> int"

definition in_ivl :: "ivl \<Rightarrow> int \<Rightarrow> bool" where
  "in_ivl b x \<longleftrightarrow> fst b \<le> x \<and> x \<le> snd b"

abbreviation in_bounds :: "ivl list \<Rightarrow> int list \<Rightarrow> bool" where
  "in_bounds \<equiv> list_all2 in_ivl"

definition ivl_fits :: "nat \<Rightarrow> ivl \<Rightarrow> bool" where
  "ivl_fits w b \<longleftrightarrow> fits w (fst b) \<and> fits w (snd b)"

definition ivl_add :: "ivl \<Rightarrow> ivl \<Rightarrow> ivl" where
  "ivl_add b c = (fst b + fst c, snd b + snd c)"

definition ivl_scale :: "int \<Rightarrow> ivl \<Rightarrow> ivl" where
  "ivl_scale a b = (if 0 \<le> a then (a * fst b, a * snd b) else (a * snd b, a * fst b))"

definition ivl_shr :: "ivl \<Rightarrow> nat \<Rightarrow> ivl" where
  "ivl_shr b k = (shr (fst b) k, shr (snd b) k)"

definition ivl_carry :: "int \<Rightarrow> ivl \<Rightarrow> nat \<Rightarrow> ivl" where
  "ivl_carry r b k = ivl_shr (fst b + r, snd b + r) k"

text \<open>What is left of a limb after its carry: all of \<open>[-r, 2^k - r)\<close>, unless the carry is known.\<close>

definition ivl_rest :: "int \<Rightarrow> ivl \<Rightarrow> nat \<Rightarrow> ivl" where
  "ivl_rest r b k =
     (let c = ivl_carry r b k
      in if fst c = snd c then (fst b - fst c * 2 ^ k, snd b - fst c * 2 ^ k)
         else (- r, 2 ^ k - 1 - r))"

definition guard_opt :: "bool \<Rightarrow> 'a \<Rightarrow> 'a option" where
  "guard_opt b x = (if b then Some x else None)"

fun ivl_fold :: "nat \<Rightarrow> nat \<Rightarrow> (nat \<times> int) list \<Rightarrow> ivl list \<Rightarrow> ivl list option" where
  "ivl_fold w i [] b = Some b"
| "ivl_fold w i ((j, a) # js) b =
     (if j < length b \<and> j \<noteq> i \<and> ivl_fits w (ivl_scale \<bar>a\<bar> (b ! i))
         \<and> ivl_fits w (ivl_add (b ! j) (ivl_scale a (b ! i)))
      then ivl_fold w i js (b[j := ivl_add (b ! j) (ivl_scale a (b ! i))]) else None)"

fun ivl_step :: "nat \<Rightarrow> limb_op \<Rightarrow> ivl list \<Rightarrow> ivl list option" where
  "ivl_step w (Carry r i k m j) b =
     (let c = ivl_carry r (b ! i) k; bj = ivl_add (b ! j) (ivl_scale m c)
      in guard_opt (i < length b \<and> j < length b \<and> i \<noteq> j
           \<and> ivl_fits w (fst (b ! i) + r, snd (b ! i) + r) \<and> ivl_fits w (ivl_scale m c)
           \<and> ivl_fits w bj \<and> ivl_fits w (ivl_scale (2 ^ k) c)
           \<and> ivl_fits w (ivl_rest r (b ! i) k))
         (b[j := bj, i := ivl_rest r (b ! i) k]))"
| "ivl_step w (Trim i k) b =
     guard_opt (i < length b \<and> ivl_fits w (ivl_scale (2 ^ k) (ivl_carry 0 (b ! i) k))
         \<and> ivl_fits w (ivl_rest 0 (b ! i) k))
       (b[i := ivl_rest 0 (b ! i) k])"
| "ivl_step w (Fold i js) b =
     (if i < length b then map_option (\<lambda>c. c[i := (0, 0)]) (ivl_fold w i js b) else None)"

fun ivl_run :: "nat \<Rightarrow> limb_op list \<Rightarrow> ivl list \<Rightarrow> ivl list option" where
  "ivl_run w [] b = Some b"
| "ivl_run w (s # ss) b = (case ivl_step w s b of None \<Rightarrow> None | Some c \<Rightarrow> ivl_run w ss c)"

definition ivl_le :: "ivl \<Rightarrow> ivl \<Rightarrow> bool" where
  "ivl_le b c \<longleftrightarrow> fst c \<le> fst b \<and> snd b \<le> snd c"

definition ivl_covers :: "nat \<Rightarrow> limb_op list \<Rightarrow> ivl list \<Rightarrow> ivl list \<Rightarrow> bool" where
  "ivl_covers w ops b c =
     (case ivl_run w ops b of None \<Rightarrow> False | Some d \<Rightarrow> list_all2 ivl_le d c)"

lemma in_bounds_mono: "in_bounds b x \<Longrightarrow> list_all2 ivl_le b c \<Longrightarrow> in_bounds c x"
  by (fastforce simp: list_all2_conv_all_nth in_ivl_def ivl_le_def)

lemma ivl_fitsD: "ivl_fits w b \<Longrightarrow> in_ivl b x \<Longrightarrow> fits w x"
  by (auto simp: ivl_fits_def in_ivl_def fits_def)

lemma in_ivl_add: "in_ivl b x \<Longrightarrow> in_ivl c y \<Longrightarrow> in_ivl (ivl_add b c) (x + y)"
  by (auto simp: in_ivl_def ivl_add_def)

lemma in_ivl_scale: "in_ivl b x \<Longrightarrow> in_ivl (ivl_scale a b) (x * a)"
  by (auto simp: in_ivl_def ivl_scale_def mult.commute mult_left_mono mult_left_mono_neg)

lemma in_ivl_carry: "in_ivl b x \<Longrightarrow> in_ivl (ivl_carry r b k) (shr (x + r) k)"
  by (auto simp: in_ivl_def ivl_carry_def ivl_shr_def shr_def zdiv_mono1)

lemma in_ivl_rest:
  assumes "in_ivl b x"
  shows "in_ivl (ivl_rest r b k) (x - shr (x + r) k * 2 ^ k)"
proof (cases "fst (ivl_carry r b k) = snd (ivl_carry r b k)")
  case True
  with in_ivl_carry [OF assms, of r k] have "shr (x + r) k = fst (ivl_carry r b k)"
    by (simp add: in_ivl_def)
  with True assms show ?thesis by (simp add: ivl_rest_def Let_def in_ivl_def)
next
  case False
  have "(x + r) - (x + r) div 2 ^ k * 2 ^ k = (x + r) mod 2 ^ k"
    by (simp add: minus_div_mult_eq_mod)
  moreover have "0 \<le> (x + r) mod 2 ^ k" "(x + r) mod 2 ^ k < 2 ^ k" by simp_all
  ultimately have "- r \<le> x - shr (x + r) k * 2 ^ k \<and> x - shr (x + r) k * 2 ^ k \<le> 2 ^ k - 1 - r"
    unfolding shr_def by linarith
  with False show ?thesis by (simp add: ivl_rest_def Let_def in_ivl_def)
qed

lemma in_bounds_nth: "in_bounds b x \<Longrightarrow> i < length b \<Longrightarrow> in_ivl (b ! i) (x ! i)"
  by (simp add: list_all2_nthD)

lemma in_bounds_update: "in_bounds b x \<Longrightarrow> in_ivl c y \<Longrightarrow> in_bounds (b[i := c]) (x[i := y])"
  by (simp add: list_all2_update_cong)

lemma guard_opt_Some_iff [simp]: "guard_opt b x = Some y \<longleftrightarrow> b \<and> y = x"
  by (auto simp: guard_opt_def)

subsection \<open>Soundness of the interval analysis\<close>

lemma ivl_fold_length: "ivl_fold w i js b = Some c \<Longrightarrow> length c = length b"
  by (induction w i js b rule: ivl_fold.induct) (auto split: if_splits)

lemma fold_limb_sound:
  assumes "ivl_fold w i js b = Some c" and "in_bounds b x" and "i < length b"
  shows "\<exists>y. fold_limb w i js x = Some y \<and> in_bounds c y"
  using assms
proof (induction w i js b arbitrary: x rule: ivl_fold.induct)
  case (1 w i b)
  then show ?case by simp
next
  case (2 w i j a js b)
  define bj where "bj = ivl_add (b ! j) (ivl_scale a (b ! i))"
  have g: "j < length b" "ivl_fits w (ivl_scale \<bar>a\<bar> (b ! i))" "ivl_fits w bj"
    "ivl_fold w i js (b[j := bj]) = Some c"
    using "2.prems"(1) by (auto simp: bj_def split: if_splits)
  have xi: "in_ivl (b ! i) (x ! i)" and xj: "in_ivl (b ! j) (x ! j)"
    using "2.prems" g(1) by (auto intro: in_bounds_nth)
  have t: "fits w (x ! i * \<bar>a\<bar>)"
    using g(2) in_ivl_scale [OF xi] by (rule ivl_fitsD)
  have "sgn a * (x ! i * \<bar>a\<bar>) = x ! i * a"
    by (simp add: mult.left_commute mult_sgn_abs)
  then have y: "in_ivl bj (x ! j + sgn a * (x ! i * \<bar>a\<bar>))"
    using in_ivl_add [OF xj in_ivl_scale [OF xi, of a]] by (simp only: bj_def)
  from "2.IH" "2.prems" g y t ivl_fitsD [OF g(3) y] show ?case
    by (auto simp: bj_def split: if_splits intro: in_bounds_update)
qed

lemma limb_step_sound:
  assumes "ivl_step w s b = Some c" and "in_bounds b x"
  shows "\<exists>y. limb_step w s x = Some y \<and> in_bounds c y"
proof (cases s)
  case (Carry r i k m j)
  define q where "q = shr (x ! i + r) k"
  have len: "i < length b" "j < length b"
    using assms(1) Carry by (auto simp: Let_def)
  have xi: "in_ivl (b ! i) (x ! i)" and xj: "in_ivl (b ! j) (x ! j)"
    using assms(2) len by (auto intro: in_bounds_nth)
  have q: "in_ivl (ivl_carry r (b ! i) k) q"
    unfolding q_def using xi by (rule in_ivl_carry)
  have rest: "in_ivl (ivl_rest r (b ! i) k) (x ! i - q * 2 ^ k)"
    unfolding q_def using xi by (rule in_ivl_rest)
  have "in_ivl (fst (b ! i) + r, snd (b ! i) + r) (x ! i + r)"
    using xi by (simp add: in_ivl_def)
  then have "limb_step w s x = Some (x[j := x ! j + q * m, i := x ! i - q * 2 ^ k])"
    using assms(1) Carry ivl_fitsD [OF _ in_ivl_scale [OF q]] ivl_fitsD [OF _ rest]
      ivl_fitsD [OF _ in_ivl_add [OF xj in_ivl_scale [OF q]]]
    by (auto simp: Let_def q_def shl_def dest: ivl_fitsD)
  moreover have "in_bounds c (x[j := x ! j + q * m, i := x ! i - q * 2 ^ k])"
    using assms Carry in_ivl_add [OF xj in_ivl_scale [OF q]] rest
    by (auto simp: Let_def intro!: in_bounds_update)
  ultimately show ?thesis by blast
next
  case (Trim i k)
  have xi: "in_ivl (b ! i) (x ! i)"
    using assms Trim by (auto intro: in_bounds_nth)
  note q = in_ivl_carry [OF xi, of 0 k] and rest = in_ivl_rest [OF xi, of 0 k]
  have "limb_step w s x = Some (x[i := x ! i - shr (x ! i) k * 2 ^ k])"
    using assms(1) Trim ivl_fitsD [OF _ in_ivl_scale [OF q]] ivl_fitsD [OF _ rest]
    by (auto simp: shl_def)
  moreover have "in_bounds c (x[i := x ! i - shr (x ! i) k * 2 ^ k])"
    using assms Trim rest by (auto intro!: in_bounds_update)
  ultimately show ?thesis by blast
next
  case (Fold i js)
  with assms obtain d where d: "ivl_fold w i js b = Some d" "c = d[i := (0, 0)]" "i < length b"
    by (auto split: if_splits)
  from fold_limb_sound [OF d(1) assms(2) d(3)]
  obtain y where "fold_limb w i js x = Some y" "in_bounds d y" by blast
  with d Fold show ?thesis by (auto intro!: in_bounds_update simp: in_ivl_def)
qed

theorem limb_run_sound:
  assumes "ivl_run w ss b = Some c" and "in_bounds b x"
  shows "\<exists>y. limb_run w ss x = Some y \<and> in_bounds c y"
  using assms
proof (induction ss arbitrary: b x)
  case Nil
  then show ?case by simp
next
  case (Cons s ss)
  then obtain d where "ivl_step w s b = Some d" "ivl_run w ss d = Some c"
    by (auto split: option.splits)
  with limb_step_sound [OF this(1) Cons.prems(2)] Cons.IH show ?case by auto
qed

lemma limb_run_covered:
  assumes "ivl_covers w ops b c" and "in_bounds b x"
  shows "\<exists>y. limb_run w ops x = Some y \<and> in_bounds c y"
  using assms limb_run_sound [of w ops b _ x]
  by (fastforce simp: ivl_covers_def split: option.splits intro: in_bounds_mono)

subsection \<open>Weighted reading of the limbs\<close>

definition lval :: "int list \<Rightarrow> int list \<Rightarrow> int" where
  "lval W x = sum_list (map2 (*) W x)"

lemma lval_simps [simp]:
  "lval [] x = 0" "lval (a # W) [] = 0" "lval (a # W) (y # x) = a * y + lval W x"
  by (simp_all add: lval_def)

lemma lval_update:
  "length x = length W \<Longrightarrow> i < length W \<Longrightarrow> lval W (x[i := y]) = lval W x + W ! i * (y - x ! i)"
  by (induction W x arbitrary: i rule: list_induct2')
    (auto simp: algebra_simps nth_Cons split: nat.splits)

lemma lval_between:
  assumes "in_bounds b x" and "length W = length b" and "list_all (\<lambda>a. 0 \<le> a) W"
  shows "lval W (map fst b) \<le> lval W x \<and> lval W x \<le> lval W (map snd b)"
  using assms
proof (induction b x arbitrary: W rule: list_all2_induct)
  case Nil
  then show ?case by simp
next
  case (Cons i b y x)
  then obtain a W' where W: "W = a # W'" by (cases W) auto
  have "a * fst i \<le> a * y" "a * y \<le> a * snd i"
    using Cons W by (auto simp: in_ivl_def intro: mult_left_mono)
  with Cons W show ?case by fastforce
qed

text \<open>
  The statement groups that leave the number read with weights \<open>W\<close> unchanged modulo \<open>M\<close>.
\<close>

fun op_ok :: "int \<Rightarrow> int list \<Rightarrow> limb_op \<Rightarrow> bool" where
  "op_ok M W (Carry r i k m j) \<longleftrightarrow>
     i < length W \<and> j < length W \<and> i \<noteq> j \<and> (m * W ! j - 2 ^ k * W ! i) mod M = 0"
| "op_ok M W (Trim i k) \<longleftrightarrow> i < length W \<and> (2 ^ k * W ! i) mod M = 0"
| "op_ok M W (Fold i js) \<longleftrightarrow>
     i < length W \<and> list_all (\<lambda>(j, a). j < length W \<and> j \<noteq> i) js
     \<and> ((\<Sum>(j, a) \<leftarrow> js. a * W ! j) - W ! i) mod M = 0"

lemma fold_limb_value:
  assumes "fold_limb w i js x = Some y" and "length x = length W"
    and "list_all (\<lambda>(j, a). j < length W \<and> j \<noteq> i) js"
  shows "length y = length x \<and> y ! i = x ! i \<and> lval W y = lval W x + x ! i * (\<Sum>(j, a) \<leftarrow> js. a * W ! j)"
  using assms
proof (induction w i js x rule: fold_limb.induct)
  case (1 w i x)
  then show ?case by simp
next
  case (2 w i j a js x)
  define x' where "x' = x[j := x ! j + sgn a * (x ! i * \<bar>a\<bar>)]"
  have run: "fold_limb w i js x' = Some y"
    using "2.prems"(1) by (auto simp: bind_Some_iff chk_eq_Some_iff x'_def)
  have j: "j < length W" "j \<noteq> i" using "2.prems"(3) by simp_all
  have sg: "sgn a * (x ! i * \<bar>a\<bar>) = x ! i * a"
    by (simp add: mult.left_commute mult_sgn_abs)
  have IH: "length y = length x' \<and> y ! i = x' ! i
      \<and> lval W y = lval W x' + x' ! i * (\<Sum>(j, a) \<leftarrow> js. a * W ! j)"
    using "2.IH" "2.prems" run by (auto simp: bind_Some_iff chk_eq_Some_iff x'_def)
  have "lval W x' = lval W x + W ! j * (x ! i * a)"
    unfolding x'_def by (subst lval_update) (use "2.prems" j sg in auto)
  moreover have "x' ! i = x ! i" using j by (simp add: x'_def)
  ultimately show ?case using IH by (simp add: x'_def algebra_simps)
qed

lemma mod_eq_by_diff: "(z - x) mod M = 0 \<Longrightarrow> z mod M = x mod (M :: int)"
  by (simp add: mod_eq_dvd_iff mod_0_imp_dvd)

lemma limb_step_value:
  assumes "limb_step w s x = Some y" and "op_ok M W s" and "length x = length W"
  shows "length y = length x \<and> lval W y mod M = lval W x mod M"
proof (cases s)
  case (Carry r i k m j)
  define q where "q = shr (x ! i + r) k"
  have y: "y = x[j := x ! j + q * m, i := x ! i - q * 2 ^ k]"
    using assms(1) Carry by (auto simp: bind_Some_iff chk_eq_Some_iff shl_def q_def)
  have ij: "i < length W" "j < length W" "i \<noteq> j" using assms(2) Carry by auto
  have "lval W y - lval W x = q * (m * W ! j - 2 ^ k * W ! i)"
    unfolding y by (simp add: lval_update assms(3) ij not_sym [OF ij(3)] algebra_simps)
  then have "(lval W y - lval W x) mod M = 0"
    using assms(2) Carry by (simp add: mod_mult_right_eq [symmetric])
  with y show ?thesis by (auto intro: mod_eq_by_diff)
next
  case (Trim i k)
  define q where "q = shr (x ! i) k"
  have y: "y = x[i := x ! i - q * 2 ^ k]"
    using assms(1) Trim by (auto simp: bind_Some_iff chk_eq_Some_iff shl_def q_def)
  have "lval W y - lval W x = (- q) * (2 ^ k * W ! i)"
    unfolding y using assms Trim by (simp add: lval_update algebra_simps)
  then have "(lval W y - lval W x) mod M = 0"
    using assms(2) Trim by (metis mod_mult_right_eq mult_zero_right mod_0 op_ok.simps(2))
  with y show ?thesis by (auto intro: mod_eq_by_diff)
next
  case (Fold i js)
  with assms(1) obtain z where z: "fold_limb w i js x = Some z" "y = z[i := 0]"
    by (auto simp: bind_Some_iff)
  have js: "list_all (\<lambda>(j, a). j < length W \<and> j \<noteq> i) js" "i < length W"
    using assms(2) Fold by auto
  note v = fold_limb_value [OF z(1) assms(3) js(1)]
  have "lval W y = lval W z - W ! i * z ! i"
    using v js assms(3) by (simp add: z(2) lval_update algebra_simps)
  then have "lval W y - lval W x = x ! i * ((\<Sum>(j, a) \<leftarrow> js. a * W ! j) - W ! i)"
    using v by (simp add: algebra_simps)
  then have "(lval W y - lval W x) mod M = 0"
    using assms(2) Fold by (simp add: mod_mult_right_eq [symmetric])
  with v z show ?thesis by (auto intro: mod_eq_by_diff)
qed

lemma limb_run_value:
  assumes "limb_run w ss x = Some y" and "list_all (op_ok M W) ss" and "length x = length W"
  shows "length y = length x \<and> lval W y mod M = lval W x mod M"
  using assms
proof (induction ss arbitrary: x)
  case Nil
  then show ?case by simp
next
  case (Cons s ss)
  then obtain z where z: "limb_step w s x = Some z" "limb_run w ss z = Some y"
    by (auto simp: bind_Some_iff)
  have "length z = length x \<and> lval W z mod M = lval W x mod M"
    using limb_step_value [OF z(1)] Cons.prems by auto
  with Cons.IH [OF z(2)] Cons.prems show ?case by auto
qed

text \<open>
  The contract of a sequence of statement groups: checked once, for given bounds of the input
  limbs, by computation.
\<close>

locale limb_program =
  fixes w :: nat and M :: int and W :: "int list" and ops :: "limb_op list"
    and b :: "ivl list" and c :: "ivl list"
  assumes ops_ok: "list_all (op_ok M W) ops"
    and ops_bounds: "ivl_covers w ops b c"
    and size_ok: "length b = length W"
begin

lemma run_correct:
  assumes "in_bounds b x"
  shows "\<exists>y. limb_run w ops x = Some y \<and> in_bounds c y \<and> lval W y mod M = lval W x mod M"
proof -
  have len: "length x = length W"
    using assms size_ok list_all2_lengthD by fastforce
  from limb_run_covered [OF ops_bounds assms] obtain y
    where "limb_run w ops x = Some y" "in_bounds c y" by blast
  with limb_run_value [OF _ ops_ok len] show ?thesis by blast
qed

lemma run_within:
  assumes "in_bounds b' x" and "list_all2 ivl_le b' b" and "list_all2 ivl_le c c'"
  shows "\<exists>y. limb_run w ops x = Some y \<and> in_bounds c' y \<and> lval W y mod M = lval W x mod M"
  using run_correct [OF in_bounds_mono [OF assms(1,2)]] in_bounds_mono [OF _ assms(3)] by blast

end

end
