(* ===== verification/Fe25519.thy ===== *)
theory Fe25519
  imports Limbs
begin

text \<open>
  Field elements of the portable base OT (\<^verbatim>\<open>src/yacl/ot/simplest_ot_portable/fe*.c\<close>): integers
  modulo \<open>2^255 - 19\<close> in ten signed 32-bit limbs with alternating 26 and 25 bits.  Every
  operation is translated with its C types: 32-bit sums and precomputations through \<open>i32\<close>,
  64-bit products and sums through \<open>dot 64\<close>, the carry chains as \<open>limb_op\<close> sequences at
  width 64.  The lemmas show, for the limb bounds that the comments of the source name, that no
  operation overflows, that the result keeps the promised bounds, and which number it stands for.
\<close>

type_synonym fe = "int list"

definition p25519 :: int where
  "p25519 = 2 ^ 255 - 19"

text \<open>\<open>t[0] + 2^26 t[1] + 2^51 t[2] + 2^77 t[3] + 2^102 t[4] + \<dots> + 2^230 t[9]\<close>\<close>

definition fe_weights :: "int list" where
  "fe_weights = [1, 2 ^ 26, 2 ^ 51, 2 ^ 77, 2 ^ 102, 2 ^ 128, 2 ^ 153, 2 ^ 179, 2 ^ 204, 2 ^ 230]"

definition fe_val :: "fe \<Rightarrow> int" where
  "fe_val f = lval fe_weights f"

subsection \<open>Linear operations\<close>

definition fe_0 :: fe where
  "fe_0 = [0, 0, 0, 0, 0, 0, 0, 0, 0, 0]"

definition fe_1 :: fe where
  "fe_1 = [1, 0, 0, 0, 0, 0, 0, 0, 0, 0]"

definition fe_copy :: "fe \<Rightarrow> fe" where
  "fe_copy f = (let f0 = f ! 0; f1 = f ! 1; f2 = f ! 2; f3 = f ! 3; f4 = f ! 4;
                    f5 = f ! 5; f6 = f ! 6; f7 = f ! 7; f8 = f ! 8; f9 = f ! 9
                in [f0, f1, f2, f3, f4, f5, f6, f7, f8, f9])"

definition fe_add :: "fe \<Rightarrow> fe \<Rightarrow> fe option" where
  "fe_add f g = do {
     h0 \<leftarrow> i32 (f ! 0 + g ! 0); h1 \<leftarrow> i32 (f ! 1 + g ! 1); h2 \<leftarrow> i32 (f ! 2 + g ! 2);
     h3 \<leftarrow> i32 (f ! 3 + g ! 3); h4 \<leftarrow> i32 (f ! 4 + g ! 4); h5 \<leftarrow> i32 (f ! 5 + g ! 5);
     h6 \<leftarrow> i32 (f ! 6 + g ! 6); h7 \<leftarrow> i32 (f ! 7 + g ! 7); h8 \<leftarrow> i32 (f ! 8 + g ! 8);
     h9 \<leftarrow> i32 (f ! 9 + g ! 9);
     Some [h0, h1, h2, h3, h4, h5, h6, h7, h8, h9] }"

definition fe_sub :: "fe \<Rightarrow> fe \<Rightarrow> fe option" where
  "fe_sub f g = do {
     h0 \<leftarrow> i32 (f ! 0 - g ! 0); h1 \<leftarrow> i32 (f ! 1 - g ! 1); h2 \<leftarrow> i32 (f ! 2 - g ! 2);
     h3 \<leftarrow> i32 (f ! 3 - g ! 3); h4 \<leftarrow> i32 (f ! 4 - g ! 4); h5 \<leftarrow> i32 (f ! 5 - g ! 5);
     h6 \<leftarrow> i32 (f ! 6 - g ! 6); h7 \<leftarrow> i32 (f ! 7 - g ! 7); h8 \<leftarrow> i32 (f ! 8 - g ! 8);
     h9 \<leftarrow> i32 (f ! 9 - g ! 9);
     Some [h0, h1, h2, h3, h4, h5, h6, h7, h8, h9] }"

definition fe_neg :: "fe \<Rightarrow> fe option" where
  "fe_neg f = do {
     h0 \<leftarrow> i32 (- (f ! 0)); h1 \<leftarrow> i32 (- (f ! 1)); h2 \<leftarrow> i32 (- (f ! 2)); h3 \<leftarrow> i32 (- (f ! 3));
     h4 \<leftarrow> i32 (- (f ! 4)); h5 \<leftarrow> i32 (- (f ! 5)); h6 \<leftarrow> i32 (- (f ! 6)); h7 \<leftarrow> i32 (- (f ! 7));
     h8 \<leftarrow> i32 (- (f ! 8)); h9 \<leftarrow> i32 (- (f ! 9));
     Some [h0, h1, h2, h3, h4, h5, h6, h7, h8, h9] }"

subsection \<open>Multiplication and squaring\<close>

text \<open>
  The ten 64-bit sums of \<^verbatim>\<open>fe_mul\<close>.  The source first names every product
  (\<^verbatim>\<open>f1g9_38 = f1_2 * (crypto_int64) g9_19\<close>) and then adds them up in rows; here a row lists the
  factors of its products.
\<close>

definition fe_mul_prod :: "fe \<Rightarrow> fe \<Rightarrow> int list option" where
  "fe_mul_prod f g =
     (let f0 = f ! 0; f1 = f ! 1; f2 = f ! 2; f3 = f ! 3; f4 = f ! 4;
          f5 = f ! 5; f6 = f ! 6; f7 = f ! 7; f8 = f ! 8; f9 = f ! 9;
          g0 = g ! 0; g1 = g ! 1; g2 = g ! 2; g3 = g ! 3; g4 = g ! 4;
          g5 = g ! 5; g6 = g ! 6; g7 = g ! 7; g8 = g ! 8; g9 = g ! 9
      in do {
        g1_19 \<leftarrow> i32 (19 * g1);
        g2_19 \<leftarrow> i32 (19 * g2);
        g3_19 \<leftarrow> i32 (19 * g3);
        g4_19 \<leftarrow> i32 (19 * g4);
        g5_19 \<leftarrow> i32 (19 * g5);
        g6_19 \<leftarrow> i32 (19 * g6);
        g7_19 \<leftarrow> i32 (19 * g7);
        g8_19 \<leftarrow> i32 (19 * g8);
        g9_19 \<leftarrow> i32 (19 * g9);
        f1_2 \<leftarrow> i32 (2 * f1);
        f3_2 \<leftarrow> i32 (2 * f3);
        f5_2 \<leftarrow> i32 (2 * f5);
        f7_2 \<leftarrow> i32 (2 * f7);
        f9_2 \<leftarrow> i32 (2 * f9);
        h0 \<leftarrow> dot 64 0 [(f0, g0), (f1_2, g9_19), (f2, g8_19), (f3_2, g7_19), (f4, g6_19),
          (f5_2, g5_19), (f6, g4_19), (f7_2, g3_19), (f8, g2_19), (f9_2, g1_19)];
        h1 \<leftarrow> dot 64 0 [(f0, g1), (f1, g0), (f2, g9_19), (f3, g8_19), (f4, g7_19),
          (f5, g6_19), (f6, g5_19), (f7, g4_19), (f8, g3_19), (f9, g2_19)];
        h2 \<leftarrow> dot 64 0 [(f0, g2), (f1_2, g1), (f2, g0), (f3_2, g9_19), (f4, g8_19),
          (f5_2, g7_19), (f6, g6_19), (f7_2, g5_19), (f8, g4_19), (f9_2, g3_19)];
        h3 \<leftarrow> dot 64 0 [(f0, g3), (f1, g2), (f2, g1), (f3, g0), (f4, g9_19),
          (f5, g8_19), (f6, g7_19), (f7, g6_19), (f8, g5_19), (f9, g4_19)];
        h4 \<leftarrow> dot 64 0 [(f0, g4), (f1_2, g3), (f2, g2), (f3_2, g1), (f4, g0),
          (f5_2, g9_19), (f6, g8_19), (f7_2, g7_19), (f8, g6_19), (f9_2, g5_19)];
        h5 \<leftarrow> dot 64 0 [(f0, g5), (f1, g4), (f2, g3), (f3, g2), (f4, g1),
          (f5, g0), (f6, g9_19), (f7, g8_19), (f8, g7_19), (f9, g6_19)];
        h6 \<leftarrow> dot 64 0 [(f0, g6), (f1_2, g5), (f2, g4), (f3_2, g3), (f4, g2),
          (f5_2, g1), (f6, g0), (f7_2, g9_19), (f8, g8_19), (f9_2, g7_19)];
        h7 \<leftarrow> dot 64 0 [(f0, g7), (f1, g6), (f2, g5), (f3, g4), (f4, g3),
          (f5, g2), (f6, g1), (f7, g0), (f8, g9_19), (f9, g8_19)];
        h8 \<leftarrow> dot 64 0 [(f0, g8), (f1_2, g7), (f2, g6), (f3_2, g5), (f4, g4),
          (f5_2, g3), (f6, g2), (f7_2, g1), (f8, g0), (f9_2, g9_19)];
        h9 \<leftarrow> dot 64 0 [(f0, g9), (f1, g8), (f2, g7), (f3, g6), (f4, g5),
          (f5, g4), (f6, g3), (f7, g2), (f8, g1), (f9, g0)];
        Some [h0, h1, h2, h3, h4, h5, h6, h7, h8, h9] })"

text \<open>\<^verbatim>\<open>carry_i = (h_i + (1 << 25)) >> 26; h_(i+1) += carry_i; h_i -= carry_i << 26;\<close>\<close>

abbreviation carry26 :: "nat \<Rightarrow> limb_op" where
  "carry26 i \<equiv> Carry (2 ^ 25) i 26 1 (Suc i)"

text \<open>\<^verbatim>\<open>carry_i = (h_i + (1 << 24)) >> 25; h_(i+1) += carry_i; h_i -= carry_i << 25;\<close>\<close>

abbreviation carry25 :: "nat \<Rightarrow> limb_op" where
  "carry25 i \<equiv> Carry (2 ^ 24) i 25 1 (Suc i)"

text \<open>\<^verbatim>\<open>carry9 = (h9 + (1 << 24)) >> 25; h0 += carry9 * 19; h9 -= carry9 << 25;\<close>\<close>

abbreviation carry9_19 :: limb_op where
  "carry9_19 \<equiv> Carry (2 ^ 24) 9 25 19 0"

definition fe_mul_carries :: "limb_op list" where
  "fe_mul_carries =
     [carry26 0, carry26 4,
      carry25 1, carry25 5,
      carry26 2, carry26 6,
      carry25 3, carry25 7,
      carry26 4, carry26 8,
      carry9_19,
      carry26 0]"

text \<open>The assignments \<^verbatim>\<open>h[i] = h_i\<close> convert a 64-bit to a 32-bit signed value, modulo \<open>2^32\<close>.\<close>

definition to_i32 :: "int \<Rightarrow> int" where
  "to_i32 x = signed_take_bit 31 x"

definition fe_mul :: "fe \<Rightarrow> fe \<Rightarrow> fe option" where
  "fe_mul f g = do {
     h \<leftarrow> fe_mul_prod f g;
     h \<leftarrow> limb_run 64 fe_mul_carries h;
     Some (map to_i32 h) }"

definition fe_sq_prod :: "fe \<Rightarrow> int list option" where
  "fe_sq_prod f =
     (let f0 = f ! 0; f1 = f ! 1; f2 = f ! 2; f3 = f ! 3; f4 = f ! 4;
          f5 = f ! 5; f6 = f ! 6; f7 = f ! 7; f8 = f ! 8; f9 = f ! 9
      in do {
        f0_2 \<leftarrow> i32 (2 * f0);
        f1_2 \<leftarrow> i32 (2 * f1);
        f2_2 \<leftarrow> i32 (2 * f2);
        f3_2 \<leftarrow> i32 (2 * f3);
        f4_2 \<leftarrow> i32 (2 * f4);
        f5_2 \<leftarrow> i32 (2 * f5);
        f6_2 \<leftarrow> i32 (2 * f6);
        f7_2 \<leftarrow> i32 (2 * f7);
        f5_38 \<leftarrow> i32 (38 * f5);
        f6_19 \<leftarrow> i32 (19 * f6);
        f7_38 \<leftarrow> i32 (38 * f7);
        f8_19 \<leftarrow> i32 (19 * f8);
        f9_38 \<leftarrow> i32 (38 * f9);
        h0 \<leftarrow> dot 64 0 [(f0, f0), (f1_2, f9_38), (f2_2, f8_19),
          (f3_2, f7_38), (f4_2, f6_19), (f5, f5_38)];
        h1 \<leftarrow> dot 64 0 [(f0_2, f1), (f2, f9_38), (f3_2, f8_19),
          (f4, f7_38), (f5_2, f6_19)];
        h2 \<leftarrow> dot 64 0 [(f0_2, f2), (f1_2, f1), (f3_2, f9_38),
          (f4_2, f8_19), (f5_2, f7_38), (f6, f6_19)];
        h3 \<leftarrow> dot 64 0 [(f0_2, f3), (f1_2, f2), (f4, f9_38),
          (f5_2, f8_19), (f6, f7_38)];
        h4 \<leftarrow> dot 64 0 [(f0_2, f4), (f1_2, f3_2), (f2, f2),
          (f5_2, f9_38), (f6_2, f8_19), (f7, f7_38)];
        h5 \<leftarrow> dot 64 0 [(f0_2, f5), (f1_2, f4), (f2_2, f3),
          (f6, f9_38), (f7_2, f8_19)];
        h6 \<leftarrow> dot 64 0 [(f0_2, f6), (f1_2, f5_2), (f2_2, f4),
          (f3_2, f3), (f7_2, f9_38), (f8, f8_19)];
        h7 \<leftarrow> dot 64 0 [(f0_2, f7), (f1_2, f6), (f2_2, f5),
          (f3_2, f4), (f8, f9_38)];
        h8 \<leftarrow> dot 64 0 [(f0_2, f8), (f1_2, f7_2), (f2_2, f6),
          (f3_2, f5_2), (f4, f4), (f9, f9_38)];
        h9 \<leftarrow> dot 64 0 [(f0_2, f9), (f1_2, f8), (f2_2, f7),
          (f3_2, f6), (f4_2, f5)];
        Some [h0, h1, h2, h3, h4, h5, h6, h7, h8, h9] })"

definition fe_sq_carries :: "limb_op list" where
  "fe_sq_carries =
     [carry26 0, carry26 4,
      carry25 1, carry25 5,
      carry26 2, carry26 6,
      carry25 3, carry25 7,
      carry26 4, carry26 8,
      carry9_19,
      carry26 0]"

definition fe_sq :: "fe \<Rightarrow> fe option" where
  "fe_sq f = do {
     h \<leftarrow> fe_sq_prod f;
     h \<leftarrow> limb_run 64 fe_sq_carries h;
     Some (map to_i32 h) }"

text \<open>\<^verbatim>\<open>fe_sq2\<close> has the same products and carries, with every sum doubled in between.\<close>

definition fe_sq2_prod :: "fe \<Rightarrow> int list option" where
  "fe_sq2_prod f =
     (let f0 = f ! 0; f1 = f ! 1; f2 = f ! 2; f3 = f ! 3; f4 = f ! 4;
          f5 = f ! 5; f6 = f ! 6; f7 = f ! 7; f8 = f ! 8; f9 = f ! 9
      in do {
        f0_2 \<leftarrow> i32 (2 * f0);
        f1_2 \<leftarrow> i32 (2 * f1);
        f2_2 \<leftarrow> i32 (2 * f2);
        f3_2 \<leftarrow> i32 (2 * f3);
        f4_2 \<leftarrow> i32 (2 * f4);
        f5_2 \<leftarrow> i32 (2 * f5);
        f6_2 \<leftarrow> i32 (2 * f6);
        f7_2 \<leftarrow> i32 (2 * f7);
        f5_38 \<leftarrow> i32 (38 * f5);
        f6_19 \<leftarrow> i32 (19 * f6);
        f7_38 \<leftarrow> i32 (38 * f7);
        f8_19 \<leftarrow> i32 (19 * f8);
        f9_38 \<leftarrow> i32 (38 * f9);
        h0 \<leftarrow> dot 64 0 [(f0, f0), (f1_2, f9_38), (f2_2, f8_19),
          (f3_2, f7_38), (f4_2, f6_19), (f5, f5_38)];
        h1 \<leftarrow> dot 64 0 [(f0_2, f1), (f2, f9_38), (f3_2, f8_19),
          (f4, f7_38), (f5_2, f6_19)];
        h2 \<leftarrow> dot 64 0 [(f0_2, f2), (f1_2, f1), (f3_2, f9_38),
          (f4_2, f8_19), (f5_2, f7_38), (f6, f6_19)];
        h3 \<leftarrow> dot 64 0 [(f0_2, f3), (f1_2, f2), (f4, f9_38),
          (f5_2, f8_19), (f6, f7_38)];
        h4 \<leftarrow> dot 64 0 [(f0_2, f4), (f1_2, f3_2), (f2, f2),
          (f5_2, f9_38), (f6_2, f8_19), (f7, f7_38)];
        h5 \<leftarrow> dot 64 0 [(f0_2, f5), (f1_2, f4), (f2_2, f3),
          (f6, f9_38), (f7_2, f8_19)];
        h6 \<leftarrow> dot 64 0 [(f0_2, f6), (f1_2, f5_2), (f2_2, f4),
          (f3_2, f3), (f7_2, f9_38), (f8, f8_19)];
        h7 \<leftarrow> dot 64 0 [(f0_2, f7), (f1_2, f6), (f2_2, f5),
          (f3_2, f4), (f8, f9_38)];
        h8 \<leftarrow> dot 64 0 [(f0_2, f8), (f1_2, f7_2), (f2_2, f6),
          (f3_2, f5_2), (f4, f4), (f9, f9_38)];
        h9 \<leftarrow> dot 64 0 [(f0_2, f9), (f1_2, f8), (f2_2, f7),
          (f3_2, f6), (f4_2, f5)];
        Some [h0, h1, h2, h3, h4, h5, h6, h7, h8, h9] })"

definition fe_sq2_double :: "int list \<Rightarrow> int list option" where
  "fe_sq2_double h = do {
     h0 \<leftarrow> i64 (h ! 0 + h ! 0); h1 \<leftarrow> i64 (h ! 1 + h ! 1); h2 \<leftarrow> i64 (h ! 2 + h ! 2);
     h3 \<leftarrow> i64 (h ! 3 + h ! 3); h4 \<leftarrow> i64 (h ! 4 + h ! 4); h5 \<leftarrow> i64 (h ! 5 + h ! 5);
     h6 \<leftarrow> i64 (h ! 6 + h ! 6); h7 \<leftarrow> i64 (h ! 7 + h ! 7); h8 \<leftarrow> i64 (h ! 8 + h ! 8);
     h9 \<leftarrow> i64 (h ! 9 + h ! 9);
     Some [h0, h1, h2, h3, h4, h5, h6, h7, h8, h9] }"

definition fe_sq2_carries :: "limb_op list" where
  "fe_sq2_carries =
     [carry26 0, carry26 4,
      carry25 1, carry25 5,
      carry26 2, carry26 6,
      carry25 3, carry25 7,
      carry26 4, carry26 8,
      carry9_19,
      carry26 0]"

definition fe_sq2 :: "fe \<Rightarrow> fe option" where
  "fe_sq2 f = do {
     h \<leftarrow> fe_sq2_prod f;
     h \<leftarrow> fe_sq2_double h;
     h \<leftarrow> limb_run 64 fe_sq2_carries h;
     Some (map to_i32 h) }"

subsection \<open>Bounds of the limbs\<close>

text \<open>\<open>fe_box a b\<close>: the even limbs are at most \<open>a\<close> and the odd limbs at most \<open>b\<close> in size.\<close>

definition fe_box :: "int \<Rightarrow> int \<Rightarrow> ivl list" where
  "fe_box a b = [(- a, a), (- b, b), (- a, a), (- b, b), (- a, a),
                 (- b, b), (- a, a), (- b, b), (- a, a), (- b, b)]"

text \<open>The four bounds the comments of the source use, rounded down to integers.\<close>

definition fe_tight :: "fe \<Rightarrow> bool" where  \<comment> \<open>\<open>1.01*2^25, 1.01*2^24\<close>\<close>
  "fe_tight f \<longleftrightarrow> in_bounds (fe_box 33889976 16944988) f"

definition fe_small :: "fe \<Rightarrow> bool" where  \<comment> \<open>\<open>1.1*2^25, 1.1*2^24\<close>\<close>
  "fe_small f \<longleftrightarrow> in_bounds (fe_box 36909875 18454937) f"

definition fe_medium :: "fe \<Rightarrow> bool" where  \<comment> \<open>\<open>1.1*2^26, 1.1*2^25\<close>\<close>
  "fe_medium f \<longleftrightarrow> in_bounds (fe_box 73819750 36909875) f"

definition fe_loose :: "fe \<Rightarrow> bool" where  \<comment> \<open>\<open>1.65*2^26, 1.65*2^25\<close>\<close>
  "fe_loose f \<longleftrightarrow> in_bounds (fe_box 110729625 55364812) f"

subsection \<open>Lemmas on limbs and bounds\<close>

lemma ten_limbs:
  assumes "in_bounds (fe_box a b) f"
  obtains f0 f1 f2 f3 f4 f5 f6 f7 f8 f9 where
    "f = [f0, f1, f2, f3, f4, f5, f6, f7, f8, f9]"
    "- a \<le> f0" "f0 \<le> a" "- b \<le> f1" "f1 \<le> b" "- a \<le> f2" "f2 \<le> a" "- b \<le> f3" "f3 \<le> b"
    "- a \<le> f4" "f4 \<le> a" "- b \<le> f5" "f5 \<le> b" "- a \<le> f6" "f6 \<le> a" "- b \<le> f7" "f7 \<le> b"
    "- a \<le> f8" "f8 \<le> a" "- b \<le> f9" "f9 \<le> b"
  using assms unfolding fe_box_def
  by (auto simp: list_all2_Cons1 in_ivl_def)

lemma in_fe_box [simp]:
  "in_bounds (fe_box a b) [f0, f1, f2, f3, f4, f5, f6, f7, f8, f9] \<longleftrightarrow>
     - a \<le> f0 \<and> f0 \<le> a \<and> - b \<le> f1 \<and> f1 \<le> b \<and> - a \<le> f2 \<and> f2 \<le> a \<and> - b \<le> f3 \<and> f3 \<le> b
     \<and> - a \<le> f4 \<and> f4 \<le> a \<and> - b \<le> f5 \<and> f5 \<le> b \<and> - a \<le> f6 \<and> f6 \<le> a \<and> - b \<le> f7 \<and> f7 \<le> b
     \<and> - a \<le> f8 \<and> f8 \<le> a \<and> - b \<le> f9 \<and> f9 \<le> b"
  by (auto simp: fe_box_def in_ivl_def)

lemma fe_box_length [simp]: "length (fe_box a b) = 10"
  by (simp add: fe_box_def)

lemma fe_box_mono:
  "in_bounds (fe_box a b) f \<Longrightarrow> a \<le> c \<Longrightarrow> b \<le> d \<Longrightarrow> in_bounds (fe_box c d) f"
  by (erule in_bounds_mono) (simp add: fe_box_def ivl_le_def)

lemma fe_bounds_chain:
  "fe_tight f \<Longrightarrow> fe_small f" "fe_small f \<Longrightarrow> fe_medium f" "fe_medium f \<Longrightarrow> fe_loose f"
  "fe_tight f \<Longrightarrow> fe_medium f" "fe_tight f \<Longrightarrow> fe_loose f" "fe_small f \<Longrightarrow> fe_loose f"
  unfolding fe_tight_def fe_small_def fe_medium_def fe_loose_def
  by (auto elim!: fe_box_mono)

lemma fits32: "fits 32 x \<longleftrightarrow> - 2147483648 \<le> x \<and> x < 2147483648"
  by (simp add: fits_def)

lemma fits64: "fits 64 x \<longleftrightarrow> - 9223372036854775808 \<le> x \<and> x < 9223372036854775808"
  by (simp add: fits_def)

lemma to_i32_id: "fits 32 x \<Longrightarrow> to_i32 x = x"
  by (simp add: to_i32_def fits_def signed_take_bit_int_eq_self)

lemma fe_val_limbs:
  "fe_val [f0, f1, f2, f3, f4, f5, f6, f7, f8, f9] =
     f0 + 2 ^ 26 * f1 + 2 ^ 51 * f2 + 2 ^ 77 * f3 + 2 ^ 102 * f4
     + 2 ^ 128 * f5 + 2 ^ 153 * f6 + 2 ^ 179 * f7 + 2 ^ 204 * f8 + 2 ^ 230 * f9"
  by (simp add: fe_val_def fe_weights_def)

lemma fe_const_val [simp]: "fe_val fe_0 = 0" "fe_val fe_1 = 1"
  by (simp_all add: fe_0_def fe_1_def fe_val_limbs)

lemma fe_const_tight [simp]: "fe_tight fe_0" "fe_tight fe_1"
  by (simp_all add: fe_0_def fe_1_def fe_tight_def)

lemma fe_copy_id: "in_bounds (fe_box a b) f \<Longrightarrow> fe_copy f = f"
  by (elim ten_limbs) (simp add: fe_copy_def)

subsection \<open>Addition, subtraction, negation\<close>

lemma fe_add_spec [op_spec]:
  assumes f: "in_bounds (fe_box a b) f" and g: "in_bounds (fe_box c d) g"
    and ac: "a + c < 2147483648" and bd: "b + d < 2147483648"
  shows "\<exists>h. fe_add f g = Some h \<and> in_bounds (fe_box (a + c) (b + d)) h
    \<and> fe_val h = fe_val f + fe_val g"
  using f g ac bd by (elim ten_limbs) (simp add: fe_add_def fe_val_limbs fits32 cong: bind_weak_cong)

lemma fe_sub_spec [op_spec]:
  assumes f: "in_bounds (fe_box a b) f" and g: "in_bounds (fe_box c d) g"
    and ac: "a + c < 2147483648" and bd: "b + d < 2147483648"
  shows "\<exists>h. fe_sub f g = Some h \<and> in_bounds (fe_box (a + c) (b + d)) h
    \<and> fe_val h = fe_val f - fe_val g"
  using f g ac bd by (elim ten_limbs) (simp add: fe_sub_def fe_val_limbs fits32 cong: bind_weak_cong)

lemma fe_neg_spec [op_spec]:
  assumes f: "in_bounds (fe_box a b) f" and ab: "a < 2147483648" "b < 2147483648"
  shows "\<exists>h. fe_neg f = Some h \<and> in_bounds (fe_box a b) h \<and> fe_val h = - fe_val f"
  using f ab by (elim ten_limbs) (simp add: fe_neg_def fe_val_limbs fits32 cong: bind_weak_cong)

subsection \<open>The carry chain of multiplication and squaring\<close>

definition fe_chain_in :: "ivl list" where
  "fe_chain_in = fe_box 5600000000000000000 5600000000000000000"

definition fe_chain_out :: "ivl list" where
  "fe_chain_out =
     [(- 33554432, 33554431), (- 16824468, 16824467), (- 33554432, 33554431),
      (- 16777216, 16777215), (- 33554432, 33554431), (- 16779703, 16779702),
      (- 33554432, 33554431), (- 16777216, 16777215), (- 33554432, 33554431),
      (- 16777216, 16777215)]"

interpretation fe_chain: limb_program 64 p25519 fe_weights fe_mul_carries fe_chain_in fe_chain_out
proof
  show "list_all (op_ok p25519 fe_weights) fe_mul_carries" by code_simp
  show "ivl_covers 64 fe_mul_carries fe_chain_in fe_chain_out" by code_simp
  show "length fe_chain_in = length fe_weights" by (simp add: fe_chain_in_def fe_weights_def)
qed

lemma carries_eq: "fe_sq_carries = fe_mul_carries" "fe_sq2_carries = fe_mul_carries"
  by (simp_all add: fe_sq_carries_def fe_sq2_carries_def fe_mul_carries_def)

lemma tight_to_i32: "fe_tight f \<Longrightarrow> map to_i32 f = f"
  unfolding fe_tight_def by (elim ten_limbs) (simp add: to_i32_id fits32)

lemma fe_carry_spec:
  assumes "in_bounds fe_chain_in h"
  shows "\<exists>k. limb_run 64 fe_mul_carries h = Some k \<and> fe_tight (map to_i32 k)
    \<and> fe_val (map to_i32 k) mod p25519 = fe_val h mod p25519"
proof -
  have le: "list_all2 ivl_le fe_chain_out (fe_box 33889976 16944988)"
    by (simp add: fe_chain_out_def fe_box_def ivl_le_def)
  have "list_all2 ivl_le fe_chain_in fe_chain_in"
    by (simp add: list_all2_refl ivl_le_def)
  from fe_chain.run_within [OF assms this le] obtain k where
    k: "limb_run 64 fe_mul_carries h = Some k" "fe_tight k" "fe_val k mod p25519 = fe_val h mod p25519"
    by (auto simp: fe_tight_def fe_val_def)
  then show ?thesis by (simp add: tight_to_i32)
qed

subsection \<open>Products\<close>

declare dot_val_simps [simp del]

definition in_row :: "(int \<times> int) list \<Rightarrow> bool" where
  "in_row ps \<longleftrightarrow> length ps \<le> 10 \<and> list_all (\<lambda>(x, y). - 221459250 \<le> x \<and> x \<le> 221459250
     \<and> - 2103862875 \<le> y \<and> y \<le> 2103862875) ps"

lemma row_dot:
  assumes "in_row ps"
  shows "dot 64 0 ps = Some (dot_val ps)"
    and "\<bar>dot_val ps\<bar> \<le> int (length ps) * 465919894400343750"
proof -
  have "list_all (\<lambda>(x, y). \<bar>x\<bar> \<le> 221459250 \<and> \<bar>y\<bar> \<le> 2103862875) ps"
    using assms by (auto simp: in_row_def list_all_iff)
  from dot_uniform [where w = 64 and a = 0, OF this] assms
  show "dot 64 0 ps = Some (dot_val ps)" "\<bar>dot_val ps\<bar> \<le> int (length ps) * 465919894400343750"
    by (simp_all add: in_row_def)
qed

lemma row_dot_le:
  assumes "in_row ps" and "int (length ps) * 465919894400343750 \<le> B"
  shows "- B \<le> dot_val ps \<and> dot_val ps \<le> B"
  using row_dot(2) [OF assms(1)] assms(2) by linarith

text \<open>
  The rows of \<^verbatim>\<open>fe_mul\<close> are the schoolbook product, with \<open>2^255\<close> replaced by \<open>19\<close>: the
  second summand collects the products that wrap around.
\<close>

lemma fe_mul_rows:
  "fe_val [f0, f1, f2, f3, f4, f5, f6, f7, f8, f9] * fe_val [g0, g1, g2, g3, g4, g5, g6, g7, g8, g9] =
   fe_val [dot_val [(f0, g0), (2 * f1, 19 * g9), (f2, 19 * g8), (2 * f3, 19 * g7), (f4, 19 * g6), (2 * f5, 19 * g5), (f6, 19 * g4), (2 * f7, 19 * g3), (f8, 19 * g2), (2 * f9, 19 * g1)],
     dot_val [(f0, g1), (f1, g0), (f2, 19 * g9), (f3, 19 * g8), (f4, 19 * g7), (f5, 19 * g6), (f6, 19 * g5), (f7, 19 * g4), (f8, 19 * g3), (f9, 19 * g2)],
     dot_val [(f0, g2), (2 * f1, g1), (f2, g0), (2 * f3, 19 * g9), (f4, 19 * g8), (2 * f5, 19 * g7), (f6, 19 * g6), (2 * f7, 19 * g5), (f8, 19 * g4), (2 * f9, 19 * g3)],
     dot_val [(f0, g3), (f1, g2), (f2, g1), (f3, g0), (f4, 19 * g9), (f5, 19 * g8), (f6, 19 * g7), (f7, 19 * g6), (f8, 19 * g5), (f9, 19 * g4)],
     dot_val [(f0, g4), (2 * f1, g3), (f2, g2), (2 * f3, g1), (f4, g0), (2 * f5, 19 * g9), (f6, 19 * g8), (2 * f7, 19 * g7), (f8, 19 * g6), (2 * f9, 19 * g5)],
     dot_val [(f0, g5), (f1, g4), (f2, g3), (f3, g2), (f4, g1), (f5, g0), (f6, 19 * g9), (f7, 19 * g8), (f8, 19 * g7), (f9, 19 * g6)],
     dot_val [(f0, g6), (2 * f1, g5), (f2, g4), (2 * f3, g3), (f4, g2), (2 * f5, g1), (f6, g0), (2 * f7, 19 * g9), (f8, 19 * g8), (2 * f9, 19 * g7)],
     dot_val [(f0, g7), (f1, g6), (f2, g5), (f3, g4), (f4, g3), (f5, g2), (f6, g1), (f7, g0), (f8, 19 * g9), (f9, 19 * g8)],
     dot_val [(f0, g8), (2 * f1, g7), (f2, g6), (2 * f3, g5), (f4, g4), (2 * f5, g3), (f6, g2), (2 * f7, g1), (f8, g0), (2 * f9, 19 * g9)],
     dot_val [(f0, g9), (f1, g8), (f2, g7), (f3, g6), (f4, g5), (f5, g4), (f6, g3), (f7, g2), (f8, g1), (f9, g0)]] +
   p25519 * fe_val [2 * f1 * g9 + f2 * g8 + 2 * f3 * g7 + f4 * g6 + 2 * f5 * g5 + f6 * g4 + 2 * f7 * g3 + f8 * g2 + 2 * f9 * g1,
     f2 * g9 + f3 * g8 + f4 * g7 + f5 * g6 + f6 * g5 + f7 * g4 + f8 * g3 + f9 * g2,
     2 * f3 * g9 + f4 * g8 + 2 * f5 * g7 + f6 * g6 + 2 * f7 * g5 + f8 * g4 + 2 * f9 * g3,
     f4 * g9 + f5 * g8 + f6 * g7 + f7 * g6 + f8 * g5 + f9 * g4,
     2 * f5 * g9 + f6 * g8 + 2 * f7 * g7 + f8 * g6 + 2 * f9 * g5,
     f6 * g9 + f7 * g8 + f8 * g7 + f9 * g6,
     2 * f7 * g9 + f8 * g8 + 2 * f9 * g7,
     f8 * g9 + f9 * g8,
     2 * f9 * g9,
     0]"
  by (simp add: fe_val_limbs dot_val_simps p25519_def algebra_simps)

lemma mod_eq_of_sum: "a = b + p * k \<Longrightarrow> b mod p = a mod (p :: int)"
  by simp

lemma fe_mul_prod_spec:
  assumes "fe_loose f" and "fe_loose g"
  shows "\<exists>h. fe_mul_prod f g = Some h \<and> in_bounds fe_chain_in h
    \<and> fe_val h mod p25519 = fe_val f * fe_val g mod p25519"
  using assms unfolding fe_loose_def fe_chain_in_def
  apply (elim ten_limbs)
  apply (simp add: fe_mul_prod_def fits32 row_dot(1) row_dot_le in_row_def cong: bind_weak_cong)
  apply (rule mod_eq_of_sum [OF fe_mul_rows])
  done

theorem fe_mul_spec [op_spec]:
  assumes "fe_loose f" and "fe_loose g"
  shows "\<exists>h. fe_mul f g = Some h \<and> fe_tight h
    \<and> fe_val h mod p25519 = fe_val f * fe_val g mod p25519"
proof -
  obtain h where "fe_mul_prod f g = Some h" "in_bounds fe_chain_in h"
    "fe_val h mod p25519 = fe_val f * fe_val g mod p25519"
    using fe_mul_prod_spec [OF assms] by blast
  with fe_carry_spec [of h] show ?thesis by (auto simp: fe_mul_def)
qed

lemma fe_sq_rows:
  "fe_val [f0, f1, f2, f3, f4, f5, f6, f7, f8, f9] * fe_val [f0, f1, f2, f3, f4, f5, f6, f7, f8, f9] =
   fe_val [dot_val [(f0, f0), (2 * f1, 38 * f9), (2 * f2, 19 * f8), (2 * f3, 38 * f7), (2 * f4, 19 * f6), (f5, 38 * f5)],
     dot_val [(2 * f0, f1), (f2, 38 * f9), (2 * f3, 19 * f8), (f4, 38 * f7), (2 * f5, 19 * f6)],
     dot_val [(2 * f0, f2), (2 * f1, f1), (2 * f3, 38 * f9), (2 * f4, 19 * f8), (2 * f5, 38 * f7), (f6, 19 * f6)],
     dot_val [(2 * f0, f3), (2 * f1, f2), (f4, 38 * f9), (2 * f5, 19 * f8), (f6, 38 * f7)],
     dot_val [(2 * f0, f4), (2 * f1, 2 * f3), (f2, f2), (2 * f5, 38 * f9), (2 * f6, 19 * f8), (f7, 38 * f7)],
     dot_val [(2 * f0, f5), (2 * f1, f4), (2 * f2, f3), (f6, 38 * f9), (2 * f7, 19 * f8)],
     dot_val [(2 * f0, f6), (2 * f1, 2 * f5), (2 * f2, f4), (2 * f3, f3), (2 * f7, 38 * f9), (f8, 19 * f8)],
     dot_val [(2 * f0, f7), (2 * f1, f6), (2 * f2, f5), (2 * f3, f4), (f8, 38 * f9)],
     dot_val [(2 * f0, f8), (2 * f1, 2 * f7), (2 * f2, f6), (2 * f3, 2 * f5), (f4, f4), (f9, 38 * f9)],
     dot_val [(2 * f0, f9), (2 * f1, f8), (2 * f2, f7), (2 * f3, f6), (2 * f4, f5)]] +
   p25519 * fe_val [4 * f1 * f9 + 2 * f2 * f8 + 4 * f3 * f7 + 2 * f4 * f6 + 2 * f5 * f5,
     2 * f2 * f9 + 2 * f3 * f8 + 2 * f4 * f7 + 2 * f5 * f6,
     4 * f3 * f9 + 2 * f4 * f8 + 4 * f5 * f7 + f6 * f6,
     2 * f4 * f9 + 2 * f5 * f8 + 2 * f6 * f7,
     4 * f5 * f9 + 2 * f6 * f8 + 2 * f7 * f7,
     2 * f6 * f9 + 2 * f7 * f8,
     4 * f7 * f9 + f8 * f8,
     2 * f8 * f9,
     2 * f9 * f9,
     0]"
  by (simp add: fe_val_limbs dot_val_simps p25519_def algebra_simps)

lemma fe_sq_prod_spec:
  assumes "fe_loose f"
  shows "\<exists>h. fe_sq_prod f = Some h \<and> in_bounds (fe_box 2800000000000000000 2800000000000000000) h
    \<and> fe_val h mod p25519 = fe_val f * fe_val f mod p25519"
  using assms unfolding fe_loose_def
  apply (elim ten_limbs)
  apply (simp add: fe_sq_prod_def fits32 row_dot(1) row_dot_le in_row_def cong: bind_weak_cong)
  apply (rule mod_eq_of_sum [OF fe_sq_rows])
  done

theorem fe_sq_spec [op_spec]:
  assumes "fe_loose f"
  shows "\<exists>h. fe_sq f = Some h \<and> fe_tight h \<and> fe_val h mod p25519 = fe_val f * fe_val f mod p25519"
proof -
  obtain h where h: "fe_sq_prod f = Some h" "in_bounds (fe_box 2800000000000000000 2800000000000000000) h"
    "fe_val h mod p25519 = fe_val f * fe_val f mod p25519"
    using fe_sq_prod_spec [OF assms] by blast
  have "in_bounds fe_chain_in h"
    unfolding fe_chain_in_def using h(2) by (rule fe_box_mono) simp_all
  with h(1,3) fe_carry_spec [of h] show ?thesis by (auto simp: fe_sq_def carries_eq)
qed

lemma fe_sq2_prod_eq: "fe_sq2_prod = fe_sq_prod"
  by (rule ext) (simp only: fe_sq2_prod_def fe_sq_prod_def)

lemma fe_sq2_double_spec:
  assumes "in_bounds (fe_box 2800000000000000000 2800000000000000000) h"
  shows "\<exists>k. fe_sq2_double h = Some k \<and> in_bounds fe_chain_in k \<and> fe_val k = 2 * fe_val h"
  using assms unfolding fe_chain_in_def
  apply (elim ten_limbs)
  apply (simp add: fe_sq2_double_def fits64 cong: bind_weak_cong)
  apply (simp add: fe_val_limbs)
  done

theorem fe_sq2_spec [op_spec]:
  assumes "fe_loose f"
  shows "\<exists>h. fe_sq2 f = Some h \<and> fe_tight h
    \<and> fe_val h mod p25519 = 2 * (fe_val f * fe_val f) mod p25519"
proof -
  obtain h where h: "fe_sq_prod f = Some h" "in_bounds (fe_box 2800000000000000000 2800000000000000000) h"
    "fe_val h mod p25519 = fe_val f * fe_val f mod p25519"
    using fe_sq_prod_spec [OF assms] by blast
  obtain k where k: "fe_sq2_double h = Some k" "in_bounds fe_chain_in k" "fe_val k = 2 * fe_val h"
    using fe_sq2_double_spec [OF h(2)] by blast
  have "fe_val k mod p25519 = 2 * (fe_val f * fe_val f) mod p25519"
    using h(3) k(3) by (metis mod_mult_right_eq)
  with h(1) k(1) fe_carry_spec [OF k(2)] show ?thesis
    by (auto simp: fe_sq2_def fe_sq2_prod_eq carries_eq)
qed

end
