(* ===== verification/FeBytes.thy ===== *)
theory FeBytes
  imports Fe25519
begin

unbundle bit_operations_syntax

text \<open>
  Field elements as byte strings: \<^verbatim>\<open>fe_frombytes.c\<close>, \<^verbatim>\<open>fe_tobytes.c\<close>, the tests
  \<^verbatim>\<open>fe_isnonzero.c\<close> and \<^verbatim>\<open>fe_isnegative.c\<close> with the constant-time comparison of \<^verbatim>\<open>verify.c\<close>,
  and the conditional move \<^verbatim>\<open>fe_cmov.c\<close>.  The main results: \<open>fe_tobytes\<close> writes the unique
  representative in \<open>[0, p)\<close> of its argument, and \<open>fe_frombytes\<close> reads back the low 255 bits.
\<close>

subsection \<open>Loading\<close>

definition load_3 :: "byte list \<Rightarrow> 64 word" where
  "load_3 inp = (let result = ucast (inp ! 0);
                     result = result OR push_bit 8 (ucast (inp ! 1));
                     result = result OR push_bit 16 (ucast (inp ! 2))
                 in result)"

definition load_4 :: "byte list \<Rightarrow> 64 word" where
  "load_4 inp = (let result = ucast (inp ! 0);
                     result = result OR push_bit 8 (ucast (inp ! 1));
                     result = result OR push_bit 16 (ucast (inp ! 2));
                     result = result OR push_bit 24 (ucast (inp ! 3))
                 in result)"

text \<open>The ten limbs as loaded; \<^verbatim>\<open>s + i\<close> is \<open>drop i s\<close>, a 64-bit word is read as signed.\<close>

definition fe_frombytes_load :: "byte list \<Rightarrow> int list" where
  "fe_frombytes_load s =
     [sint (load_4 s),
      sint (push_bit 6 (load_3 (drop 4 s))),
      sint (push_bit 5 (load_3 (drop 7 s))),
      sint (push_bit 3 (load_3 (drop 10 s))),
      sint (push_bit 2 (load_3 (drop 13 s))),
      sint (load_4 (drop 16 s)),
      sint (push_bit 7 (load_3 (drop 20 s))),
      sint (push_bit 5 (load_3 (drop 23 s))),
      sint (push_bit 4 (load_3 (drop 26 s))),
      sint (push_bit 2 (load_3 (drop 29 s) AND 8388607))]"

definition fe_frombytes_carries :: "limb_op list" where
  "fe_frombytes_carries =
     [carry9_19, carry25 1, carry25 3, carry25 5, carry25 7,
      carry26 0, carry26 2, carry26 4, carry26 6, carry26 8]"

definition fe_frombytes :: "byte list \<Rightarrow> fe option" where
  "fe_frombytes s = do {
     h \<leftarrow> limb_run 64 fe_frombytes_carries (fe_frombytes_load s);
     Some (map to_i32 h) }"

subsection \<open>Storing\<close>

text \<open>The quotient \<open>q = floor(h / p)\<close>, computed limb by limb.\<close>

definition fe_tobytes_q :: "fe \<Rightarrow> int option" where
  "fe_tobytes_q h = do {
     t \<leftarrow> i32 (19 * h ! 9);
     t \<leftarrow> i32 (t + 2 ^ 24);
     let q = shr t 25;
     t \<leftarrow> i32 (h ! 0 + q); let q = shr t 26;
     t \<leftarrow> i32 (h ! 1 + q); let q = shr t 25;
     t \<leftarrow> i32 (h ! 2 + q); let q = shr t 26;
     t \<leftarrow> i32 (h ! 3 + q); let q = shr t 25;
     t \<leftarrow> i32 (h ! 4 + q); let q = shr t 26;
     t \<leftarrow> i32 (h ! 5 + q); let q = shr t 25;
     t \<leftarrow> i32 (h ! 6 + q); let q = shr t 26;
     t \<leftarrow> i32 (h ! 7 + q); let q = shr t 25;
     t \<leftarrow> i32 (h ! 8 + q); let q = shr t 26;
     t \<leftarrow> i32 (h ! 9 + q); let q = shr t 25;
     Some q }"

definition fe_tobytes_carries :: "limb_op list" where
  "fe_tobytes_carries =
     [Carry 0 0 26 1 1, Carry 0 1 25 1 2, Carry 0 2 26 1 3, Carry 0 3 25 1 4, Carry 0 4 26 1 5,
      Carry 0 5 25 1 6, Carry 0 6 26 1 7, Carry 0 7 25 1 8, Carry 0 8 26 1 9, Trim 9 25]"

definition fe_pack :: "int list \<Rightarrow> byte list" where
  "fe_pack h =
     (let h0 = h ! 0; h1 = h ! 1; h2 = h ! 2; h3 = h ! 3; h4 = h ! 4;
          h5 = h ! 5; h6 = h ! 6; h7 = h ! 7; h8 = h ! 8; h9 = h ! 9
      in map byte_of
       [shr h0 0, shr h0 8, shr h0 16, shr h0 24 OR shl_wrap 32 h1 2,
        shr h1 6, shr h1 14, shr h1 22 OR shl_wrap 32 h2 3,
        shr h2 5, shr h2 13, shr h2 21 OR shl_wrap 32 h3 5,
        shr h3 3, shr h3 11, shr h3 19 OR shl_wrap 32 h4 6,
        shr h4 2, shr h4 10, shr h4 18,
        shr h5 0, shr h5 8, shr h5 16, shr h5 24 OR shl_wrap 32 h6 1,
        shr h6 7, shr h6 15, shr h6 23 OR shl_wrap 32 h7 3,
        shr h7 5, shr h7 13, shr h7 21 OR shl_wrap 32 h8 4,
        shr h8 4, shr h8 12, shr h8 20 OR shl_wrap 32 h9 6,
        shr h9 2, shr h9 10, shr h9 18])"

definition fe_tobytes :: "fe \<Rightarrow> byte list option" where
  "fe_tobytes h = do {
     q \<leftarrow> fe_tobytes_q h;
     t \<leftarrow> i32 (19 * q);
     h0 \<leftarrow> i32 (h ! 0 + t);
     h \<leftarrow> limb_run 32 fe_tobytes_carries (h[0 := h0]);
     Some (fe_pack h) }"

subsection \<open>Comparison, tests and conditional move\<close>

definition verify_step :: "byte list \<Rightarrow> byte list \<Rightarrow> nat \<Rightarrow> 32 word \<Rightarrow> 32 word" where
  "verify_step x y i differentbits = differentbits OR (ucast (x ! i) XOR ucast (y ! i))"

text \<open>The result type is a C \<^verbatim>\<open>int\<close>; the expression is computed in unsigned arithmetic.\<close>

definition simpleot_crypto_verify_32 :: "byte list \<Rightarrow> byte list \<Rightarrow> int" where
  "simpleot_crypto_verify_32 x y =
     (let differentbits = fold (verify_step x y) [0..<32] 0
      in sint ((1 AND drop_bit 8 (differentbits - 1)) - 1 :: 32 word))"

definition fe_isnonzero :: "fe \<Rightarrow> int option" where
  "fe_isnonzero f = do {
     s \<leftarrow> fe_tobytes f;
     Some (simpleot_crypto_verify_32 s (replicate 32 0)) }"

definition fe_isnegative :: "fe \<Rightarrow> int option" where
  "fe_isnegative f = do {
     s \<leftarrow> fe_tobytes f;
     Some (uint (s ! 0 AND 1)) }"

text \<open>
  One limb of \<^verbatim>\<open>fe_cmov\<close>: \<^verbatim>\<open>x = f ^ g; x &= b; f ^ x\<close>, with \<open>b\<close> the negated selector.
\<close>

definition cmov_limb :: "32 word \<Rightarrow> int \<Rightarrow> int \<Rightarrow> int" where
  "cmov_limb b f g =
     (let f0 = word_of_int f :: 32 word; g0 = word_of_int g; x0 = f0 XOR g0; x0 = x0 AND b
      in sint (f0 XOR x0))"

definition fe_cmov :: "fe \<Rightarrow> fe \<Rightarrow> 32 word \<Rightarrow> fe" where
  "fe_cmov f g b =
     (let b = - b
      in [cmov_limb b (f ! 0) (g ! 0), cmov_limb b (f ! 1) (g ! 1), cmov_limb b (f ! 2) (g ! 2),
          cmov_limb b (f ! 3) (g ! 3), cmov_limb b (f ! 4) (g ! 4), cmov_limb b (f ! 5) (g ! 5),
          cmov_limb b (f ! 6) (g ! 6), cmov_limb b (f ! 7) (g ! 7), cmov_limb b (f ! 8) (g ! 8),
          cmov_limb b (f ! 9) (g ! 9)])"

subsection \<open>Reading back what was loaded\<close>

lemma byte_range: "0 \<le> uint (b :: byte)" "uint b < 256"
  using uint_lt2p [of b] by simp_all

lemma uint_ucast_byte: "uint (ucast (b :: byte) :: 64 word) = uint b"
  by (simp add: unsigned_ucast_eq take_bit_int_eq_self_iff order.strict_trans2 [OF uint_lt2p])

lemma uint_push_bit_small:
  fixes x :: "64 word"
  assumes "uint x < 2 ^ n" and "n + k \<le> 63"
  shows "uint (push_bit k x) = uint x * 2 ^ k" and "uint x * 2 ^ k < 2 ^ (n + k)"
proof -
  show lt: "uint x * 2 ^ k < 2 ^ (n + k)" using assms(1) by (simp add: power_add)
  also have "(2 :: int) ^ (n + k) \<le> 2 ^ 64"
    by (rule power_increasing) (use assms(2) in simp_all)
  finally have "take_bit 64 (push_bit k (uint x)) = uint x * 2 ^ k"
    by (simp add: push_bit_eq_mult take_bit_int_eq_self)
  then show "uint (push_bit k x) = uint x * 2 ^ k"
    by (simp only: unsigned_push_bit_eq) simp
qed

lemma uint_shift_byte:
  assumes "k \<le> 24"
  shows "uint (push_bit k (ucast (b :: byte)) :: 64 word) = uint b * 2 ^ k"
  using uint_push_bit_small(1) [of "ucast b" 8 k] assms byte_range [of b]
  by (simp add: uint_ucast_byte)

lemma sint_eq_uint64: "uint (x :: 64 word) < 2 ^ 63 \<Longrightarrow> sint x = uint x"
  by (simp add: sint_uint signed_take_bit_int_eq_self_iff) (use uint_ge_0 [of x] in linarith)

lemma load_3_val:
  "uint (load_3 (a # b # c # r)) = uint a + 256 * uint b + 65536 * uint c"
proof -
  have "uint (load_3 (a # b # c # r)) = (uint a OR uint b * 2 ^ 8) OR uint c * 2 ^ 16"
    by (simp add: load_3_def Let_def uint_or uint_ucast_byte uint_shift_byte)
  also have "\<dots> = (uint a + uint b * 2 ^ 8) OR uint c * 2 ^ 16"
    by (subst or_disjoint) (simp_all add: byte_range)
  also have "\<dots> = uint a + uint b * 2 ^ 8 + uint c * 2 ^ 16"
    by (rule or_disjoint) (use byte_range [of a] byte_range [of b] in simp_all)
  finally show ?thesis by simp
qed

lemma load_4_val:
  "uint (load_4 (a # b # c # d # r)) = uint a + 256 * uint b + 65536 * uint c + 16777216 * uint d"
proof -
  have "load_4 (a # b # c # d # r) = load_3 (a # b # c # r) OR push_bit 24 (ucast d)"
    by (simp add: load_3_def load_4_def)
  then have "uint (load_4 (a # b # c # d # r)) = (uint a + 256 * uint b + 65536 * uint c) OR uint d * 2 ^ 24"
    by (simp add: uint_or load_3_val uint_shift_byte)
  also have "\<dots> = uint a + 256 * uint b + 65536 * uint c + uint d * 2 ^ 24"
    by (rule or_disjoint) (use byte_range [of a] byte_range [of b] byte_range [of c] in simp_all)
  finally show ?thesis by simp
qed

lemma bytes3: "uint a + 256 * uint b + 65536 * uint c \<le> 16777215" for a b c :: byte
  using byte_range [of a] byte_range [of b] byte_range [of c] by linarith

lemma bytes4: "uint a + 256 * uint b + 65536 * uint c + 16777216 * uint d \<le> 4294967295"
  for a b c d :: byte
  using bytes3 [of a b c] byte_range [of d] by linarith

lemma load_3_range: "uint (load_3 (a # b # c # r)) < 2 ^ 24"
  using bytes3 [of a b c] by (simp add: load_3_val)

lemma load_4_range: "uint (load_4 (a # b # c # d # r)) < 2 ^ 32"
  using bytes4 [of a b c d] by (simp add: load_4_val)

lemma sint_load_4:
  "sint (load_4 (a # b # c # d # r)) = uint a + 256 * uint b + 65536 * uint c + 16777216 * uint d"
  using sint_eq_uint64 [OF order_less_trans [OF load_4_range]] by (simp add: load_4_val)

lemma sint_shifted_load_3:
  assumes "k \<le> 7"
  shows "sint (push_bit k (load_3 (a # b # c # r))) = (uint a + 256 * uint b + 65536 * uint c) * 2 ^ k"
proof -
  note s = uint_push_bit_small [OF load_3_range, of k a b c r]
  have "(2 :: int) ^ (24 + k) \<le> 2 ^ 63" by (rule power_increasing) (use assms in simp_all)
  with s assms have "uint (push_bit k (load_3 (a # b # c # r))) < 2 ^ 63" by simp
  with s assms show ?thesis by (simp add: sint_eq_uint64 load_3_val)
qed

lemma list32:
  assumes "length s = 32"
  obtains s0 s1 s2 s3 s4 s5 s6 s7 s8 s9 s10 s11 s12 s13 s14 s15 s16 s17 s18 s19 s20 s21 s22 s23
    s24 s25 s26 s27 s28 s29 s30 s31 where
    "s = [s0, s1, s2, s3, s4, s5, s6, s7, s8, s9, s10, s11, s12, s13, s14, s15, s16, s17, s18, s19,
          s20, s21, s22, s23, s24, s25, s26, s27, s28, s29, s30, s31]"
proof -
  have "\<exists>x xs. ys = x # xs \<and> length xs = n" if "length ys = Suc n" for ys :: "'a list" and n
    using that by (cases ys) auto
  then show thesis using that assms by (simp add: numeral_eq_Suc length_Suc_conv) metis
qed

definition frombytes_in :: "ivl list" where
  "frombytes_in = [(0, 2 ^ 32 - 1), (0, 2 ^ 30 - 1), (0, 2 ^ 29 - 1), (0, 2 ^ 27 - 1), (0, 2 ^ 26 - 1),
     (0, 2 ^ 32 - 1), (0, 2 ^ 31 - 1), (0, 2 ^ 29 - 1), (0, 2 ^ 28 - 1), (0, 2 ^ 25 - 1)]"

definition frombytes_out :: "ivl list" where
  "frombytes_out = [(- 33554432, 33554431), (- 16777216, 16777279), (- 33554432, 33554431),
   (- 16777216, 16777223), (- 33554432, 33554431), (- 16777216, 16777216),
   (- 33554432, 33554431), (- 16777216, 16777247), (- 33554432, 33554431),
   (- 16777216, 16777219)]"

interpretation frombytes: limb_program 64 p25519 fe_weights fe_frombytes_carries frombytes_in frombytes_out
proof
  show "list_all (op_ok p25519 fe_weights) fe_frombytes_carries" by code_simp
  show "ivl_covers 64 fe_frombytes_carries frombytes_in frombytes_out" by code_simp
  show "length frombytes_in = length fe_weights" by (simp add: frombytes_in_def fe_weights_def)
qed

lemma sint_masked_load_3:
  "sint (push_bit 2 (load_3 (a # b # c # r) AND 8388607)) =
    ((uint a + 256 * uint b + 65536 * uint c) mod 2 ^ 23) * 4"
proof -
  let ?x = "load_3 (a # b # c # r)"
  have m: "uint (?x AND 8388607) = uint ?x mod 2 ^ 23"
    using take_bit_eq_mask [of 23 "uint ?x"]
    by (simp add: uint_and take_bit_eq_mod mask_eq_exp_minus_1)
  have lt: "uint (?x AND 8388607) < 2 ^ 23" unfolding m by simp
  note s = uint_push_bit_small [OF lt, of 2]
  from s have "uint (push_bit 2 (?x AND 8388607)) < 2 ^ 25"
    by (simp only: add.commute) simp
  then have "uint (push_bit 2 (?x AND 8388607)) < 2 ^ 63" by simp
  then show ?thesis
    using s(1) by (simp only: sint_eq_uint64 m load_3_val) simp
qed

lemma frombytes_load:
  assumes "length s = 32"
  shows "in_bounds frombytes_in (fe_frombytes_load s) \<and> fe_val (fe_frombytes_load s) = le_val s mod 2 ^ 255"
  using assms
proof (elim list32, goal_cases)
  case (1 s0 s1 s2 s3 s4 s5 s6 s7 s8 s9 s10 s11 s12 s13 s14 s15 s16 s17 s18 s19 s20 s21 s22 s23
    s24 s25 s26 s27 s28 s29 s30 s31)
  have L: "fe_frombytes_load s =
    [uint s0 + 256 * uint s1 + 65536 * uint s2 + 16777216 * uint s3,
     (uint s4 + 256 * uint s5 + 65536 * uint s6) * 64,
     (uint s7 + 256 * uint s8 + 65536 * uint s9) * 32,
     (uint s10 + 256 * uint s11 + 65536 * uint s12) * 8,
     (uint s13 + 256 * uint s14 + 65536 * uint s15) * 4,
     uint s16 + 256 * uint s17 + 65536 * uint s18 + 16777216 * uint s19,
     (uint s20 + 256 * uint s21 + 65536 * uint s22) * 128,
     (uint s23 + 256 * uint s24 + 65536 * uint s25) * 32,
     (uint s26 + 256 * uint s27 + 65536 * uint s28) * 16,
     ((uint s29 + 256 * uint s30 + 65536 * uint s31) mod 2 ^ 23) * 4]"
    unfolding 1 fe_frombytes_load_def
    using sint_masked_load_3 [of s29 s30 s31 "[]"]
    by (simp add: sint_shifted_load_3 sint_load_4)
  define t where "t = uint s29 + 256 * uint s30 + 65536 * uint s31"
  have t: "0 \<le> t mod 2 ^ 23" "t mod 2 ^ 23 < 2 ^ 23" by simp_all
  define lo where "lo = le_val [s0, s1, s2, s3, s4, s5, s6, s7, s8, s9, s10, s11, s12, s13, s14, s15,
    s16, s17, s18, s19, s20, s21, s22, s23, s24, s25, s26, s27, s28]"
  have lo: "0 \<le> lo" "lo < 2 ^ 232"
    unfolding lo_def by (rule le_val_nonneg) (rule order_less_le_trans [OF le_val_bound], simp)
  have v: "fe_val (fe_frombytes_load s) = lo + 2 ^ 232 * (t mod 2 ^ 23)"
    unfolding L fe_val_limbs t_def [symmetric] unfolding lo_def by (simp add: algebra_simps)
  have "le_val s = lo + 2 ^ 232 * t"
    unfolding 1 lo_def t_def by (simp add: algebra_simps)
  also have "2 ^ 232 * t = 2 ^ 232 * (2 ^ 23 * (t div 2 ^ 23) + t mod 2 ^ 23)"
    by (simp only: mult_div_mod_eq)
  finally have "le_val s = fe_val (fe_frombytes_load s) + 2 ^ 255 * (t div 2 ^ 23)"
    unfolding v by (simp only: distrib_left) simp
  moreover have "0 \<le> fe_val (fe_frombytes_load s)" "fe_val (fe_frombytes_load s) < 2 ^ 255"
    using lo t by (simp_all add: v)
  ultimately have "fe_val (fe_frombytes_load s) = le_val s mod 2 ^ 255" by simp
  moreover have "in_bounds frombytes_in (fe_frombytes_load s)"
    unfolding L t_def [symmetric] frombytes_in_def
    using t bytes4 [of s0 s1 s2 s3] bytes3 [of s4 s5 s6] bytes3 [of s7 s8 s9] bytes3 [of s10 s11 s12]
      bytes3 [of s13 s14 s15] bytes4 [of s16 s17 s18 s19] bytes3 [of s20 s21 s22]
      bytes3 [of s23 s24 s25] bytes3 [of s26 s27 s28]
    by (simp add: in_ivl_def)
  ultimately show ?case by simp
qed

theorem fe_frombytes_spec:
  assumes "length s = 32"
  shows "\<exists>h. fe_frombytes s = Some h \<and> fe_tight h
    \<and> fe_val h mod p25519 = (le_val s mod 2 ^ 255) mod p25519"
proof -
  from frombytes_load [OF assms] have
    b: "in_bounds frombytes_in (fe_frombytes_load s)" and
    v: "fe_val (fe_frombytes_load s) = le_val s mod 2 ^ 255" by simp_all
  have "list_all2 ivl_le frombytes_out (fe_box 33889976 16944988)"
    by (simp add: frombytes_out_def fe_box_def ivl_le_def)
  moreover have "list_all2 ivl_le frombytes_in frombytes_in"
    by (simp add: list_all2_refl ivl_le_def)
  ultimately obtain k where "limb_run 64 fe_frombytes_carries (fe_frombytes_load s) = Some k"
    "fe_tight k" "fe_val k mod p25519 = fe_val (fe_frombytes_load s) mod p25519"
    using frombytes.run_within [OF b] by (auto simp: fe_tight_def fe_val_def)
  with v show ?thesis by (simp add: fe_frombytes_def tight_to_i32)
qed

subsection \<open>The canonical encoding\<close>

lemma floor_step:
  "(h + x div 2 ^ a) div 2 ^ k = (2 ^ a * h + x) div (2 :: int) ^ (a + k)"
proof -
  have "(2 ^ a * h + x) div (2 :: int) ^ (a + k) = (2 ^ a * h + x) div 2 ^ a div 2 ^ k"
    by (simp add: power_add zdiv_zmult2_eq)
  then show ?thesis by simp
qed

lemma shr_bounds:
  assumes "- b \<le> x" and "x \<le> b" and "b \<le> c * 2 ^ k"
  shows "- c \<le> shr x k \<and> shr x k \<le> c"
proof -
  have "(- c) * 2 ^ k div 2 ^ k \<le> x div 2 ^ k"
    by (rule zdiv_mono1) (use assms in simp_all)
  moreover have "x div 2 ^ k \<le> c * 2 ^ k div 2 ^ k"
    by (rule zdiv_mono1) (use assms in simp_all)
  moreover have "(- c) * 2 ^ k div 2 ^ k = - c"
    by (rule nonzero_mult_div_cancel_right) simp
  ultimately show ?thesis by (simp add: shr_def)
qed

lemma q_step:
  fixes x q :: int
  assumes "- 73819750 \<le> x" "x \<le> 73819750" "- 128 \<le> q" "q \<le> 128" "25 \<le> k"
  shows "i32 (x + q) = Some (x + q)" "- 128 \<le> (x + q) div 2 ^ k \<and> (x + q) div 2 ^ k \<le> 128"
proof -
  show "i32 (x + q) = Some (x + q)" using assms by (simp add: fits32)
  have "(2 :: int) ^ 25 \<le> 2 ^ k" using assms(5) by (rule power_increasing) simp
  then have "73819878 \<le> 128 * (2 :: int) ^ k" by simp
  then show "- 128 \<le> (x + q) div 2 ^ k \<and> (x + q) div 2 ^ k \<le> 128"
    using shr_bounds [of 73819878 "x + q" 128 k] assms by (simp add: shr_def)
qed

text \<open>The quotient chain is one floor division of the whole number.\<close>

lemma fe_tobytes_q_floor:
  assumes "fe_medium h"
  shows "fe_tobytes_q h = Some ((fe_val h + (19 * h ! 9 + 2 ^ 24) div 2 ^ 25) div 2 ^ 255)"
  using assms unfolding fe_medium_def
proof (elim ten_limbs, goal_cases)
  case (1 h0 h1 h2 h3 h4 h5 h6 h7 h8 h9)
  define q where "q = (19 * h9 + 2 ^ 24) div 2 ^ 25"
  define q0 where "q0 = (h0 + q) div 2 ^ 26"
  define q1 where "q1 = (h1 + q0) div 2 ^ 25"
  define q2 where "q2 = (h2 + q1) div 2 ^ 26"
  define q3 where "q3 = (h3 + q2) div 2 ^ 25"
  define q4 where "q4 = (h4 + q3) div 2 ^ 26"
  define q5 where "q5 = (h5 + q4) div 2 ^ 25"
  define q6 where "q6 = (h6 + q5) div 2 ^ 26"
  define q7 where "q7 = (h7 + q6) div 2 ^ 25"
  define q8 where "q8 = (h8 + q7) div 2 ^ 26"
  note defs = q0_def q1_def q2_def q3_def q4_def q5_def q6_def q7_def q8_def
  have q: "- 128 \<le> q \<and> q \<le> 128"
    unfolding q_def using shr_bounds [of 718064841 "19 * h9 + 2 ^ 24" 128 25] 1
    by (simp add: shr_def)
  note b = q_step [of h0 q 26] q_step [of h1 q0 25] q_step [of h2 q1 26] q_step [of h3 q2 25]
    q_step [of h4 q3 26] q_step [of h5 q4 25] q_step [of h6 q5 26] q_step [of h7 q6 25]
    q_step [of h8 q7 26] q_step [of h9 q8 25]
  have "fe_tobytes_q h = Some ((h9 + q8) div 2 ^ 25)"
    using b q 1 unfolding defs [symmetric]
    by (simp add: fe_tobytes_q_def shr_def fits32 q_def [symmetric, simplified] defs [symmetric, simplified])
  also have "(h9 + q8) div 2 ^ 25 = (fe_val h + q) div 2 ^ 255"
    unfolding defs floor_step unfolding 1 fe_val_limbs by (simp add: algebra_simps)
  finally show ?case using 1 by (simp add: q_def)
qed

text \<open>That division is the division by \<open>p\<close>.\<close>

lemma floor_is_quotient:
  fixes H h9 low :: int
  assumes H: "H = low + 2 ^ 230 * h9" and low: "\<bar>low\<bar> \<le> 2 ^ 232" and h9: "\<bar>h9\<bar> \<le> 2 ^ 26"
  shows "(H + (19 * h9 + 2 ^ 24) div 2 ^ 25) div 2 ^ 255 = H div p25519"
proof -
  define r where "r = H mod p25519"
  define q where "q = H div p25519"
  define d where "d = (19 * h9 + 2 ^ 24) div 2 ^ 25 - 19 * q"
  have p: "p25519 = 57896044618658097711785492504343953926634992332820282019728792003956564819949"
    by (simp add: p25519_def)
  have r: "0 \<le> r" "r < p25519" by (simp_all add: r_def p)
  have Hq: "H = q * p25519 + r" by (simp add: q_def r_def)
  have d1: "2 ^ 25 * (d + 19 * q) \<le> 19 * h9 + 2 ^ 24" "19 * h9 + 2 ^ 24 < 2 ^ 25 * (d + 19 * q) + 2 ^ 25"
    unfolding d_def using div_mult_between [of "2 ^ 25" "19 * h9 + 2 ^ 24"] by (simp_all add: mult.commute)
  have q: "- 4 \<le> q" "q \<le> 4"
    using Hq H low h9 r unfolding p by simp_all
  have "0 \<le> d" "d \<le> 19"
    using d1 H Hq low h9 r q unfolding p by simp_all
  then have "0 \<le> r + d" "r + d < 2 ^ 255" using r unfolding p by simp_all
  moreover have "H + (19 * h9 + 2 ^ 24) div 2 ^ 25 = 2 ^ 255 * q + (r + d)"
    unfolding d_def using Hq p by simp
  ultimately show ?thesis by (simp add: q_def)
qed

definition tobytes_in :: "ivl list" where
  "tobytes_in = (- 73819902, 73819902) # tl (fe_box 73819750 36909875)"

definition tobytes_out :: "ivl list" where
  "tobytes_out = [(0, 67108863), (0, 33554431), (0, 67108863), (0, 33554431), (0, 67108863),
     (0, 33554431), (0, 67108863), (0, 33554431), (0, 67108863), (0, 33554431)]"

interpretation tobytes: limb_program 32 "2 ^ 255" fe_weights fe_tobytes_carries tobytes_in tobytes_out
proof
  show "list_all (op_ok (2 ^ 255) fe_weights) fe_tobytes_carries" by code_simp
  show "ivl_covers 32 fe_tobytes_carries tobytes_in tobytes_out" by code_simp
  show "length tobytes_in = length fe_weights"
    by (simp add: tobytes_in_def fe_weights_def fe_box_def)
qed

lemma byte_pieces:
  fixes x :: int
  shows "x div 2 ^ a = (x div 2 ^ a) mod 256 + 256 * (x div 2 ^ (a + 8))"
proof -
  have "x div 2 ^ (a + 8) = x div 2 ^ a div 256" by (simp add: power_add zdiv_zmult2_eq)
  then show ?thesis by simp
qed

lemma limb_pieces:
  fixes x :: int
  shows "x = x mod 2 ^ m + 2 ^ m * ((x div 2 ^ m) mod 256) + 2 ^ (m + 8) * ((x div 2 ^ (m + 8)) mod 256)
    + 2 ^ (m + 16) * (x div 2 ^ (m + 16))"
proof -
  have "x = x mod 2 ^ m + 2 ^ m * (x div 2 ^ m)" by simp
  also have "x div 2 ^ m = (x div 2 ^ m) mod 256 + 256 * ((x div 2 ^ (m + 8)) mod 256 + 256 * (x div 2 ^ (m + 8 + 8)))"
    by (subst byte_pieces, subst byte_pieces [of x "m + 8"]) (rule refl)
  finally show ?thesis by (simp add: algebra_simps power_add)
qed

lemma shr_top:
  assumes "0 \<le> x" and "x < 2 ^ (k + j)"
  shows "0 \<le> shr x k \<and> shr x k < 2 ^ j"
proof -
  have "x div 2 ^ k * 2 ^ k < 2 ^ j * 2 ^ k"
    by (rule le_less_trans [OF div_mult_between(2)]) (use assms(2) in \<open>simp_all add: power_add mult.commute\<close>)
  with assms(1) show ?thesis by (simp add: shr_def pos_imp_zdiv_nonneg_iff)
qed

lemma fe_pack_val:
  assumes "in_bounds tobytes_out h"
  shows "length (fe_pack h) = 32 \<and> le_val (fe_pack h) = fe_val h"
proof -
  from assms obtain h0 h1 h2 h3 h4 h5 h6 h7 h8 h9 where h: "h = [h0, h1, h2, h3, h4, h5, h6, h7, h8, h9]"
     and b: "0 \<le> h0" "h0 < 2 ^ 26" "0 \<le> h1" "h1 < 2 ^ 25" "0 \<le> h2" "h2 < 2 ^ 26" "0 \<le> h3" "h3 < 2 ^ 25"
     "0 \<le> h4" "h4 < 2 ^ 26" "0 \<le> h5" "h5 < 2 ^ 25" "0 \<le> h6" "h6 < 2 ^ 26" "0 \<le> h7" "h7 < 2 ^ 25"
     "0 \<le> h8" "h8 < 2 ^ 26" "0 \<le> h9" "h9 < 2 ^ 25"
    by (auto simp: tobytes_out_def list_all2_Cons1 in_ivl_def)
  have tops: "0 \<le> shr h0 24 \<and> shr h0 24 < 2 ^ 2" "0 \<le> shr h1 22 \<and> shr h1 22 < 2 ^ 3"
    "0 \<le> shr h2 21 \<and> shr h2 21 < 2 ^ 5" "0 \<le> shr h3 19 \<and> shr h3 19 < 2 ^ 6"
    "0 \<le> shr h4 18 \<and> shr h4 18 < 2 ^ 8" "0 \<le> shr h5 24 \<and> shr h5 24 < 2 ^ 1"
    "0 \<le> shr h6 23 \<and> shr h6 23 < 2 ^ 3" "0 \<le> shr h7 21 \<and> shr h7 21 < 2 ^ 4"
    "0 \<le> shr h8 20 \<and> shr h8 20 < 2 ^ 6" "0 \<le> shr h9 18 \<and> shr h9 18 < 2 ^ 7"
    by (rule shr_top; use b in simp)+
  define ex where "ex m x = x mod 2 ^ m + 2 ^ m * ((x div 2 ^ m) mod 256)
    + 2 ^ (m + 8) * ((x div 2 ^ (m + 8)) mod 256) + 2 ^ (m + 16) * (x div 2 ^ (m + 16))"
    for m and x :: int
  have ex: "ex m x = x" for m x
    unfolding ex_def by (rule limb_pieces [symmetric])
  have "le_val (fe_pack h) =
    fe_val [ex 8 h0, ex 6 h1, ex 5 h2, ex 3 h3, ex 2 h4, ex 8 h5, ex 7 h6, ex 5 h7, ex 4 h8, ex 2 h9]"
    unfolding h fe_pack_def fe_val_limbs ex_def using tops
    by (simp add: uint_byte_of or_shl_mod) (simp add: shr_def algebra_simps)
  moreover have "length (fe_pack h) = 32" by (simp add: fe_pack_def Let_def)
  ultimately show ?thesis by (simp add: h ex)
qed

lemma tobytes_out_val:
  assumes "in_bounds tobytes_out k"
  shows "0 \<le> fe_val k" and "fe_val k < 2 ^ 255"
proof -
  have "le_val (fe_pack k) = fe_val k" "length (fe_pack k) = 32"
    using fe_pack_val [OF assms] by simp_all
  then show "0 \<le> fe_val k" using le_val_nonneg by metis
  from assms show "fe_val k < 2 ^ 255"
    by (auto simp: tobytes_out_def list_all2_Cons1 in_ivl_def fe_val_limbs)
qed

theorem fe_tobytes_spec:
  assumes "fe_medium h"
  shows "\<exists>s. fe_tobytes h = Some s \<and> length s = 32 \<and> le_val s = fe_val h mod p25519"
proof -
  define q where "q = fe_val h div p25519"
  from assms obtain h0 h1 h2 h3 h4 h5 h6 h7 h8 h9 where
    h: "h = [h0, h1, h2, h3, h4, h5, h6, h7, h8, h9]" and
    b: "in_bounds (fe_box 73819750 36909875) [h0, h1, h2, h3, h4, h5, h6, h7, h8, h9]"
    unfolding fe_medium_def by (elim ten_limbs) simp
  have "(fe_val h + (19 * h9 + 2 ^ 24) div 2 ^ 25) div 2 ^ 255 = q"
    unfolding q_def
    by (rule floor_is_quotient [where low = "fe_val h - 2 ^ 230 * h9"])
      (use b in \<open>simp_all add: h fe_val_limbs abs_le_iff\<close>)
  then have qs: "fe_tobytes_q h = Some q"
    using fe_tobytes_q_floor [OF assms] by (simp add: h)
  define r where "r = fe_val h mod p25519"
  have r: "0 \<le> r" "r < p25519" by (simp_all add: r_def p25519_def)
  have split: "fe_val h = q * p25519 + r" by (simp add: q_def r_def)
  have "- (2 ^ 257) \<le> fe_val h" "fe_val h \<le> 2 ^ 257"
    using b by (simp_all add: h fe_val_limbs)
  with split r have q: "- 8 \<le> q" "q \<le> 8"
    unfolding p25519_def by simp_all
  have "in_bounds tobytes_in (h[0 := h0 + 19 * q])"
    using b q by (simp add: tobytes_in_def h fe_box_def in_ivl_def)
  from tobytes.run_correct [OF this] obtain k where
    k: "limb_run 32 fe_tobytes_carries (h[0 := h0 + 19 * q]) = Some k" "in_bounds tobytes_out k"
       "fe_val k mod 2 ^ 255 = fe_val (h[0 := h0 + 19 * q]) mod 2 ^ 255"
    by (auto simp: fe_val_def)
  have "fe_val (h[0 := h0 + 19 * q]) = fe_val h + 19 * q" by (simp add: h fe_val_limbs)
  then have "fe_val (h[0 := h0 + 19 * q]) = 2 ^ 255 * q + r"
    using split by (simp add: p25519_def)
  then have "fe_val k = r"
    using k(3) tobytes_out_val [OF k(2)] r by (simp add: p25519_def)
  moreover have "fe_tobytes h = Some (fe_pack k)"
    using qs k(1) q b by (simp add: fe_tobytes_def h fits32)
  ultimately show ?thesis using fe_pack_val [OF k(2)] by (simp add: r_def)
qed

subsection \<open>Comparison, tests and conditional move\<close>

lemma uint_ucast_byte32: "uint (ucast (b :: byte) :: 32 word) = uint b"
  by (simp add: unsigned_ucast_eq take_bit_int_eq_self_iff order.strict_trans2 [OF uint_lt2p])

lemma sint_word_of_int32: "fits 32 x \<Longrightarrow> sint (word_of_int x :: 32 word) = x"
  by (simp add: fits_def sint_uint uint_word_of_int_eq signed_take_bit_take_bit signed_take_bit_int_eq_self)

lemma xor_zero_iff: "x XOR y = 0 \<longleftrightarrow> x = (y :: 'a :: len word)"
  by (metis xor.assoc xor.left_neutral xor.right_neutral xor_self_eq)

lemma verify_step_spec:
  assumes "uint acc < 256"
  shows "uint (verify_step x y i acc) < 256"
    and "verify_step x y i acc = 0 \<longleftrightarrow> acc = 0 \<and> x ! i = y ! i"
proof -
  have z: "ucast (x ! i) XOR ucast (y ! i) = (ucast (x ! i XOR y ! i) :: 32 word)"
    by (rule bit_word_eqI) (simp add: bit_ucast_iff bit_xor_iff)
  have "uint (x ! i XOR y ! i) < 2 ^ 8" using uint_lt2p [of "x ! i XOR y ! i"] by simp
  then show "uint (verify_step x y i acc) < 256"
    using assms OR_upper [of "uint acc" 8 "uint (x ! i XOR y ! i)"]
    by (simp only: verify_step_def uint_or z uint_ucast_byte32) simp
  have "(ucast (x ! i XOR y ! i) :: 32 word) = 0 \<longleftrightarrow> x ! i XOR y ! i = 0"
    by (simp only: word_uint_eq_iff uint_ucast_byte32) simp
  then show "verify_step x y i acc = 0 \<longleftrightarrow> acc = 0 \<and> x ! i = y ! i"
    by (simp add: verify_step_def z xor_zero_iff or_eq_0_iff)
qed

lemma verify_fold:
  "uint acc < 256 \<Longrightarrow> uint (fold (verify_step x y) js acc) < 256
    \<and> (fold (verify_step x y) js acc = 0 \<longleftrightarrow> acc = 0 \<and> (\<forall>i \<in> set js. x ! i = y ! i))"
  by (induction js arbitrary: acc) (auto simp: verify_step_spec)

theorem verify_32_spec:
  "simpleot_crypto_verify_32 x y = (if \<forall>i < 32. x ! i = y ! i then 0 else -1)"
proof -
  define d where "d = fold (verify_step x y) [0..<32] 0"
  have d: "uint d < 256" "d = 0 \<longleftrightarrow> (\<forall>i < 32. x ! i = y ! i)"
    using verify_fold [of 0 x y "[0..<32]"] by (auto simp: d_def)
  have "drop_bit 8 (d - 1) = (if d = 0 then mask 24 else 0)"
  proof (cases "d = 0")
    case True
    then show ?thesis by simp
  next
    case False
    then have "uint d \<noteq> 0" by (simp only: word_uint_eq_iff) simp
    then have "1 \<le> uint d" using uint_ge_0 [of d] by linarith
    then have "uint (d - 1) = uint d - 1" by (simp add: uint_sub_if')
    then have "uint (drop_bit 8 (d - 1)) = 0" using d(1) \<open>1 \<le> uint d\<close>
      by (simp only: unsigned_drop_bit_eq) (simp add: drop_bit_eq_div take_bit_eq_mod)
    then show ?thesis using False by (simp only: word_uint_eq_iff) simp
  qed
  then show ?thesis using d(2)
    by (simp add: simpleot_crypto_verify_32_def d_def [symmetric] mask_eq_exp_minus_1)
qed

lemma cmov_limb_0: "fits 32 f \<Longrightarrow> cmov_limb 0 f g = f"
  by (simp add: cmov_limb_def sint_word_of_int32)

lemma cmov_limb_1: "fits 32 g \<Longrightarrow> cmov_limb (- 1) f g = g"
  by (simp add: cmov_limb_def sint_word_of_int32 flip: xor.assoc)

theorem fe_cmov_spec:
  assumes "fe_loose f" and "fe_loose g"
  shows "fe_cmov f g 0 = f" and "fe_cmov f g 1 = g"
  using assms unfolding fe_loose_def
  by (elim ten_limbs, simp add: fe_cmov_def cmov_limb_0 cmov_limb_1 fits32)+

lemma le_val_zero: "le_val s = 0 \<longleftrightarrow> (\<forall>i < length s. s ! i = 0)"
proof (induction s)
  case Nil
  then show ?case by simp
next
  case (Cons b s)
  have "0 \<le> uint b" "0 \<le> le_val s" by simp_all
  then have "le_val (b # s) = 0 \<longleftrightarrow> uint b = 0 \<and> le_val s = 0"
    unfolding le_val.simps by linarith
  also have "uint b = 0 \<longleftrightarrow> b = 0" by (simp only: word_uint_eq_iff) simp
  finally show ?case using Cons.IH by (auto simp: nth_Cons less_Suc_eq_0_disj)
qed

text \<open>
  The comment in \<^verbatim>\<open>fe_isnonzero.c\<close> promises 1 for zero and 0 otherwise; the code returns 0 for
  zero and -1 otherwise, which is what its callers use.
\<close>

theorem fe_isnonzero_spec:
  assumes "fe_medium f"
  shows "fe_isnonzero f = Some (if fe_val f mod p25519 = 0 then 0 else -1)"
proof -
  obtain s where s: "fe_tobytes f = Some s" "length s = 32" "le_val s = fe_val f mod p25519"
    using fe_tobytes_spec [OF assms] by blast
  have "(\<forall>i < 32. s ! i = replicate 32 0 ! i) \<longleftrightarrow> le_val s = 0"
    using s(2) by (auto simp: le_val_zero)
  then show ?thesis using s(1,3) by (simp add: fe_isnonzero_def verify_32_spec)
qed

theorem fe_isnegative_spec:
  assumes "fe_medium f"
  shows "fe_isnegative f = Some (fe_val f mod p25519 mod 2)"
proof -
  obtain s where s: "fe_tobytes f = Some s" "length s = 32" "le_val s = fe_val f mod p25519"
    using fe_tobytes_spec [OF assms] by blast
  then obtain b bs where "s = b # bs" by (cases s) auto
  then have "uint (s ! 0 AND 1) = le_val s mod 2"
    by (simp add: and_one_eq uint_mod_distrib mod_add_eq [symmetric] mod_mult_eq [symmetric])
  with s show ?thesis by (simp add: fe_isnegative_def)
qed

end
