(* ===== verification/FePow.thy ===== *)
theory FePow
  imports FeBytes
begin

text \<open>
  The two fixed exponentiations of the field: \<^verbatim>\<open>fe_invert\<close> (\<^verbatim>\<open>pow225521.h\<close>, exponent
  \<open>2^255 - 21 = p - 2\<close>) and \<^verbatim>\<open>fe_pow22523\<close> (\<^verbatim>\<open>pow22523.h\<close>, exponent \<open>2^252 - 3\<close>), as the
  straight-line programs of squarings and multiplications that the headers contain.
\<close>

subsection \<open>The programs\<close>

text \<open>\<^verbatim>\<open>for (; i < n; ++i) fe_sq(t, t);\<close>\<close>

function fe_sq_loop :: "nat \<Rightarrow> nat \<Rightarrow> fe \<Rightarrow> fe option" where
  "fe_sq_loop i n t = (if i < n then do { t \<leftarrow> fe_sq t; fe_sq_loop (i + 1) n t } else Some t)"
  by pat_completeness auto
termination
  by (relation "measure (\<lambda>(i, n, t). n - i)") auto

declare fe_sq_loop.simps [simp del]

definition fe_invert :: "fe \<Rightarrow> fe option" where
  "fe_invert z = do {
     t0 \<leftarrow> fe_sq z;       t0 \<leftarrow> fe_sq_loop 1 1 t0;
     t1 \<leftarrow> fe_sq t0;      t1 \<leftarrow> fe_sq_loop 1 2 t1;
     t1 \<leftarrow> fe_mul z t1;
     t0 \<leftarrow> fe_mul t0 t1;
     t2 \<leftarrow> fe_sq t0;      t2 \<leftarrow> fe_sq_loop 1 1 t2;
     t1 \<leftarrow> fe_mul t1 t2;
     t2 \<leftarrow> fe_sq t1;      t2 \<leftarrow> fe_sq_loop 1 5 t2;
     t1 \<leftarrow> fe_mul t2 t1;
     t2 \<leftarrow> fe_sq t1;      t2 \<leftarrow> fe_sq_loop 1 10 t2;
     t2 \<leftarrow> fe_mul t2 t1;
     t3 \<leftarrow> fe_sq t2;      t3 \<leftarrow> fe_sq_loop 1 20 t3;
     t2 \<leftarrow> fe_mul t3 t2;
     t2 \<leftarrow> fe_sq t2;      t2 \<leftarrow> fe_sq_loop 1 10 t2;
     t1 \<leftarrow> fe_mul t2 t1;
     t2 \<leftarrow> fe_sq t1;      t2 \<leftarrow> fe_sq_loop 1 50 t2;
     t2 \<leftarrow> fe_mul t2 t1;
     t3 \<leftarrow> fe_sq t2;      t3 \<leftarrow> fe_sq_loop 1 100 t3;
     t2 \<leftarrow> fe_mul t3 t2;
     t2 \<leftarrow> fe_sq t2;      t2 \<leftarrow> fe_sq_loop 1 50 t2;
     t1 \<leftarrow> fe_mul t2 t1;
     t1 \<leftarrow> fe_sq t1;      t1 \<leftarrow> fe_sq_loop 1 5 t1;
     fe_mul t1 t0 }"

definition fe_pow22523 :: "fe \<Rightarrow> fe option" where
  "fe_pow22523 z = do {
     t0 \<leftarrow> fe_sq z;       t0 \<leftarrow> fe_sq_loop 1 1 t0;
     t1 \<leftarrow> fe_sq t0;      t1 \<leftarrow> fe_sq_loop 1 2 t1;
     t1 \<leftarrow> fe_mul z t1;
     t0 \<leftarrow> fe_mul t0 t1;
     t0 \<leftarrow> fe_sq t0;      t0 \<leftarrow> fe_sq_loop 1 1 t0;
     t0 \<leftarrow> fe_mul t1 t0;
     t1 \<leftarrow> fe_sq t0;      t1 \<leftarrow> fe_sq_loop 1 5 t1;
     t0 \<leftarrow> fe_mul t1 t0;
     t1 \<leftarrow> fe_sq t0;      t1 \<leftarrow> fe_sq_loop 1 10 t1;
     t1 \<leftarrow> fe_mul t1 t0;
     t2 \<leftarrow> fe_sq t1;      t2 \<leftarrow> fe_sq_loop 1 20 t2;
     t1 \<leftarrow> fe_mul t2 t1;
     t1 \<leftarrow> fe_sq t1;      t1 \<leftarrow> fe_sq_loop 1 10 t1;
     t0 \<leftarrow> fe_mul t1 t0;
     t1 \<leftarrow> fe_sq t0;      t1 \<leftarrow> fe_sq_loop 1 50 t1;
     t1 \<leftarrow> fe_mul t1 t0;
     t2 \<leftarrow> fe_sq t1;      t2 \<leftarrow> fe_sq_loop 1 100 t2;
     t1 \<leftarrow> fe_mul t2 t1;
     t1 \<leftarrow> fe_sq t1;      t1 \<leftarrow> fe_sq_loop 1 50 t1;
     t0 \<leftarrow> fe_mul t1 t0;
     t0 \<leftarrow> fe_sq t0;      t0 \<leftarrow> fe_sq_loop 1 2 t0;
     fe_mul t0 z }"

subsection \<open>Which power is computed\<close>

definition is_power :: "int \<Rightarrow> nat \<Rightarrow> fe \<Rightarrow> bool" where
  "is_power z e t \<longleftrightarrow> fe_loose t \<and> fe_val t mod p25519 = z ^ e mod p25519"

lemma is_power_mul:
  assumes "is_power z a t" and "is_power z b u"
  shows "\<exists>r. fe_mul t u = Some r \<and> fe_tight r \<and> is_power z (a + b) r"
proof -
  obtain r where r: "fe_mul t u = Some r" "fe_tight r"
    "fe_val r mod p25519 = fe_val t * fe_val u mod p25519"
    using fe_mul_spec assms unfolding is_power_def by blast
  have "fe_val t * fe_val u mod p25519 = z ^ a * z ^ b mod p25519"
    using assms unfolding is_power_def by (metis mod_mult_eq)
  with r show ?thesis by (auto simp: is_power_def power_add fe_bounds_chain)
qed

lemma is_power_sq:
  assumes "is_power z a t"
  shows "\<exists>r. fe_sq t = Some r \<and> is_power z (2 * a) r"
proof -
  obtain r where r: "fe_sq t = Some r" "fe_tight r"
    "fe_val r mod p25519 = fe_val t * fe_val t mod p25519"
    using fe_sq_spec assms unfolding is_power_def by blast
  have "fe_val t * fe_val t mod p25519 = z ^ a * z ^ a mod p25519"
    using assms unfolding is_power_def by (metis mod_mult_eq)
  with r show ?thesis
    by (auto simp: is_power_def fe_bounds_chain mult_2 simp flip: power_add)
qed

lemma is_power_sq_loop:
  assumes "is_power z a t"
  shows "\<exists>r. fe_sq_loop i n t = Some r \<and> is_power z (2 ^ (n - i) * a) r"
  using assms
proof (induction i n t arbitrary: a rule: fe_sq_loop.induct)
  case (1 i n t)
  show ?case
  proof (cases "i < n")
    case True
    obtain u where u: "fe_sq t = Some u" "is_power z (2 * a) u"
      using is_power_sq [OF "1.prems"] by blast
    have "n - i = Suc (n - (i + 1))" using True by simp
    with "1.IH" [OF True u(1) u(2)] True u(1) show ?thesis
      by (auto simp: fe_sq_loop.simps [of i n t] mult.assoc mult.left_commute)
  next
    case False
    with "1.prems" show ?thesis by (simp add: fe_sq_loop.simps [of i n t])
  qed
qed

text \<open>One step of a straight-line program, with the exponent it reaches.\<close>

lemma mul_then:
  assumes "is_power z a t" and "is_power z b u"
    and "\<And>r. is_power z (a + b) r \<Longrightarrow> \<exists>x. k r = Some x \<and> Q x"
  shows "\<exists>x. Option.bind (fe_mul t u) k = Some x \<and> Q x"
  using is_power_mul [OF assms(1,2)] assms(3) by auto

lemma sq_then:
  assumes "is_power z a t"
    and "\<And>r. is_power z (2 * a) r \<Longrightarrow> \<exists>x. k r = Some x \<and> Q x"
  shows "\<exists>x. Option.bind (fe_sq t) k = Some x \<and> Q x"
  using is_power_sq [OF assms(1)] assms(2) by auto

lemma sq_loop_then:
  assumes "is_power z a t"
    and "\<And>r. is_power z (2 ^ (n - i) * a) r \<Longrightarrow> \<exists>x. k r = Some x \<and> Q x"
  shows "\<exists>x. Option.bind (fe_sq_loop i n t) k = Some x \<and> Q x"
  using is_power_sq_loop [OF assms(1)] assms(2) by fastforce

lemmas power_steps = mul_then sq_then sq_loop_then

lemma mul_last:
  assumes "is_power z a t" and "is_power z b u" and "a + b = e"
  shows "\<exists>r. fe_mul t u = Some r \<and> fe_tight r \<and> fe_val r mod p25519 = z ^ e mod p25519"
  using is_power_mul [OF assms(1,2)] assms(3) by (auto simp: is_power_def)

theorem fe_invert_spec:
  assumes "fe_loose z"
  shows "\<exists>r. fe_invert z = Some r \<and> fe_tight r
    \<and> fe_val r mod p25519 = fe_val z ^ (2 ^ 255 - 21) mod p25519"
proof -
  have one: "is_power (fe_val z) 1 z" using assms by (simp add: is_power_def)
  show ?thesis
    unfolding fe_invert_def
    apply (rule power_steps, (rule one | assumption)+)+
    apply (rule mul_last, assumption, assumption, simp)
    done
qed

theorem fe_pow22523_spec:
  assumes "fe_loose z"
  shows "\<exists>r. fe_pow22523 z = Some r \<and> fe_tight r
    \<and> fe_val r mod p25519 = fe_val z ^ (2 ^ 252 - 3) mod p25519"
proof -
  have one: "is_power (fe_val z) 1 z" using assms by (simp add: is_power_def)
  show ?thesis
    unfolding fe_pow22523_def
    apply (rule power_steps, (rule one | assumption)+)+
    apply (rule mul_last, assumption, rule one, simp)
    done
qed

end
