(* ===== verification/Gf25519.thy ===== *)
theory Gf25519
  imports FePow
begin

text \<open>
  The integers modulo \<open>p = 2^255 - 19\<close> as a type with its ring operations, and the field
  operations of the program read in it: \<open>gf_of f\<close> is the residue a limb array stands for.  The
  rules \<open>fe_rules\<close> say of each operation that it runs without overflow on operands within a size
  class, which size class the result is in, and which ring operation it computes.
\<close>

subsection \<open>The ring\<close>

lemma p25519_gt1: "1 < p25519"
  by (simp add: p25519_def)

typedef gf = "{0..<p25519}"
  using p25519_gt1 by (intro exI [of _ 0]) simp

setup_lifting type_definition_gf

instantiation gf :: comm_ring_1
begin

lift_definition zero_gf :: gf is 0 using p25519_gt1 by simp
lift_definition one_gf :: gf is 1 using p25519_gt1 by simp
lift_definition plus_gf :: "gf \<Rightarrow> gf \<Rightarrow> gf" is "\<lambda>x y. (x + y) mod p25519" using p25519_gt1 by simp
lift_definition minus_gf :: "gf \<Rightarrow> gf \<Rightarrow> gf" is "\<lambda>x y. (x - y) mod p25519" using p25519_gt1 by simp
lift_definition uminus_gf :: "gf \<Rightarrow> gf" is "\<lambda>x. (- x) mod p25519" using p25519_gt1 by simp
lift_definition times_gf :: "gf \<Rightarrow> gf \<Rightarrow> gf" is "\<lambda>x y. (x * y) mod p25519" using p25519_gt1 by simp

instance
proof
  fix a b c :: gf
  show "a * b * c = a * (b * c)" by transfer (simp add: mod_simps mult.assoc)
  show "a * b = b * a" by transfer (simp add: mult.commute)
  show "1 * a = a" by transfer simp
  show "a + b + c = a + (b + c)" by transfer (simp add: mod_simps add.assoc)
  show "a + b = b + a" by transfer (simp add: add.commute)
  show "0 + a = a" by transfer simp
  show "- a + a = 0" by transfer (simp add: mod_simps)
  show "a - b = a + - b" by transfer (simp add: mod_simps)
  show "(a + b) * c = a * c + b * c" by transfer (simp add: mod_simps distrib_right)
  show "(0 :: gf) \<noteq> 1" by transfer simp
qed

end

lift_definition gf_int :: "int \<Rightarrow> gf" is "\<lambda>x. x mod p25519"
  using p25519_gt1 by simp

lemma gf_int_hom:
  "gf_int 0 = 0" "gf_int 1 = 1" "gf_int (x + y) = gf_int x + gf_int y"
  "gf_int (x - y) = gf_int x - gf_int y" "gf_int (- x) = - gf_int x" "gf_int (x * y) = gf_int x * gf_int y"
  using p25519_gt1 by (transfer, simp add: mod_simps)+

lemma gf_int_eq_iff: "gf_int x = gf_int y \<longleftrightarrow> x mod p25519 = y mod p25519"
  by transfer simp

lemma gf_int_power: "gf_int (x ^ n) = gf_int x ^ n"
  by (induction n) (simp_all add: gf_int_hom)

lemma gf_int_numeral: "gf_int (numeral n) = numeral n"
proof -
  have "gf_int (int k) = of_nat k" for k by (induction k) (simp_all add: gf_int_hom)
  from this [of "numeral n"] show ?thesis by simp
qed

lemma gf_int_Rep: "gf_int (Rep_gf x) = x"
  by transfer simp

lemma Rep_gf_int: "Rep_gf (gf_int x) = x mod p25519"
  by transfer simp

lemma Rep_gf_range: "0 \<le> Rep_gf x" "Rep_gf x < p25519"
  using Rep_gf [of x] by simp_all

subsection \<open>The operations of the program in the ring\<close>

definition gf_of :: "fe \<Rightarrow> gf" where
  "gf_of f = gf_int (fe_val f)"

lemma gf_of_eqI: "fe_val f mod p25519 = x mod p25519 \<Longrightarrow> gf_of f = gf_int x"
  by (simp add: gf_of_def gf_int_eq_iff)

lemma gf_of_const [simp]: "gf_of fe_0 = 0" "gf_of fe_1 = 1"
  by (simp_all add: gf_of_def gf_int_hom fe_const_val)

lemma fe_add_gf:
  assumes "in_bounds (fe_box a b) f" and "in_bounds (fe_box c d) g"
    and "a + c \<le> A" and "b + d \<le> B" and "A < 2147483648" and "B < 2147483648"
  shows "runs (fe_add f g) (\<lambda>h. in_bounds (fe_box A B) h \<and> gf_of h = gf_of f + gf_of g)"
  using fe_add_spec [OF assms(1,2)] assms(3-6)
  by (auto simp: runs_def gf_of_def gf_int_hom elim: fe_box_mono)

lemma fe_sub_gf:
  assumes "in_bounds (fe_box a b) f" and "in_bounds (fe_box c d) g"
    and "a + c \<le> A" and "b + d \<le> B" and "A < 2147483648" and "B < 2147483648"
  shows "runs (fe_sub f g) (\<lambda>h. in_bounds (fe_box A B) h \<and> gf_of h = gf_of f - gf_of g)"
  using fe_sub_spec [OF assms(1,2)] assms(3-6)
  by (auto simp: runs_def gf_of_def gf_int_hom elim: fe_box_mono)

lemma fe_add_small: "fe_small f \<Longrightarrow> fe_small g \<Longrightarrow>
    runs (fe_add f g) (\<lambda>h. fe_medium h \<and> gf_of h = gf_of f + gf_of g)"
  unfolding fe_small_def fe_medium_def
  by (rule fe_add_gf, assumption, assumption) simp_all

lemma fe_sub_small: "fe_small f \<Longrightarrow> fe_small g \<Longrightarrow>
    runs (fe_sub f g) (\<lambda>h. fe_medium h \<and> gf_of h = gf_of f - gf_of g)"
  unfolding fe_small_def fe_medium_def
  by (rule fe_sub_gf, assumption, assumption) simp_all

lemma fe_add_medium: "fe_medium f \<Longrightarrow> fe_small g \<Longrightarrow>
    runs (fe_add f g) (\<lambda>h. fe_loose h \<and> gf_of h = gf_of f + gf_of g)"
  unfolding fe_small_def fe_medium_def fe_loose_def
  by (rule fe_add_gf, assumption, assumption) simp_all

lemma fe_sub_medium: "fe_medium f \<Longrightarrow> fe_small g \<Longrightarrow>
    runs (fe_sub f g) (\<lambda>h. fe_loose h \<and> gf_of h = gf_of f - gf_of g)"
  unfolding fe_small_def fe_medium_def fe_loose_def
  by (rule fe_sub_gf, assumption, assumption) simp_all

lemma fe_sub_small_medium: "fe_small f \<Longrightarrow> fe_medium g \<Longrightarrow>
    runs (fe_sub f g) (\<lambda>h. fe_loose h \<and> gf_of h = gf_of f - gf_of g)"
  unfolding fe_small_def fe_medium_def fe_loose_def
  by (rule fe_sub_gf, assumption, assumption) simp_all

lemma fe_one_box: "in_bounds (fe_box 1 1) fe_1"
  by (simp add: fe_1_def)

lemma fe_add_one: "fe_tight f \<Longrightarrow> runs (fe_add f fe_1) (\<lambda>h. fe_small h \<and> gf_of h = gf_of f + 1)"
  unfolding fe_tight_def fe_small_def
  using fe_add_gf [OF _ fe_one_box] by simp

lemma fe_sub_one: "fe_tight f \<Longrightarrow> runs (fe_sub f fe_1) (\<lambda>h. fe_small h \<and> gf_of h = gf_of f - 1)"
  unfolding fe_tight_def fe_small_def
  using fe_sub_gf [OF _ fe_one_box] by simp

lemma fe_neg_tight: "fe_tight f \<Longrightarrow> runs (fe_neg f) (\<lambda>h. fe_tight h \<and> gf_of h = - gf_of f)"
  unfolding fe_tight_def using fe_neg_spec [of 33889976 16944988 f]
  by (auto simp: runs_def gf_of_def gf_int_hom)

lemma fe_mul_gf: "fe_loose f \<Longrightarrow> fe_loose g \<Longrightarrow>
    runs (fe_mul f g) (\<lambda>h. fe_tight h \<and> gf_of h = gf_of f * gf_of g)"
  using fe_mul_spec [of f g] by (auto simp: runs_def gf_of_def gf_int_eq_iff simp flip: gf_int_hom)

lemma fe_sq_gf: "fe_loose f \<Longrightarrow> runs (fe_sq f) (\<lambda>h. fe_tight h \<and> gf_of h = gf_of f * gf_of f)"
  using fe_sq_spec [of f] by (auto simp: runs_def gf_of_def gf_int_eq_iff simp flip: gf_int_hom)

lemma fe_sq2_gf: "fe_loose f \<Longrightarrow> runs (fe_sq2 f) (\<lambda>h. fe_tight h \<and> gf_of h = 2 * (gf_of f * gf_of f))"
  using fe_sq2_spec [of f]
  by (auto simp: runs_def gf_of_def gf_int_eq_iff simp flip: gf_int_hom gf_int_numeral)

text \<open>The two exponentiations, by \<open>p - 2\<close> and \<open>(p - 5) / 8\<close>.\<close>

definition gf_inv :: "gf \<Rightarrow> gf" where
  "gf_inv x = x ^ (2 ^ 255 - 21)"

definition gf_pow22523 :: "gf \<Rightarrow> gf" where
  "gf_pow22523 x = x ^ (2 ^ 252 - 3)"

lemma gf_inv_1 [simp]: "gf_inv 1 = 1"
  by (simp add: gf_inv_def)

lemma fe_invert_gf: "fe_loose f \<Longrightarrow> runs (fe_invert f) (\<lambda>h. fe_tight h \<and> gf_of h = gf_inv (gf_of f))"
  using fe_invert_spec [of f]
  by (auto simp: runs_def gf_of_def gf_inv_def gf_int_eq_iff simp flip: gf_int_power)

lemma fe_pow22523_gf:
  "fe_loose f \<Longrightarrow> runs (fe_pow22523 f) (\<lambda>h. fe_tight h \<and> gf_of h = gf_pow22523 (gf_of f))"
  using fe_pow22523_spec [of f]
  by (auto simp: runs_def gf_of_def gf_pow22523_def gf_int_eq_iff simp flip: gf_int_power)

lemma fe_frombytes_gf:
  "length s = 32 \<Longrightarrow> runs (fe_frombytes s) (\<lambda>h. fe_tight h \<and> gf_of h = gf_int (le_val s mod 2 ^ 255))"
  using fe_frombytes_spec [of s] by (auto simp: runs_def gf_of_def gf_int_eq_iff)

lemma fe_tobytes_gf:
  "fe_medium f \<Longrightarrow> runs (fe_tobytes f) (\<lambda>s. length s = 32 \<and> le_val s = Rep_gf (gf_of f))"
  using fe_tobytes_spec [of f] by (auto simp: runs_def gf_of_def Rep_gf_int)

lemma fe_isnonzero_gf: "fe_medium f \<Longrightarrow> fe_isnonzero f = Some (if gf_of f = 0 then 0 else - 1)"
  using gf_int_eq_iff [of "fe_val f" 0] by (simp add: fe_isnonzero_spec gf_of_def gf_int_hom)

lemma fe_isnegative_gf: "fe_medium f \<Longrightarrow> fe_isnegative f = Some (Rep_gf (gf_of f) mod 2)"
  by (simp add: fe_isnegative_spec gf_of_def Rep_gf_int)

lemma fe_copy_tight: "fe_tight f \<Longrightarrow> fe_copy f = f"
  unfolding fe_tight_def by (rule fe_copy_id)

lemmas fe_rules = fe_add_small fe_sub_small fe_add_medium fe_sub_medium fe_sub_small_medium
  fe_mul_gf fe_sq_gf fe_sq2_gf fe_neg_tight fe_invert_gf fe_pow22523_gf

end
