(* ===== verification/Ge25519.thy ===== *)
theory Ge25519
  imports Gf25519
begin

unbundle bit_operations_syntax

text \<open>
  Points of the curve \<open>- x^2 + y^2 = 1 + d x^2 y^2\<close> (\<^verbatim>\<open>ge.h\<close>, \<^verbatim>\<open>ge_*.c\<close>, \<^verbatim>\<open>ge_*.h\<close>) in the five
  coordinate systems of the source, one record each, and the operations on them, statement by
  statement: additions, doubling, conversions, compression and decompression.  \<open>p3_rep\<close>,
  \<open>cached_rep\<close>, \<dots> say which affine point a record stands for.  The theorems show that every
  operation runs without overflow on records within the size classes the others produce, and
  that it computes the Edwards addition law: the stated denominators times the coordinates of the
  result are the numerators of the law.
\<close>

subsection \<open>Data\<close>

record ge_p2 =
  p2_X :: fe
  p2_Y :: fe
  p2_Z :: fe

record ge_p3 =
  p3_X :: fe
  p3_Y :: fe
  p3_Z :: fe
  p3_T :: fe

record ge_p1p1 =
  p1p1_X :: fe
  p1p1_Y :: fe
  p1p1_Z :: fe
  p1p1_T :: fe

record ge_precomp =
  yplusx :: fe
  yminusx :: fe
  xy2d :: fe

record ge_cached =
  YplusX :: fe
  YminusX :: fe
  cached_Z :: fe
  T2d :: fe

definition d :: fe where
  "d = [- 10913610, 13857413, - 15372611, 6949391, 114729, - 8787816, - 6275908, - 3247719,
        - 18696448, - 12055116]"

definition d2 :: fe where
  "d2 = [- 21827239, - 5839606, - 30745221, 13898782, 229458, 15978800, - 12551817, - 6495438,
         29715968, 9444199]"

definition sqrtm1 :: fe where
  "sqrtm1 = [- 32595792, - 7943725, 9377950, 3500415, 12389472, - 272473, - 25146209, - 2005654,
             326686, 11406482]"

subsection \<open>Operations\<close>

definition ge_p2_0 :: ge_p2 where
  "ge_p2_0 = \<lparr>p2_X = fe_0, p2_Y = fe_1, p2_Z = fe_1\<rparr>"

definition ge_p3_0 :: ge_p3 where
  "ge_p3_0 = \<lparr>p3_X = fe_0, p3_Y = fe_1, p3_Z = fe_1, p3_T = fe_0\<rparr>"

definition ge_precomp_0 :: ge_precomp where
  "ge_precomp_0 = \<lparr>yplusx = fe_1, yminusx = fe_1, xy2d = fe_0\<rparr>"

definition ge_add :: "ge_p3 \<Rightarrow> ge_cached \<Rightarrow> ge_p1p1 option" where
  "ge_add p q = do {
     rX \<leftarrow> fe_add (p3_Y p) (p3_X p);
     rY \<leftarrow> fe_sub (p3_Y p) (p3_X p);
     rZ \<leftarrow> fe_mul rX (YplusX q);
     rY \<leftarrow> fe_mul rY (YminusX q);
     rT \<leftarrow> fe_mul (T2d q) (p3_T p);
     rX \<leftarrow> fe_mul (p3_Z p) (cached_Z q);
     t0 \<leftarrow> fe_add rX rX;
     rX \<leftarrow> fe_sub rZ rY;
     rY \<leftarrow> fe_add rZ rY;
     rZ \<leftarrow> fe_add t0 rT;
     rT \<leftarrow> fe_sub t0 rT;
     Some \<lparr>p1p1_X = rX, p1p1_Y = rY, p1p1_Z = rZ, p1p1_T = rT\<rparr> }"

definition ge_sub :: "ge_p3 \<Rightarrow> ge_cached \<Rightarrow> ge_p1p1 option" where
  "ge_sub p q = do {
     rX \<leftarrow> fe_add (p3_Y p) (p3_X p);
     rY \<leftarrow> fe_sub (p3_Y p) (p3_X p);
     rZ \<leftarrow> fe_mul rX (YminusX q);
     rY \<leftarrow> fe_mul rY (YplusX q);
     rT \<leftarrow> fe_mul (T2d q) (p3_T p);
     rX \<leftarrow> fe_mul (p3_Z p) (cached_Z q);
     t0 \<leftarrow> fe_add rX rX;
     rX \<leftarrow> fe_sub rZ rY;
     rY \<leftarrow> fe_add rZ rY;
     rZ \<leftarrow> fe_sub t0 rT;
     rT \<leftarrow> fe_add t0 rT;
     Some \<lparr>p1p1_X = rX, p1p1_Y = rY, p1p1_Z = rZ, p1p1_T = rT\<rparr> }"

definition ge_madd :: "ge_p3 \<Rightarrow> ge_precomp \<Rightarrow> ge_p1p1 option" where
  "ge_madd p q = do {
     rX \<leftarrow> fe_add (p3_Y p) (p3_X p);
     rY \<leftarrow> fe_sub (p3_Y p) (p3_X p);
     rZ \<leftarrow> fe_mul rX (yplusx q);
     rY \<leftarrow> fe_mul rY (yminusx q);
     rT \<leftarrow> fe_mul (xy2d q) (p3_T p);
     t0 \<leftarrow> fe_add (p3_Z p) (p3_Z p);
     rX \<leftarrow> fe_sub rZ rY;
     rY \<leftarrow> fe_add rZ rY;
     rZ \<leftarrow> fe_add t0 rT;
     rT \<leftarrow> fe_sub t0 rT;
     Some \<lparr>p1p1_X = rX, p1p1_Y = rY, p1p1_Z = rZ, p1p1_T = rT\<rparr> }"

definition ge_msub :: "ge_p3 \<Rightarrow> ge_precomp \<Rightarrow> ge_p1p1 option" where
  "ge_msub p q = do {
     rX \<leftarrow> fe_add (p3_Y p) (p3_X p);
     rY \<leftarrow> fe_sub (p3_Y p) (p3_X p);
     rZ \<leftarrow> fe_mul rX (yminusx q);
     rY \<leftarrow> fe_mul rY (yplusx q);
     rT \<leftarrow> fe_mul (xy2d q) (p3_T p);
     t0 \<leftarrow> fe_add (p3_Z p) (p3_Z p);
     rX \<leftarrow> fe_sub rZ rY;
     rY \<leftarrow> fe_add rZ rY;
     rZ \<leftarrow> fe_sub t0 rT;
     rT \<leftarrow> fe_add t0 rT;
     Some \<lparr>p1p1_X = rX, p1p1_Y = rY, p1p1_Z = rZ, p1p1_T = rT\<rparr> }"

definition ge_p2_dbl :: "ge_p2 \<Rightarrow> ge_p1p1 option" where
  "ge_p2_dbl p = do {
     rX \<leftarrow> fe_sq (p2_X p);
     rZ \<leftarrow> fe_sq (p2_Y p);
     rT \<leftarrow> fe_sq2 (p2_Z p);
     rY \<leftarrow> fe_add (p2_X p) (p2_Y p);
     t0 \<leftarrow> fe_sq rY;
     rY \<leftarrow> fe_add rZ rX;
     rZ \<leftarrow> fe_sub rZ rX;
     rX \<leftarrow> fe_sub t0 rY;
     rT \<leftarrow> fe_sub rT rZ;
     Some \<lparr>p1p1_X = rX, p1p1_Y = rY, p1p1_Z = rZ, p1p1_T = rT\<rparr> }"

definition ge_p3_to_p2 :: "ge_p3 \<Rightarrow> ge_p2" where
  "ge_p3_to_p2 p = \<lparr>p2_X = fe_copy (p3_X p), p2_Y = fe_copy (p3_Y p), p2_Z = fe_copy (p3_Z p)\<rparr>"

definition ge_p3_to_cached :: "ge_p3 \<Rightarrow> ge_cached option" where
  "ge_p3_to_cached p = do {
     a \<leftarrow> fe_add (p3_Y p) (p3_X p);
     b \<leftarrow> fe_sub (p3_Y p) (p3_X p);
     let z = fe_copy (p3_Z p);
     t \<leftarrow> fe_mul (p3_T p) d2;
     Some \<lparr>YplusX = a, YminusX = b, cached_Z = z, T2d = t\<rparr> }"

definition ge_p1p1_to_p2 :: "ge_p1p1 \<Rightarrow> ge_p2 option" where
  "ge_p1p1_to_p2 p = do {
     x \<leftarrow> fe_mul (p1p1_X p) (p1p1_T p);
     y \<leftarrow> fe_mul (p1p1_Y p) (p1p1_Z p);
     z \<leftarrow> fe_mul (p1p1_Z p) (p1p1_T p);
     Some \<lparr>p2_X = x, p2_Y = y, p2_Z = z\<rparr> }"

definition ge_p1p1_to_p3 :: "ge_p1p1 \<Rightarrow> ge_p3 option" where
  "ge_p1p1_to_p3 p = do {
     x \<leftarrow> fe_mul (p1p1_X p) (p1p1_T p);
     y \<leftarrow> fe_mul (p1p1_Y p) (p1p1_Z p);
     z \<leftarrow> fe_mul (p1p1_Z p) (p1p1_T p);
     t \<leftarrow> fe_mul (p1p1_X p) (p1p1_Y p);
     Some \<lparr>p3_X = x, p3_Y = y, p3_Z = z, p3_T = t\<rparr> }"

definition ge_p3_dbl :: "ge_p3 \<Rightarrow> ge_p1p1 option" where
  "ge_p3_dbl p = ge_p2_dbl (ge_p3_to_p2 p)"

definition ge_p3_dbl_p3 :: "ge_p3 \<Rightarrow> ge_p3 option" where
  "ge_p3_dbl_p3 p = do {
     r \<leftarrow> ge_p2_dbl (ge_p3_to_p2 p);
     ge_p1p1_to_p3 r }"

definition ge_p3_cmov :: "ge_p3 \<Rightarrow> ge_p3 \<Rightarrow> 32 word \<Rightarrow> ge_p3" where
  "ge_p3_cmov out inp b =
     \<lparr>p3_X = fe_cmov (p3_X out) (p3_X inp) b, p3_Y = fe_cmov (p3_Y out) (p3_Y inp) b,
      p3_Z = fe_cmov (p3_Z out) (p3_Z inp) b, p3_T = fe_cmov (p3_T out) (p3_T inp) b\<rparr>"

text \<open>\<^verbatim>\<open>s[31] ^= fe_isnegative(x) << 7\<close>, after the inversion of \<^verbatim>\<open>Z\<close>.\<close>

definition ge_p3_tobytes :: "ge_p3 \<Rightarrow> byte list option" where
  "ge_p3_tobytes h = do {
     recip \<leftarrow> fe_invert (p3_Z h);
     x \<leftarrow> fe_mul (p3_X h) recip;
     y \<leftarrow> fe_mul (p3_Y h) recip;
     s \<leftarrow> fe_tobytes y;
     n \<leftarrow> fe_isnegative x;
     Some (s[31 := s ! 31 XOR byte_of (n * 2 ^ 7)]) }"

definition ge_tobytes :: "ge_p2 \<Rightarrow> byte list option" where
  "ge_tobytes h = do {
     recip \<leftarrow> fe_invert (p2_Z h);
     x \<leftarrow> fe_mul (p2_X h) recip;
     y \<leftarrow> fe_mul (p2_Y h) recip;
     s \<leftarrow> fe_tobytes y;
     n \<leftarrow> fe_isnegative x;
     Some (s[31 := s ! 31 XOR byte_of (n * 2 ^ 7)]) }"

datatype ge_error = Decompression_failed

text \<open>
  Decompression up to the choice of sign (the first 30 lines of both \<^verbatim>\<open>ge_frombytes\<close> functions):
  the candidate \<open>x\<close> and \<open>y\<close>, or the error return.
\<close>

definition ge_frombytes_x :: "byte list \<Rightarrow> (ge_error + fe \<times> fe) option" where
  "ge_frombytes_x s = do {
     hY \<leftarrow> fe_frombytes s;
     let hZ = fe_1;
     u \<leftarrow> fe_sq hY;
     v \<leftarrow> fe_mul u d;
     u \<leftarrow> fe_sub u hZ;
     v \<leftarrow> fe_add v hZ;
     v3 \<leftarrow> fe_sq v;
     v3 \<leftarrow> fe_mul v3 v;
     hX \<leftarrow> fe_sq v3;
     hX \<leftarrow> fe_mul hX v;
     hX \<leftarrow> fe_mul hX u;
     hX \<leftarrow> fe_pow22523 hX;
     hX \<leftarrow> fe_mul hX v3;
     hX \<leftarrow> fe_mul hX u;
     vxx \<leftarrow> fe_sq hX;
     vxx \<leftarrow> fe_mul vxx v;
     check \<leftarrow> fe_sub vxx u;
     nz \<leftarrow> fe_isnonzero check;
     if nz \<noteq> 0 then do {
       check \<leftarrow> fe_add vxx u;
       nz \<leftarrow> fe_isnonzero check;
       if nz \<noteq> 0 then Some (Inl Decompression_failed)
       else do {
         hX \<leftarrow> fe_mul hX sqrtm1;
         Some (Inr (hX, hY)) } }
     else Some (Inr (hX, hY)) }"

definition ge_frombytes_sign :: "bool \<Rightarrow> fe \<Rightarrow> fe \<Rightarrow> ge_p3 option" where
  "ge_frombytes_sign negate hX hY = do {
     hX \<leftarrow> (if negate then fe_neg hX else Some hX);
     hT \<leftarrow> fe_mul hX hY;
     Some \<lparr>p3_X = hX, p3_Y = hY, p3_Z = fe_1, p3_T = hT\<rparr> }"

definition ge_frombytes_negate_vartime :: "byte list \<Rightarrow> (ge_error + ge_p3) option" where
  "ge_frombytes_negate_vartime s = do {
     r \<leftarrow> ge_frombytes_x s;
     case r of Inl e \<Rightarrow> Some (Inl e)
     | Inr (hX, hY) \<Rightarrow> do {
         n \<leftarrow> fe_isnegative hX;
         h \<leftarrow> ge_frombytes_sign (n = uint (drop_bit 7 (s ! 31))) hX hY;
         Some (Inr h) } }"

definition ge_frombytes_vartime :: "byte list \<Rightarrow> (ge_error + ge_p3) option" where
  "ge_frombytes_vartime s = do {
     r \<leftarrow> ge_frombytes_x s;
     case r of Inl e \<Rightarrow> Some (Inl e)
     | Inr (hX, hY) \<Rightarrow> do {
         n \<leftarrow> fe_isnegative hX;
         h \<leftarrow> ge_frombytes_sign (n \<noteq> uint (drop_bit 7 (s ! 31))) hX hY;
         Some (Inr h) } }"

subsection \<open>Constants of the curve\<close>

definition gf_d :: gf where
  "gf_d = gf_of d"

lemma const_tight [simp]: "fe_tight d" "fe_tight d2" "fe_tight sqrtm1"
  by (simp_all add: d_def d2_def sqrtm1_def fe_tight_def)

lemma gf_d2: "gf_of d2 = 2 * gf_d"
proof -
  have "(fe_val d2 - 2 * fe_val d) mod p25519 = 0"
    by (simp add: d_def d2_def fe_val_limbs p25519_def)
  then have "gf_int (fe_val d2) = gf_int (2 * fe_val d)"
    by (simp add: gf_int_eq_iff mod_eq_by_diff)
  then show ?thesis by (simp add: gf_of_def gf_d_def gf_int_hom gf_int_numeral)
qed

lemma gf_d_eq: "121666 * gf_d = - 121665"
proof -
  have "(121666 * fe_val d + 121665) mod p25519 = 0"
    by (simp add: d_def fe_val_limbs p25519_def)
  then have "gf_int (121666 * fe_val d) = gf_int (- 121665)"
    by (simp add: gf_int_eq_iff mod_eq_by_diff)
  then show ?thesis by (simp add: gf_of_def gf_d_def gf_int_hom gf_int_numeral)
qed

lemma gf_sqrtm1: "gf_of sqrtm1 * gf_of sqrtm1 = - 1"
proof -
  have "(fe_val sqrtm1 * fe_val sqrtm1 + 1) mod p25519 = 0"
    by (simp add: sqrtm1_def fe_val_limbs p25519_def)
  then have "gf_int (fe_val sqrtm1 * fe_val sqrtm1) = gf_int (- 1)"
    by (simp add: gf_int_eq_iff mod_eq_by_diff)
  then show ?thesis by (simp add: gf_of_def gf_int_hom)
qed

subsection \<open>Which point a record stands for\<close>

definition on_curve :: "gf \<Rightarrow> gf \<Rightarrow> bool" where
  "on_curve x y \<longleftrightarrow> y * y - x * x = 1 + gf_d * (x * x) * (y * y)"

text \<open>Size classes: what the operations accept and produce.\<close>

definition p2_ok :: "ge_p2 \<Rightarrow> bool" where
  "p2_ok P \<longleftrightarrow> fe_tight (p2_X P) \<and> fe_tight (p2_Y P) \<and> fe_tight (p2_Z P)"

definition p3_ok :: "ge_p3 \<Rightarrow> bool" where
  "p3_ok P \<longleftrightarrow> fe_tight (p3_X P) \<and> fe_tight (p3_Y P) \<and> fe_tight (p3_Z P) \<and> fe_tight (p3_T P)"

definition p1p1_ok :: "ge_p1p1 \<Rightarrow> bool" where
  "p1p1_ok P \<longleftrightarrow> fe_loose (p1p1_X P) \<and> fe_loose (p1p1_Y P) \<and> fe_loose (p1p1_Z P) \<and> fe_loose (p1p1_T P)"

definition precomp_ok :: "ge_precomp \<Rightarrow> bool" where
  "precomp_ok P \<longleftrightarrow> fe_tight (yplusx P) \<and> fe_tight (yminusx P) \<and> fe_tight (xy2d P)"

definition cached_ok :: "ge_cached \<Rightarrow> bool" where
  "cached_ok P \<longleftrightarrow> fe_medium (YplusX P) \<and> fe_medium (YminusX P) \<and> fe_tight (cached_Z P) \<and> fe_tight (T2d P)"

lemmas ok_defs = p2_ok_def p3_ok_def p1p1_ok_def precomp_ok_def cached_ok_def

definition p2_rep :: "ge_p2 \<Rightarrow> gf \<Rightarrow> gf \<Rightarrow> gf \<Rightarrow> bool" where
  "p2_rep P x y z \<longleftrightarrow> p2_ok P
     \<and> gf_of (p2_Z P) = z \<and> gf_of (p2_X P) = x * z \<and> gf_of (p2_Y P) = y * z"

definition p3_rep :: "ge_p3 \<Rightarrow> gf \<Rightarrow> gf \<Rightarrow> gf \<Rightarrow> bool" where
  "p3_rep P x y z \<longleftrightarrow> p3_ok P
     \<and> gf_of (p3_Z P) = z \<and> gf_of (p3_X P) = x * z \<and> gf_of (p3_Y P) = y * z \<and> gf_of (p3_T P) = x * y * z"

definition p1p1_rep :: "ge_p1p1 \<Rightarrow> gf \<Rightarrow> gf \<Rightarrow> gf \<Rightarrow> gf \<Rightarrow> bool" where
  "p1p1_rep P x y z t \<longleftrightarrow> p1p1_ok P
     \<and> gf_of (p1p1_Z P) = z \<and> gf_of (p1p1_T P) = t \<and> gf_of (p1p1_X P) = x * z \<and> gf_of (p1p1_Y P) = y * t"

definition precomp_rep :: "ge_precomp \<Rightarrow> gf \<Rightarrow> gf \<Rightarrow> bool" where
  "precomp_rep P x y \<longleftrightarrow> precomp_ok P
     \<and> gf_of (yplusx P) = y + x \<and> gf_of (yminusx P) = y - x \<and> gf_of (xy2d P) = 2 * gf_d * (x * y)"

definition cached_rep :: "ge_cached \<Rightarrow> gf \<Rightarrow> gf \<Rightarrow> gf \<Rightarrow> bool" where
  "cached_rep P x y z \<longleftrightarrow> cached_ok P
     \<and> gf_of (cached_Z P) = z \<and> gf_of (YplusX P) = (y + x) * z \<and> gf_of (YminusX P) = (y - x) * z
     \<and> gf_of (T2d P) = 2 * gf_d * (x * y) * z"

text \<open>\<open>(x3, y3)\<close> is the sum of \<open>(x1, y1)\<close> and \<open>(x2, y2)\<close>: the Edwards law, without division.\<close>

definition ed_sum :: "gf \<Rightarrow> gf \<Rightarrow> gf \<Rightarrow> gf \<Rightarrow> gf \<Rightarrow> gf \<Rightarrow> bool" where
  "ed_sum x1 y1 x2 y2 x3 y3 \<longleftrightarrow>
     x3 * (1 + gf_d * (x1 * x2 * y1 * y2)) = x1 * y2 + y1 * x2
     \<and> y3 * (1 - gf_d * (x1 * x2 * y1 * y2)) = y1 * y2 + x1 * x2"

lemmas add_s = fe_add_small [THEN runs_bind] and sub_s = fe_sub_small [THEN runs_bind]
  and add_m = fe_add_medium [THEN runs_bind] and sub_m = fe_sub_medium [THEN runs_bind]
  and sub_sm = fe_sub_small_medium [THEN runs_bind]
  and mul_l = fe_mul_gf [THEN runs_bind] and sq_l = fe_sq_gf [THEN runs_bind]
  and sq2_l = fe_sq2_gf [THEN runs_bind]

lemmas fe_steps2 = add_s sub_s mul_l add_m sub_m

lemma scaled: "a * u = v \<Longrightarrow> a * (c * u) = c * (v :: gf)"
  by (metis mult.left_commute)

text \<open>The coordinates of the result as ring expressions.\<close>

lemma ge_add_val:
  assumes P: "p3_ok P" and Q: "cached_ok Q"
  shows "runs (ge_add P Q) (\<lambda>R. p1p1_ok R
    \<and> gf_of (p1p1_X R) = (gf_of (p3_Y P) + gf_of (p3_X P)) * gf_of (YplusX Q)
        - (gf_of (p3_Y P) - gf_of (p3_X P)) * gf_of (YminusX Q)
    \<and> gf_of (p1p1_Y R) = (gf_of (p3_Y P) + gf_of (p3_X P)) * gf_of (YplusX Q)
        + (gf_of (p3_Y P) - gf_of (p3_X P)) * gf_of (YminusX Q)
    \<and> gf_of (p1p1_Z R) = (gf_of (p3_Z P) * gf_of (cached_Z Q) + gf_of (p3_Z P) * gf_of (cached_Z Q)) + gf_of (T2d Q) * gf_of (p3_T P)
    \<and> gf_of (p1p1_T R) = (gf_of (p3_Z P) * gf_of (cached_Z Q) + gf_of (p3_Z P) * gf_of (cached_Z Q)) - gf_of (T2d Q) * gf_of (p3_T P))"
proof -
  note p = P [unfolded p3_ok_def] and q = Q [unfolded cached_ok_def]
  show ?thesis
    unfolding ge_add_def
    by (rule fe_steps2, (simp add: p q fe_bounds_chain; fail)[1], (simp add: p q fe_bounds_chain; fail)[1])+
      (simp add: p1p1_ok_def fe_bounds_chain)
qed

lemma ge_sub_val:
  assumes P: "p3_ok P" and Q: "cached_ok Q"
  shows "runs (ge_sub P Q) (\<lambda>R. p1p1_ok R
    \<and> gf_of (p1p1_X R) = (gf_of (p3_Y P) + gf_of (p3_X P)) * gf_of (YminusX Q)
        - (gf_of (p3_Y P) - gf_of (p3_X P)) * gf_of (YplusX Q)
    \<and> gf_of (p1p1_Y R) = (gf_of (p3_Y P) + gf_of (p3_X P)) * gf_of (YminusX Q)
        + (gf_of (p3_Y P) - gf_of (p3_X P)) * gf_of (YplusX Q)
    \<and> gf_of (p1p1_Z R) = (gf_of (p3_Z P) * gf_of (cached_Z Q) + gf_of (p3_Z P) * gf_of (cached_Z Q)) - gf_of (T2d Q) * gf_of (p3_T P)
    \<and> gf_of (p1p1_T R) = (gf_of (p3_Z P) * gf_of (cached_Z Q) + gf_of (p3_Z P) * gf_of (cached_Z Q)) + gf_of (T2d Q) * gf_of (p3_T P))"
proof -
  note p = P [unfolded p3_ok_def] and q = Q [unfolded cached_ok_def]
  show ?thesis
    unfolding ge_sub_def
    by (rule fe_steps2, (simp add: p q fe_bounds_chain; fail)[1], (simp add: p q fe_bounds_chain; fail)[1])+
      (simp add: p1p1_ok_def fe_bounds_chain)
qed

lemma ge_madd_val:
  assumes P: "p3_ok P" and Q: "precomp_ok Q"
  shows "runs (ge_madd P Q) (\<lambda>R. p1p1_ok R
    \<and> gf_of (p1p1_X R) = (gf_of (p3_Y P) + gf_of (p3_X P)) * gf_of (yplusx Q)
        - (gf_of (p3_Y P) - gf_of (p3_X P)) * gf_of (yminusx Q)
    \<and> gf_of (p1p1_Y R) = (gf_of (p3_Y P) + gf_of (p3_X P)) * gf_of (yplusx Q)
        + (gf_of (p3_Y P) - gf_of (p3_X P)) * gf_of (yminusx Q)
    \<and> gf_of (p1p1_Z R) = (gf_of (p3_Z P) + gf_of (p3_Z P)) + gf_of (xy2d Q) * gf_of (p3_T P)
    \<and> gf_of (p1p1_T R) = (gf_of (p3_Z P) + gf_of (p3_Z P)) - gf_of (xy2d Q) * gf_of (p3_T P))"
proof -
  note p = P [unfolded p3_ok_def] and q = Q [unfolded precomp_ok_def]
  show ?thesis
    unfolding ge_madd_def
    by (rule fe_steps2, (simp add: p q fe_bounds_chain; fail)[1], (simp add: p q fe_bounds_chain; fail)[1])+
      (simp add: p1p1_ok_def fe_bounds_chain)
qed

lemma ge_msub_val:
  assumes P: "p3_ok P" and Q: "precomp_ok Q"
  shows "runs (ge_msub P Q) (\<lambda>R. p1p1_ok R
    \<and> gf_of (p1p1_X R) = (gf_of (p3_Y P) + gf_of (p3_X P)) * gf_of (yminusx Q)
        - (gf_of (p3_Y P) - gf_of (p3_X P)) * gf_of (yplusx Q)
    \<and> gf_of (p1p1_Y R) = (gf_of (p3_Y P) + gf_of (p3_X P)) * gf_of (yminusx Q)
        + (gf_of (p3_Y P) - gf_of (p3_X P)) * gf_of (yplusx Q)
    \<and> gf_of (p1p1_Z R) = (gf_of (p3_Z P) + gf_of (p3_Z P)) - gf_of (xy2d Q) * gf_of (p3_T P)
    \<and> gf_of (p1p1_T R) = (gf_of (p3_Z P) + gf_of (p3_Z P)) + gf_of (xy2d Q) * gf_of (p3_T P))"
proof -
  note p = P [unfolded p3_ok_def] and q = Q [unfolded precomp_ok_def]
  show ?thesis
    unfolding ge_msub_def
    by (rule fe_steps2, (simp add: p q fe_bounds_chain; fail)[1], (simp add: p q fe_bounds_chain; fail)[1])+
      (simp add: p1p1_ok_def fe_bounds_chain)
qed

lemma ge_p2_dbl_val:
  assumes P: "p2_ok P"
  shows "runs (ge_p2_dbl P) (\<lambda>R. p1p1_ok R
    \<and> gf_of (p1p1_X R) = 2 * (gf_of (p2_X P) * gf_of (p2_Y P))
    \<and> gf_of (p1p1_Y R) = gf_of (p2_Y P) * gf_of (p2_Y P) + gf_of (p2_X P) * gf_of (p2_X P)
    \<and> gf_of (p1p1_Z R) = gf_of (p2_Y P) * gf_of (p2_Y P) - gf_of (p2_X P) * gf_of (p2_X P)
    \<and> gf_of (p1p1_T R) = 2 * (gf_of (p2_Z P) * gf_of (p2_Z P))
        - (gf_of (p2_Y P) * gf_of (p2_Y P) - gf_of (p2_X P) * gf_of (p2_X P)))"
proof -
  note p = P [unfolded p2_ok_def]
  show ?thesis
    unfolding ge_p2_dbl_def
    apply (rule sq_l, (simp add: p fe_bounds_chain; fail)[1])
    apply (rule sq_l, (simp add: p fe_bounds_chain; fail)[1])
    apply (rule sq2_l, (simp add: p fe_bounds_chain; fail)[1])
    apply (rule add_s, (simp_all add: p fe_bounds_chain)[2])
    apply (rule sq_l, (simp add: p fe_bounds_chain; fail)[1])
    apply (rule fe_steps2 sub_sm, (simp add: fe_bounds_chain; fail)[1], (simp add: fe_bounds_chain; fail)[1])+
    apply (simp add: p1p1_ok_def fe_bounds_chain)
    apply (simp add: algebra_simps)
    done
qed

text \<open>Read at the affine points, these are the numerators and denominators of the Edwards law.\<close>

lemma ge_add_rep:
  assumes P: "p3_rep P x1 y1 z1" and Q: "cached_rep Q x2 y2 z2" and S: "ed_sum x1 y1 x2 y2 x3 y3"
  shows "runs (ge_add P Q) (\<lambda>R. p1p1_rep R x3 y3
    (2 * z1 * z2 * (1 + gf_d * (x1 * x2 * y1 * y2))) (2 * z1 * z2 * (1 - gf_d * (x1 * x2 * y1 * y2))))"
proof -
  note p = P [unfolded p3_rep_def] and q = Q [unfolded cached_rep_def]
  note sum = scaled [OF S [unfolded ed_sum_def, THEN conjunct1], of "2 * z1 * z2"]
    scaled [OF S [unfolded ed_sum_def, THEN conjunct2], of "2 * z1 * z2"]
  from p q have "p3_ok P" "cached_ok Q" by simp_all
  then show ?thesis
    by (rule runs_mono [OF ge_add_val], simp only: p1p1_rep_def sum) (simp add: p q algebra_simps)
qed

lemma ge_sub_rep:
  assumes P: "p3_rep P x1 y1 z1" and Q: "cached_rep Q x2 y2 z2" and S: "ed_sum x1 y1 (- x2) y2 x3 y3"
  shows "runs (ge_sub P Q) (\<lambda>R. p1p1_rep R x3 y3
    (2 * z1 * z2 * (1 + gf_d * (x1 * - x2 * y1 * y2))) (2 * z1 * z2 * (1 - gf_d * (x1 * - x2 * y1 * y2))))"
proof -
  note p = P [unfolded p3_rep_def] and q = Q [unfolded cached_rep_def]
  note sum = scaled [OF S [unfolded ed_sum_def, THEN conjunct1], of "2 * z1 * z2"]
    scaled [OF S [unfolded ed_sum_def, THEN conjunct2], of "2 * z1 * z2"]
  from p q have "p3_ok P" "cached_ok Q" by simp_all
  then show ?thesis
    by (rule runs_mono [OF ge_sub_val], simp only: p1p1_rep_def sum) (simp add: p q algebra_simps)
qed

lemma ge_madd_rep:
  assumes P: "p3_rep P x1 y1 z1" and Q: "precomp_rep Q x2 y2" and S: "ed_sum x1 y1 x2 y2 x3 y3"
  shows "runs (ge_madd P Q) (\<lambda>R. p1p1_rep R x3 y3
    (2 * z1 * (1 + gf_d * (x1 * x2 * y1 * y2))) (2 * z1 * (1 - gf_d * (x1 * x2 * y1 * y2))))"
proof -
  note p = P [unfolded p3_rep_def] and q = Q [unfolded precomp_rep_def]
  note sum = scaled [OF S [unfolded ed_sum_def, THEN conjunct1], of "2 * z1"]
    scaled [OF S [unfolded ed_sum_def, THEN conjunct2], of "2 * z1"]
  from p q have "p3_ok P" "precomp_ok Q" by simp_all
  then show ?thesis
    by (rule runs_mono [OF ge_madd_val], simp only: p1p1_rep_def sum) (simp add: p q algebra_simps)
qed

lemma ge_msub_rep:
  assumes P: "p3_rep P x1 y1 z1" and Q: "precomp_rep Q x2 y2" and S: "ed_sum x1 y1 (- x2) y2 x3 y3"
  shows "runs (ge_msub P Q) (\<lambda>R. p1p1_rep R x3 y3
    (2 * z1 * (1 + gf_d * (x1 * - x2 * y1 * y2))) (2 * z1 * (1 - gf_d * (x1 * - x2 * y1 * y2))))"
proof -
  note p = P [unfolded p3_rep_def] and q = Q [unfolded precomp_rep_def]
  note sum = scaled [OF S [unfolded ed_sum_def, THEN conjunct1], of "2 * z1"]
    scaled [OF S [unfolded ed_sum_def, THEN conjunct2], of "2 * z1"]
  from p q have "p3_ok P" "precomp_ok Q" by simp_all
  then show ?thesis
    by (rule runs_mono [OF ge_msub_val], simp only: p1p1_rep_def sum) (simp add: p q algebra_simps)
qed

text \<open>Doubling uses the curve equation in place of \<open>d\<close>.\<close>

lemma ge_p2_dbl_rep:
  assumes P: "p2_rep P x y z" and C: "on_curve x y" and S: "ed_sum x y x y x3 y3"
  shows "runs (ge_p2_dbl P) (\<lambda>R. p1p1_rep R x3 y3
    (z * z * (1 + gf_d * (x * x * y * y))) (z * z * (1 - gf_d * (x * x * y * y))))"
proof -
  note p = P [unfolded p2_rep_def]
  note sum = scaled [OF S [unfolded ed_sum_def, THEN conjunct1], of "z * z"]
    scaled [OF S [unfolded ed_sum_def, THEN conjunct2], of "z * z"]
  have e: "gf_d * (x * x * y * y) = y * y - x * x - 1"
    using C by (simp add: on_curve_def mult.assoc algebra_simps)
  from p have "p2_ok P" by simp
  then show ?thesis
    by (rule runs_mono [OF ge_p2_dbl_val], simp only: p1p1_rep_def sum, simp only: e)
      (simp add: p algebra_simps)
qed

subsection \<open>Conversions\<close>

lemma ge_p3_0_rep: "p3_rep ge_p3_0 0 1 1"
  by (simp add: p3_rep_def p3_ok_def ge_p3_0_def)

lemma ge_p2_0_rep: "p2_rep ge_p2_0 0 1 1"
  by (simp add: p2_rep_def p2_ok_def ge_p2_0_def)

lemma ge_precomp_0_rep: "precomp_rep ge_precomp_0 0 1"
  by (simp add: precomp_rep_def precomp_ok_def ge_precomp_0_def)

lemma ge_p3_to_p2_ok: "p3_ok P \<Longrightarrow> p2_ok (ge_p3_to_p2 P)"
  by (simp add: p3_ok_def p2_ok_def ge_p3_to_p2_def fe_copy_tight)

lemma ge_p3_to_p2_rep: "p3_rep P x y z \<Longrightarrow> p2_rep (ge_p3_to_p2 P) x y z"
  by (simp add: p3_rep_def p2_rep_def p3_ok_def p2_ok_def ge_p3_to_p2_def fe_copy_tight)

lemma ge_p3_to_cached_val:
  assumes P: "p3_ok P"
  shows "runs (ge_p3_to_cached P) (\<lambda>Q. cached_ok Q \<and> gf_of (cached_Z Q) = gf_of (p3_Z P)
    \<and> gf_of (YplusX Q) = gf_of (p3_Y P) + gf_of (p3_X P)
    \<and> gf_of (YminusX Q) = gf_of (p3_Y P) - gf_of (p3_X P)
    \<and> gf_of (T2d Q) = gf_of (p3_T P) * (2 * gf_d))"
proof -
  note p = P [unfolded p3_ok_def]
  show ?thesis
    unfolding ge_p3_to_cached_def Let_def
    by (rule fe_steps2, (simp add: p fe_bounds_chain; fail)[1], (simp add: p fe_bounds_chain; fail)[1])+
      (simp add: cached_ok_def p fe_copy_tight gf_d2 fe_bounds_chain)
qed

lemma ge_p3_to_cached_rep:
  assumes P: "p3_rep P x y z"
  shows "runs (ge_p3_to_cached P) (\<lambda>Q. cached_rep Q x y z)"
  using P runs_mono [OF ge_p3_to_cached_val, of P "\<lambda>Q. cached_rep Q x y z"]
  by (simp add: p3_rep_def cached_rep_def algebra_simps)

lemma ge_p1p1_to_p2_val:
  assumes P: "p1p1_ok P"
  shows "runs (ge_p1p1_to_p2 P) (\<lambda>Q. p2_ok Q \<and> gf_of (p2_X Q) = gf_of (p1p1_X P) * gf_of (p1p1_T P)
    \<and> gf_of (p2_Y Q) = gf_of (p1p1_Y P) * gf_of (p1p1_Z P) \<and> gf_of (p2_Z Q) = gf_of (p1p1_Z P) * gf_of (p1p1_T P))"
proof -
  note p = P [unfolded p1p1_ok_def]
  show ?thesis
    unfolding ge_p1p1_to_p2_def
    by (rule mul_l, (simp add: p; fail)[1], (simp add: p; fail)[1])+ (simp add: p2_ok_def)
qed

lemma ge_p1p1_to_p2_rep: "p1p1_rep P x y z t \<Longrightarrow> runs (ge_p1p1_to_p2 P) (\<lambda>Q. p2_rep Q x y (z * t))"
  using runs_mono [OF ge_p1p1_to_p2_val, of P "\<lambda>Q. p2_rep Q x y (z * t)"]
  by (simp add: p1p1_rep_def p2_rep_def algebra_simps)

lemma ge_p1p1_to_p3_val:
  assumes P: "p1p1_ok P"
  shows "runs (ge_p1p1_to_p3 P) (\<lambda>Q. p3_ok Q \<and> gf_of (p3_X Q) = gf_of (p1p1_X P) * gf_of (p1p1_T P)
    \<and> gf_of (p3_Y Q) = gf_of (p1p1_Y P) * gf_of (p1p1_Z P) \<and> gf_of (p3_Z Q) = gf_of (p1p1_Z P) * gf_of (p1p1_T P)
    \<and> gf_of (p3_T Q) = gf_of (p1p1_X P) * gf_of (p1p1_Y P))"
proof -
  note p = P [unfolded p1p1_ok_def]
  show ?thesis
    unfolding ge_p1p1_to_p3_def
    by (rule mul_l, (simp add: p; fail)[1], (simp add: p; fail)[1])+ (simp add: p3_ok_def)
qed

lemma ge_p1p1_to_p3_rep: "p1p1_rep P x y z t \<Longrightarrow> runs (ge_p1p1_to_p3 P) (\<lambda>Q. p3_rep Q x y (z * t))"
  using runs_mono [OF ge_p1p1_to_p3_val, of P "\<lambda>Q. p3_rep Q x y (z * t)"]
  by (simp add: p1p1_rep_def p3_rep_def algebra_simps)

lemma ge_p3_dbl_p3_rep:
  assumes "p3_rep P x y z" and "on_curve x y" and "ed_sum x y x y x3 y3"
  shows "runs (ge_p3_dbl_p3 P) (\<lambda>R. p3_rep R x3 y3
    (z * z * (1 + gf_d * (x * x * y * y)) * (z * z * (1 - gf_d * (x * x * y * y)))))"
  unfolding ge_p3_dbl_p3_def
  by (rule runs_bind [OF ge_p2_dbl_rep [OF ge_p3_to_p2_rep [OF assms(1)] assms(2,3)]])
    (rule ge_p1p1_to_p3_rep)

lemma ge_p3_cmov_select:
  assumes "p3_ok P" and "p3_ok Q"
  shows "ge_p3_cmov P Q 0 = P" and "ge_p3_cmov P Q 1 = Q"
  using assms by (simp_all add: ge_p3_cmov_def fe_cmov_spec p3_ok_def fe_bounds_chain)

text \<open>Bounds only, for the code that composes these operations.\<close>

lemma ge_add_ok: "p3_ok P \<Longrightarrow> cached_ok Q \<Longrightarrow> runs (ge_add P Q) p1p1_ok"
  by (rule runs_mono [OF ge_add_val]) auto

lemma ge_sub_ok: "p3_ok P \<Longrightarrow> cached_ok Q \<Longrightarrow> runs (ge_sub P Q) p1p1_ok"
  by (rule runs_mono [OF ge_sub_val]) auto

lemma ge_madd_ok: "p3_ok P \<Longrightarrow> precomp_ok Q \<Longrightarrow> runs (ge_madd P Q) p1p1_ok"
  by (rule runs_mono [OF ge_madd_val]) auto

lemma ge_msub_ok: "p3_ok P \<Longrightarrow> precomp_ok Q \<Longrightarrow> runs (ge_msub P Q) p1p1_ok"
  by (rule runs_mono [OF ge_msub_val]) auto

lemma ge_p2_dbl_ok: "p2_ok P \<Longrightarrow> runs (ge_p2_dbl P) p1p1_ok"
  by (rule runs_mono [OF ge_p2_dbl_val]) auto

lemma ge_p3_to_cached_ok: "p3_ok P \<Longrightarrow> runs (ge_p3_to_cached P) cached_ok"
  by (rule runs_mono [OF ge_p3_to_cached_val]) auto

lemma ge_p1p1_to_p2_ok: "p1p1_ok P \<Longrightarrow> runs (ge_p1p1_to_p2 P) p2_ok"
  by (rule runs_mono [OF ge_p1p1_to_p2_val]) auto

lemma ge_p1p1_to_p3_ok: "p1p1_ok P \<Longrightarrow> runs (ge_p1p1_to_p3 P) p3_ok"
  by (rule runs_mono [OF ge_p1p1_to_p3_val]) auto

lemmas ge_ok_rules = ge_add_ok ge_sub_ok ge_madd_ok ge_msub_ok ge_p2_dbl_ok ge_p3_to_cached_ok ge_p1p1_to_p2_ok ge_p1p1_to_p3_ok

lemma ge_p3_dbl_ok: "p3_ok P \<Longrightarrow> runs (ge_p3_dbl P) p1p1_ok"
  unfolding ge_p3_dbl_def by (intro ge_ok_rules ge_p3_to_p2_ok)

lemma ge_p3_dbl_p3_ok: "p3_ok P \<Longrightarrow> runs (ge_p3_dbl_p3 P) p3_ok"
  unfolding ge_p3_dbl_p3_def
  by (rule runs_bind [OF ge_p2_dbl_ok [OF ge_p3_to_p2_ok]]) (auto intro: ge_p1p1_to_p3_ok)

subsection \<open>Compression\<close>

text \<open>The encoding of \<open>(x, y)\<close>: \<open>y\<close> in 255 bits, the parity of \<open>x\<close> on top.\<close>

definition encode :: "gf \<Rightarrow> gf \<Rightarrow> int" where
  "encode x y = Rep_gf y + 2 ^ 255 * (Rep_gf x mod 2)"

lemma le_val_update:
  "i < length s \<Longrightarrow> le_val (s[i := v]) = le_val s + 256 ^ i * (uint v - uint (s ! i))"
proof (induction s arbitrary: i)
  case (Cons b s)
  then show ?case by (cases i) (simp_all add: distrib_left mult.assoc)
qed simp

lemma top_byte:
  assumes "length s = 32"
  shows "le_val s div 2 ^ 248 = uint (s ! 31)"
proof -
  from assms have "drop 31 s = [s ! 31]" by (simp flip: Cons_nth_drop_Suc)
  then have "le_val s div 256 ^ 31 = uint (s ! 31)" using le_val_drop [of 31 s] assms by simp
  then show ?thesis by simp
qed

lemma set_top_bit:
  assumes "length s = 32" and "le_val s < 2 ^ 255" and "n = 0 \<or> n = 1"
  shows "le_val (s[31 := s ! 31 XOR byte_of (n * 2 ^ 7)]) = le_val s + 2 ^ 255 * n"
proof -
  have "uint (s ! 31) < 128"
    unfolding top_byte [OF assms(1), symmetric] by (rule div_less_of_less_mult) (use assms(2) in simp_all)
  moreover have "list_all (\<lambda>k. uint (word_of_int k XOR 128 :: byte) = k + 128) [0..127]" by code_simp
  ultimately have "uint (word_of_int (uint (s ! 31)) XOR 128 :: byte) = uint (s ! 31) + 128"
    unfolding list_all_iff set_upto by (elim ballE [of _ _ "uint (s ! 31)"]) auto
  then have "uint (s ! 31 XOR byte_of (n * 2 ^ 7)) = uint (s ! 31) + 128 * n"
    using assms(3) by (auto simp: byte_of_def)
  then show ?thesis using assms(1) by (simp add: le_val_update)
qed

lemma encode_bytes:
  assumes "length s = 32" and "le_val s = Rep_gf y" and "n = Rep_gf x mod 2"
  shows "length (s[31 := s ! 31 XOR byte_of (n * 2 ^ 7)]) = 32
    \<and> le_val (s[31 := s ! 31 XOR byte_of (n * 2 ^ 7)]) = encode x y"
proof -
  have "le_val s < 2 ^ 255" using Rep_gf_range [of y] assms(2) by (simp add: p25519_def)
  moreover have "n = 0 \<or> n = 1" unfolding assms(3) by presburger
  ultimately show ?thesis using set_top_bit [OF assms(1)] assms by (simp add: encode_def)
qed

lemma ge_p3_tobytes_rep:
  assumes P: "p3_rep P x y z" and inv: "z * gf_inv z = 1"
  shows "runs (ge_p3_tobytes P) (\<lambda>s. length s = 32 \<and> le_val s = encode x y)"
proof -
  note p = P [unfolded p3_rep_def p3_ok_def]
  have cancel: "a * z * gf_inv z = a" for a
    using inv by (simp add: mult.assoc)
  show ?thesis
    unfolding ge_p3_tobytes_def
    apply (rule runs_bind [OF fe_invert_gf], (simp add: p fe_bounds_chain; fail)[1])
    apply (rule mul_l, (simp add: p fe_bounds_chain; fail)[1], (simp add: p fe_bounds_chain; fail)[1])
    apply (rule mul_l, (simp add: p fe_bounds_chain; fail)[1], (simp add: p fe_bounds_chain; fail)[1])
    apply (rule runs_bind [OF fe_tobytes_gf], (simp add: fe_bounds_chain; fail)[1])
    apply (simp only: fe_isnegative_gf fe_bounds_chain Option.bind.simps runs_Some)
    apply (rule encode_bytes)
    apply (simp_all add: p cancel)
    done
qed

lemma ge_tobytes_rep:
  assumes P: "p2_rep P x y z" and inv: "z * gf_inv z = 1"
  shows "runs (ge_tobytes P) (\<lambda>s. length s = 32 \<and> le_val s = encode x y)"
proof -
  note p = P [unfolded p2_rep_def p2_ok_def]
  have cancel: "a * z * gf_inv z = a" for a
    using inv by (simp add: mult.assoc)
  show ?thesis
    unfolding ge_tobytes_def
    apply (rule runs_bind [OF fe_invert_gf], (simp add: p fe_bounds_chain; fail)[1])
    apply (rule mul_l, (simp add: p fe_bounds_chain; fail)[1], (simp add: p fe_bounds_chain; fail)[1])
    apply (rule mul_l, (simp add: p fe_bounds_chain; fail)[1], (simp add: p fe_bounds_chain; fail)[1])
    apply (rule runs_bind [OF fe_tobytes_gf], (simp add: fe_bounds_chain; fail)[1])
    apply (simp only: fe_isnegative_gf fe_bounds_chain Option.bind.simps runs_Some)
    apply (rule encode_bytes)
    apply (simp_all add: p cancel)
    done
qed

subsection \<open>Decompression\<close>

definition curve_u :: "gf \<Rightarrow> gf" where "curve_u y = y * y - 1"
definition curve_v :: "gf \<Rightarrow> gf" where "curve_v y = y * y * gf_d + 1"

definition sqrt_candidate :: "gf \<Rightarrow> gf" where
  "sqrt_candidate y = (let u = curve_u y; v = curve_v y; v3 = v * v * v
     in gf_pow22523 (v3 * v3 * v * u) * v3 * u)"

text \<open>One of the two candidates is a square root of \<open>u / v\<close>.\<close>

definition decompressible :: "gf \<Rightarrow> bool" where
  "decompressible y \<longleftrightarrow> sqrt_candidate y * sqrt_candidate y * curve_v y = curve_u y
     \<or> sqrt_candidate y * sqrt_candidate y * curve_v y = - curve_u y"

lemma curve_eq: "curve_v y * (x * x) = curve_u y \<Longrightarrow> on_curve x y"
  by (simp add: curve_u_def curve_v_def on_curve_def algebra_simps)

lemma ge_frombytes_x_rep:
  assumes "length s = 32"
  defines "y \<equiv> gf_int (le_val s mod 2 ^ 255)"
  shows "runs (ge_frombytes_x s) (\<lambda>r. case r of
      Inl e \<Rightarrow> \<not> decompressible y
    | Inr (hX, hY) \<Rightarrow> decompressible y \<and> fe_tight hX \<and> fe_tight hY \<and> gf_of hY = y \<and> on_curve (gf_of hX) y)"
proof -
  define v3y where "v3y = curve_v y * curve_v y * curve_v y"
  have cand: "sqrt_candidate y = gf_pow22523 (v3y * v3y * curve_v y * curve_u y) * v3y * curve_u y"
    by (simp add: sqrt_candidate_def v3y_def Let_def)
  obtain hY where hY: "fe_frombytes s = Some hY" "fe_tight hY" "gf_of hY = y"
    using fe_frombytes_gf [of s] assms(1) y_def by (auto simp: runs_def fe_bounds_chain)
  obtain y2 where y2: "fe_sq hY = Some y2" "fe_tight y2" "gf_of y2 = y * y"
    using fe_sq_gf [of hY] hY(2,3) by (auto simp: runs_def fe_bounds_chain)
  obtain dy2 where dy2: "fe_mul y2 d = Some dy2" "fe_tight dy2" "gf_of dy2 = y * y * gf_d"
    using fe_mul_gf [of y2 d] y2(2,3) gf_d_def const_tight(1) by (auto simp: runs_def fe_bounds_chain)
  obtain u where u: "fe_sub y2 fe_1 = Some u" "fe_small u" "gf_of u = curve_u y"
    using fe_sub_one [of y2] refl [of fe_1] y2(2,3) curve_u_def [of y] by (auto simp: runs_def fe_bounds_chain)
  obtain v where v: "fe_add dy2 fe_1 = Some v" "fe_small v" "gf_of v = curve_v y"
    using fe_add_one [of dy2] dy2(2,3) curve_v_def [of y] by (auto simp: runs_def fe_bounds_chain)
  obtain v2 where v2: "fe_sq v = Some v2" "fe_tight v2" "gf_of v2 = curve_v y * curve_v y"
    using fe_sq_gf [of v] v(2,3) by (auto simp: runs_def fe_bounds_chain)
  obtain v3 where v3: "fe_mul v2 v = Some v3" "fe_tight v3" "gf_of v3 = v3y"
    using fe_mul_gf [of v2 v] v(2,3) v2(2,3) v3y_def by (auto simp: runs_def fe_bounds_chain)
  obtain x1 where x1: "fe_sq v3 = Some x1" "fe_tight x1" "gf_of x1 = v3y * v3y"
    using fe_sq_gf [of v3] v3(2,3) by (auto simp: runs_def fe_bounds_chain)
  obtain x2 where x2: "fe_mul x1 v = Some x2" "fe_tight x2" "gf_of x2 = v3y * v3y * curve_v y"
    using fe_mul_gf [of x1 v] x1(2,3) v(2,3) by (auto simp: runs_def fe_bounds_chain)
  obtain x3 where x3: "fe_mul x2 u = Some x3" "fe_tight x3" "gf_of x3 = v3y * v3y * curve_v y * curve_u y"
    using fe_mul_gf [of x2 u] x2(2,3) u(2,3) by (auto simp: runs_def fe_bounds_chain)
  obtain x4 where x4: "fe_pow22523 x3 = Some x4" "fe_tight x4" "gf_of x4 = gf_pow22523 (v3y * v3y * curve_v y * curve_u y)"
    using fe_pow22523_gf [of x3] x3(2,3) by (auto simp: runs_def fe_bounds_chain)
  obtain x5 where x5: "fe_mul x4 v3 = Some x5" "fe_tight x5" "gf_of x5 = gf_pow22523 (v3y * v3y * curve_v y * curve_u y) * v3y"
    using fe_mul_gf [of x4 v3] x4(2,3) v3(2,3) by (auto simp: runs_def fe_bounds_chain)
  obtain x6 where x6: "fe_mul x5 u = Some x6" "fe_tight x6" "gf_of x6 = sqrt_candidate y"
    using fe_mul_gf [of x5 u] x5(2,3) u(2,3) cand by (auto simp: runs_def fe_bounds_chain)
  obtain w1 where w1: "fe_sq x6 = Some w1" "fe_tight w1" "gf_of w1 = sqrt_candidate y * sqrt_candidate y"
    using fe_sq_gf [of x6] x6(2,3) by (auto simp: runs_def fe_bounds_chain)
  obtain w where w: "fe_mul w1 v = Some w" "fe_tight w" "gf_of w = sqrt_candidate y * sqrt_candidate y * curve_v y"
    using fe_mul_gf [of w1 v] w1(2,3) v(2,3) by (auto simp: runs_def fe_bounds_chain)
  obtain ch1 where ch1: "fe_sub w u = Some ch1" "fe_medium ch1" "gf_of ch1 = sqrt_candidate y * sqrt_candidate y * curve_v y - curve_u y"
    using fe_sub_small [of w u] w(2,3) u(2,3) by (auto simp: runs_def fe_bounds_chain)
  obtain ch2 where ch2: "fe_add w u = Some ch2" "fe_medium ch2" "gf_of ch2 = sqrt_candidate y * sqrt_candidate y * curve_v y + curve_u y"
    using fe_add_small [of w u] w(2,3) u(2,3) by (auto simp: runs_def fe_bounds_chain)
  obtain x7 where x7: "fe_mul x6 sqrtm1 = Some x7" "fe_tight x7" "gf_of x7 = sqrt_candidate y * gf_of sqrtm1"
    using fe_mul_gf [of x6 sqrtm1] x6(2,3) const_tight(3) by (auto simp: runs_def fe_bounds_chain)
  have r: "ge_frombytes_x s =
    (if gf_of ch1 \<noteq> 0 then if gf_of ch2 \<noteq> 0 then Some (Inl Decompression_failed) else Some (Inr (x7, hY))
     else Some (Inr (x6, hY)))"
    by (simp add: ge_frombytes_x_def hY(1) y2(1) dy2(1) u(1) v(1) v2(1) v3(1) x1(1) x2(1) x3(1) x4(1) x5(1)
        x6(1) w1(1) w(1) ch1(1) ch2(1) x7(1) fe_isnonzero_gf ch1(2) ch2(2))
  have c1: "on_curve (gf_of x6) y" if "gf_of ch1 = 0"
    using that by (intro curve_eq) (simp add: ch1(3) x6(3) mult.commute)
  have c2: "on_curve (gf_of x7) y" if "gf_of ch2 = 0"
  proof (rule curve_eq)
    have "curve_v y * (gf_of x7 * gf_of x7)
        = sqrt_candidate y * sqrt_candidate y * curve_v y * (gf_of sqrtm1 * gf_of sqrtm1)"
      unfolding x7(3) by (simp only: ac_simps)
    also have "\<dots> = - (gf_of ch2 - curve_u y)" by (simp add: gf_sqrtm1 ch2(3))
    finally show "curve_v y * (gf_of x7 * gf_of x7) = curve_u y" using that by simp
  qed
  show ?thesis
    using c1 c2 hY(2,3) x6(2) x7(2) ch1(3) ch2(3)
    by (auto simp: r runs_def decompressible_def eq_neg_iff_add_eq_0)
qed

lemma Rep_gf_neg_parity: "x \<noteq> 0 \<Longrightarrow> Rep_gf (- x) mod 2 = 1 - Rep_gf x mod 2"
proof -
  assume "x \<noteq> 0"
  then have nz: "Rep_gf x \<noteq> 0" by (metis Rep_gf_inject zero_gf.rep_eq)
  then have r: "0 < Rep_gf x" "Rep_gf x < p25519" using Rep_gf_range [of x] by simp_all
  have "Rep_gf (- x) = (- Rep_gf x) mod p25519" by (rule uminus_gf.rep_eq)
  also have "\<dots> = (p25519 - Rep_gf x) mod p25519" by (simp add: mod_simps)
  also have "\<dots> = p25519 - Rep_gf x" by (rule mod_pos_pos_trivial) (use r in simp_all)
  finally show ?thesis by (simp add: p25519_def) presburger
qed

lemma sign_bit:
  assumes "length s = 32"
  shows "uint (drop_bit 7 (s ! 31)) = le_val s div 2 ^ 255" "le_val s div 2 ^ 255 = 0 \<or> le_val s div 2 ^ 255 = 1"
proof -
  have "uint (drop_bit 7 (s ! 31)) = le_val s div 2 ^ 248 div 2 ^ 7"
    by (simp only: uint_drop_bit top_byte [OF assms])
  also have "\<dots> = le_val s div (2 ^ 248 * 2 ^ 7)" by (rule zdiv_zmult2_eq [symmetric]) simp
  finally show "uint (drop_bit 7 (s ! 31)) = le_val s div 2 ^ 255" by simp
  have "le_val s div 2 ^ 255 < 2"
    by (rule div_less_of_less_mult) (use le_val_bound [of s] assms in simp_all)
  moreover have "0 \<le> le_val s div 2 ^ 255" by (simp add: pos_imp_zdiv_nonneg_iff)
  ultimately show "le_val s div 2 ^ 255 = 0 \<or> le_val s div 2 ^ 255 = 1" by linarith
qed

lemma ge_frombytes_sign_rep:
  assumes "fe_tight hX" and "fe_tight hY" and "on_curve (gf_of hX) (gf_of hY)"
  shows "runs (ge_frombytes_sign b hX hY) (\<lambda>P. let x = (if b then - gf_of hX else gf_of hX)
    in p3_rep P x (gf_of hY) 1 \<and> on_curve x (gf_of hY))"
proof -
  obtain x where x: "(if b then fe_neg hX else Some hX) = Some x" "fe_tight x"
    "gf_of x = (if b then - gf_of hX else gf_of hX)"
    using fe_neg_tight [OF assms(1)] assms(1) by (cases b) (auto simp: runs_def)
  obtain t where t: "fe_mul x hY = Some t" "fe_tight t" "gf_of t = gf_of x * gf_of hY"
    using fe_mul_gf [of x hY] x(2) assms(2) by (auto simp: runs_def fe_bounds_chain)
  have "ge_frombytes_sign b hX hY = Some \<lparr>p3_X = x, p3_Y = hY, p3_Z = fe_1, p3_T = t\<rparr>"
    by (simp add: ge_frombytes_sign_def x(1) t(1))
  then show ?thesis using x t assms by (simp add: Let_def p3_rep_def p3_ok_def on_curve_def)
qed

text \<open>The sign bit of the encoding selects the root; a zero \<open>x\<close> has only one.\<close>

lemma ge_frombytes_vartime_rep:
  assumes "length s = 32"
  defines "y \<equiv> gf_int (le_val s mod 2 ^ 255)"
  shows "runs (ge_frombytes_vartime s) (\<lambda>r. case r of
      Inl e \<Rightarrow> \<not> decompressible y
    | Inr P \<Rightarrow> decompressible y \<and> (\<exists>x. p3_rep P x y 1 \<and> on_curve x y \<and> (x = 0 \<or> Rep_gf x mod 2 = le_val s div 2 ^ 255)))"
  unfolding ge_frombytes_vartime_def
proof (rule runs_bind [OF ge_frombytes_x_rep [OF assms(1), folded y_def]], goal_cases)
  case (1 r)
  show ?case
  proof (cases r)
    case (Inl e)
    with 1 show ?thesis by simp
  next
    case (Inr xy)
    then obtain hX hY where r: "r = Inr (hX, hY)" by (cases xy) auto
    with 1 have h: "fe_tight hX" "fe_tight hY" "gf_of hY = y" "on_curve (gf_of hX) (gf_of hY)" "decompressible y" by auto
    let ?b = "Rep_gf (gf_of hX) mod 2 \<noteq> le_val s div 2 ^ 255"
    from ge_frombytes_sign_rep [OF h(1,2,4), of ?b] obtain P where
      P: "ge_frombytes_sign ?b hX hY = Some P"
        "p3_rep P (if ?b then - gf_of hX else gf_of hX) y 1 \<and> on_curve (if ?b then - gf_of hX else gf_of hX) y"
      by (auto simp: runs_def Let_def h(3))
    have par: "(if ?b then - gf_of hX else gf_of hX) = 0
        \<or> Rep_gf (if ?b then - gf_of hX else gf_of hX) mod 2 = le_val s div 2 ^ 255"
      using Rep_gf_neg_parity [of "gf_of hX"] sign_bit(2) [OF assms(1)] by auto presburger+
    show ?thesis
      using P par h(5) by (simp only: r sum.case prod.case fe_isnegative_gf [OF fe_bounds_chain(4) [OF h(1)]]
          Option.bind.simps sign_bit(1) [OF assms(1)] P(1) runs_Some) blast
  qed
qed

text \<open>Compressing what was decompressed gives the input back, when the input is canonical.\<close>

lemma frombytes_tobytes:
  assumes "length s = 32" and "ge_frombytes_vartime s = Some (Inr P)"
    and "le_val s mod 2 ^ 255 < p25519" and "gf_of (p3_X P) = 0 \<Longrightarrow> le_val s < 2 ^ 255"
  shows "ge_p3_tobytes P = Some s"
proof -
  define y where "y = gf_int (le_val s mod 2 ^ 255)"
  obtain x where x: "p3_rep P x y 1" "x = 0 \<or> Rep_gf x mod 2 = le_val s div 2 ^ 255"
    using ge_frombytes_vartime_rep [OF assms(1)] assms(2) by (auto simp: runs_def y_def)
  moreover have "gf_of (p3_X P) = x" using x(1) by (simp add: p3_rep_def)
  moreover have "Rep_gf (0 :: gf) = 0" by (rule zero_gf.rep_eq)
  moreover have "0 \<le> le_val s" using le_val_bound [of s] by simp
  ultimately have par: "Rep_gf x mod 2 = le_val s div 2 ^ 255" using assms(4) by auto
  have "Rep_gf y = le_val s mod 2 ^ 255" using assms(3) by (simp add: y_def Rep_gf_int)
  with par have e: "encode x y = le_val s" unfolding encode_def by simp
  obtain r where r: "ge_p3_tobytes P = Some r" "length r = 32" "le_val r = le_val s"
    using ge_p3_tobytes_rep [OF x(1)] e by (auto simp: runs_def)
  with le_val_inj [of r s] assms(1) show ?thesis by simp
qed

text \<open>The encoding of the neutral element.\<close>

definition neutral_bytes :: "byte list" where
  "neutral_bytes = 1 # replicate 31 0"

lemma neutral_bytes_val: "length neutral_bytes = 32" "le_val neutral_bytes = 1"
  by (simp_all add: neutral_bytes_def numeral_eq_Suc)

lemma decompressible_1: "decompressible 1"
  by (simp add: decompressible_def sqrt_candidate_def curve_u_def Let_def)

lemma neutral_decompresses: "\<exists>P. ge_frombytes_vartime neutral_bytes = Some (Inr P) \<and> p3_ok P"
proof (rule runsE [OF ge_frombytes_vartime_rep [OF neutral_bytes_val(1)]], goal_cases)
  case (1 r)
  then show ?thesis
    using decompressible_1 by (cases r) (auto simp: neutral_bytes_val(2) gf_int_hom p3_rep_def)
qed

lemma ge_p3_tobytes_ok: "p3_ok P \<Longrightarrow> runs (ge_p3_tobytes P) (\<lambda>s. length s = 32)"
  unfolding ge_p3_tobytes_def p3_ok_def
  apply (rule runs_bind [OF fe_invert_gf], (simp add: fe_bounds_chain; fail)[1])
  apply (rule mul_l, (simp add: fe_bounds_chain; fail)[1], (simp add: fe_bounds_chain; fail)[1])
  apply (rule mul_l, (simp add: fe_bounds_chain; fail)[1], (simp add: fe_bounds_chain; fail)[1])
  apply (rule runs_bind [OF fe_tobytes_gf], (simp add: fe_bounds_chain; fail)[1])
  apply (simp add: fe_isnegative_gf fe_bounds_chain)
  done

subsection \<open>The point of a record, and the group law on points\<close>

text \<open>
  A record with an invertible \<open>Z\<close> stands for exactly one affine point; one with \<open>Z = 0\<close> (the all-zero
  record, for instance) stands for none, although it satisfies the coordinate equations of every point.
\<close>

definition p3_point :: "ge_p3 \<Rightarrow> gf \<Rightarrow> gf \<Rightarrow> bool" where
  "p3_point P x y \<longleftrightarrow> p3_rep P x y (gf_of (p3_Z P)) \<and> gf_of (p3_Z P) dvd 1"

lemma unit_cancel:
  fixes a b u :: gf
  assumes "u dvd 1" and "a * u = b * u"
  shows "a = b"
proof -
  obtain v where "1 = u * v" using assms(1) by (auto elim: dvdE)
  with arg_cong [OF assms(2), of "\<lambda>w. w * v"] show ?thesis by (simp add: mult.assoc)
qed

lemma unit_mult: "u dvd 1 \<Longrightarrow> v dvd 1 \<Longrightarrow> u * v dvd (1 :: gf)"
  using mult_dvd_mono [of u 1 v 1] by simp

lemma p3_point_rep: "p3_rep P x y z \<Longrightarrow> z dvd 1 \<Longrightarrow> p3_point P x y"
  by (auto simp: p3_point_def p3_rep_def)

lemma p3_point_unique: "p3_point P x y \<Longrightarrow> p3_point P x' y' \<Longrightarrow> x' = x \<and> y' = y"
  using unit_cancel [of "gf_of (p3_Z P)"] by (metis p3_point_def p3_rep_def)

lemma two_unit: "(2 :: gf) dvd 1"
proof (rule dvdI)
  have "gf_int 2 * gf_int ((p25519 + 1) div 2) = gf_int 1"
    unfolding gf_int_hom(6) [symmetric] gf_int_eq_iff by (simp add: p25519_def)
  then show "1 = (2 :: gf) * gf_int ((p25519 + 1) div 2)" by (simp add: gf_int_hom gf_int_numeral)
qed

text \<open>Where both denominators of the law are invertible, the sum exists and is unique.\<close>

lemma ed_sum_unique:
  assumes "1 + gf_d * (x1 * x2 * y1 * y2) dvd 1" and "1 - gf_d * (x1 * x2 * y1 * y2) dvd 1"
  shows "\<exists>!(x3, y3). ed_sum x1 y1 x2 y2 x3 y3"
proof -
  obtain u v where u: "1 = (1 + gf_d * (x1 * x2 * y1 * y2)) * u" and v: "1 = (1 - gf_d * (x1 * x2 * y1 * y2)) * v"
    using assms by (auto elim!: dvdE)
  have "ed_sum x1 y1 x2 y2 ((x1 * y2 + y1 * x2) * u) ((y1 * y2 + x1 * x2) * v)"
    using u v by (simp add: ed_sum_def mult.assoc mult.commute [of u] mult.commute [of v])
  moreover have "x3 = x3' \<and> y3 = y3'" if "ed_sum x1 y1 x2 y2 x3 y3" "ed_sum x1 y1 x2 y2 x3' y3'" for x3 y3 x3' y3'
    using that unit_cancel [OF assms(1), of x3 x3'] unit_cancel [OF assms(2), of y3 y3'] by (simp add: ed_sum_def)
  ultimately show ?thesis by blast
qed

text \<open>
  The curve is closed under the law.  Both sides are multiplied by the denominators; the products \<open>d x\<^sup>2 y\<^sup>2\<close>
  are \<open>a = y\<^sup>2 - x\<^sup>2 - 1\<close> on the curve, and what remains is an identity in \<open>a\<close> and \<open>b\<close>.
\<close>

lemma ed_sum_on_curve:
  assumes "on_curve x1 y1" and "on_curve x2 y2" and "ed_sum x1 y1 x2 y2 x3 y3"
    and "1 + gf_d * (x1 * x2 * y1 * y2) dvd 1" and "1 - gf_d * (x1 * x2 * y1 * y2) dvd 1"
  shows "on_curve x3 y3"
proof -
  define D a b m X Y where "D = gf_d * (x1 * x2 * y1 * y2)" and "a = gf_d * (x1 * x1 * y1 * y1)"
    and "b = gf_d * (x2 * x2 * y2 * y2)" and "m = x1 * x2 * y1 * y2"
    and "X = x1 * y2 + y1 * x2" and "Y = y1 * y2 + x1 * x2"
  have s: "y1 * y1 - x1 * x1 = 1 + a" "y2 * y2 - x2 * x2 = 1 + b"
    using assms(1,2) by (simp_all add: on_curve_def a_def b_def mult_ac)
  have DD: "D * D = a * b" and am: "a * (x2 * x2 * y2 * y2) = D * m" and bm: "b * (x1 * x1 * y1 * y1) = D * m"
    by (simp_all add: D_def a_def b_def m_def mult_ac)
  have YX: "Y * Y - X * X = (1 + a) * (1 + b)"
    unfolding s [symmetric] X_def Y_def by (simp add: algebra_simps)
  define p q where "p = x1 * x1 + y1 * y1" and "q = x2 * x2 + y2 * y2"
  have YpX: "Y * Y + X * X = p * q + 4 * m"
    unfolding X_def Y_def p_def q_def m_def by (simp add: algebra_simps)
  have pq: "p * p = (1 + a) * (1 + a) + 4 * (x1 * x1 * y1 * y1)" "q * q = (1 + b) * (1 + b) + 4 * (x2 * x2 * y2 * y2)"
    unfolding s [symmetric] p_def q_def by (simp_all add: algebra_simps)
  have XY: "gf_d * (X * X) * (Y * Y) = a * (q * q) + b * (p * p) + 2 * D * p * q"
    unfolding X_def Y_def a_def b_def D_def p_def q_def by (simp add: algebra_simps)
  have x3: "x3 * (1 + D) = X" and y3: "y3 * (1 - D) = Y"
    using assms(3) by (simp_all add: ed_sum_def D_def X_def Y_def)
  have "Y * Y * ((1 + D) * (1 + D)) - X * X * ((1 - D) * (1 - D)) = (Y * Y - X * X) * (1 + D * D) + 2 * D * (Y * Y + X * X)"
    by (simp add: algebra_simps)
  also have "\<dots> = (1 - D * D) * (1 - D * D) + gf_d * (X * X) * (Y * Y)"
    unfolding YX YpX XY pq DD distrib_left [of a] distrib_left [of b] mult.left_commute [of a 4] mult.left_commute [of b 4] am bm
    by (simp add: algebra_simps)
  finally have key: "(y3 * y3 - x3 * x3) * ((1 + D) * (1 - D) * ((1 + D) * (1 - D)))
    = (1 + gf_d * (x3 * x3) * (y3 * y3)) * ((1 + D) * (1 - D) * ((1 + D) * (1 - D)))"
    unfolding x3 [symmetric] y3 [symmetric] by (simp add: algebra_simps)
  have "(1 + D) * (1 - D) * ((1 + D) * (1 - D)) dvd 1"
    using assms(4,5) unfolding D_def [symmetric] by (intro unit_mult)
  from unit_cancel [OF this key] show ?thesis by (simp add: on_curve_def)
qed

text \<open>Addition and subtraction of records, with the conversions the callers put around them.\<close>

lemma add_point:
  assumes "p3_point P x1 y1" and "p3_point Q x2 y2" and "ed_sum x1 y1 x2 y2 x3 y3"
    and "1 + gf_d * (x1 * x2 * y1 * y2) dvd 1" and "1 - gf_d * (x1 * x2 * y1 * y2) dvd 1"
  shows "\<exists>c t R. ge_p3_to_cached Q = Some c \<and> ge_add P c = Some t \<and> ge_p1p1_to_p3 t = Some R \<and> p3_point R x3 y3"
proof -
  note P = assms(1) [unfolded p3_point_def] and Q = assms(2) [unfolded p3_point_def]
  obtain c where c: "ge_p3_to_cached Q = Some c" "cached_rep c x2 y2 (gf_of (p3_Z Q))"
    by (rule runsE [OF ge_p3_to_cached_rep [OF conjunct1 [OF Q]]])
  obtain t where t: "ge_add P c = Some t" "p1p1_rep t x3 y3
      (2 * gf_of (p3_Z P) * gf_of (p3_Z Q) * (1 + gf_d * (x1 * x2 * y1 * y2)))
      (2 * gf_of (p3_Z P) * gf_of (p3_Z Q) * (1 - gf_d * (x1 * x2 * y1 * y2)))"
    by (rule runsE [OF ge_add_rep [OF conjunct1 [OF P] c(2) assms(3)]])
  have "p3_point R x3 y3" if R: "p3_rep R x3 y3 (2 * gf_of (p3_Z P) * gf_of (p3_Z Q) * (1 + gf_d * (x1 * x2 * y1 * y2))
      * (2 * gf_of (p3_Z P) * gf_of (p3_Z Q) * (1 - gf_d * (x1 * x2 * y1 * y2))))" for R
    using P Q assms(4,5) two_unit by (intro p3_point_rep [OF R] unit_mult) simp_all
  with c(1) t(1) show ?thesis using runsE [OF ge_p1p1_to_p3_rep [OF t(2)]] by metis
qed

lemma sub_point:
  assumes "p3_point P x1 y1" and "p3_point Q x2 y2" and "ed_sum x1 y1 (- x2) y2 x3 y3"
    and "1 + gf_d * (x1 * - x2 * y1 * y2) dvd 1" and "1 - gf_d * (x1 * - x2 * y1 * y2) dvd 1"
  shows "\<exists>c t R. ge_p3_to_cached Q = Some c \<and> ge_sub P c = Some t \<and> ge_p1p1_to_p3 t = Some R \<and> p3_point R x3 y3"
proof -
  note P = assms(1) [unfolded p3_point_def] and Q = assms(2) [unfolded p3_point_def]
  obtain c where c: "ge_p3_to_cached Q = Some c" "cached_rep c x2 y2 (gf_of (p3_Z Q))"
    by (rule runsE [OF ge_p3_to_cached_rep [OF conjunct1 [OF Q]]])
  obtain t where t: "ge_sub P c = Some t" "p1p1_rep t x3 y3
      (2 * gf_of (p3_Z P) * gf_of (p3_Z Q) * (1 + gf_d * (x1 * - x2 * y1 * y2)))
      (2 * gf_of (p3_Z P) * gf_of (p3_Z Q) * (1 - gf_d * (x1 * - x2 * y1 * y2)))"
    by (rule runsE [OF ge_sub_rep [OF conjunct1 [OF P] c(2) assms(3)]])
  have "p3_point R x3 y3" if R: "p3_rep R x3 y3 (2 * gf_of (p3_Z P) * gf_of (p3_Z Q) * (1 + gf_d * (x1 * - x2 * y1 * y2))
      * (2 * gf_of (p3_Z P) * gf_of (p3_Z Q) * (1 - gf_d * (x1 * - x2 * y1 * y2))))" for R
    using P Q assms(4,5) two_unit by (intro p3_point_rep [OF R] unit_mult) simp_all
  with c(1) t(1) show ?thesis using runsE [OF ge_p1p1_to_p3_rep [OF t(2)]] by metis
qed

text \<open>Each result stands for one point, which is the sum or the difference.\<close>

lemma add_point_exact:
  assumes "p3_point P x1 y1" and "p3_point Q x2 y2"
    and "1 + gf_d * (x1 * x2 * y1 * y2) dvd 1" and "1 - gf_d * (x1 * x2 * y1 * y2) dvd 1"
    and "ge_p3_to_cached Q = Some c"
  shows "\<exists>t R. ge_add P c = Some t \<and> ge_p1p1_to_p3 t = Some R
    \<and> (\<exists>!(x3, y3). p3_point R x3 y3) \<and> (\<forall>x3 y3. p3_point R x3 y3 \<longleftrightarrow> ed_sum x1 y1 x2 y2 x3 y3)
    \<and> (\<forall>x3 y3. on_curve x1 y1 \<and> on_curve x2 y2 \<and> p3_point R x3 y3 \<longrightarrow> on_curve x3 y3)"
proof -
  obtain x y where s: "ed_sum x1 y1 x2 y2 x y" "\<forall>x' y'. ed_sum x1 y1 x2 y2 x' y' \<longrightarrow> x' = x \<and> y' = y"
    using ed_sum_unique [OF assms(3,4)] by auto blast
  obtain t R where r: "ge_p3_to_cached Q = Some c" "ge_add P c = Some t" "ge_p1p1_to_p3 t = Some R" "p3_point R x y"
    using add_point [OF assms(1,2) s(1) assms(3,4)] assms(5) by auto
  have iff: "p3_point R x3 y3 \<longleftrightarrow> ed_sum x1 y1 x2 y2 x3 y3" for x3 y3
    using s r(4) p3_point_unique [OF r(4), of x3 y3] by blast
  then have "on_curve x3 y3" if "on_curve x1 y1" "on_curve x2 y2" "p3_point R x3 y3" for x3 y3
    using that ed_sum_on_curve [OF that(1,2) _ assms(3,4)] by blast
  moreover have "\<exists>!(x3, y3). p3_point R x3 y3" using ed_sum_unique [OF assms(3,4)] unfolding iff .
  ultimately show ?thesis using r(2,3) iff by blast
qed

lemma sub_point_exact:
  assumes "p3_point P x1 y1" and "p3_point Q x2 y2"
    and "1 + gf_d * (x1 * x2 * y1 * y2) dvd 1" and "1 - gf_d * (x1 * x2 * y1 * y2) dvd 1"
    and "ge_p3_to_cached Q = Some c"
  shows "\<exists>t R. ge_sub P c = Some t \<and> ge_p1p1_to_p3 t = Some R
    \<and> (\<exists>!(x3, y3). p3_point R x3 y3) \<and> (\<forall>x3 y3. p3_point R x3 y3 \<longleftrightarrow> ed_sum x1 y1 (- x2) y2 x3 y3)
    \<and> (\<forall>x3 y3. on_curve x1 y1 \<and> on_curve x2 y2 \<and> p3_point R x3 y3 \<longrightarrow> on_curve x3 y3)"
proof -
  have u: "1 + gf_d * (x1 * - x2 * y1 * y2) dvd 1" "1 - gf_d * (x1 * - x2 * y1 * y2) dvd 1"
    using assms(3,4) by simp_all
  obtain x y where s: "ed_sum x1 y1 (- x2) y2 x y" "\<forall>x' y'. ed_sum x1 y1 (- x2) y2 x' y' \<longrightarrow> x' = x \<and> y' = y"
    using ed_sum_unique [OF u] by auto blast
  obtain t R where r: "ge_p3_to_cached Q = Some c" "ge_sub P c = Some t" "ge_p1p1_to_p3 t = Some R" "p3_point R x y"
    using sub_point [OF assms(1,2) s(1) u] assms(5) by auto
  have iff: "p3_point R x3 y3 \<longleftrightarrow> ed_sum x1 y1 (- x2) y2 x3 y3" for x3 y3
    using s r(4) p3_point_unique [OF r(4), of x3 y3] by blast
  have "on_curve (- x2) y2" if "on_curve x2 y2" using that by (simp add: on_curve_def)
  with iff have "on_curve x3 y3" if "on_curve x1 y1" "on_curve x2 y2" "p3_point R x3 y3" for x3 y3
    using that ed_sum_on_curve [OF that(1) _ _ u] by blast
  moreover have "\<exists>!(x3, y3). p3_point R x3 y3" using ed_sum_unique [OF u] unfolding iff .
  ultimately show ?thesis using r(2,3) iff by blast
qed

lemma ge_p3_0_point: "p3_point ge_p3_0 0 1"
  using ge_p3_0_rep by (rule p3_point_rep) simp

end
