(* ===== verification/GeScalar.thy ===== *)
theory GeScalar
  imports GeBase
begin

unbundle bit_operations_syntax

text \<open>
  Scalar multiplication (\<^verbatim>\<open>ge_scalarmult_base.c\<close>, \<^verbatim>\<open>ge_double_scalarmult.c\<close>): the two signed
  recodings of a scalar, the constant-time table lookup, and the three loops.  A C
  \<^verbatim>\<open>signed char\<close> is an \<open>int\<close>, converted by \<open>schar\<close> at every store; arithmetic on it is done after
  promotion to \<^verbatim>\<open>int\<close>, as in C.  The theorems: both recodings represent the scalar exactly, with
  digits in the range the tables cover; the masked lookup returns the selected multiple; and the
  loops run without overflow for every scalar they are specified for.
\<close>

definition schar :: "int \<Rightarrow> int" where
  "schar x = signed_take_bit 7 x"

lemma schar_id: "- 128 \<le> x \<Longrightarrow> x \<le> 127 \<Longrightarrow> schar x = x"
  by (simp add: schar_def signed_take_bit_int_eq_self)

subsection \<open>Constant-time selection\<close>

definition equal_char :: "int \<Rightarrow> int \<Rightarrow> byte" where
  "equal_char b c =
     (let ub = word_of_int b :: byte;
          uc = word_of_int c;
          x = ub XOR uc;
          y = ucast x :: 32 word;
          y = y - 1;
          y = drop_bit 31 y
      in ucast y)"

definition negative :: "int \<Rightarrow> byte" where
  "negative b = (let x = word_of_int b :: 64 word; x = drop_bit 63 x in ucast x)"

definition cmov :: "ge_precomp \<Rightarrow> ge_precomp \<Rightarrow> byte \<Rightarrow> ge_precomp" where
  "cmov t u b =
     \<lparr>yplusx = fe_cmov (yplusx t) (yplusx u) (ucast b),
      yminusx = fe_cmov (yminusx t) (yminusx u) (ucast b),
      xy2d = fe_cmov (xy2d t) (xy2d u) (ucast b)\<rparr>"

definition select :: "nat \<Rightarrow> int \<Rightarrow> ge_precomp option" where
  "select pos b =
     (let bnegative = negative b;
          babs = word_of_int (b - ((- uint bnegative) AND b) * 2) :: byte;
          t = ge_precomp_0;
          t = cmov t (base ! pos ! 0) (equal_char (sint babs) 1);
          t = cmov t (base ! pos ! 1) (equal_char (sint babs) 2);
          t = cmov t (base ! pos ! 2) (equal_char (sint babs) 3);
          t = cmov t (base ! pos ! 3) (equal_char (sint babs) 4);
          t = cmov t (base ! pos ! 4) (equal_char (sint babs) 5);
          t = cmov t (base ! pos ! 5) (equal_char (sint babs) 6);
          t = cmov t (base ! pos ! 6) (equal_char (sint babs) 7);
          t = cmov t (base ! pos ! 7) (equal_char (sint babs) 8)
      in do {
        m \<leftarrow> fe_neg (xy2d t);
        let minust = \<lparr>yplusx = fe_copy (yminusx t), yminusx = fe_copy (yplusx t), xy2d = m\<rparr>;
        Some (cmov t minust bnegative) })"

subsection \<open>Multiplication of the base point\<close>

definition radix16 :: "byte list \<Rightarrow> int list" where
  "radix16 a = concat (map (\<lambda>b. [uint (b AND 15), uint (drop_bit 4 b AND 15)]) a)"

text \<open>The carry loop over \<^verbatim>\<open>e[0..62]\<close> and the final \<^verbatim>\<open>e[63] += carry\<close>.\<close>

fun radix16_carry :: "int \<Rightarrow> int list \<Rightarrow> int list" where
  "radix16_carry carry [] = []"
| "radix16_carry carry [e] = [schar (e + carry)]"
| "radix16_carry carry (e # f # es) =
     (let e = schar (e + carry);
          carry = schar (e + 8);
          carry = shr carry 4;
          e = schar (e - carry * 2 ^ 4)
      in e # radix16_carry carry (f # es))"

fun base_loop :: "int list \<Rightarrow> nat list \<Rightarrow> ge_p3 \<Rightarrow> ge_p3 option" where
  "base_loop e [] h = Some h"
| "base_loop e (i # is) h = do {
     t \<leftarrow> select (i div 2) (e ! i);
     r \<leftarrow> ge_madd h t;
     h \<leftarrow> ge_p1p1_to_p3 r;
     base_loop e is h }"

definition ge_scalarmult_base :: "byte list \<Rightarrow> ge_p3 option" where
  "ge_scalarmult_base a = do {
     let e = radix16_carry 0 (radix16 a);
     h \<leftarrow> base_loop e (map (\<lambda>k. 2 * k + 1) [0..<32]) ge_p3_0;
     r \<leftarrow> ge_p3_dbl h;
     s \<leftarrow> ge_p1p1_to_p2 r;
     r \<leftarrow> ge_p2_dbl s;
     s \<leftarrow> ge_p1p1_to_p2 r;
     r \<leftarrow> ge_p2_dbl s;
     s \<leftarrow> ge_p1p1_to_p2 r;
     r \<leftarrow> ge_p2_dbl s;
     h \<leftarrow> ge_p1p1_to_p3 r;
     base_loop e (map (\<lambda>k. 2 * k) [0..<32]) h }"

subsection \<open>Sliding windows\<close>

text \<open>\<^verbatim>\<open>for (k = i + b; k < 256; ++k) { if (!r[k]) { r[k] = 1; break; } r[k] = 0; }\<close>\<close>

function slide_carry :: "nat \<Rightarrow> int list \<Rightarrow> int list" where
  "slide_carry k r =
     (if k < 256 then (if r ! k = 0 then r[k := 1] else slide_carry (k + 1) (r[k := 0])) else r)"
  by auto
termination by (relation "measure (\<lambda>(k, r). 256 - k)") auto

declare slide_carry.simps [simp del]

text \<open>The loop over \<^verbatim>\<open>b\<close> for a fixed \<^verbatim>\<open>i\<close>; the last \<^verbatim>\<open>else\<close> is its \<^verbatim>\<open>break\<close>.\<close>

function slide_window :: "nat \<Rightarrow> nat \<Rightarrow> int list \<Rightarrow> int list" where
  "slide_window i b r =
     (if b \<le> 6 \<and> i + b < 256 then
        if r ! (i + b) \<noteq> 0 then
          if r ! i + r ! (i + b) * 2 ^ b \<le> 15 then
            slide_window i (b + 1) (r[i := schar (r ! i + r ! (i + b) * 2 ^ b), i + b := 0])
          else if r ! i - r ! (i + b) * 2 ^ b \<ge> - 15 then
            slide_window i (b + 1)
              (slide_carry (i + b) (r[i := schar (r ! i - r ! (i + b) * 2 ^ b)]))
          else r
        else slide_window i (b + 1) r
      else r)"
  by auto
termination by (relation "measure (\<lambda>(i, b, r). 7 - b)") auto

declare slide_window.simps [simp del]

definition slide_bits :: "byte list \<Rightarrow> int list" where
  "slide_bits a = map (\<lambda>i. uint (1 AND drop_bit (i mod 8) (a ! (i div 8)))) [0..<256]"

definition slide_step :: "nat \<Rightarrow> int list \<Rightarrow> int list" where
  "slide_step i r = (if r ! i \<noteq> 0 then slide_window i 1 r else r)"

definition slide :: "byte list \<Rightarrow> int list" where
  "slide a = fold slide_step [0..<256] (slide_bits a)"

subsection \<open>Multiplication of a variable point\<close>

text \<open>\<^verbatim>\<open>ge_add(&t, &A2, &Ai[n]); ge_p1p1_to_p3(&u, &t); ge_p3_to_cached(&Ai[n + 1], &u);\<close>\<close>

fun odd_multiples :: "nat \<Rightarrow> ge_p3 \<Rightarrow> ge_cached \<Rightarrow> ge_cached list option" where
  "odd_multiples 0 A2 c = Some [c]"
| "odd_multiples (Suc n) A2 c = do {
     t \<leftarrow> ge_add A2 c;
     u \<leftarrow> ge_p1p1_to_p3 t;
     c' \<leftarrow> ge_p3_to_cached u;
     cs \<leftarrow> odd_multiples n A2 c';
     Some (c # cs) }"

definition cached_table :: "ge_p3 \<Rightarrow> ge_cached list option" where
  "cached_table A = do {
     c \<leftarrow> ge_p3_to_cached A;
     t \<leftarrow> ge_p3_dbl A;
     A2 \<leftarrow> ge_p1p1_to_p3 t;
     odd_multiples 7 A2 c }"

text \<open>\<^verbatim>\<open>for (i = 255; i >= 0; --i) if (aslide[i]) break;\<close>: the indices the second loop runs over.\<close>

definition loop_indices :: "(nat \<Rightarrow> bool) \<Rightarrow> nat list" where
  "loop_indices nz = dropWhile (\<lambda>i. \<not> nz i) (rev [0..<256])"

text \<open>The addition or subtraction of a digit of \<^verbatim>\<open>aslide\<close> to the doubled accumulator.\<close>

definition add_digit :: "ge_cached list \<Rightarrow> int \<Rightarrow> ge_p1p1 \<Rightarrow> ge_p1p1 option" where
  "add_digit Ai s t =
     (if s > 0 then do { u \<leftarrow> ge_p1p1_to_p3 t; ge_add u (Ai ! nat (s div 2)) }
      else if s < 0 then do { u \<leftarrow> ge_p1p1_to_p3 t; ge_sub u (Ai ! nat ((- s) div 2)) }
      else Some t)"

definition add_base_digit :: "int \<Rightarrow> ge_p1p1 \<Rightarrow> ge_p1p1 option" where
  "add_base_digit s t =
     (if s > 0 then do { u \<leftarrow> ge_p1p1_to_p3 t; ge_madd u (Bi ! nat (s div 2)) }
      else if s < 0 then do { u \<leftarrow> ge_p1p1_to_p3 t; ge_msub u (Bi ! nat ((- s) div 2)) }
      else Some t)"

fun vartime_loop :: "int list \<Rightarrow> ge_cached list \<Rightarrow> nat list \<Rightarrow> ge_p3 \<Rightarrow> ge_p3 option" where
  "vartime_loop aslide Ai [] r = Some r"
| "vartime_loop aslide Ai (i # is) r = do {
     t \<leftarrow> ge_p3_dbl r;
     t \<leftarrow> add_digit Ai (aslide ! i) t;
     r \<leftarrow> ge_p1p1_to_p3 t;
     vartime_loop aslide Ai is r }"

definition ge_scalarmult_vartime :: "byte list \<Rightarrow> ge_p3 \<Rightarrow> ge_p3 option" where
  "ge_scalarmult_vartime a A = do {
     let aslide = slide a;
     Ai \<leftarrow> cached_table A;
     vartime_loop aslide Ai (loop_indices (\<lambda>i. aslide ! i \<noteq> 0)) ge_p3_0 }"

fun double_loop :: "int list \<Rightarrow> int list \<Rightarrow> ge_cached list \<Rightarrow> nat list \<Rightarrow> ge_p2 \<Rightarrow> ge_p2 option" where
  "double_loop aslide bslide Ai [] r = Some r"
| "double_loop aslide bslide Ai (i # is) r = do {
     t \<leftarrow> ge_p2_dbl r;
     t \<leftarrow> add_digit Ai (aslide ! i) t;
     t \<leftarrow> add_base_digit (bslide ! i) t;
     r \<leftarrow> ge_p1p1_to_p2 t;
     double_loop aslide bslide Ai is r }"

definition ge_double_scalarmult_vartime :: "byte list \<Rightarrow> ge_p3 \<Rightarrow> byte list \<Rightarrow> ge_p2 option" where
  "ge_double_scalarmult_vartime a A b = do {
     let aslide = slide a;
     let bslide = slide b;
     Ai \<leftarrow> cached_table A;
     double_loop aslide bslide Ai (loop_indices (\<lambda>i. aslide ! i \<noteq> 0 \<or> bslide ! i \<noteq> 0)) ge_p2_0 }"

subsection \<open>The lookup returns the selected entry\<close>

lemma equal_char_digit:
  assumes "0 \<le> b" and "b \<le> 8" and "1 \<le> c" and "c \<le> 8"
  shows "equal_char b c = (if b = c then 1 else 0)"
proof -
  have "list_all (\<lambda>b. list_all (\<lambda>c. equal_char b c = (if b = c then 1 else 0)) [1..8]) [0..8]" by code_simp
  then show ?thesis using assms unfolding list_all_iff set_upto by auto
qed

lemma digit_sign:
  assumes "- 8 \<le> b" and "b \<le> 8"
  shows "negative b = (if b < 0 then 1 else 0)"
    and "sint (word_of_int (b - ((- uint (negative b)) AND b) * 2) :: byte) = \<bar>b\<bar>"
proof -
  have "list_all (\<lambda>b. negative b = (if b < 0 then 1 else 0)) [- 8..8]" by code_simp
  then show "negative b = (if b < 0 then 1 else 0)"
    using assms unfolding list_all_iff set_upto by auto
  have "list_all (\<lambda>b. sint (word_of_int (b - ((- uint (negative b)) AND b) * 2) :: byte) = \<bar>b\<bar>) [- 8..8]"
    by code_simp
  then show "sint (word_of_int (b - ((- uint (negative b)) AND b) * 2) :: byte) = \<bar>b\<bar>"
    using assms unfolding list_all_iff set_upto by auto
qed

lemma cmov_select:
  assumes "precomp_ok t" and "precomp_ok u"
  shows "cmov t u (if c then 1 else 0) = (if c then u else t)"
  using assms by (simp add: cmov_def fe_cmov_spec precomp_ok_def fe_bounds_chain)

definition table_entry :: "nat \<Rightarrow> int \<Rightarrow> ge_precomp" where
  "table_entry pos b = (if b = 0 then ge_precomp_0 else base ! pos ! (nat \<bar>b\<bar> - 1))"

lemma ge_precomp_0_ok: "precomp_ok ge_precomp_0"
  using ge_precomp_0_rep by (simp add: precomp_rep_def)

lemma table_entry_ok: "pos < 32 \<Longrightarrow> - 8 \<le> b \<Longrightarrow> b \<le> 8 \<Longrightarrow> precomp_ok (table_entry pos b)"
  by (auto simp: table_entry_def ge_precomp_0_ok intro!: base_entry_ok)

lemma masked_selection:
  assumes "0 \<le> a" and "a \<le> 8" and "pos < 32"
  shows "cmov (cmov (cmov (cmov (cmov (cmov (cmov (cmov ge_precomp_0
     (base ! pos ! 0) (equal_char a 1)) (base ! pos ! 1) (equal_char a 2))
     (base ! pos ! 2) (equal_char a 3)) (base ! pos ! 3) (equal_char a 4))
     (base ! pos ! 4) (equal_char a 5)) (base ! pos ! 5) (equal_char a 6))
     (base ! pos ! 6) (equal_char a 7)) (base ! pos ! 7) (equal_char a 8) = table_entry pos a"
proof -
  note ok = base_entry_ok [OF assms(3)] ge_precomp_0_ok
  have "a = 0 \<or> a = 1 \<or> a = 2 \<or> a = 3 \<or> a = 4 \<or> a = 5 \<or> a = 6 \<or> a = 7 \<or> a = 8"
    using assms(1,2) by linarith
  then show ?thesis
    by (elim disjE) (simp_all add: equal_char_digit cmov_select [where c = True, simplified]
        cmov_select [where c = False, simplified] ok table_entry_def)
qed

theorem select_spec:
  assumes "pos < 32" and "- 8 \<le> b" and "b \<le> 8"
  shows "runs (select pos b) (\<lambda>t. precomp_ok t \<and>
    (let e = table_entry pos b
     in if b < 0 then yplusx t = yminusx e \<and> yminusx t = yplusx e \<and> gf_of (xy2d t) = - gf_of (xy2d e)
        else t = e))"
proof -
  let ?e = "table_entry pos \<bar>b\<bar>"
  have e: "?e = table_entry pos b" by (simp add: table_entry_def)
  have le8: "\<bar>b\<bar> \<le> 8" using assms(2,3) by (simp add: abs_le_iff)
  have ok: "precomp_ok ?e" using table_entry_ok [OF assms(1), of "\<bar>b\<bar>"] assms by simp
  from fe_neg_tight [of "xy2d ?e"] ok obtain m where
    m: "fe_neg (xy2d ?e) = Some m" "fe_tight m" "gf_of m = - gf_of (xy2d ?e)"
    by (auto simp: runs_def precomp_ok_def)
  let ?n = "\<lparr>yplusx = fe_copy (yminusx ?e), yminusx = fe_copy (yplusx ?e), xy2d = m\<rparr>"
  have n: "precomp_ok ?n" "fe_copy (yminusx ?e) = yminusx ?e" "fe_copy (yplusx ?e) = yplusx ?e"
    using ok m by (simp_all add: precomp_ok_def fe_copy_tight)
  have "select pos b = Some (cmov ?e ?n (if b < 0 then 1 else 0))"
    unfolding select_def Let_def digit_sign(2) [OF assms(2,3)]
    unfolding masked_selection [OF abs_ge_zero le8 assms(1)] digit_sign(1) [OF assms(2,3)]
    by (simp only: m(1) Option.bind.simps)
  then have sel: "select pos b = Some (if b < 0 then ?n else ?e)"
    by (simp only: cmov_select [OF ok n(1)])
  show ?thesis
  proof (cases "b < 0")
    case True
    then show ?thesis unfolding sel e [symmetric] Let_def using n m by simp
  next
    case False
    then show ?thesis unfolding sel e [symmetric] Let_def using ok by simp
  qed
qed

subsection \<open>Signed radix-16 digits\<close>

fun digits_val :: "int \<Rightarrow> int list \<Rightarrow> int" where
  "digits_val r [] = 0"
| "digits_val r (e # es) = e + r * digits_val r es"

lemma radix16_val: "digits_val 16 (radix16 a) = le_val a"
proof (induction a)
  case Nil
  then show ?case by (simp add: radix16_def)
next
  case (Cons b a)
  have "list_all (\<lambda>k. uint (word_of_int k AND 15 :: byte) + 16 * uint (drop_bit 4 (word_of_int k) AND 15 :: byte) = k) [0..255]"
    by code_simp
  then have "uint (word_of_int (uint b) AND 15 :: byte) + 16 * uint (drop_bit 4 (word_of_int (uint b)) AND 15 :: byte) = uint b"
    using byte_range [of b] unfolding list_all_iff set_upto by (elim ballE [of _ _ "uint b"]) auto
  with Cons show ?case by (simp add: radix16_def)
qed

lemma and15_range: "0 \<le> uint (b AND 15 :: byte)" "uint (b AND 15 :: byte) \<le> 15"
proof -
  have "uint (b AND 15) = uint b mod 16"
    using take_bit_eq_mask [of 4 "uint b"] by (simp add: uint_and take_bit_eq_mod mask_eq_exp_minus_1)
  then show "0 \<le> uint (b AND 15)" "uint (b AND 15) \<le> 15"
    using pos_mod_bound [of 16 "uint b"] by simp_all
qed

lemma radix16_digits: "list_all (\<lambda>e. 0 \<le> e \<and> e \<le> 15) (radix16 a)" "length (radix16 a) = 2 * length a"
  by (induction a) (auto simp: radix16_def and15_range)

lemma carry_step:
  assumes "0 \<le> e" "e \<le> 15" "0 \<le> c" "c \<le> 1"
  shows "schar (e + c) = e + c" "schar (e + c + 8) = e + c + 8"
    "0 \<le> (e + c + 8) div 16" "(e + c + 8) div 16 \<le> 1"
    "schar (e + c - (e + c + 8) div 16 * 16) = e + c - (e + c + 8) div 16 * 16"
    "- 8 \<le> e + c - (e + c + 8) div 16 * 16" "e + c - (e + c + 8) div 16 * 16 \<le> 7"
proof -
  show "schar (e + c) = e + c" "schar (e + c + 8) = e + c + 8"
    using assms by (simp_all add: schar_id)
  show "0 \<le> (e + c + 8) div 16" using assms by (simp add: pos_imp_zdiv_nonneg_iff)
  show "(e + c + 8) div 16 \<le> 1" using div_less_of_less_mult [of "e + c + 8" 2 16] assms by simp
  have "16 * ((e + c + 8) div 16) + (e + c + 8) mod 16 = e + c + 8" by simp
  moreover have "0 \<le> (e + c + 8) mod 16" "(e + c + 8) mod 16 < 16" by simp_all
  ultimately show r: "- 8 \<le> e + c - (e + c + 8) div 16 * 16" "e + c - (e + c + 8) div 16 * 16 \<le> 7"
    by linarith+
  then show "schar (e + c - (e + c + 8) div 16 * 16) = e + c - (e + c + 8) div 16 * 16"
    by (intro schar_id) simp_all
qed

lemma radix16_carry_spec:
  assumes "list_all (\<lambda>e. 0 \<le> e \<and> e \<le> 15) es" and "es \<noteq> []" and "last es \<le> 7" and "0 \<le> c" and "c \<le> 1"
  shows "digits_val 16 (radix16_carry c es) = digits_val 16 es + c
    \<and> list_all (\<lambda>e. - 8 \<le> e \<and> e \<le> 8) (radix16_carry c es) \<and> length (radix16_carry c es) = length es"
  using assms
proof (induction c es rule: radix16_carry.induct)
  case (1 c)
  then show ?case by simp
next
  case (2 c e)
  then show ?case by (simp add: schar_id)
next
  case (3 c e f es)
  note s = carry_step [of e c]
  have sh: "shr x 4 = x div 16" for x by (simp add: shr_def)
  define q where "q = (e + c + 8) div 16"
  have IH: "digits_val 16 (radix16_carry q (f # es)) = digits_val 16 (f # es) + q
    \<and> list_all (\<lambda>e. - 8 \<le> e \<and> e \<le> 8) (radix16_carry q (f # es))
    \<and> length (radix16_carry q (f # es)) = length (f # es)"
    using "3.IH" "3.prems" s by (simp add: sh q_def)
  moreover have "radix16_carry c (e # f # es) = (e + c - q * 16) # radix16_carry q (f # es)"
    using s "3.prems" by (simp add: sh Let_def q_def)
  ultimately show ?case using s "3.prems" by (auto simp: q_def)
qed

theorem radix16_recoding:
  assumes "length a = 32" and "a ! 31 \<le> 127"
  shows "digits_val 16 (radix16_carry 0 (radix16 a)) = le_val a"
    and "list_all (\<lambda>e. - 8 \<le> e \<and> e \<le> 8) (radix16_carry 0 (radix16 a))"
    and "length (radix16_carry 0 (radix16 a)) = 64"
proof -
  obtain b t where a: "a = b @ [t]" using assms(1) by (cases a rule: rev_cases) auto
  with assms have "t \<le> 127" by (simp add: nth_append)
  have "list_all (\<lambda>k. uint (drop_bit 4 (word_of_int k) AND 15 :: byte) \<le> 7) [0..127]" by code_simp
  moreover have "uint t \<le> 127" using \<open>t \<le> 127\<close> by (simp add: word_le_def)
  ultimately have "uint (drop_bit 4 (word_of_int (uint t)) AND 15 :: byte) \<le> 7"
    using byte_range [of t] unfolding list_all_iff set_upto by (elim ballE [of _ _ "uint t"]) auto
  then have "last (radix16 a) \<le> 7" by (simp add: a radix16_def)
  moreover have "radix16 a \<noteq> []" by (simp add: a radix16_def)
  ultimately show "digits_val 16 (radix16_carry 0 (radix16 a)) = le_val a"
    "list_all (\<lambda>e. - 8 \<le> e \<and> e \<le> 8) (radix16_carry 0 (radix16 a))"
    "length (radix16_carry 0 (radix16 a)) = 64"
    using radix16_carry_spec [OF radix16_digits(1) [of a], of 0] assms(1)
    by (simp_all add: radix16_val radix16_digits(2))
qed


subsection \<open>The sliding-window recoding\<close>

definition slide_val :: "int list \<Rightarrow> int" where
  "slide_val r = (\<Sum>j<256. r ! j * 2 ^ j)"

abbreviation bit_digit :: "int \<Rightarrow> bool" where
  "bit_digit x \<equiv> x = 0 \<or> x = 1"

lemma slide_val_update:
  assumes "length r = 256" and "i < 256"
  shows "slide_val (r[i := v]) = slide_val r + (v - r ! i) * 2 ^ i"
proof -
  have "(\<Sum>j<256. r[i := v] ! j * 2 ^ j) = v * 2 ^ i + (\<Sum>j\<in>{..<256} - {i}. r[i := v] ! j * 2 ^ j)"
    using assms by (subst sum.remove [of _ i]) simp_all
  also have "(\<Sum>j\<in>{..<256} - {i}. r[i := v] ! j * 2 ^ j) = (\<Sum>j\<in>{..<256} - {i}. r ! j * 2 ^ j)"
    by (rule sum.cong) auto
  also have "\<dots> = slide_val r - r ! i * 2 ^ i"
    using assms unfolding slide_val_def by (subst sum.remove [of _ i]) simp_all
  finally show ?thesis by (simp add: slide_val_def algebra_simps)
qed

lemma slide_carry_spec:
  assumes "length r = 256" and "\<forall>j. k \<le> j \<and> j < 256 \<longrightarrow> bit_digit (r ! j)"
    and "\<exists>z. k \<le> z \<and> z < 256 \<and> r ! z = 0"
  shows "length (slide_carry k r) = 256 \<and> slide_val (slide_carry k r) = slide_val r + 2 ^ k
    \<and> (\<forall>j<k. slide_carry k r ! j = r ! j) \<and> (\<forall>j. k \<le> j \<and> j < 256 \<longrightarrow> bit_digit (slide_carry k r ! j))
    \<and> (r ! k = 1 \<longrightarrow> slide_carry k r ! k = 0)"
  using assms
proof (induction k r rule: slide_carry.induct)
  case (1 k r)
  have k: "k < 256" using "1.prems"(3) by auto
  show ?case
  proof (cases "r ! k = 0")
    case True
    then have "slide_carry k r = r[k := 1]" using k by (simp add: slide_carry.simps)
    then show ?thesis using True k "1.prems" by (auto simp: slide_val_update nth_list_update)
  next
    case False
    then have one: "r ! k = 1" using "1.prems"(2) k by auto
    let ?r = "r[k := 0]"
    have eq: "slide_carry k r = slide_carry (k + 1) ?r" using False k by (subst slide_carry.simps) simp
    have "\<exists>z. k + 1 \<le> z \<and> z < 256 \<and> ?r ! z = 0"
      using "1.prems"(3) one by (metis Suc_eq_plus1 Suc_leI le_neq_implies_less nth_list_update_neq zero_neq_one)
    with "1.IH" [OF k False] "1.prems" one have
      "length (slide_carry (k + 1) ?r) = 256 \<and> slide_val (slide_carry (k + 1) ?r) = slide_val ?r + 2 ^ (k + 1)
      \<and> (\<forall>j<k + 1. slide_carry (k + 1) ?r ! j = ?r ! j)
      \<and> (\<forall>j. k + 1 \<le> j \<and> j < 256 \<longrightarrow> bit_digit (slide_carry (k + 1) ?r ! j))"
      by simp
    then have IH: "length (slide_carry k r) = 256" "slide_val (slide_carry k r) = slide_val ?r + 2 ^ (k + 1)"
      "\<forall>j<k + 1. slide_carry k r ! j = ?r ! j" "\<forall>j. k + 1 \<le> j \<and> j < 256 \<longrightarrow> bit_digit (slide_carry k r ! j)"
      by (simp_all add: eq)
    have "slide_carry k r ! k = 0" using IH(3) k "1.prems"(1) by simp
    moreover have "bit_digit (slide_carry k r ! j)" if "k \<le> j" "j < 256" for j
      using that IH(4) \<open>slide_carry k r ! k = 0\<close> by (cases "j = k") auto
    ultimately show ?thesis
      using IH(1-3) one k "1.prems"(1) by (auto simp: slide_val_update)
  qed
qed

text \<open>The digits below \<open>i\<close> are small when the digit at \<open>i\<close> is not zero.\<close>

definition digit_ok :: "int list \<Rightarrow> nat \<Rightarrow> bool" where
  "digit_ok r j \<longleftrightarrow> r ! j = 0 \<or> odd (r ! j) \<and> - 15 \<le> r ! j \<and> r ! j \<le> 15
     \<and> (\<forall>c. 1 \<le> c \<and> c \<le> 4 \<and> j + c < 256 \<longrightarrow> r ! (j + c) = 0)"

lemma low_sum_bound: "\<forall>j<i. - 15 \<le> r ! j \<Longrightarrow> - (15 * (2 ^ i - 1)) \<le> (\<Sum>j<i. r ! j * 2 ^ j)" for r :: "int list"
proof (induction i)
  case (Suc i)
  have "- 15 * 2 ^ i \<le> r ! i * 2 ^ i" using Suc.prems by (intro mult_right_mono) simp_all
  with Suc show ?case by simp
qed simp

lemma low_part:
  assumes "\<forall>j<i. digit_ok r j" and "r ! i \<noteq> 0" and "i < 256"
  shows "- (2 ^ i) < (\<Sum>j<i. r ! j * 2 ^ j)"
proof -
  have z: "r ! j = 0" if "i - 4 \<le> j" "j < i" for j
  proof (rule ccontr)
    assume "r ! j \<noteq> 0"
    then have "\<forall>c. 1 \<le> c \<and> c \<le> 4 \<and> j + c < 256 \<longrightarrow> r ! (j + c) = 0"
      using assms(1) that(2) by (auto simp: digit_ok_def)
    moreover have "1 \<le> i - j" "i - j \<le> 4" "j + (i - j) = i" using that by arith+
    ultimately show False using assms(2,3) by metis
  qed
  have "(\<Sum>j<i. r ! j * 2 ^ j) = (\<Sum>j<i - 4. r ! j * 2 ^ j)"
    by (rule sum.mono_neutral_right) (auto simp: z)
  moreover have "- 15 \<le> r ! j" if "j < i - 4" for j
  proof -
    from that have "digit_ok r j" using assms(1) by simp
    then show ?thesis by (auto simp: digit_ok_def)
  qed
  then have "- (15 * (2 ^ (i - 4) - 1)) \<le> (\<Sum>j<i - 4. r ! j * 2 ^ j)" by (intro low_sum_bound) simp
  moreover have "15 * (2 ^ (i - 4) - 1) < (2 :: int) ^ i"
  proof (cases "i \<le> 4")
    case True
    then show ?thesis by simp
  next
    case False
    then have p: "(2 :: int) ^ i = 16 * 2 ^ (i - 4)" using power_add [of "2 :: int" 4 "i - 4"] by simp
    have key: "15 * (m - 1) < 16 * m" if "0 < m" for m :: int using that by simp
    show ?thesis unfolding p by (rule key) simp
  qed
  ultimately show ?thesis by linarith
qed

lemma ones_sum: "m \<le> 256 \<Longrightarrow> (\<Sum>j = m..<256. 2 ^ j) = (2 ^ 256 - 2 ^ m :: int)"
  by (induction m rule: inc_induct) (simp_all add: sum.atLeast_Suc_lessThan)

lemma carry_has_room:
  assumes "slide_val r < 2 ^ 255" and "- (2 ^ i) < (\<Sum>j<i. r ! j * 2 ^ j)" and "1 \<le> r ! i"
    and "\<forall>j. i < j \<and> j < 256 \<longrightarrow> bit_digit (r ! j)" and "i < k" and "k < 256"
  shows "\<exists>z. k \<le> z \<and> z < 256 \<and> r ! z = 0"
proof (rule ccontr)
  assume "\<not> ?thesis"
  then have one: "r ! j = 1" if "k \<le> j" "j < 256" for j using assms(4,5) that by (meson le_trans less_le_trans)
  have split: "{..<256} = ({..<i} \<union> {i}) \<union> ({i<..<k} \<union> {k..<256})" using assms(5,6) by auto
  have "slide_val r = (\<Sum>j<i. r ! j * 2 ^ j) + r ! i * 2 ^ i
      + ((\<Sum>j\<in>{i<..<k}. r ! j * 2 ^ j) + (\<Sum>j = k..<256. r ! j * 2 ^ j))"
    unfolding slide_val_def split using assms(5)
    by (subst sum.union_disjoint; (subst sum.union_disjoint)?; (subst sum.union_disjoint)?) auto
  moreover have "0 \<le> (\<Sum>j\<in>{i<..<k}. r ! j * 2 ^ j)"
  proof (rule sum_nonneg)
    fix j assume "j \<in> {i<..<k}"
    then have "bit_digit (r ! j)" using assms(4,6) by simp
    then show "0 \<le> r ! j * 2 ^ j" by auto
  qed
  moreover have "(\<Sum>j = k..<256. r ! j * 2 ^ j) = 2 ^ 256 - 2 ^ k"
    using ones_sum [of k] assms(6) by (simp add: one)
  moreover have "1 * 2 ^ i \<le> r ! i * 2 ^ i" using assms(3) by (intro mult_right_mono) simp_all
  moreover have "(2 :: int) ^ k \<le> 2 ^ 255" using assms(6) by (intro power_increasing) simp_all
  moreover have "(2 :: int) ^ 256 = 2 * 2 ^ 255" by simp
  ultimately show False using assms(1,2) by linarith
qed

lemma subtract_digit_pos:
  assumes "1 \<le> b" and "b \<le> 6" and "odd x" and "x \<le> 15" and "15 < x + 2 ^ b" and "- 15 \<le> x - 2 ^ b"
  shows "1 \<le> (x :: int)"
proof -
  have "b = 1 \<or> b = 2 \<or> b = 3 \<or> b = 4 \<or> b = 5 \<or> b = 6" using assms(1,2) by linarith
  moreover have "x \<noteq> 0" using assms(3) by auto
  ultimately show ?thesis using assms(4-6) by (elim disjE) simp_all
qed

lemma break_only_late:
  fixes x :: int
  assumes "1 \<le> b" and "b \<le> 6" and "odd x" and "15 < x + 2 ^ b" and "x - 2 ^ b < - 15"
  shows "5 \<le> b"
proof (rule ccontr)
  assume "\<not> ?thesis"
  then have "b = 1 \<or> b = 2 \<or> b = 3 \<or> b = 4" using assms(1) by linarith
  moreover have "x \<noteq> 0" using assms(3) by auto
  ultimately show False using assms(4,5) by (elim disjE) simp_all
qed

text \<open>What holds of the list during the inner loop for position \<open>i\<close>, and at its end.\<close>

definition window_inv :: "nat \<Rightarrow> nat \<Rightarrow> int list \<Rightarrow> bool" where
  "window_inv i b r \<longleftrightarrow> length r = 256 \<and> (\<forall>j. i < j \<and> j < 256 \<longrightarrow> bit_digit (r ! j))
     \<and> odd (r ! i) \<and> - 15 \<le> r ! i \<and> r ! i \<le> 15
     \<and> (\<forall>c. 1 \<le> c \<and> c < b \<and> c \<le> 4 \<and> i + c < 256 \<longrightarrow> r ! (i + c) = 0)"

lemma window_add:
  assumes "window_inv i b r" and "1 \<le> b" and "i + b < 256" and "r ! (i + b) = 1" and "r ! i + 2 ^ b \<le> 15"
  defines "r' \<equiv> r[i := r ! i + 2 ^ b, i + b := 0]"
  shows "window_inv i (b + 1) r'" and "slide_val r' = slide_val r" and "\<forall>j<i. r' ! j = r ! j"
proof -
  have len: "length r = 256" using assms(1) by (simp add: window_inv_def)
  have "even ((2 :: int) ^ b)" using assms(2) by simp
  then have "odd (r ! i + 2 ^ b)" using assms(1) by (simp add: window_inv_def)
  moreover have "0 < (2 :: int) ^ b" by simp
  then have "- 15 \<le> r ! i + 2 ^ b" using assms(1) unfolding window_inv_def by linarith
  ultimately show "window_inv i (b + 1) r'"
    using assms len unfolding window_inv_def r'_def
    by (auto simp: nth_list_update less_Suc_eq)
  show "slide_val r' = slide_val r"
    unfolding r'_def using assms(2-4) len by (simp add: slide_val_update power_add)
  show "\<forall>j<i. r' ! j = r ! j" unfolding r'_def by simp
qed

lemma window_subtract:
  assumes "window_inv i b r" and "1 \<le> b" and "i + b < 256" and "r ! (i + b) = 1" and "- 15 \<le> r ! i - 2 ^ b"
    and room: "\<exists>z. i + b \<le> z \<and> z < 256 \<and> r ! z = 0"
  defines "r' \<equiv> slide_carry (i + b) (r[i := r ! i - 2 ^ b])"
  shows "window_inv i (b + 1) r'" and "slide_val r' = slide_val r" and "\<forall>j<i. r' ! j = r ! j"
proof -
  have len: "length r = 256" using assms(1) by (simp add: window_inv_def)
  let ?s = "r[i := r ! i - 2 ^ b]"
  have "even ((2 :: int) ^ b)" using assms(2) by simp
  then have odd: "odd (r ! i - 2 ^ b)" using assms(1) by (simp add: window_inv_def)
  have bits: "\<forall>j. i + b \<le> j \<and> j < 256 \<longrightarrow> bit_digit (?s ! j)"
    using assms(1,2) unfolding window_inv_def by auto
  moreover have "\<exists>z. i + b \<le> z \<and> z < 256 \<and> ?s ! z = 0"
    using room assms(2) by (metis add_le_same_cancel1 nth_list_update_neq not_one_le_zero le_trans)
  ultimately have c: "length r' = 256 \<and> slide_val r' = slide_val ?s + 2 ^ (i + b)
      \<and> (\<forall>j<i + b. r' ! j = ?s ! j) \<and> (\<forall>j. i + b \<le> j \<and> j < 256 \<longrightarrow> bit_digit (r' ! j))
      \<and> (?s ! (i + b) = 1 \<longrightarrow> r' ! (i + b) = 0)"
    unfolding r'_def using len by (intro slide_carry_spec) simp_all
  have i: "r' ! i = r ! i - 2 ^ b" using c assms(2,3) len by simp
  have z: "r' ! (i + b) = 0" using c assms(2-4) by simp
  have low: "r' ! j = r ! j" if "j < i + b" "j \<noteq> i" for j using c that by simp
  have up: "bit_digit (r' ! j)" if "i < j" "j < 256" for j
  proof (cases "j < i + b")
    case True
    then show ?thesis using low [of j] that assms(1) by (simp add: window_inv_def)
  next
    case False
    then show ?thesis using c that by simp
  qed
  have "r' ! (i + e) = 0" if "1 \<le> e" "e < b + 1" "e \<le> 4" "i + e < 256" for e
    using that z low [of "i + e"] assms(1) by (cases "e = b") (simp_all add: window_inv_def)
  moreover have "r ! i - 2 ^ b \<le> 15" using assms(1) by (simp add: window_inv_def) (smt (verit) zero_less_power)
  ultimately show "window_inv i (b + 1) r'"
    unfolding window_inv_def using c up odd assms(5) by (simp add: i)
  show "slide_val r' = slide_val r"
    using c len assms(3) by (simp add: slide_val_update power_add)
  show "\<forall>j<i. r' ! j = r ! j" using low by simp
qed

lemma slide_window_spec:
  assumes "window_inv i b r" and "1 \<le> b" and "i < 256" and "slide_val r < 2 ^ 255"
    and "- (2 ^ i) < (\<Sum>j<i. r ! j * 2 ^ j)"
  shows "window_inv i 7 (slide_window i b r) \<and> slide_val (slide_window i b r) = slide_val r
    \<and> (\<forall>j<i. slide_window i b r ! j = r ! j)"
  using assms
proof (induction i b r rule: slide_window.induct)
  case (1 i b r)
  let ?r = "slide_window i b r"
  have bnd: "- 15 \<le> r ! i" "r ! i \<le> 15" "odd (r ! i)" "length r = 256"
    using "1.prems"(1) by (simp_all add: window_inv_def)
  have bit: "r ! (i + b) = 0 \<or> r ! (i + b) = 1" if "i + b < 256"
    using "1.prems"(1,2) that by (simp add: window_inv_def)
  have keep: "(\<Sum>j<i. s ! j * 2 ^ j) = (\<Sum>j<i. r ! j * 2 ^ j)" if "\<forall>j<i. s ! j = r ! j" for s
    using that by (intro sum.cong) auto
  consider (stop) "\<not> (b \<le> 6 \<and> i + b < 256)" | (zero) "b \<le> 6" "i + b < 256" "r ! (i + b) = 0"
    | (add) "b \<le> 6" "i + b < 256" "r ! (i + b) = 1" "r ! i + 2 ^ b \<le> 15"
    | (sub) "b \<le> 6" "i + b < 256" "r ! (i + b) = 1" "15 < r ! i + 2 ^ b" "- 15 \<le> r ! i - 2 ^ b"
    | (brk) "b \<le> 6" "i + b < 256" "r ! (i + b) = 1" "15 < r ! i + 2 ^ b" "r ! i - 2 ^ b < - 15"
    using bit by linarith
  then show ?case
  proof cases
    case stop
    have "?r = r" by (subst slide_window.simps) (simp only: stop if_False)
    with stop "1.prems" show ?thesis by (auto simp: window_inv_def)
  next
    case zero
    then have eq: "?r = slide_window i (b + 1) r" by (subst slide_window.simps) simp
    have "window_inv i (b + 1) r" using "1.prems"(1) zero(3) by (auto simp: window_inv_def less_Suc_eq)
    with "1.IH"(3) zero "1.prems" show ?thesis unfolding eq by simp
  next
    case add
    let ?s = "r[i := r ! i + 2 ^ b, i + b := 0]"
    have p: "0 < (2 :: int) ^ b" by simp
    have sc: "schar (r ! i + 2 ^ b) = r ! i + 2 ^ b" using add(4) bnd p by (intro schar_id) linarith+
    note w = window_add [OF "1.prems"(1,2) add(2-4)]
    have eq: "?r = slide_window i (b + 1) ?s" using add sc by (subst slide_window.simps) simp
    show ?thesis
      using "1.IH"(1) add "1.prems" w keep [OF w(3)] unfolding eq by (simp add: sc)
  next
    case sub
    have one: "1 \<le> r ! i" using sub bnd "1.prems"(2) by (intro subtract_digit_pos [of b])
    have p: "0 < (2 :: int) ^ b" by simp
    have sc: "schar (r ! i - 2 ^ b) = r ! i - 2 ^ b" using sub(5) bnd p by (intro schar_id) linarith+
    have "\<exists>z. i + b \<le> z \<and> z < 256 \<and> r ! z = 0"
      using carry_has_room [OF "1.prems"(4,5) one, of "i + b"] "1.prems"(1,2) sub(2) by (simp add: window_inv_def)
    note w = window_subtract [OF "1.prems"(1,2) sub(2,3,5) this]
    have eq: "?r = slide_window i (b + 1) (slide_carry (i + b) (r[i := r ! i - 2 ^ b]))"
      using sub sc by (subst slide_window.simps) simp
    show ?thesis
      using "1.IH"(2) sub "1.prems" w keep [OF w(3)] unfolding eq by (simp add: sc)
  next
    case brk
    then have eq: "?r = r" by (subst slide_window.simps) simp
    have "5 \<le> b" using brk bnd "1.prems"(2) by (intro break_only_late [of b "r ! i"])
    then show ?thesis unfolding eq using "1.prems"(1) by (auto simp: window_inv_def)
  qed
qed

subsection \<open>The recoding of a scalar\<close>

lemma slide_step_spec:
  assumes "length r = 256" and "\<forall>j<i. digit_ok r j" and "\<forall>j. i \<le> j \<and> j < 256 \<longrightarrow> bit_digit (r ! j)"
    and "slide_val r < 2 ^ 255" and "i < 256"
  shows "length (slide_step i r) = 256 \<and> slide_val (slide_step i r) = slide_val r
    \<and> (\<forall>j<Suc i. digit_ok (slide_step i r) j)
    \<and> (\<forall>j. Suc i \<le> j \<and> j < 256 \<longrightarrow> bit_digit (slide_step i r ! j))"
proof (cases "r ! i = 0")
  case True
  then show ?thesis using assms by (auto simp: slide_step_def less_Suc_eq digit_ok_def)
next
  case False
  let ?s = "slide_window i 1 r"
  have "window_inv i 1 r"
    using assms False unfolding window_inv_def by force
  from slide_window_spec [OF this _ assms(5,4) low_part [OF assms(2) False assms(5)]]
  have w: "window_inv i 7 ?s" "slide_val ?s = slide_val r" "\<forall>j<i. ?s ! j = r ! j" by simp_all
  have "digit_ok ?s j" if "j < i" for j
  proof (cases "r ! j = 0")
    case True
    then show ?thesis using w(3) that by (simp add: digit_ok_def)
  next
    case False': False
    then have ok: "odd (r ! j)" "- 15 \<le> r ! j" "r ! j \<le> 15"
      "\<forall>c. 1 \<le> c \<and> c \<le> 4 \<and> j + c < 256 \<longrightarrow> r ! (j + c) = 0"
      using assms(2) that by (auto simp: digit_ok_def)
    have "j + 4 < i"
    proof (rule ccontr)
      assume "\<not> ?thesis"
      then have "1 \<le> i - j" "i - j \<le> 4" "j + (i - j) = i" using that by arith+
      with ok(4) assms(5) False show False by metis
    qed
    then show ?thesis using ok w(3) that by (auto simp: digit_ok_def)
  qed
  moreover have "digit_ok ?s i" using w(1) by (auto simp: digit_ok_def window_inv_def)
  ultimately show ?thesis
    using w False by (auto simp: slide_step_def less_Suc_eq window_inv_def)
qed

lemma slide_fold:
  assumes "length r = 256" and "\<forall>j<256. bit_digit (r ! j)" and "slide_val r < 2 ^ 255" and "n \<le> 256"
  defines "s \<equiv> fold slide_step [0..<n] r"
  shows "length s = 256 \<and> slide_val s = slide_val r \<and> (\<forall>j<n. digit_ok s j)
    \<and> (\<forall>j. n \<le> j \<and> j < 256 \<longrightarrow> bit_digit (s ! j))"
  using assms(4) unfolding s_def
proof (induction n)
  case 0
  then show ?case using assms(1,2) by simp
next
  case (Suc n)
  let ?s = "fold slide_step [0..<n] r"
  have "slide_val ?s < 2 ^ 255" "n < 256" using Suc assms(3) by simp_all
  with slide_step_spec [of ?s n] Suc show ?case by simp
qed

lemma slide_val_digits: "length r = 256 \<Longrightarrow> slide_val r = digits_val 2 r"
proof -
  have "(\<Sum>j<length r. r ! j * 2 ^ j) = digits_val 2 r" for r :: "int list"
  proof (induction r)
    case (Cons e r)
    then show ?case
      by (simp add: sum.lessThan_Suc_shift sum_distrib_left mult.left_commute del: sum.lessThan_Suc flip: Cons)
  qed simp
  from this [of r] show "length r = 256 \<Longrightarrow> slide_val r = digits_val 2 r" by (simp add: slide_val_def)
qed

lemma flatten_bytes:
  "map (\<lambda>i. g (i mod 8) (a ! (i div 8))) [0..<8 * length a] = concat (map (\<lambda>b. map (\<lambda>k. g k b) [0..<8]) a)"
proof (induction a)
  case (Cons b a)
  have "[0..<8 * length (b # a)] = [0..<8] @ map (\<lambda>i. i + 8) [0..<8 * length a]"
    using upt_add_eq_append [of 0 8 "8 * length a"] by (simp add: map_add_upt add.commute)
  then have "map (\<lambda>i. g (i mod 8) ((b # a) ! (i div 8))) [0..<8 * length (b # a)]
      = map (\<lambda>i. g (i mod 8) ((b # a) ! (i div 8))) [0..<8] @ map (\<lambda>i. g (i mod 8) (a ! (i div 8))) [0..<8 * length a]"
    using div_add_self2 [of "8 :: nat"] by simp
  also have "map (\<lambda>i. g (i mod 8) ((b # a) ! (i div 8))) [0..<8] = map (\<lambda>k. g k b) [0..<8]"
    by (rule map_cong) auto
  finally show ?case using Cons by simp
qed simp

lemma digits_val_append: "digits_val r (xs @ ys) = digits_val r xs + r ^ length xs * digits_val r ys"
  by (induction xs) (simp_all add: algebra_simps)

lemma byte_bits: "digits_val 2 (map (\<lambda>k. uint (1 AND drop_bit k b)) [0..<8]) = uint (b :: byte)"
proof -
  have "list_all (\<lambda>x. digits_val 2 (map (\<lambda>k. uint (1 AND drop_bit k (word_of_int x :: byte))) [0..<8]) = x) [0..255]"
    by code_simp
  then have "digits_val 2 (map (\<lambda>k. uint (1 AND drop_bit k (word_of_int (uint b) :: byte))) [0..<8]) = uint b"
    using byte_range [of b] unfolding list_all_iff set_upto by (elim ballE [of _ _ "uint b"]) auto
  then show ?thesis by simp
qed

lemma slide_bits_spec:
  assumes "length a = 32"
  shows "length (slide_bits a) = 256" "\<forall>j<256. bit_digit (slide_bits a ! j)" "slide_val (slide_bits a) = le_val a"
proof -
  show len: "length (slide_bits a) = 256" by (simp add: slide_bits_def)
  have "bit_digit (uint (1 AND x))" for x :: byte by (simp add: and.commute [of 1] and_one_eq uint_mod_distrib) auto
  then show "\<forall>j<256. bit_digit (slide_bits a ! j)" unfolding slide_bits_def by simp
  have "slide_bits a = concat (map (\<lambda>b. map (\<lambda>k. uint (1 AND drop_bit k b)) [0..<8]) a)"
    using flatten_bytes [of "\<lambda>k b. uint (1 AND drop_bit k b)" a] assms by (simp add: slide_bits_def)
  moreover have "digits_val 2 (concat (map (\<lambda>b. map (\<lambda>k. uint (1 AND drop_bit k b)) [0..<8]) s)) = le_val s" for s
    by (induction s) (simp_all add: digits_val_append byte_bits del: upt_Suc upt_rec_numeral)
  ultimately show "slide_val (slide_bits a) = le_val a" using slide_val_digits [OF len] by simp
qed

theorem slide_spec:
  assumes "length a = 32" and "a ! 31 \<le> 127"
  shows "length (slide a) = 256" and "slide_val (slide a) = le_val a" and "\<forall>j<256. digit_ok (slide a) j"
proof -
  have "uint (a ! 31) \<le> 127" using assms(2) by (simp add: word_le_def)
  then have "le_val a div 2 ^ 248 < 128" using top_byte [OF assms(1)] by simp
  then have "le_val a < 2 ^ 255" using mult_div_mod_eq [of "2 ^ 248" "le_val a"] pos_mod_bound [of "2 ^ 248" "le_val a"] by simp
  with slide_fold [of "slide_bits a" 256] slide_bits_spec [OF assms(1)]
  show "length (slide a) = 256" "slide_val (slide a) = le_val a" "\<forall>j<256. digit_ok (slide a) j"
    by (simp_all add: slide_def)
qed

subsection \<open>The loops run without overflow\<close>

lemma base_loop_ok:
  assumes "\<forall>i \<in> set is. i < 64 \<and> - 8 \<le> e ! i \<and> e ! i \<le> 8" and "p3_ok h"
  shows "runs (base_loop e is h) p3_ok"
  using assms
proof (induction "is" arbitrary: h)
  case Nil
  then show ?case by simp
next
  case (Cons i "is")
  have s: "runs (select (i div 2) (e ! i)) precomp_ok"
    using Cons.prems by (intro runs_mono [OF select_spec conjunct1]) auto
  show ?case
    unfolding base_loop.simps
    by (intro runs_bind [OF s] runs_bind [OF ge_ok_rules(3)] runs_bind [OF ge_ok_rules(8)] Cons.IH Cons.prems(2))
      (use Cons.prems in auto)
qed

theorem ge_scalarmult_base_ok:
  assumes "length a = 32" and "a ! 31 \<le> 127"
  shows "runs (ge_scalarmult_base a) p3_ok"
proof -
  let ?e = "radix16_carry 0 (radix16 a)"
  have e: "- 8 \<le> ?e ! i \<and> ?e ! i \<le> 8" if "i < 64" for i
    using radix16_recoding(2,3) [OF assms] that by (simp add: list_all_length)
  have p0: "p3_ok ge_p3_0" using ge_p3_0_rep by (simp add: p3_rep_def)
  show ?thesis
    unfolding ge_scalarmult_base_def Let_def
    by (intro runs_bind [OF base_loop_ok] runs_bind [OF ge_p3_dbl_ok] runs_bind [OF ge_ok_rules(7)]
        runs_bind [OF ge_ok_rules(5)] runs_bind [OF ge_ok_rules(8)] base_loop_ok p0) (auto simp: e)
qed

lemma odd_multiples_ok:
  "p3_ok A2 \<Longrightarrow> cached_ok c \<Longrightarrow> runs (odd_multiples n A2 c) (\<lambda>cs. length cs = Suc n \<and> list_all cached_ok cs)"
proof (induction n arbitrary: c)
  case (Suc n)
  show ?case
    unfolding odd_multiples.simps
    by (intro runs_bind [OF ge_ok_rules(1)] runs_bind [OF ge_ok_rules(8)] runs_bind [OF ge_ok_rules(6)]
        runs_bind [OF Suc.IH] Suc.prems) (use Suc.prems in auto)
qed simp

lemma cached_table_ok: "p3_ok A \<Longrightarrow> runs (cached_table A) (\<lambda>cs. length cs = 8 \<and> list_all cached_ok cs)"
  unfolding cached_table_def
  by (intro runs_bind [OF ge_ok_rules(6)] runs_bind [OF ge_p3_dbl_ok] runs_bind [OF ge_ok_rules(8)]
      runs_mono [OF odd_multiples_ok]) auto

lemma window_index: "- 15 \<le> s \<Longrightarrow> s \<le> 15 \<Longrightarrow> nat (s div 2) < 8 \<and> nat (- s div 2) < 8"
  by linarith

lemma add_digit_ok:
  assumes "length Ai = 8" and "list_all cached_ok Ai" and "- 15 \<le> s" and "s \<le> 15" and "p1p1_ok t"
  shows "runs (add_digit Ai s t) p1p1_ok"
proof -
  have c: "cached_ok (Ai ! nat (s div 2))" "cached_ok (Ai ! nat (- s div 2))"
    using assms window_index [OF assms(3,4)] by (simp_all add: list_all_length)
  have "runs (do { u \<leftarrow> ge_p1p1_to_p3 t; ge_add u (Ai ! nat (s div 2)) }) p1p1_ok"
    "runs (do { u \<leftarrow> ge_p1p1_to_p3 t; ge_sub u (Ai ! nat (- s div 2)) }) p1p1_ok"
    by (rule runs_bind [OF ge_ok_rules(8) [OF assms(5)]], rule ge_ok_rules(1,2), assumption, rule c)+
  then show ?thesis using assms(5) by (simp add: add_digit_def)
qed

lemma add_base_digit_ok:
  assumes "- 15 \<le> s" and "s \<le> 15" and "p1p1_ok t"
  shows "runs (add_base_digit s t) p1p1_ok"
proof -
  have c: "precomp_ok (Bi ! nat (s div 2))" "precomp_ok (Bi ! nat (- s div 2))"
    using Bi_ok window_index [OF assms(1,2)] by (simp_all add: list_all_length)
  have "runs (do { u \<leftarrow> ge_p1p1_to_p3 t; ge_madd u (Bi ! nat (s div 2)) }) p1p1_ok"
    "runs (do { u \<leftarrow> ge_p1p1_to_p3 t; ge_msub u (Bi ! nat (- s div 2)) }) p1p1_ok"
    by (rule runs_bind [OF ge_ok_rules(8) [OF assms(3)]], rule ge_ok_rules(3,4), assumption, rule c)+
  then show ?thesis using assms(3) by (simp add: add_base_digit_def)
qed

lemma vartime_loop_ok:
  assumes "length Ai = 8" and "list_all cached_ok Ai" and "\<forall>i \<in> set is. - 15 \<le> s ! i \<and> s ! i \<le> 15" and "p3_ok r"
  shows "runs (vartime_loop s Ai is r) p3_ok"
  using assms(3,4)
proof (induction "is" arbitrary: r)
  case (Cons i "is")
  show ?case
    unfolding vartime_loop.simps
    by (intro runs_bind [OF ge_p3_dbl_ok] runs_bind [OF add_digit_ok] runs_bind [OF ge_ok_rules(8)]
        Cons.IH assms(1,2)) (use Cons.prems in auto)
qed simp

lemma double_loop_ok:
  assumes "length Ai = 8" and "list_all cached_ok Ai"
    and "\<forall>i \<in> set is. - 15 \<le> s ! i \<and> s ! i \<le> 15 \<and> - 15 \<le> u ! i \<and> u ! i \<le> 15" and "p2_ok r"
  shows "runs (double_loop s u Ai is r) p2_ok"
  using assms(3,4)
proof (induction "is" arbitrary: r)
  case (Cons i "is")
  show ?case
    unfolding double_loop.simps
    by (intro runs_bind [OF ge_ok_rules(5)] runs_bind [OF add_digit_ok] runs_bind [OF add_base_digit_ok]
        runs_bind [OF ge_ok_rules(7)] Cons.IH assms(1,2)) (use Cons.prems in auto)
qed simp

lemma slide_range:
  assumes "length a = 32" and "a ! 31 \<le> 127" and "i < 256"
  shows "- 15 \<le> slide a ! i \<and> slide a ! i \<le> 15"
  using slide_spec(3) [OF assms(1,2)] assms(3) by (auto simp: digit_ok_def)

lemma loop_indices_range: "i \<in> set (loop_indices nz) \<Longrightarrow> i < 256"
  unfolding loop_indices_def by (drule set_dropWhileD) simp

theorem ge_scalarmult_vartime_ok:
  assumes "length a = 32" and "a ! 31 \<le> 127" and "p3_ok A"
  shows "runs (ge_scalarmult_vartime a A) p3_ok"
proof -
  have p0: "p3_ok ge_p3_0" using ge_p3_0_rep by (simp add: p3_rep_def)
  show ?thesis
    unfolding ge_scalarmult_vartime_def Let_def
    by (rule runs_bind [OF cached_table_ok [OF assms(3)]], rule vartime_loop_ok)
      (auto simp: p0 dest: slide_range [OF assms(1,2) loop_indices_range])
qed

theorem ge_double_scalarmult_vartime_ok:
  assumes "length a = 32" and "a ! 31 \<le> 127" and "length b = 32" and "b ! 31 \<le> 127" and "p3_ok A"
  shows "runs (ge_double_scalarmult_vartime a A b) p2_ok"
proof -
  have p0: "p2_ok ge_p2_0" using ge_p2_0_rep by (simp add: p2_rep_def)
  show ?thesis
    unfolding ge_double_scalarmult_vartime_def Let_def
    by (rule runs_bind [OF cached_table_ok [OF assms(5)]], rule double_loop_ok)
      (auto simp: p0 dest: slide_range [OF assms(1,2) loop_indices_range] slide_range [OF assms(3,4) loop_indices_range])
qed

end
