(* ===== verification/Sc25519.thy ===== *)
theory Sc25519
  imports FeBytes
begin

unbundle bit_operations_syntax

text \<open>
  Scalars modulo the group order \<open>l = 2^252 + 27742317777372353535851937790883648493\<close>
  (\<^verbatim>\<open>src/yacl/ot/simplest_ot_portable/sc_*.c\<close>), in limbs of 21 bits: reduction of a 512-bit
  number.  As for the field, the statement groups of the source are \<open>limb_op\<close> sequences run with every 64-bit operation checked.  The
  theorems show that reduction returns the least residue, for every input.
\<close>

definition sc_L :: int where
  "sc_L = 2 ^ 252 + 27742317777372353535851937790883648493"

definition sc_weights :: "int list" where
  "sc_weights = map (\<lambda>i. 2 ^ (21 * i)) [0..<24]"

text \<open>\<^verbatim>\<open>carry_i = (s_i + (1 << 20)) >> 21; s_(i+1) += carry_i; s_i -= carry_i << 21;\<close>\<close>

abbreviation carry21 :: "nat \<Rightarrow> limb_op" where
  "carry21 i \<equiv> Carry (2 ^ 20) i 21 1 (Suc i)"

text \<open>\<^verbatim>\<open>carry_i = s_i >> 21; s_(i+1) += carry_i; s_i -= carry_i << 21;\<close>\<close>

abbreviation carry21_floor :: "nat \<Rightarrow> limb_op" where
  "carry21_floor i \<equiv> Carry 0 i 21 1 (Suc i)"

text \<open>
  \<^verbatim>\<open>s_(i-12) += s_i * 666643; s_(i-11) += s_i * 470296; s_(i-10) += s_i * 654183;\<close>
  \<^verbatim>\<open>s_(i-9) -= s_i * 997805; s_(i-8) += s_i * 136657; s_(i-7) -= s_i * 683901; s_i = 0;\<close>
\<close>

abbreviation sc_fold :: "nat \<Rightarrow> limb_op" where
  "sc_fold i \<equiv> Fold i [(i - 12, 666643), (i - 11, 470296), (i - 10, 654183),
                       (i - 9, - 997805), (i - 8, 136657), (i - 7, - 683901)]"

subsection \<open>Reduction\<close>

definition sc_reduce_load :: "byte list \<Rightarrow> int list" where
  "sc_reduce_load s =
     [sint (2097151 AND load_3 s),
      sint (2097151 AND drop_bit 5 (load_4 (drop 2 s))),
      sint (2097151 AND drop_bit 2 (load_3 (drop 5 s))),
      sint (2097151 AND drop_bit 7 (load_4 (drop 7 s))),
      sint (2097151 AND drop_bit 4 (load_4 (drop 10 s))),
      sint (2097151 AND drop_bit 1 (load_3 (drop 13 s))),
      sint (2097151 AND drop_bit 6 (load_4 (drop 15 s))),
      sint (2097151 AND drop_bit 3 (load_3 (drop 18 s))),
      sint (2097151 AND load_3 (drop 21 s)),
      sint (2097151 AND drop_bit 5 (load_4 (drop 23 s))),
      sint (2097151 AND drop_bit 2 (load_3 (drop 26 s))),
      sint (2097151 AND drop_bit 7 (load_4 (drop 28 s))),
      sint (2097151 AND drop_bit 4 (load_4 (drop 31 s))),
      sint (2097151 AND drop_bit 1 (load_3 (drop 34 s))),
      sint (2097151 AND drop_bit 6 (load_4 (drop 36 s))),
      sint (2097151 AND drop_bit 3 (load_3 (drop 39 s))),
      sint (2097151 AND load_3 (drop 42 s)),
      sint (2097151 AND drop_bit 5 (load_4 (drop 44 s))),
      sint (2097151 AND drop_bit 2 (load_3 (drop 47 s))),
      sint (2097151 AND drop_bit 7 (load_4 (drop 49 s))),
      sint (2097151 AND drop_bit 4 (load_4 (drop 52 s))),
      sint (2097151 AND drop_bit 1 (load_3 (drop 55 s))),
      sint (2097151 AND drop_bit 6 (load_4 (drop 57 s))),
      sint (drop_bit 3 (load_4 (drop 60 s)))]"

definition sc_reduce_ops1 :: "limb_op list" where
  "sc_reduce_ops1 =
     [sc_fold 23, sc_fold 22, sc_fold 21, sc_fold 20, sc_fold 19, sc_fold 18,
      carry21 6, carry21 8, carry21 10, carry21 12, carry21 14, carry21 16,
      carry21 7, carry21 9, carry21 11, carry21 13, carry21 15,
      sc_fold 17, sc_fold 16, sc_fold 15, sc_fold 14, sc_fold 13, sc_fold 12]"

definition sc_reduce_ops2 :: "limb_op list" where
  "sc_reduce_ops2 =
     [carry21 0, carry21 2, carry21 4, carry21 6, carry21 8, carry21 10,
      carry21 1, carry21 3, carry21 5, carry21 7, carry21 9, carry21 11,
      sc_fold 12]"

definition sc_reduce_ops3 :: "limb_op list" where
  "sc_reduce_ops3 =
     [carry21_floor 0, carry21_floor 1, carry21_floor 2, carry21_floor 3, carry21_floor 4, carry21_floor 5,
      carry21_floor 6, carry21_floor 7, carry21_floor 8, carry21_floor 9, carry21_floor 10, carry21_floor 11,
      sc_fold 12,
      carry21_floor 0, carry21_floor 1, carry21_floor 2, carry21_floor 3, carry21_floor 4, carry21_floor 5,
      carry21_floor 6, carry21_floor 7, carry21_floor 8, carry21_floor 9, carry21_floor 10]"

definition sc_pack :: "int list \<Rightarrow> byte list" where
  "sc_pack s =
     (let s0 = s ! 0; s1 = s ! 1; s2 = s ! 2; s3 = s ! 3; s4 = s ! 4; s5 = s ! 5;
          s6 = s ! 6; s7 = s ! 7; s8 = s ! 8; s9 = s ! 9; s10 = s ! 10; s11 = s ! 11
      in map byte_of
       [shr s0 0, shr s0 8, shr s0 16 OR shl_wrap 64 s1 5,
        shr s1 3, shr s1 11, shr s1 19 OR shl_wrap 64 s2 2,
        shr s2 6, shr s2 14 OR shl_wrap 64 s3 7,
        shr s3 1, shr s3 9, shr s3 17 OR shl_wrap 64 s4 4,
        shr s4 4, shr s4 12, shr s4 20 OR shl_wrap 64 s5 1,
        shr s5 7, shr s5 15 OR shl_wrap 64 s6 6,
        shr s6 2, shr s6 10, shr s6 18 OR shl_wrap 64 s7 3,
        shr s7 5, shr s7 13,
        shr s8 0, shr s8 8, shr s8 16 OR shl_wrap 64 s9 5,
        shr s9 3, shr s9 11, shr s9 19 OR shl_wrap 64 s10 2,
        shr s10 6, shr s10 14 OR shl_wrap 64 s11 7,
        shr s11 1, shr s11 9, shr s11 17])"

text \<open>The 64 bytes are overwritten in place: the first 32 with the result.\<close>

definition sc_reduce :: "byte list \<Rightarrow> byte list option" where
  "sc_reduce s = do {
     x \<leftarrow> limb_run 64 sc_reduce_ops1 (sc_reduce_load s);
     x \<leftarrow> limb_run 64 sc_reduce_ops2 x;
     x \<leftarrow> limb_run 64 sc_reduce_ops3 x;
     Some (sc_pack x @ drop 32 s) }"

subsection \<open>Loading\<close>

lemma four_bytes:
  assumes "j + 4 \<le> length s"
  obtains a b c d r where "drop j s = a # b # c # d # r"
proof -
  have "length (drop j s) = Suc (Suc (Suc (Suc (length s - j - 4))))" using assms by simp
  then show thesis using that by (auto simp: length_Suc_conv simp del: length_drop)
qed

lemma three_bytes:
  assumes "j + 3 \<le> length s"
  obtains a b c r where "drop j s = a # b # c # r"
proof -
  have "length (drop j s) = Suc (Suc (Suc (length s - j - 3)))" using assms by simp
  then show thesis using that by (auto simp: length_Suc_conv simp del: length_drop)
qed

lemma load_4_at:
  assumes "j + 4 \<le> length s"
  shows "uint (load_4 (drop j s)) = le_val s div 2 ^ (8 * j) mod 2 ^ 32"
proof -
  obtain a b c d r where d: "drop j s = a # b # c # d # r" by (rule four_bytes [OF assms])
  have "le_val s div 2 ^ (8 * j) = le_val (drop j s)"
    using le_val_drop [of j s] assms by (simp add: power_mult)
  also have "\<dots> = uint (load_4 (drop j s)) + 2 ^ 32 * le_val r"
    by (simp add: d load_4_val)
  finally show ?thesis using load_4_range [of a b c d r] by (simp add: d)
qed

lemma load_3_at:
  assumes "j + 3 \<le> length s"
  shows "uint (load_3 (drop j s)) = le_val s div 2 ^ (8 * j) mod 2 ^ 24"
proof -
  obtain a b c r where d: "drop j s = a # b # c # r" by (rule three_bytes [OF assms])
  have "le_val s div 2 ^ (8 * j) = le_val (drop j s)"
    using le_val_drop [of j s] assms by (simp add: power_mult)
  also have "\<dots> = uint (load_3 (drop j s)) + 2 ^ 24 * le_val r"
    by (simp add: d load_3_val)
  finally show ?thesis using load_3_range [of a b c r] by (simp add: d)
qed

definition digit21 :: "int \<Rightarrow> nat \<Rightarrow> int" where
  "digit21 v i = v div 2 ^ (21 * i) mod 2 ^ 21"

lemma digit21_range: "0 \<le> digit21 v i" "digit21 v i < 2097152"
  by (simp_all add: digit21_def)

lemma div_mod_window:
  assumes "k + 21 \<le> n"
  shows "(v div 2 ^ m mod 2 ^ n) div 2 ^ k mod 2 ^ 21 = v div (2 :: int) ^ (m + k) mod 2 ^ 21"
proof -
  have "(v div 2 ^ m mod 2 ^ n) div 2 ^ k mod 2 ^ 21
    = take_bit 21 (drop_bit k (take_bit n (drop_bit m v)))"
    by (simp only: take_bit_eq_mod drop_bit_eq_div)
  also have "\<dots> = take_bit 21 (drop_bit (m + k) v)"
    using assms by (simp add: drop_bit_take_bit add.commute)
  finally show ?thesis by (simp only: take_bit_eq_mod drop_bit_eq_div)
qed

lemma sint_window:
  fixes x :: "64 word"
  assumes "uint x = v div 2 ^ m mod 2 ^ n" and "k + 21 \<le> n" and "m + k = 21 * i"
  shows "sint (2097151 AND drop_bit k x) = digit21 v i"
proof -
  have "uint (2097151 AND drop_bit k x) = take_bit 21 (uint (drop_bit k x))"
    by (simp add: uint_and take_bit_eq_mask mask_eq_exp_minus_1 and.commute)
  also have "\<dots> = uint x div 2 ^ k mod 2 ^ 21"
    by (simp only: uint_drop_bit take_bit_eq_mod)
  also have "\<dots> = digit21 v i"
    unfolding assms(1) digit21_def assms(3) [symmetric] by (rule div_mod_window [OF assms(2)])
  finally show ?thesis using digit21_range [of v i] by (simp add: sint_eq_uint64)
qed

lemma digit_4: "j + 4 \<le> length s \<Longrightarrow> k \<le> 11 \<Longrightarrow> 8 * j + k = 21 * i \<Longrightarrow>
    sint (2097151 AND drop_bit k (load_4 (drop j s))) = digit21 (le_val s) i"
  by (rule sint_window [OF load_4_at]) simp_all

lemma digit_3: "j + 3 \<le> length s \<Longrightarrow> k \<le> 3 \<Longrightarrow> 8 * j + k = 21 * i \<Longrightarrow>
    sint (2097151 AND drop_bit k (load_3 (drop j s))) = digit21 (le_val s) i"
  by (rule sint_window [OF load_3_at]) simp_all

lemma digit_top:
  assumes "length s = j + 4" and "8 * j + k = 21 * i"
  shows "sint (drop_bit k (load_4 (drop j s))) = le_val s div 2 ^ (21 * i)"
proof -
  have "le_val s < 2 ^ 32 * 2 ^ (8 * j)"
    using le_val_bound [of s] assms(1) by (simp add: power_add power_mult)
  then have "le_val s div 2 ^ (8 * j) < 2 ^ 32"
    by (rule div_less_of_less_mult) simp
  moreover have "0 \<le> le_val s div 2 ^ (8 * j)" by (simp add: pos_imp_zdiv_nonneg_iff)
  ultimately have u: "uint (load_4 (drop j s)) = le_val s div 2 ^ (8 * j)"
    using load_4_at [of j s] assms(1) by simp
  then have "uint (drop_bit k (load_4 (drop j s))) = le_val s div 2 ^ (21 * i)"
    unfolding assms(2) [symmetric]
    by (simp add: uint_drop_bit power_add zdiv_zmult2_eq)
  moreover have "uint (drop_bit k (load_4 (drop j s))) \<le> uint (load_4 (drop j s))"
    using zdiv_mono2 [of "uint (load_4 (drop j s))" 1 "2 ^ k"] by (simp add: uint_drop_bit)
  ultimately show ?thesis
    using u \<open>le_val s div 2 ^ (8 * j) < 2 ^ 32\<close> by (simp add: sint_eq_uint64)
qed

lemma upt23: "[0..<23] = [0, 1, 2, 3, 4, 5, 6, 7, 8, 9, 10, 11, 12, 13, 14, 15, 16, 17, 18, 19, 20, 21, 22]"
  by code_simp
lemma sc_reduce_load_digits:
  assumes "length s = 64"
  shows "sc_reduce_load s = map (digit21 (le_val s)) [0..<23] @ [le_val s div 2 ^ 483]"
proof -
  note d0 = digit_3 [of 0 s 0 0, simplified] digit_3 [of 21 s 0 8, simplified] digit_3 [of 42 s 0 16, simplified]
  show ?thesis
    using assms d0 digit_top [of s 60 3 23]
    by (simp add: sc_reduce_load_def upt23 digit_4 digit_3)
qed

lemma lval_append:
  "length W = length x \<Longrightarrow> lval (W @ V) (x @ y) = lval W x + lval V y"
  by (simp add: lval_def)

lemma digits_value:
  "lval (map (\<lambda>i. 2 ^ (21 * i)) [0..<n]) (map (digit21 v) [0..<n]) + 2 ^ (21 * n) * (v div 2 ^ (21 * n)) = v"
proof (induction n)
  case 0
  then show ?case by simp
next
  case (Suc n)
  have pw: "2 ^ (21 * Suc n) = (2 :: int) ^ (21 * n) * 2 ^ 21" by (simp add: power_add)
  then have "v div 2 ^ (21 * Suc n) = v div 2 ^ (21 * n) div 2 ^ 21"
    by (subst zdiv_zmult2_eq [symmetric]) simp_all
  moreover define q where "q = v div 2 ^ (21 * n)"
  moreover have "q = digit21 v n + 2 ^ 21 * (q div 2 ^ 21)" by (simp add: digit21_def q_def)
  then have "2 ^ (21 * n) * q = 2 ^ (21 * n) * digit21 v n + 2 ^ (21 * n) * 2 ^ 21 * (q div 2 ^ 21)"
    by (metis distrib_left mult.assoc)
  ultimately show ?case
    using Suc pw by (simp add: lval_append del: power_Suc mult_Suc_right)
qed

lemma digits_value_top:
  "lval (map (\<lambda>i. 2 ^ (21 * i)) [0..<Suc n]) (map (digit21 v) [0..<n] @ [v div 2 ^ (21 * n)]) = v"
  using digits_value [of n v] by (simp add: lval_append)

subsection \<open>The reduction chain\<close>

text \<open>
  Bounds of the 24 limbs before the chain, after the rounding carries, after the first floor
  pass, after the last fold, and at the end.
\<close>

definition sc_in :: "ivl list" where
  "sc_in = replicate 23 (- (2 ^ 21), 2 ^ 34) @ [(- (2 ^ 34), 2 ^ 34)]"

definition sc_mid :: "ivl list" where
  "sc_mid = replicate 11 (- (2 ^ 35), 2 ^ 35) @ (- 1048576, 1048575) # replicate 12 (0, 0)"

definition sc_floor :: "ivl list" where
  "sc_floor = replicate 12 (0, 2097151) @ (- 1, 0) # replicate 11 (0, 0)"

definition sc_last :: "ivl list" where
  "sc_last = replicate 6 (- 997805, 3094956) @ replicate 6 (0, 2097151) @ replicate 12 (0, 0)"

definition sc_out :: "ivl list" where
  "sc_out = replicate 11 (0, 2097151) @ (- 1, 2097152) # replicate 12 (0, 0)"

lemma sc_weights_length [simp]: "length sc_weights = 24"
  by (simp add: sc_weights_def)

interpretation sc_rounding: limb_program 64 sc_L sc_weights "sc_reduce_ops1 @ sc_reduce_ops2" sc_in sc_mid
proof
  show "list_all (op_ok sc_L sc_weights) (sc_reduce_ops1 @ sc_reduce_ops2)" by code_simp
  show "ivl_covers 64 (sc_reduce_ops1 @ sc_reduce_ops2) sc_in sc_mid" by code_simp
  show "length sc_in = length sc_weights" by (simp add: sc_in_def)
qed

interpretation sc_floor_pass: limb_program 64 0 sc_weights "take 12 sc_reduce_ops3" sc_mid sc_floor
proof
  show "list_all (op_ok 0 sc_weights) (take 12 sc_reduce_ops3)" by code_simp
  show "ivl_covers 64 (take 12 sc_reduce_ops3) sc_mid sc_floor" by code_simp
  show "length sc_mid = length sc_weights" by (simp add: sc_mid_def)
qed

interpretation sc_last_fold: limb_program 64 sc_L sc_weights "[sc_fold 12]" sc_floor sc_last
proof
  show "list_all (op_ok sc_L sc_weights) [sc_fold 12]" by code_simp
  show "ivl_covers 64 [sc_fold 12] sc_floor sc_last" by code_simp
  show "length sc_floor = length sc_weights" by (simp add: sc_floor_def nth_append)
qed

interpretation sc_last_pass: limb_program 64 0 sc_weights "drop 13 sc_reduce_ops3" sc_last sc_out
proof
  show "list_all (op_ok 0 sc_weights) (drop 13 sc_reduce_ops3)" by code_simp
  show "ivl_covers 64 (drop 13 sc_reduce_ops3) sc_last sc_out" by code_simp
  show "length sc_last = length sc_weights" by (simp add: sc_last_def)
qed

lemma sc_reduce_ops3_split:
  "sc_reduce_ops3 = take 12 sc_reduce_ops3 @ [sc_fold 12] @ drop 13 sc_reduce_ops3"
  by (simp add: sc_reduce_ops3_def)

lemma sc_between:
  assumes "in_bounds b x" and "length b = 24"
  shows "lval sc_weights (map fst b) \<le> lval sc_weights x" "lval sc_weights x \<le> lval sc_weights (map snd b)"
  using lval_between [OF assms(1), of sc_weights] assms(2) by (auto simp: sc_weights_def list_all_iff)

lemma sc_fold_12_value:
  assumes "limb_run 64 [sc_fold 12] x = Some y" and "length x = 24"
  shows "lval sc_weights y = lval sc_weights x - x ! 12 * sc_L"
proof -
  let ?js = "[(12 - 12, 666643), (12 - 11, 470296), (12 - 10, 654183),
    (12 - 9, - 997805), (12 - 8, 136657), (12 - 7, - 683901)] :: (nat \<times> int) list"
  obtain z where z: "fold_limb 64 12 ?js x = Some z" "y = z[12 := 0]"
    using assms(1) by (auto simp: bind_Some_iff simp del: fold_limb.simps)
  have v: "length z = length x \<and> z ! 12 = x ! 12
    \<and> lval sc_weights z = lval sc_weights x + x ! 12 * (\<Sum>(j, a) \<leftarrow> ?js. a * sc_weights ! j)"
    by (rule fold_limb_value [OF z(1)]) (simp_all add: assms(2))
  have s: "(\<Sum>(j, a) \<leftarrow> ?js. a * sc_weights ! j) = 2 ^ 252 - sc_L" by code_simp
  have "sc_weights ! 12 = 2 ^ 252" by code_simp
  then have "lval sc_weights y = lval sc_weights z - 2 ^ 252 * z ! 12"
    using v assms(2) unfolding z(2) by (subst lval_update) simp_all
  with v show ?thesis unfolding s by (simp add: algebra_simps)
qed

lemma sc_floor_value:
  assumes "in_bounds sc_floor x"
  obtains c lo where "x ! 12 = c" "c = 0 \<or> c = - 1" "lval sc_weights x = lo + 2 ^ 252 * c"
    "0 \<le> lo" "lo < 2 ^ 252"
proof -
  have len: "length x = 24" using assms by (auto simp: sc_floor_def dest: list_all2_lengthD)
  have c: "in_ivl (- 1, 0) (x ! 12)"
    using in_bounds_nth [OF assms, of 12] by (simp add: sc_floor_def nth_append)
  let ?lo = "x[12 := 0]"
  have "in_bounds (sc_floor[12 := (0, 0)]) ?lo"
    by (rule in_bounds_update [OF assms]) (simp add: in_ivl_def)
  from sc_between [OF this]
  have b: "lval sc_weights (map fst (sc_floor[12 := (0, 0)])) \<le> lval sc_weights ?lo"
    "lval sc_weights ?lo \<le> lval sc_weights (map snd (sc_floor[12 := (0, 0)]))"
    by (simp_all add: sc_floor_def)
  have "lval sc_weights (map fst (sc_floor[12 := (0, 0)])) = 0"
    "lval sc_weights (map snd (sc_floor[12 := (0, 0)])) = 2 ^ 252 - 1" by code_simp+
  with b have "0 \<le> lval sc_weights ?lo" "lval sc_weights ?lo < 2 ^ 252" by simp_all
  moreover have "sc_weights ! 12 = 2 ^ 252" by code_simp
  then have "lval sc_weights x = lval sc_weights ?lo + 2 ^ 252 * x ! 12"
    using len by (simp add: lval_update)
  moreover have "x ! 12 = 0 \<or> x ! 12 = - 1" using c by (auto simp: in_ivl_def)
  ultimately show thesis using that by blast
qed

lemma sc_chain:
  assumes "in_bounds sc_in x"
  obtains y z r where "limb_run 64 sc_reduce_ops1 x = Some y" "limb_run 64 sc_reduce_ops2 y = Some z"
    "limb_run 64 sc_reduce_ops3 z = Some r" "in_bounds sc_out r"
    "lval sc_weights r = lval sc_weights x mod sc_L"
proof -
  obtain z where z: "limb_run 64 (sc_reduce_ops1 @ sc_reduce_ops2) x = Some z" "in_bounds sc_mid z"
    "lval sc_weights z mod sc_L = lval sc_weights x mod sc_L"
    using sc_rounding.run_correct [OF assms] by blast
  obtain f where f: "limb_run 64 (take 12 sc_reduce_ops3) z = Some f" "in_bounds sc_floor f"
    "lval sc_weights f = lval sc_weights z"
    using sc_floor_pass.run_correct [OF z(2)] by auto
  obtain g where g: "limb_run 64 [sc_fold 12] f = Some g" "in_bounds sc_last g"
    using sc_last_fold.run_correct [OF f(2)] by blast
  obtain r where r: "limb_run 64 (drop 13 sc_reduce_ops3) g = Some r" "in_bounds sc_out r"
    "lval sc_weights r = lval sc_weights g"
    using sc_last_pass.run_correct [OF g(2)] by auto
  obtain c lo where c: "f ! 12 = c" "c = 0 \<or> c = - 1" "lval sc_weights f = lo + 2 ^ 252 * c"
    "0 \<le> lo" "lo < 2 ^ 252"
    by (rule sc_floor_value [OF f(2)])
  have gv: "lval sc_weights g = lval sc_weights f - c * sc_L"
    using sc_fold_12_value [OF g(1)] c(1) f(2) by (auto simp: sc_floor_def dest: list_all2_lengthD)
  have "lval sc_weights (map fst sc_mid) > - sc_L" by code_simp
  then have "- sc_L < lval sc_weights f"
    using sc_between(1) [OF z(2)] f(3) by (simp add: sc_mid_def)
  then have "0 \<le> lval sc_weights g" "lval sc_weights g < sc_L"
    using c gv by (auto simp: sc_L_def)
  moreover have "lval sc_weights g mod sc_L = lval sc_weights x mod sc_L"
    using z(3) f(3) gv by (simp add: mod_diff_right_eq [symmetric])
  ultimately have "lval sc_weights r = lval sc_weights x mod sc_L"
    using r(3) by simp
  moreover have "limb_run 64 sc_reduce_ops3 z = Some r"
    using f g r by (subst sc_reduce_ops3_split) (simp only: limb_run_append Option.bind.simps)
  moreover obtain y where "limb_run 64 sc_reduce_ops1 x = Some y" "limb_run 64 sc_reduce_ops2 y = Some z"
    using z(1) by (auto simp: limb_run_append bind_Some_iff)
  ultimately show thesis using that r(2) by blast
qed

subsection \<open>Packing\<close>

lemma limb_pieces2:
  "x = x mod 2 ^ m + 2 ^ m * ((x div 2 ^ m) mod 256) + 2 ^ (m + 8) * (x div 2 ^ (m + 8))" for x :: int
proof -
  have "x = x mod 2 ^ m + 2 ^ m * (x div 2 ^ m)" by simp
  also have "\<dots> = x mod 2 ^ m + 2 ^ m * ((x div 2 ^ m) mod 256 + 256 * (x div 2 ^ (m + 8)))"
    by (subst byte_pieces) (rule refl)
  finally show ?thesis by (simp add: power_add algebra_simps)
qed

lemma lval_sc_limbs:
  "lval sc_weights [s0, s1, s2, s3, s4, s5, s6, s7, s8, s9, s10, s11, 0, 0, 0, 0, 0, 0, 0, 0, 0, 0, 0, 0]
   = s0 + 2 ^ 21 * s1 + 2 ^ 42 * s2 + 2 ^ 63 * s3 + 2 ^ 84 * s4 + 2 ^ 105 * s5 + 2 ^ 126 * s6
     + 2 ^ 147 * s7 + 2 ^ 168 * s8 + 2 ^ 189 * s9 + 2 ^ 210 * s10 + 2 ^ 231 * s11"
  by (simp add: sc_weights_def upt_rec)

lemma sc_pack_val:
  assumes "in_bounds sc_out s" and "0 \<le> lval sc_weights s"
  shows "length (sc_pack s) = 32 \<and> le_val (sc_pack s) = lval sc_weights s"
proof -
  from assms(1) obtain s0 s1 s2 s3 s4 s5 s6 s7 s8 s9 s10 s11 where
     s: "s = [s0, s1, s2, s3, s4, s5, s6, s7, s8, s9, s10, s11, 0, 0, 0, 0, 0, 0, 0, 0, 0, 0, 0, 0]"
     and b: "0 \<le> s0" "s0 < 2 ^ 21" "0 \<le> s1" "s1 < 2 ^ 21" "0 \<le> s2" "s2 < 2 ^ 21" "0 \<le> s3" "s3 < 2 ^ 21"
     "0 \<le> s4" "s4 < 2 ^ 21" "0 \<le> s5" "s5 < 2 ^ 21" "0 \<le> s6" "s6 < 2 ^ 21" "0 \<le> s7" "s7 < 2 ^ 21"
     "0 \<le> s8" "s8 < 2 ^ 21" "0 \<le> s9" "s9 < 2 ^ 21" "0 \<le> s10" "s10 < 2 ^ 21" "s11 < 2 ^ 22"
    by (auto simp: sc_out_def list_all2_Cons1 in_ivl_def numeral_eq_Suc)
  have v: "lval sc_weights s = s0 + 2 ^ 21 * s1 + 2 ^ 42 * s2 + 2 ^ 63 * s3 + 2 ^ 84 * s4 + 2 ^ 105 * s5 + 2 ^ 126 * s6
     + 2 ^ 147 * s7 + 2 ^ 168 * s8 + 2 ^ 189 * s9 + 2 ^ 210 * s10 + 2 ^ 231 * s11"
    unfolding s by (rule lval_sc_limbs)
  then have "0 \<le> s11" using assms(2) b by simp
  with b have tops: "0 \<le> shr s0 16 \<and> shr s0 16 < 2 ^ 5" "0 \<le> shr s1 19 \<and> shr s1 19 < 2 ^ 2"
    "0 \<le> shr s2 14 \<and> shr s2 14 < 2 ^ 7" "0 \<le> shr s3 17 \<and> shr s3 17 < 2 ^ 4"
    "0 \<le> shr s4 20 \<and> shr s4 20 < 2 ^ 1" "0 \<le> shr s5 15 \<and> shr s5 15 < 2 ^ 6"
    "0 \<le> shr s6 18 \<and> shr s6 18 < 2 ^ 3" "0 \<le> shr s7 13 \<and> shr s7 13 < 2 ^ 8"
    "0 \<le> shr s8 16 \<and> shr s8 16 < 2 ^ 5" "0 \<le> shr s9 19 \<and> shr s9 19 < 2 ^ 2"
    "0 \<le> shr s10 14 \<and> shr s10 14 < 2 ^ 7" "0 \<le> shr s11 17 \<and> shr s11 17 < 2 ^ 5"
    by - (rule shr_top; simp)+
  define ex2 where "ex2 m x = x mod 2 ^ m + 2 ^ m * ((x div 2 ^ m) mod 256) + 2 ^ (m + 8) * (x div 2 ^ (m + 8))"
    for m and x :: int
  define ex3 where "ex3 m x = x mod 2 ^ m + 2 ^ m * ((x div 2 ^ m) mod 256)
    + 2 ^ (m + 8) * ((x div 2 ^ (m + 8)) mod 256) + 2 ^ (m + 16) * (x div 2 ^ (m + 16))"
    for m and x :: int
  have ex: "ex2 m x = x" "ex3 m x = x" for m x
    unfolding ex2_def ex3_def by (rule limb_pieces2 [symmetric], rule limb_pieces [symmetric])
  have "le_val (sc_pack s) =
    ex2 8 s0 + 2 ^ 21 * ex3 3 s1 + 2 ^ 42 * ex2 6 s2 + 2 ^ 63 * ex3 1 s3 + 2 ^ 84 * ex3 4 s4 + 2 ^ 105 * ex2 7 s5
     + 2 ^ 126 * ex3 2 s6 + 2 ^ 147 * ex2 5 s7 + 2 ^ 168 * ex2 8 s8 + 2 ^ 189 * ex3 3 s9 + 2 ^ 210 * ex2 6 s10
     + 2 ^ 231 * ex3 1 s11"
    unfolding s sc_pack_def ex2_def ex3_def using tops
    by (simp add: uint_byte_of or_shl_mod) (simp add: shr_def algebra_simps)
  moreover have "length (sc_pack s) = 32" by (simp add: sc_pack_def Let_def)
  ultimately show ?thesis by (simp add: v ex)
qed

subsection \<open>Specifications\<close>

lemma digit21_ivl: "in_ivl (- 2097152, 17179869184) (digit21 v i)"
  using digit21_range [of v i] by (simp add: in_ivl_def)

theorem sc_reduce_spec:
  assumes "length s = 64"
  shows "\<exists>r. sc_reduce s = Some (r @ drop 32 s) \<and> length r = 32 \<and> le_val r = le_val s mod sc_L"
proof -
  have "le_val s div 2 ^ 483 < 2 ^ 29"
    using le_val_bound [of s] assms by (intro div_less_of_less_mult) simp_all
  moreover have "0 \<le> le_val s div 2 ^ 483" by (simp add: pos_imp_zdiv_nonneg_iff)
  ultimately have b: "in_bounds sc_in (sc_reduce_load s)"
    by (auto simp: sc_reduce_load_digits [OF assms] sc_in_def list_all2_conv_all_nth nth_append
        digit21_ivl) (simp add: in_ivl_def)
  have v: "lval sc_weights (sc_reduce_load s) = le_val s"
    using digits_value_top [of 23 "le_val s"]
    by (simp add: sc_reduce_load_digits [OF assms] sc_weights_def)
  obtain y z r where r: "limb_run 64 sc_reduce_ops1 (sc_reduce_load s) = Some y"
    "limb_run 64 sc_reduce_ops2 y = Some z" "limb_run 64 sc_reduce_ops3 z = Some r"
    "in_bounds sc_out r" "lval sc_weights r = lval sc_weights (sc_reduce_load s) mod sc_L"
    by (rule sc_chain [OF b])
  have "sc_reduce s = Some (sc_pack r @ drop 32 s)"
    by (simp only: sc_reduce_def r(1-3) Option.bind.simps)
  moreover have "0 \<le> lval sc_weights r" by (simp add: r(5) sc_L_def)
  ultimately show ?thesis using sc_pack_val [OF r(4)] by (simp add: r(5) v)
qed

end
