(* ===== verification/ScMulAdd.thy ===== *)
theory ScMulAdd
  imports Sc25519
begin

unbundle bit_operations_syntax

text \<open>
  \<^verbatim>\<open>sc_muladd.c\<close>, \<open>a * b + c\<close> modulo the group order, and \<^verbatim>\<open>sc_random.c\<close>, the clamping of random
  scalars.  The product of the 21-bit digits is written out as in the source, every 64-bit
  operation checked; the carry chain that follows is the one of the reduction.
\<close>

subsection \<open>Multiply and add\<close>

definition sc_muladd_load :: "byte list \<Rightarrow> int list" where
  "sc_muladd_load s =
     [sint (2097151 AND load_3 s),
      sint (2097151 AND drop_bit 5 (load_4 (drop 2 s))),
      sint (2097151 AND drop_bit 2 (load_3 (drop 5 s))),
      sint (2097151 AND drop_bit 7 (load_4 (drop 7 s))),
      sint (2097151 AND drop_bit 4 (load_4 (drop 10 s))),
      sint (2097151 AND drop_bit 1 (load_3 (drop 13 s))),
      sint (2097151 AND drop_bit 6 (load_4 (drop 15 s))),
      sint (2097151 AND drop_bit 3 (load_3 (drop 18 s))),
      sint (2097151 AND load_3 (drop 21 s)),
      sint (2097151 AND drop_bit 5 (load_4 (drop 23 s))),
      sint (2097151 AND drop_bit 2 (load_3 (drop 26 s))),
      sint (drop_bit 7 (load_4 (drop 28 s)))]"

definition sc_muladd_sums :: "int list \<Rightarrow> int list \<Rightarrow> int list \<Rightarrow> int list option" where
  "sc_muladd_sums a b c =
     (let a0 = a ! 0; a1 = a ! 1; a2 = a ! 2; a3 = a ! 3; a4 = a ! 4; a5 = a ! 5;
          a6 = a ! 6; a7 = a ! 7; a8 = a ! 8; a9 = a ! 9; a10 = a ! 10; a11 = a ! 11;
          b0 = b ! 0; b1 = b ! 1; b2 = b ! 2; b3 = b ! 3; b4 = b ! 4; b5 = b ! 5;
          b6 = b ! 6; b7 = b ! 7; b8 = b ! 8; b9 = b ! 9; b10 = b ! 10; b11 = b ! 11;
          c0 = c ! 0; c1 = c ! 1; c2 = c ! 2; c3 = c ! 3; c4 = c ! 4; c5 = c ! 5;
          c6 = c ! 6; c7 = c ! 7; c8 = c ! 8; c9 = c ! 9; c10 = c ! 10; c11 = c ! 11
      in do {
        s0 \<leftarrow> dot 64 c0 [(a0, b0)];
        s1 \<leftarrow> dot 64 c1 [(a0, b1), (a1, b0)];
        s2 \<leftarrow> dot 64 c2 [(a0, b2), (a1, b1), (a2, b0)];
        s3 \<leftarrow> dot 64 c3 [(a0, b3), (a1, b2), (a2, b1), (a3, b0)];
        s4 \<leftarrow> dot 64 c4 [(a0, b4), (a1, b3), (a2, b2), (a3, b1), (a4, b0)];
        s5 \<leftarrow> dot 64 c5 [(a0, b5), (a1, b4), (a2, b3), (a3, b2), (a4, b1), (a5, b0)];
        s6 \<leftarrow> dot 64 c6 [(a0, b6), (a1, b5), (a2, b4), (a3, b3), (a4, b2), (a5, b1), (a6, b0)];
        s7 \<leftarrow> dot 64 c7 [(a0, b7), (a1, b6), (a2, b5), (a3, b4), (a4, b3), (a5, b2), (a6, b1),
          (a7, b0)];
        s8 \<leftarrow> dot 64 c8 [(a0, b8), (a1, b7), (a2, b6), (a3, b5), (a4, b4), (a5, b3), (a6, b2),
          (a7, b1), (a8, b0)];
        s9 \<leftarrow> dot 64 c9 [(a0, b9), (a1, b8), (a2, b7), (a3, b6), (a4, b5), (a5, b4), (a6, b3),
          (a7, b2), (a8, b1), (a9, b0)];
        s10 \<leftarrow> dot 64 c10 [(a0, b10), (a1, b9), (a2, b8), (a3, b7), (a4, b6), (a5, b5), (a6, b4),
          (a7, b3), (a8, b2), (a9, b1), (a10, b0)];
        s11 \<leftarrow> dot 64 c11 [(a0, b11), (a1, b10), (a2, b9), (a3, b8), (a4, b7), (a5, b6), (a6, b5),
          (a7, b4), (a8, b3), (a9, b2), (a10, b1), (a11, b0)];
        s12 \<leftarrow> dot 64 0 [(a1, b11), (a2, b10), (a3, b9), (a4, b8), (a5, b7), (a6, b6), (a7, b5),
          (a8, b4), (a9, b3), (a10, b2), (a11, b1)];
        s13 \<leftarrow> dot 64 0 [(a2, b11), (a3, b10), (a4, b9), (a5, b8), (a6, b7), (a7, b6), (a8, b5),
          (a9, b4), (a10, b3), (a11, b2)];
        s14 \<leftarrow> dot 64 0 [(a3, b11), (a4, b10), (a5, b9), (a6, b8), (a7, b7), (a8, b6), (a9, b5),
          (a10, b4), (a11, b3)];
        s15 \<leftarrow> dot 64 0 [(a4, b11), (a5, b10), (a6, b9), (a7, b8), (a8, b7), (a9, b6), (a10, b5),
          (a11, b4)];
        s16 \<leftarrow> dot 64 0 [(a5, b11), (a6, b10), (a7, b9), (a8, b8), (a9, b7), (a10, b6), (a11, b5)];
        s17 \<leftarrow> dot 64 0 [(a6, b11), (a7, b10), (a8, b9), (a9, b8), (a10, b7), (a11, b6)];
        s18 \<leftarrow> dot 64 0 [(a7, b11), (a8, b10), (a9, b9), (a10, b8), (a11, b7)];
        s19 \<leftarrow> dot 64 0 [(a8, b11), (a9, b10), (a10, b9), (a11, b8)];
        s20 \<leftarrow> dot 64 0 [(a9, b11), (a10, b10), (a11, b9)];
        s21 \<leftarrow> dot 64 0 [(a10, b11), (a11, b10)];
        s22 \<leftarrow> dot 64 0 [(a11, b11)];
        let s23 = 0;
        Some [s0, s1, s2, s3, s4, s5, s6, s7, s8, s9, s10, s11, s12, s13, s14, s15, s16, s17,
              s18, s19, s20, s21, s22, s23] })"

definition sc_muladd_carries :: "limb_op list" where
  "sc_muladd_carries =
     [carry21 0, carry21 2, carry21 4, carry21 6, carry21 8, carry21 10,
      carry21 12, carry21 14, carry21 16, carry21 18, carry21 20, carry21 22,
      carry21 1, carry21 3, carry21 5, carry21 7, carry21 9, carry21 11,
      carry21 13, carry21 15, carry21 17, carry21 19, carry21 21]"

definition sc_muladd_ops1 :: "limb_op list" where
  "sc_muladd_ops1 =
     [sc_fold 23, sc_fold 22, sc_fold 21, sc_fold 20, sc_fold 19, sc_fold 18,
      carry21 6, carry21 8, carry21 10, carry21 12, carry21 14, carry21 16,
      carry21 7, carry21 9, carry21 11, carry21 13, carry21 15,
      sc_fold 17, sc_fold 16, sc_fold 15, sc_fold 14, sc_fold 13, sc_fold 12]"

definition sc_muladd_ops2 :: "limb_op list" where
  "sc_muladd_ops2 =
     [carry21 0, carry21 2, carry21 4, carry21 6, carry21 8, carry21 10,
      carry21 1, carry21 3, carry21 5, carry21 7, carry21 9, carry21 11,
      sc_fold 12]"

definition sc_muladd_ops3 :: "limb_op list" where
  "sc_muladd_ops3 =
     [carry21_floor 0, carry21_floor 1, carry21_floor 2, carry21_floor 3, carry21_floor 4, carry21_floor 5,
      carry21_floor 6, carry21_floor 7, carry21_floor 8, carry21_floor 9, carry21_floor 10, carry21_floor 11,
      sc_fold 12,
      carry21_floor 0, carry21_floor 1, carry21_floor 2, carry21_floor 3, carry21_floor 4, carry21_floor 5,
      carry21_floor 6, carry21_floor 7, carry21_floor 8, carry21_floor 9, carry21_floor 10]"

definition sc_muladd :: "byte list \<Rightarrow> byte list \<Rightarrow> byte list \<Rightarrow> byte list option" where
  "sc_muladd a b c = do {
     x \<leftarrow> sc_muladd_sums (sc_muladd_load a) (sc_muladd_load b) (sc_muladd_load c);
     x \<leftarrow> limb_run 64 sc_muladd_carries x;
     x \<leftarrow> limb_run 64 sc_muladd_ops1 x;
     x \<leftarrow> limb_run 64 sc_muladd_ops2 x;
     x \<leftarrow> limb_run 64 sc_muladd_ops3 x;
     Some (sc_pack x) }"

subsection \<open>Random scalars\<close>

text \<open>\<^verbatim>\<open>sc_random\<close> on the 32 bytes that \<^verbatim>\<open>simpleot_randombytes\<close> has delivered.\<close>

definition sc_random :: "byte list \<Rightarrow> int \<Rightarrow> byte list" where
  "sc_random x c =
     (if c = 0 then x[31 := x ! 31 AND 15]
      else (let x = x[0 := x ! 0 AND 248] in x[31 := x ! 31 AND 127]))"

subsection \<open>The product of the digits\<close>

lemma sc_muladd_load_digits:
  assumes "length s = 32"
  shows "sc_muladd_load s = map (digit21 (le_val s)) [0..<11] @ [le_val s div 2 ^ 231]"
proof -
  have u: "[0..<11] = [0, 1, 2, 3, 4, 5, 6, 7, 8, 9, 10]" by code_simp
  note d0 = digit_3 [of 0 s 0 0, simplified] digit_3 [of 21 s 0 8, simplified]
  show ?thesis
    using assms d0 digit_top [of s 28 7 11]
    by (simp add: sc_muladd_load_def u digit_4 digit_3)
qed

definition sc_digit :: "int \<Rightarrow> bool" where
  "sc_digit x \<longleftrightarrow> 0 \<le> x \<and> x \<le> 2 ^ 25 - 1"

lemma twelve_digits:
  assumes "length s = 32"
  obtains x0 x1 x2 x3 x4 x5 x6 x7 x8 x9 x10 x11 where
    "sc_muladd_load s = [x0, x1, x2, x3, x4, x5, x6, x7, x8, x9, x10, x11]"
    "list_all sc_digit [x0, x1, x2, x3, x4, x5, x6, x7, x8, x9, x10, x11]"
    "le_val s = x0 + 2 ^ 21 * (x1 + 2 ^ 21 * (x2 + 2 ^ 21 * (x3 + 2 ^ 21 * (x4 + 2 ^ 21 * (x5
      + 2 ^ 21 * (x6 + 2 ^ 21 * (x7 + 2 ^ 21 * (x8 + 2 ^ 21 * (x9 + 2 ^ 21 * (x10 + 2 ^ 21 * x11))))))))))"
proof -
  define x where "x i = digit21 (le_val s) i" for i
  define t where "t = le_val s div 2 ^ 231"
  have u: "[0..<11] = [0, 1, 2, 3, 4, 5, 6, 7, 8, 9, 10]" "[0..<12] = [0, 1, 2, 3, 4, 5, 6, 7, 8, 9, 10, 11]"
    by code_simp+
  have load: "sc_muladd_load s = [x 0, x 1, x 2, x 3, x 4, x 5, x 6, x 7, x 8, x 9, x 10, t]"
    by (simp add: sc_muladd_load_digits [OF assms] u x_def t_def)
  have "le_val s div 2 ^ 231 < 2 ^ 25"
    using le_val_bound [of s] assms by (intro div_less_of_less_mult) simp_all
  then have t: "0 \<le> t" "t < 2 ^ 25" by (simp_all add: t_def pos_imp_zdiv_nonneg_iff)
  have v: "le_val s = lval (map (\<lambda>i. 2 ^ (21 * i)) [0..<12]) (map (digit21 (le_val s)) [0..<11] @ [t])"
    using digits_value_top [of 11 "le_val s"] by (simp add: t_def numeral_eq_Suc del: upt_Suc)
  have "sc_digit (x i)" for i
    using digit21_range [of "le_val s" i] by (simp add: x_def sc_digit_def)
  moreover have "sc_digit t" using t by (simp add: sc_digit_def)
  ultimately have d: "list_all sc_digit [x 0, x 1, x 2, x 3, x 4, x 5, x 6, x 7, x 8, x 9, x 10, t]"
    by simp
  show thesis
    by (rule that [OF load d]) (subst v, simp add: u x_def [symmetric] algebra_simps)
qed

definition sums_in :: "ivl list" where
  "sums_in = replicate 23 (0, 2 ^ 54) @ [(0, 0)]"

interpretation sc_carry: limb_program 64 sc_L sc_weights sc_muladd_carries sums_in sc_in
proof
  show "list_all (op_ok sc_L sc_weights) sc_muladd_carries" by code_simp
  show "ivl_covers 64 sc_muladd_carries sums_in sc_in" by code_simp
  show "length sums_in = length sc_weights" by (simp add: sums_in_def)
qed

lemma dot_nonneg:
  assumes "list_all (\<lambda>(x, y). sc_digit x \<and> sc_digit y) ps"
    and "sc_digit a" and "length ps \<le> 12"
  shows "dot 64 a ps = Some (a + dot_val ps)" and "in_ivl (0, 2 ^ 54) (a + dot_val ps)"
proof -
  have "dot 64 a ps = Some (a + dot_val ps)
    \<and> \<bar>a + dot_val ps\<bar> \<le> \<bar>a\<bar> + int (length ps) * ((2 ^ 25) * (2 ^ 25))"
    by (rule dot_uniform) (use assms in \<open>auto simp: list_all_iff sc_digit_def\<close>)
  moreover have "0 \<le> dot_val ps"
    unfolding dot_val_def using assms(1) by (intro sum_list_nonneg) (auto simp: list_all_iff sc_digit_def)
  ultimately show "dot 64 a ps = Some (a + dot_val ps)" "in_ivl (0, 2 ^ 54) (a + dot_val ps)"
    using assms(2,3) by (simp_all add: in_ivl_def sc_digit_def)
qed

lemma sc_rows:
  fixes w :: int
  shows "(c0 + a0 * b0) + w * ((c1 + a0 * b1 + a1 * b0) + w * ((c2 + a0 * b2 + a1 * b1 + a2 * b0) + w *
    ((c3 + a0 * b3 + a1 * b2 + a2 * b1 + a3 * b0) + w * ((c4 + a0 * b4 + a1 * b3 + a2 * b2 + a3 * b1
    + a4 * b0) + w * ((c5 + a0 * b5 + a1 * b4 + a2 * b3 + a3 * b2 + a4 * b1 + a5 * b0) + w * ((c6 +
    a0 * b6 + a1 * b5 + a2 * b4 + a3 * b3 + a4 * b2 + a5 * b1 + a6 * b0) + w * ((c7 + a0 * b7 + a1 *
    b6 + a2 * b5 + a3 * b4 + a4 * b3 + a5 * b2 + a6 * b1 + a7 * b0) + w * ((c8 + a0 * b8 + a1 * b7 +
    a2 * b6 + a3 * b5 + a4 * b4 + a5 * b3 + a6 * b2 + a7 * b1 + a8 * b0) + w * ((c9 + a0 * b9 + a1 *
    b8 + a2 * b7 + a3 * b6 + a4 * b5 + a5 * b4 + a6 * b3 + a7 * b2 + a8 * b1 + a9 * b0) + w * ((c10
    + a0 * b10 + a1 * b9 + a2 * b8 + a3 * b7 + a4 * b6 + a5 * b5 + a6 * b4 + a7 * b3 + a8 * b2 + a9
    * b1 + a10 * b0) + w * ((c11 + a0 * b11 + a1 * b10 + a2 * b9 + a3 * b8 + a4 * b7 + a5 * b6 + a6
    * b5 + a7 * b4 + a8 * b3 + a9 * b2 + a10 * b1 + a11 * b0) + w * ((a1 * b11 + a2 * b10 + a3 * b9
    + a4 * b8 + a5 * b7 + a6 * b6 + a7 * b5 + a8 * b4 + a9 * b3 + a10 * b2 + a11 * b1) + w * ((a2 *
    b11 + a3 * b10 + a4 * b9 + a5 * b8 + a6 * b7 + a7 * b6 + a8 * b5 + a9 * b4 + a10 * b3 + a11 *
    b2) + w * ((a3 * b11 + a4 * b10 + a5 * b9 + a6 * b8 + a7 * b7 + a8 * b6 + a9 * b5 + a10 * b4 +
    a11 * b3) + w * ((a4 * b11 + a5 * b10 + a6 * b9 + a7 * b8 + a8 * b7 + a9 * b6 + a10 * b5 + a11 *
    b4) + w * ((a5 * b11 + a6 * b10 + a7 * b9 + a8 * b8 + a9 * b7 + a10 * b6 + a11 * b5) + w * ((a6
    * b11 + a7 * b10 + a8 * b9 + a9 * b8 + a10 * b7 + a11 * b6) + w * ((a7 * b11 + a8 * b10 + a9 *
    b9 + a10 * b8 + a11 * b7) + w * ((a8 * b11 + a9 * b10 + a10 * b9 + a11 * b8) + w * ((a9 * b11 +
    a10 * b10 + a11 * b9) + w * ((a10 * b11 + a11 * b10) + w * ((a11 * b11)))))))))))))))))))))))
    = (a0 + w * (a1 + w * (a2 + w * (a3 + w * (a4 + w * (a5 + w * (a6 + w * (a7 + w * (a8 + w * (a9 + w
    * (a10 + w * (a11))))))))))))
    * (b0 + w * (b1 + w * (b2 + w * (b3 + w * (b4 + w * (b5 + w * (b6 + w * (b7 + w * (b8 + w * (b9 + w
    * (b10 + w * (b11))))))))))))
    + (c0 + w * (c1 + w * (c2 + w * (c3 + w * (c4 + w * (c5 + w * (c6 + w * (c7 + w * (c8 + w * (c9 + w
    * (c10 + w * (c11))))))))))))"
  by algebra

lemma lval_sc_horner:
  "lval sc_weights [x0, x1, x2, x3, x4, x5, x6, x7, x8, x9, x10, x11, x12, x13, x14, x15, x16, x17,
      x18, x19, x20, x21, x22, 0]
   = x0 + 2 ^ 21 * (x1 + 2 ^ 21 * (x2 + 2 ^ 21 * (x3 + 2 ^ 21 * (x4 + 2 ^ 21 * (x5 + 2 ^ 21 * (x6
     + 2 ^ 21 * (x7 + 2 ^ 21 * (x8 + 2 ^ 21 * (x9 + 2 ^ 21 * (x10 + 2 ^ 21 * (x11 + 2 ^ 21 * (x12
     + 2 ^ 21 * (x13 + 2 ^ 21 * (x14 + 2 ^ 21 * (x15 + 2 ^ 21 * (x16 + 2 ^ 21 * (x17 + 2 ^ 21 * (x18
     + 2 ^ 21 * (x19 + 2 ^ 21 * (x20 + 2 ^ 21 * (x21 + 2 ^ 21 * x22)))))))))))))))))))))"
  by (simp add: sc_weights_def upt_rec)

lemma in_ivl_zero: "in_ivl (0, 0) 0"
  by (simp add: in_ivl_def)

lemma sc_muladd_sums_spec:
  assumes "length a = 32" and "length b = 32" and "length c = 32"
  shows "\<exists>x. sc_muladd_sums (sc_muladd_load a) (sc_muladd_load b) (sc_muladd_load c) = Some x
    \<and> in_bounds sums_in x \<and> lval sc_weights x = le_val a * le_val b + le_val c"
proof -
  obtain a0 a1 a2 a3 a4 a5 a6 a7 a8 a9 a10 a11 where
    a: "sc_muladd_load a = [a0, a1, a2, a3, a4, a5, a6, a7, a8, a9, a10, a11]"
    "list_all sc_digit [a0, a1, a2, a3, a4, a5, a6, a7, a8, a9, a10, a11]"
    and av: "le_val a = a0 + 2 ^ 21 * (a1 + 2 ^ 21 * (a2 + 2 ^ 21 * (a3 + 2 ^ 21 * (a4 + 2 ^ 21 * (a5
      + 2 ^ 21 * (a6 + 2 ^ 21 * (a7 + 2 ^ 21 * (a8 + 2 ^ 21 * (a9 + 2 ^ 21 * (a10 + 2 ^ 21 * a11))))))))))"
    by (rule twelve_digits [OF assms(1)])
  obtain b0 b1 b2 b3 b4 b5 b6 b7 b8 b9 b10 b11 where
    b: "sc_muladd_load b = [b0, b1, b2, b3, b4, b5, b6, b7, b8, b9, b10, b11]"
    "list_all sc_digit [b0, b1, b2, b3, b4, b5, b6, b7, b8, b9, b10, b11]"
    and bv: "le_val b = b0 + 2 ^ 21 * (b1 + 2 ^ 21 * (b2 + 2 ^ 21 * (b3 + 2 ^ 21 * (b4 + 2 ^ 21 * (b5
      + 2 ^ 21 * (b6 + 2 ^ 21 * (b7 + 2 ^ 21 * (b8 + 2 ^ 21 * (b9 + 2 ^ 21 * (b10 + 2 ^ 21 * b11))))))))))"
    by (rule twelve_digits [OF assms(2)])
  obtain c0 c1 c2 c3 c4 c5 c6 c7 c8 c9 c10 c11 where
    c: "sc_muladd_load c = [c0, c1, c2, c3, c4, c5, c6, c7, c8, c9, c10, c11]"
    "list_all sc_digit [c0, c1, c2, c3, c4, c5, c6, c7, c8, c9, c10, c11]"
    and cv: "le_val c = c0 + 2 ^ 21 * (c1 + 2 ^ 21 * (c2 + 2 ^ 21 * (c3 + 2 ^ 21 * (c4 + 2 ^ 21 * (c5
      + 2 ^ 21 * (c6 + 2 ^ 21 * (c7 + 2 ^ 21 * (c8 + 2 ^ 21 * (c9 + 2 ^ 21 * (c10 + 2 ^ 21 * c11))))))))))"
    by (rule twelve_digits [OF assms(3)])
  define x where "x =
    [c0 + dot_val [(a0, b0)],
      c1 + dot_val [(a0, b1), (a1, b0)],
      c2 + dot_val [(a0, b2), (a1, b1), (a2, b0)],
      c3 + dot_val [(a0, b3), (a1, b2), (a2, b1), (a3, b0)],
      c4 + dot_val [(a0, b4), (a1, b3), (a2, b2), (a3, b1), (a4, b0)],
      c5 + dot_val [(a0, b5), (a1, b4), (a2, b3), (a3, b2), (a4, b1), (a5, b0)],
      c6 + dot_val [(a0, b6), (a1, b5), (a2, b4), (a3, b3), (a4, b2), (a5, b1), (a6, b0)],
      c7 + dot_val [(a0, b7), (a1, b6), (a2, b5), (a3, b4), (a4, b3), (a5, b2), (a6, b1), (a7, b0)],
      c8 + dot_val [(a0, b8), (a1, b7), (a2, b6), (a3, b5), (a4, b4), (a5, b3), (a6, b2), (a7, b1), (a8, b0)],
      c9 + dot_val [(a0, b9), (a1, b8), (a2, b7), (a3, b6), (a4, b5), (a5, b4), (a6, b3), (a7, b2), (a8, b1), (a9, b0)],
      c10 + dot_val [(a0, b10), (a1, b9), (a2, b8), (a3, b7), (a4, b6), (a5, b5), (a6, b4), (a7, b3), (a8, b2), (a9, b1), (a10, b0)],
      c11 + dot_val [(a0, b11), (a1, b10), (a2, b9), (a3, b8), (a4, b7), (a5, b6), (a6, b5), (a7, b4), (a8, b3), (a9, b2), (a10, b1), (a11, b0)],
      0 + dot_val [(a1, b11), (a2, b10), (a3, b9), (a4, b8), (a5, b7), (a6, b6), (a7, b5), (a8, b4), (a9, b3), (a10, b2), (a11, b1)],
      0 + dot_val [(a2, b11), (a3, b10), (a4, b9), (a5, b8), (a6, b7), (a7, b6), (a8, b5), (a9, b4), (a10, b3), (a11, b2)],
      0 + dot_val [(a3, b11), (a4, b10), (a5, b9), (a6, b8), (a7, b7), (a8, b6), (a9, b5), (a10, b4), (a11, b3)],
      0 + dot_val [(a4, b11), (a5, b10), (a6, b9), (a7, b8), (a8, b7), (a9, b6), (a10, b5), (a11, b4)],
      0 + dot_val [(a5, b11), (a6, b10), (a7, b9), (a8, b8), (a9, b7), (a10, b6), (a11, b5)],
      0 + dot_val [(a6, b11), (a7, b10), (a8, b9), (a9, b8), (a10, b7), (a11, b6)],
      0 + dot_val [(a7, b11), (a8, b10), (a9, b9), (a10, b8), (a11, b7)],
      0 + dot_val [(a8, b11), (a9, b10), (a10, b9), (a11, b8)],
      0 + dot_val [(a9, b11), (a10, b10), (a11, b9)],
      0 + dot_val [(a10, b11), (a11, b10)],
      0 + dot_val [(a11, b11)], 0]"
  have d0: "sc_digit 0" by (simp add: sc_digit_def)
  have "sc_muladd_sums (sc_muladd_load a) (sc_muladd_load b) (sc_muladd_load c) = Some x"
    unfolding sc_muladd_sums_def a(1) b(1) c(1) x_def using a(2) b(2) c(2) d0
    by (simp add: dot_nonneg(1) del: dot_val_simps cong: bind_weak_cong)
  moreover have "in_bounds sums_in x"
    unfolding x_def sums_in_def using a(2) b(2) c(2) d0 dot_nonneg(2) dot_nonneg(2) [of _ 0]
    by (simp add: numeral_eq_Suc in_ivl_zero del: dot_val_simps)
  moreover have "lval sc_weights x = le_val a * le_val b + le_val c"
    unfolding x_def lval_sc_horner dot_val_simps av bv cv sc_rows [symmetric] by simp
  ultimately show ?thesis by blast
qed

theorem sc_muladd_spec:
  assumes "length a = 32" and "length b = 32" and "length c = 32"
  shows "\<exists>r. sc_muladd a b c = Some r \<and> length r = 32
    \<and> le_val r = (le_val a * le_val b + le_val c) mod sc_L"
proof -
  from sc_muladd_sums_spec [OF assms] obtain x where
    x: "sc_muladd_sums (sc_muladd_load a) (sc_muladd_load b) (sc_muladd_load c) = Some x"
      "in_bounds sums_in x" "lval sc_weights x = le_val a * le_val b + le_val c" by blast
  from sc_carry.run_correct [OF x(2)] obtain y where
    y: "limb_run 64 sc_muladd_carries x = Some y" "in_bounds sc_in y"
      "lval sc_weights y mod sc_L = lval sc_weights x mod sc_L" by blast
  have ops: "sc_muladd_ops1 = sc_reduce_ops1" "sc_muladd_ops2 = sc_reduce_ops2"
    "sc_muladd_ops3 = sc_reduce_ops3"
    by (simp_all only: sc_muladd_ops1_def sc_muladd_ops2_def sc_muladd_ops3_def
        sc_reduce_ops1_def sc_reduce_ops2_def sc_reduce_ops3_def)
  obtain u v r where r: "limb_run 64 sc_reduce_ops1 y = Some u" "limb_run 64 sc_reduce_ops2 u = Some v"
    "limb_run 64 sc_reduce_ops3 v = Some r" "in_bounds sc_out r"
    "lval sc_weights r = lval sc_weights y mod sc_L"
    by (rule sc_chain [OF y(2)])
  have "sc_muladd a b c = Some (sc_pack r)"
    by (simp only: sc_muladd_def ops x(1) y(1) r(1-3) Option.bind.simps)
  moreover have "0 \<le> lval sc_weights r" by (simp add: r(5) sc_L_def)
  ultimately show ?thesis using sc_pack_val [OF r(4)] by (simp add: r(5) y(3) x(3))
qed

subsection \<open>What clamping computes\<close>

lemma uint_mask: "uint (x AND 15 :: byte) = uint x mod 16" "uint (x AND 127 :: byte) = uint x mod 128"
  "uint (x AND 248 :: byte) = uint x - uint x mod 8"
proof -
  show "uint (x AND 15) = uint x mod 16"
    using take_bit_eq_mask [of 4 "uint x"] by (simp add: uint_and take_bit_eq_mod mask_eq_exp_minus_1)
  show "uint (x AND 127) = uint x mod 128"
    using take_bit_eq_mask [of 7 "uint x"] by (simp add: uint_and take_bit_eq_mod mask_eq_exp_minus_1)
  have "list_all (\<lambda>k. uint (word_of_int k AND 248 :: byte) = k - k mod 8) [0..255]" by code_simp
  then have "uint (word_of_int (uint x) AND 248 :: byte) = uint x - uint x mod 8"
    using byte_range [of x] unfolding list_all_iff set_upto by (elim ballE [of _ _ "uint x"]) auto
  then show "uint (x AND 248) = uint x - uint x mod 8" by simp
qed

lemma ends32:
  assumes "length x = 32"
  obtains h m t where "x = h # m @ [t]" "length m = 30"
proof -
  from assms obtain h r where r: "x = h # r" "length r = 31" by (cases x) auto
  then obtain m t where "r = m @ [t]" by (cases r rule: rev_cases) auto
  with r that show thesis by simp
qed

lemma sc_random_shape:
  assumes "length m = 30"
  shows "sc_random (h # m @ [t]) c =
    (if c = 0 then h # m @ [t AND 15] else (h AND 248) # m @ [t AND 127])"
  using assms by (simp add: sc_random_def Let_def nth_append list_update_append)

theorem sc_random_spec:
  assumes "length x = 32"
  shows "length (sc_random x c) = 32"
    and "le_val (sc_random x c) =
      (if c = 0 then le_val x mod 2 ^ 252 else 8 * (le_val x div 8 mod 2 ^ 252))"
proof -
  obtain h m t where x: "x = h # m @ [t]" and m: "length m = 30" by (rule ends32 [OF assms])
  show "length (sc_random x c) = 32" unfolding x sc_random_shape [OF m] by (simp add: m)
  have M: "0 \<le> le_val m" "le_val m < 2 ^ 240" using le_val_bound [of m] m by simp_all
  note h = byte_range [of h]
  define a r b s where "a = uint h div 8" and "r = uint h mod 8" and "b = uint t div 16" and "s = uint t mod 16"
  define b' s' where "b' = uint t div 128" and "s' = uint t mod 128"
  have hs: "uint h = r + 8 * a" "0 \<le> r" "r < 8" "0 \<le> a" "a < 32"
    using h by (simp_all add: a_def r_def pos_imp_zdiv_nonneg_iff div_less_of_less_mult)
  have ts: "uint t = s + 16 * b" "0 \<le> s" "s < 16" "uint t = s' + 128 * b'" "0 \<le> s'" "s' < 128"
    by (simp_all add: b_def s_def b'_def s'_def)
  have v: "le_val x = uint h + 256 * le_val m + 2 ^ 248 * uint t"
    by (simp add: x le_val_append m)
  have "le_val (h # m @ [t AND 15]) = le_val x mod 2 ^ 252"
  proof -
    have "le_val x = (uint h + 256 * le_val m + 2 ^ 248 * s) + b * 2 ^ 252"
      using v ts(1) by simp
    moreover have "uint h + 256 * le_val m + 2 ^ 248 * s < 2 ^ 252" "0 \<le> uint h + 256 * le_val m + 2 ^ 248 * s"
      using M h ts by simp_all
    ultimately have "le_val x mod 2 ^ 252 = uint h + 256 * le_val m + 2 ^ 248 * s" by simp
    then show ?thesis by (simp add: le_val_append m uint_mask s_def)
  qed
  moreover have "le_val ((h AND 248) # m @ [t AND 127]) = 8 * (le_val x div 8 mod 2 ^ 252)"
  proof -
    define z where "z = a + 32 * le_val m + 2 ^ 245 * s'"
    have "le_val x = r + 8 * (z + b' * 2 ^ 252)"
      using v hs(1) ts(4) by (simp add: z_def)
    then have "le_val x div 8 = z + b' * 2 ^ 252" using hs by simp
    moreover have "z < 2 ^ 252" "0 \<le> z"
      using M hs ts by (simp_all add: z_def)
    ultimately have "le_val x div 8 mod 2 ^ 252 = z" by simp
    then show ?thesis
      using hs(1-3) by (simp add: le_val_append m uint_mask s'_def [symmetric] z_def)
  qed
  ultimately show "le_val (sc_random x c) =
      (if c = 0 then le_val x mod 2 ^ 252 else 8 * (le_val x div 8 mod 2 ^ 252))"
    unfolding x sc_random_shape [OF m] by simp
qed

end
