(* ===== verification/Keccak.thy ===== *)
theory Keccak
  imports FeBytes
begin

unbundle bit_operations_syntax

text \<open>
  The hash of the base OT, \<^verbatim>\<open>src/yacl/ot/simplest_ot_portable/Keccak-simple.c\<close>, at the parameters of
  \<^verbatim>\<open>Keccak-simple-settings.h\<close> and \<^verbatim>\<open>crypto_hash.h\<close>: width 1600, rate 1088 bits (136 bytes), 32 bytes
  of output.  The source unrolls the permutation by two rounds and interleaves the five steps of
  a round; \<open>KeccakF_even\<close> and \<open>KeccakF_odd\<close> are its two halves, statement by statement.  They are
  proved equal to the composition of the five step maps \<open>theta\<close>, \<open>rho\<close>, \<open>pi\<close>, \<open>chi\<close>, \<open>iota\<close> of the
  Keccak definition, with the rotation offsets and the round constants given by their generating
  recurrences, and the byte-oriented main function is proved equal to a padded sponge.
\<close>

subsection \<open>The program\<close>

definition ROL :: "64 word \<Rightarrow> nat \<Rightarrow> 64 word" where
  "ROL a off = push_bit (off mod 64) a XOR drop_bit (64 - off mod 64) a"

definition KeccakF_RoundConstants :: "64 word list" where
  "KeccakF_RoundConstants =
     [0x1, 0x8082, 0x800000000000808a, 0x8000000080008000,
      0x808b, 0x80000001, 0x8000000080008081, 0x8000000000008009,
      0x8a, 0x88, 0x80008009, 0x8000000a,
      0x8000808b, 0x800000000000008b, 0x8000000000008089, 0x8000000000008003,
      0x8000000000008002, 0x8000000000000080, 0x800a, 0x800000008000000a,
      0x8000000080008081, 0x8000000000008080, 0x80000001, 0x8000000080008008]"

text \<open>The half of the loop body that computes the lanes \<^verbatim>\<open>E\<close> from the lanes \<^verbatim>\<open>A\<close>.\<close>

definition KeccakF_even :: "64 word \<Rightarrow> 64 word list \<Rightarrow> 64 word list" where
  "KeccakF_even rc s =
     (let Aba = s ! 0; Abe = s ! 1; Abi = s ! 2; Abo = s ! 3; Abu = s ! 4;
          Aga = s ! 5; Age = s ! 6; Agi = s ! 7; Ago = s ! 8; Agu = s ! 9;
          Aka = s ! 10; Ake = s ! 11; Aki = s ! 12; Ako = s ! 13; Aku = s ! 14;
          Ama = s ! 15; Ame = s ! 16; Ami = s ! 17; Amo = s ! 18; Amu = s ! 19;
          Asa = s ! 20; Ase = s ! 21; Asi = s ! 22; Aso = s ! 23; Asu = s ! 24;
          BCa = Aba XOR Aga XOR Aka XOR Ama XOR Asa; BCe = Abe XOR Age XOR Ake XOR Ame XOR Ase;
          BCi = Abi XOR Agi XOR Aki XOR Ami XOR Asi; BCo = Abo XOR Ago XOR Ako XOR Amo XOR Aso;
          BCu = Abu XOR Agu XOR Aku XOR Amu XOR Asu; Da = BCu XOR ROL BCe 1;
          De = BCa XOR ROL BCi 1; Di = BCe XOR ROL BCo 1; Do = BCi XOR ROL BCu 1;
          Du = BCo XOR ROL BCa 1; Aba = Aba XOR Da; BCa = Aba; Age = Age XOR De;
          BCe = ROL Age 44; Aki = Aki XOR Di; BCi = ROL Aki 43; Amo = Amo XOR Do;
          BCo = ROL Amo 21; Asu = Asu XOR Du; BCu = ROL Asu 14; Eba = BCa XOR (NOT BCe AND BCi);
          Eba = Eba XOR rc; Ebe = BCe XOR (NOT BCi AND BCo); Ebi = BCi XOR (NOT BCo AND BCu);
          Ebo = BCo XOR (NOT BCu AND BCa); Ebu = BCu XOR (NOT BCa AND BCe); Abo = Abo XOR Do;
          BCa = ROL Abo 28; Agu = Agu XOR Du; BCe = ROL Agu 20; Aka = Aka XOR Da;
          BCi = ROL Aka 3; Ame = Ame XOR De; BCo = ROL Ame 45; Asi = Asi XOR Di;
          BCu = ROL Asi 61; Ega = BCa XOR (NOT BCe AND BCi); Ege = BCe XOR (NOT BCi AND BCo);
          Egi = BCi XOR (NOT BCo AND BCu); Ego = BCo XOR (NOT BCu AND BCa);
          Egu = BCu XOR (NOT BCa AND BCe); Abe = Abe XOR De; BCa = ROL Abe 1; Agi = Agi XOR Di;
          BCe = ROL Agi 6; Ako = Ako XOR Do; BCi = ROL Ako 25; Amu = Amu XOR Du; BCo = ROL Amu 8;
          Asa = Asa XOR Da; BCu = ROL Asa 18; Eka = BCa XOR (NOT BCe AND BCi);
          Eke = BCe XOR (NOT BCi AND BCo); Eki = BCi XOR (NOT BCo AND BCu);
          Eko = BCo XOR (NOT BCu AND BCa); Eku = BCu XOR (NOT BCa AND BCe); Abu = Abu XOR Du;
          BCa = ROL Abu 27; Aga = Aga XOR Da; BCe = ROL Aga 36; Ake = Ake XOR De;
          BCi = ROL Ake 10; Ami = Ami XOR Di; BCo = ROL Ami 15; Aso = Aso XOR Do;
          BCu = ROL Aso 56; Ema = BCa XOR (NOT BCe AND BCi); Eme = BCe XOR (NOT BCi AND BCo);
          Emi = BCi XOR (NOT BCo AND BCu); Emo = BCo XOR (NOT BCu AND BCa);
          Emu = BCu XOR (NOT BCa AND BCe); Abi = Abi XOR Di; BCa = ROL Abi 62; Ago = Ago XOR Do;
          BCe = ROL Ago 55; Aku = Aku XOR Du; BCi = ROL Aku 39; Ama = Ama XOR Da;
          BCo = ROL Ama 41; Ase = Ase XOR De; BCu = ROL Ase 2; Esa = BCa XOR (NOT BCe AND BCi);
          Ese = BCe XOR (NOT BCi AND BCo); Esi = BCi XOR (NOT BCo AND BCu);
          Eso = BCo XOR (NOT BCu AND BCa); Esu = BCu XOR (NOT BCa AND BCe)
      in [Eba, Ebe, Ebi, Ebo, Ebu, Ega, Ege, Egi, Ego, Egu,
          Eka, Eke, Eki, Eko, Eku, Ema, Eme, Emi, Emo, Emu,
          Esa, Ese, Esi, Eso, Esu])"

text \<open>The half that computes \<^verbatim>\<open>A\<close> from \<^verbatim>\<open>E\<close>.\<close>

definition KeccakF_odd :: "64 word \<Rightarrow> 64 word list \<Rightarrow> 64 word list" where
  "KeccakF_odd rc s =
     (let Eba = s ! 0; Ebe = s ! 1; Ebi = s ! 2; Ebo = s ! 3; Ebu = s ! 4;
          Ega = s ! 5; Ege = s ! 6; Egi = s ! 7; Ego = s ! 8; Egu = s ! 9;
          Eka = s ! 10; Eke = s ! 11; Eki = s ! 12; Eko = s ! 13; Eku = s ! 14;
          Ema = s ! 15; Eme = s ! 16; Emi = s ! 17; Emo = s ! 18; Emu = s ! 19;
          Esa = s ! 20; Ese = s ! 21; Esi = s ! 22; Eso = s ! 23; Esu = s ! 24;
          BCa = Eba XOR Ega XOR Eka XOR Ema XOR Esa; BCe = Ebe XOR Ege XOR Eke XOR Eme XOR Ese;
          BCi = Ebi XOR Egi XOR Eki XOR Emi XOR Esi; BCo = Ebo XOR Ego XOR Eko XOR Emo XOR Eso;
          BCu = Ebu XOR Egu XOR Eku XOR Emu XOR Esu; Da = BCu XOR ROL BCe 1;
          De = BCa XOR ROL BCi 1; Di = BCe XOR ROL BCo 1; Do = BCi XOR ROL BCu 1;
          Du = BCo XOR ROL BCa 1; Eba = Eba XOR Da; BCa = Eba; Ege = Ege XOR De;
          BCe = ROL Ege 44; Eki = Eki XOR Di; BCi = ROL Eki 43; Emo = Emo XOR Do;
          BCo = ROL Emo 21; Esu = Esu XOR Du; BCu = ROL Esu 14; Aba = BCa XOR (NOT BCe AND BCi);
          Aba = Aba XOR rc; Abe = BCe XOR (NOT BCi AND BCo); Abi = BCi XOR (NOT BCo AND BCu);
          Abo = BCo XOR (NOT BCu AND BCa); Abu = BCu XOR (NOT BCa AND BCe); Ebo = Ebo XOR Do;
          BCa = ROL Ebo 28; Egu = Egu XOR Du; BCe = ROL Egu 20; Eka = Eka XOR Da;
          BCi = ROL Eka 3; Eme = Eme XOR De; BCo = ROL Eme 45; Esi = Esi XOR Di;
          BCu = ROL Esi 61; Aga = BCa XOR (NOT BCe AND BCi); Age = BCe XOR (NOT BCi AND BCo);
          Agi = BCi XOR (NOT BCo AND BCu); Ago = BCo XOR (NOT BCu AND BCa);
          Agu = BCu XOR (NOT BCa AND BCe); Ebe = Ebe XOR De; BCa = ROL Ebe 1; Egi = Egi XOR Di;
          BCe = ROL Egi 6; Eko = Eko XOR Do; BCi = ROL Eko 25; Emu = Emu XOR Du; BCo = ROL Emu 8;
          Esa = Esa XOR Da; BCu = ROL Esa 18; Aka = BCa XOR (NOT BCe AND BCi);
          Ake = BCe XOR (NOT BCi AND BCo); Aki = BCi XOR (NOT BCo AND BCu);
          Ako = BCo XOR (NOT BCu AND BCa); Aku = BCu XOR (NOT BCa AND BCe); Ebu = Ebu XOR Du;
          BCa = ROL Ebu 27; Ega = Ega XOR Da; BCe = ROL Ega 36; Eke = Eke XOR De;
          BCi = ROL Eke 10; Emi = Emi XOR Di; BCo = ROL Emi 15; Eso = Eso XOR Do;
          BCu = ROL Eso 56; Ama = BCa XOR (NOT BCe AND BCi); Ame = BCe XOR (NOT BCi AND BCo);
          Ami = BCi XOR (NOT BCo AND BCu); Amo = BCo XOR (NOT BCu AND BCa);
          Amu = BCu XOR (NOT BCa AND BCe); Ebi = Ebi XOR Di; BCa = ROL Ebi 62; Ego = Ego XOR Do;
          BCe = ROL Ego 55; Eku = Eku XOR Du; BCi = ROL Eku 39; Ema = Ema XOR Da;
          BCo = ROL Ema 41; Ese = Ese XOR De; BCu = ROL Ese 2; Asa = BCa XOR (NOT BCe AND BCi);
          Ase = BCe XOR (NOT BCi AND BCo); Asi = BCi XOR (NOT BCo AND BCu);
          Aso = BCo XOR (NOT BCu AND BCa); Asu = BCu XOR (NOT BCa AND BCe)
      in [Aba, Abe, Abi, Abo, Abu, Aga, Age, Agi, Ago, Agu,
          Aka, Ake, Aki, Ako, Aku, Ama, Ame, Ami, Amo, Amu,
          Asa, Ase, Asi, Aso, Asu])"

text \<open>\<^verbatim>\<open>for (round = 0; round < 24; round += 2)\<close>, on the lanes \<^verbatim>\<open>A\<close>.\<close>

function KeccakF_rounds :: "nat \<Rightarrow> 64 word list \<Rightarrow> 64 word list" where
  "KeccakF_rounds r a =
     (if r < 24 then
        KeccakF_rounds (r + 2)
          (KeccakF_odd (KeccakF_RoundConstants ! (r + 1))
            (KeccakF_even (KeccakF_RoundConstants ! r) a))
      else a)"
  by auto
termination by (relation "measure (\<lambda>(r, a). 24 - r)") auto

declare KeccakF_rounds.simps [simp del]

text \<open>\<^verbatim>\<open>while (--laneCount >= 0) state[laneCount] ^= in[laneCount];\<close>\<close>

fun KeccakF_absorb :: "64 word list \<Rightarrow> 64 word list \<Rightarrow> nat \<Rightarrow> 64 word list" where
  "KeccakF_absorb state inp 0 = state"
| "KeccakF_absorb state inp (Suc n) =
     KeccakF_absorb (state[n := state ! n XOR inp ! n]) inp n"

definition KeccakF :: "64 word list \<Rightarrow> 64 word list \<Rightarrow> nat \<Rightarrow> 64 word list" where
  "KeccakF state inp laneCount = KeccakF_rounds 0 (KeccakF_absorb state inp laneCount)"

text \<open>
  The casts between \<^verbatim>\<open>unsigned char *\<close> and \<^verbatim>\<open>tKeccakLane *\<close> on the little-endian machines the source
  assumes.
\<close>

definition lane_of_bytes :: "byte list \<Rightarrow> 64 word" where
  "lane_of_bytes bs = word_of_int (le_val bs)"

definition lanes_of_bytes :: "byte list \<Rightarrow> nat \<Rightarrow> 64 word list" where
  "lanes_of_bytes bs n = map (\<lambda>i. lane_of_bytes (take 8 (drop (8 * i) bs))) [0..<n]"

definition bytes_of_lane :: "64 word \<Rightarrow> byte list" where
  "bytes_of_lane a = map (\<lambda>i. ucast (drop_bit (8 * i) a)) [0..<8]"

definition bytes_of_lanes :: "64 word list \<Rightarrow> byte list" where
  "bytes_of_lanes s = concat (map bytes_of_lane s)"

definition cKeccakR_SizeInBytes :: nat where
  "cKeccakR_SizeInBytes = 136"

definition crypto_hash_BYTES :: nat where
  "crypto_hash_BYTES = 32"

text \<open>The absorbing loop: returns the state and what is left of the input.\<close>

function hash_blocks :: "64 word list \<Rightarrow> byte list \<Rightarrow> 64 word list \<times> byte list" where
  "hash_blocks state inp =
     (if cKeccakR_SizeInBytes \<le> length inp then
        hash_blocks (KeccakF state (lanes_of_bytes inp 17) 17) (drop cKeccakR_SizeInBytes inp)
      else (state, inp))"
  by auto
termination by (relation "measure (\<lambda>(state, inp). length inp)") (auto simp: cKeccakR_SizeInBytes_def)

declare hash_blocks.simps [simp del]

text \<open>
  The last block: \<^verbatim>\<open>temp\<close> is an uninitialised array of 136 bytes (an argument here), of which
  every byte is written.
\<close>

definition hash_last_block :: "byte list \<Rightarrow> byte list \<Rightarrow> byte list" where
  "hash_last_block temp inp =
     (let inlen = length inp;
          temp = inp @ drop inlen temp;
          temp = temp[inlen := 1];
          inlen = inlen + 1;
          temp = take inlen temp @ replicate (cKeccakR_SizeInBytes - inlen) 0
      in temp[cKeccakR_SizeInBytes - 1 := temp ! (cKeccakR_SizeInBytes - 1) OR 0x80])"

definition simplest_ot_crypto_hash :: "byte list \<Rightarrow> byte list \<Rightarrow> byte list" where
  "simplest_ot_crypto_hash temp inp =
     (let (state, inp) = hash_blocks (replicate 25 0) inp;
          temp = hash_last_block temp inp;
          state = KeccakF state (lanes_of_bytes temp 17) 17
      in take crypto_hash_BYTES (bytes_of_lanes state))"

subsection \<open>Reference definition of the permutation\<close>

text \<open>Lane \<open>(x, y)\<close> is element \<open>x + 5 * y\<close>.\<close>

definition theta_C :: "64 word list \<Rightarrow> nat \<Rightarrow> 64 word" where
  "theta_C a x = (let x = x mod 5
     in a ! x XOR a ! (x + 5) XOR a ! (x + 10) XOR a ! (x + 15) XOR a ! (x + 20))"

definition theta :: "64 word list \<Rightarrow> 64 word list" where
  "theta a = map (\<lambda>i. a ! i XOR (theta_C a (i mod 5 + 4) XOR ROL (theta_C a (i mod 5 + 1)) 1)) [0..<25]"

text \<open>The rotation of the lane reached from \<open>(1, 0)\<close> in \<open>t\<close> steps of \<open>(x, y) \<mapsto> (y, 2 x + 3 y)\<close>.\<close>

fun rho_walk :: "nat \<Rightarrow> nat \<Rightarrow> nat \<Rightarrow> nat \<Rightarrow> nat list \<Rightarrow> nat list" where
  "rho_walk 0 t x y r = r"
| "rho_walk (Suc n) t x y r =
     rho_walk n (t + 1) y ((2 * x + 3 * y) mod 5) (r[x + 5 * y := ((t + 1) * (t + 2) div 2) mod 64])"

definition rho_offsets :: "nat list" where
  "rho_offsets = rho_walk 24 0 1 0 (replicate 25 0)"

definition rho :: "64 word list \<Rightarrow> 64 word list" where
  "rho a = map (\<lambda>i. if rho_offsets ! i = 0 then a ! i else ROL (a ! i) (rho_offsets ! i)) [0..<25]"

text \<open>Lane \<open>(x, y)\<close> of the result is lane \<open>(x + 3 y, x)\<close> of the argument.\<close>

definition pi_lanes :: "64 word list \<Rightarrow> 64 word list" where
  "pi_lanes a = map (\<lambda>i. let x = i mod 5; y = i div 5 in a ! ((x + 3 * y) mod 5 + 5 * x)) [0..<25]"

definition chi :: "64 word list \<Rightarrow> 64 word list" where
  "chi a = map (\<lambda>i. let x = i mod 5; y = i div 5
     in a ! i XOR (NOT (a ! ((x + 1) mod 5 + 5 * y)) AND a ! ((x + 2) mod 5 + 5 * y))) [0..<25]"

definition iota :: "64 word \<Rightarrow> 64 word list \<Rightarrow> 64 word list" where
  "iota rc a = a[0 := a ! 0 XOR rc]"

definition keccak_round :: "64 word \<Rightarrow> 64 word list \<Rightarrow> 64 word list" where
  "keccak_round rc a = iota rc (chi (pi_lanes (rho (theta a))))"

text \<open>The round constants: output bits of the linear feedback shift register \<open>x^8 + x^6 + x^5 + x^4 + 1\<close>.\<close>

definition lfsr_step :: "bool list \<Rightarrow> bool list" where
  "lfsr_step r = (let r = False # r; b = r ! 8
     in take 8 (r[0 := r ! 0 \<noteq> b, 4 := r ! 4 \<noteq> b, 5 := r ! 5 \<noteq> b, 6 := r ! 6 \<noteq> b]))"

fun lfsr_bits :: "nat \<Rightarrow> bool list \<Rightarrow> bool list" where
  "lfsr_bits 0 r = []"
| "lfsr_bits (Suc n) r = r ! 0 # lfsr_bits n (lfsr_step r)"

definition round_constants :: "64 word list" where
  "round_constants =
     (let bits = lfsr_bits (7 * 24) (True # replicate 7 False)
      in map (\<lambda>i. foldl (\<lambda>c j. if bits ! (j + 7 * i) then c OR push_bit (2 ^ j - 1) 1 else c) 0 [0..<7])
           [0..<24])"

definition keccak_f :: "64 word list \<Rightarrow> 64 word list" where
  "keccak_f a = foldl (\<lambda>a i. keccak_round (round_constants ! i) a) a [0..<24]"

subsection \<open>The unrolled rounds compute the reference rounds\<close>

lemma list25:
  assumes "length s = 25"
  obtains s0 s1 s2 s3 s4 s5 s6 s7 s8 s9 s10 s11 s12 s13 s14 s15 s16 s17 s18 s19 s20 s21 s22 s23 s24 where
    "s = [s0, s1, s2, s3, s4, s5, s6, s7, s8, s9, s10, s11, s12, s13, s14, s15, s16, s17, s18, s19,
          s20, s21, s22, s23, s24]"
proof -
  have "\<exists>x xs. ys = x # xs \<and> length xs = n" if "length ys = Suc n" for ys :: "'a list" and n
    using that by (cases ys) auto
  then show thesis using that assms by (simp add: numeral_eq_Suc length_Suc_conv) metis
qed

lemma upt25: "[0..<25] = [0, 1, 2, 3, 4, 5, 6, 7, 8, 9, 10, 11, 12, 13, 14, 15, 16, 17, 18, 19, 20,
    21, 22, 23, 24]"
  by code_simp

lemma rho_offsets_table:
  "rho_offsets = [0, 1, 62, 28, 27, 36, 44, 6, 55, 20, 3, 10, 43, 25, 39, 41, 45, 15, 21, 8, 18, 2,
    61, 56, 14]"
  by code_simp

lemma step_lengths [simp]:
  "length (theta a) = 25" "length (rho a) = 25" "length (pi_lanes a) = 25" "length (chi a) = 25"
  "length (iota rc a) = length a" "length (keccak_round rc a) = 25"
  by (simp_all add: theta_def rho_def pi_lanes_def chi_def iota_def keccak_round_def)

text \<open>The three lane-wise steps after \<open>theta\<close>, with every index evaluated.\<close>

lemma rho_pi_lanes:
  "pi_lanes (rho [s0, s1, s2, s3, s4, s5, s6, s7, s8, s9, s10, s11, s12, s13, s14, s15, s16, s17, s18, s19,
          s20, s21, s22, s23, s24]) =
   [s0, ROL s6 44, ROL s12 43, ROL s18 21, ROL s24 14,
    ROL s3 28, ROL s9 20, ROL s10 3, ROL s16 45, ROL s22 61,
    ROL s1 1, ROL s7 6, ROL s13 25, ROL s19 8, ROL s20 18,
    ROL s4 27, ROL s5 36, ROL s11 10, ROL s17 15, ROL s23 56,
    ROL s2 62, ROL s8 55, ROL s14 39, ROL s15 41, ROL s21 2]"
  by (simp add: rho_def pi_lanes_def upt25 rho_offsets_table)

lemma chi_lanes:
  "chi [b0, b1, b2, b3, b4, b5, b6, b7, b8, b9, b10, b11, b12, b13, b14, b15, b16, b17, b18, b19,
          b20, b21, b22, b23, b24] =
   [b0 XOR (NOT b1 AND b2), b1 XOR (NOT b2 AND b3), b2 XOR (NOT b3 AND b4), b3 XOR (NOT b4 AND b0), b4 XOR (NOT b0 AND b1),
    b5 XOR (NOT b6 AND b7), b6 XOR (NOT b7 AND b8), b7 XOR (NOT b8 AND b9), b8 XOR (NOT b9 AND b5), b9 XOR (NOT b5 AND b6),
    b10 XOR (NOT b11 AND b12), b11 XOR (NOT b12 AND b13), b12 XOR (NOT b13 AND b14), b13 XOR (NOT b14 AND b10), b14 XOR (NOT b10 AND b11),
    b15 XOR (NOT b16 AND b17), b16 XOR (NOT b17 AND b18), b17 XOR (NOT b18 AND b19), b18 XOR (NOT b19 AND b15), b19 XOR (NOT b15 AND b16),
    b20 XOR (NOT b21 AND b22), b21 XOR (NOT b22 AND b23), b22 XOR (NOT b23 AND b24), b23 XOR (NOT b24 AND b20), b24 XOR (NOT b20 AND b21)]"
  by (simp add: chi_def upt25)

lemma theta_lanes:
  "theta [s0, s1, s2, s3, s4, s5, s6, s7, s8, s9, s10, s11, s12, s13, s14, s15, s16, s17, s18, s19, s20, s21, s22, s23, s24] =
   (let c0 = s0 XOR s5 XOR s10 XOR s15 XOR s20; c1 = s1 XOR s6 XOR s11 XOR s16 XOR s21;
        c2 = s2 XOR s7 XOR s12 XOR s17 XOR s22; c3 = s3 XOR s8 XOR s13 XOR s18 XOR s23;
        c4 = s4 XOR s9 XOR s14 XOR s19 XOR s24;
        d0 = c4 XOR ROL c1 1; d1 = c0 XOR ROL c2 1; d2 = c1 XOR ROL c3 1; d3 = c2 XOR ROL c4 1; d4 = c3 XOR ROL c0 1
    in [ s0 XOR d0, s1 XOR d1, s2 XOR d2, s3 XOR d3, s4 XOR d4,
        s5 XOR d0, s6 XOR d1, s7 XOR d2, s8 XOR d3, s9 XOR d4,
        s10 XOR d0, s11 XOR d1, s12 XOR d2, s13 XOR d3, s14 XOR d4,
        s15 XOR d0, s16 XOR d1, s17 XOR d2, s18 XOR d3, s19 XOR d4,
        s20 XOR d0, s21 XOR d1, s22 XOR d2, s23 XOR d3, s24 XOR d4])"
  unfolding Let_def by (simp add: theta_def theta_C_def upt25)

lemma KeccakF_even_spec:
  assumes "length s = 25"
  shows "KeccakF_even rc s = keccak_round rc s"
  using assms
  apply (elim list25)
  apply (simp only: keccak_round_def theta_lanes)
  apply (simp only: Let_def)
  apply (simp only: rho_pi_lanes chi_lanes)
  apply (simp add: KeccakF_even_def iota_def cong: let_weak_cong)
  apply (simp only: Let_def)
  done

lemma KeccakF_odd_spec:
  assumes "length s = 25"
  shows "KeccakF_odd rc s = keccak_round rc s"
  using assms
  apply (elim list25)
  apply (simp only: keccak_round_def theta_lanes)
  apply (simp only: Let_def)
  apply (simp only: rho_pi_lanes chi_lanes)
  apply (simp add: KeccakF_odd_def iota_def cong: let_weak_cong)
  apply (simp only: Let_def)
  done

subsection \<open>The permutation\<close>

lemma round_constants_table: "KeccakF_RoundConstants = round_constants"
  by code_simp

lemma KeccakF_rounds_foldl:
  assumes "length a = 25" and "even r" and "r \<le> 24"
  shows "KeccakF_rounds r a = foldl (\<lambda>a i. keccak_round (round_constants ! i) a) a [r..<24]"
  using assms
proof (induction r a rule: KeccakF_rounds.induct)
  case (1 r a)
  show ?case
  proof (cases "r < 24")
    case True
    with \<open>even r\<close> have r: "Suc r < 24" by presburger
    have "[r..<24] = r # Suc r # [r + 2..<24]" using r by (simp add: upt_conv_Cons)
    moreover have "KeccakF_rounds r a =
        KeccakF_rounds (r + 2) (keccak_round (round_constants ! Suc r) (keccak_round (round_constants ! r) a))"
      using True r "1.prems"
      by (subst KeccakF_rounds.simps) (simp add: KeccakF_even_spec KeccakF_odd_spec round_constants_table)
    ultimately show ?thesis
      using "1.IH" True r "1.prems"
      by (simp add: KeccakF_even_spec KeccakF_odd_spec round_constants_table)
  next
    case False
    with "1.prems" show ?thesis by (subst KeccakF_rounds.simps) simp
  qed
qed

lemma KeccakF_rounds_spec: "length a = 25 \<Longrightarrow> KeccakF_rounds 0 a = keccak_f a"
  by (simp add: KeccakF_rounds_foldl keccak_f_def)

lemma KeccakF_absorb_length [simp]: "length (KeccakF_absorb s inp n) = length s"
  by (induction n arbitrary: s) auto

lemma KeccakF_absorb_nth:
  assumes "n \<le> length s" and "i < length s"
  shows "KeccakF_absorb s inp n ! i = (if i < n then s ! i XOR inp ! i else s ! i)"
  using assms by (induction n arbitrary: s) (auto simp: less_Suc_eq)

definition xor_lanes :: "64 word list \<Rightarrow> 64 word list \<Rightarrow> 64 word list" where
  "xor_lanes s b = map2 (XOR) s (b @ replicate (length s - length b) 0)"

theorem KeccakF_spec:
  assumes "length s = 25" and "length inp = n" and "n \<le> 25"
  shows "KeccakF s inp n = keccak_f (xor_lanes s inp)"
proof -
  have "KeccakF_absorb s inp n = xor_lanes s inp"
    using assms by (intro nth_equalityI) (simp_all add: KeccakF_absorb_nth xor_lanes_def nth_append)
  moreover have "length (xor_lanes s inp) = 25" using assms by (simp add: xor_lanes_def)
  ultimately show ?thesis by (simp add: KeccakF_def KeccakF_rounds_spec)
qed

lemma keccak_f_length [simp]: "length a = 25 \<Longrightarrow> length (keccak_f a) = 25"
proof -
  have "length a = 25 \<Longrightarrow> length (foldl (\<lambda>a i. keccak_round (round_constants ! i) a) a xs) = 25" for xs
    by (induction xs arbitrary: a) auto
  then show "length a = 25 \<Longrightarrow> length (keccak_f a) = 25" by (simp add: keccak_f_def)
qed

subsection \<open>The sponge\<close>

text \<open>Multi-rate padding \<open>10*1\<close> to a multiple of the rate, absorption block by block, one squeeze.\<close>

definition pad_block :: "nat \<Rightarrow> byte list" where
  "pad_block q = (if q = 1 then [0x81] else 1 # replicate (q - 2) 0 @ [0x80])"

definition pad101 :: "byte list \<Rightarrow> byte list" where
  "pad101 m = m @ pad_block (136 - length m mod 136)"

definition absorb_block :: "64 word list \<Rightarrow> byte list \<Rightarrow> 64 word list" where
  "absorb_block s b = keccak_f (xor_lanes s (lanes_of_bytes b 17))"

definition blocks_of :: "nat \<Rightarrow> byte list \<Rightarrow> byte list list" where
  "blocks_of r m = map (\<lambda>i. take r (drop (r * i) m)) [0..<length m div r]"

definition keccak_sponge :: "byte list \<Rightarrow> byte list" where
  "keccak_sponge m = take 32 (bytes_of_lanes (foldl absorb_block (replicate 25 0) (blocks_of 136 (pad101 m))))"

lemma lanes_of_bytes_length [simp]: "length (lanes_of_bytes b n) = n"
  by (simp add: lanes_of_bytes_def)

lemma lanes_of_bytes_take: "8 * n \<le> k \<Longrightarrow> lanes_of_bytes (take k b) n = lanes_of_bytes b n"
  unfolding lanes_of_bytes_def
  by (rule map_cong) (auto simp: take_drop min_def)

lemma absorb_block_length [simp]: "length s = 25 \<Longrightarrow> length (absorb_block s b) = 25"
  by (simp add: absorb_block_def xor_lanes_def)

lemma blocks_of_short: "length m < r \<Longrightarrow> blocks_of r m = []"
  by (simp add: blocks_of_def)

lemma blocks_of_step:
  assumes "r \<le> length m" and "0 < r"
  shows "blocks_of r m = take r m # blocks_of r (drop r m)"
proof -
  have "length m div r = Suc ((length m - r) div r)"
    using assms by (simp add: le_div_geq)
  moreover have "[0..<Suc n] = 0 # map Suc [0..<n]" for n
    by (simp add: map_Suc_upt upt_conv_Cons)
  ultimately show ?thesis using assms by (simp add: blocks_of_def add.commute)
qed

lemma hash_last_block_spec:
  assumes "length temp = 136" and "length m < 136"
  shows "hash_last_block temp m = m @ pad_block (136 - length m)"
proof -
  let ?n = "length m"
  have "take (Suc ?n) ((m @ drop ?n temp)[?n := 1]) = m @ [1]"
    using assms by (simp add: list_update_append) (cases "drop ?n temp"; simp)
  then have t: "hash_last_block temp m =
      (let t = m @ [1] @ replicate (135 - ?n) 0 in t[135 := t ! 135 OR 0x80])"
    by (simp add: hash_last_block_def Let_def cKeccakR_SizeInBytes_def)
  show ?thesis
  proof (cases "?n = 135")
    case True
    then show ?thesis by (simp add: t Let_def pad_block_def nth_append list_update_append)
  next
    case False
    with assms have "replicate (135 - ?n) 0 = replicate (134 - ?n) 0 @ [0 :: byte]"
      by (simp add: replicate_append_same flip: replicate_Suc)
    moreover have "length (m @ [1] @ replicate (134 - ?n) 0) = 135" using False assms by simp
    ultimately have "(m @ [1] @ replicate (135 - ?n) 0)[135 := x] = (m @ [1] @ replicate (134 - ?n) 0) @ [x]"
      "(m @ [1] @ replicate (135 - ?n) (0 :: byte)) ! 135 = 0" for x
      by (metis append.assoc list_update_length nth_append_length)+
    then show ?thesis using False assms by (simp add: t Let_def pad_block_def)
  qed
qed

lemma KeccakF_block: "length s = 25 \<Longrightarrow> KeccakF s (lanes_of_bytes m 17) 17 = absorb_block s (take 136 m)"
  by (simp add: KeccakF_spec absorb_block_def lanes_of_bytes_take)

theorem hash_is_sponge:
  assumes "length temp = 136"
  shows "simplest_ot_crypto_hash temp m = keccak_sponge m"
proof -
  have "case hash_blocks s m of (s', rest) \<Rightarrow>
      KeccakF s' (lanes_of_bytes (hash_last_block temp rest) 17) 17
      = foldl absorb_block s (blocks_of 136 (pad101 m))" if "length s = 25" for s
    using that
  proof (induction s m rule: hash_blocks.induct)
    case (1 s m)
    show ?case
    proof (cases "136 \<le> length m")
      case True
      then have "pad101 m = take 136 m @ pad101 (drop 136 m)"
        by (simp add: pad101_def le_mod_geq)
      then have "blocks_of 136 (pad101 m) = take 136 m # blocks_of 136 (pad101 (drop 136 m))"
        using True by (simp add: blocks_of_step)
      with True "1.IH" "1.prems" show ?thesis
        by (subst hash_blocks.simps)
          (simp add: cKeccakR_SizeInBytes_def KeccakF_block)
    next
      case False
      have "length (pad101 m) = 136" using False by (auto simp: pad101_def pad_block_def)
      then have "blocks_of 136 (pad101 m) = [pad101 m]"
        by (simp add: blocks_of_step blocks_of_short)
      moreover have "pad101 m = hash_last_block temp m"
        using False by (simp add: hash_last_block_spec [OF assms] pad101_def)
      ultimately show ?thesis
        using False "1.prems" \<open>length (pad101 m) = 136\<close>
        by (subst hash_blocks.simps) (simp add: cKeccakR_SizeInBytes_def KeccakF_block)
    qed
  qed
  from this [of "replicate 25 0"] show ?thesis
    by (simp add: simplest_ot_crypto_hash_def keccak_sponge_def crypto_hash_BYTES_def Let_def
        split: prod.splits)
qed

lemma bytes_of_lanes_length: "length (bytes_of_lanes s) = 8 * length s"
  by (induction s) (simp_all add: bytes_of_lanes_def bytes_of_lane_def)

lemma absorb_fold_length: "length s = 25 \<Longrightarrow> length (foldl absorb_block s bs) = 25"
  by (induction bs arbitrary: s) simp_all

lemma hash_length: "length temp = 136 \<Longrightarrow> length (simplest_ot_crypto_hash temp m) = 32"
  by (simp add: hash_is_sponge keccak_sponge_def bytes_of_lanes_length absorb_fold_length)

end
