(* ===== verification/SimplestOT.thy ===== *)
theory SimplestOT
  imports GeScalar ScMulAdd Keccak
begin

unbundle bit_operations_syntax

text \<open>
  The oblivious transfer protocol of \<^verbatim>\<open>ot_sender.c\<close> and \<^verbatim>\<open>ot_receiver.c\<close>, with the key derivation
  \<^verbatim>\<open>ge_hash\<close> of \<^verbatim>\<open>ge.c\<close> and the entropy source \<^verbatim>\<open>randombytes.c\<close>.  The two structs are records;
  a function that writes through its pointer arguments returns the updated objects.  The bytes
  that \<^verbatim>\<open>simpleot_randombytes\<close> has stored are an argument of the functions that call it, and so is the
  uninitialised block \<^verbatim>\<open>temp\<close> of the hash.  The exit of \<^verbatim>\<open>portable_sender_keygen\<close> and of
  \<^verbatim>\<open>portable_receiver_procS\<close> is the error value \<open>Decompression_failed\<close>.  The theorems: every step
  returns for every state the protocol can be in (no signed overflow, whatever bytes the peer
  sends), what it writes and what it leaves alone on each branch, and which hash each key is.
\<close>

subsection \<open>The entropy source\<close>

text \<open>
  The loop of \<^verbatim>\<open>simpleot_randombytes\<close> over the results of the successive calls of \<^verbatim>\<open>read\<close>: a call that
  asks for \<open>i\<close> bytes stores a prefix of at most \<open>i\<close> bytes of what the device had ready; a call that
  stores none is retried.  \<open>None\<close> is a loop that is still waiting after the listed calls.
\<close>

fun simpleot_randombytes :: "byte list list \<Rightarrow> nat \<Rightarrow> byte list option" where
  "simpleot_randombytes reads 0 = Some []"
| "simpleot_randombytes [] (Suc xlen) = None"
| "simpleot_randombytes (ready # reads) (Suc xlen) =
     (let i = (if Suc xlen < 1048576 then Suc xlen else 1048576);
          got = take i ready
      in if length got < 1 then simpleot_randombytes reads (Suc xlen)
         else do {
           rest \<leftarrow> simpleot_randombytes reads (Suc xlen - length got);
           Some (got @ rest) })"

subsection \<open>State and key derivation\<close>

record ot_sender =
  sender_S_pack :: "byte list"
  sender_y :: "byte list"
  sender_yS :: ge_p3

record ot_receiver =
  receiver_S_pack :: "byte list"
  receiver_S :: ge_p3
  receiver_xB :: ge_p3
  receiver_x :: "byte list"

definition ge_hash :: "byte list \<Rightarrow> byte list \<Rightarrow> byte list \<Rightarrow> ge_p3 \<Rightarrow> byte list option" where
  "ge_hash temp sp q p = do {
     r \<leftarrow> ge_p3_tobytes p;
     Some (simplest_ot_crypto_hash temp (take 32 sp @ take 32 q @ take 32 r)) }"

text \<open>\<^verbatim>\<open>for (i = 0; i < 3; i++) ge_p3_dbl_p3(&P, &P);\<close>\<close>

definition ge_p3_mul8 :: "ge_p3 \<Rightarrow> ge_p3 option" where
  "ge_p3_mul8 P = do {
     P \<leftarrow> ge_p3_dbl_p3 P;
     P \<leftarrow> ge_p3_dbl_p3 P;
     ge_p3_dbl_p3 P }"

subsection \<open>The sender\<close>

definition portable_sender_genS :: "byte list \<Rightarrow> ot_sender \<Rightarrow> (ot_sender \<times> byte list) option" where
  "portable_sender_genS rnd s = do {
     let s = s\<lparr>sender_y := sc_random rnd 0\<rparr>;
     S \<leftarrow> ge_scalarmult_base (sender_y s);
     S_pack \<leftarrow> ge_p3_tobytes S;
     S \<leftarrow> ge_p3_mul8 S;
     packed \<leftarrow> ge_p3_tobytes S;
     let s = s\<lparr>sender_S_pack := packed\<rparr>;
     yS \<leftarrow> ge_scalarmult_vartime (sender_y s) S;
     yS \<leftarrow> ge_p3_mul8 yS;
     Some (s\<lparr>sender_yS := yS\<rparr>, S_pack) }"

text \<open>The result: the returned \<^verbatim>\<open>bool\<close>, \<^verbatim>\<open>Rs_pack\<close> and the two keys.\<close>

definition portable_sender_keygen_check ::
    "byte list \<Rightarrow> byte list \<Rightarrow> ot_sender \<Rightarrow> byte list \<Rightarrow> byte list \<times> byte list
      \<Rightarrow> (bool \<times> byte list \<times> byte list \<times> byte list) option" where
  "portable_sender_keygen_check temp0 temp1 s Rs_pack keys = do {
     r \<leftarrow> ge_frombytes_vartime Rs_pack;
     case r of Inl e \<Rightarrow> Some (False, Rs_pack, keys)
     | Inr Rs \<Rightarrow> do {
         Rs \<leftarrow> ge_p3_mul8 Rs;
         Rs_pack \<leftarrow> ge_p3_tobytes Rs;
         P0 \<leftarrow> ge_scalarmult_vartime (sender_y s) Rs;
         k0 \<leftarrow> ge_hash temp0 (sender_S_pack s) Rs_pack P0;
         tmp \<leftarrow> ge_p3_to_cached P0;
         tmp2 \<leftarrow> ge_sub (sender_yS s) tmp;
         P1 \<leftarrow> ge_p1p1_to_p3 tmp2;
         k1 \<leftarrow> ge_hash temp1 (sender_S_pack s) Rs_pack P1;
         Some (True, Rs_pack, k0, k1) } }"

definition portable_sender_keygen ::
    "byte list \<Rightarrow> byte list \<Rightarrow> ot_sender \<Rightarrow> byte list \<Rightarrow> byte list \<times> byte list
      \<Rightarrow> (ge_error + byte list \<times> byte list \<times> byte list) option" where
  "portable_sender_keygen temp0 temp1 s Rs_pack keys = do {
     (ok, Rs_pack, keys) \<leftarrow> portable_sender_keygen_check temp0 temp1 s Rs_pack keys;
     if \<not> ok then Some (Inl Decompression_failed) else Some (Inr (Rs_pack, keys)) }"

subsection \<open>The receiver\<close>

definition portable_receiver_procS_check :: "ot_receiver \<Rightarrow> (bool \<times> ot_receiver) option" where
  "portable_receiver_procS_check r = do {
     d \<leftarrow> ge_frombytes_vartime (receiver_S_pack r);
     case d of Inl e \<Rightarrow> Some (False, r)
     | Inr S \<Rightarrow> do {
         S \<leftarrow> ge_p3_mul8 S;
         packed \<leftarrow> ge_p3_tobytes S;
         Some (True, r\<lparr>receiver_S_pack := packed, receiver_S := S\<rparr>) } }"

definition portable_receiver_procS :: "ot_receiver \<Rightarrow> (ge_error + ot_receiver) option" where
  "portable_receiver_procS r = do {
     (success, r) \<leftarrow> portable_receiver_procS_check r;
     if \<not> success then Some (Inl Decompression_failed) else Some (Inr r) }"

definition portable_receiver_rsgen :: "byte list \<Rightarrow> ot_receiver \<Rightarrow> byte \<Rightarrow> (ot_receiver \<times> byte list) option" where
  "portable_receiver_rsgen rnd r c = do {
     let r = r\<lparr>receiver_x := sc_random rnd 1\<rparr>;
     B \<leftarrow> ge_scalarmult_base (receiver_x r);
     let r = r\<lparr>receiver_xB := B\<rparr>;
     xB \<leftarrow> ge_p3_to_cached (receiver_xB r);
     P \<leftarrow> ge_sub (receiver_S r) xB;
     P_tmp \<leftarrow> ge_p1p1_to_p3 P;
     let r = r\<lparr>receiver_xB := ge_p3_cmov (receiver_xB r) P_tmp (ucast c)\<rparr>;
     Rs_pack \<leftarrow> ge_p3_tobytes (receiver_xB r);
     Some (r, Rs_pack) }"

definition portable_receiver_keygen :: "byte list \<Rightarrow> ot_receiver \<Rightarrow> (ot_receiver \<times> byte list) option" where
  "portable_receiver_keygen temp r = do {
     B \<leftarrow> ge_p3_mul8 (receiver_xB r);
     let r = r\<lparr>receiver_xB := B\<rparr>;
     Rs_pack \<leftarrow> ge_p3_tobytes (receiver_xB r);
     P \<leftarrow> ge_scalarmult_vartime (receiver_x r) (receiver_S r);
     k \<leftarrow> ge_hash temp (receiver_S_pack r) Rs_pack P;
     Some (r, k) }"

subsection \<open>Reading entropy\<close>

lemma simpleot_randombytes_length:
  "simpleot_randombytes reads xlen = Some x \<Longrightarrow> length x = xlen"
proof (induction reads xlen arbitrary: x rule: simpleot_randombytes.induct)
  case (3 ready reads xlen)
  define got where "got = take (if Suc xlen < 1048576 then Suc xlen else 1048576) ready"
  have "length got \<le> Suc xlen" by (auto simp: got_def)
  have "simpleot_randombytes (ready # reads) (Suc xlen) =
      (if length got < 1 then simpleot_randombytes reads (Suc xlen)
       else do { rest \<leftarrow> simpleot_randombytes reads (Suc xlen - length got); Some (got @ rest) })"
    by (simp only: simpleot_randombytes.simps Let_def got_def)
  note step = 3(3) [unfolded this]
  show ?case
  proof (cases "length got < 1")
    case True
    with step 3(1) [OF refl got_def True] show ?thesis by (simp only: if_True)
  next
    case False
    with step obtain rest where "simpleot_randombytes reads (Suc xlen - length got) = Some rest" "x = got @ rest"
      by (auto simp only: if_False bind_Some_iff option.inject)
    with 3(2) [OF refl got_def False] \<open>length got \<le> Suc xlen\<close> show ?thesis by simp
  qed
qed simp_all

text \<open>Each productive call makes progress, so as many of them as bytes are wanted suffice.\<close>

lemma simpleot_randombytes_returns:
  "xlen \<le> length (filter (\<lambda>b. b \<noteq> []) reads) \<Longrightarrow> \<exists>x. simpleot_randombytes reads xlen = Some x"
proof (induction reads xlen rule: simpleot_randombytes.induct)
  case (3 ready reads xlen)
  let ?i = "if Suc xlen < 1048576 then Suc xlen else 1048576"
  show ?case
  proof (cases "ready = []")
    case True
    with 3 show ?thesis by (simp add: Let_def)
  next
    case False
    then have "1 \<le> length (take ?i ready)" by (cases ready) auto
    with 3(2) 3(3) False show ?thesis by (fastforce simp: Let_def)
  qed
qed simp_all

subsection \<open>Scalars and points stay in range\<close>

lemma sc_random_top: "length x = 32 \<Longrightarrow> sc_random x c ! 31 \<le> 127"
proof -
  assume l: "length x = 32"
  have "x ! 31 AND 15 \<le> 127" "x ! 31 AND 127 \<le> 127"
    by (rule order_trans [OF word_and_le1], simp)+
  with l show ?thesis by (simp add: sc_random_def Let_def)
qed

lemma ge_p3_mul8_ok: "p3_ok P \<Longrightarrow> runs (ge_p3_mul8 P) p3_ok"
  unfolding ge_p3_mul8_def by (intro runs_bind [OF ge_p3_dbl_p3_ok] ge_p3_dbl_p3_ok)

lemma ge_hash_ok: "length temp = 136 \<Longrightarrow> p3_ok p \<Longrightarrow> runs (ge_hash temp sp q p) (\<lambda>k. length k = 32)"
  unfolding ge_hash_def by (rule runs_bind [OF ge_p3_tobytes_ok]) (simp_all add: hash_length)

lemma ge_frombytes_vartime_ok:
  "length s = 32 \<Longrightarrow> runs (ge_frombytes_vartime s) (\<lambda>r. case r of Inl e \<Rightarrow> True | Inr P \<Rightarrow> p3_ok P)"
  by (rule runs_mono [OF ge_frombytes_vartime_rep]) (auto simp: p3_rep_def split: sum.splits)

text \<open>
  The representation invariants of the two structs, and \<open>fresh\<close> structs: those the protocol
  functions may be called on before anything has been written to the point fields.
\<close>

definition sender_inv :: "ot_sender \<Rightarrow> bool" where
  "sender_inv s \<longleftrightarrow> length (sender_S_pack s) = 32 \<and> length (sender_y s) = 32 \<and> sender_y s ! 31 \<le> 127
    \<and> p3_ok (sender_yS s)"

definition receiver_ready :: "ot_receiver \<Rightarrow> bool" where
  "receiver_ready r \<longleftrightarrow> length (receiver_S_pack r) = 32 \<and> p3_ok (receiver_S r)"

definition receiver_inv :: "ot_receiver \<Rightarrow> bool" where
  "receiver_inv r \<longleftrightarrow> receiver_ready r \<and> length (receiver_x r) = 32 \<and> receiver_x r ! 31 \<le> 127
    \<and> p3_ok (receiver_xB r)"

subsection \<open>Every step returns and keeps the invariants\<close>

lemma genS_runs:
  assumes "length rnd = 32"
  shows "runs (portable_sender_genS rnd s)
    (\<lambda>(s', S_pack). sender_inv s' \<and> length S_pack = 32 \<and> sender_y s' = sc_random rnd 0)"
proof -
  have y: "length (sc_random rnd 0) = 32" "sc_random rnd 0 ! 31 \<le> 127"
    using assms sc_random_spec(1) sc_random_top by blast+
  show ?thesis
    unfolding portable_sender_genS_def Let_def
    by (rule runs_bind [OF ge_scalarmult_base_ok], (simp add: y)+,
        rule runs_bind [OF ge_p3_tobytes_ok], assumption,
        rule runs_bind [OF ge_p3_mul8_ok], assumption,
        rule runs_bind [OF ge_p3_tobytes_ok], assumption,
        rule runs_bind [OF ge_scalarmult_vartime_ok], (simp add: y)+,
        rule runs_bind [OF ge_p3_mul8_ok], assumption)
      (simp add: sender_inv_def y)
qed

lemma procS_check_runs:
  assumes "length (receiver_S_pack r) = 32"
  shows "runs (portable_receiver_procS_check r) (\<lambda>(ok, r'). if ok then receiver_ready r' else r' = r)"
  unfolding portable_receiver_procS_check_def
proof (rule runs_bind [OF ge_frombytes_vartime_ok [OF assms]], goal_cases)
  case (1 d)
  show ?case
  proof (cases d)
    case (Inr S)
    with 1 have "p3_ok S" by simp
    then show ?thesis
      unfolding Inr sum.case
      by (rule runs_bind [OF ge_p3_mul8_ok], intro runs_bind [OF ge_p3_tobytes_ok])
        (simp_all add: receiver_ready_def)
  qed simp
qed

lemma rsgen_runs:
  assumes "length rnd = 32" and "receiver_ready r" and "c = 0 \<or> c = 1"
  shows "runs (portable_receiver_rsgen rnd r c)
    (\<lambda>(r', Rs_pack). receiver_inv r' \<and> length Rs_pack = 32 \<and> receiver_x r' = sc_random rnd 1
      \<and> receiver_S r' = receiver_S r \<and> receiver_S_pack r' = receiver_S_pack r)"
proof -
  have x: "length (sc_random rnd 1) = 32" "sc_random rnd 1 ! 31 \<le> 127"
    using assms(1) sc_random_spec(1) sc_random_top by blast+
  have S: "p3_ok (receiver_S r)" using assms(2) by (simp add: receiver_ready_def)
  have m: "p3_ok (ge_p3_cmov P Q (ucast c))" if "p3_ok P" "p3_ok Q" for P Q
    using assms(3) that by (auto simp: ge_p3_cmov_select)
  show ?thesis
    unfolding portable_receiver_rsgen_def Let_def
    by (rule runs_bind [OF ge_scalarmult_base_ok], (simp add: x)+,
        rule runs_bind [OF ge_p3_to_cached_ok], simp,
        rule runs_bind [OF ge_sub_ok], (simp add: S)+,
        rule runs_bind [OF ge_p1p1_to_p3_ok], assumption,
        rule runs_bind [OF ge_p3_tobytes_ok], (simp add: m; fail)[1])
      (use assms(2) in \<open>simp add: receiver_inv_def receiver_ready_def x m\<close>)
qed

lemma receiver_keygen_runs:
  assumes "length temp = 136" and "receiver_inv r"
  shows "runs (portable_receiver_keygen temp r) (\<lambda>(r', k). receiver_inv r' \<and> length k = 32)"
  unfolding portable_receiver_keygen_def Let_def
  by (rule runs_bind [OF ge_p3_mul8_ok], (use assms(2) in \<open>simp add: receiver_inv_def\<close>; fail)[1],
      rule runs_bind [OF ge_p3_tobytes_ok], (simp; fail)[1],
      rule runs_bind [OF ge_scalarmult_vartime_ok],
      (use assms(2) in \<open>simp add: receiver_inv_def receiver_ready_def\<close>; fail)+,
      rule runs_bind [OF ge_hash_ok], (simp add: assms(1)), assumption)
    (use assms(2) in \<open>simp add: receiver_inv_def receiver_ready_def\<close>)

lemma keygen_check_runs:
  assumes "length temp0 = 136" and "length temp1 = 136" and "sender_inv s" and "length Rs_pack = 32"
  shows "runs (portable_sender_keygen_check temp0 temp1 s Rs_pack keys)
    (\<lambda>(ok, Rs', k0, k1). if ok then length Rs' = 32 \<and> length k0 = 32 \<and> length k1 = 32
       else Rs' = Rs_pack \<and> (k0, k1) = keys)"
  unfolding portable_sender_keygen_check_def
proof (rule runs_bind [OF ge_frombytes_vartime_ok [OF assms(4)]], goal_cases)
  case (1 d)
  show ?case
  proof (cases d)
    case (Inl e)
    then show ?thesis by (cases keys) simp
  next
    case (Inr Rs)
    with 1 have Rs: "p3_ok Rs" by simp
    note s = assms(3) [unfolded sender_inv_def]
    show ?thesis
      unfolding Inr sum.case
      by (rule runs_bind [OF ge_p3_mul8_ok [OF Rs]],
          rule runs_bind [OF ge_p3_tobytes_ok], assumption,
          rule runs_bind [OF ge_scalarmult_vartime_ok], (simp add: s)+,
          rule runs_bind [OF ge_hash_ok], rule assms(1), assumption,
          rule runs_bind [OF ge_p3_to_cached_ok], assumption,
          rule runs_bind [OF ge_sub_ok], (simp add: s; fail)[1], assumption,
          rule runs_bind [OF ge_p1p1_to_p3_ok], assumption,
          rule runs_bind [OF ge_hash_ok], rule assms(2), assumption) simp
  qed
qed

subsection \<open>The keys\<close>

text \<open>The key is the Keccak sponge of the transcript, whatever the uninitialised block holds.\<close>

lemma ge_hash_spec:
  assumes "length temp = 136" and "length sp = 32" and "length q = 32" and "p3_ok P"
  shows "\<exists>r. ge_p3_tobytes P = Some r \<and> length r = 32 \<and> ge_hash temp sp q P = Some (keccak_sponge (sp @ q @ r))"
  using ge_p3_tobytes_ok [OF assms(4)] assms(1-3) by (auto simp: runs_def ge_hash_def hash_is_sponge)

lemma ge_hash_temp: "length temp = 136 \<Longrightarrow> length temp' = 136 \<Longrightarrow> ge_hash temp = ge_hash temp'"
  by (simp add: fun_eq_iff ge_hash_def hash_is_sponge)

lemma keygen_check_temp:
  assumes "length temp0 = 136" and "length temp1 = 136" and "length temp0' = 136" and "length temp1' = 136"
  shows "portable_sender_keygen_check temp0 temp1 s Rs_pack keys
    = portable_sender_keygen_check temp0' temp1' s Rs_pack keys"
  unfolding portable_sender_keygen_check_def
  using ge_hash_temp [OF assms(1,3)] ge_hash_temp [OF assms(2,4)] by simp

lemma receiver_keygen_temp:
  "length temp = 136 \<Longrightarrow> length temp' = 136 \<Longrightarrow> portable_receiver_keygen temp r = portable_receiver_keygen temp' r"
  unfolding portable_receiver_keygen_def using ge_hash_temp [of temp temp'] by simp

text \<open>What the sender computes on a message that decompresses.\<close>

lemma keygen_check_keys:
  assumes "length temp0 = 136" and "length temp1 = 136" and "sender_inv s" and "length Rs_pack = 32"
    and "portable_sender_keygen_check temp0 temp1 s Rs_pack keys = Some (True, Rs', k0, k1)"
  shows "\<exists>R R8 P0 c t P1 e0 e1. ge_frombytes_vartime Rs_pack = Some (Inr R) \<and> ge_p3_mul8 R = Some R8
    \<and> ge_p3_tobytes R8 = Some Rs' \<and> ge_scalarmult_vartime (sender_y s) R8 = Some P0
    \<and> ge_p3_to_cached P0 = Some c \<and> ge_sub (sender_yS s) c = Some t \<and> ge_p1p1_to_p3 t = Some P1
    \<and> ge_p3_tobytes P0 = Some e0 \<and> k0 = keccak_sponge (sender_S_pack s @ Rs' @ e0)
    \<and> ge_p3_tobytes P1 = Some e1 \<and> k1 = keccak_sponge (sender_S_pack s @ Rs' @ e1)"
proof -
  note s = assms(3) [unfolded sender_inv_def]
  obtain d where d: "ge_frombytes_vartime Rs_pack = Some d" "case d of Inl e \<Rightarrow> True | Inr P \<Rightarrow> p3_ok P"
    using runsE [OF ge_frombytes_vartime_ok [OF assms(4)]] by blast
  with assms(5) obtain R where R: "d = Inr R" "p3_ok R"
    by (cases d) (auto simp: portable_sender_keygen_check_def)
  obtain R8 where R8: "ge_p3_mul8 R = Some R8" "p3_ok R8"
    using runsE [OF ge_p3_mul8_ok [OF R(2)]] by blast
  obtain Rs where Rs: "ge_p3_tobytes R8 = Some Rs" "length Rs = 32"
    using runsE [OF ge_p3_tobytes_ok [OF R8(2)]] by blast
  obtain P0 where P0: "ge_scalarmult_vartime (sender_y s) R8 = Some P0" "p3_ok P0"
    using runsE [OF ge_scalarmult_vartime_ok [OF _ _ R8(2)]] s by blast
  obtain c where c: "ge_p3_to_cached P0 = Some c" "cached_ok c"
    using runsE [OF ge_p3_to_cached_ok [OF P0(2)]] by blast
  obtain t where t: "ge_sub (sender_yS s) c = Some t" "p1p1_ok t"
    using runsE [OF ge_sub_ok [OF _ c(2)]] s by blast
  obtain P1 where P1: "ge_p1p1_to_p3 t = Some P1" "p3_ok P1"
    using runsE [OF ge_p1p1_to_p3_ok [OF t(2)]] by blast
  have sp: "length (sender_S_pack s) = 32" using s by simp
  obtain e0 where e0: "ge_p3_tobytes P0 = Some e0"
    "ge_hash temp0 (sender_S_pack s) Rs P0 = Some (keccak_sponge (sender_S_pack s @ Rs @ e0))"
    using ge_hash_spec [OF assms(1) sp Rs(2) P0(2)] by blast
  obtain e1 where e1: "ge_p3_tobytes P1 = Some e1"
    "ge_hash temp1 (sender_S_pack s) Rs P1 = Some (keccak_sponge (sender_S_pack s @ Rs @ e1))"
    using ge_hash_spec [OF assms(2) sp Rs(2) P1(2)] by blast
  from assms(5) have "Rs' = Rs" "k0 = keccak_sponge (sender_S_pack s @ Rs @ e0)"
    "k1 = keccak_sponge (sender_S_pack s @ Rs @ e1)"
    by (auto simp: portable_sender_keygen_check_def d(1) R(1) R8(1) Rs(1) P0(1) c(1) t(1) P1(1) e0(2) e1(2))
  with d(1) R(1) R8(1) Rs(1) P0(1) c(1) t(1) P1(1) e0(1) e1(1) show ?thesis by simp
qed

text \<open>The choice bit selects between the receiver's multiple of the base point and its difference to \<open>S\<close>.\<close>

lemma rsgen_choice:
  assumes "length rnd = 32" and "receiver_ready r" and "c = 0 \<or> c = 1"
  shows "\<exists>B cB t D R. ge_scalarmult_base (sc_random rnd 1) = Some B \<and> ge_p3_to_cached B = Some cB
    \<and> ge_sub (receiver_S r) cB = Some t \<and> ge_p1p1_to_p3 t = Some D
    \<and> ge_p3_tobytes (if c = 0 then B else D) = Some R
    \<and> portable_receiver_rsgen rnd r c =
        Some (r\<lparr>receiver_x := sc_random rnd 1, receiver_xB := if c = 0 then B else D\<rparr>, R)"
proof -
  have S: "p3_ok (receiver_S r)" using assms(2) by (simp add: receiver_ready_def)
  obtain B where B: "ge_scalarmult_base (sc_random rnd 1) = Some B" "p3_ok B"
    using runsE [OF ge_scalarmult_base_ok [OF sc_random_spec(1) [OF assms(1)] sc_random_top [OF assms(1)]]] by blast
  obtain cB where cB: "ge_p3_to_cached B = Some cB" "cached_ok cB"
    using runsE [OF ge_p3_to_cached_ok [OF B(2)]] by blast
  obtain t where t: "ge_sub (receiver_S r) cB = Some t" "p1p1_ok t"
    using runsE [OF ge_sub_ok [OF S cB(2)]] by blast
  obtain D where D: "ge_p1p1_to_p3 t = Some D" "p3_ok D"
    using runsE [OF ge_p1p1_to_p3_ok [OF t(2)]] by blast
  have sel: "ge_p3_cmov B D (ucast c) = (if c = 0 then B else D)"
    using assms(3) ge_p3_cmov_select [OF B(2) D(2)] by auto
  have "p3_ok (if c = 0 then B else D)" using B D by simp
  then obtain R where R: "ge_p3_tobytes (if c = 0 then B else D) = Some R"
    using runsE [OF ge_p3_tobytes_ok] by blast
  then have "portable_receiver_rsgen rnd r c =
      Some (r\<lparr>receiver_x := sc_random rnd 1, receiver_xB := if c = 0 then B else D\<rparr>, R)"
    by (simp add: portable_receiver_rsgen_def B(1) cB(1) t(1) D(1) sel del: if_split)
  with B(1) cB(1) t(1) D(1) R show ?thesis by blast
qed

text \<open>Which messages are refused: those whose \<open>y\<close> is not that of a point.\<close>

lemma keygen_check_True:
  "ge_frombytes_vartime Rs_pack = Some (Inr P) \<Longrightarrow>
   portable_sender_keygen_check temp0 temp1 s Rs_pack keys = Some q \<Longrightarrow> fst q"
  by (auto simp: portable_sender_keygen_check_def bind_Some_iff)

text \<open>The whole run: which messages are accepted, and what is computed from an accepted one.\<close>

lemma keygen_check_total:
  assumes "length temp0 = 136" and "length temp1 = 136" and "sender_inv s" and "length Rs_pack = 32"
    and "y = gf_int (le_val Rs_pack mod 2 ^ 255)"
  shows "if decompressible y
    then \<exists>R x R8 Rs' P0 c t P1 e0 e1. ge_frombytes_vartime Rs_pack = Some (Inr R) \<and> p3_rep R x y 1 \<and> on_curve x y
      \<and> ge_p3_mul8 R = Some R8 \<and> ge_p3_tobytes R8 = Some Rs' \<and> ge_scalarmult_vartime (sender_y s) R8 = Some P0
      \<and> ge_p3_to_cached P0 = Some c \<and> ge_sub (sender_yS s) c = Some t \<and> ge_p1p1_to_p3 t = Some P1
      \<and> ge_p3_tobytes P0 = Some e0 \<and> ge_p3_tobytes P1 = Some e1
      \<and> portable_sender_keygen_check temp0 temp1 s Rs_pack keys =
          Some (True, Rs', keccak_sponge (sender_S_pack s @ Rs' @ e0), keccak_sponge (sender_S_pack s @ Rs' @ e1))
    else portable_sender_keygen_check temp0 temp1 s Rs_pack keys = Some (False, Rs_pack, keys)"
proof (rule runsE [OF ge_frombytes_vartime_rep [OF assms(4), folded assms(5)]])
  fix r
  assume r: "ge_frombytes_vartime Rs_pack = Some r"
    "case r of Inl e \<Rightarrow> \<not> decompressible y
     | Inr P \<Rightarrow> decompressible y \<and> (\<exists>x. p3_rep P x y 1 \<and> on_curve x y \<and> (x = 0 \<or> Rep_gf x mod 2 = le_val Rs_pack div 2 ^ 255))"
  show ?thesis
  proof (cases r)
    case (Inl e)
    with r show ?thesis by (simp add: portable_sender_keygen_check_def)
  next
    case (Inr R)
    with r obtain x where R: "ge_frombytes_vartime Rs_pack = Some (Inr R)" and dc: "decompressible y"
      and x: "p3_rep R x y 1" "on_curve x y" by auto
    obtain q where q: "portable_sender_keygen_check temp0 temp1 s Rs_pack keys = Some q"
      using runsE [OF keygen_check_runs [OF assms(1-4)]] by blast
    with R have "fst q" by (rule keygen_check_True)
    then obtain Rs' k0 k1 where "q = (True, Rs', k0, k1)" by (cases q) auto
    with q have "portable_sender_keygen_check temp0 temp1 s Rs_pack keys = Some (True, Rs', k0, k1)" by simp
    note k = this keygen_check_keys [OF assms(1-4) this]
    show ?thesis unfolding if_P [OF dc] using k R x by fastforce
  qed
qed

lemma keygen_exit:
  assumes "length temp0 = 136" and "length temp1 = 136" and "sender_inv s" and "length Rs_pack = 32"
  shows "portable_sender_keygen temp0 temp1 s Rs_pack keys = Some (Inl Decompression_failed)
    \<longleftrightarrow> \<not> decompressible (gf_int (le_val Rs_pack mod 2 ^ 255))"
proof -
  let ?y = "gf_int (le_val Rs_pack mod 2 ^ 255)"
  obtain q where q: "portable_sender_keygen_check temp0 temp1 s Rs_pack keys = Some q"
    using runsE [OF keygen_check_runs [OF assms]] by blast
  show ?thesis
  proof (rule runsE [OF ge_frombytes_vartime_rep [OF assms(4)]])
    fix d
    assume d: "ge_frombytes_vartime Rs_pack = Some d"
      "case d of Inl e \<Rightarrow> \<not> decompressible ?y
       | Inr P \<Rightarrow> decompressible ?y \<and> (\<exists>x. p3_rep P x ?y 1 \<and> on_curve x ?y \<and> (x = 0 \<or> Rep_gf x mod 2 = le_val Rs_pack div 2 ^ 255))"
    show ?thesis
    proof (cases d)
      case (Inl e)
      with d show ?thesis by (simp add: portable_sender_keygen_def portable_sender_keygen_check_def)
    next
      case (Inr P)
      with d(1) have "ge_frombytes_vartime Rs_pack = Some (Inr P)" by simp
      then have "fst q" using q by (rule keygen_check_True)
      moreover from Inr d(2) have "decompressible ?y" by simp
      ultimately show ?thesis by (cases q) (simp add: portable_sender_keygen_def q)
    qed
  qed
qed

subsection \<open>A concrete state\<close>

definition zero_block :: "byte list" where
  "zero_block = replicate 136 0"

definition zero_sender :: ot_sender where
  "zero_sender = \<lparr>sender_S_pack = neutral_bytes, sender_y = replicate 32 3, sender_yS = ge_p3_0\<rparr>"

definition zero_receiver :: ot_receiver where
  "zero_receiver = \<lparr>receiver_S_pack = neutral_bytes, receiver_S = ge_p3_0, receiver_xB = ge_p3_0, receiver_x = replicate 32 3\<rparr>"

lemma ge_p3_0_ok: "p3_ok ge_p3_0"
  using ge_p3_0_rep by (simp add: p3_rep_def)

lemma zero_block_length [simp]: "length zero_block = 136"
  by (simp add: zero_block_def)

lemma zero_states: "sender_inv zero_sender" "receiver_ready zero_receiver" "receiver_inv zero_receiver"
  by (simp_all add: zero_sender_def zero_receiver_def sender_inv_def receiver_ready_def receiver_inv_def
      neutral_bytes_val ge_p3_0_ok)

end
