(* ===== verification/SegmentTree.thy ===== *)
theory SegmentTree
  imports Prelude
begin

text \<open>
  \<^verbatim>\<open>utils/segment_tree.h\<close>, at \<^verbatim>\<open>T = size_t\<close>: a set of 64-bit numbers kept as maximal half-open
  segments.  The \<^verbatim>\<open>std::map\<close> is the list of its pairs in key order; an iterator into it is a
  position of that list, written as the pairs before it, the pair it points to and the pairs
  after it.  The theorems: the segments stay sorted, nonempty and separated by gaps, and
  \<^verbatim>\<open>Insert\<close>, \<^verbatim>\<open>Contains\<close> and \<^verbatim>\<open>Count\<close> implement a finite set (the interface \<open>id_set\<close>), for
  all numbers but the largest, whose successor wraps to 0.
\<close>

type_synonym segment = "64 word \<times> 64 word"

record segment_tree =
  segments :: "segment list"
  tree_count :: "64 word"

definition empty_tree :: segment_tree where
  "empty_tree = \<lparr>segments = [], tree_count = 0\<rparr>"

subsection \<open>Operations\<close>

text \<open>The merging of the current segment with its two neighbours.\<close>

definition merge_prev :: "segment list \<Rightarrow> segment \<Rightarrow> segment list \<times> segment" where
  "merge_prev left current =
     (if left \<noteq> [] \<and> snd (last left) = fst current
      then (butlast left, (fst (last left), snd current)) else (left, current))"

definition merge_next :: "segment \<Rightarrow> segment list \<Rightarrow> segment \<times> segment list" where
  "merge_next current right =
     (if right \<noteq> [] \<and> fst (hd right) = snd current
      then ((fst current, snd (hd right)), tl right) else (current, right))"

text \<open>
  Where the new number goes: \<open>None\<close> if it is in the segment that starts at or before it.  (A
  \<^verbatim>\<open>map::insert\<close> of a key that exists keeps the old pair; only the wrapped segment of the largest
  number can meet it.)
\<close>

definition place :: "segment list \<Rightarrow> 64 word \<Rightarrow> (segment list \<times> segment) option" where
  "place before item =
     (if before = [] then Some ([], (item, item + 1))
      else let (a, b) = last before
           in if item > b then
                if a = item then Some (butlast before, (a, b)) else Some (before, (item, item + 1))
              else if item = b then Some (butlast before, (a, item + 1))
              else None)"

definition Insert :: "segment_tree \<Rightarrow> 64 word \<Rightarrow> bool \<times> segment_tree" where
  "Insert t item =
     (if segments t = [] then
        (True, t\<lparr>segments := [(item, item + 1)], tree_count := tree_count t + 1\<rparr>)
      else
        let before = takeWhile (\<lambda>p. fst p \<le> item) (segments t);
            right = dropWhile (\<lambda>p. fst p \<le> item) (segments t)
        in case place before item of
             None \<Rightarrow> (False, t)
           | Some (left, current) \<Rightarrow>
               let (left, current) = merge_prev left current;
                   (current, right) = merge_next current right
               in (True, t\<lparr>segments := left @ current # right, tree_count := tree_count t + 1\<rparr>))"

definition Contains :: "segment_tree \<Rightarrow> 64 word \<Rightarrow> bool" where
  "Contains t item =
     (if segments t = [] then False
      else let before = takeWhile (\<lambda>p. fst p \<le> item) (segments t)
           in if before = [] \<or> item \<ge> snd (last before) then False else True)"

definition SegmentsCount :: "segment_tree \<Rightarrow> nat" where
  "SegmentsCount t = length (segments t)"

definition Count :: "segment_tree \<Rightarrow> 64 word" where
  "Count t = tree_count t"

definition GetSegments :: "segment_tree \<Rightarrow> segment list" where
  "GetSegments t = map (\<lambda>p. (fst p, snd p)) (segments t)"

subsection \<open>Invariant and abstraction\<close>

text \<open>Nonempty segments, each ending strictly before the next begins.\<close>

fun seg_ok :: "segment list \<Rightarrow> bool" where
  "seg_ok [] \<longleftrightarrow> True"
| "seg_ok [(a, b)] \<longleftrightarrow> a < b"
| "seg_ok ((a, b) # (c, d) # s) \<longleftrightarrow> a < b \<and> b < c \<and> seg_ok ((c, d) # s)"

definition seg_set :: "segment list \<Rightarrow> 64 word set" where
  "seg_set s = (\<Union>(a, b) \<in> set s. {a ..< b})"

definition tree_set :: "segment_tree \<Rightarrow> 64 word set" where
  "tree_set t = seg_set (segments t)"

definition tree_inv :: "segment_tree \<Rightarrow> bool" where
  "tree_inv t \<longleftrightarrow> seg_ok (segments t) \<and> unat (tree_count t) = card (tree_set t)"

lemma seg_set_simps [simp]:
  "seg_set [] = {}" "seg_set ((a, b) # s) = {a ..< b} \<union> seg_set s"
  "seg_set (s @ s') = seg_set s \<union> seg_set s'"
  by (auto simp: seg_set_def)

lemma seg_ok_Cons: "seg_ok ((a, b) # s) \<longleftrightarrow> a < b \<and> (s = [] \<or> b < fst (hd s)) \<and> seg_ok s"
  by (cases s) auto

lemma seg_ok_append:
  "seg_ok (s @ s') \<longleftrightarrow> seg_ok s \<and> seg_ok s' \<and> (s = [] \<or> s' = [] \<or> snd (last s) < fst (hd s'))"
proof (induction s)
  case (Cons p s)
  then show ?case by (cases p; cases s; cases s') (auto simp: seg_ok_Cons)
qed simp

lemma seg_span:
  "seg_ok s \<Longrightarrow> s \<noteq> [] \<Longrightarrow> fst (hd s) < snd (last s) \<and> seg_set s \<subseteq> {fst (hd s) ..< snd (last s)}"
proof (induction s)
  case (Cons p s)
  then show ?case by (cases p; cases "s = []") (fastforce simp: seg_ok_Cons)+
qed simp

lemma uint_Suc: "x \<noteq> - 1 \<Longrightarrow> uint (x + 1) = uint x + 1" for x :: "64 word"
proof -
  assume "x \<noteq> - 1"
  then have "uint x \<noteq> uint (- 1 :: 64 word)" by (simp only: word_uint_eq_iff not_False_eq_True)
  moreover have "uint (- 1 :: 64 word) = 2 ^ 64 - 1" by (simp add: unsigned_minus_1_eq_mask mask_eq_exp_minus_1)
  moreover have "0 \<le> uint x" "uint x < 2 ^ 64" using uint_lt2p [of x] by simp_all
  ultimately show ?thesis by (simp add: uint_word_ariths mod_pos_pos_trivial)
qed

lemma less_Suc_word: "y \<noteq> - 1 \<Longrightarrow> x < y + 1 \<longleftrightarrow> x \<le> y" for x y :: "64 word"
  by (simp add: word_less_def word_le_def uint_Suc)

lemma not_max_less [simp]: "x \<noteq> - 1 \<Longrightarrow> x < x + 1" for x :: "64 word"
  by (simp add: less_Suc_word)

lemma Suc_le_word: "x < y \<Longrightarrow> x + 1 \<le> y" for x y :: "64 word"
  by (rule inc_le)

lemma split_word: "{a ..< b} \<union> {b} = {a ..< b + 1}" if "a \<le> b" "b \<noteq> - 1" for a b :: "64 word"
  using that by (auto simp: less_Suc_word)

subsection \<open>Lookup\<close>

lemma before_after:
  fixes item :: "64 word"
  assumes "seg_ok s"
  defines "before \<equiv> takeWhile (\<lambda>p. fst p \<le> item) s" and "right \<equiv> dropWhile (\<lambda>p. fst p \<le> item) s"
  shows "s = before @ right" and "seg_ok before" and "seg_ok right"
    and "before \<noteq> [] \<Longrightarrow> fst (last before) \<le> item" and "right \<noteq> [] \<Longrightarrow> item < fst (hd right)"
    and "before \<noteq> [] \<Longrightarrow> right \<noteq> [] \<Longrightarrow> snd (last before) < fst (hd right)"
proof -
  show s: "s = before @ right" by (simp add: before_def right_def)
  then show "seg_ok before" "seg_ok right"
    "before \<noteq> [] \<Longrightarrow> right \<noteq> [] \<Longrightarrow> snd (last before) < fst (hd right)"
    using assms(1) seg_ok_append [of before right] by auto
  show "before \<noteq> [] \<Longrightarrow> fst (last before) \<le> item"
    unfolding before_def by (metis last_in_set set_takeWhileD)
  show "right \<noteq> [] \<Longrightarrow> item < fst (hd right)"
    unfolding right_def by (metis hd_dropWhile linorder_not_le)
qed

lemma right_misses: "seg_ok s \<Longrightarrow> s \<noteq> [] \<Longrightarrow> x < fst (hd s) \<Longrightarrow> x \<notin> seg_set s"
  using seg_span [of s] by fastforce

lemma Contains_spec: "tree_inv t \<Longrightarrow> Contains t item \<longleftrightarrow> item \<in> tree_set t"
proof -
  assume "tree_inv t"
  then have ok: "seg_ok (segments t)" by (simp add: tree_inv_def)
  define before right where "before = takeWhile (\<lambda>p. fst p \<le> item) (segments t)"
    and "right = dropWhile (\<lambda>p. fst p \<le> item) (segments t)"
  note ba = before_after [OF ok, of item, folded before_def right_def]
  have r: "item \<notin> seg_set right" using ba(3,5) right_misses by (cases "right = []") auto
  have mem: "item \<in> tree_set t \<longleftrightarrow> item \<in> seg_set before"
    unfolding tree_set_def by (subst ba(1)) (simp add: r)
  show ?thesis
  proof (cases "before = []")
    case True
    then show ?thesis unfolding mem Contains_def Let_def before_def [symmetric] by simp
  next
    case False
    then obtain pre a b where b: "before = pre @ [(a, b)]" by (metis append_butlast_last_id surj_pair)
    then have "a \<le> item" using ba(4) by simp
    have "item \<notin> seg_set pre"
    proof (cases "pre = []")
      case pne: False
      then have "snd (last pre) < a" "seg_ok pre" using ba(2) by (auto simp: b seg_ok_append)
      with seg_span [of pre] pne \<open>a \<le> item\<close> show ?thesis by fastforce
    qed simp
    with \<open>a \<le> item\<close> have "item \<in> seg_set before \<longleftrightarrow> item < b" by (auto simp: b)
    moreover have "segments t \<noteq> []" using False by (auto simp: before_def)
    ultimately show ?thesis
      unfolding mem Contains_def Let_def before_def [symmetric] by (auto simp: b)
  qed
qed

subsection \<open>Insertion\<close>

lemma merge_spec:
  assumes "seg_ok left" and "seg_ok right" and "fst c < snd c"
    and "left \<noteq> [] \<Longrightarrow> snd (last left) \<le> fst c" and "right \<noteq> [] \<Longrightarrow> snd c \<le> fst (hd right)"
    and "merge_prev left c = (left', c')" and "merge_next c' right = (c'', right')"
  shows "seg_ok (left' @ c'' # right') \<and> seg_set (left' @ c'' # right') = seg_set left \<union> {fst c ..< snd c} \<union> seg_set right"
proof -
  have 1: "seg_ok (left' @ [c']) \<and> seg_set (left' @ [c']) = seg_set left \<union> {fst c ..< snd c} \<and> snd c' = snd c"
  proof (cases "left = []")
    case True
    with assms(3,6) show ?thesis by (cases c) (auto simp: merge_prev_def)
  next
    case False
    then obtain pre a b where l: "left = pre @ [(a, b)]" by (metis append_butlast_last_id surj_pair)
    obtain u v where c: "c = (u, v)" by (cases c)
    have "b \<le> u" "u < v" "a < b" using assms(1,3,4) by (simp_all add: l c seg_ok_append)
    note o = this
    show ?thesis
    proof (cases "b = u")
      case True
      with assms(6) have "left' = pre" "c' = (a, v)" by (auto simp: l c merge_prev_def)
      moreover have "{a ..< b} \<union> {u ..< v} = {a ..< v}" using o True by (simp add: ivl_disj_un)
      ultimately show ?thesis using assms(1) o by (simp add: l c seg_ok_append Un_assoc)
    next
      case False
      with assms(6) have "left' = left" "c' = c" by (auto simp: l c merge_prev_def)
      with assms(1) o False show ?thesis by (simp add: l c seg_ok_append Un_assoc)
    qed
  qed
  obtain u v where c': "c' = (u, v)" by (cases c')
  show ?thesis
  proof (cases right)
    case Nil
    with assms(7) 1 show ?thesis by (auto simp: merge_next_def)
  next
    case (Cons p r)
    obtain x y where p: "p = (x, y)" by (cases p)
    have "v \<le> x" "u < v" "x < y" using assms(2,5) 1 Cons by (auto simp: p c' seg_ok_append seg_ok_Cons)
    note o = this
    show ?thesis
    proof (cases "x = v")
      case True
      with assms(7) have "right' = r" "c'' = (u, y)" by (auto simp: Cons p c' merge_next_def)
      moreover have "{u ..< v} \<union> {x ..< y} = {u ..< y}" using o True by (simp add: ivl_disj_un)
      ultimately show ?thesis
        using assms(2) 1 o by (auto simp: Cons p c' seg_ok_append seg_ok_Cons Un_assoc)
    next
      case False
      with assms(7) have "right' = right" "c'' = c'" by (auto simp: Cons p c' merge_next_def)
      with assms(2) 1 o False show ?thesis
        by (auto simp: Cons p c' seg_ok_append seg_ok_Cons)
    qed
  qed
qed


text \<open>What the placed segment adds, and that it leaves room for merging.\<close>

lemma place_spec:
  assumes ok: "seg_ok (before @ right)" and item: "item \<noteq> - 1"
    and b: "before \<noteq> [] \<Longrightarrow> fst (last before) \<le> item" and r: "right \<noteq> [] \<Longrightarrow> item < fst (hd right)"
  shows "case place before item of
      None \<Rightarrow> item \<in> seg_set before
    | Some (left, c) \<Rightarrow> item \<notin> seg_set (before @ right) \<and> seg_ok left \<and> fst c < snd c
        \<and> (left \<noteq> [] \<longrightarrow> snd (last left) \<le> fst c) \<and> (right \<noteq> [] \<longrightarrow> snd c \<le> fst (hd right))
        \<and> seg_set left \<union> {fst c ..< snd c} = insert item (seg_set before)"
proof -
  have okb: "seg_ok before" "seg_ok right" using ok by (simp_all add: seg_ok_append)
  have nr: "item \<notin> seg_set right" using right_misses [OF okb(2)] r by (cases "right = []") auto
  have sr: "right \<noteq> [] \<Longrightarrow> item + 1 \<le> fst (hd right)" using r by (simp add: Suc_le_word)
  have one: "{item ..< item + 1} = {item}" using item by (auto simp: less_Suc_word)
  show ?thesis
  proof (cases "before = []")
    case True
    with nr sr item one show ?thesis by (simp add: place_def)
  next
    case False
    then obtain pre x y where p: "before = pre @ [(x, y)]" by (metis append_butlast_last_id surj_pair)
    have o: "x \<le> item" "x < y" "seg_ok pre" "pre \<noteq> [] \<longrightarrow> snd (last pre) < x"
      using b okb(1) by (simp_all add: p seg_ok_append disj_imp)
    have np: "item \<notin> seg_set pre"
    proof (cases "pre = []")
      case False
      with seg_span [OF o(3)] o(4) have "seg_set pre \<subseteq> {..< x}" by force
      with o(1) show ?thesis by force
    qed simp
    consider "y < item" | "item = y" | "item < y" by (rule linorder_cases)
    then show ?thesis
    proof cases
      case 1
      then have "place before item = Some (before, (item, item + 1))" using o(2) by (simp add: place_def p)
      moreover have "\<not> item < y" "y \<le> item" using 1 by simp_all
      ultimately show ?thesis using np nr sr item one okb by (simp add: p)
    next
      case 2
      have "{x ..< y} \<union> {y} = {x ..< y + 1}" by (rule split_word) (use o(2) 2 item in auto)
      then have "seg_set pre \<union> {x ..< item + 1} = insert item (seg_set before)" by (simp add: p 2 flip: \<open>_ = {x ..< y + 1}\<close>)
      moreover have "x < item + 1" using item o(1) by (simp add: less_Suc_word)
      moreover have "place before item = Some (pre, (x, item + 1))" using 2 by (simp add: place_def p)
      moreover have "snd (last pre) \<le> x" if "pre \<noteq> []" using that o(4) by simp
      ultimately show ?thesis using 2 np nr sr o(3) by (simp add: p)
    next
      case 3
      then have "place before item = None" by (auto simp: place_def p)
      with 3 o show ?thesis by (simp add: p)
    qed
  qed
qed

lemma seg_ok_no_max: "- 1 \<notin> seg_set s"
  by (auto simp: seg_set_def word_order.extremum_strict)

lemma card_less: "- 1 \<notin> S \<Longrightarrow> card S < 2 ^ 64" for S :: "64 word set"
proof -
  assume "- 1 \<notin> S"
  then have "S \<subset> UNIV" by auto
  then have "card S < card (UNIV :: 64 word set)" by (rule psubset_card_mono [OF finite])
  also have "\<dots> = 2 ^ 64" by (simp add: card_word)
  finally show ?thesis .
qed

lemma Insert_spec:
  assumes inv: "tree_inv t" and item: "item \<noteq> - 1" and ins: "Insert t item = (fresh, t')"
  shows "tree_inv t'" and "tree_set t' = insert item (tree_set t)" and "fresh \<longleftrightarrow> item \<notin> tree_set t"
proof -
  have ok: "seg_ok (segments t)" using inv by (simp add: tree_inv_def)
  have main: "seg_ok (segments t') \<and> tree_set t' = insert item (tree_set t) \<and> (fresh \<longleftrightarrow> item \<notin> tree_set t)
    \<and> tree_count t' = (if fresh then tree_count t + 1 else tree_count t)"
  proof (cases "segments t = []")
    case True
    with ins item show ?thesis by (auto simp: Insert_def tree_set_def less_Suc_word)
  next
    case False
    define before right where "before = takeWhile (\<lambda>p. fst p \<le> item) (segments t)"
      and "right = dropWhile (\<lambda>p. fst p \<le> item) (segments t)"
    note ba = before_after [OF ok, of item, folded before_def right_def]
    note step = ins [unfolded Insert_def Let_def, folded before_def right_def]
    have set: "tree_set t = seg_set before \<union> seg_set right" unfolding tree_set_def by (subst ba(1)) simp
    note pl = place_spec [OF _ item ba(4,5), unfolded ba(1) [symmetric], OF ok]
    show ?thesis
    proof (cases "place before item")
      case None
      with pl step False ok set show ?thesis by (auto simp: insert_absorb)
    next
      case (Some lc)
      obtain left c where lc: "lc = (left, c)" by (cases lc)
      obtain left' c' where m1: "merge_prev left c = (left', c')" by (cases "merge_prev left c")
      obtain c'' right' where m2: "merge_next c' right = (c'', right')" by (cases "merge_next c' right")
      have t': "fresh" "t' = t\<lparr>segments := left' @ c'' # right', tree_count := tree_count t + 1\<rparr>"
        using step False Some lc m1 m2 by auto
      from pl Some lc have pl': "item \<notin> seg_set (segments t)" "seg_ok left" "fst c < snd c"
        "left \<noteq> [] \<Longrightarrow> snd (last left) \<le> fst c" "right \<noteq> [] \<Longrightarrow> snd c \<le> fst (hd right)"
        "seg_set left \<union> {fst c ..< snd c} = insert item (seg_set before)" by auto
      from merge_spec [OF pl'(2) ba(3) pl'(3,4,5) m1 m2] pl'(1,6) t' set show ?thesis
        by (simp add: tree_set_def)
    qed
  qed
  then show "tree_set t' = insert item (tree_set t)" "fresh \<longleftrightarrow> item \<notin> tree_set t" by simp_all
  show "tree_inv t'"
  proof (cases fresh)
    case True
    with main have "card (tree_set t') = Suc (card (tree_set t))" by simp
    moreover have "card (tree_set t') < 2 ^ 64"
      using main seg_ok_no_max [of "segments t'"] by (intro card_less) (simp add: tree_set_def)
    ultimately show ?thesis
      using main inv True by (simp add: tree_inv_def unat_word_ariths)
  next
    case False
    with main inv show ?thesis by (simp add: tree_inv_def insert_absorb)
  qed
qed


lemma empty_tree_inv: "tree_inv empty_tree" "tree_set empty_tree = {}"
  by (simp_all add: tree_inv_def tree_set_def empty_tree_def)

lemma Count_spec: "tree_inv t \<Longrightarrow> unat (Count t) = card (tree_set t)"
  by (simp add: tree_inv_def Count_def)

text \<open>The successor of the largest number wraps, and the number is lost.\<close>

lemma Insert_max: "\<not> Contains (snd (Insert empty_tree (- 1))) (- 1)"
  by (simp add: Insert_def Contains_def empty_tree_def)

subsection \<open>Contiguous identifiers\<close>

lemma gap_in_segments:
  assumes "seg_ok s" and "1 < length s"
  shows "\<exists>g. fst (hd s) \<le> g \<and> g < snd (last s) \<and> g \<notin> seg_set s"
proof -
  obtain a b c d r where s: "s = (a, b) # (c, d) # r" using assms(2) by (cases s rule: seg_ok.cases) auto
  have o: "a < b" "b < c" and r: "seg_ok ((c, d) # r)" using assms(1) by (simp_all add: s)
  have "b \<notin> seg_set ((c, d) # r)" by (rule right_misses [OF r]) (simp_all add: o)
  moreover have "b < snd (last s)"
    using o(2) seg_span [OF r] less_trans by (auto simp: s)
  ultimately show ?thesis using o by (intro exI [of _ b]) (auto simp: s)
qed

text \<open>The test of the two waiting loops of the channel's shutdown.\<close>

definition all_from_one :: "segment_tree \<Rightarrow> 64 word \<Rightarrow> bool" where
  "all_from_one t n \<longleftrightarrow> \<not> (SegmentsCount t > 1 \<or> \<not> Contains t 1 \<or> \<not> Contains t n)"

lemma all_from_one_complete:
  assumes "tree_inv t" and "all_from_one t n"
  shows "{1 .. n} \<subseteq> tree_set t"
proof -
  have c: "1 \<in> tree_set t" "n \<in> tree_set t" "length (segments t) \<le> 1"
    using assms by (auto simp: all_from_one_def SegmentsCount_def Contains_spec)
  then obtain a b where "segments t = [(a, b)]"
    by (cases "segments t") (auto simp: tree_set_def)
  with c show ?thesis by (auto simp: tree_set_def intro: order_le_less_trans)
qed

lemma all_from_one_exact:
  assumes "tree_inv t" and "tree_set t = {1 .. n}" and "1 \<le> n"
  shows "all_from_one t n"
proof -
  have ok: "seg_ok (segments t)" using assms(1) by (simp add: tree_inv_def)
  have "\<not> 1 < length (segments t)"
  proof
    assume len: "1 < length (segments t)"
    then have ne: "segments t \<noteq> []" by auto
    from gap_in_segments [OF ok len] obtain g where
      g: "fst (hd (segments t)) \<le> g" "g < snd (last (segments t))" "g \<notin> tree_set t"
      by (auto simp: tree_set_def)
    have h: "fst (hd (segments t)) \<in> tree_set t"
      using ne ok by (cases "segments t") (auto simp: tree_set_def seg_ok_Cons)
    obtain a b pre where l: "segments t = pre @ [(a, b)]" using ne by (metis append_butlast_last_id surj_pair)
    then have ab: "a < b" using ok by (simp add: seg_ok_append)
    have m: "x \<in> tree_set t" if "a \<le> x" "x < b" for x using that by (simp add: tree_set_def l)
    have "g < a" using g(2,3) m by (auto simp: l not_less [symmetric])
    with h g(1) m [of a] ab assms(2) have "g \<in> {1 .. n}" by auto
    with g(3) assms(2) show False by simp
  qed
  with assms show ?thesis by (simp add: all_from_one_def SegmentsCount_def Contains_spec)
qed

subsection \<open>The interface\<close>

text \<open>What the channel relies on: a set of identifiers whose insertion reports novelty.\<close>

locale id_set =
  fixes new :: 't
    and ins :: "'t \<Rightarrow> 'i \<Rightarrow> bool \<times> 't"
    and mem :: "'t \<Rightarrow> 'i \<Rightarrow> bool"
    and inv :: "'t \<Rightarrow> bool"
    and ids :: "'t \<Rightarrow> 'i set"
    and valid :: "'i \<Rightarrow> bool"
  assumes new_inv: "inv new" and new_ids: "ids new = {}"
    and ins_inv: "inv t \<Longrightarrow> valid i \<Longrightarrow> inv (snd (ins t i))"
    and ins_ids: "inv t \<Longrightarrow> valid i \<Longrightarrow> ids (snd (ins t i)) = insert i (ids t)"
    and ins_fresh: "inv t \<Longrightarrow> valid i \<Longrightarrow> fst (ins t i) \<longleftrightarrow> i \<notin> ids t"
    and mem_ids: "inv t \<Longrightarrow> mem t i \<longleftrightarrow> i \<in> ids t"
begin

lemma ins_twice: "inv t \<Longrightarrow> valid i \<Longrightarrow> \<not> fst (ins (snd (ins t i)) i)"
  by (simp add: ins_fresh ins_ids ins_inv)

lemma mem_ins: "inv t \<Longrightarrow> valid i \<Longrightarrow> mem (snd (ins t i)) j \<longleftrightarrow> j = i \<or> mem t j"
  by (simp add: mem_ids ins_ids ins_inv)

text \<open>Inserting a sequence: the identifiers are collected, each is reported new once.\<close>

lemma ins_all:
  assumes "inv t" and "\<forall>i \<in> set is. valid i"
  shows "inv (fold (\<lambda>i t. snd (ins t i)) is t) \<and> ids (fold (\<lambda>i t. snd (ins t i)) is t) = ids t \<union> set is"
  using assms by (induction "is" arbitrary: t) (auto simp: ins_inv ins_ids)

end

interpretation st: id_set empty_tree Insert Contains tree_inv tree_set "\<lambda>i. i \<noteq> - 1"
proof unfold_locales
  fix t and i :: "64 word"
  assume t: "tree_inv t" and i: "i \<noteq> - 1"
  show "tree_inv (snd (Insert t i))" "tree_set (snd (Insert t i)) = insert i (tree_set t)"
    "fst (Insert t i) \<longleftrightarrow> i \<notin> tree_set t"
    using Insert_spec [OF t i, of "fst (Insert t i)" "snd (Insert t i)"] by simp_all
qed (simp_all add: empty_tree_inv Contains_spec)

end
