(* ===== verification/Strings.thy ===== *)
theory Strings
  imports Prelude
begin

text \<open>
  \<^verbatim>\<open>utils/strings.cc\<close>: hexadecimal coding, splitting and joining, and number parsing.  A
  \<^verbatim>\<open>std::string\<close> is a \<open>string\<close>, a list of 8-bit characters.  \<^verbatim>\<open>std::from_chars\<close> is modelled for
  unsigned types: it reads the longest prefix of digits of the base, and fails when that prefix
  is empty or its value does not fit.  The theorems: decoding inverts encoding and accepts
  exactly the even-length digit strings, joining inverts splitting, and parsing inverts
  \<^verbatim>\<open>std::to_string\<close>.
\<close>

unbundle bit_operations_syntax

abbreviation byte_char :: "byte \<Rightarrow> char" where
  "byte_char b \<equiv> char_of (unat b)"

abbreviation char_byte :: "char \<Rightarrow> byte" where
  "char_byte c \<equiv> word_of_nat (of_char c)"

subsection \<open>The standard library's number conversions\<close>

text \<open>The value of a digit of base 10 or 16, either case.\<close>

definition digit_value :: "nat \<Rightarrow> char \<Rightarrow> nat option" where
  "digit_value base c =
     (let n = of_char c :: nat;
          v = if 48 \<le> n \<and> n \<le> 57 then n - 48
              else if 97 \<le> n \<and> n \<le> 122 then n - 87
              else if 65 \<le> n \<and> n \<le> 90 then n - 55
              else base
      in if v < base then Some v else None)"

fun read_digits :: "nat \<Rightarrow> nat \<Rightarrow> string \<Rightarrow> nat \<times> string" where
  "read_digits base acc [] = (acc, [])"
| "read_digits base acc (c # cs) =
     (case digit_value base c of
        None \<Rightarrow> (acc, c # cs)
      | Some v \<Rightarrow> read_digits base (acc * base + v) cs)"

text \<open>\<open>from_chars w base sv\<close>: the \<open>w\<close>-bit value read and the rest of the input.\<close>

definition from_chars :: "nat \<Rightarrow> nat \<Rightarrow> string \<Rightarrow> (nat \<times> string) option" where
  "from_chars w base sv =
     (let (v, rest) = read_digits base 0 sv
      in if rest = sv \<or> v \<ge> 2 ^ w then None else Some (v, rest))"

fun to_string :: "nat \<Rightarrow> string" where
  "to_string n = (if n < 10 then [char_of (48 + n)] else to_string (n div 10) @ [char_of (48 + n mod 10)])"

declare to_string.simps [simp del]

subsection \<open>Operations\<close>

definition kHexChars :: string where
  "kHexChars = ''0123456789abcdef''"

fun BytesToHexString :: "string \<Rightarrow> string" where
  "BytesToHexString [] = []"
| "BytesToHexString (b # bytes) =
     (let c = char_byte b
      in kHexChars ! unat (drop_bit 4 c) # kHexChars ! unat (c AND 0xf) # BytesToHexString bytes)"

text \<open>The loop, two characters at a time; it stops at the first pair that is not a byte.\<close>

fun hex_loop :: "string \<Rightarrow> string \<Rightarrow> bool \<times> string" where
  "hex_loop out (h # l # hex) =
     (case from_chars 8 16 [h, l] of
        Some (byte, []) \<Rightarrow> hex_loop (out @ [char_of byte]) hex
      | _ \<Rightarrow> (False, out))"
| "hex_loop out _ = (True, out)"

definition HexStringToBytes :: "string \<Rightarrow> string \<Rightarrow> bool \<times> string" where
  "HexStringToBytes hex out = (if length hex mod 2 \<noteq> 0 then (False, out) else hex_loop [] hex)"

text \<open>\<^verbatim>\<open>StrSplit\<close> with a character: \<open>part\<close> is \<^verbatim>\<open>sv[start..i)\<close>.\<close>

fun split_loop :: "string \<Rightarrow> char \<Rightarrow> string \<Rightarrow> string list" where
  "split_loop part delim [] = [part]"
| "split_loop part delim (c # sv) =
     (if c = delim then part # split_loop [] delim sv else split_loop (part @ [c]) delim sv)"

definition StrSplit :: "string \<Rightarrow> char \<Rightarrow> string list" where
  "StrSplit sv delim = split_loop [] delim sv"

text \<open>\<^verbatim>\<open>string_view::find\<close>: the text before and after the first occurrence.\<close>

fun find_str :: "string \<Rightarrow> string \<Rightarrow> (string \<times> string) option" where
  "find_str sep sv =
     (if take (length sep) sv = sep then Some ([], drop (length sep) sv)
      else case sv of [] \<Rightarrow> None
        | c # cs \<Rightarrow> map_option (\<lambda>(p, q). (c # p, q)) (find_str sep cs))"

declare find_str.simps [simp del]

lemma find_str_Some: "find_str sep sv = Some (p, q) \<Longrightarrow> sv = p @ sep @ q"
proof (induction sv arbitrary: p)
  case (Cons c sv)
  then show ?case
    by (subst (asm) find_str.simps) (auto split: if_splits, metis append_take_drop_id)
qed (subst (asm) find_str.simps, auto split: if_splits)

text \<open>\<^verbatim>\<open>StrSplit\<close> with a separator string.\<close>

function split_sep :: "string \<Rightarrow> string \<Rightarrow> string list" where
  "split_sep sv sep =
     (if sep = [] then [sv]
      else case find_str sep sv of None \<Rightarrow> [sv] | Some (p, rest) \<Rightarrow> p # split_sep rest sep)"
  by auto
termination
  by (relation "measure (\<lambda>(sv, sep). length sv)") (auto dest: find_str_Some)

declare split_sep.simps [simp del]

fun join_from :: "string \<Rightarrow> string list \<Rightarrow> string" where
  "join_from sep [] = []"
| "join_from sep (p # ps) = sep @ p @ join_from sep ps"

definition StrJoin :: "string list \<Rightarrow> string \<Rightarrow> string" where
  "StrJoin parts sep = (case parts of [] \<Rightarrow> [] | p # ps \<Rightarrow> p @ join_from sep ps)"

definition SimpleAtoi :: "nat \<Rightarrow> string \<Rightarrow> nat option" where
  "SimpleAtoi w sv = (case from_chars w 10 sv of Some (v, []) \<Rightarrow> Some v | _ \<Rightarrow> None)"

definition SimpleHexAtoi :: "string \<Rightarrow> nat option" where
  "SimpleHexAtoi sv = (case from_chars 64 16 sv of Some (v, []) \<Rightarrow> Some v | _ \<Rightarrow> None)"

definition AsciiIsWhitespace :: "char \<Rightarrow> bool" where
  "AsciiIsWhitespace c = (of_char c \<in> {32, 9, 10, 13, 12, 11 :: nat})"

definition StripAsciiWhitespace :: "string \<Rightarrow> string" where
  "StripAsciiWhitespace sv = rev (dropWhile AsciiIsWhitespace (rev (dropWhile AsciiIsWhitespace sv)))"

definition AsciiToLower :: "char \<Rightarrow> char" where
  "AsciiToLower c = (let n = of_char c :: nat in if 65 \<le> n \<and> n \<le> 90 then char_of (n - 65 + 97) else c)"

definition AsciiToUpper :: "char \<Rightarrow> char" where
  "AsciiToUpper c = (let n = of_char c :: nat in if 97 \<le> n \<and> n \<le> 122 then char_of (n - 97 + 65) else c)"

definition AsciiStrToLower :: "string \<Rightarrow> string" where
  "AsciiStrToLower s = map AsciiToLower s"

definition AsciiStrToUpper :: "string \<Rightarrow> string" where
  "AsciiStrToUpper s = map AsciiToUpper s"

subsection \<open>Numbers\<close>

lemma digit_char: "n < 10 \<Longrightarrow> digit_value 10 (char_of (48 + n)) = Some n"
  by (simp add: digit_value_def Let_def of_char_of)

lemma read_digits_append:
  "list_all (\<lambda>c. digit_value base c \<noteq> None) xs \<Longrightarrow>
   read_digits base acc (xs @ ys) = read_digits base (fst (read_digits base acc xs)) ys"
  by (induction xs arbitrary: acc) (auto split: option.splits)

lemma to_string_digits: "list_all (\<lambda>c. digit_value 10 c \<noteq> None) (to_string n)"
  by (induction n rule: to_string.induct) (subst to_string.simps, simp add: digit_char)

lemma read_to_string: "read_digits 10 0 (to_string n) = (n, [])"
proof (induction n rule: to_string.induct)
  case (1 n)
  show ?case
  proof (cases "n < 10")
    case True
    then show ?thesis by (subst to_string.simps) (simp add: digit_char)
  next
    case False
    have "read_digits 10 0 (to_string n)
        = read_digits 10 0 (to_string (n div 10) @ [char_of (48 + n mod 10)])"
      using False by (subst to_string.simps) simp
    also have "\<dots> = read_digits 10 (n div 10) [char_of (48 + n mod 10)]"
      by (subst read_digits_append [OF to_string_digits]) (simp add: 1 [OF False])
    finally show ?thesis by (simp add: digit_char)
  qed
qed

lemma to_string_not_Nil [simp]: "to_string n \<noteq> []"
  by (subst to_string.simps) simp

lemma SimpleAtoi_to_string: "n < 2 ^ w \<Longrightarrow> SimpleAtoi w (to_string n) = Some n"
  by (simp add: SimpleAtoi_def from_chars_def read_to_string to_string_not_Nil [symmetric])

lemma read_digits_less: "rest = snd (read_digits base acc sv) \<Longrightarrow> length rest \<le> length sv"
  by (induction sv arbitrary: acc) (auto split: option.splits intro: le_SucI)

text \<open>Only digits parse, and the result fits.\<close>

lemma read_all_digits: "snd (read_digits base acc sv) = [] \<longleftrightarrow> list_all (\<lambda>c. digit_value base c \<noteq> None) sv"
  by (induction sv arbitrary: acc) (auto split: option.splits)

lemma SimpleAtoi_Some:
  "SimpleAtoi w sv = Some v \<Longrightarrow> v < 2 ^ w \<and> sv \<noteq> [] \<and> list_all (\<lambda>c. digit_value 10 c \<noteq> None) sv"
  using read_all_digits [of 10 0 sv]
  by (auto simp: SimpleAtoi_def from_chars_def split: prod.splits option.splits list.splits if_splits)

subsection \<open>Hexadecimal\<close>

lemma digit_value_less: "digit_value base c = Some v \<Longrightarrow> v < base"
  by (auto simp: digit_value_def Let_def split: if_splits)

lemma from_chars_hex_pair:
  assumes "digit_value 16 h = Some v" and "digit_value 16 l = Some w"
  shows "from_chars 8 16 [h, l] = Some (v * 16 + w, [])"
proof -
  have "v < 16" "w < 16" using assms digit_value_less by blast+
  then have "v * 16 + w < 256" by presburger
  with assms show ?thesis by (simp add: from_chars_def)
qed

lemma hex_digit: "n < 16 \<Longrightarrow> digit_value 16 (kHexChars ! n) = Some n"
proof -
  have "list_all (\<lambda>n. digit_value 16 (kHexChars ! n) = Some n) [0 ..< 16]" by code_simp
  then show "n < 16 \<Longrightarrow> digit_value 16 (kHexChars ! n) = Some n" by (simp add: list_all_iff)
qed

lemma hex_pair:
  "from_chars 8 16 [kHexChars ! unat (drop_bit 4 c), kHexChars ! unat (c AND 0xf)] = Some (unat c, [])" for c :: byte
proof -
  have hi: "unat (drop_bit 4 c) = unat c div 16" by (simp add: drop_bit_eq_div unat_div_distrib)
  have "c AND 0xf = take_bit 4 c" by (simp add: take_bit_eq_mask mask_eq_exp_minus_1)
  then have lo: "unat (c AND 0xf) = unat c mod 16" by (simp add: unat_mod_distrib take_bit_eq_mod)
  have "unat c < 256" using unsigned_less [of c] by simp
  then have "unat c div 16 < 16" by simp
  then show ?thesis
    unfolding hi lo by (subst from_chars_hex_pair [OF hex_digit hex_digit]) simp_all
qed

lemma hex_loop_encoded: "hex_loop out (BytesToHexString s) = (True, out @ s)"
proof (induction s arbitrary: out)
  case (Cons b s)
  have "unat (char_byte b) = of_char b" by (simp add: unat_of_nat)
  then show ?case using Cons by (simp add: Let_def hex_pair)
qed simp

lemma BytesToHexString_length: "length (BytesToHexString s) = 2 * length s"
  by (induction s) (simp_all add: Let_def)

lemma hex_round_trip: "HexStringToBytes (BytesToHexString s) out = (True, s)"
  by (simp add: HexStringToBytes_def BytesToHexString_length hex_loop_encoded)

definition is_hex :: "char \<Rightarrow> bool" where
  "is_hex c \<longleftrightarrow> digit_value 16 c \<noteq> None"

lemma from_chars_pair:
  "(\<exists>v. from_chars 8 16 [h, l] = Some (v, [])) \<longleftrightarrow> is_hex h \<and> is_hex l"
  by (cases "digit_value 16 h"; cases "digit_value 16 l")
    (auto simp: is_hex_def from_chars_hex_pair, auto simp: from_chars_def split: if_splits)

lemma hex_loop_accepts: "even (length hex) \<Longrightarrow> fst (hex_loop out hex) \<longleftrightarrow> list_all is_hex hex"
proof (induction out hex rule: hex_loop.induct)
  case (1 out h l hex)
  show ?case
  proof (cases "\<exists>v. from_chars 8 16 [h, l] = Some (v, [])")
    case True
    with 1 from_chars_pair [of h l] show ?thesis by auto
  next
    case False
    then have "\<not> fst (hex_loop out (h # l # hex))" by (auto split: option.splits list.splits)
    with False from_chars_pair [of h l] show ?thesis by auto
  qed
qed auto

subsection \<open>Splitting and joining\<close>

lemma split_loop_not_Nil [simp]: "split_loop part delim sv \<noteq> []"
  by (induction sv arbitrary: part) auto

lemma join_split_loop: "StrJoin (split_loop part delim sv) [delim] = part @ sv"
proof (induction sv arbitrary: part)
  case (Cons c sv)
  have "join_from [delim] (split_loop [] delim sv) = delim # sv"
    using Cons.IH [of "[]"] by (cases "split_loop [] delim sv") (simp_all add: StrJoin_def)
  with Cons show ?case by (simp add: StrJoin_def)
qed (simp add: StrJoin_def)

lemma join_split: "StrJoin (StrSplit sv delim) [delim] = sv"
  by (simp add: StrSplit_def join_split_loop)

lemma split_part: "delim \<notin> set p \<Longrightarrow> split_loop part delim (p @ sv) = split_loop (part @ p) delim sv"
  by (induction p arbitrary: part) auto

lemma split_join_from:
  "\<forall>p \<in> set (q # ps). delim \<notin> set p \<Longrightarrow> split_loop part delim (q @ join_from [delim] ps) = (part @ q) # ps"
proof (induction ps arbitrary: part q)
  case Nil
  then show ?case using split_part [of delim q part "[]"] by simp
next
  case (Cons p ps)
  then show ?case using Cons.IH [of p "[]"] by (simp add: split_part)
qed

lemma split_join:
  "parts \<noteq> [] \<Longrightarrow> \<forall>p \<in> set parts. delim \<notin> set p \<Longrightarrow> StrSplit (StrJoin parts [delim]) delim = parts"
  by (cases parts) (simp_all add: StrSplit_def StrJoin_def split_join_from)

lemma split_sep_not_Nil [simp]: "split_sep sv sep \<noteq> []"
  by (subst split_sep.simps) (auto split: option.splits)

lemma join_split_sep: "StrJoin (split_sep sv sep) sep = sv"
proof (induction sv sep rule: split_sep.induct)
  case (1 sv sep)
  show ?case
  proof (cases "sep = [] \<or> find_str sep sv = None")
    case True
    then show ?thesis by (subst split_sep.simps) (auto simp: StrJoin_def)
  next
    case False
    then obtain p rest where f: "sep \<noteq> []" "find_str sep sv = Some (p, rest)" by auto
    have "StrJoin (p # split_sep rest sep) sep = p @ sep @ StrJoin (split_sep rest sep) sep"
      by (cases "split_sep rest sep") (simp_all add: StrJoin_def)
    with f 1 [OF f] find_str_Some [OF f(2)] show ?thesis by (subst split_sep.simps) simp
  qed
qed

end
