(* ===== verification/Channel.thy ===== *)
theory Channel
  imports SegmentTree Strings
begin

text \<open>
  The point-to-point channel of \<^verbatim>\<open>link/transport/channel.cc\<close>.

  \<^item> The members of \<^verbatim>\<open>Channel\<close>, of its \<^verbatim>\<open>SendTaskSynchronizer\<close> and of its \<^verbatim>\<open>MessageQueue\<close> are one record.
    A mutex-protected section is one function on it.  The detached threads that run a \<^verbatim>\<open>SendTask\<close> are
    the list \<open>tasks\<close> of messages they carry.
  \<^item> A function that may throw returns the error beside the state it leaves behind; a function that
    may block is split at its waiting loop, and the loop's test returns \<open>Blocks\<close>.  The timeouts that
    turn a long wait into an exception are not modelled.
  \<^item> The transport (\<^verbatim>\<open>TransportLink\<close>) is abstract in the source: what crosses it is a \<open>request\<close>, and its
    chunk size is an argument.
  \<^item> \<^verbatim>\<open>size_t\<close> is a 64-bit word.  A \<^verbatim>\<open>memcpy\<close> outside its target has the error value \<open>Out_of_bounds\<close>.
\<close>

datatype channel_error = Link_aborted | Enforce | Logic_error | Duplicate_key | Out_of_bounds

type_synonym 'a result = "channel_error + 'a"

datatype 'a outcome = Returns 'a | Throws channel_error | Blocks

subsection \<open>Message keys\<close>

definition kSeqKey :: string where
  "kSeqKey = [CHR 0x01, CHR 0x02]"

definition kAckKey :: string where
  "kAckKey = ''ACK'' @ kSeqKey"

definition kFinKey :: string where
  "kFinKey = ''FIN'' @ kSeqKey"

definition NormalMessageKeyEnforce :: "string \<Rightarrow> unit result" where
  "NormalMessageKeyEnforce k =
     (if k = [] then Inl Enforce
      else if find_str kSeqKey k \<noteq> None then Inl Enforce
      else Inr ())"

definition ViewToSizeT :: "string \<Rightarrow> 64 word result" where
  "ViewToSizeT v = (case SimpleAtoi 64 v of None \<Rightarrow> Inl Enforce | Some ret \<Rightarrow> Inr (word_of_nat ret))"

definition BuildChannelKey :: "string \<Rightarrow> 64 word \<Rightarrow> string" where
  "BuildChannelKey msg_key seq_id = msg_key @ kSeqKey @ to_string (unat seq_id)"

definition SplitChannelKey :: "string \<Rightarrow> (string \<times> 64 word) result" where
  "SplitChannelKey key =
     (case find_str kSeqKey key of
        None \<Rightarrow> Inr (key, 0)
      | Some (pre, rest) \<Rightarrow>
          (case ViewToSizeT rest of Inl e \<Rightarrow> Inl e | Inr seq_id \<Rightarrow> Inr (pre, seq_id)))"

subsection \<open>Chunked messages\<close>

record chunked_message =
  received :: "64 word set"
  bytes_written :: "64 word"
  message_buf :: string

text \<open>The constructor; \<^verbatim>\<open>Buffer\<close> refuses a length that is negative as \<^verbatim>\<open>int64_t\<close>.\<close>

definition new_chunked :: "64 word \<Rightarrow> chunked_message result" where
  "new_chunked message_length =
     (if unat message_length \<ge> 2 ^ 63 then Inl Enforce
      else Inr \<lparr>received = {}, bytes_written = 0, message_buf = replicate (unat message_length) (CHR 0x00)\<rparr>)"

definition memcpy :: "string \<Rightarrow> nat \<Rightarrow> string \<Rightarrow> string result" where
  "memcpy buf offset data =
     (if offset + length data \<le> length buf
      then Inr (take offset buf @ data @ drop (offset + length data) buf) else Inl Out_of_bounds)"

definition AddChunk :: "chunked_message \<Rightarrow> 64 word \<Rightarrow> string \<Rightarrow> chunked_message result" where
  "AddChunk cm offset data =
     (if offset \<in> received cm then Inr cm
      else case memcpy (message_buf cm) (unat offset) data of
          Inl e \<Rightarrow> Inl e
        | Inr buf \<Rightarrow>
            Inr (cm\<lparr>received := insert offset (received cm), message_buf := buf,
                    bytes_written := bytes_written cm + word_of_nat (length data)\<rparr>))"

definition IsFullyFilled :: "chunked_message \<Rightarrow> bool" where
  "IsFullyFilled cm \<longleftrightarrow> bytes_written cm = word_of_nat (length (message_buf cm))"

subsection \<open>Requests\<close>

datatype request =
    Mono string string
  | Chunked string string "64 word" "64 word"

definition chunk_at :: "string \<Rightarrow> string \<Rightarrow> 64 word \<Rightarrow> 64 word \<Rightarrow> request" where
  "chunk_at key value bytes_per_chunk chunk_idx =
     (let num_bytes = word_of_nat (length value);
          chunk_offset = chunk_idx * bytes_per_chunk
      in Chunked key
           (take (unat (min bytes_per_chunk (num_bytes - chunk_offset))) (drop (unat chunk_offset) value))
           chunk_offset num_bytes)"

definition SendChunked :: "64 word \<Rightarrow> string \<Rightarrow> string \<Rightarrow> request list" where
  "SendChunked bytes_per_chunk key value =
     (let num_bytes = word_of_nat (length value);
          num_chunks = (num_bytes + bytes_per_chunk - 1) div bytes_per_chunk
      in map (\<lambda>i. chunk_at key value bytes_per_chunk (word_of_nat i)) [0 ..< unat num_chunks])"

definition SendMono :: "string \<Rightarrow> string \<Rightarrow> request list" where
  "SendMono key value = [Mono key value]"

definition SendImpl :: "64 word \<Rightarrow> string \<Rightarrow> string \<Rightarrow> request list" where
  "SendImpl bytes_per_chunk key value =
     (if length value > unat bytes_per_chunk then SendChunked bytes_per_chunk key value
      else SendMono key value)"

subsection \<open>Sending with retries\<close>

record retry_options =
  max_retry :: "32 word"
  retry_interval_ms :: "32 word"
  retry_interval_incr_ms :: "32 word"
  max_retry_interval_ms :: "32 word"
  error_codes :: "32 word list"
  http_codes :: "32 word list"
  aggressive_retry :: bool

record link_error =
  error_code :: int
  http_code :: int

datatype send_result = Sent | Failed link_error | Aborted | In_progress

definition should_retry :: "retry_options \<Rightarrow> link_error \<Rightarrow> bool" where
  "should_retry opts e =
     (if aggressive_retry opts then True
      else if error_codes opts = [] \<or> word_of_int (error_code e) \<in> set (error_codes opts) then True
      else if http_code e \<noteq> 0 \<and> (http_codes opts = [] \<or> word_of_int (http_code e) \<in> set (http_codes opts)) then True
      else False)"

definition retry_wait :: "retry_options \<Rightarrow> 32 word \<Rightarrow> 32 word" where
  "retry_wait opts retry_count =
     min (retry_interval_ms opts + retry_count * retry_interval_incr_ms opts) (max_retry_interval_ms opts)"

text \<open>
  The loop over what happens at each turn: whether the channel is aborting, and what the link
  answers (\<open>None\<close> is success).  The result carries the number of requests made and the waits.
\<close>

fun SendRequestWithRetry ::
    "retry_options \<Rightarrow> 32 word \<Rightarrow> (bool \<times> link_error option) list \<Rightarrow> send_result \<times> nat \<times> 32 word list" where
  "SendRequestWithRetry opts retry_count [] = (In_progress, 0, [])"
| "SendRequestWithRetry opts retry_count ((aborting, answer) # turns) =
     (if aborting then (Aborted, 0, [])
      else case answer of
          None \<Rightarrow> (Sent, 1, [])
        | Some e \<Rightarrow>
            if \<not> should_retry opts e then (Failed e, 1, [])
            else if retry_count \<ge> max_retry opts then (Failed e, 1, [])
            else let (r, n, ws) = SendRequestWithRetry opts (retry_count + 1) turns
                 in (r, Suc n, retry_wait opts retry_count # ws))"

subsection \<open>The channel\<close>

record message =
  seq_id :: "64 word"
  msg_key :: string
  msg_value :: string

record channel =
  send_msgs :: "message list"
  queue_stopped :: bool
  send_thread_stopped :: bool
  tasks :: "message list"
  running_tasks :: "64 word"
  finished_ids :: segment_tree
  task_aborting :: bool
  chunked_values :: "string \<rightharpoonup> chunked_message"
  recv_msgs :: "(string \<times> string \<times> 64 word) list"
  throttle_window_size :: "64 word"
  waiting_finish :: bool
  aborting :: bool
  msg_seq_id :: "64 word"
  received_msg_ids :: segment_tree
  received_ack_ids :: segment_tree
  received_fin :: bool
  peer_sent_msg_count :: "64 word"
  disable_msg_seq_id :: bool

definition new_channel :: channel where
  "new_channel =
     \<lparr>send_msgs = [], queue_stopped = False, send_thread_stopped = False, tasks = [], running_tasks = 0,
      finished_ids = empty_tree, task_aborting = False, chunked_values = Map.empty, recv_msgs = [],
      throttle_window_size = 0, waiting_finish = False, aborting = False, msg_seq_id = 0,
      received_msg_ids = empty_tree, received_ack_ids = empty_tree, received_fin = False,
      peer_sent_msg_count = 0, disable_msg_seq_id = False\<rparr>"

text \<open>\<^verbatim>\<open>SubmitSendTask\<close>, with the \<^verbatim>\<open>SendTaskStartNotify\<close> of the task's constructor.\<close>

definition SendTaskStartNotify :: "channel \<Rightarrow> channel" where
  "SendTaskStartNotify c = c\<lparr>running_tasks := running_tasks c + 1\<rparr>"

definition SendTaskFinishedNotify :: "64 word \<Rightarrow> channel \<Rightarrow> channel" where
  "SendTaskFinishedNotify seq c =
     (let c = c\<lparr>running_tasks := running_tasks c - 1\<rparr>
      in if seq \<noteq> 0 then c\<lparr>finished_ids := snd (Insert (finished_ids c) seq)\<rparr> else c)"

definition SubmitSendTask :: "message \<Rightarrow> channel \<Rightarrow> channel" where
  "SubmitSendTask msg c = (SendTaskStartNotify c)\<lparr>tasks := tasks c @ [msg]\<rparr>"

text \<open>The end of a task's thread: its destructor.\<close>

definition finish_task :: "message \<Rightarrow> channel \<Rightarrow> channel" where
  "finish_task msg c = SendTaskFinishedNotify (seq_id msg) (c\<lparr>tasks := remove1 msg (tasks c)\<rparr>)"

definition SendAck :: "64 word \<Rightarrow> channel \<Rightarrow> channel" where
  "SendAck seq c =
     (if seq > 0
      then SubmitSendTask \<lparr>seq_id = 0, msg_key = kAckKey, msg_value = to_string (unat seq)\<rparr> c
      else c)"

text \<open>
  \<^verbatim>\<open>recv_msgs_\<close> is kept in arrival order: its only traversal submits tasks that run independently.
\<close>

definition emplace :: "string \<Rightarrow> 'v \<Rightarrow> (string \<times> 'v) list \<Rightarrow> (string \<times> 'v) list \<times> bool" where
  "emplace k v m = (if k \<in> fst ` set m then (m, False) else (m @ [(k, v)], True))"

definition OnNormalMessage :: "string \<Rightarrow> string \<Rightarrow> channel \<Rightarrow> unit result \<times> channel" where
  "OnNormalMessage key v c =
     (case SplitChannelKey key of
        Inl e \<Rightarrow> (Inl e, c)
      | Inr (k, seq) \<Rightarrow>
          let (fresh, ids) = Insert (received_msg_ids c) seq;
              c' = (if seq > 0 then c\<lparr>received_msg_ids := ids\<rparr> else c)
          in if seq > 0 \<and> \<not> fresh then (Inr (), c')
             else if \<not> waiting_finish c' then
               let (m, inserted) = emplace k (v, seq) (recv_msgs c')
               in (if seq > 0 \<and> \<not> inserted then Inl Duplicate_key else Inr (), c'\<lparr>recv_msgs := m\<rparr>)
             else (Inr (), SendAck seq c'))"

definition OnMessage :: "string \<Rightarrow> string \<Rightarrow> channel \<Rightarrow> unit result \<times> channel" where
  "OnMessage key v c =
     (if key = kAckKey then
        (case ViewToSizeT v of
           Inl e \<Rightarrow> (Inl e, c)
         | Inr seq \<Rightarrow> (Inr (), c\<lparr>received_ack_ids := snd (Insert (received_ack_ids c) seq)\<rparr>))
      else if key = kFinKey then
        (if \<not> received_fin c then
           (let c = c\<lparr>received_fin := True\<rparr>
            in case ViewToSizeT v of
                 Inl e \<Rightarrow> (Inl e, c)
               | Inr n \<Rightarrow> (Inr (), c\<lparr>peer_sent_msg_count := n\<rparr>))
         else (Inr (), c))
      else OnNormalMessage key v c)"

definition OnChunkedMessage ::
    "string \<Rightarrow> string \<Rightarrow> 64 word \<Rightarrow> 64 word \<Rightarrow> channel \<Rightarrow> unit result \<times> channel" where
  "OnChunkedMessage key v offset total_length c =
     (if offset + word_of_nat (length v) > total_length then (Inl Logic_error, c)
      else
        case (case chunked_values c key of None \<Rightarrow> new_chunked total_length | Some cm \<Rightarrow> Inr cm) of
          Inl e \<Rightarrow> (Inl e, c)
        | Inr data \<Rightarrow>
            (case AddChunk data offset v of
               Inl e \<Rightarrow> (Inl e, c\<lparr>chunked_values := (chunked_values c)(key \<mapsto> data)\<rparr>)
             | Inr data \<Rightarrow>
                 if IsFullyFilled data
                 then OnMessage key (message_buf data) (c\<lparr>chunked_values := (chunked_values c)(key := None)\<rparr>)
                 else (Inr (), c\<lparr>chunked_values := (chunked_values c)(key \<mapsto> data)\<rparr>)))"

definition OnRequest :: "request \<Rightarrow> channel \<Rightarrow> unit result \<times> channel" where
  "OnRequest req c =
     (if aborting c then (Inl Link_aborted, c)
      else case req of
          Mono key v \<Rightarrow> OnMessage key v c
        | Chunked key v offset total_length \<Rightarrow> OnChunkedMessage key v offset total_length c)"

subsubsection \<open>Receiving\<close>

text \<open>One evaluation of the waiting loop of \<^verbatim>\<open>Recv\<close>, and the whole call up to its first wait.\<close>

definition recv_poll :: "string \<Rightarrow> channel \<Rightarrow> string outcome \<times> channel" where
  "recv_poll key c =
     (case map_of (recv_msgs c) key of
        Some (value, seq) \<Rightarrow>
          (Returns value, SendAck seq (c\<lparr>recv_msgs := filter (\<lambda>p. fst p \<noteq> key) (recv_msgs c)\<rparr>))
      | None \<Rightarrow> (if aborting c then Throws Link_aborted else Blocks, c))"

definition Recv :: "string \<Rightarrow> channel \<Rightarrow> string outcome \<times> channel" where
  "Recv key c =
     (if aborting c then (Throws Link_aborted, c)
      else case NormalMessageKeyEnforce key of
          Inl e \<Rightarrow> (Throws e, c)
        | Inr _ \<Rightarrow> recv_poll key c)"

subsubsection \<open>Sending\<close>

text \<open>The part of \<^verbatim>\<open>SendAsync\<close>, \<^verbatim>\<open>Send\<close> and \<^verbatim>\<open>SendAsyncThrottled\<close> that numbers a message and queues it.\<close>

definition enqueue :: "string \<Rightarrow> string \<Rightarrow> channel \<Rightarrow> 64 word \<times> channel" where
  "enqueue k v c =
     (let seq = msg_seq_id c + 1;
          key = BuildChannelKey k seq
      in (seq, c\<lparr>msg_seq_id := seq,
                 send_msgs := send_msgs c @ [\<lparr>seq_id = seq, msg_key = key, msg_value = v\<rparr>]\<rparr>))"

definition SendAsync :: "string \<Rightarrow> string \<Rightarrow> channel \<Rightarrow> unit result \<times> channel" where
  "SendAsync k v c =
     (if aborting c then (Inl Link_aborted, c)
      else if waiting_finish c then (Inl Enforce, c)
      else case NormalMessageKeyEnforce k of
          Inl e \<Rightarrow> (Inl e, c)
        | Inr _ \<Rightarrow>
            if disable_msg_seq_id c
            then (Inr (), c\<lparr>send_msgs := send_msgs c @ [\<lparr>seq_id = 0, msg_key = k, msg_value = v\<rparr>]\<rparr>)
            else (Inr (), snd (enqueue k v c)))"

text \<open>The test of \<^verbatim>\<open>ThrottleWindowWait\<close>.\<close>

definition ThrottleWindowWait :: "64 word \<Rightarrow> channel \<Rightarrow> unit outcome" where
  "ThrottleWindowWait wait_count c =
     (if throttle_window_size c = 0 then Returns ()
      else if Count (received_ack_ids c) + throttle_window_size c \<le> wait_count
      then (if aborting c then Throws Link_aborted else Blocks)
      else Returns ())"

text \<open>\<^verbatim>\<open>SendAsyncThrottled\<close> and \<^verbatim>\<open>Send\<close> up to their wait: the number to wait for.\<close>

definition SendAsyncThrottled :: "string \<Rightarrow> string \<Rightarrow> channel \<Rightarrow> 64 word result \<times> channel" where
  "SendAsyncThrottled k v c =
     (if aborting c then (Inl Link_aborted, c)
      else if disable_msg_seq_id c
      then (case SendAsync k v c of (Inl e, c) \<Rightarrow> (Inl e, c) | (Inr _, c) \<Rightarrow> (Inr 0, c))
      else if waiting_finish c then (Inl Enforce, c)
      else case NormalMessageKeyEnforce k of
          Inl e \<Rightarrow> (Inl e, c)
        | Inr _ \<Rightarrow> (case enqueue k v c of (seq, c) \<Rightarrow> (Inr seq, c)))"

definition Send :: "string \<Rightarrow> string \<Rightarrow> channel \<Rightarrow> 64 word result \<times> channel" where
  "Send k v c =
     (if aborting c then (Inl Link_aborted, c)
      else if disable_msg_seq_id c then (Inl Logic_error, c)
      else if waiting_finish c then (Inl Enforce, c)
      else case NormalMessageKeyEnforce k of
          Inl e \<Rightarrow> (Inl e, c)
        | Inr _ \<Rightarrow> (case enqueue k v c of (seq, c) \<Rightarrow> (Inr seq, c)))"

definition WaitSeqIdSendFinished :: "64 word \<Rightarrow> channel \<Rightarrow> unit outcome" where
  "WaitSeqIdSendFinished seq c =
     (if Contains (finished_ids c) seq then Returns ()
      else if task_aborting c then Throws Link_aborted
      else Blocks)"

definition WaitAllSendFinished :: "channel \<Rightarrow> unit outcome" where
  "WaitAllSendFinished c = (if running_tasks c > 0 then Blocks else Returns ())"

text \<open>
  One turn of the sending thread (pop a message, hand it to a task; the thread then waits for the
  window of that message), and what it does when the link closes.
\<close>

definition Pop :: "channel \<Rightarrow> message option \<times> channel" where
  "Pop c = (case send_msgs c of [] \<Rightarrow> (None, c) | m # ms \<Rightarrow> (Some m, c\<lparr>send_msgs := ms\<rparr>))"

definition send_thread_pop :: "channel \<Rightarrow> channel" where
  "send_thread_pop c = (case Pop c of (None, c) \<Rightarrow> c | (Some msg, c) \<Rightarrow> SubmitSendTask msg c)"

function send_pending :: "channel \<Rightarrow> channel" where
  "send_pending c =
     (case Pop c of (None, c) \<Rightarrow> c | (Some msg, c) \<Rightarrow> send_pending (SubmitSendTask msg c))"
  by auto

termination
  by (relation "measure (\<lambda>c. length (send_msgs c))")
    (auto simp: Pop_def SubmitSendTask_def SendTaskStartNotify_def split: list.splits)

text \<open>The connection test: an empty message with number 0, outside of the numbered messages.\<close>

definition connect_key :: "64 word \<Rightarrow> string" where
  "connect_key rank = ''connect_'' @ to_string (unat rank)"

definition TestSend :: "64 word \<Rightarrow> 64 word \<Rightarrow> channel \<Rightarrow> request list result" where
  "TestSend bytes_per_chunk local_rank c =
     (if aborting c then Inl Link_aborted
      else if waiting_finish c then Inl Enforce
      else Inr (SendImpl bytes_per_chunk (BuildChannelKey (connect_key local_rank) 0) []))"

definition TestRecv :: "64 word \<Rightarrow> channel \<Rightarrow> string outcome \<times> channel" where
  "TestRecv remote_rank c = Recv (connect_key remote_rank) c"

subsubsection \<open>Closing\<close>

definition StopReceivingAndAckUnreadMsgs :: "channel \<Rightarrow> channel" where
  "StopReceivingAndAckUnreadMsgs c =
     (let c = c\<lparr>waiting_finish := True\<rparr>;
          c = fold (\<lambda>(k, v, seq). SendAck seq) (recv_msgs c) c
      in c\<lparr>recv_msgs := []\<rparr>)"

definition send_fin :: "channel \<Rightarrow> channel" where
  "send_fin c =
     SubmitSendTask \<lparr>seq_id = 0, msg_key = kFinKey, msg_value = to_string (unat (msg_seq_id c))\<rparr> c"

definition WaitForFinAndFlyingMsg :: "channel \<Rightarrow> unit outcome" where
  "WaitForFinAndFlyingMsg c =
     (if \<not> received_fin c then Blocks
      else if peer_sent_msg_count c = 0 then Returns ()
      else if all_from_one (received_msg_ids c) (peer_sent_msg_count c) then Returns ()
      else Blocks)"

definition WaitForFlyingAck :: "channel \<Rightarrow> unit outcome" where
  "WaitForFlyingAck c =
     (if msg_seq_id c = 0 then Returns ()
      else if all_from_one (received_ack_ids c) (msg_seq_id c) then Returns ()
      else Blocks)"

definition stop_send_thread :: "channel \<Rightarrow> channel" where
  "stop_send_thread c = c\<lparr>send_thread_stopped := True, queue_stopped := True\<rparr>"

definition Abort :: "channel \<Rightarrow> channel" where
  "Abort c = stop_send_thread (c\<lparr>aborting := True, task_aborting := True\<rparr>)"


subsection \<open>Keys\<close>

lemma seq_key_chars: "kSeqKey = [CHR 0x01, CHR 0x02]" "length kSeqKey = 2"
  by (simp_all add: kSeqKey_def)

lemma find_seq_key:
  "find_str kSeqKey k = None \<Longrightarrow> find_str kSeqKey (k @ kSeqKey @ rest) = Some (k, rest)"
proof (induction k)
  case Nil
  show ?case by (subst find_str.simps) simp
next
  case (Cons c k)
  have none: "find_str kSeqKey k = None" and t: "take 2 (c # k) \<noteq> kSeqKey"
    using Cons.prems by (subst (asm) find_str.simps, auto simp: seq_key_chars split: if_splits)+
  have "take 2 (c # k @ kSeqKey @ rest) \<noteq> kSeqKey"
    using t by (cases k) (auto simp: kSeqKey_def)
  then show ?case
    by (subst find_str.simps) (simp add: seq_key_chars(2) Cons.IH [OF none])
qed

lemma ViewToSizeT_to_string: "ViewToSizeT (to_string (unat n)) = Inr n"
proof -
  have "unat n < 2 ^ 64" using unsigned_less [of n] by simp
  then show ?thesis by (simp only: ViewToSizeT_def SimpleAtoi_to_string) simp
qed

lemma Split_Build:
  assumes "NormalMessageKeyEnforce k = Inr ()"
  shows "SplitChannelKey (BuildChannelKey k n) = Inr (k, n)"
proof -
  have "find_str kSeqKey k = None"
    using assms by (cases "find_str kSeqKey k") (auto simp: NormalMessageKeyEnforce_def split: if_splits)
  then show ?thesis by (simp add: SplitChannelKey_def BuildChannelKey_def find_seq_key ViewToSizeT_to_string)
qed

lemma control_keys: "kAckKey \<noteq> kFinKey"
  by (simp add: kAckKey_def kFinKey_def)

text \<open>A numbered key of a normal message is never a control key.\<close>

lemma Build_not_control: "BuildChannelKey k n \<noteq> kAckKey" "BuildChannelKey k n \<noteq> kFinKey"
proof -
  have "last (to_string m) \<noteq> CHR 0x02" for m
  proof -
    have d: "char_of (48 + j) \<noteq> CHR 0x02" if "j < 10" for j :: nat
    proof
      assume "char_of (48 + j) = CHR 0x02"
      with digit_char [OF that] have "digit_value 10 (CHR 0x02) = Some j" by simp
      then show False by (simp add: digit_value_def)
    qed
    show ?thesis by (subst to_string.simps) (simp add: d)
  qed
  then have "last (BuildChannelKey k n) \<noteq> CHR 0x02" by (simp add: BuildChannelKey_def)
  then show "BuildChannelKey k n \<noteq> kAckKey" "BuildChannelKey k n \<noteq> kFinKey"
    by (auto simp: kAckKey_def kFinKey_def kSeqKey_def)
qed

lemma Build_inj:
  assumes "NormalMessageKeyEnforce k = Inr ()" and "NormalMessageKeyEnforce k' = Inr ()"
    and "BuildChannelKey k n = BuildChannelKey k' n'"
  shows "k = k' \<and> n = n'"
proof -
  have "SplitChannelKey (BuildChannelKey k n) = Inr (k', n')"
    unfolding assms(3) by (rule Split_Build [OF assms(2)])
  with Split_Build [OF assms(1)] show ?thesis by simp
qed

subsection \<open>Retries\<close>

lemma retry_wait_le: "retry_wait opts n \<le> max_retry_interval_ms opts"
  by (simp add: retry_wait_def)

lemma retry_bounded:
  assumes "retry_count \<le> max_retry opts" and "SendRequestWithRetry opts retry_count turns = (r, n, ws)"
  shows "n \<le> Suc (unat (max_retry opts - retry_count)) \<and> list_all (\<lambda>w. w \<le> max_retry_interval_ms opts) ws"
  using assms
proof (induction opts retry_count turns arbitrary: r n ws rule: SendRequestWithRetry.induct)
  case (2 opts k ab ans turns)
  show ?case
  proof (cases "ab \<or> ans = None \<or> \<not> should_retry opts (the ans) \<or> k \<ge> max_retry opts")
    case True
    with "2.prems"(2) show ?thesis by (cases ans) (auto split: if_splits)
  next
    case False
    then obtain e where e: "\<not> ab" "ans = Some e" "should_retry opts e" "k < max_retry opts" by auto
    obtain r' n' ws' where rec: "SendRequestWithRetry opts (k + 1) turns = (r', n', ws')"
      by (cases "SendRequestWithRetry opts (k + 1) turns") auto
    have "k + 1 \<le> max_retry opts" using e(4) by (rule inc_le)
    with "2.IH" [OF e(1,2)] e rec have
      ih: "n' \<le> Suc (unat (max_retry opts - (k + 1)))" "list_all (\<lambda>w. w \<le> max_retry_interval_ms opts) ws'"
      by auto
    have "unat (max_retry opts - (k + 1)) < unat (max_retry opts - k)"
      using e(4) \<open>k + 1 \<le> max_retry opts\<close> by (simp add: unat_sub) unat_arith
    moreover have "\<not> max_retry opts \<le> k" using e(4) by simp
    ultimately show ?thesis using "2.prems"(2) e rec ih by (auto simp: retry_wait_le)
  qed
qed auto

text \<open>A link that keeps failing makes the call end with the link's error.\<close>

lemma retry_gives_up:
  assumes "\<forall>t \<in> set turns. \<exists>e. t = (False, Some e)" and "retry_count \<le> max_retry opts"
    and "unat (max_retry opts - retry_count) < length turns"
  shows "\<exists>e. fst (SendRequestWithRetry opts retry_count turns) = Failed e"
  using assms
proof (induction opts retry_count turns rule: SendRequestWithRetry.induct)
  case (2 opts k ab ans turns)
  then obtain e where e: "\<not> ab" "ans = Some e" by auto
  show ?case
  proof (cases "should_retry opts e \<and> k < max_retry opts")
    case True
    then have "k + 1 \<le> max_retry opts" by (simp add: inc_le)
    moreover have "unat (max_retry opts - (k + 1)) < unat (max_retry opts - k)"
      using True calculation by (simp add: unat_sub) unat_arith
    ultimately have "\<exists>e. fst (SendRequestWithRetry opts (k + 1) turns) = Failed e"
      using "2.IH" [OF e] "2.prems" True by auto
    with e True show ?thesis by (auto simp: not_le [symmetric] split: prod.splits)
  next
    case False
    with e show ?thesis by auto
  qed
qed simp

subsection \<open>Reassembly of chunks\<close>

text \<open>The chunks of a value, in natural numbers: \<open>b\<close> bytes each, the last one shorter.\<close>

definition chunk_size :: "nat \<Rightarrow> nat \<Rightarrow> nat \<Rightarrow> nat" where
  "chunk_size b n i = min b (n - i * b)"

definition chunk_count :: "nat \<Rightarrow> nat \<Rightarrow> nat" where
  "chunk_count b n = (n + b - 1) div b"

lemma chunk_size_sum: "(\<Sum>i<k. chunk_size b n i) = min (k * b) n"
  by (induction k) (auto simp: chunk_size_def min_def)

lemma chunk_count_covers:
  assumes "0 < b"
  shows "n \<le> chunk_count b n * b" and "i < chunk_count b n \<longleftrightarrow> i * b < n"
proof -
  have "n + b - 1 < Suc (chunk_count b n) * b"
    unfolding chunk_count_def using assms by (metis dividend_less_div_times mult_Suc)
  then show "n \<le> chunk_count b n * b" using assms by simp
  have "i < chunk_count b n \<longleftrightarrow> Suc i * b \<le> n + b - 1"
    unfolding chunk_count_def Suc_le_eq [symmetric] using assms by (simp add: less_eq_div_iff_mult_less_eq)
  also have "\<dots> \<longleftrightarrow> i * b < n" using assms by auto
  finally show "i < chunk_count b n \<longleftrightarrow> i * b < n" .
qed

lemma unat_of_nat64: "n < 2 ^ 64 \<Longrightarrow> unat (word_of_nat n :: 64 word) = n"
  by (simp add: unat_of_nat)

lemma word_of_nat64_eq:
  "m < 2 ^ 64 \<Longrightarrow> n < 2 ^ 64 \<Longrightarrow> (word_of_nat m :: 64 word) = word_of_nat n \<longleftrightarrow> m = n"
  by (metis unat_of_nat64)

definition nat_chunk :: "nat \<Rightarrow> string \<Rightarrow> string \<Rightarrow> nat \<Rightarrow> request" where
  "nat_chunk b key value i = Chunked key (take (chunk_size b (length value) i) (drop (i * b) value))
     (word_of_nat (i * b)) (word_of_nat (length value))"

lemma chunk_at_nat:
  assumes "i * unat B < length value" and "length value < 2 ^ 64"
  shows "chunk_at key value B (word_of_nat i) = nat_chunk (unat B) key value i"
proof -
  let ?n = "word_of_nat (length value) :: 64 word" and ?o = "word_of_nat (i * unat B) :: 64 word"
  have o: "word_of_nat i * B = ?o" by simp
  have un: "unat ?n = length value" by (rule unat_of_nat64 [OF assms(2)])
  have uo: "unat ?o = i * unat B" by (rule unat_of_nat64) (use assms in simp)
  have "?o \<le> ?n" using assms(1) by (simp only: word_le_nat_alt un uo)
  then have "unat (?n - ?o) = length value - i * unat B" by (simp only: unat_sub un uo)
  then have "unat (min B (?n - ?o)) = chunk_size (unat B) (length value) i"
    by (auto simp: chunk_size_def min_def word_le_nat_alt)
  then show ?thesis unfolding chunk_at_def Let_def o uo nat_chunk_def by simp
qed

lemma SendChunked_nat:
  assumes "0 < unat B" and "length value + unat B \<le> 2 ^ 64"
  shows "SendChunked B key value = map (nat_chunk (unat B) key value) [0 ..< chunk_count (unat B) (length value)]"
proof -
  let ?n = "word_of_nat (length value) :: 64 word"
  have n: "length value < 2 ^ 64" using assms by simp
  have "?n + B - 1 = word_of_nat (length value + unat B - 1)" using assms(1) by (simp add: of_nat_diff)
  then have "unat (?n + B - 1) = length value + unat B - 1"
    using assms by (simp only:) (rule unat_of_nat64, simp)
  then have "unat ((?n + B - 1) div B) = chunk_count (unat B) (length value)"
    by (simp add: unat_div_distrib chunk_count_def)
  then show ?thesis
    using chunk_count_covers(2) [OF assms(1)] chunk_at_nat [OF _ n]
    by (simp add: SendChunked_def Let_def)
qed

text \<open>What has been written after the chunks \<open>I\<close>.\<close>

definition chunk_state :: "nat \<Rightarrow> string \<Rightarrow> nat set \<Rightarrow> chunked_message \<Rightarrow> bool" where
  "chunk_state b value I cm \<longleftrightarrow>
     received cm = (\<lambda>i. word_of_nat (i * b)) ` I
     \<and> bytes_written cm = word_of_nat (\<Sum>i\<in>I. chunk_size b (length value) i)
     \<and> length (message_buf cm) = length value
     \<and> (\<forall>i\<in>I. \<forall>j < chunk_size b (length value) i. message_buf cm ! (i * b + j) = value ! (i * b + j))"

lemma chunk_state_nth:
  "chunk_state b value I cm \<Longrightarrow> i \<in> I \<Longrightarrow> j < chunk_size b (length value) i \<Longrightarrow>
   message_buf cm ! (i * b + j) = value ! (i * b + j)"
  by (simp add: chunk_state_def)

lemma chunk_state_new:
  "length value < 2 ^ 63 \<Longrightarrow> \<exists>cm. new_chunked (word_of_nat (length value)) = Inr cm \<and> chunk_state b value {} cm"
  by (simp add: chunk_state_def new_chunked_def unat_of_nat64)

lemma offset_received:
  assumes "0 < b" and "i * b < 2 ^ 64" and "\<forall>j\<in>I. j * b < 2 ^ 64"
  shows "(word_of_nat (i * b) :: 64 word) \<in> (\<lambda>j. word_of_nat (j * b)) ` I \<longleftrightarrow> i \<in> I"
proof
  assume "(word_of_nat (i * b) :: 64 word) \<in> (\<lambda>j. word_of_nat (j * b)) ` I"
  then obtain j where j: "j \<in> I" "(word_of_nat (i * b) :: 64 word) = word_of_nat (j * b)" by auto
  with assms have "i * b = j * b" by (metis unat_of_nat64)
  with assms(1) j(1) show "i \<in> I" by simp
qed simp

lemma memcpy_inside:
  assumes "offset + length data \<le> length buf"
  shows "\<exists>buf'. memcpy buf offset data = Inr buf' \<and> length buf' = length buf
    \<and> (\<forall>k < length buf. buf' ! k = (if offset \<le> k \<and> k < offset + length data then data ! (k - offset) else buf ! k))"
  using assms by (auto simp: memcpy_def nth_append min_def)

lemma AddChunk_state:
  assumes b: "0 < b" and n: "length value < 2 ^ 64" and i: "i * b < length value"
    and I: "I \<subseteq> {i. i * b < length value}" "finite I" and st: "chunk_state b value I cm"
  shows "\<exists>cm'. AddChunk cm (word_of_nat (i * b)) (take (chunk_size b (length value) i) (drop (i * b) value)) = Inr cm'
    \<and> chunk_state b value (insert i I) cm'"
proof (cases "i \<in> I")
  case True
  then have "insert i I = I" by auto
  with True st show ?thesis by (auto simp: AddChunk_def chunk_state_def)
next
  case False
  let ?d = "take (chunk_size b (length value) i) (drop (i * b) value)"
  let ?o = "word_of_nat (i * b) :: 64 word"
  have uo: "unat ?o = i * b" using i n by (intro unat_of_nat64) simp
  have "?o \<notin> received cm"
    using offset_received [OF b, of i I] False i n I(1) st by (force simp: chunk_state_def)
  have ld: "length ?d = chunk_size b (length value) i" using i by (simp add: chunk_size_def)
  have fit: "i * b + length ?d \<le> length (message_buf cm)"
    using st i unfolding ld by (simp add: chunk_state_def chunk_size_def)
  obtain buf' where buf': "memcpy (message_buf cm) (i * b) ?d = Inr buf'" "length buf' = length (message_buf cm)"
    "\<forall>k < length (message_buf cm). buf' ! k =
       (if i * b \<le> k \<and> k < i * b + length ?d then ?d ! (k - i * b) else message_buf cm ! k)"
    using memcpy_inside [OF fit] by blast
  have w: "buf' ! (j * b + k) = value ! (j * b + k)"
    if j: "j \<in> insert i I" and k: "k < chunk_size b (length value) j" for j k
  proof -
    have jk: "j * b + k < length value" using k by (simp add: chunk_size_def less_diff_conv add.commute)
    show ?thesis
    proof (cases "j = i")
      case True
      with jk k buf'(3) st show ?thesis by (simp add: chunk_state_def ld)
    next
      case neq: False
      have "\<not> (i * b \<le> j * b + k \<and> j * b + k < i * b + length ?d)"
      proof -
        have "k < b" "length ?d \<le> b" using k by (simp_all add: chunk_size_def)
        moreover have "Suc j \<le> i \<or> Suc i \<le> j" using neq by linarith
        then have "Suc j * b \<le> i * b \<or> Suc i * b \<le> j * b" using mult_le_mono1 by blast
        ultimately show ?thesis by auto
      qed
      moreover have "j * b + k < length (message_buf cm)" using jk st by (simp add: chunk_state_def)
      ultimately have "buf' ! (j * b + k) = message_buf cm ! (j * b + k)" using buf'(3) by metis
      also have "\<dots> = value ! (j * b + k)" using chunk_state_nth [OF st _ k] j neq by simp
      finally show ?thesis .
    qed
  qed
  have "AddChunk cm ?o ?d = Inr (cm\<lparr>received := insert ?o (received cm), message_buf := buf',
      bytes_written := bytes_written cm + word_of_nat (length ?d)\<rparr>)"
    using \<open>?o \<notin> received cm\<close> buf'(1) by (simp only: AddChunk_def uo if_False sum.case)
  moreover have "chunk_state b value (insert i I) (cm\<lparr>received := insert ?o (received cm), message_buf := buf',
      bytes_written := bytes_written cm + word_of_nat (length ?d)\<rparr>)"
    using st False I(2) w buf'(2) unfolding ld by (auto simp: chunk_state_def)
  ultimately show ?thesis by blast
qed

text \<open>The buffer counts as full exactly when every chunk has arrived, and then it is the value.\<close>

lemma chunk_state_full:
  assumes b: "0 < b" and n: "length value < 2 ^ 64" and I: "I \<subseteq> {i. i * b < length value}"
    and st: "chunk_state b value I cm"
  shows "IsFullyFilled cm \<longleftrightarrow> I = {i. i * b < length value}" (is "_ \<longleftrightarrow> I = ?A")
    and "I = {i. i * b < length value} \<Longrightarrow> message_buf cm = value"
proof -
  have A: "?A = {..< chunk_count b (length value)}" using chunk_count_covers(2) [OF b] by auto
  then have fin: "finite ?A" by simp
  have total: "(\<Sum>i\<in>?A. chunk_size b (length value) i) = length value"
    using chunk_size_sum [of b "length value" "chunk_count b (length value)"] chunk_count_covers(1) [OF b, of "length value"]
    unfolding A by simp
  have le: "(\<Sum>i\<in>I. chunk_size b (length value) i) \<le> length value"
    using sum_mono2 [OF fin I] total by (metis le0)
  have "(\<Sum>i\<in>I. chunk_size b (length value) i) = length value \<longleftrightarrow> I = ?A"
  proof
    assume eq: "(\<Sum>i\<in>I. chunk_size b (length value) i) = length value"
    have "?A \<subseteq> I"
    proof
      fix i assume i: "i \<in> ?A"
      show "i \<in> I"
      proof (rule ccontr)
        assume "i \<notin> I"
        then have "(\<Sum>i\<in>insert i I. chunk_size b (length value) i) = chunk_size b (length value) i + length value"
          using eq finite_subset [OF I fin] by simp
        moreover have "(\<Sum>i\<in>insert i I. chunk_size b (length value) i) \<le> length value"
          using sum_mono2 [OF fin, of "insert i I" "chunk_size b (length value)"] I i total by simp
        moreover have "0 < chunk_size b (length value) i" using i b by (simp add: chunk_size_def)
        ultimately show False by simp
      qed
    qed
    with I show "I = ?A" by auto
  qed (simp add: total)
  moreover have "IsFullyFilled cm \<longleftrightarrow> (\<Sum>i\<in>I. chunk_size b (length value) i) = length value"
  proof -
    have f: "bytes_written cm = word_of_nat (\<Sum>i\<in>I. chunk_size b (length value) i)"
      "length (message_buf cm) = length value" using st by (simp_all add: chunk_state_def)
    show ?thesis unfolding IsFullyFilled_def f by (rule word_of_nat64_eq) (use le n in simp_all)
  qed
  ultimately show "IsFullyFilled cm \<longleftrightarrow> I = ?A" by blast
  show "message_buf cm = value" if "I = ?A"
  proof (rule nth_equalityI)
    show "length (message_buf cm) = length value" using st by (simp add: chunk_state_def)
    fix k assume "k < length (message_buf cm)"
    then have k: "k < length value" using st by (simp add: chunk_state_def)
    have d: "k = k div b * b + k mod b" by simp
    have "k div b * b < length value" using k by (metis div_times_less_eq_dividend order_le_less_trans)
    then have "k div b \<in> I" using that by simp
    moreover have "k mod b < chunk_size b (length value) (k div b)"
      unfolding chunk_size_def min_less_iff_conj using b k d by (simp add: less_diff_conv add.commute)
    ultimately have "message_buf cm ! (k div b * b + k mod b) = value ! (k div b * b + k mod b)"
      by (rule chunk_state_nth [OF st])
    then show "message_buf cm ! k = value ! k" using d by simp
  qed
qed

text \<open>
  Chunks of a value, in any order and with repetitions: until the last one is in, only the buffer of
  the key changes; the one that completes the value acts exactly as the value sent in one piece.
\<close>

lemma chunk_guard:
  assumes "i * b < length value" and "length value < 2 ^ 64"
  shows "\<not> (word_of_nat (i * b) + word_of_nat (length (take (chunk_size b (length value) i) (drop (i * b) value)))
    > (word_of_nat (length value) :: 64 word))"
proof -
  let ?d = "take (chunk_size b (length value) i) (drop (i * b) value)"
  have "i * b + length ?d \<le> length value" using assms(1) by simp
  then have "(word_of_nat (i * b + length ?d) :: 64 word) \<le> word_of_nat (length value)"
    using assms(2) by (simp only: word_le_nat_alt unat_of_nat64)
  then show ?thesis by (simp only: of_nat_add not_less)
qed

lemma OnRequest_chunk:
  assumes b: "0 < b" and n': "length value < 2 ^ 63" and i: "i * b < length value" and ab: "\<not> aborting c"
    and I: "I \<subseteq> {i. i * b < length value}" "finite I"
    and st: "case chunked_values c key of None \<Rightarrow> I = {} | Some cm \<Rightarrow> chunk_state b value I cm"
  shows "\<exists>cm. chunk_state b value (insert i I) cm \<and> OnRequest (nat_chunk b key value i) c =
    (if insert i I = {i. i * b < length value}
     then OnMessage key value (c\<lparr>chunked_values := (chunked_values c)(key := None)\<rparr>)
     else (Inr (), c\<lparr>chunked_values := (chunked_values c)(key \<mapsto> cm)\<rparr>))"
proof -
  let ?d = "take (chunk_size b (length value) i) (drop (i * b) value)"
  have n: "length value < 2 ^ 64" using n' by simp
  obtain data where data: "chunk_state b value I data"
    "(case chunked_values c key of None \<Rightarrow> new_chunked (word_of_nat (length value)) | Some cm \<Rightarrow> Inr cm) = Inr data"
    using st chunk_state_new [OF n', of b] by (cases "chunked_values c key") auto
  from AddChunk_state [OF b n i I data(1)] obtain cm where
    cm: "AddChunk data (word_of_nat (i * b)) ?d = Inr cm" "chunk_state b value (insert i I) cm" by blast
  have sub: "insert i I \<subseteq> {i. i * b < length value}" using I(1) i by auto
  note full = chunk_state_full [OF b n sub cm(2)]
  have "OnRequest (nat_chunk b key value i) c =
    (if IsFullyFilled cm then OnMessage key (message_buf cm) (c\<lparr>chunked_values := (chunked_values c)(key := None)\<rparr>)
     else (Inr (), c\<lparr>chunked_values := (chunked_values c)(key \<mapsto> cm)\<rparr>))"
    unfolding OnRequest_def nat_chunk_def OnChunkedMessage_def Let_def
    by (simp only: ab if_False request.case chunk_guard [OF i n] data(2) cm(1) sum.case)
  with full cm(2) show ?thesis by auto
qed

definition deliver_all :: "request list \<Rightarrow> channel \<Rightarrow> channel" where
  "deliver_all rs c = fold (\<lambda>r c. snd (OnRequest r c)) rs c"

lemma deliver_some_chunks:
  assumes b: "0 < b" and n: "length value < 2 ^ 63" and ab: "\<not> aborting c" and none: "chunked_values c key = None"
    and sub: "set is \<subset> {i. i * b < length value}"
  shows "\<exists>cm. deliver_all (map (nat_chunk b key value) is) c =
      (if is = [] then c else c\<lparr>chunked_values := (chunked_values c)(key \<mapsto> cm)\<rparr>)
    \<and> (is \<noteq> [] \<longrightarrow> chunk_state b value (set is) cm)"
  using sub
proof (induction "is" rule: rev_induct)
  case (snoc i "is")
  have s: "set is \<subset> {i. i * b < length value}" "i * b < length value" using snoc.prems by auto
  from snoc.IH [OF s(1)] obtain cm where
    cm: "deliver_all (map (nat_chunk b key value) is) c =
      (if is = [] then c else c\<lparr>chunked_values := (chunked_values c)(key \<mapsto> cm)\<rparr>)"
      "is \<noteq> [] \<longrightarrow> chunk_state b value (set is) cm" by blast
  let ?c = "if is = [] then c else c\<lparr>chunked_values := (chunked_values c)(key \<mapsto> cm)\<rparr>"
  have "\<exists>cm. chunk_state b value (insert i (set is)) cm \<and> OnRequest (nat_chunk b key value i) ?c =
    (if insert i (set is) = {i. i * b < length value}
     then OnMessage key value (?c\<lparr>chunked_values := (chunked_values ?c)(key := None)\<rparr>)
     else (Inr (), ?c\<lparr>chunked_values := (chunked_values ?c)(key \<mapsto> cm)\<rparr>))"
    by (rule OnRequest_chunk [OF b n s(2)]) (use ab s(1) none cm(2) in auto)
  moreover have "insert i (set is) \<noteq> {i. i * b < length value}" using snoc.prems by auto
  ultimately obtain cm' where "chunk_state b value (insert i (set is)) cm'"
    "OnRequest (nat_chunk b key value i) ?c = (Inr (), ?c\<lparr>chunked_values := (chunked_values ?c)(key \<mapsto> cm')\<rparr>)"
    by auto
  with cm(1) show ?case by (intro exI [of _ cm']) (auto simp: deliver_all_def)
qed (simp add: deliver_all_def)

lemma map_preimage: "set xs \<subseteq> f ` A \<Longrightarrow> \<exists>js. xs = map f js \<and> set js \<subseteq> A"
proof (induction xs)
  case (Cons x xs)
  then obtain j js where "x = f j" "j \<in> A" "xs = map f js" "set js \<subseteq> A" by auto
  then show ?case by (intro exI [of _ "j # js"]) simp
qed simp

theorem chunks_reassemble:
  assumes b: "0 < unat B" and n: "length value + unat B \<le> 2 ^ 63" and ab: "\<not> aborting c"
    and none: "chunked_values c key = None"
    and rs: "set (rs @ [r]) = set (SendChunked B key value)" and last: "set rs \<noteq> set (SendChunked B key value)"
  shows "OnRequest r (deliver_all rs c) = OnRequest (Mono key value) c"
proof -
  let ?A = "{i. i * unat B < length value}"
  have n': "length value < 2 ^ 63" and n'': "length value + unat B \<le> 2 ^ 64" using b n by simp_all
  have A: "?A = set [0 ..< chunk_count (unat B) (length value)]"
    using chunk_count_covers(2) [OF b] by auto
  have all: "set (SendChunked B key value) = nat_chunk (unat B) key value ` ?A"
    unfolding SendChunked_nat [OF b n''] A by simp
  obtain js where js: "rs @ [r] = map (nat_chunk (unat B) key value) js" "set js \<subseteq> ?A"
    using map_preimage [of "rs @ [r]" "nat_chunk (unat B) key value" ?A] rs unfolding all by blast
  then obtain "is" i where "is": "js = is @ [i]" "rs = map (nat_chunk (unat B) key value) is" "r = nat_chunk (unat B) key value i"
    by (auto simp: append_eq_map_conv)
  have inj: "inj_on (nat_chunk (unat B) key value) ?A"
  proof (rule inj_onI)
    fix i j assume ij: "i \<in> ?A" "j \<in> ?A" "nat_chunk (unat B) key value i = nat_chunk (unat B) key value j"
    then have "(word_of_nat (i * unat B) :: 64 word) = word_of_nat (j * unat B)"
      unfolding nat_chunk_def request.inject by blast
    then have "i * unat B = j * unat B" by (rule word_of_nat64_eq [THEN iffD1, rotated 2]) (use ij n' in simp_all)
    then show "i = j" using b by simp
  qed
  have "nat_chunk (unat B) key value ` set js = nat_chunk (unat B) key value ` ?A"
    using rs js(1) unfolding all by (metis set_map)
  then have "set js = ?A" using inj_on_image_eq_iff [OF inj js(2)] by simp
  then have full: "insert i (set is) = ?A" "i * unat B < length value" by (auto simp: "is"(1))
  have "set is \<noteq> ?A" using last unfolding all "is"(2) by auto
  with js(2) have sub: "set is \<subset> ?A" by (auto simp: "is"(1))
  from deliver_some_chunks [OF b n' ab none sub] obtain cm where
    cm: "deliver_all rs c = (if is = [] then c else c\<lparr>chunked_values := (chunked_values c)(key \<mapsto> cm)\<rparr>)"
      "is \<noteq> [] \<longrightarrow> chunk_state (unat B) value (set is) cm" unfolding "is"(2) by blast
  let ?c = "deliver_all rs c"
  have ab': "\<not> aborting ?c" using ab cm(1) by simp
  have st: "case chunked_values ?c key of None \<Rightarrow> set is = {} | Some cm \<Rightarrow> chunk_state (unat B) value (set is) cm"
    using none cm by auto
  have "OnRequest r ?c = OnMessage key value (?c\<lparr>chunked_values := (chunked_values ?c)(key := None)\<rparr>)"
    using OnRequest_chunk [OF b n' full(2) ab' psubset_imp_subset [OF sub] finite_set st] full(1)
    unfolding "is"(3) by auto
  moreover have "?c\<lparr>chunked_values := (chunked_values ?c)(key := None)\<rparr> = c"
    using none by (auto simp: cm(1) fun_upd_idem)
  ultimately show ?thesis using ab by (simp add: OnRequest_def)
qed

subsection \<open>Malformed chunks\<close>

text \<open>
  The guard of \<^verbatim>\<open>OnChunkedMessage\<close> adds two \<^verbatim>\<open>size_t\<close> values, and compares with the length that this
  request claims, while the buffer has the length that the first request of the key claimed: two
  ways to make \<^verbatim>\<open>memcpy\<close> write outside of the buffer.
\<close>

lemma chunk_offset_wraps:
  "fst (OnRequest (Chunked k ''x'' (- 1) 5) new_channel) = Inl Out_of_bounds"
proof -
  have "unat (- 1 :: 64 word) = 2 ^ 64 - 1" by (simp add: unsigned_minus_1_eq_mask mask_eq_exp_minus_1)
  then show ?thesis
    by (simp add: OnRequest_def OnChunkedMessage_def new_channel_def AddChunk_def new_chunked_def memcpy_def)
qed

lemma chunk_length_changes:
  "fst (OnRequest (Chunked k ''x'' 1 2) (snd (OnRequest (Chunked k [] 0 1) new_channel))) = Inl Out_of_bounds"
  by (simp add: OnRequest_def OnChunkedMessage_def new_channel_def AddChunk_def new_chunked_def memcpy_def
      IsFullyFilled_def)

text \<open>
  Acknowledgements have one key for all numbers.  If their decimal numbers are longer than a chunk, then chunks of
  two acknowledgements go to the same buffer: the second may be written outside of it, and two halves may
  make a number that nobody has acknowledged.
\<close>

lemma decimals: "to_string 10 = ''10''" "to_string 100 = ''100''" "to_string 12 = ''12''" "to_string 21 = ''21''" "to_string 11 = ''11''"
  by (simp_all add: to_string.simps char_of_def bit_numeral_rec bit_0)

lemma small_chunks:
  "SendImpl 1 kAckKey (to_string 10) = [Chunked kAckKey ''1'' 0 2, Chunked kAckKey ''0'' 1 2]"
  "SendImpl 1 kAckKey (to_string 100) = [Chunked kAckKey ''1'' 0 3, Chunked kAckKey ''0'' 1 3, Chunked kAckKey ''0'' 2 3]"
  "SendImpl 1 kAckKey (to_string 12) = [Chunked kAckKey ''1'' 0 2, Chunked kAckKey ''2'' 1 2]"
  "SendImpl 1 kAckKey (to_string 21) = [Chunked kAckKey ''2'' 0 2, Chunked kAckKey ''1'' 1 2]"
  by (simp_all add: SendImpl_def decimals SendChunked_nat chunk_count_def nat_chunk_def chunk_size_def upt_rec)

lemma small_chunks_out_of_bounds:
  "\<exists>r1 \<in> set (SendImpl 1 kAckKey (to_string 10)). \<exists>r2 \<in> set (SendImpl 1 kAckKey (to_string 100)).
     fst (OnRequest r2 (snd (OnRequest r1 new_channel))) = Inl Out_of_bounds"
  by (simp add: small_chunks OnRequest_def OnChunkedMessage_def new_channel_def AddChunk_def new_chunked_def memcpy_def IsFullyFilled_def)

lemma small_chunks_false_ack:
  "\<exists>r1 \<in> set (SendImpl 1 kAckKey (to_string 12)). \<exists>r2 \<in> set (SendImpl 1 kAckKey (to_string 21)).
     Contains (received_ack_ids (snd (OnRequest r2 (snd (OnRequest r1 new_channel))))) 11"
proof -
  have v: "ViewToSizeT ''11'' = Inr 11" using ViewToSizeT_to_string [of 11] by (simp add: decimals)
  have "OnRequest (Chunked kAckKey ''1'' 1 2) (snd (OnRequest (Chunked kAckKey ''1'' 0 2) new_channel))
     = OnMessage kAckKey ''11'' new_channel"
    by (simp add: OnRequest_def OnChunkedMessage_def new_channel_def AddChunk_def new_chunked_def memcpy_def IsFullyFilled_def)
  moreover have "Contains (received_ack_ids (snd (OnMessage kAckKey ''11'' new_channel))) 11"
    by (simp add: OnMessage_def v new_channel_def empty_tree_def Insert_def Contains_def)
  ultimately show ?thesis by (simp add: small_chunks)
qed

text \<open>Without both, the writes stay inside.\<close>

lemma chunk_in_bounds:
  assumes "unat offset + length v < 2 ^ 64" and "\<not> aborting c"
    and "case chunked_values c key of None \<Rightarrow> True | Some cm \<Rightarrow> length (message_buf cm) = unat total_length"
    and "fst (OnRequest (Chunked key v offset total_length) c) = Inl Out_of_bounds"
  shows False
proof -
  have "fst (OnMessage k w c') \<noteq> Inl Out_of_bounds" for k w c'
    by (auto simp: OnMessage_def OnNormalMessage_def ViewToSizeT_def SplitChannelKey_def Let_def
        split: option.splits sum.splits prod.splits if_splits)
  moreover have "unat (offset + word_of_nat (length v)) = unat offset + length v"
    using assms(1) by (simp add: unat_word_ariths unat_of_nat)
  ultimately show False
    using assms(2-4)
    by (auto simp: OnRequest_def OnChunkedMessage_def AddChunk_def memcpy_def new_chunked_def Let_def not_less
        word_le_nat_alt split: option.splits sum.splits if_splits)
qed

subsection \<open>Throttling\<close>

text \<open>A sender that passes the window test has fewer than \<open>window\<close> messages without acknowledgement.\<close>

lemma throttle_window:
  assumes "tree_inv (received_ack_ids c)" and "throttle_window_size c \<noteq> 0"
    and "card (tree_set (received_ack_ids c)) + unat (throttle_window_size c) < 2 ^ 64"
  shows "ThrottleWindowWait n c = Returns () \<longleftrightarrow>
    unat n < card (tree_set (received_ack_ids c)) + unat (throttle_window_size c)"
proof -
  have "unat (Count (received_ack_ids c) + throttle_window_size c)
      = card (tree_set (received_ack_ids c)) + unat (throttle_window_size c)"
    using assms(3) Count_spec [OF assms(1)] by (simp add: unat_word_ariths)
  then show ?thesis using assms(2) by (auto simp: ThrottleWindowWait_def word_le_nat_alt)
qed

subsection \<open>Closing and connecting\<close>

text \<open>The last loop of the sending thread leaves no message in the queue, and starts a task for each.\<close>

declare send_pending.simps [simp del]

lemma send_pending_tasks:
  "tasks (send_pending c) = tasks c @ send_msgs c \<and> send_msgs (send_pending c) = []
   \<and> running_tasks (send_pending c) = running_tasks c + word_of_nat (length (send_msgs c))"
proof (induction c rule: send_pending.induct)
  case (1 c)
  show ?case
  proof (cases "send_msgs c")
    case Nil
    then show ?thesis by (subst (1 2 3) send_pending.simps) (simp add: Pop_def)
  next
    case (Cons m ms)
    let ?c = "c\<lparr>send_msgs := ms\<rparr>"
    have P: "Pop c = (Some m, ?c)" by (simp add: Pop_def Cons)
    show ?thesis
      using "1" [OF P [symmetric] refl]
      by (subst (1 2 3) send_pending.simps) (simp add: P Cons SubmitSendTask_def SendTaskStartNotify_def)
  qed
qed

lemma connect_key_normal: "NormalMessageKeyEnforce (connect_key r) = Inr ()"
proof -
  have "find_str kSeqKey k = None" if "CHR 0x01 \<notin> set k" for k
    using that by (induction k) (subst find_str.simps, auto simp: kSeqKey_def)+
  moreover have "CHR 0x01 \<notin> set (to_string n)" for n
    using to_string_digits [of n] by (auto simp: list_all_iff digit_value_def)
  ultimately show ?thesis by (simp add: NormalMessageKeyEnforce_def connect_key_def)
qed

lemma connection_test:
  assumes "TestSend b rank c = Inr rs" and "\<not> aborting d" and "\<not> waiting_finish d"
    and "connect_key rank \<notin> fst ` set (recv_msgs d)"
  shows "TestRecv rank (deliver_all rs d) = (Returns [], d)"
proof -
  have rs: "rs = [Mono (BuildChannelKey (connect_key rank) 0) []]"
    using assms(1) by (auto simp: TestSend_def SendImpl_def SendMono_def split: if_splits)
  have "deliver_all rs d = d\<lparr>recv_msgs := recv_msgs d @ [(connect_key rank, [], 0)]\<rparr>"
    using assms(2-4) Build_not_control [of "connect_key rank" 0]
    by (simp add: rs deliver_all_def OnRequest_def OnMessage_def OnNormalMessage_def emplace_def
        Split_Build [OF connect_key_normal] Let_def split: prod.splits)
  moreover have "filter (\<lambda>p. fst p \<noteq> connect_key rank) (recv_msgs d) = recv_msgs d"
    using assms(4) by (force simp: filter_id_conv)
  moreover have "map_of (recv_msgs d) (connect_key rank) = None"
    using assms(4) by (simp add: map_of_eq_None_iff)
  ultimately show ?thesis
    using assms(2) by (simp add: TestRecv_def Recv_def connect_key_normal recv_poll_def map_add_def SendAck_def)
qed

end
