(* ===== verification/Link.thy ===== *)
theory Link
  imports Channel
begin

text \<open>
  Two channels and the network between them.  Each side has its channel, the requests it has ever put
  on the wire, and two ghost logs: the messages the application has sent, and the messages it has
  received, with their sequence numbers.  The network may deliver a request of the wire any number
  of times, in any order, or never; a task may end without its requests being sent.  The theorems
  are invariants of all reachable states: messages are delivered unchanged and at most once, an
  acknowledgement means the message has arrived, and the two waits of the shutdown protocol return
  only when everything has arrived.
\<close>

record endpoint =
  ch :: channel
  wire :: "request set"
  sent :: "(string \<times> string) list"
  got :: "(64 word \<times> string \<times> string) list"

definition new_endpoint :: endpoint where
  "new_endpoint = \<lparr>ch = new_channel, wire = {}, sent = [], got = []\<rparr>"

type_synonym link = "bool \<Rightarrow> endpoint"

definition new_link :: link where
  "new_link = (\<lambda>_. new_endpoint)"

text \<open>The steps of one side, against what the peer has put on the wire.  \<open>b\<close> is the chunk size.\<close>

inductive side_step :: "64 word \<Rightarrow> request set \<Rightarrow> endpoint \<Rightarrow> endpoint \<Rightarrow> bool" for b :: "64 word" and peer where
  send_async: "SendAsync k v (ch e) = (Inr (), c) \<Longrightarrow> msg_seq_id (ch e) < - 2 \<Longrightarrow> length v + unat b \<le> 2 ^ 63 \<Longrightarrow>
    side_step b peer e (e\<lparr>ch := c, sent := sent e @ [(k, v)]\<rparr>)"
| send_throttled: "SendAsyncThrottled k v (ch e) = (Inr n, c) \<Longrightarrow> msg_seq_id (ch e) < - 2 \<Longrightarrow> length v + unat b \<le> 2 ^ 63 \<Longrightarrow>
    side_step b peer e (e\<lparr>ch := c, sent := sent e @ [(k, v)]\<rparr>)"
| send: "Send k v (ch e) = (Inr n, c) \<Longrightarrow> msg_seq_id (ch e) < - 2 \<Longrightarrow> length v + unat b \<le> 2 ^ 63 \<Longrightarrow>
    side_step b peer e (e\<lparr>ch := c, sent := sent e @ [(k, v)]\<rparr>)"
| pop: "side_step b peer e (e\<lparr>ch := send_thread_pop (ch e)\<rparr>)"
| emit: "m \<in> set (tasks (ch e)) \<Longrightarrow> r \<in> set (SendImpl b (msg_key m) (msg_value m)) \<Longrightarrow>
    side_step b peer e (e\<lparr>wire := insert r (wire e)\<rparr>)"
| finish: "m \<in> set (tasks (ch e)) \<Longrightarrow> side_step b peer e (e\<lparr>ch := finish_task m (ch e)\<rparr>)"
| deliver: "r \<in> peer \<Longrightarrow> side_step b peer e (e\<lparr>ch := snd (OnRequest r (ch e))\<rparr>)"
| recv: "Recv k (ch e) = (Returns v, c) \<Longrightarrow> map_of (recv_msgs (ch e)) k = Some (v, q) \<Longrightarrow>
    side_step b peer e (e\<lparr>ch := c, got := got e @ [(q, k, v)]\<rparr>)"
| stop: "side_step b peer e (e\<lparr>ch := StopReceivingAndAckUnreadMsgs (ch e)\<rparr>)"
| fin: "side_step b peer e (e\<lparr>ch := send_fin (ch e)\<rparr>)"
| stop_thread: "side_step b peer e (e\<lparr>ch := stop_send_thread (ch e)\<rparr>)"
| abort: "side_step b peer e (e\<lparr>ch := Abort (ch e)\<rparr>)"
| window: "side_step b peer e (e\<lparr>ch := (ch e)\<lparr>throttle_window_size := w\<rparr>\<rparr>)"

inductive reachable :: "64 word \<Rightarrow> link \<Rightarrow> bool" for b where
  init: "reachable b new_link"
| step: "reachable b n \<Longrightarrow> side_step b (wire (n (\<not> s))) (n s) e \<Longrightarrow> reachable b (n(s := e))"

subsection \<open>The messages a side may have on the wire\<close>

text \<open>The message with a sequence number, numbered from 1.\<close>

definition entry :: "endpoint \<Rightarrow> 64 word \<Rightarrow> string \<times> string" where
  "entry e q = sent e ! (unat q - 1)"

definition numbered :: "endpoint \<Rightarrow> 64 word \<Rightarrow> bool" where
  "numbered e q \<longleftrightarrow> 1 \<le> unat q \<and> unat q \<le> length (sent e)"

definition legit :: "endpoint \<Rightarrow> message \<Rightarrow> bool" where
  "legit e m \<longleftrightarrow>
     (\<exists>q. numbered e q \<and> m = \<lparr>seq_id = q, msg_key = BuildChannelKey (fst (entry e q)) q, msg_value = snd (entry e q)\<rparr>)
     \<or> (\<exists>q \<in> tree_set (received_msg_ids (ch e)). q \<noteq> 0 \<and> m = \<lparr>seq_id = 0, msg_key = kAckKey, msg_value = to_string (unat q)\<rparr>)
     \<or> (\<exists>q :: 64 word. unat q \<le> length (sent e) \<and> m = \<lparr>seq_id = 0, msg_key = kFinKey, msg_value = to_string (unat q)\<rparr>)"

definition sender_ok :: "64 word \<Rightarrow> endpoint \<Rightarrow> bool" where
  "sender_ok b e \<longleftrightarrow>
     unat (msg_seq_id (ch e)) = length (sent e) \<and> length (sent e) < 2 ^ 64 - 1 \<and> \<not> disable_msg_seq_id (ch e)
     \<and> (\<forall>(k, v) \<in> set (sent e). NormalMessageKeyEnforce k = Inr () \<and> length v + unat b \<le> 2 ^ 63)
     \<and> (\<forall>m \<in> set (send_msgs (ch e)) \<union> set (tasks (ch e)). legit e m)
     \<and> (\<forall>r \<in> wire e. \<exists>m. legit e m \<and> r \<in> set (SendImpl b (msg_key m) (msg_value m)))"

text \<open>What side \<open>e\<close> has received from \<open>p\<close>.\<close>

definition chunks_ok :: "64 word \<Rightarrow> endpoint \<Rightarrow> (string \<rightharpoonup> chunked_message) \<Rightarrow> bool" where
  "chunks_ok b p cv \<longleftrightarrow> (\<forall>key cm. cv key = Some cm \<longrightarrow>
     (\<exists>m I. legit p m \<and> key = msg_key m \<and> unat b < length (msg_value m) \<and> finite I
       \<and> I \<subset> {i. i * unat b < length (msg_value m)} \<and> chunk_state (unat b) (msg_value m) I cm))"

definition receiver_ok :: "64 word \<Rightarrow> endpoint \<Rightarrow> endpoint \<Rightarrow> bool" where
  "receiver_ok b p e \<longleftrightarrow>
     tree_inv (received_msg_ids (ch e)) \<and> (\<forall>q \<in> tree_set (received_msg_ids (ch e)). numbered p q)
     \<and> (\<forall>(k, v, q) \<in> set (recv_msgs (ch e)). q \<in> tree_set (received_msg_ids (ch e)) \<and> entry p q = (k, v))
     \<and> (\<forall>(q, k, v) \<in> set (got e). q \<in> tree_set (received_msg_ids (ch e)) \<and> entry p q = (k, v))
     \<and> distinct (map fst (got e) @ map (snd \<circ> snd) (recv_msgs (ch e)))
     \<and> chunks_ok b p (chunked_values (ch e))
     \<and> (received_fin (ch e) \<longrightarrow> unat (peer_sent_msg_count (ch e)) \<le> length (sent p))"

definition acks_ok :: "endpoint \<Rightarrow> endpoint \<Rightarrow> bool" where
  "acks_ok p e \<longleftrightarrow> tree_inv (received_ack_ids (ch e))
     \<and> tree_set (received_ack_ids (ch e)) \<subseteq> tree_set (received_msg_ids (ch p))"

definition link_inv :: "64 word \<Rightarrow> link \<Rightarrow> bool" where
  "link_inv b n \<longleftrightarrow> (\<forall>s. sender_ok b (n s) \<and> receiver_ok b (n (\<not> s)) (n s) \<and> acks_ok (n (\<not> s)) (n s))"

subsection \<open>Growth\<close>

text \<open>What can only grow: the log of sent messages and the received numbers.\<close>

definition grows :: "endpoint \<Rightarrow> endpoint \<Rightarrow> bool" where
  "grows e e' \<longleftrightarrow> (\<exists>l. sent e' = sent e @ l)
     \<and> tree_set (received_msg_ids (ch e)) \<subseteq> tree_set (received_msg_ids (ch e'))"

lemma numbered_grows: "grows e e' \<Longrightarrow> numbered e q \<Longrightarrow> numbered e' q \<and> entry e' q = entry e q"
  by (auto simp: grows_def numbered_def entry_def nth_append)

lemma legit_cases:
  assumes "legit e m"
  obtains (data) q where "numbered e q"
      "m = \<lparr>seq_id = q, msg_key = BuildChannelKey (fst (entry e q)) q, msg_value = snd (entry e q)\<rparr>"
    | (ack) q where "q \<in> tree_set (received_msg_ids (ch e))" "q \<noteq> 0"
      "m = \<lparr>seq_id = 0, msg_key = kAckKey, msg_value = to_string (unat q)\<rparr>"
    | (fin) q :: "64 word" where "unat q \<le> length (sent e)"
      "m = \<lparr>seq_id = 0, msg_key = kFinKey, msg_value = to_string (unat q)\<rparr>"
  using assms unfolding legit_def by blast

lemma legit_data: "numbered e q \<Longrightarrow>
    legit e \<lparr>seq_id = q, msg_key = BuildChannelKey (fst (entry e q)) q, msg_value = snd (entry e q)\<rparr>"
  unfolding legit_def by blast

lemma legit_ack: "q \<in> tree_set (received_msg_ids (ch e)) \<Longrightarrow> q \<noteq> 0 \<Longrightarrow>
    legit e \<lparr>seq_id = 0, msg_key = kAckKey, msg_value = to_string (unat q)\<rparr>"
  unfolding legit_def by blast

lemma legit_fin: "unat (q :: 64 word) \<le> length (sent e) \<Longrightarrow>
    legit e \<lparr>seq_id = 0, msg_key = kFinKey, msg_value = to_string (unat q)\<rparr>"
  unfolding legit_def by blast

lemma legit_grows:
  assumes g: "grows e e'" and l: "legit e m"
  shows "legit e' m"
  using l
proof (cases rule: legit_cases)
  case (data q)
  with numbered_grows [OF g data(1)] legit_data [of e' q] show ?thesis by simp
next
  case (ack q)
  with g legit_ack [of q e'] show ?thesis by (auto simp: grows_def)
next
  case (fin q)
  with g legit_fin [of q e'] show ?thesis by (auto simp: grows_def)
qed

lemma chunks_ok_grows: "grows p p' \<Longrightarrow> chunks_ok b p cv \<Longrightarrow> chunks_ok b p' cv"
  unfolding chunks_ok_def using legit_grows [of p p'] by meson

lemma receiver_ok_grows:
  assumes g: "grows p p'" and ok: "receiver_ok b p e"
  shows "receiver_ok b p' e"
proof -
  have n: "\<forall>q \<in> tree_set (received_msg_ids (ch e)). numbered p q" using ok by (simp add: receiver_ok_def)
  then have "\<forall>q \<in> tree_set (received_msg_ids (ch e)). numbered p' q \<and> entry p' q = entry p q"
    using numbered_grows [OF g] by blast
  moreover have "length (sent p) \<le> length (sent p')" using g by (auto simp: grows_def)
  moreover have "chunks_ok b p' (chunked_values (ch e))"
    using ok chunks_ok_grows [OF g] by (simp add: receiver_ok_def)
  ultimately show ?thesis using ok unfolding receiver_ok_def by fastforce
qed

lemma acks_ok_grows: "grows p p' \<Longrightarrow> acks_ok p e \<Longrightarrow> acks_ok p' e"
  by (auto simp: acks_ok_def grows_def)

subsection \<open>Frames\<close>

lemma SendAck_fields [simp]:
  "send_msgs (SendAck q c) = send_msgs c" "received_msg_ids (SendAck q c) = received_msg_ids c"
  "received_ack_ids (SendAck q c) = received_ack_ids c" "recv_msgs (SendAck q c) = recv_msgs c"
  "chunked_values (SendAck q c) = chunked_values c" "received_fin (SendAck q c) = received_fin c"
  "peer_sent_msg_count (SendAck q c) = peer_sent_msg_count c" "msg_seq_id (SendAck q c) = msg_seq_id c"
  "disable_msg_seq_id (SendAck q c) = disable_msg_seq_id c" "waiting_finish (SendAck q c) = waiting_finish c"
  "aborting (SendAck q c) = aborting c"
  by (simp_all add: SendAck_def SubmitSendTask_def SendTaskStartNotify_def)

lemma SendAck_tasks: "set (tasks (SendAck q c)) = set (tasks c)
    \<union> (if q = 0 then {} else {\<lparr>seq_id = 0, msg_key = kAckKey, msg_value = to_string (unat q)\<rparr>})"
  by (auto simp: SendAck_def SubmitSendTask_def SendTaskStartNotify_def word_gt_0)

lemma sender_frame:
  assumes ok: "sender_ok b e" and g: "grows e e'" and same: "sent e' = sent e" "wire e' = wire e"
    "msg_seq_id (ch e') = msg_seq_id (ch e)" "disable_msg_seq_id (ch e') = disable_msg_seq_id (ch e)"
    and msgs: "\<forall>m \<in> set (send_msgs (ch e')) \<union> set (tasks (ch e')).
      m \<in> set (send_msgs (ch e)) \<union> set (tasks (ch e)) \<or> legit e' m"
  shows "sender_ok b e'"
proof -
  have l: "legit e m \<Longrightarrow> legit e' m" for m by (rule legit_grows [OF g])
  from ok have old: "\<forall>m \<in> set (send_msgs (ch e)) \<union> set (tasks (ch e)). legit e m"
    "\<forall>r \<in> wire e. \<exists>m. legit e m \<and> r \<in> set (SendImpl b (msg_key m) (msg_value m))"
    by (simp_all add: sender_ok_def)
  from old(1) msgs l have "\<forall>m \<in> set (send_msgs (ch e')) \<union> set (tasks (ch e')). legit e' m" by blast
  moreover from old(2) l have "\<forall>r \<in> wire e'. \<exists>m. legit e' m \<and> r \<in> set (SendImpl b (msg_key m) (msg_value m))"
    unfolding same(2) by blast
  ultimately show ?thesis using ok unfolding sender_ok_def same by simp
qed

lemma receiver_frame:
  assumes "receiver_ok b p e" and "received_msg_ids (ch e') = received_msg_ids (ch e)"
    and "recv_msgs (ch e') = recv_msgs (ch e)" and "got e' = got e" and "chunked_values (ch e') = chunked_values (ch e)"
    and "received_fin (ch e') = received_fin (ch e)" and "peer_sent_msg_count (ch e') = peer_sent_msg_count (ch e)"
  shows "receiver_ok b p e'"
  using assms by (simp add: receiver_ok_def)

lemma acks_frame:
  "acks_ok p e \<Longrightarrow> received_ack_ids (ch e') = received_ack_ids (ch e) \<Longrightarrow> acks_ok p e'"
  by (simp add: acks_ok_def)

lemma numbered_valid: "sender_ok b p \<Longrightarrow> numbered p q \<Longrightarrow> q \<noteq> - 1 \<and> q > 0"
proof -
  assume "sender_ok b p" "numbered p q"
  then have u: "1 \<le> unat q" "unat q < 2 ^ 64 - 1" by (auto simp: sender_ok_def numbered_def)
  have "unat (- 1 :: 64 word) = 2 ^ 64 - 1" by (simp add: unsigned_minus_1_eq_mask mask_eq_exp_minus_1)
  with u show ?thesis by (auto simp: word_gt_0)
qed

lemma entry_sent: "numbered p q \<Longrightarrow> entry p q \<in> set (sent p)"
  by (auto simp: numbered_def entry_def)

subsection \<open>Delivery\<close>

text \<open>What one step of side \<open>e\<close> has to keep, against peer \<open>p\<close>.\<close>

definition step_ok :: "64 word \<Rightarrow> endpoint \<Rightarrow> endpoint \<Rightarrow> endpoint \<Rightarrow> bool" where
  "step_ok b p e e' \<longleftrightarrow> grows e e' \<and> sender_ok b e' \<and> receiver_ok b p e' \<and> acks_ok p e'"

lemma OnNormalMessage_ok:
  assumes p: "sender_ok b p" and q: "numbered p q" and kv: "entry p q = (k, v)"
    and e: "sender_ok b e" "receiver_ok b p e" "acks_ok p e"
  shows "step_ok b p e (e\<lparr>ch := snd (OnNormalMessage (BuildChannelKey k q) v (ch e))\<rparr>)"
proof -
  have q0: "q \<noteq> - 1" "q > 0" using numbered_valid [OF p q] by simp_all
  have "(k, v) \<in> set (sent p)" using entry_sent [OF q] kv by simp
  then have "NormalMessageKeyEnforce k = Inr ()" using p by (auto simp: sender_ok_def)
  note split = Split_Build [OF this, of q]
  have ti: "tree_inv (received_msg_ids (ch e))" using e(2) by (simp add: receiver_ok_def)
  obtain fresh ids where ins: "Insert (received_msg_ids (ch e)) q = (fresh, ids)"
    by (cases "Insert (received_msg_ids (ch e)) q")
  note I = Insert_spec [OF ti q0(1) ins]
  let ?c = "(ch e)\<lparr>received_msg_ids := ids\<rparr>"
  let ?e = "e\<lparr>ch := ?c\<rparr>"
  have g: "grows e e'" if "received_msg_ids (ch e') = ids" "sent e' = sent e" for e'
    using that I(2) by (auto simp: grows_def)
  have rok: "receiver_ok b p ?e" if "\<not> fresh \<or> recv_msgs ?c = recv_msgs (ch e)"
    using e(2) I q by (auto simp: receiver_ok_def)
  show ?thesis
  proof (cases fresh)
    case False
    then have r: "OnNormalMessage (BuildChannelKey k q) v (ch e) = (Inr (), ?c)"
      using q0 by (simp add: OnNormalMessage_def split ins)
    show ?thesis
      unfolding step_ok_def r snd_conv
      using g [of ?e] rok sender_frame [OF e(1), of ?e] acks_frame [OF e(3), of ?e] by simp
  next
    case True
    show ?thesis
    proof (cases "waiting_finish (ch e)")
      case w: True
      have r: "OnNormalMessage (BuildChannelKey k q) v (ch e) = (Inr (), SendAck q ?c)"
        using q0 w True by (simp add: OnNormalMessage_def split ins)
      let ?e' = "e\<lparr>ch := SendAck q ?c\<rparr>"
      have "legit ?e' \<lparr>seq_id = 0, msg_key = kAckKey, msg_value = to_string (unat q)\<rparr>"
        using q0 I(2) by (intro legit_ack) auto
      then have "sender_ok b ?e'"
        by (intro sender_frame [OF e(1) g]) (auto simp: SendAck_tasks split: if_splits)
      then show ?thesis
        unfolding step_ok_def r snd_conv
        using g [of ?e'] rok receiver_frame [of b p ?e ?e'] acks_frame [OF e(3), of ?e'] by simp
    next
      case w: False
      obtain ms ins' where em: "emplace k (v, q) (recv_msgs (ch e)) = (ms, ins')"
        by (cases "emplace k (v, q) (recv_msgs (ch e))")
      let ?e' = "e\<lparr>ch := ?c\<lparr>recv_msgs := ms\<rparr>\<rparr>"
      have r: "snd (OnNormalMessage (BuildChannelKey k q) v (ch e)) = ?c\<lparr>recv_msgs := ms\<rparr>"
        using q0 w True em by (simp add: OnNormalMessage_def split ins)
      have nq: "q \<notin> tree_set (received_msg_ids (ch e))" using I(3) True by simp
      have nr: "q \<notin> set (map fst (got e) @ map (snd \<circ> snd) (recv_msgs (ch e)))"
        using e(2) nq by (fastforce simp: receiver_ok_def)
      have "receiver_ok b p ?e'"
      proof (cases ins')
        case True
        then have "ms = recv_msgs (ch e) @ [(k, v, q)]" using em by (simp add: emplace_def split: if_splits)
        with rok nr kv I(2) show ?thesis by (simp add: receiver_ok_def)
      next
        case False
        then have "ms = recv_msgs (ch e)" using em by (simp add: emplace_def split: if_splits)
        with rok receiver_frame [of b p ?e ?e'] show ?thesis by simp
      qed
      then show ?thesis
        unfolding step_ok_def r
        using g [of ?e'] sender_frame [OF e(1), of ?e'] acks_frame [OF e(3), of ?e'] by simp
    qed
  qed
qed

lemma OnMessage_ok:
  assumes p: "sender_ok b p" and m: "legit p m"
    and e: "sender_ok b e" "receiver_ok b p e" "acks_ok p e" and pe: "receiver_ok b e p"
  shows "step_ok b p e (e\<lparr>ch := snd (OnMessage (msg_key m) (msg_value m) (ch e))\<rparr>)"
  using m
proof (cases rule: legit_cases)
  case (data q)
  then show ?thesis
    using OnNormalMessage_ok [OF p data(1) _ e, of "fst (entry p q)" "snd (entry p q)"] Build_not_control
    by (simp add: OnMessage_def)
next
  case (ack q)
  have "numbered e q" using pe ack(1) by (simp add: receiver_ok_def)
  then have "q \<noteq> - 1" using numbered_valid [OF e(1)] by simp
  obtain fresh ids where ins: "Insert (received_ack_ids (ch e)) q = (fresh, ids)"
    by (cases "Insert (received_ack_ids (ch e)) q")
  have ti: "tree_inv (received_ack_ids (ch e))" using e(3) by (simp add: acks_ok_def)
  note I = Insert_spec [OF ti \<open>q \<noteq> - 1\<close> ins]
  let ?e = "e\<lparr>ch := (ch e)\<lparr>received_ack_ids := ids\<rparr>\<rparr>"
  have "grows e ?e" by (simp add: grows_def)
  moreover have "acks_ok p ?e" using e(3) I ack(1) by (simp add: acks_ok_def)
  ultimately show ?thesis
    using sender_frame [OF e(1), of ?e] receiver_frame [OF e(2), of ?e]
    by (simp add: step_ok_def ack(3) OnMessage_def ViewToSizeT_to_string ins)
next
  case (fin q)
  let ?e = "e\<lparr>ch := (ch e)\<lparr>received_fin := True, peer_sent_msg_count := q\<rparr>\<rparr>"
  have "step_ok b p e e" using e by (simp add: step_ok_def grows_def)
  moreover have "step_ok b p e ?e"
  proof -
    have "grows e ?e" by (simp add: grows_def)
    moreover have "receiver_ok b p ?e" using e(2) fin(1) by (simp add: receiver_ok_def)
    ultimately show ?thesis
      using sender_frame [OF e(1), of ?e] acks_frame [OF e(3), of ?e] by (simp add: step_ok_def)
  qed
  ultimately show ?thesis
    using control_keys by (simp add: fin(2) OnMessage_def ViewToSizeT_to_string)
qed

subsection \<open>Chunked delivery\<close>

lemma to_string_length: "n < 10 ^ Suc k \<Longrightarrow> length (to_string n) \<le> Suc k"
proof (induction k arbitrary: n)
  case 0
  then show ?case by (subst to_string.simps) simp
next
  case (Suc k)
  show ?case
  proof (cases "n < 10")
    case False
    have "n div 10 < 10 ^ Suc k" using Suc.prems by (simp add: div_less_iff_less_mult)
    with Suc.IH [OF this] False show ?thesis by (subst to_string.simps) simp
  qed (subst to_string.simps, simp)
qed

lemma to_string_unat: "length (to_string (unat (q :: 64 word))) \<le> 20"
proof -
  have "unat q < 2 ^ 64" using unsigned_less [of q] by simp
  then have "unat q < 10 ^ Suc 19" by (simp del: power_Suc)
  from to_string_length [OF this] show ?thesis by simp
qed

text \<open>Only numbered messages are ever cut, and their keys tell them apart.\<close>

lemma legit_large:
  assumes "legit p m" and "20 \<le> b" and "b < length (msg_value m)"
  obtains q where "numbered p q"
    "m = \<lparr>seq_id = q, msg_key = BuildChannelKey (fst (entry p q)) q, msg_value = snd (entry p q)\<rparr>"
  using assms(1)
proof (cases rule: legit_cases)
  case (data q)
  then show ?thesis by (rule that)
next
  case (ack q)
  with assms(2,3) to_string_unat [of q] show ?thesis by simp
next
  case (fin q)
  with assms(2,3) to_string_unat [of q] show ?thesis by simp
qed

lemma legit_key_unique:
  assumes p: "sender_ok b p" and m: "legit p m" "legit p m'" and key: "msg_key m = msg_key m'"
    and b: "20 \<le> unat b" "unat b < length (msg_value m)" "unat b < length (msg_value m')"
  shows "msg_value m = msg_value m'"
proof -
  obtain q where q: "numbered p q"
    "m = \<lparr>seq_id = q, msg_key = BuildChannelKey (fst (entry p q)) q, msg_value = snd (entry p q)\<rparr>"
    by (rule legit_large [OF m(1) b(1,2)])
  obtain r where r: "numbered p r"
    "m' = \<lparr>seq_id = r, msg_key = BuildChannelKey (fst (entry p r)) r, msg_value = snd (entry p r)\<rparr>"
    by (rule legit_large [OF m(2) b(1,3)])
  have "NormalMessageKeyEnforce (fst (entry p x)) = Inr ()" if "numbered p x" for x
    using p entry_sent [OF that] by (auto simp: sender_ok_def)
  then have "q = r" using key q r Build_inj [of "fst (entry p q)" "fst (entry p r)" q r] by simp
  with q r show ?thesis by simp
qed

lemma legit_value_bound: "sender_ok b p \<Longrightarrow> legit p m \<Longrightarrow> 20 \<le> unat b \<Longrightarrow> unat b < length (msg_value m) \<Longrightarrow>
    length (msg_value m) + unat b \<le> 2 ^ 63"
proof (erule (2) legit_large)
  fix q
  assume p: "sender_ok b p" and q: "numbered p q"
    "m = \<lparr>seq_id = q, msg_key = BuildChannelKey (fst (entry p q)) q, msg_value = snd (entry p q)\<rparr>"
  have "entry p q \<in> set (sent p)" by (rule entry_sent [OF q(1)])
  with p q(2) show ?thesis by (auto simp: sender_ok_def)
qed

lemma chunks_okD:
  assumes "chunks_ok b p cv" and "cv key = Some cm"
  obtains m I where "legit p m" "key = msg_key m" "unat b < length (msg_value m)" "finite I"
    "I \<subset> {i. i * unat b < length (msg_value m)}" "chunk_state (unat b) (msg_value m) I cm"
  using assms(1) [unfolded chunks_ok_def, rule_format, OF assms(2)] by (elim exE conjE) (rule that)

lemma chunks_ok_upd:
  "chunks_ok b p cv \<Longrightarrow> chunks_ok b p (cv(key := None))"
  "chunks_ok b p cv \<Longrightarrow> legit p m \<Longrightarrow> unat b < length (msg_value m) \<Longrightarrow> finite I \<Longrightarrow>
   I \<subset> {i. i * unat b < length (msg_value m)} \<Longrightarrow> chunk_state (unat b) (msg_value m) I cm \<Longrightarrow>
   chunks_ok b p (cv(msg_key m \<mapsto> cm))"
  unfolding chunks_ok_def by (simp, (intro allI impI, case_tac "key = msg_key m"; auto))

text \<open>An answer to a request of the peer: done, aborted, or what the handler of a whole message says.\<close>

definition answers :: "endpoint \<Rightarrow> channel \<Rightarrow> unit result \<Rightarrow> bool" where
  "answers p c res \<longleftrightarrow> res = Inr () \<or> res = Inl Link_aborted
     \<or> (\<exists>m c'. legit p m \<and> res = fst (OnMessage (msg_key m) (msg_value m) c')
         \<and> recv_msgs c' = recv_msgs c \<and> received_msg_ids c' = received_msg_ids c)"

lemma answers_message:
  "legit p m \<Longrightarrow> recv_msgs c' = recv_msgs c \<Longrightarrow> received_msg_ids c' = received_msg_ids c \<Longrightarrow>
   answers p c (fst (OnMessage (msg_key m) (msg_value m) c'))"
  unfolding answers_def by blast

lemma OnRequest_ok:
  assumes p: "sender_ok b p" and r: "r \<in> wire p" and b: "20 \<le> unat b"
    and e: "sender_ok b e" "receiver_ok b p e" "acks_ok p e" and pe: "receiver_ok b e p"
  shows "step_ok b p e (e\<lparr>ch := snd (OnRequest r (ch e))\<rparr>) \<and> answers p (ch e) (fst (OnRequest r (ch e)))"
proof (cases "aborting (ch e)")
  case True
  with e show ?thesis by (simp add: OnRequest_def step_ok_def grows_def answers_def)
next
  case nab: False
  obtain m where m: "legit p m" "r \<in> set (SendImpl b (msg_key m) (msg_value m))"
    using p r by (auto simp: sender_ok_def)
  show ?thesis
  proof (cases "unat b < length (msg_value m)")
    case False
    then have "r = Mono (msg_key m) (msg_value m)" using m(2) by (simp add: SendImpl_def SendMono_def)
    moreover have "answers p (ch e) (fst (OnMessage (msg_key m) (msg_value m) (ch e)))" by (rule answers_message [OF m(1)]) simp_all
    ultimately show ?thesis using OnMessage_ok [OF p m(1) e pe] nab by (simp add: OnRequest_def)
  next
    case big: True
    have n: "length (msg_value m) + unat b \<le> 2 ^ 63" by (rule legit_value_bound [OF p m(1) b big])
    have b0: "0 < unat b" using b by simp
    have n': "length (msg_value m) < 2 ^ 63" and n'': "length (msg_value m) + unat b \<le> 2 ^ 64" using n b0 by simp_all
    obtain i where i: "r = nat_chunk (unat b) (msg_key m) (msg_value m) i" "i * unat b < length (msg_value m)"
      using m(2) big chunk_count_covers(2) [OF b0] by (auto simp: SendImpl_def SendChunked_nat [OF b0 n''])
    have cok: "chunks_ok b p (chunked_values (ch e))" using e(2) by (simp add: receiver_ok_def)
    let ?A = "{i. i * unat b < length (msg_value m)}"
    obtain I where I: "I \<subseteq> ?A" "finite I"
      "case chunked_values (ch e) (msg_key m) of None \<Rightarrow> I = {} | Some cm \<Rightarrow> chunk_state (unat b) (msg_value m) I cm"
    proof (cases "chunked_values (ch e) (msg_key m)")
      case None
      then show ?thesis using that [of "{}"] by simp
    next
      case (Some cm)
      from chunks_okD [OF cok Some] obtain m' I where m': "legit p m'" "msg_key m = msg_key m'" "unat b < length (msg_value m')" "finite I"
        "I \<subset> {i. i * unat b < length (msg_value m')}" "chunk_state (unat b) (msg_value m') I cm" .
      have "msg_value m = msg_value m'" by (rule legit_key_unique [OF p m(1) m'(1,2) b big m'(3)])
      with m' Some show ?thesis using that [of I] by auto
    qed
    from OnRequest_chunk [OF b0 n' i(2) nab I(1,2,3)] obtain cm where
      cm: "chunk_state (unat b) (msg_value m) (insert i I) cm"
      "OnRequest r (ch e) = (if insert i I = ?A
        then OnMessage (msg_key m) (msg_value m) ((ch e)\<lparr>chunked_values := (chunked_values (ch e))(msg_key m := None)\<rparr>)
        else (Inr (), (ch e)\<lparr>chunked_values := (chunked_values (ch e))(msg_key m \<mapsto> cm)\<rparr>))"
      unfolding i(1) by blast
    show ?thesis
    proof (cases "insert i I = ?A")
      case True
      let ?e = "e\<lparr>ch := (ch e)\<lparr>chunked_values := (chunked_values (ch e))(msg_key m := None)\<rparr>\<rparr>"
      have g: "grows e ?e" "grows ?e e" by (simp_all add: grows_def)
      have "sender_ok b ?e" by (rule sender_frame [OF e(1) g(1)]) auto
      moreover have "receiver_ok b p ?e" using e(2) chunks_ok_upd(1) [OF cok] by (simp add: receiver_ok_def)
      moreover have "acks_ok p ?e" by (rule acks_frame [OF e(3)]) simp
      moreover have "receiver_ok b ?e p" by (rule receiver_ok_grows [OF g(1) pe])
      ultimately have "step_ok b p ?e (?e\<lparr>ch := snd (OnMessage (msg_key m) (msg_value m) (ch ?e))\<rparr>)"
        by (rule OnMessage_ok [OF p m(1)])
      moreover have "grows e e'" if "grows ?e e'" for e' using that by (simp add: grows_def)
      moreover have "answers p (ch e) (fst (OnMessage (msg_key m) (msg_value m) (ch ?e)))"
        by (rule answers_message [OF m(1)]) simp_all
      ultimately show ?thesis using cm(2) True by (simp add: step_ok_def)
    next
      case False
      let ?e = "e\<lparr>ch := (ch e)\<lparr>chunked_values := (chunked_values (ch e))(msg_key m \<mapsto> cm)\<rparr>\<rparr>"
      have g: "grows e ?e" by (simp add: grows_def)
      have "chunks_ok b p ((chunked_values (ch e))(msg_key m \<mapsto> cm))"
        using I False i(2) by (intro chunks_ok_upd(2) [OF cok m(1) big _ _ cm(1)]) auto
      then have "receiver_ok b p ?e" using e(2) by (simp add: receiver_ok_def)
      moreover have "sender_ok b ?e" by (rule sender_frame [OF e(1) g]) auto
      moreover have "acks_ok p ?e" by (rule acks_frame [OF e(3)]) simp
      ultimately show ?thesis using cm(2) False g by (simp add: step_ok_def answers_def)
    qed
  qed
qed

subsection \<open>The other steps\<close>

lemma enqueue_result:
  assumes "\<not> disable_msg_seq_id c"
  shows "SendAsync k v c = (Inr (), c') \<Longrightarrow> NormalMessageKeyEnforce k = Inr () \<and> c' = snd (enqueue k v c)"
    and "SendAsyncThrottled k v c = (Inr n, c') \<Longrightarrow> NormalMessageKeyEnforce k = Inr () \<and> c' = snd (enqueue k v c)"
    and "Send k v c = (Inr n, c') \<Longrightarrow> NormalMessageKeyEnforce k = Inr () \<and> c' = snd (enqueue k v c)"
  using assms
  by (auto simp: SendAsync_def SendAsyncThrottled_def Send_def split: if_splits sum.splits prod.splits)

lemma enqueue_ok:
  assumes e: "sender_ok b e" "receiver_ok b p e" "acks_ok p e" and k: "NormalMessageKeyEnforce k = Inr ()"
    and seq: "msg_seq_id (ch e) < - 2" and v: "length v + unat b \<le> 2 ^ 63"
  shows "step_ok b p e (e\<lparr>ch := snd (enqueue k v (ch e)), sent := sent e @ [(k, v)]\<rparr>)"
proof -
  let ?q = "msg_seq_id (ch e) + 1"
  let ?m = "\<lparr>seq_id = ?q, msg_key = BuildChannelKey k ?q, msg_value = v\<rparr>"
  let ?e = "e\<lparr>ch := snd (enqueue k v (ch e)), sent := sent e @ [(k, v)]\<rparr>"
  have len: "unat (msg_seq_id (ch e)) = length (sent e)" using e(1) by (simp add: sender_ok_def)
  have u2: "unat (- 2 :: 64 word) = 2 ^ 64 - 2" 
  proof -
    have "(- 2 :: 64 word) = 18446744073709551614" by simp
    then show ?thesis by (simp only:) simp
  qed
  have lt: "unat (msg_seq_id (ch e)) < 2 ^ 64 - 2" using seq unfolding word_less_nat_alt u2 .
  then have uq: "unat ?q = Suc (length (sent e))" by (simp add: unat_word_ariths len)
  have g: "grows e ?e" by (simp add: grows_def enqueue_def Let_def)
  have "numbered ?e ?q" "entry ?e ?q = (k, v)" by (simp_all add: numbered_def entry_def uq)
  then have m: "legit ?e ?m" using legit_data [of ?e ?q] by simp
  have old: "\<forall>m \<in> set (send_msgs (ch e)) \<union> set (tasks (ch e)). legit ?e m"
    "\<forall>r \<in> wire e. \<exists>m. legit ?e m \<and> r \<in> set (SendImpl b (msg_key m) (msg_value m))"
    using e(1) legit_grows [OF g] unfolding sender_ok_def by blast+
  have "sender_ok b ?e"
    using e(1) k v lt uq old m unfolding sender_ok_def by (auto simp: enqueue_def Let_def len)
  moreover have "receiver_ok b p ?e" by (rule receiver_frame [OF e(2)]) (simp_all add: enqueue_def Let_def)
  moreover have "acks_ok p ?e" by (rule acks_frame [OF e(3)]) (simp add: enqueue_def Let_def)
  ultimately show ?thesis using g by (simp add: step_ok_def)
qed

lemma recv_ok:
  assumes e: "sender_ok b e" "receiver_ok b p e" "acks_ok p e"
    and r: "Recv k (ch e) = (Returns v, c)" and q: "map_of (recv_msgs (ch e)) k = Some (v, q)"
  shows "step_ok b p e (e\<lparr>ch := c, got := got e @ [(q, k, v)]\<rparr>)"
proof -
  let ?rest = "filter (\<lambda>p. fst p \<noteq> k) (recv_msgs (ch e))"
  let ?e = "e\<lparr>ch := c, got := got e @ [(q, k, v)]\<rparr>"
  have c: "c = SendAck q ((ch e)\<lparr>recv_msgs := ?rest\<rparr>)"
    using r q by (auto simp: Recv_def recv_poll_def split: if_splits sum.splits)
  have mem: "(k, v, q) \<in> set (recv_msgs (ch e))" using q by (rule map_of_SomeD)
  have qs: "q \<in> tree_set (received_msg_ids (ch e))" "entry p q = (k, v)"
    using e(2) mem by (auto simp: receiver_ok_def)
  have g: "grows e ?e" by (simp add: grows_def c)
  have dist: "distinct (map fst (got e) @ map (snd \<circ> snd) (recv_msgs (ch e)))" using e(2) by (simp add: receiver_ok_def)
  have "q \<notin> (snd \<circ> snd) ` set ?rest"
  proof
    assume "q \<in> (snd \<circ> snd) ` set ?rest"
    then obtain k' v' where o: "(k', v', q) \<in> set (recv_msgs (ch e))" "k' \<noteq> k" by auto
    have "inj_on (snd \<circ> snd) (set (recv_msgs (ch e)))" using dist by (simp add: distinct_map)
    from inj_onD [OF this _ o(1) mem] o(2) show False by simp
  qed
  moreover have "distinct (map (snd \<circ> snd) ?rest)" using dist by (simp add: distinct_map_filter)
  moreover have "q \<in> (snd \<circ> snd) ` set (recv_msgs (ch e))" using mem by force
  then have "q \<notin> fst ` set (got e)" using dist by auto
  ultimately have "distinct (map fst (got ?e) @ map (snd \<circ> snd) (recv_msgs (ch ?e)))"
    using dist by (auto simp: c)
  moreover have "\<forall>(k, v, q) \<in> set ?rest. q \<in> tree_set (received_msg_ids (ch e)) \<and> entry p q = (k, v)"
    using e(2) by (auto simp: receiver_ok_def)
  ultimately have "receiver_ok b p ?e" using e(2) qs unfolding receiver_ok_def by (simp add: c)
  moreover have "sender_ok b ?e"
  proof (rule sender_frame [OF e(1) g])
    have "legit ?e \<lparr>seq_id = 0, msg_key = kAckKey, msg_value = to_string (unat q)\<rparr>" if "q \<noteq> 0"
      using that qs(1) by (intro legit_ack) (simp_all add: c)
    then show "\<forall>m \<in> set (send_msgs (ch ?e)) \<union> set (tasks (ch ?e)).
      m \<in> set (send_msgs (ch e)) \<union> set (tasks (ch e)) \<or> legit ?e m"
      by (auto simp: c SendAck_tasks split: if_splits)
  qed (simp_all add: c)
  moreover have "acks_ok p ?e" by (rule acks_frame [OF e(3)]) (simp add: c)
  ultimately show ?thesis using g by (simp add: step_ok_def)
qed

lemma fold_SendAck:
  fixes c :: channel
  defines "f \<equiv> fold (\<lambda>(k :: string, v :: string, q). SendAck q)"
  shows "received_msg_ids (f ms c) = received_msg_ids c" "received_ack_ids (f ms c) = received_ack_ids c"
    "chunked_values (f ms c) = chunked_values c" "received_fin (f ms c) = received_fin c"
    "peer_sent_msg_count (f ms c) = peer_sent_msg_count c" "msg_seq_id (f ms c) = msg_seq_id c"
    "disable_msg_seq_id (f ms c) = disable_msg_seq_id c" "send_msgs (f ms c) = send_msgs c"
  unfolding f_def by (induction ms arbitrary: c) auto

lemma fold_SendAck_tasks:
  assumes "\<forall>m \<in> set (tasks c). P m"
    and "\<forall>(k, v, q) \<in> set ms. q \<noteq> 0 \<longrightarrow> P \<lparr>seq_id = 0, msg_key = kAckKey, msg_value = to_string (unat q)\<rparr>"
  shows "\<forall>m \<in> set (tasks (fold (\<lambda>(k :: string, v :: string, q). SendAck q) ms c)). P m"
  using assms
proof (induction ms arbitrary: c)
  case (Cons x ms)
  obtain k v q where x: "x = (k, v, q)" by (cases x)
  have "\<forall>m \<in> set (tasks (SendAck q c)). P m" using Cons.prems by (auto simp: x SendAck_tasks split: if_splits)
  from Cons.IH [OF this] Cons.prems(2) show ?case by (simp add: x)
qed simp

lemma stop_ok:
  assumes e: "sender_ok b e" "receiver_ok b p e" "acks_ok p e"
  shows "step_ok b p e (e\<lparr>ch := StopReceivingAndAckUnreadMsgs (ch e)\<rparr>)"
proof -
  let ?e = "e\<lparr>ch := StopReceivingAndAckUnreadMsgs (ch e)\<rparr>"
  note s = StopReceivingAndAckUnreadMsgs_def Let_def fold_SendAck
  have g: "grows e ?e" by (simp add: grows_def s)
  have "\<forall>(k, v, q) \<in> set (recv_msgs (ch e)). q \<in> tree_set (received_msg_ids (ch e))"
    using e(2) by (auto simp: receiver_ok_def)
  then have l: "\<forall>(k, v, q) \<in> set (recv_msgs (ch e)). q \<noteq> 0 \<longrightarrow>
      legit ?e \<lparr>seq_id = 0, msg_key = kAckKey, msg_value = to_string (unat q)\<rparr>"
    by (auto intro!: legit_ack simp: s)
  have "\<forall>m \<in> set (tasks (ch ?e)). m \<in> set (tasks (ch e)) \<or> legit ?e m"
  proof -
    have t: "tasks (ch ?e) = tasks (fold (\<lambda>(k, v, q). SendAck q) (recv_msgs (ch e)) ((ch e)\<lparr>waiting_finish := True\<rparr>))"
      by (simp add: StopReceivingAndAckUnreadMsgs_def)
    show ?thesis unfolding t by (rule fold_SendAck_tasks) (use l in auto)
  qed
  then have "sender_ok b ?e" by (intro sender_frame [OF e(1) g]) (auto simp: s)
  moreover have "receiver_ok b p ?e" using e(2) by (simp add: receiver_ok_def s)
  moreover have "acks_ok p ?e" by (rule acks_frame [OF e(3)]) (simp add: s)
  ultimately show ?thesis using g by (simp add: step_ok_def)
qed

text \<open>Steps that only move messages between queue and tasks, or set flags.\<close>

lemma quiet_ok:
  assumes e: "sender_ok b e" "receiver_ok b p e" "acks_ok p e"
    and c: "received_msg_ids c = received_msg_ids (ch e)" "received_ack_ids c = received_ack_ids (ch e)"
      "recv_msgs c = recv_msgs (ch e)" "chunked_values c = chunked_values (ch e)" "received_fin c = received_fin (ch e)"
      "peer_sent_msg_count c = peer_sent_msg_count (ch e)" "msg_seq_id c = msg_seq_id (ch e)"
      "disable_msg_seq_id c = disable_msg_seq_id (ch e)"
    and m: "\<forall>m \<in> set (send_msgs c) \<union> set (tasks c). m \<in> set (send_msgs (ch e)) \<union> set (tasks (ch e)) \<or> legit (e\<lparr>ch := c\<rparr>) m"
  shows "step_ok b p e (e\<lparr>ch := c\<rparr>)"
proof -
  have g: "grows e (e\<lparr>ch := c\<rparr>)" by (simp add: grows_def c)
  have "sender_ok b (e\<lparr>ch := c\<rparr>)" by (rule sender_frame [OF e(1) g]) (use m c in auto)
  moreover have "receiver_ok b p (e\<lparr>ch := c\<rparr>)" by (rule receiver_frame [OF e(2)]) (simp_all add: c)
  moreover have "acks_ok p (e\<lparr>ch := c\<rparr>)" by (rule acks_frame [OF e(3)]) (simp add: c)
  ultimately show ?thesis using g by (simp add: step_ok_def)
qed

lemma side_step_ok:
  assumes st: "side_step b (wire p) e e'" and b: "20 \<le> unat b"
    and e: "sender_ok b e" "receiver_ok b p e" "acks_ok p e" and p: "sender_ok b p" "receiver_ok b e p"
  shows "step_ok b p e e'"
  using st
proof cases
  case (send_async k v c)
  with enqueue_result(1) [of "ch e" k v c] enqueue_ok [OF e] e(1) show ?thesis by (auto simp: sender_ok_def)
next
  case (send_throttled k v n c)
  with enqueue_result(2) [of "ch e" k v n c] enqueue_ok [OF e] e(1) show ?thesis by (auto simp: sender_ok_def)
next
  case (send k v n c)
  with enqueue_result(3) [of "ch e" k v n c] enqueue_ok [OF e] e(1) show ?thesis by (auto simp: sender_ok_def)
next
  case pop
  show ?thesis unfolding pop
    by (rule quiet_ok [OF e]) (auto simp: send_thread_pop_def Pop_def SubmitSendTask_def SendTaskStartNotify_def split: list.splits)
next
  case (emit m r)
  have g: "grows e e'" by (simp add: grows_def emit(1))
  have "legit e m" using e(1) emit(2) by (simp add: sender_ok_def)
  moreover have l: "legit e m \<longleftrightarrow> legit e' m" for m by (simp add: legit_def emit(1) numbered_def entry_def)
  ultimately have "sender_ok b e'" using e(1) emit(3) unfolding sender_ok_def l by (auto simp: emit(1))
  moreover have "receiver_ok b p e'" by (rule receiver_frame [OF e(2)]) (simp_all add: emit(1))
  moreover have "acks_ok p e'" by (rule acks_frame [OF e(3)]) (simp add: emit(1))
  ultimately show ?thesis using g by (simp add: step_ok_def)
next
  case (finish m)
  show ?thesis unfolding finish(1)
    by (rule quiet_ok [OF e]) (auto simp: finish_task_def SendTaskFinishedNotify_def Let_def dest: set_remove1_subset [THEN subsetD])
next
  case (deliver r)
  then show ?thesis using OnRequest_ok [OF p(1) _ b e p(2)] by simp
next
  case (recv k v c q)
  then show ?thesis using recv_ok [OF e] by simp
next
  case stop
  then show ?thesis using stop_ok [OF e] by simp
next
  case fin
  have "unat (msg_seq_id (ch e)) \<le> length (sent e)" using e(1) by (simp add: sender_ok_def)
  then show ?thesis unfolding fin
    by (intro quiet_ok [OF e])
      (auto simp: send_fin_def SubmitSendTask_def SendTaskStartNotify_def intro!: legit_fin)
next
  case stop_thread
  show ?thesis unfolding stop_thread by (rule quiet_ok [OF e]) (auto simp: stop_send_thread_def)
next
  case abort
  show ?thesis unfolding abort by (rule quiet_ok [OF e]) (auto simp: Abort_def stop_send_thread_def)
next
  case (window w)
  show ?thesis unfolding window by (rule quiet_ok [OF e]) auto
qed

theorem reachable_inv: "reachable b n \<Longrightarrow> 20 \<le> unat b \<Longrightarrow> link_inv b n"
proof (induction rule: reachable.induct)
  case init
  then show ?case
    by (simp add: link_inv_def new_link_def new_endpoint_def new_channel_def sender_ok_def receiver_ok_def
        acks_ok_def chunks_ok_def empty_tree_inv)
next
  case (step n s e)
  let ?p = "n (\<not> s)" and ?e = "n s"
  have old: "sender_ok b ?e" "receiver_ok b ?p ?e" "acks_ok ?p ?e" "sender_ok b ?p" "receiver_ok b ?e ?p" "acks_ok ?e ?p"
    using step.IH [OF step.prems, unfolded link_inv_def, THEN spec [of _ s]]
      step.IH [OF step.prems, unfolded link_inv_def, THEN spec [of _ "\<not> s"]] by simp_all
  have new: "step_ok b ?p ?e e"
    by (rule side_step_ok [OF step.hyps(2) step.prems old(1-5)])
  then have "receiver_ok b e ?p" "acks_ok e ?p"
    using receiver_ok_grows [OF _ old(5)] acks_ok_grows [OF _ old(6)] by (simp_all add: step_ok_def)
  with new old(4) show ?case
    unfolding link_inv_def by (intro allI; case_tac "sa = s"; simp add: step_ok_def)
qed

subsection \<open>What the answers are\<close>

lemma OnMessage_answer:
  assumes p: "sender_ok b p" and m: "legit p m" and e: "receiver_ok b p e"
    and c: "recv_msgs c = recv_msgs (ch e)" "received_msg_ids c = received_msg_ids (ch e)"
  shows "fst (OnMessage (msg_key m) (msg_value m) c) = Inr ()
    \<or> fst (OnMessage (msg_key m) (msg_value m) c) = Inl Duplicate_key \<and> \<not> distinct (map fst (sent p))"
  using m
proof (cases rule: legit_cases)
  case (data q)
  define k v where "k = fst (entry p q)" and "v = snd (entry p q)"
  have kv: "entry p q = (k, v)" by (simp add: k_def v_def)
  have q0: "q \<noteq> - 1" "q > 0" using numbered_valid [OF p data(1)] by simp_all
  have "(k, v) \<in> set (sent p)" using entry_sent [OF data(1)] kv by simp
  then have "NormalMessageKeyEnforce k = Inr ()" using p by (auto simp: sender_ok_def)
  note split = Split_Build [OF this, of q]
  have ti: "tree_inv (received_msg_ids c)" using e by (simp add: receiver_ok_def c)
  obtain fresh ids where ins: "Insert (received_msg_ids c) q = (fresh, ids)" by (cases "Insert (received_msg_ids c) q")
  note I = Insert_spec [OF ti q0(1) ins]
  have OM: "OnMessage (msg_key m) (msg_value m) c = OnNormalMessage (BuildChannelKey k q) v c"
    using Build_not_control by (simp add: data(2) OnMessage_def k_def v_def)
  show ?thesis
  proof (cases "fresh \<and> k \<in> fst ` set (recv_msgs c)")
    case True
    then obtain v' q' where o: "(k, v', q') \<in> set (recv_msgs (ch e))" by (auto simp: c)
    then have q': "q' \<in> tree_set (received_msg_ids (ch e))" "entry p q' = (k, v')" "numbered p q'"
      using e by (auto simp: receiver_ok_def)
    have "q \<noteq> q'" using q'(1) I(3) True by (auto simp: c)
    then have "unat q \<noteq> unat q'" using unsigned_word_eqI by blast
    then have "unat q - 1 \<noteq> unat q' - 1" using data(1) q'(3) unfolding numbered_def by linarith
    moreover have "unat q - 1 < length (sent p)" "unat q' - 1 < length (sent p)"
      using data(1) q'(3) by (auto simp: numbered_def)
    moreover have "map fst (sent p) ! (unat q - 1) = map fst (sent p) ! (unat q' - 1)"
      using calculation kv q'(2) by (simp add: entry_def)
    ultimately have "\<not> distinct (map fst (sent p))" by (metis distinct_conv_nth length_map)
    then show ?thesis by (auto simp: OM OnNormalMessage_def split ins Let_def split: prod.splits)
  next
    case False
    then have "fst (OnNormalMessage (BuildChannelKey k q) v c) = Inr ()"
      by (auto simp: OnNormalMessage_def split ins Let_def emplace_def)
    then show ?thesis unfolding OM by simp
  qed
next
  case (ack q)
  then show ?thesis by (simp add: OnMessage_def ViewToSizeT_to_string)
next
  case (fin q)
  then show ?thesis using control_keys by (simp add: OnMessage_def ViewToSizeT_to_string)
qed

subsection \<open>Consequences\<close>

lemma link_facts:
  assumes "reachable b n" and "20 \<le> unat b"
  shows "sender_ok b (n s)" "receiver_ok b (n (\<not> s)) (n s)" "acks_ok (n (\<not> s)) (n s)"
  using reachable_inv [OF assms] unfolding link_inv_def by simp_all

lemma link_receiver:
  "reachable b n \<Longrightarrow> 20 \<le> unat b \<Longrightarrow> receiver_ok b (n s) (n (\<not> s))"
  using link_facts(2) [of b n "\<not> s"] by simp

lemma delivered_once:
  assumes "reachable b n" and "20 \<le> unat b"
  shows "distinct (map fst (got (n s)))"
    and "(q, k, v) \<in> set (got (n s)) \<Longrightarrow> numbered (n (\<not> s)) q \<and> sent (n (\<not> s)) ! (unat q - 1) = (k, v)"
  using link_facts(2) [OF assms, of s] by (auto simp: receiver_ok_def entry_def)

lemma ids_arrived:
  assumes "tree_inv t" and "unat m = N" and "m = 0 \<or> all_from_one t m" and "1 \<le> i" "i \<le> N"
  shows "word_of_nat i \<in> tree_set t"
proof -
  have "unat m < 2 ^ 64" using unsigned_less [of m] by simp
  then have "i < 2 ^ 64" using assms(2,5) by simp
  then have u: "unat (word_of_nat i :: 64 word) = i" by (rule unat_of_nat64)
  then have "word_of_nat i \<in> {1 .. m}" using assms(2,4,5) by (simp add: word_le_nat_alt)
  moreover have "m \<noteq> 0" using assms(2,4,5) by auto
  ultimately show ?thesis using all_from_one_complete [OF assms(1), of m] assms(3) by blast
qed

lemma acked_means_arrived:
  assumes "reachable b n" and "20 \<le> unat b" and "WaitForFlyingAck (ch (n s)) = Returns ()"
    and "1 \<le> i" "i \<le> length (sent (n s))"
  shows "word_of_nat i \<in> tree_set (received_msg_ids (ch (n (\<not> s))))"
proof -
  have "unat (msg_seq_id (ch (n s))) = length (sent (n s))"
    using link_facts(1) [OF assms(1,2)] by (simp add: sender_ok_def)
  moreover have "msg_seq_id (ch (n s)) = 0 \<or> all_from_one (received_ack_ids (ch (n s))) (msg_seq_id (ch (n s)))"
    using assms(3) by (auto simp: WaitForFlyingAck_def split: if_splits)
  moreover have "tree_inv (received_ack_ids (ch (n s)))"
    "tree_set (received_ack_ids (ch (n s))) \<subseteq> tree_set (received_msg_ids (ch (n (\<not> s))))"
    using link_facts(3) [OF assms(1,2), of s] by (simp_all add: acks_ok_def)
  ultimately show ?thesis using ids_arrived assms(4,5) by blast
qed

lemma fin_means_arrived:
  assumes "reachable b n" and "20 \<le> unat b" and "WaitForFinAndFlyingMsg (ch (n s)) = Returns ()"
    and "1 \<le> i" "i \<le> unat (peer_sent_msg_count (ch (n s)))"
  shows "word_of_nat i \<in> tree_set (received_msg_ids (ch (n s))) \<and> i \<le> length (sent (n (\<not> s)))"
proof -
  note r = link_facts(2) [OF assms(1,2), of s, unfolded receiver_ok_def]
  have w: "received_fin (ch (n s))" "peer_sent_msg_count (ch (n s)) = 0 \<or>
      all_from_one (received_msg_ids (ch (n s))) (peer_sent_msg_count (ch (n s)))"
    using assms(3) by (auto simp: WaitForFinAndFlyingMsg_def split: if_splits)
  have "word_of_nat i \<in> tree_set (received_msg_ids (ch (n s)))"
    by (rule ids_arrived [OF _ refl w(2) assms(4,5)]) (use r in simp)
  with r w(1) assms(5) show ?thesis by auto
qed

lemma answers_safe:
  assumes "reachable b n" and "20 \<le> unat b" and "r \<in> wire (n (\<not> s))"
  shows "fst (OnRequest r (ch (n s))) \<in> {Inr (), Inl Link_aborted, Inl Duplicate_key}
    \<and> (distinct (map fst (sent (n (\<not> s)))) \<longrightarrow> fst (OnRequest r (ch (n s))) \<noteq> Inl Duplicate_key)"
proof -
  note p = link_facts(1) [OF assms(1,2), of "\<not> s"] and e = link_facts [OF assms(1,2), of s]
  have "answers (n (\<not> s)) (ch (n s)) (fst (OnRequest r (ch (n s))))"
    using OnRequest_ok [OF p assms(3,2) e link_receiver [OF assms(1,2)]] by simp
  then show ?thesis
    unfolding answers_def
  proof (elim disjE exE conjE)
    fix m c'
    assume m: "legit (n (\<not> s)) m" and f: "fst (OnRequest r (ch (n s))) = fst (OnMessage (msg_key m) (msg_value m) c')"
      and c': "recv_msgs c' = recv_msgs (ch (n s))" "received_msg_ids c' = received_msg_ids (ch (n s))"
    from OnMessage_answer [OF p m e(2) c'] show ?thesis unfolding f by auto
  qed simp_all
qed

subsection \<open>A sample run\<close>

text \<open>
  One side sends a message and its fin message; the other receives both, reads the message and
  acknowledges it; the first one gets the acknowledgement.
\<close>

definition sample_data :: request where
  "sample_data = Mono (BuildChannelKey ''k'' 1) ''v''"

definition sample_sender :: endpoint where
  "sample_sender =
     \<lparr>ch = send_fin (send_thread_pop (snd (SendAsync ''k'' ''v'' new_channel))),
      wire = {Mono kFinKey ''1'', sample_data}, sent = [(''k'', ''v'')], got = []\<rparr>"

definition sample_receiver :: endpoint where
  "sample_receiver =
     (let c = snd (OnRequest (Mono kFinKey ''1'') (snd (OnRequest sample_data new_channel)))
      in \<lparr>ch = snd (Recv ''k'' c), wire = {Mono kAckKey ''1''}, sent = [], got = [(1, ''k'', ''v'')]\<rparr>)"

definition sample_link :: link where
  "sample_link =
     (\<lambda>s. if s then sample_sender\<lparr>ch := snd (OnRequest (Mono kAckKey ''1'') (ch sample_sender))\<rparr> else sample_receiver)"

lemmas sample_defs = sample_data_def SendAsync_def enqueue_def send_thread_pop_def Pop_def SubmitSendTask_def
  SendTaskStartNotify_def send_fin_def new_channel_def NormalMessageKeyEnforce_def

lemma find_seq_k: "find_str kSeqKey ''k'' = None"
  by (simp add: find_str.simps kSeqKey_def)

lemma one_digit: "to_string 1 = ''1''" "to_string (Suc 0) = ''1''"
  by (simp_all add: to_string.simps char_of_def bit_Suc_0_iff)

lemma sample_split: "SplitChannelKey (BuildChannelKey ''k'' 1) = Inr (''k'', 1)" "ViewToSizeT ''1'' = Inr 1"
  using Split_Build [of "''k''" 1] ViewToSizeT_to_string [of 1] by (simp_all add: NormalMessageKeyEnforce_def find_seq_k one_digit)

lemma new_channel_flags [simp]:
  "\<not> aborting new_channel" "\<not> waiting_finish new_channel" "\<not> disable_msg_seq_id new_channel"
  "msg_seq_id new_channel = 0" "send_msgs new_channel = []" "tasks new_channel = []" "recv_msgs new_channel = []"
  "received_msg_ids new_channel = empty_tree" "received_ack_ids new_channel = empty_tree" "\<not> received_fin new_channel"
  by (simp_all add: new_channel_def)

lemma sample_key: "NormalMessageKeyEnforce ''k'' = Inr ()"
  by (simp add: NormalMessageKeyEnforce_def find_seq_k)

lemma reachable_upd: "reachable b n \<Longrightarrow> side_step b (wire (n (\<not> s))) (n s) e \<Longrightarrow> n' = n(s := e) \<Longrightarrow> reachable b n'"
  using reachable.step by blast

definition both_sides :: "endpoint \<Rightarrow> endpoint \<Rightarrow> link" where "both_sides e f = (\<lambda>s. if s then e else f)"

lemma left_step: "reachable b (both_sides e f) \<Longrightarrow> side_step b (wire f) e e' \<Longrightarrow> reachable b (both_sides e' f)"
  by (erule reachable_upd [where s = True]) (auto simp: both_sides_def)
lemma right_step: "reachable b (both_sides e f) \<Longrightarrow> side_step b (wire e) f f' \<Longrightarrow> reachable b (both_sides e f')"
  by (erule reachable_upd [where s = False]) (auto simp: both_sides_def)

lemma sample_sent: "reachable 20 (both_sides sample_sender new_endpoint)"
proof -
  have 0: "reachable 20 (both_sides new_endpoint new_endpoint)"
    using reachable.init by (simp add: both_sides_def new_link_def cong: if_cong)
  let ?c1 = "snd (SendAsync ''k'' ''v'' new_channel)"
  have c1: "SendAsync ''k'' ''v'' new_channel = (Inr (), ?c1)"
    by (simp add: SendAsync_def sample_key)
  have w: "(0 :: 64 word) < - 2" by (simp add: word_neq_0_conv [symmetric])
  let ?e1 = "\<lparr>ch = ?c1, wire = {}, sent = [(''k'', ''v'')], got = []\<rparr>"
  have 1: "reachable 20 (both_sides ?e1 new_endpoint)"
    by (rule left_step [OF 0]) (use side_step.send_async [of "''k''" "''v''" new_endpoint ?c1 20] c1 w in \<open>simp add: new_endpoint_def\<close>)
  have 2: "reachable 20 (both_sides (?e1\<lparr>ch := send_fin (send_thread_pop ?c1)\<rparr>) new_endpoint)"
    using left_step [OF left_step [OF 1 side_step.pop] side_step.fin] by simp
  let ?e2 = "?e1\<lparr>ch := send_fin (send_thread_pop ?c1)\<rparr>"
  have t: "set (tasks (ch ?e2)) = {\<lparr>seq_id = 1, msg_key = BuildChannelKey ''k'' 1, msg_value = ''v''\<rparr>,
      \<lparr>seq_id = 0, msg_key = kFinKey, msg_value = ''1''\<rparr>}"
    by (auto simp: sample_defs Let_def one_digit find_seq_k)
  have 3: "reachable 20 (both_sides (?e2\<lparr>wire := {sample_data}\<rparr>) new_endpoint)"
    using left_step [OF 2 side_step.emit [of "\<lparr>seq_id = 1, msg_key = BuildChannelKey ''k'' 1, msg_value = ''v''\<rparr>" _ sample_data]]
    using t by (simp add: SendImpl_def SendMono_def sample_data_def)
  have 4: "reachable 20 (both_sides (?e2\<lparr>wire := {Mono kFinKey ''1'', sample_data}\<rparr>) new_endpoint)"
    using left_step [OF 3 side_step.emit [of "\<lparr>seq_id = 0, msg_key = kFinKey, msg_value = ''1''\<rparr>" _ "Mono kFinKey ''1''"]]
    using t by (simp add: SendImpl_def SendMono_def sample_data_def)
  then show ?thesis by (simp add: sample_sender_def)
qed


lemma sample_delivery:
  "SplitChannelKey (BuildChannelKey ''k'' 1) = Inr (''k'', 1)"
  "OnRequest sample_data new_channel = (Inr (), new_channel\<lparr>received_msg_ids := snd (Insert empty_tree 1), recv_msgs := [(''k'', ''v'', 1)]\<rparr>)"
  using Build_not_control [of "''k''" 1] by (auto simp: sample_split sample_data_def OnRequest_def OnMessage_def OnNormalMessage_def Let_def Insert_def empty_tree_def emplace_def)

lemma sample_fin:
  "\<not> aborting c \<Longrightarrow> \<not> received_fin c \<Longrightarrow> OnRequest (Mono kFinKey ''1'') c = (Inr (), c\<lparr>received_fin := True, peer_sent_msg_count := 1\<rparr>)"
  using control_keys by (auto simp: OnRequest_def OnMessage_def sample_split)

lemma sample_ack:
  "\<not> aborting c \<Longrightarrow> OnRequest (Mono kAckKey ''1'') c = (Inr (), c\<lparr>received_ack_ids := snd (Insert (received_ack_ids c) 1)\<rparr>)"
  by (simp add: OnRequest_def OnMessage_def sample_split)

lemma sample_received: "reachable 20 (both_sides sample_sender sample_receiver)"
proof -
  let ?d = "snd (OnRequest (Mono kFinKey ''1'') (snd (OnRequest sample_data new_channel)))"
  have 1: "reachable 20 (both_sides sample_sender (new_endpoint\<lparr>ch := ?d\<rparr>))"
    using right_step [OF right_step [OF sample_sent side_step.deliver [of sample_data]] side_step.deliver [of "Mono kFinKey ''1''"]]
    by (simp add: sample_sender_def new_endpoint_def)
  have d: "?d = new_channel\<lparr>received_msg_ids := snd (Insert empty_tree 1), recv_msgs := [(''k'', ''v'', 1)],
      received_fin := True, peer_sent_msg_count := 1\<rparr>"
    by (simp add: sample_delivery sample_fin)
  have r: "Recv ''k'' ?d = (Returns ''v'', snd (Recv ''k'' ?d))"
    by (simp add: d Recv_def sample_key recv_poll_def)
  have 2: "reachable 20 (both_sides sample_sender (sample_receiver\<lparr>wire := {}\<rparr>))"
    by (rule right_step [OF 1]) (use side_step.recv [of "''k''" "new_endpoint\<lparr>ch := ?d\<rparr>" "''v''" "snd (Recv ''k'' ?d)" 1 20]
      r in \<open>simp add: new_endpoint_def sample_receiver_def Let_def d\<close>)
  have "\<lparr>seq_id = 0, msg_key = kAckKey, msg_value = ''1''\<rparr> \<in> set (tasks (ch sample_receiver))"
    by (simp add: sample_receiver_def Let_def d Recv_def sample_key recv_poll_def SendAck_def SubmitSendTask_def
      SendTaskStartNotify_def one_digit)
  then have "side_step 20 (wire sample_sender) (sample_receiver\<lparr>wire := {}\<rparr>) sample_receiver"
    using side_step.emit [of "\<lparr>seq_id = 0, msg_key = kAckKey, msg_value = ''1''\<rparr>" "sample_receiver\<lparr>wire := {}\<rparr>" "Mono kAckKey ''1''" 20]
    by (simp add: SendImpl_def SendMono_def) (simp add: sample_receiver_def Let_def)
  with 2 show ?thesis by (rule right_step)
qed

lemma sample_reachable: "reachable 20 sample_link"
proof -
  have "Mono kAckKey ''1'' \<in> wire sample_receiver" by (simp add: sample_receiver_def Let_def)
  from left_step [OF sample_received side_step.deliver [OF this]] show ?thesis
    by (simp add: sample_link_def both_sides_def)
qed

lemma sample_facts:
  "got (sample_link False) = [(1, ''k'', ''v'')]" "sent (sample_link True) = [(''k'', ''v'')]" "sample_data \<in> wire (sample_link True)"
  by (simp_all add: sample_link_def sample_receiver_def sample_sender_def Let_def)

lemma sample_waits:
  "WaitForFlyingAck (ch (sample_link True)) = Returns ()"
  "WaitForFinAndFlyingMsg (ch (sample_link False)) = Returns ()"
  "peer_sent_msg_count (ch (sample_link False)) = 1"
proof -
  have a: "all_from_one (snd (Insert empty_tree 1)) 1"
    by (simp add: all_from_one_def SegmentsCount_def Insert_def empty_tree_def Contains_def word_le_nat_alt)
  have s: "\<not> aborting (ch sample_sender)" "msg_seq_id (ch sample_sender) = 1" "received_ack_ids (ch sample_sender) = empty_tree"
    by (simp_all add: sample_sender_def sample_defs find_seq_k Let_def)
  show "WaitForFlyingAck (ch (sample_link True)) = Returns ()"
    using a s by (simp add: sample_link_def sample_ack WaitForFlyingAck_def)
  show "WaitForFinAndFlyingMsg (ch (sample_link False)) = Returns ()" "peer_sent_msg_count (ch (sample_link False)) = 1"
    using a by (simp_all add: sample_link_def sample_receiver_def Let_def sample_delivery sample_fin Recv_def sample_key
      recv_poll_def SendAck_def SubmitSendTask_def SendTaskStartNotify_def WaitForFinAndFlyingMsg_def)
qed

end
