(* ===== verification/Prg.thy ===== *)
theory Prg
  imports Prelude
begin

text \<open>
  \<^verbatim>\<open>theoretical_tools/prg.cc\<close> and \<^verbatim>\<open>prg.h\<close>: pseudo-random bytes from a block cipher, the generator with
  a buffer, and reduction modulo Mersenne primes.

  The cipher itself is OpenSSL's and an argument of the model: \<open>enc type key iv bytes\<close> is what a
  fresh context of that type makes of a byte string.  What the theorems use of it is \<open>ecb_mode\<close>:
  in the two ECB modes the blocks are encrypted one by one and the initial vector plays no role.
  The theorems: filling a buffer gives the encryptions of consecutive counters, whether or not the
  length is a multiple of the block size; the values of the generator do not depend on the size of
  its buffer; the reductions terminate and are reductions.
\<close>

unbundle bit_operations_syntax

datatype BlockCipherTy = AES128_ECB | AES128_CBC | AES128_CTR | SM4_ECB | SM4_CBC | SM4_CTR

type_synonym cipher = "BlockCipherTy \<Rightarrow> 128 word \<Rightarrow> 128 word \<Rightarrow> byte list \<Rightarrow> byte list"

subsection \<open>The bytes of a \<^verbatim>\<open>uint128_t\<close>\<close>

definition bytes_of_u128 :: "128 word \<Rightarrow> byte list" where
  "bytes_of_u128 w = map (\<lambda>i. ucast (drop_bit (8 * i) w)) [0 ..< 16]"

definition u128_of_bytes :: "byte list \<Rightarrow> 128 word" where
  "u128_of_bytes bs = word_of_int (le_val bs)"

definition u128s_of_bytes :: "byte list \<Rightarrow> 128 word list" where
  "u128s_of_bytes bs = map (\<lambda>i. u128_of_bytes (take 16 (drop (16 * i) bs))) [0 ..< length bs div 16]"

subsection \<open>Filling a buffer\<close>

definition BlockSize :: nat where
  "BlockSize = 16"

definition EcbMakeContentBlocks :: "128 word \<Rightarrow> nat \<Rightarrow> byte list" where
  "EcbMakeContentBlocks count n = concat (map (\<lambda>i. bytes_of_u128 (count + word_of_nat i)) [0 ..< n])"

text \<open>The new counter and the bytes.\<close>

definition FillPRand ::
    "cipher \<Rightarrow> BlockCipherTy \<Rightarrow> 128 word \<Rightarrow> 64 word \<Rightarrow> 64 word \<Rightarrow> nat \<Rightarrow> 64 word \<times> byte list" where
  "FillPRand enc type seed iv count nbytes =
     (let nblock = (nbytes + BlockSize - 1) div BlockSize;
          padding_bytes = nbytes mod BlockSize;
          isCTR = (type = AES128_CTR \<or> type = SM4_CTR);
          buf =
            (if isCTR then enc type seed (ucast count) (replicate nbytes 0)
             else if padding_bytes = 0 then enc type seed (ucast iv) (EcbMakeContentBlocks (ucast count) nblock)
             else if type = AES128_ECB \<or> type = SM4_ECB then
               (let first = (if nblock > 1
                             then enc type seed (ucast iv) (EcbMakeContentBlocks (ucast count) (nblock - 1)) else []);
                    padding = enc type seed (ucast iv) (bytes_of_u128 (ucast (count + word_of_nat nblock - 1)))
                in first @ take padding_bytes padding)
             else take nbytes (enc type seed (ucast iv) (EcbMakeContentBlocks (ucast count) nblock)))
      in (count + word_of_nat nblock, buf))"

subsection \<open>The generator\<close>

datatype PRG_MODE = kAesEcb | kSm4Ecb

fun mode_cipher :: "PRG_MODE \<Rightarrow> BlockCipherTy" where
  "mode_cipher kAesEcb = AES128_ECB"
| "mode_cipher kSm4Ecb = SM4_ECB"

record prg =
  prg_seed :: "128 word"
  prg_counter :: "128 word"
  cipher_budget :: "128 word list"
  num_consumed :: nat
  prg_mode :: PRG_MODE

definition SetSeed :: "128 word \<Rightarrow> prg \<Rightarrow> prg" where
  "SetSeed seed p = p\<lparr>prg_seed := seed, prg_counter := 0\<rparr>"

definition SetStatus :: "128 word \<Rightarrow> 128 word \<Rightarrow> prg \<Rightarrow> prg" where
  "SetStatus seed counter p = p\<lparr>prg_seed := seed, prg_counter := counter\<rparr>"

text \<open>The constructor, for values of type \<^verbatim>\<open>uint128_t\<close> and a buffer of \<open>batch_size\<close> values.\<close>

definition new_prg :: "nat \<Rightarrow> 128 word \<Rightarrow> PRG_MODE \<Rightarrow> prg" where
  "new_prg batch_size seed mode =
     SetSeed seed \<lparr>prg_seed = 0, prg_counter = 0, cipher_budget = replicate batch_size 0,
       num_consumed = batch_size, prg_mode = mode\<rparr>"

definition kInitVector :: "64 word" where
  "kInitVector = 0"

definition GenerateBudgets :: "cipher \<Rightarrow> prg \<Rightarrow> prg" where
  "GenerateBudgets enc p =
     (let cipher_size = length (cipher_budget p) * 16;
          (counter, buf) = FillPRand enc (mode_cipher (prg_mode p)) (prg_seed p) kInitVector (ucast (prg_counter p)) cipher_size
      in p\<lparr>prg_counter := ucast counter, cipher_budget := u128s_of_bytes buf\<rparr>)"

definition prg_next :: "cipher \<Rightarrow> prg \<Rightarrow> 128 word \<times> prg" where
  "prg_next enc p =
     (let p = (if num_consumed p = length (cipher_budget p) then (GenerateBudgets enc p)\<lparr>num_consumed := 0\<rparr> else p)
      in (cipher_budget p ! num_consumed p, p\<lparr>num_consumed := num_consumed p + 1\<rparr>))"

definition Fill :: "cipher \<Rightarrow> nat \<Rightarrow> prg \<Rightarrow> byte list \<times> prg" where
  "Fill enc n p =
     (let (counter, buf) = FillPRand enc (mode_cipher (prg_mode p)) (prg_seed p) kInitVector (ucast (prg_counter p)) n
      in (buf, p\<lparr>prg_counter := ucast counter\<rparr>))"

fun prg_outputs :: "cipher \<Rightarrow> nat \<Rightarrow> prg \<Rightarrow> 128 word list \<times> prg" where
  "prg_outputs enc 0 p = ([], p)"
| "prg_outputs enc (Suc n) p =
     (let (x, p) = prg_next enc p; (xs, p) = prg_outputs enc n p in (x # xs, p))"

subsection \<open>Mersenne primes\<close>

datatype container = U128 | U64 | U32 | U8

fun GetMersennePrimeBitWidth :: "container \<Rightarrow> nat" where
  "GetMersennePrimeBitWidth U128 = 127"
| "GetMersennePrimeBitWidth U64 = 61"
| "GetMersennePrimeBitWidth U32 = 31"
| "GetMersennePrimeBitWidth U8 = 7"

fun GetMersennePrimeMask :: "container \<Rightarrow> 128 word" where
  "GetMersennePrimeMask U128 = drop_bit 1 (- 1)"
| "GetMersennePrimeMask U64 = ucast (drop_bit 3 (- 1 :: 64 word))"
| "GetMersennePrimeMask U32 = ucast (drop_bit 1 (- 1 :: 32 word))"
| "GetMersennePrimeMask U8 = ucast (drop_bit 1 (- 1 :: 8 word))"

text \<open>\<^verbatim>\<open>MersennePrimeMod\<close> for the two wide types: one conditional subtraction.\<close>

definition mersenne_wide :: "container \<Rightarrow> 128 word \<Rightarrow> 64 word \<Rightarrow> 128 word" where
  "mersenne_wide T rand aux_rand =
     (let k_mask = GetMersennePrimeMask T;
          i = (rand AND k_mask) + ucast aux_rand
      in if i > k_mask then i - k_mask else i)"

text \<open>For the two narrow types: a loop.\<close>

definition mersenne_step :: "container \<Rightarrow> 128 word \<Rightarrow> 128 word" where
  "mersenne_step T all_rand =
     (let k_mask = GetMersennePrimeMask T;
          i = (all_rand AND k_mask) + drop_bit (GetMersennePrimeBitWidth T) all_rand
      in if i \<ge> k_mask then i - k_mask else i)"

lemma width_mask: "GetMersennePrimeMask T = mask (GetMersennePrimeBitWidth T)"
  by (cases T) (simp_all add: mask_eq_exp_minus_1)

lemma width_range: "1 < GetMersennePrimeBitWidth T" "GetMersennePrimeBitWidth T < 128"
  by (cases T; simp)+

definition mersenne :: "container \<Rightarrow> nat" where
  "mersenne T = 2 ^ GetMersennePrimeBitWidth T - 1"

lemma mersenne_gt1: "1 < mersenne T"
  by (cases T) (simp_all add: mersenne_def)

lemma mersenne_Suc: "2 ^ GetMersennePrimeBitWidth T = mersenne T + 1"
  by (simp add: mersenne_def)

lemma unat_mask: "unat (GetMersennePrimeMask T) = mersenne T"
proof -
  let ?b = "GetMersennePrimeBitWidth T"
  have "GetMersennePrimeMask T = word_of_nat (mersenne T)"
    by (simp add: width_mask mask_eq_exp_minus_1 of_nat_diff mersenne_def)
  moreover have "(2 :: nat) ^ ?b < 2 ^ 128" using width_range(2) by (intro power_strict_increasing) simp_all
  then have "mersenne T < 2 ^ 128" by (simp only: mersenne_Suc)
  ultimately show ?thesis by (simp only: unat_of_nat) simp
qed

lemma unat_and_mask: "unat (r AND GetMersennePrimeMask T) = unat r mod (mersenne T + 1)"
proof -
  have "r AND GetMersennePrimeMask T = take_bit (GetMersennePrimeBitWidth T) r"
    by (simp only: width_mask take_bit_eq_mask)
  then have "unat (r AND GetMersennePrimeMask T) = take_bit (GetMersennePrimeBitWidth T) (unat r)"
    by (simp only: unsigned_take_bit_eq)
  then show ?thesis by (simp only: take_bit_eq_mod mersenne_Suc)
qed

lemma unat_drop_width: "unat (drop_bit (GetMersennePrimeBitWidth T) r) = unat r div (mersenne T + 1)" for r :: "128 word"
proof -
  have "unat (drop_bit (GetMersennePrimeBitWidth T) r) = drop_bit (GetMersennePrimeBitWidth T) (unat r)"
  proof -
    have "unat r < 2 ^ 128" using unsigned_less [of r] by simp
    then have "take_bit 128 (unat r) = unat r" by (rule take_bit_nat_eq_self)
    then show ?thesis by (simp add: unsigned_drop_bit_eq del: drop_bit_eq_div)
  qed
  then show ?thesis by (simp only: drop_bit_eq_div mersenne_Suc)
qed

lemma unat_add_small: "unat x + unat y < 2 ^ 128 \<Longrightarrow> unat (x + y) = unat x + unat y" for x y :: "128 word"
  by (simp add: unat_word_ariths)

text \<open>The arithmetic of one round.\<close>

definition fold_round :: "nat \<Rightarrow> nat \<Rightarrow> nat" where
  "fold_round p r = (let i = r mod (p + 1) + r div (p + 1) in if i \<ge> p then i - p else i)"

lemma fold_round_spec:
  assumes "1 < p"
  shows "fold_round p r mod p = r mod p" and "fold_round p r \<ge> p \<Longrightarrow> fold_round p r < r"
    and "r mod (p + 1) + r div (p + 1) \<le> r"
proof -
  define i where "i = r mod (p + 1) + r div (p + 1)"
  have r: "r = i + r div (p + 1) * p"
    using div_mult_mod_eq [of r "p + 1"] by (simp add: i_def algebra_simps)
  then show "r mod (p + 1) + r div (p + 1) \<le> r" by (simp add: i_def)
  have "r mod p = (i + r div (p + 1) * p) mod p" using r by simp
  then have i: "i mod p = r mod p" by simp
  have f: "fold_round p r = (if i \<ge> p then i - p else i)" by (simp add: fold_round_def i_def Let_def)
  show "fold_round p r mod p = r mod p"
    using i by (auto simp: f le_mod_geq)
  assume "fold_round p r \<ge> p"
  then have "2 * p \<le> i" by (auto simp: f split: if_splits)
  moreover have "i \<le> p + r div (p + 1)" using mod_less_divisor [of "p + 1" r] by (simp add: i_def)
  ultimately have "p \<le> r div (p + 1)" by linarith
  then have "0 < r div (p + 1) * p" using assms by simp
  then have "i < r" using r by linarith
  then show "fold_round p r < r" by (auto simp: f)
qed

lemma mersenne_step_nat: "unat (mersenne_step T r) = fold_round (mersenne T) (unat r)"
proof -
  have "unat r < 2 ^ 128" using unsigned_less [of r] by simp
  with fold_round_spec(3) [OF mersenne_gt1 [of T], of "unat r"] have
    "unat ((r AND GetMersennePrimeMask T) + drop_bit (GetMersennePrimeBitWidth T) r)
      = unat r mod (mersenne T + 1) + unat r div (mersenne T + 1)"
    by (intro trans [OF unat_add_small]) (simp_all only: unat_and_mask unat_drop_width)
  then show ?thesis
    by (auto simp: mersenne_step_def fold_round_def Let_def word_le_nat_alt unat_mask unat_sub)
qed

function mersenne_loop :: "container \<Rightarrow> 128 word \<Rightarrow> 128 word" where
  "mersenne_loop T all_rand =
     (let all_rand = mersenne_step T all_rand
      in if all_rand \<ge> GetMersennePrimeMask T then mersenne_loop T all_rand else all_rand)"
  by auto

termination
  by (relation "measure (\<lambda>(T, r). unat r)")
    (simp_all add: word_le_nat_alt unat_mask mersenne_step_nat fold_round_spec(2) [OF mersenne_gt1])

declare mersenne_loop.simps [simp del]

text \<open>\<^verbatim>\<open>MersennePrimeMod\<close>, on the bytes of a value and of the statistical padding (40 bits).\<close>

definition MersennePrimeMod :: "container \<Rightarrow> byte list \<Rightarrow> 128 word option" where
  "MersennePrimeMod T buf =
     (let size = (case T of U128 \<Rightarrow> 16 | U64 \<Rightarrow> 8 | U32 \<Rightarrow> 4 | U8 \<Rightarrow> 1)
      in if length buf \<noteq> size + 5 then None
         else if T = U128 \<or> T = U64
         then Some (mersenne_wide T (u128_of_bytes (take size buf)) (word_of_int (le_val (drop size buf))))
         else Some (mersenne_loop T (u128_of_bytes buf)))"

text \<open>What \<^verbatim>\<open>FillPRandWithMersennePrime\<close> does with each value, for the two wide types.\<close>

definition mersenne_fill :: "container \<Rightarrow> 128 word \<Rightarrow> 128 word" where
  "mersenne_fill T e =
     (let k_mask = GetMersennePrimeMask T in if e AND k_mask = k_mask then 0 else e AND k_mask)"

lemma mersenne_loop_mod: "unat (mersenne_loop T r) = unat r mod mersenne T"
proof (induction T r rule: mersenne_loop.induct)
  case (1 T r)
  let ?s = "mersenne_step T r"
  have s: "unat ?s mod mersenne T = unat r mod mersenne T"
    by (simp add: mersenne_step_nat fold_round_spec(1) [OF mersenne_gt1])
  show ?case
  proof (cases "GetMersennePrimeMask T \<le> ?s")
    case True
    with "1" [OF refl] s show ?thesis by (subst mersenne_loop.simps) simp
  next
    case False
    then have "unat ?s < mersenne T" by (simp add: word_le_nat_alt unat_mask)
    with False s show ?thesis by (subst mersenne_loop.simps) simp
  qed
qed

lemma MersennePrimeMod_narrow:
  assumes "T = U32 \<or> T = U8" and "MersennePrimeMod T buf = Some x"
  shows "int (unat x) = le_val buf mod int (mersenne T)"
proof -
  have len: "length buf \<le> 9" and x: "x = mersenne_loop T (u128_of_bytes buf)"
    using assms by (auto simp: MersennePrimeMod_def split: if_splits)
  have "le_val buf < 256 ^ length buf" by (rule le_val_bound)
  also have "(256 :: int) ^ length buf \<le> 256 ^ 9" using len by (intro power_increasing) simp_all
  finally have "int (unat (u128_of_bytes buf)) = le_val buf"
    by (simp add: u128_of_bytes_def uint_nat [symmetric] uint_word_of_int)
  then show ?thesis by (simp add: x mersenne_loop_mod zmod_int)
qed

lemma mersenne_fill_less: "unat (mersenne_fill T e) < mersenne T"
proof -
  have "unat (e AND GetMersennePrimeMask T) < mersenne T + 1" by (simp add: unat_and_mask)
  moreover have "unat (e AND GetMersennePrimeMask T) \<noteq> mersenne T" if "e AND GetMersennePrimeMask T \<noteq> GetMersennePrimeMask T"
    using that unat_mask by (metis unsigned_word_eqI)
  ultimately show ?thesis using mersenne_gt1 [of T] by (force simp: mersenne_fill_def Let_def)
qed

text \<open>The single subtraction for the wide types can leave the prime itself as the result.\<close>

lemma mersenne_wide_boundary:
  "mersenne_wide U64 (GetMersennePrimeMask U64) 0 = GetMersennePrimeMask U64"
  by (simp add: mersenne_wide_def Let_def)

subsection \<open>The bytes\<close>

lemma le_val_pieces:
  "le_val (map (\<lambda>i. ucast (drop_bit (8 * i) w)) [0 ..< n]) = uint (w :: 128 word) mod 256 ^ n"
proof (induction n)
  case (Suc n)
  have b: "uint (ucast (drop_bit (8 * n) w) :: byte) = uint w div 256 ^ n mod 256"
  proof -
    have "uint (ucast (drop_bit (8 * n) w) :: byte) = uint (drop_bit (8 * n) w) mod 256"
      by (simp add: unsigned_ucast_eq take_bit_eq_mod)
    also have "uint (drop_bit (8 * n) w) = uint w div 256 ^ n"
      by (simp only: uint_drop_bit power_mult) simp
    finally show ?thesis .
  qed
  have "uint w mod (256 ^ n * 256) = 256 ^ n * (uint w div 256 ^ n mod 256) + uint w mod 256 ^ n"
    by (rule zmod_zmult2_eq) simp
  with Suc b show ?case by (simp add: le_val_append mult.commute)
qed simp

lemma u128_roundtrip [simp]: "u128_of_bytes (bytes_of_u128 w) = w" "length (bytes_of_u128 w) = 16"
proof -
  have "uint w < 256 ^ 16" using uint_lt2p [of w] by simp
  then show "u128_of_bytes (bytes_of_u128 w) = w"
    unfolding u128_of_bytes_def bytes_of_u128_def le_val_pieces by simp
qed (simp add: bytes_of_u128_def)

subsection \<open>Counter mode\<close>

text \<open>What OpenSSL documents of the ECB modes.\<close>

definition ecb_mode :: "cipher \<Rightarrow> bool" where
  "ecb_mode enc \<longleftrightarrow> (\<forall>type \<in> {AES128_ECB, SM4_ECB}. \<forall>key iv. enc type key iv [] = []
     \<and> (\<forall>b bs. length b = 16 \<longrightarrow> length (enc type key iv b) = 16 \<and> enc type key iv b = enc type key 0 b
          \<and> enc type key iv (b @ bs) = enc type key iv b @ enc type key iv bs))"

text \<open>The encryption of a counter.\<close>

definition ecb_block :: "cipher \<Rightarrow> BlockCipherTy \<Rightarrow> 128 word \<Rightarrow> nat \<Rightarrow> byte list" where
  "ecb_block enc type key i = enc type key 0 (bytes_of_u128 (word_of_nat i))"

lemma ecb_modeD:
  assumes "ecb_mode enc" and "type = AES128_ECB \<or> type = SM4_ECB"
  shows "enc type key iv [] = []" and "length b = 16 \<Longrightarrow> length (enc type key iv b) = 16"
    and "length b = 16 \<Longrightarrow> enc type key iv b = enc type key 0 b"
    and "length b = 16 \<Longrightarrow> enc type key iv (b @ bs) = enc type key iv b @ enc type key iv bs"
  using assms unfolding ecb_mode_def by blast+

lemma EcbMakeContentBlocks_Suc:
  "EcbMakeContentBlocks c (Suc n) = EcbMakeContentBlocks c n @ bytes_of_u128 (c + word_of_nat n)"
  by (simp add: EcbMakeContentBlocks_def)

lemma EcbMakeContentBlocks_Cons:
  "EcbMakeContentBlocks c (Suc n) = bytes_of_u128 c @ EcbMakeContentBlocks (c + 1) n"
proof -
  have "[0 ..< Suc n] = 0 # map Suc [0 ..< n]" by (simp add: map_Suc_upt upt_conv_Cons del: upt_Suc)
  then show ?thesis by (simp add: EcbMakeContentBlocks_def comp_def add.assoc del: upt_Suc)
qed

lemma ecb_content:
  assumes "ecb_mode enc" and "type = AES128_ECB \<or> type = SM4_ECB"
  shows "enc type key iv (EcbMakeContentBlocks (word_of_nat c) n) = concat (map (ecb_block enc type key) [c ..< c + n])"
proof (induction n arbitrary: c)
  case 0
  then show ?case using ecb_modeD(1) [OF assms] by (simp add: EcbMakeContentBlocks_def)
next
  case (Suc n)
  note ecb_modeD(3) [OF assms u128_roundtrip(2), of key iv "word_of_nat c"]
  moreover have "[c ..< c + Suc n] = c # [Suc c ..< Suc c + n]" by (simp add: upt_conv_Cons del: upt_Suc)
  moreover have "(word_of_nat c :: 128 word) + 1 = word_of_nat (Suc c)" by simp
  ultimately show ?case
    using Suc.IH [of "Suc c"]
    by (simp add: EcbMakeContentBlocks_Cons ecb_modeD(4) [OF assms u128_roundtrip(2)] ecb_block_def del: upt_Suc of_nat_Suc)
qed

lemma ecb_blocks_length:
  assumes "ecb_mode enc" and "type = AES128_ECB \<or> type = SM4_ECB"
  shows "length (concat (map (ecb_block enc type key) is)) = 16 * length is"
  using ecb_modeD(2) [OF assms u128_roundtrip(2)] by (induction "is") (simp_all add: ecb_block_def)

lemma word64_to_128: "unat c + n < 2 ^ 64 \<Longrightarrow> (ucast (c + word_of_nat n) :: 128 word) = word_of_nat (unat c + n)"
  for c :: "64 word"
proof -
  assume a: "unat c + n < 2 ^ 64"
  then have "unat (c + word_of_nat n) = unat c + n" by (simp add: unat_word_ariths unat_of_nat)
  then show ?thesis by (metis of_nat_unat)
qed

lemma fst_FillPRand: "fst (FillPRand enc type seed iv count n) = count + word_of_nat ((n + 15) div 16)"
  by (simp add: FillPRand_def Let_def BlockSize_def add.commute)

theorem FillPRand_ecb:
  assumes "ecb_mode enc" and "type = AES128_ECB \<or> type = SM4_ECB" and "unat count + (n + 15) div 16 < 2 ^ 64"
  shows "FillPRand enc type seed iv count n =
    (count + word_of_nat ((n + 15) div 16),
     take n (concat (map (ecb_block enc type seed) [unat count ..< unat count + (n + 15) div 16])))"
proof -
  let ?c = "unat count" and ?nb = "(n + 15) div 16"
  have c: "(ucast count :: 128 word) = word_of_nat ?c" by (simp only: of_nat_unat)
  have nb: "(n + BlockSize - 1) div BlockSize = ?nb" by (simp add: BlockSize_def)
  have not_ctr: "\<not> (type = AES128_CTR \<or> type = SM4_CTR)" using assms(2) by auto
  show ?thesis
  proof (cases "n mod 16 = 0")
    case True
    then have n16: "n = 16 * ?nb" by presburger
    have "length (concat (map (ecb_block enc type seed) [?c ..< ?c + ?nb])) = n"
      unfolding ecb_blocks_length [OF assms(1,2)] length_upt using n16 by simp
    then have "take n (concat (map (ecb_block enc type seed) [?c ..< ?c + ?nb])) =
        concat (map (ecb_block enc type seed) [?c ..< ?c + ?nb])" by simp
    moreover have "snd (FillPRand enc type seed iv count n) = enc type seed (ucast iv) (EcbMakeContentBlocks (ucast count) ?nb)"
      unfolding FillPRand_def nb Let_def snd_conv using not_ctr True by (simp only: BlockSize_def if_True if_False) simp
    ultimately show ?thesis
      unfolding prod_eq_iff c ecb_content [OF assms(1,2)] fst_conv snd_conv fst_FillPRand by argo
  next
    case False
    define k where "k = n div 16"
    have k2: "n = 16 * k + n mod 16" unfolding k_def by simp
    have "(16 * k + m + 15) div 16 = Suc k" if "0 < m" "m < 16" for m :: nat
      using that by (simp add: div_nat_eqI)
    from this [of "n mod 16", folded k2] False have k: "?nb = Suc k" by simp
    have "count + word_of_nat ?nb - 1 = count + word_of_nat k" unfolding k by simp
    moreover have "?c + k < 2 ^ 64" using assms(3) k by simp
    ultimately have last: "(ucast (count + word_of_nat ?nb - 1) :: 128 word) = word_of_nat (?c + k)"
      by (simp only: word64_to_128)
    have e: "enc type seed (ucast iv) (bytes_of_u128 (word_of_nat (?c + k))) = ecb_block enc type seed (?c + k)"
      unfolding ecb_block_def by (rule ecb_modeD(3) [OF assms(1,2) u128_roundtrip(2)])
    have first: "(if ?nb > 1 then enc type seed (ucast iv) (EcbMakeContentBlocks (ucast count) (?nb - 1)) else [])
        = concat (map (ecb_block enc type seed) [?c ..< ?c + k])"
      unfolding k c by (simp add: ecb_content [OF assms(1,2)] del: of_nat_unat)
    have "snd (FillPRand enc type seed iv count n) =
        concat (map (ecb_block enc type seed) [?c ..< ?c + k]) @ take (n mod 16) (ecb_block enc type seed (?c + k))"
      using False not_ctr assms(2) unfolding FillPRand_def nb Let_def first last e by (simp add: BlockSize_def)
    also have "\<dots> = take (16 * k + n mod 16) (concat (map (ecb_block enc type seed) [?c ..< ?c + ?nb]))"
      by (simp add: k ecb_blocks_length [OF assms(1,2)])
    also have "\<dots> = take n (concat (map (ecb_block enc type seed) [?c ..< ?c + ?nb]))"
      unfolding k2 [symmetric] ..
    finally show ?thesis unfolding prod_eq_iff fst_conv snd_conv fst_FillPRand by argo
  qed
qed

text \<open>The generator.  A fresh one gives the encryptions of 0, 1, 2, ..., whatever its buffer size.\<close>

definition prg_value :: "cipher \<Rightarrow> PRG_MODE \<Rightarrow> 128 word \<Rightarrow> nat \<Rightarrow> 128 word" where
  "prg_value enc mode seed i = u128_of_bytes (ecb_block enc (mode_cipher mode) seed i)"

lemma mode_ecb: "mode_cipher m = AES128_ECB \<or> mode_cipher m = SM4_ECB"
  by (cases m) simp_all

lemma nth_block:
  "\<forall>b \<in> set bs. length b = 16 \<Longrightarrow> i < length bs \<Longrightarrow> take 16 (drop (16 * i) (concat bs)) = bs ! i"
proof (induction bs arbitrary: i)
  case (Cons b bs)
  then show ?case by (cases i) auto
qed simp

lemma u128s_of_blocks:
  assumes "\<forall>b \<in> set bs. length b = 16"
  shows "u128s_of_bytes (concat bs) = map u128_of_bytes bs"
proof -
  have "length (concat bs) = 16 * length bs" using assms by (induction bs) auto
  then show ?thesis
    using nth_block [OF assms] by (auto simp: u128s_of_bytes_def intro!: nth_equalityI)
qed

lemma GenerateBudgets_value:
  assumes "ecb_mode enc" and "prg_counter p = word_of_nat c" and "c + length (cipher_budget p) < 2 ^ 64"
  shows "GenerateBudgets enc p = p\<lparr>prg_counter := word_of_nat (c + length (cipher_budget p)),
    cipher_budget := map (prg_value enc (prg_mode p) (prg_seed p)) [c ..< c + length (cipher_budget p)]\<rparr>"
proof -
  let ?n = "length (cipher_budget p)" and ?t = "mode_cipher (prg_mode p)"
  have c: "ucast (prg_counter p) = (word_of_nat c :: 64 word)"
  proof -
    have "c < 2 ^ 128" using assms(3) by simp
    then have "take_bit 128 c = c" by (rule take_bit_nat_eq_self)
    then show ?thesis unfolding assms(2) by (simp add: unsigned_of_nat)
  qed
  have u: "unat (word_of_nat c :: 64 word) = c" using assms(3) by (simp add: unat_of_nat)
  have nb: "(?n * 16 + 15) div 16 = ?n" by simp
  have F: "FillPRand enc ?t (prg_seed p) kInitVector (word_of_nat c) (?n * 16) =
      (word_of_nat c + word_of_nat ?n, concat (map (ecb_block enc ?t (prg_seed p)) [c ..< c + ?n]))"
    using FillPRand_ecb [OF assms(1) mode_ecb, of "word_of_nat c" "?n * 16"] assms(3)
    unfolding nb u by (simp add: ecb_blocks_length [OF assms(1) mode_ecb])
  have "(ucast (word_of_nat c + word_of_nat ?n :: 64 word) :: 128 word) = word_of_nat (c + ?n)"
    using word64_to_128 [of "word_of_nat c" ?n] assms(3) by (simp only: u)
  moreover have "\<forall>b \<in> set (map (ecb_block enc ?t (prg_seed p)) [c ..< c + ?n]). length b = 16"
    using ecb_modeD(2) [OF assms(1) mode_ecb u128_roundtrip(2)] by (auto simp: ecb_block_def)
  ultimately show ?thesis
    unfolding GenerateBudgets_def Let_def c F by (simp add: u128s_of_blocks prg_value_def comp_def)
qed

text \<open>The state after \<open>k\<close> values.\<close>

definition prg_at :: "cipher \<Rightarrow> nat \<Rightarrow> 128 word \<Rightarrow> PRG_MODE \<Rightarrow> nat \<Rightarrow> prg \<Rightarrow> bool" where
  "prg_at enc n seed mode k p \<longleftrightarrow>
     prg_seed p = seed \<and> prg_mode p = mode \<and> length (cipher_budget p) = n
     \<and> (\<exists>c. prg_counter p = word_of_nat c \<and> c + num_consumed p = k + n \<and> num_consumed p \<le> n \<and> c \<le> k + n
        \<and> (num_consumed p < n \<longrightarrow> n \<le> c \<and> cipher_budget p = map (prg_value enc mode seed) [c - n ..< c]))"

lemma prg_next_at:
  assumes "ecb_mode enc" and "0 < n" and "prg_at enc n seed mode k p" and "k + n < 2 ^ 64"
  shows "fst (prg_next enc p) = prg_value enc mode seed k \<and> prg_at enc n seed mode (Suc k) (snd (prg_next enc p))"
proof -
  obtain c where p: "prg_seed p = seed" "prg_mode p = mode" "length (cipher_budget p) = n" "prg_counter p = word_of_nat c"
    "c + num_consumed p = k + n" "num_consumed p \<le> n"
    "num_consumed p < n \<longrightarrow> n \<le> c \<and> cipher_budget p = map (prg_value enc mode seed) [c - n ..< c]"
    using assms(3) unfolding prg_at_def by blast
  show ?thesis
  proof (cases "num_consumed p = n")
    case True
    then have ck: "c = k" using p(5) by simp
    have "GenerateBudgets enc p = p\<lparr>prg_counter := word_of_nat (k + n), cipher_budget := map (prg_value enc mode seed) [k ..< k + n]\<rparr>"
      using GenerateBudgets_value [OF assms(1) p(4)] p(1-3) assms(4) by (simp add: ck)
    with True p assms(2) show ?thesis
      by (auto simp: prg_next_def prg_at_def intro!: exI [of _ "k + n"])
  next
    case False
    then have m: "num_consumed p < n" "n \<le> c" "cipher_budget p = map (prg_value enc mode seed) [c - n ..< c]"
      using p(6,7) by auto
    moreover have "c - n + num_consumed p = k" using p(5) m by simp
    ultimately show ?thesis
      using p(1-6) by (auto simp: prg_next_def prg_at_def intro!: exI [of _ c])
  qed
qed

theorem prg_stream:
  assumes "ecb_mode enc" and "0 < n" and "m + n < 2 ^ 64"
  shows "fst (prg_outputs enc m (new_prg n seed mode)) = map (prg_value enc mode seed) [0 ..< m]"
proof -
  have "fst (prg_outputs enc m p) = map (prg_value enc mode seed) [k ..< k + m]"
    if "prg_at enc n seed mode k p" "k + m + n < 2 ^ 64" for k p
    using that
  proof (induction m arbitrary: k p)
    case (Suc m)
    note N = prg_next_at [OF assms(1,2) Suc.prems(1)]
    obtain x q where x: "prg_next enc p = (x, q)" by (cases "prg_next enc p")
    have q: "x = prg_value enc mode seed k" "prg_at enc n seed mode (Suc k) q" using N Suc.prems(2) by (simp_all add: x)
    from Suc.IH [OF q(2)] Suc.prems(2) show ?case
      by (simp add: x q(1) Let_def split_beta upt_conv_Cons del: upt_Suc)
  qed simp
  moreover have "prg_at enc n seed mode 0 (new_prg n seed mode)"
    by (simp add: prg_at_def new_prg_def SetSeed_def)
  ultimately show ?thesis using assms(3) by fastforce
qed

end
