(* ===== verification/Ge2n.thy ===== *)
theory Ge2n
  imports Prg
begin

text \<open>
  \<^verbatim>\<open>dpf/ge2n.h\<close>: the additive group of \<open>n\<close>-bit numbers, stored in 128 bits.  The store is not
  reduced; only \<^verbatim>\<open>GetVal\<close> masks it.  Two stores with the same masked value are congruent modulo
  \<open>2^n\<close> (\<open>same_val\<close>), and the operations respect that.  \<^verbatim>\<open>GetReverse\<close> is negation.
\<close>

definition kMask :: "nat \<Rightarrow> 128 word" where
  "kMask n = (if n = 128 then - 1 else push_bit n 1 - 1)"

definition GetVal :: "nat \<Rightarrow> 128 word \<Rightarrow> 128 word" where
  "GetVal n store = store AND kMask n"

definition GetBit :: "128 word \<Rightarrow> nat \<Rightarrow> bool" where
  "GetBit store i \<longleftrightarrow> drop_bit i store AND 1 \<noteq> 0"

definition GetReverse :: "nat \<Rightarrow> 128 word \<Rightarrow> 128 word" where
  "GetReverse n store = kMask n - GetVal n store + 1"

lemma GetBit_bit: "GetBit s i = bit s i"
  by (simp add: GetBit_def and_one_eq odd_iff_mod_2_eq_one flip: bit_iff_odd_drop_bit) (metis bit_iff_odd_drop_bit odd_iff_mod_2_eq_one even_iff_mod_2_eq_zero)

lemma kMask_mask: "n \<le> 128 \<Longrightarrow> kMask n = mask n"
  by (auto simp: kMask_def mask_eq_exp_minus_1)

lemma GetVal_take_bit: "n \<le> 128 \<Longrightarrow> GetVal n s = take_bit n s"
  by (simp add: GetVal_def kMask_mask take_bit_eq_mask)

text \<open>Congruence modulo \<open>2^n\<close>.\<close>

definition same_val :: "nat \<Rightarrow> 128 word \<Rightarrow> 128 word \<Rightarrow> bool" where
  "same_val n a b \<longleftrightarrow> 2 ^ n dvd a - b"

lemma same_val_refl [simp, intro]: "same_val n a a"
  by (simp add: same_val_def)

lemma same_valE:
  assumes "same_val n a b"
  obtains k where "a = b + 2 ^ n * k"
proof -
  from assms obtain k where "a - b = 2 ^ n * k" by (auto simp: same_val_def)
  then have "a = b + 2 ^ n * k" by (simp add: algebra_simps)
  then show thesis by (rule that)
qed

lemma same_valI: "a = b + 2 ^ n * k \<Longrightarrow> same_val n a b"
  by (simp add: same_val_def)

lemma same_val_sym: "same_val n a b \<Longrightarrow> same_val n b a"
  by (erule same_valE, rule same_valI [where k = "- k" for k]) simp

lemma same_val_trans [trans]: "same_val n a b \<Longrightarrow> same_val n b c \<Longrightarrow> same_val n a c"
  by (elim same_valE, rule same_valI [where k = "k + l" for k l]) (simp add: algebra_simps)

lemma same_val_add: "same_val n a b \<Longrightarrow> same_val n c d \<Longrightarrow> same_val n (a + c) (b + d)"
  by (elim same_valE, rule same_valI [where k = "k + l" for k l]) (simp add: algebra_simps)

lemma same_val_minus: "same_val n a b \<Longrightarrow> same_val n (- a) (- b)"
  by (erule same_valE, rule same_valI [where k = "- k" for k]) (simp add: algebra_simps)

lemma same_val_GetVal: "n \<le> 128 \<Longrightarrow> same_val n (GetVal n a) a"
proof -
  assume "n \<le> 128"
  then have "a - GetVal n a = push_bit n (drop_bit n a)"
    by (simp add: GetVal_take_bit) (metis add_diff_cancel_right' bits_ident)
  then have "same_val n a (GetVal n a)" by (simp add: same_val_def push_bit_eq_mult)
  then show ?thesis by (rule same_val_sym)
qed

lemma GetVal_eq_iff: "n \<le> 128 \<Longrightarrow> GetVal n a = GetVal n b \<longleftrightarrow> same_val n a b"
proof
  assume "n \<le> 128" and "GetVal n a = GetVal n b"
  then show "same_val n a b" using same_val_GetVal by (metis same_val_sym same_val_trans)
next
  assume n: "n \<le> 128" and "same_val n a b"
  then obtain k where k: "a = b + push_bit n k" by (auto elim!: same_valE simp: push_bit_eq_mult mult.commute)
  have "take_bit n (uint a) = take_bit n (take_bit n (uint b) + take_bit n (push_bit n (uint k)))"
  proof -
    have u: "uint (x + y) = take_bit 128 (uint x + uint y)" for x y :: "128 word"
      by (simp add: uint_word_ariths take_bit_eq_mod)
    have t: "take_bit n (take_bit 128 x) = take_bit n x" for x :: int using n by (simp add: min_def)
    have "take_bit n (uint a) = take_bit n (uint b + take_bit 128 (push_bit n (uint k)))"
      by (simp only: k u t unsigned_push_bit_eq) simp
    also have "\<dots> = take_bit n (take_bit n (uint b) + take_bit n (push_bit n (uint k)))"
      by (simp only: take_bit_add [of n "uint b" "take_bit 128 (push_bit n (uint k))", symmetric] t)
    finally show ?thesis .
  qed
  then have "uint (take_bit n a) = uint (take_bit n b)" by (simp add: unsigned_take_bit_eq take_bit_push_bit)
  then show "GetVal n a = GetVal n b" using n by (simp add: GetVal_take_bit word_uint_eq_iff)
qed

lemma same_val_reverse: "n \<le> 128 \<Longrightarrow> same_val n (GetReverse n a) (- a)"
proof -
  assume n: "n \<le> 128"
  have "kMask n + 1 = 2 ^ n" using n by (simp add: kMask_mask mask_eq_exp_minus_1)
  then have "GetReverse n a = 2 ^ n - GetVal n a" unfolding GetReverse_def by (metis add_diff_eq add.commute diff_add_eq)
  then have "same_val n (GetReverse n a) (- GetVal n a)" by (simp add: same_val_def)
  also have "same_val n (- GetVal n a) (- a)" by (rule same_val_minus [OF same_val_GetVal [OF n]])
  finally show ?thesis .
qed

lemma same_bits: "n \<le> 128 \<Longrightarrow> (\<forall>i < n. GetBit a i = GetBit b i) \<longleftrightarrow> GetVal n a = GetVal n b"
  by (simp add: GetBit_bit GetVal_take_bit bit_eq_iff bit_take_bit_iff) (metis order_less_le_trans)

lemma unat_GetVal: "n \<le> 128 \<Longrightarrow> unat (GetVal n a) = unat a mod 2 ^ n"
proof -
  assume "n \<le> 128"
  then have "unat (GetVal n a) = take_bit n (unat a)" by (simp only: GetVal_take_bit unsigned_take_bit_eq)
  then show ?thesis by (simp only: take_bit_eq_mod)
qed

end
