(* ===== verification/Dpf.thy ===== *)
theory Dpf
  imports Complex_Main Ge2n
begin

text \<open>
  \<^verbatim>\<open>dpf/dpf.cc\<close>: the two-party distributed point function.  Two keys share the function that is
  \<open>\<beta>\<close> at the point \<open>\<alpha>\<close> and 0 elsewhere: each party walks down a binary tree of seeds along the bits
  of the input, and the correction words of the keys make the parties' states equal as soon as the
  input leaves the path of \<open>\<alpha>\<close>.  The seeds are expanded by the generator of the theory \<open>Prg\<close>; the
  theorems hold for every cipher.  \<open>m\<close> and \<open>n\<close> are the template parameters: bits of the input and
  of the output.
\<close>

subsection \<open>Keys\<close>

record cw =
  cw_seed :: "128 word"
  t_store :: byte

definition GetLT :: "'a cw_scheme \<Rightarrow> byte" where
  "GetLT c = t_store c AND 1"

definition GetRT :: "'a cw_scheme \<Rightarrow> byte" where
  "GetRT c = drop_bit 1 (t_store c) AND 1"

definition SetLT :: "bool \<Rightarrow> 'a cw_scheme \<Rightarrow> 'a cw_scheme" where
  "SetLT t_left c = c\<lparr>t_store := push_bit 1 (GetRT c) + of_bool t_left\<rparr>"

definition SetRT :: "bool \<Rightarrow> 'a cw_scheme \<Rightarrow> 'a cw_scheme" where
  "SetRT t_right c = c\<lparr>t_store := push_bit 1 (of_bool t_right) + GetLT c\<rparr>"

definition new_cw :: cw where
  "new_cw = \<lparr>cw_seed = 0, t_store = 0\<rparr>"

record dpf_key =
  enable_evalall :: bool
  cws_vec :: "cw list"
  last_cw_vec :: "128 word list"
  rank :: bool
  mseed :: "128 word"

definition new_key :: "bool \<Rightarrow> 128 word \<Rightarrow> dpf_key" where
  "new_key r seed = \<lparr>enable_evalall = False, cws_vec = [], last_cw_vec = [], rank = r, mseed = seed\<rparr>"

subsection \<open>Expanding a seed\<close>

definition DpfPRG :: "cipher \<Rightarrow> 128 word \<Rightarrow> 128 word" where
  "DpfPRG enc seed = fst (prg_next enc (new_prg 16 seed kAesEcb))"

definition SplitDpfSeed :: "cipher \<Rightarrow> 128 word \<Rightarrow> 128 word \<times> bool \<times> 128 word \<times> bool" where
  "SplitDpfSeed enc seed =
     (let prng = new_prg 48 seed kAesEcb;
          (seed_left, prng) = prg_next enc prng;
          (seed_right, prng) = prg_next enc prng;
          (tmp, prng) = prg_next enc prng
      in (seed_left, GetBit tmp 1, seed_right, GetBit tmp 2))"

text \<open>
  Where the tree ends when the whole domain is evaluated.  The source computes
  \<^verbatim>\<open>min(m, ceil(m - log(c / n)))\<close> for \<open>c = 128\<close>, with an integer quotient and the natural logarithm;
  \<open>ln_floor\<close> is the integer part of the logarithm of 1, ..., 128 (\<open>ln_floor_correct\<close> below).
\<close>

definition ln_floor :: "nat \<Rightarrow> nat" where
  "ln_floor k = (if k < 3 then 0 else if k < 8 then 1 else if k < 21 then 2 else if k < 55 then 3 else 4)"

definition GetTerminateLevel :: "bool \<Rightarrow> nat \<Rightarrow> nat \<Rightarrow> nat" where
  "GetTerminateLevel evalall m n = (if \<not> evalall then m else min m (m - ln_floor (128 div n)))"

subsection \<open>Key generation\<close>

text \<open>One level for both parties: the correction word and the states (seed and control bit) below.\<close>

type_synonym dpf_state = "128 word \<times> bool"

definition dpf_gen_level :: "cipher \<Rightarrow> bool \<Rightarrow> dpf_state \<times> dpf_state \<Rightarrow> cw \<times> dpf_state \<times> dpf_state" where
  "dpf_gen_level enc alpha_bit st =
     (let ((s0, t0), (s1, t1)) = st;
          (seed_left0, t_left0, seed_right0, t_right0) = SplitDpfSeed enc s0;
          (seed_left1, t_left1, seed_right1, t_right1) = SplitDpfSeed enc s1;
          keep_seed0 = (if alpha_bit then seed_right0 else seed_left0);
          keep_seed1 = (if alpha_bit then seed_right1 else seed_left1);
          lose_seed0 = (if alpha_bit then seed_left0 else seed_right0);
          lose_seed1 = (if alpha_bit then seed_left1 else seed_right1);
          t_keep0 = (if alpha_bit then t_right0 else t_left0);
          t_keep1 = (if alpha_bit then t_right1 else t_left1);
          cwseed = lose_seed0 XOR lose_seed1;
          cw_t_left = (((t_left0 \<noteq> t_left1) \<noteq> alpha_bit) \<noteq> True);
          cw_t_right = ((t_right0 \<noteq> t_right1) \<noteq> alpha_bit);
          cw_t_keep = (if alpha_bit then cw_t_right else cw_t_left)
      in (SetRT cw_t_right (SetLT cw_t_left (new_cw\<lparr>cw_seed := cwseed\<rparr>)),
          (if t0 then keep_seed0 XOR cwseed else keep_seed0, t_keep0 \<noteq> (t0 \<and> cw_t_keep)),
          (if t1 then keep_seed1 XOR cwseed else keep_seed1, t_keep1 \<noteq> (t1 \<and> cw_t_keep))))"

fun dpf_gen_loop :: "cipher \<Rightarrow> 128 word \<Rightarrow> nat list \<Rightarrow> dpf_state \<times> dpf_state \<Rightarrow> cw list \<times> dpf_state \<times> dpf_state" where
  "dpf_gen_loop enc alpha [] st = ([], st)"
| "dpf_gen_loop enc alpha (i # is) st =
     (let (cw, st) = dpf_gen_level enc (GetBit alpha i) st;
          (cws, st) = dpf_gen_loop enc alpha is st
      in (cw # cws, st))"

text \<open>The final correction words of the full-domain keys, one for each value below a leaf.\<close>

fun last_cw_loop :: "cipher \<Rightarrow> nat \<Rightarrow> 128 word \<Rightarrow> nat \<Rightarrow> bool \<Rightarrow> nat list \<Rightarrow> 128 word \<Rightarrow> 128 word \<Rightarrow> 128 word list" where
  "last_cw_loop enc n beta alpha_pos t1 [] prg0 prg1 = []"
| "last_cw_loop enc n beta alpha_pos t1 (i # is) prg0 prg1 =
     (let last_cw = (if i = alpha_pos then beta + GetReverse n prg0 + prg1 else GetReverse n prg0 + prg1)
      in (if t1 then GetVal n (GetReverse n last_cw) else GetVal n last_cw)
         # last_cw_loop enc n beta alpha_pos t1 is (DpfPRG enc (GetVal n prg0)) (DpfPRG enc (GetVal n prg1)))"

definition DpfKeyGen ::
    "cipher \<Rightarrow> nat \<Rightarrow> nat \<Rightarrow> 128 word \<Rightarrow> 128 word \<Rightarrow> 128 word \<Rightarrow> 128 word \<Rightarrow> bool \<Rightarrow> dpf_key \<times> dpf_key" where
  "DpfKeyGen enc m n alpha beta first_mk second_mk evalall =
     (let term_level = GetTerminateLevel evalall m n;
          first_key = new_key False first_mk;
          second_key = new_key True second_mk;
          (cws, (s0, t0), (s1, t1)) = dpf_gen_loop enc alpha [0 ..< term_level] ((first_mk, False), (second_mk, True));
          prg0 = DpfPRG enc s0;
          prg1 = DpfPRG enc s1
      in if \<not> evalall then
           (let last_cw = GetVal n (beta + GetReverse n prg0 + prg1);
                last_cw = (if t1 then GetVal n (GetReverse n last_cw) else last_cw)
            in (first_key\<lparr>cws_vec := cws, last_cw_vec := [last_cw]\<rparr>,
                second_key\<lparr>cws_vec := cws, last_cw_vec := [last_cw]\<rparr>))
         else
           (let alpha_pos = unat (drop_bit term_level (GetVal m alpha));
                last_cws = last_cw_loop enc n beta alpha_pos t1 [0 ..< 2 ^ (m - term_level)] prg0 prg1
            in (first_key\<lparr>enable_evalall := True, cws_vec := cws, last_cw_vec := last_cws\<rparr>,
                second_key\<lparr>enable_evalall := True, cws_vec := cws, last_cw_vec := last_cws\<rparr>)))"

subsection \<open>Evaluation\<close>

definition dpf_eval_level :: "cipher \<Rightarrow> cw \<Rightarrow> bool \<Rightarrow> dpf_state \<Rightarrow> dpf_state" where
  "dpf_eval_level enc c b st =
     (let (seed_working, t_working) = st;
          (seed_left, t_left, seed_right, t_right) = SplitDpfSeed enc seed_working;
          seed_left = (if t_working then seed_left XOR cw_seed c else seed_left);
          t_left = (t_left \<noteq> (t_working \<and> GetLT c \<noteq> 0));
          seed_right = (if t_working then seed_right XOR cw_seed c else seed_right);
          t_right = (t_right \<noteq> (t_working \<and> GetRT c \<noteq> 0))
      in if b then (seed_right, t_right) else (seed_left, t_left))"

text \<open>The result is \<open>None\<close> for a key of the other kind.\<close>

definition DpfEval :: "cipher \<Rightarrow> nat \<Rightarrow> nat \<Rightarrow> dpf_key \<Rightarrow> 128 word \<Rightarrow> 128 word option" where
  "DpfEval enc m n key inp =
     (if enable_evalall key then None
      else
        let (seed_working, t_working) =
              fold (\<lambda>i. dpf_eval_level enc (cws_vec key ! i) (GetBit inp i)) [0 ..< m] (mseed key, rank key);
            prg = DpfPRG enc seed_working;
            tmp = of_bool t_working * last_cw_vec key ! 0
        in Some (if rank key then GetVal n (GetReverse n (prg + tmp)) else GetVal n (prg + tmp)))"

text \<open>The values below a leaf, and the traversal of the tree.\<close>

fun leaf_loop ::
    "cipher \<Rightarrow> nat \<Rightarrow> dpf_key \<Rightarrow> nat \<Rightarrow> nat \<Rightarrow> bool \<Rightarrow> nat list \<Rightarrow> 128 word \<Rightarrow> 128 word list \<Rightarrow> 128 word list" where
  "leaf_loop enc n key term_level current_pos t_working [] prg result = result"
| "leaf_loop enc n key term_level current_pos t_working (i # is) prg result =
     (let tmp = of_bool t_working * last_cw_vec key ! i;
          result = result[current_pos + i * 2 ^ term_level :=
            (if rank key then GetReverse n (prg + tmp) else prg + tmp)]
      in leaf_loop enc n key term_level current_pos t_working is (DpfPRG enc (GetVal n prg)) result)"

function Traverse ::
    "cipher \<Rightarrow> nat \<Rightarrow> nat \<Rightarrow> dpf_key \<Rightarrow> 128 word list \<Rightarrow> nat \<Rightarrow> nat \<Rightarrow> dpf_state \<Rightarrow> nat \<Rightarrow> 128 word list" where
  "Traverse enc m n key result current_level current_pos st term_level =
     (if current_level < term_level then
        (let c = cws_vec key ! current_level;
             next_left_pos = current_pos;
             next_right_pos = 2 ^ current_level + current_pos;
             result = Traverse enc m n key result (current_level + 1) next_left_pos
               (dpf_eval_level enc c False st) term_level
         in Traverse enc m n key result (current_level + 1) next_right_pos (dpf_eval_level enc c True st) term_level)
      else
        (let (seed_working, t_working) = st
         in leaf_loop enc n key term_level current_pos t_working [0 ..< 2 ^ (m - term_level)]
              (DpfPRG enc seed_working) result))"
  by auto

termination
  by (relation "measure (\<lambda>(enc, m, n, key, result, level, pos, st, term). term - level)") auto

declare Traverse.simps [simp del]

definition DpfEvalAll :: "cipher \<Rightarrow> nat \<Rightarrow> nat \<Rightarrow> dpf_key \<Rightarrow> 128 word list \<Rightarrow> 128 word list option" where
  "DpfEvalAll enc m n key out =
     (if \<not> enable_evalall key then None
      else Some (Traverse enc m n key out 0 0 (mseed key, rank key) (GetTerminateLevel True m n)))"

subsection \<open>The states of the parties\<close>

lemma cw_fields [simp]:
  "GetLT (SetRT r (SetLT l (new_cw\<lparr>cw_seed := s\<rparr>))) = of_bool l"
  "GetRT (SetRT r (SetLT l (new_cw\<lparr>cw_seed := s\<rparr>))) = of_bool r"
  "cw_seed (SetRT r (SetLT l (new_cw\<lparr>cw_seed := s\<rparr>))) = s"
  by (cases l; cases r; simp add: GetLT_def GetRT_def SetLT_def SetRT_def new_cw_def)+

text \<open>On the path the control bits differ; off it the states are the same.\<close>

definition apart :: "dpf_state \<times> dpf_state \<Rightarrow> bool" where
  "apart st \<longleftrightarrow> snd (fst st) \<noteq> snd (snd st)"

lemma gen_level_on_path:
  assumes "apart (a, b)" and "dpf_gen_level enc x (a, b) = (c, a', b')"
  shows "dpf_eval_level enc c x a = a'" "dpf_eval_level enc c x b = b'" "apart (a', b')"
    and "dpf_eval_level enc c (\<not> x) a = dpf_eval_level enc c (\<not> x) b"
proof -
  obtain s0 t0 s1 t1 where ab: "a = (s0, t0)" "b = (s1, t1)" by (cases a; cases b) auto
  obtain l0 u0 r0 v0 where S0: "SplitDpfSeed enc s0 = (l0, u0, r0, v0)" by (cases "SplitDpfSeed enc s0")
  obtain l1 u1 r1 v1 where S1: "SplitDpfSeed enc s1 = (l1, u1, r1, v1)" by (cases "SplitDpfSeed enc s1")
  have t: "t1 = (\<not> t0)" using assms(1) by (auto simp: apart_def ab)
  have X: "w XOR (w XOR z) = z" "w XOR (z XOR w) = z" for w z :: "128 word"
    by (auto simp: bit_eq_iff bit_xor_iff)
  note d = dpf_gen_level_def dpf_eval_level_def ab S0 S1 t Let_def apart_def
  show "dpf_eval_level enc c x a = a'" "dpf_eval_level enc c x b = b'" "apart (a', b')"
    using assms(2) by (cases x; cases t0; auto simp: d)+
  show "dpf_eval_level enc c (\<not> x) a = dpf_eval_level enc c (\<not> x) b"
    using assms(2) by (cases x; cases t0; auto simp: d X)
qed

text \<open>A party's state after the levels \<open>is\<close>.\<close>

definition walk :: "cipher \<Rightarrow> cw list \<Rightarrow> 128 word \<Rightarrow> nat list \<Rightarrow> dpf_state \<Rightarrow> dpf_state" where
  "walk enc cws x is = fold (\<lambda>i. dpf_eval_level enc (cws ! i) (GetBit x i)) is"

lemma walk_simps [simp]:
  "walk enc cws x [] st = st"
  "walk enc cws x (i # is) st = walk enc cws x is (dpf_eval_level enc (cws ! i) (GetBit x i) st)"
  "walk enc cws x (is @ js) st = walk enc cws x js (walk enc cws x is st)"
  by (simp_all add: walk_def)

lemma walk_both:
  assumes "apart (a, b)" and "dpf_gen_loop enc alpha [k ..< k + l] (a, b) = (cws, a', b')"
    and "\<forall>i < l. c ! (k + i) = cws ! i"
  shows "((\<forall>i \<in> {k ..< k + l}. GetBit x i = GetBit alpha i) \<longrightarrow>
      walk enc c x [k ..< k + l] a = a' \<and> walk enc c x [k ..< k + l] b = b' \<and> apart (a', b'))
    \<and> (\<not> (\<forall>i \<in> {k ..< k + l}. GetBit x i = GetBit alpha i) \<longrightarrow>
      walk enc c x [k ..< k + l] a = walk enc c x [k ..< k + l] b)"
  using assms
proof (induction l arbitrary: k a b cws)
  case (Suc l)
  have u: "[k ..< k + Suc l] = k # [Suc k ..< Suc k + l]" by (simp add: upt_conv_Cons del: upt_Suc)
  have set: "{k ..< k + Suc l} = insert k {Suc k ..< Suc k + l}" by auto
  obtain w a1 b1 where L: "dpf_gen_level enc (GetBit alpha k) (a, b) = (w, a1, b1)"
    by (cases "dpf_gen_level enc (GetBit alpha k) (a, b)") auto
  obtain ws where R: "dpf_gen_loop enc alpha [Suc k ..< Suc k + l] (a1, b1) = (ws, a', b')" "cws = w # ws"
    using Suc.prems(2) unfolding u by (auto simp: L split: prod.splits)
  have c: "c ! k = w" "\<forall>i < l. c ! (Suc k + i) = ws ! i"
    using Suc.prems(3) R(2) by (auto dest: spec [of _ 0] spec [of _ "Suc i" for i])
  note G = gen_level_on_path [OF Suc.prems(1) L]
  show ?case
  proof (cases "GetBit x k = GetBit alpha k")
    case True
    from Suc.IH [OF G(3) R(1) c(2)] show ?thesis
      unfolding u set by (simp add: True c(1) G(1,2) del: upt_Suc)
  next
    case False
    then have "GetBit x k = (\<not> GetBit alpha k)" by blast
    then have "dpf_eval_level enc w (GetBit x k) a = dpf_eval_level enc w (GetBit x k) b" using G(4) by simp
    with False show ?thesis unfolding u set by (simp add: c(1) del: upt_Suc)
  qed
qed simp

subsection \<open>Evaluation at a point\<close>

text \<open>What the correction word adds on the path.\<close>

lemma share_sum:
  assumes "n \<le> 128" and "t0 \<noteq> t1" and "same_val n v (if t1 then - (b - p0 + p1) else b - p0 + p1)"
  shows "same_val n ((p0 + of_bool t0 * v) + - (p1 + of_bool t1 * v)) b"
proof -
  obtain k where k: "v = (if t1 then - (b - p0 + p1) else b - p0 + p1) + 2 ^ n * k"
    using assms(3) by (rule same_valE)
  show ?thesis
    by (rule same_valI [where k = "if t1 then - k else k"]) (use assms(2) in \<open>auto simp: k algebra_simps\<close>)
qed

lemma correction_word:
  assumes "n \<le> 128"
  shows "same_val n (if t then GetVal n (GetReverse n (b + GetReverse n p0 + p1)) else GetVal n (b + GetReverse n p0 + p1))
    (if t then - (b - p0 + p1) else b - p0 + p1)"
    and "same_val n (if t then GetVal n (GetReverse n (GetVal n (b + GetReverse n p0 + p1))) else GetVal n (b + GetReverse n p0 + p1))
    (if t then - (b - p0 + p1) else b - p0 + p1)"
proof -
  have b: "same_val n (b + GetReverse n p0 + p1) (b - p0 + p1)"
    using same_val_add [OF same_val_add [OF same_val_refl same_val_reverse [OF assms]] same_val_refl, of b p0 p1] by simp
  have g: "same_val n (GetVal n x) y" if "same_val n x y" for x y
    using same_val_trans [OF same_val_GetVal [OF assms] that] .
  have r: "same_val n (GetReverse n x) (- y)" if "same_val n x y" for x y
    using same_val_trans [OF same_val_reverse [OF assms] same_val_minus [OF that]] .
  show "same_val n (if t then GetVal n (GetReverse n (b + GetReverse n p0 + p1)) else GetVal n (b + GetReverse n p0 + p1))
    (if t then - (b - p0 + p1) else b - p0 + p1)" using g [OF r [OF b]] g [OF b] by auto
  show "same_val n (if t then GetVal n (GetReverse n (GetVal n (b + GetReverse n p0 + p1))) else GetVal n (b + GetReverse n p0 + p1))
    (if t then - (b - p0 + p1) else b - p0 + p1)" using g [OF r [OF g [OF b]]] g [OF b] by auto
qed

text \<open>The two outputs, on the path of the point (\<open>P\<close>) and off it; \<open>F\<close> converts a seed to a group element.\<close>

lemma share_total:
  assumes n: "n \<le> 128" and on: "P \<Longrightarrow> a = (s0, t0) \<and> b = (s1, t1) \<and> t0 \<noteq> t1" and off: "\<not> P \<Longrightarrow> a = b"
    and v: "same_val n v (if t1 then - (\<beta> - F s0 + F s1) else \<beta> - F s0 + F s1)"
    and y: "same_val n y0 (F (fst a) + of_bool (snd a) * v)" "same_val n y1 (- (F (fst b) + of_bool (snd b) * v))"
  shows "GetVal n (y0 + y1) = (if P then GetVal n \<beta> else 0)"
proof -
  have "same_val n ((F (fst a) + of_bool (snd a) * v) + - (F (fst b) + of_bool (snd b) * v)) (if P then \<beta> else 0)"
  proof (cases P)
    case True
    then show ?thesis using share_sum [OF n _ v] on by simp
  next
    case False
    then show ?thesis using off by simp
  qed
  then have "same_val n (y0 + y1) (if P then \<beta> else 0)" by (rule same_val_trans [OF same_val_add [OF y]])
  then have "GetVal n (y0 + y1) = GetVal n (if P then \<beta> else 0)" by (simp only: GetVal_eq_iff [OF n])
  then show ?thesis by (simp add: GetVal_def split: if_splits)
qed

text \<open>The states of the two parties at the end of the path.\<close>

lemma walk_from_root:
  assumes "dpf_gen_loop enc alpha [0 ..< m] ((mk0, False), (mk1, True)) = (cws, (s0, t0), (s1, t1))"
    and "P \<longleftrightarrow> (\<forall>i < m. GetBit x i = GetBit alpha i)"
  shows "P \<Longrightarrow> walk enc cws x [0 ..< m] (mk0, False) = (s0, t0) \<and> walk enc cws x [0 ..< m] (mk1, True) = (s1, t1) \<and> t0 \<noteq> t1"
    and "\<not> P \<Longrightarrow> walk enc cws x [0 ..< m] (mk0, False) = walk enc cws x [0 ..< m] (mk1, True)"
proof -
  have "dpf_gen_loop enc alpha [0 ..< 0 + m] ((mk0, False), (mk1, True)) = (cws, (s0, t0), (s1, t1))"
    using assms(1) by (simp only: add_0)
  from walk_both [OF _ this, of cws x] show "P \<Longrightarrow> walk enc cws x [0 ..< m] (mk0, False) = (s0, t0)
      \<and> walk enc cws x [0 ..< m] (mk1, True) = (s1, t1) \<and> t0 \<noteq> t1"
    "\<not> P \<Longrightarrow> walk enc cws x [0 ..< m] (mk0, False) = walk enc cws x [0 ..< m] (mk1, True)"
    unfolding assms(2) by (auto simp: apart_def)
qed

theorem dpf_point:
  assumes mn: "0 < m" "m \<le> 64" "n \<le> 128" and keys: "DpfKeyGen enc m n alpha beta mk0 mk1 False = (k0, k1)"
  shows "\<exists>y0 y1. DpfEval enc m n k0 x = Some y0 \<and> DpfEval enc m n k1 x = Some y1
    \<and> GetVal n (y0 + y1) = (if GetVal m x = GetVal m alpha then GetVal n beta else 0)"
proof -
  obtain cws s0 t0 s1 t1 where G: "dpf_gen_loop enc alpha [0 ..< m] ((mk0, False), (mk1, True)) = (cws, (s0, t0), (s1, t1))"
    by (metis prod.exhaust)
  define v where "v = (let v = GetVal n (beta + GetReverse n (DpfPRG enc s0) + DpfPRG enc s1)
    in if t1 then GetVal n (GetReverse n v) else v)"
  have k: "k0 = (new_key False mk0)\<lparr>cws_vec := cws, last_cw_vec := [v]\<rparr>" "k1 = (new_key True mk1)\<lparr>cws_vec := cws, last_cw_vec := [v]\<rparr>"
    using keys by (simp_all add: DpfKeyGen_def GetTerminateLevel_def G v_def Let_def)
  let ?w = "\<lambda>r s. walk enc cws x [0 ..< m] (s, r)"
  let ?e = "\<lambda>st. DpfPRG enc (fst st) + of_bool (snd st) * v"
  have E: "DpfEval enc m n k0 x = Some (GetVal n (?e (?w False mk0)))"
    "DpfEval enc m n k1 x = Some (GetVal n (GetReverse n (?e (?w True mk1))))"
    by (simp_all add: DpfEval_def k new_key_def walk_def split_beta)
  have P: "GetVal m x = GetVal m alpha \<longleftrightarrow> (\<forall>i < m. GetBit x i = GetBit alpha i)"
    using same_bits [of m x alpha] mn(2) by auto
  have "same_val n v (if t1 then - (beta - DpfPRG enc s0 + DpfPRG enc s1) else beta - DpfPRG enc s0 + DpfPRG enc s1)"
    unfolding v_def Let_def by (rule correction_word(2) [OF mn(3)])
  from share_total [OF mn(3) walk_from_root [OF G P] this same_val_GetVal [OF mn(3)]
      same_val_trans [OF same_val_GetVal [OF mn(3)] same_val_reverse [OF mn(3)]]]
  show ?thesis unfolding E by auto
qed

subsection \<open>Evaluation of the whole domain\<close>

fun chain :: "cipher \<Rightarrow> nat \<Rightarrow> nat \<Rightarrow> 128 word \<Rightarrow> 128 word" where
  "chain enc n 0 p = p"
| "chain enc n (Suc i) p = chain enc n i (DpfPRG enc (GetVal n p))"

text \<open>The value number \<open>i\<close> below a leaf.\<close>

definition leaf_value :: "cipher \<Rightarrow> nat \<Rightarrow> dpf_key \<Rightarrow> dpf_state \<Rightarrow> nat \<Rightarrow> 128 word" where
  "leaf_value enc n key st i =
     (let v = chain enc n i (DpfPRG enc (fst st)) + of_bool (snd st) * last_cw_vec key ! i
      in if rank key then GetReverse n v else v)"

lemma chain_add: "chain enc n (a + b) p = chain enc n b (chain enc n a p)"
  by (induction a arbitrary: p) auto

lemma position_iff:
  fixes y :: nat
  assumes "pos < 2 ^ t"
  shows "y = pos + i * 2 ^ t \<longleftrightarrow> y mod 2 ^ t = pos \<and> y div 2 ^ t = i"
  using assms div_mult_mod_eq [of y "2 ^ t"] by (auto simp: add.commute)

lemma leaf_loop_nth:
  assumes "pos < 2 ^ term"
  shows "length (leaf_loop enc n key term pos t [a ..< a + l] p result) = length result
    \<and> (y < length result \<longrightarrow> leaf_loop enc n key term pos t [a ..< a + l] p result ! y =
        (if y mod 2 ^ term = pos \<and> a \<le> y div 2 ^ term \<and> y div 2 ^ term < a + l
         then (let v = chain enc n (y div 2 ^ term - a) p + of_bool t * last_cw_vec key ! (y div 2 ^ term)
               in if rank key then GetReverse n v else v)
         else result ! y))"
proof (induction l arbitrary: a p result)
  case (Suc l)
  have u: "[a ..< a + Suc l] = a # [Suc a ..< Suc a + l]" by (simp add: upt_conv_Cons del: upt_Suc)
  let ?v = "let v = p + of_bool t * last_cw_vec key ! a in if rank key then GetReverse n v else v"
  let ?r = "result[pos + a * 2 ^ term := ?v]"
  have L: "leaf_loop enc n key term pos t [a ..< a + Suc l] p result =
      leaf_loop enc n key term pos t [Suc a ..< Suc a + l] (DpfPRG enc (GetVal n p)) ?r"
    unfolding u by (simp add: Let_def del: upt_Suc)
  have eq: "pos + a * 2 ^ term = y \<longleftrightarrow> y mod 2 ^ term = pos \<and> y div 2 ^ term = a"
    using position_iff [OF assms, of y a] by auto
  note IH = Suc.IH [of "Suc a" "DpfPRG enc (GetVal n p)" ?r]
  show ?case
  proof (intro conjI impI)
    show "length (leaf_loop enc n key term pos t [a ..< a + Suc l] p result) = length result"
      using IH unfolding L by simp
    assume y: "y < length result"
    define q where "q = y div 2 ^ term"
    consider "y mod 2 ^ term = pos \<and> q = a" | "y mod 2 ^ term = pos \<and> Suc a \<le> q \<and> q < Suc a + l"
      | "\<not> (y mod 2 ^ term = pos \<and> a \<le> q \<and> q < a + Suc l)" by fastforce
    then show "leaf_loop enc n key term pos t [a ..< a + Suc l] p result ! y =
        (if y mod 2 ^ term = pos \<and> a \<le> y div 2 ^ term \<and> y div 2 ^ term < a + Suc l
         then (let v = chain enc n (y div 2 ^ term - a) p + of_bool t * last_cw_vec key ! (y div 2 ^ term)
               in if rank key then GetReverse n v else v)
         else result ! y)"
    proof cases
      case 1
      with IH y eq show ?thesis unfolding L q_def by (auto simp: nth_list_update)
    next
      case 2
      then have "q - a = Suc (q - Suc a)" by linarith
      with 2 IH y eq show ?thesis unfolding L q_def by (simp add: Let_def)
    next
      case 3
      with IH y eq show ?thesis unfolding L q_def by (auto simp: nth_list_update)
    qed
  qed
qed auto

lemma low_bits_Suc:
  fixes y :: nat
  assumes "pos < 2 ^ l"
  shows "y mod 2 ^ Suc l = pos \<longleftrightarrow> y mod 2 ^ l = pos \<and> \<not> bit y l"
    and "y mod 2 ^ Suc l = 2 ^ l + pos \<longleftrightarrow> y mod 2 ^ l = pos \<and> bit y l"
proof -
  have m: "y mod 2 ^ Suc l = 2 ^ l * of_bool (bit y l) + y mod 2 ^ l"
    using take_bit_Suc_from_most [of l y] by (simp only: take_bit_eq_mod)
  have lt: "y mod 2 ^ l < 2 ^ l" by simp
  have "2 ^ l * of_bool b + r = pos \<longleftrightarrow> r = pos \<and> \<not> b" "2 ^ l * of_bool b + r = 2 ^ l + pos \<longleftrightarrow> r = pos \<and> b"
    if "r < 2 ^ l" for r b using that assms by (cases b; simp)+
  from this [OF lt] show "y mod 2 ^ Suc l = pos \<longleftrightarrow> y mod 2 ^ l = pos \<and> \<not> bit y l"
    "y mod 2 ^ Suc l = 2 ^ l + pos \<longleftrightarrow> y mod 2 ^ l = pos \<and> bit y l" unfolding m by blast+
qed

lemma GetBit_nat: "i < 128 \<Longrightarrow> GetBit (word_of_nat y) i = bit y i"
  using bit_word_of_int_iff [of "int y" i, where 'a = 128] by (simp add: GetBit_bit bit_of_nat_iff_bit)

lemma Traverse_nth:
  assumes "level \<le> term" and "term \<le> m" and "m < 128" and "pos < 2 ^ level" and "length result = 2 ^ m" and "y < 2 ^ m"
  shows "length (Traverse enc m n key result level pos st term) = 2 ^ m
    \<and> Traverse enc m n key result level pos st term ! y =
      (if y mod 2 ^ level = pos
       then leaf_value enc n key (walk enc (cws_vec key) (word_of_nat y) [level ..< term] st) (y div 2 ^ term)
       else result ! y)"
  using assms
proof (induction "term - level" arbitrary: level pos st result)
  case 0
  then have l: "level = term" by simp
  obtain s t where st: "st = (s, t)" by (cases st)
  have T: "Traverse enc m n key result level pos st term =
      leaf_loop enc n key term pos t [0 ..< 0 + 2 ^ (m - term)] (DpfPRG enc s) result"
    by (subst Traverse.simps) (simp add: l st)
  have "y div 2 ^ term < 2 ^ (m - term)"
    using "0.prems"(2,6) by (simp add: div_less_iff_less_mult flip: power_add)
  with leaf_loop_nth [of pos "term" enc n key t 0 "2 ^ (m - term)" "DpfPRG enc s" result y] "0.prems"
  show ?case unfolding T by (simp add: l st leaf_value_def)
next
  case (Suc d)
  then have lt: "level < term" and d: "d = term - Suc level" by simp_all
  let ?c = "cws_vec key ! level" and ?e = "dpf_eval_level enc (cws_vec key ! level)"
  let ?r = "Traverse enc m n key result (Suc level) pos (?e False st) term"
  have T: "Traverse enc m n key result level pos st term =
      Traverse enc m n key ?r (Suc level) (2 ^ level + pos) (?e True st) term"
    by (subst Traverse.simps) (simp add: lt Let_def)
  note IH = Suc.hyps(1) [OF d, of _ _ _]
  have 1: "length ?r = 2 ^ m \<and> ?r ! y = (if y mod 2 ^ Suc level = pos
      then leaf_value enc n key (walk enc (cws_vec key) (word_of_nat y) [Suc level ..< term] (?e False st)) (y div 2 ^ term)
      else result ! y)"
    by (rule Suc.hyps(1) [OF d]) (use Suc.prems lt in auto)
  have 2: "length (Traverse enc m n key ?r (Suc level) (2 ^ level + pos) (?e True st) term) = 2 ^ m
    \<and> Traverse enc m n key ?r (Suc level) (2 ^ level + pos) (?e True st) term ! y = (if y mod 2 ^ Suc level = 2 ^ level + pos
      then leaf_value enc n key (walk enc (cws_vec key) (word_of_nat y) [Suc level ..< term] (?e True st)) (y div 2 ^ term)
      else ?r ! y)"
    by (rule Suc.hyps(1) [OF d]) (use Suc.prems lt 1 in auto)
  have u: "[level ..< term] = level # [Suc level ..< term]" using lt by (simp add: upt_conv_Cons)
  have b: "GetBit (word_of_nat y) level = bit y level" using lt Suc.prems(2,3) by (simp add: GetBit_nat)
  show ?case
    using 1 2 unfolding T u low_bits_Suc [OF Suc.prems(4)] by (cases "bit y level") (auto simp: b)
qed

lemma last_cw_loop_nth:
  "i < l \<Longrightarrow> last_cw_loop enc n beta apos t1 [a ..< a + l] p0 p1 ! i =
    (let b = (if a + i = apos then beta else 0);
         cw = b + GetReverse n (chain enc n i p0) + chain enc n i p1
     in if t1 then GetVal n (GetReverse n cw) else GetVal n cw)"
proof (induction l arbitrary: a i p0 p1)
  case (Suc l)
  have u: "[a ..< a + Suc l] = a # [Suc a ..< Suc a + l]" by (simp add: upt_conv_Cons del: upt_Suc)
  show ?case
  proof (cases i)
    case 0
    then show ?thesis unfolding u by (simp add: Let_def del: upt_Suc)
  next
    case (Suc j)
    with Suc.prems Suc.IH [of j "Suc a" "DpfPRG enc (GetVal n p0)" "DpfPRG enc (GetVal n p1)"] show ?thesis
      unfolding u by (simp add: Let_def del: upt_Suc)
  qed
qed simp

lemma unat_drop: "unat (drop_bit k w) = unat w div 2 ^ k" for w :: "128 word"
proof -
  have "int (unat (drop_bit k w)) = int (unat w div 2 ^ k)" by (simp add: uint_drop_bit zdiv_int del: drop_bit_eq_div)
  then show ?thesis by linarith
qed

lemma unat_low_bits: "(\<forall>j < T. GetBit a j = GetBit b j) \<longleftrightarrow> unat a mod 2 ^ T = unat b mod 2 ^ T"
  if "T \<le> 128" for a b :: "128 word"
proof -
  have "(\<forall>j < T. GetBit a j = GetBit b j) \<longleftrightarrow> GetVal T a = GetVal T b"
    using same_bits [OF that, of a b] by auto
  also have "\<dots> \<longleftrightarrow> unat (GetVal T a) = unat (GetVal T b)" by (auto dest: unsigned_word_eqI)
  finally show ?thesis by (simp only: unat_GetVal [OF that])
qed

lemma domain_low_bits:
  assumes "T \<le> m" and "m < 32" and "x < 2 ^ m"
  shows "x mod 2 ^ T = unat (GetVal m alpha) mod 2 ^ T \<longleftrightarrow> (\<forall>j < T. GetBit (word_of_nat x) j = GetBit alpha j)"
proof -
  have "x < 2 ^ 32" using assms by (meson less_imp_le order_less_le_trans one_le_numeral power_increasing)
  then have "unat (word_of_nat x :: 128 word) = x" by (simp add: unat_of_nat)
  moreover have "unat (GetVal m alpha) mod 2 ^ T = unat alpha mod 2 ^ T"
    using assms(1,2) by (simp add: unat_GetVal mod_mod_cancel le_imp_power_dvd)
  ultimately show ?thesis using unat_low_bits [of T "word_of_nat x" alpha] assms(1,2) by auto
qed

text \<open>The traversal reaches every position, with the state of the walk along its bits.\<close>

lemma DpfEvalAll_nth:
  assumes "enable_evalall key" and "length out = 2 ^ m" and "m < 128" and "x < 2 ^ m"
  shows "\<exists>r. DpfEvalAll enc m n key out = Some r \<and> r ! x = leaf_value enc n key
    (walk enc (cws_vec key) (word_of_nat x) [0 ..< GetTerminateLevel True m n] (mseed key, rank key))
    (x div 2 ^ GetTerminateLevel True m n)"
  using assms Traverse_nth [of 0 "GetTerminateLevel True m n" m 0 out x enc n key]
  by (simp add: DpfEvalAll_def) (simp add: GetTerminateLevel_def)

theorem dpf_eval_all:
  assumes mn: "m < 32" "0 < n" "n \<le> 128" and len: "length out0 = 2 ^ m" "length out1 = 2 ^ m"
    and keys: "DpfKeyGen enc m n alpha beta mk0 mk1 True = (k0, k1)" and x: "x < 2 ^ m"
  shows "\<exists>r0 r1. DpfEvalAll enc m n k0 out0 = Some r0 \<and> DpfEvalAll enc m n k1 out1 = Some r1
    \<and> GetVal n (r0 ! x + r1 ! x) = (if x = unat (GetVal m alpha) then GetVal n beta else 0)"
proof -
  define T where "T = GetTerminateLevel True m n"
  have T: "T \<le> m" by (simp add: T_def GetTerminateLevel_def)
  obtain cws s0 t0 s1 t1 where G: "dpf_gen_loop enc alpha [0 ..< T] ((mk0, False), (mk1, True)) = (cws, (s0, t0), (s1, t1))"
    by (metis prod.exhaust)
  let ?a = "unat (GetVal m alpha)" and ?i = "x div 2 ^ T"
  define last where "last = last_cw_loop enc n beta (unat (drop_bit T (GetVal m alpha))) t1 [0 ..< 2 ^ (m - T)] (DpfPRG enc s0) (DpfPRG enc s1)"
  have k: "k0 = (new_key False mk0)\<lparr>enable_evalall := True, cws_vec := cws, last_cw_vec := last\<rparr>"
    "k1 = (new_key True mk1)\<lparr>enable_evalall := True, cws_vec := cws, last_cw_vec := last\<rparr>"
    using keys by (simp_all add: DpfKeyGen_def G last_def Let_def flip: T_def)
  define v F b where "v = last ! ?i" and "F = (\<lambda>s. chain enc n ?i (DpfPRG enc s))"
    and "b = (if ?i = ?a div 2 ^ T then beta else 0)"
  let ?w = "\<lambda>r s. walk enc cws (word_of_nat x) [0 ..< T] (s, r)" and ?e = "\<lambda>st. F (fst st) + of_bool (snd st) * v"
  have m: "m < 128" using mn(1) by simp
  obtain r0 where r0: "DpfEvalAll enc m n k0 out0 = Some r0" "r0 ! x = ?e (?w False mk0)"
    using DpfEvalAll_nth [of k0 out0 m x enc n] len(1) m x by (auto simp: k new_key_def leaf_value_def v_def F_def simp flip: T_def)
  obtain r1 where r1: "DpfEvalAll enc m n k1 out1 = Some r1" "r1 ! x = GetReverse n (?e (?w True mk1))"
    using DpfEvalAll_nth [of k1 out1 m x enc n] len(2) m x by (auto simp: k new_key_def leaf_value_def v_def F_def simp flip: T_def)
  have i: "?i < 2 ^ (m - T)" using T x by (simp add: div_less_iff_less_mult flip: power_add)
  have "v = (if t1 then GetVal n (GetReverse n (b + GetReverse n (F s0) + F s1)) else GetVal n (b + GetReverse n (F s0) + F s1))"
    using last_cw_loop_nth [OF i, of enc n beta "?a div 2 ^ T" t1 0 "DpfPRG enc s0" "DpfPRG enc s1"]
    unfolding v_def last_def unat_drop b_def F_def Let_def add_0 .
  then have v: "same_val n v (if t1 then - (b - F s0 + F s1) else b - F s0 + F s1)"
    by (simp only: correction_word(1) [OF mn(3)])
  have P: "x mod 2 ^ T = ?a mod 2 ^ T \<longleftrightarrow> (\<forall>j < T. GetBit (word_of_nat x) j = GetBit alpha j)"
    by (rule domain_low_bits [OF T mn(1) x])
  have "GetVal n (r0 ! x + r1 ! x) = (if x mod 2 ^ T = ?a mod 2 ^ T then GetVal n b else 0)"
    unfolding r0 r1 by (rule share_total [OF mn(3) walk_from_root [OF G P] v same_val_refl same_val_reverse [OF mn(3)]])
  moreover have "x = ?a \<longleftrightarrow> ?i = ?a div 2 ^ T \<and> x mod 2 ^ T = ?a mod 2 ^ T" by (metis div_mult_mod_eq)
  ultimately show ?thesis using r0(1) r1(1) by (auto simp: b_def GetVal_def)
qed

subsection \<open>The terminating level\<close>

lemma e_bounds: "2.716 < exp (1 :: real)" "exp (1 :: real) < 2.72"
proof -
  obtain t where t: "\<bar>t\<bar> \<le> \<bar>1 :: real\<bar>" "exp 1 = (\<Sum>m<7. 1 ^ m / fact m) + exp t / fact 7 * 1 ^ 7"
    using Maclaurin_exp_le [of "1 :: real" 7] by blast
  have "exp t \<le> exp 1" using t(1) by simp
  then have "exp t \<le> 3" using exp_le by linarith
  moreover have "0 < exp t" by simp
  moreover have "exp 1 = 1957 / 720 + exp t / 5040" unfolding t(2) by (simp add: eval_nat_numeral)
  ultimately show "2.716 < exp (1 :: real)" "exp (1 :: real) < 2.72" by (simp_all, linarith)
qed

lemma floor_ln:
  assumes "exp 1 ^ j \<le> real k" and "real k < exp 1 ^ Suc j"
  shows "nat \<lfloor>ln (real k)\<rfloor> = j"
proof -
  have k: "0 < real k" using assms(1) by (rule less_le_trans [rotated]) simp
  have "real j \<le> ln (real k)" using assms(1) k by (simp add: ln_ge_iff exp_of_nat_mult [symmetric] flip: exp_of_nat_mult)
  moreover have "ln (real k) < real (Suc j)"
  proof -
    have "ln (real k) < ln (exp 1 ^ Suc j)" using assms(2) k by (subst ln_less_cancel_iff) simp_all
    then show ?thesis by (simp add: ln_realpow del: power_Suc)
  qed
  ultimately show ?thesis by linarith
qed

lemma ln_floor_correct:
  assumes "1 \<le> k" and "k \<le> 128"
  shows "ln_floor k = nat \<lfloor>ln (real k)\<rfloor>"
proof -
  let ?e = "exp 1 :: real"
  have lo: "2.716 ^ j \<le> ?e ^ j" and hi: "?e ^ j \<le> 2.72 ^ j" for j
    using e_bounds by (intro power_mono; simp)+
  have e: "?e ^ 0 \<le> 1" "2 < ?e ^ Suc 0" "?e ^ 1 \<le> 3" "7 < ?e ^ Suc 1" "?e ^ 2 \<le> 8" "20 < ?e ^ Suc 2"
    "?e ^ 3 \<le> 21" "54 < ?e ^ Suc 3" "?e ^ 4 \<le> 55" "128 < ?e ^ Suc 4"
    using lo [of 1] lo [of 2] lo [of 3] lo [of 4] lo [of 5] hi [of 1] hi [of 2] hi [of 3] hi [of 4]
    by (simp_all add: eval_nat_numeral)
  consider "k < 3" | "3 \<le> k" "k < 8" | "8 \<le> k" "k < 21" | "21 \<le> k" "k < 55" | "55 \<le> k" by linarith
  then show ?thesis
  proof cases
    case 1
    have "nat \<lfloor>ln (real k)\<rfloor> = 0" by (rule floor_ln) (use 1 assms e(1,2) in simp_all)
    then show ?thesis using 1 by (simp add: ln_floor_def)
  next
    case 2
    have "nat \<lfloor>ln (real k)\<rfloor> = 1" by (rule floor_ln) (use 2 e(3,4) in linarith)+
    then show ?thesis using 2 by (simp add: ln_floor_def)
  next
    case 3
    have "nat \<lfloor>ln (real k)\<rfloor> = 2" by (rule floor_ln) (use 3 e(5,6) in linarith)+
    then show ?thesis using 3 by (simp add: ln_floor_def)
  next
    case 4
    have "nat \<lfloor>ln (real k)\<rfloor> = 3" by (rule floor_ln) (use 4 e(7,8) in linarith)+
    then show ?thesis using 4 by (simp add: ln_floor_def)
  next
    case 5
    have "nat \<lfloor>ln (real k)\<rfloor> = 4" by (rule floor_ln) (use 5 assms(2) e(9,10) in linarith)+
    then show ?thesis using 5 by (simp add: ln_floor_def)
  qed
qed

lemma GetTerminateLevel_real:
  assumes "0 < n" and "n \<le> 128" and "4 \<le> m"
  shows "GetTerminateLevel True m n = min m (nat \<lceil>real m - ln (real (128 div n))\<rceil>)"
proof -
  let ?k = "128 div n"
  have k: "1 \<le> ?k" "?k \<le> 128" using assms(1,2) by (simp_all add: Suc_le_eq div_greater_zero_iff)
  have f: "ln_floor ?k \<le> 4" by (simp add: ln_floor_def)
  have "0 \<le> ln (real ?k)" using k(1) by simp
  then have "int (ln_floor ?k) = \<lfloor>ln (real ?k)\<rfloor>" by (simp add: ln_floor_correct [OF k])
  moreover have "\<lceil>real m - ln (real ?k)\<rceil> = int m - \<lfloor>ln (real ?k)\<rfloor>" by linarith
  ultimately have "\<lceil>real m - ln (real ?k)\<rceil> = int (m - ln_floor ?k)" using f assms(3) by simp
  then show ?thesis by (simp add: GetTerminateLevel_def)
qed

end
