(* ===== verification/Dcf.thy ===== *)
theory Dcf
  imports Dpf
begin

text \<open>
  \<^verbatim>\<open>dpf/dcf.cc\<close>: the distributed comparison function.  The keys share the function that is \<open>\<beta>\<close> below
  the point \<open>\<alpha>\<close> and 0 from it on.  The tree is walked from the most significant bit; besides seed and
  control bit a party accumulates a group element, and the correction words carry one more group
  element per level, chosen so that the sum of the two accumulators is \<open>\<beta>\<close> or 0 as soon as the input
  leaves the path of \<open>\<alpha>\<close>.
\<close>

subsection \<open>Keys\<close>

record dcf_cw = cw +
  cw_v :: "128 word"

definition new_dcf_cw :: dcf_cw where
  "new_dcf_cw = \<lparr>cw_seed = 0, t_store = 0, cw_v = 0\<rparr>"

record dcf_key =
  dcf_cws_vec :: "dcf_cw list"
  dcf_last_cw_vec :: "128 word list"
  dcf_rank :: bool
  dcf_mseed :: "128 word"

definition DcfPRG :: "cipher \<Rightarrow> 128 word \<Rightarrow> 128 word" where
  "DcfPRG enc seed = fst (prg_next enc (new_prg 16 seed kAesEcb))"

definition SplitDcfSeed ::
    "cipher \<Rightarrow> 128 word \<Rightarrow> 128 word \<times> 128 word \<times> bool \<times> 128 word \<times> 128 word \<times> bool" where
  "SplitDcfSeed enc seed =
     (let prng = new_prg 80 seed kAesEcb;
          (seed_left, prng) = prg_next enc prng;
          (seed_right, prng) = prg_next enc prng;
          (v_seed_left, prng) = prg_next enc prng;
          (v_seed_right, prng) = prg_next enc prng;
          (tmp, prng) = prg_next enc prng
      in (seed_left, v_seed_left, GetBit tmp 1, seed_right, v_seed_right, GetBit tmp 2))"

subsection \<open>Key generation\<close>

text \<open>One level: the correction word, the two states below, and the sum \<open>v_working\<close> on the path.\<close>

definition dcf_gen_level ::
    "cipher \<Rightarrow> nat \<Rightarrow> 128 word \<Rightarrow> bool \<Rightarrow> dpf_state \<times> dpf_state \<Rightarrow> 128 word
      \<Rightarrow> dcf_cw \<times> (dpf_state \<times> dpf_state) \<times> 128 word" where
  "dcf_gen_level enc n beta alpha_bit st v_working =
     (let ((s0, t0), (s1, t1)) = st;
          (seed_left0, v_seed_left0, t_left0, seed_right0, v_seed_right0, t_right0) = SplitDcfSeed enc s0;
          (seed_left1, v_seed_left1, t_left1, seed_right1, v_seed_right1, t_right1) = SplitDcfSeed enc s1;
          keep_seed0 = (if alpha_bit then seed_right0 else seed_left0);
          keep_seed1 = (if alpha_bit then seed_right1 else seed_left1);
          lose_seed0 = (if alpha_bit then seed_left0 else seed_right0);
          lose_seed1 = (if alpha_bit then seed_left1 else seed_right1);
          v_seed_keep0 = (if alpha_bit then v_seed_right0 else v_seed_left0);
          v_seed_keep1 = (if alpha_bit then v_seed_right1 else v_seed_left1);
          v_seed_lose0 = (if alpha_bit then v_seed_left0 else v_seed_right0);
          v_seed_lose1 = (if alpha_bit then v_seed_left1 else v_seed_right1);
          t_keep0 = (if alpha_bit then t_right0 else t_left0);
          t_keep1 = (if alpha_bit then t_right1 else t_left1);
          cwseed = lose_seed0 XOR lose_seed1;
          prg_lose0 = DcfPRG enc v_seed_lose0;
          prg_lose1 = DcfPRG enc v_seed_lose1;
          prg_keep0 = DcfPRG enc v_seed_keep0;
          prg_keep1 = DcfPRG enc v_seed_keep1;
          cwv = prg_lose1 + GetReverse n prg_lose0 + GetReverse n v_working;
          (cwv, v_working) =
            (if t1 then
               (let cwv = GetReverse n cwv;
                    cwv = (if alpha_bit then cwv + GetReverse n beta else cwv)
                in (cwv, v_working + (GetReverse n prg_keep1 + prg_keep0 + GetReverse n cwv)))
             else
               (let cwv = (if alpha_bit then cwv + beta else cwv)
                in (cwv, v_working + (GetReverse n prg_keep1 + prg_keep0 + cwv))));
          cw_t_left = (((t_left0 \<noteq> t_left1) \<noteq> alpha_bit) \<noteq> True);
          cw_t_right = ((t_right0 \<noteq> t_right1) \<noteq> alpha_bit);
          cw_t_keep = (if alpha_bit then cw_t_right else cw_t_left)
      in ((SetRT cw_t_right (SetLT cw_t_left (new_dcf_cw\<lparr>cw_seed := cwseed\<rparr>)))\<lparr>cw_v := GetVal n cwv\<rparr>,
          ((if t0 then keep_seed0 XOR cwseed else keep_seed0, t_keep0 \<noteq> (t0 \<and> cw_t_keep)),
           (if t1 then keep_seed1 XOR cwseed else keep_seed1, t_keep1 \<noteq> (t1 \<and> cw_t_keep))),
          v_working))"

definition dcf_gen_step ::
    "cipher \<Rightarrow> nat \<Rightarrow> nat \<Rightarrow> 128 word \<Rightarrow> 128 word \<Rightarrow> nat
      \<Rightarrow> dcf_cw list \<times> (dpf_state \<times> dpf_state) \<times> 128 word \<Rightarrow> dcf_cw list \<times> (dpf_state \<times> dpf_state) \<times> 128 word" where
  "dcf_gen_step enc m n alpha beta i acc =
     (let (cws, st, v_working) = acc;
          (cw, st, v_working) = dcf_gen_level enc n beta (GetBit alpha (m - i - 1)) st v_working
      in (cws @ [cw], st, v_working))"

definition DcfKeyGen ::
    "cipher \<Rightarrow> nat \<Rightarrow> nat \<Rightarrow> 128 word \<Rightarrow> 128 word \<Rightarrow> 128 word \<Rightarrow> 128 word \<Rightarrow> dcf_key \<times> dcf_key" where
  "DcfKeyGen enc m n alpha beta first_mk second_mk =
     (let (cws, ((s0, t0), (s1, t1)), v_working) =
            fold (dcf_gen_step enc m n alpha beta) [0 ..< m] ([], ((first_mk, False), (second_mk, True)), 0);
          prg0 = DcfPRG enc s0;
          prg1 = DcfPRG enc s1;
          last_cw = GetReverse n prg0 + prg1 + GetReverse n v_working;
          last_cw = (if t1 then GetReverse n last_cw else last_cw)
      in (\<lparr>dcf_cws_vec = cws, dcf_last_cw_vec = [GetVal n last_cw], dcf_rank = False, dcf_mseed = first_mk\<rparr>,
          \<lparr>dcf_cws_vec = cws, dcf_last_cw_vec = [GetVal n last_cw], dcf_rank = True, dcf_mseed = second_mk\<rparr>))"

subsection \<open>Evaluation\<close>

definition dcf_eval_level ::
    "cipher \<Rightarrow> nat \<Rightarrow> bool \<Rightarrow> dcf_cw \<Rightarrow> bool \<Rightarrow> dpf_state \<times> 128 word \<Rightarrow> dpf_state \<times> 128 word" where
  "dcf_eval_level enc n rnk c b acc =
     (let ((seed_working, t_working), out) = acc;
          (seed_left, v_seed_left, t_left, seed_right, v_seed_right, t_right) = SplitDcfSeed enc seed_working;
          seed_left = (if t_working then seed_left XOR cw_seed c else seed_left);
          t_left = (t_left \<noteq> (t_working \<and> GetLT c \<noteq> 0));
          seed_right = (if t_working then seed_right XOR cw_seed c else seed_right);
          t_right = (t_right \<noteq> (t_working \<and> GetRT c \<noteq> 0));
          prg0 = DcfPRG enc v_seed_left;
          prg1 = DcfPRG enc v_seed_right
      in if b then
           ((seed_right, t_right),
            out + (if t_working then (if rnk then GetReverse n (prg1 + cw_v c) else prg1 + cw_v c)
                   else (if rnk then GetReverse n prg1 else prg1)))
         else
           ((seed_left, t_left),
            out + (if t_working then (if rnk then GetReverse n (prg0 + cw_v c) else prg0 + cw_v c)
                   else (if rnk then GetReverse n prg0 else prg0))))"

definition DcfEval :: "cipher \<Rightarrow> nat \<Rightarrow> nat \<Rightarrow> dcf_key \<Rightarrow> 128 word \<Rightarrow> 128 word" where
  "DcfEval enc m n key inp =
     (let ((seed_working, t_working), out) =
            fold (\<lambda>i. dcf_eval_level enc n (dcf_rank key) (dcf_cws_vec key ! i) (GetBit inp (m - i - 1))) [0 ..< m]
              ((dcf_mseed key, dcf_rank key), 0);
          prg = DcfPRG enc seed_working;
          tmp = (if t_working then prg + dcf_last_cw_vec key ! 0 else prg)
      in out + (if dcf_rank key then GetReverse n tmp else tmp))"

subsection \<open>One level\<close>

text \<open>The part of a party's level that does not depend on the accumulator.\<close>

definition below :: "cipher \<Rightarrow> dcf_cw \<Rightarrow> bool \<Rightarrow> dpf_state \<Rightarrow> dpf_state" where
  "below enc c b st =
     (let (s, t) = st; (sl, vl, tl, sr, vr, tr) = SplitDcfSeed enc s
      in if b then (if t then sr XOR cw_seed c else sr, tr \<noteq> (t \<and> GetRT c \<noteq> 0))
         else (if t then sl XOR cw_seed c else sl, tl \<noteq> (t \<and> GetLT c \<noteq> 0)))"

definition share :: "cipher \<Rightarrow> dcf_cw \<Rightarrow> bool \<Rightarrow> dpf_state \<Rightarrow> 128 word" where
  "share enc c b st =
     (let (s, t) = st; (sl, vl, tl, sr, vr, tr) = SplitDcfSeed enc s
      in DcfPRG enc (if b then vr else vl) + of_bool t * cw_v c)"

lemma dcf_eval_level_eq:
  "dcf_eval_level enc n r c b (st, out) =
     (below enc c b st, out + (if r then GetReverse n (share enc c b st) else share enc c b st))"
  by (cases st) (auto simp: dcf_eval_level_def below_def share_def Let_def split: prod.splits)

lemma dcf_cw_fields [simp]:
  "GetLT ((SetRT r (SetLT l (new_dcf_cw\<lparr>cw_seed := s\<rparr>)))\<lparr>cw_v := v\<rparr>) = of_bool l"
  "GetRT ((SetRT r (SetLT l (new_dcf_cw\<lparr>cw_seed := s\<rparr>)))\<lparr>cw_v := v\<rparr>) = of_bool r"
  "cw_seed ((SetRT r (SetLT l (new_dcf_cw\<lparr>cw_seed := s\<rparr>)))\<lparr>cw_v := v\<rparr>) = s"
  "cw_v ((SetRT r (SetLT l (new_dcf_cw\<lparr>cw_seed := s\<rparr>)))\<lparr>cw_v := v\<rparr>) = v"
  by (cases l; cases r; simp add: GetLT_def GetRT_def SetLT_def SetRT_def new_dcf_cw_def)+

lemma dcf_level_states:
  assumes "apart (a, b)" and "dcf_gen_level enc n beta x (a, b) v = (c, (a', b'), v')"
  shows "below enc c x a = a'" "below enc c x b = b'" "apart (a', b')"
    and "below enc c (\<not> x) a = below enc c (\<not> x) b"
proof -
  obtain s0 t0 s1 t1 where ab: "a = (s0, t0)" "b = (s1, t1)" by (cases a; cases b) auto
  obtain l0 p0 u0 r0 q0 v0 where S0: "SplitDcfSeed enc s0 = (l0, p0, u0, r0, q0, v0)" by (cases "SplitDcfSeed enc s0")
  obtain l1 p1 u1 r1 q1 v1 where S1: "SplitDcfSeed enc s1 = (l1, p1, u1, r1, q1, v1)" by (cases "SplitDcfSeed enc s1")
  have t: "t1 = (\<not> t0)" using assms(1) by (auto simp: apart_def ab)
  have X: "w XOR (w XOR z) = z" "w XOR (z XOR w) = z" for w z :: "128 word"
    by (auto simp: bit_eq_iff bit_xor_iff)
  note d = dcf_gen_level_def below_def ab S0 S1 t Let_def apart_def
  show "below enc c x a = a'" "below enc c x b = b'" "apart (a', b')"
    using assms(2) by (cases x; cases t0; auto simp: d)+
  show "below enc c (\<not> x) a = below enc c (\<not> x) b"
    using assms(2) by (cases x; cases t0; auto simp: d X)
qed

text \<open>The sums of the two shares, on the path and at the place where the input leaves it.\<close>

lemma dcf_level_shares:
  assumes n: "n \<le> 128" and "apart (a, b)" and "dcf_gen_level enc n beta x (a, b) v = (c, (a', b'), v')"
  shows "same_val n (v + (share enc c x a - share enc c x b)) v'"
    and "same_val n (v + (share enc c (\<not> x) a - share enc c (\<not> x) b)) (if x then beta else 0)"
proof -
  obtain s0 t0 s1 t1 where ab: "a = (s0, t0)" "b = (s1, t1)" by (cases a; cases b) auto
  obtain l0 p0 u0 r0 q0 v0 where S0: "SplitDcfSeed enc s0 = (l0, p0, u0, r0, q0, v0)" by (cases "SplitDcfSeed enc s0")
  obtain l1 p1 u1 r1 q1 v1 where S1: "SplitDcfSeed enc s1 = (l1, p1, u1, r1, q1, v1)" by (cases "SplitDcfSeed enc s1")
  have t: "t0 = (\<not> t1)" using assms(2) by (auto simp: apart_def ab)
  let ?P = "DcfPRG enc"
  define k0 k1 m0 m1 where "k0 = ?P (if x then q0 else p0)" and "k1 = ?P (if x then q1 else p1)"
    and "m0 = ?P (if x then p0 else q0)" and "m1 = ?P (if x then p1 else q1)"
  define w0 where "w0 = m1 + GetReverse n m0 + GetReverse n v"
  define w where "w = (if t1 then (if x then GetReverse n w0 + GetReverse n beta else GetReverse n w0) else (if x then w0 + beta else w0))"
  have c: "cw_v c = GetVal n w" and v': "v' = v + (GetReverse n k1 + k0 + (if t1 then GetReverse n w else w))"
    using assms(3) by (auto simp: dcf_gen_level_def ab S0 S1 Let_def w_def w0_def k0_def k1_def m0_def m1_def split: if_splits)
  have sh: "share enc c x a = k0 + of_bool t0 * GetVal n w" "share enc c x b = k1 + of_bool t1 * GetVal n w"
    "share enc c (\<not> x) a = m0 + of_bool t0 * GetVal n w" "share enc c (\<not> x) b = m1 + of_bool t1 * GetVal n w"
    by (simp_all add: share_def ab S0 S1 c k0_def k1_def m0_def m1_def)
  obtain g where g: "GetVal n w = w + 2 ^ n * g" by (rule same_valE [OF same_val_GetVal [OF n, of w]])
  obtain rk where rk: "GetReverse n k1 = - k1 + 2 ^ n * rk" by (rule same_valE [OF same_val_reverse [OF n]])
  obtain rw where rw: "GetReverse n w = - w + 2 ^ n * rw" by (rule same_valE [OF same_val_reverse [OF n]])
  obtain rm where rm: "GetReverse n m0 = - m0 + 2 ^ n * rm" by (rule same_valE [OF same_val_reverse [OF n]])
  obtain rv where rv: "GetReverse n v = - v + 2 ^ n * rv" by (rule same_valE [OF same_val_reverse [OF n]])
  obtain rw0 where rw0: "GetReverse n w0 = - w0 + 2 ^ n * rw0" by (rule same_valE [OF same_val_reverse [OF n]])
  obtain rb where rb: "GetReverse n beta = - beta + 2 ^ n * rb" by (rule same_valE [OF same_val_reverse [OF n]])
  show "same_val n (v + (share enc c x a - share enc c x b)) v'"
    by (rule same_valI [where k = "(if t1 then - g - rw else g) - rk"]) (simp add: sh t v' g rk rw algebra_simps)
  show "same_val n (v + (share enc c (\<not> x) a - share enc c (\<not> x) b)) (if x then beta else 0)"
    by (rule same_valI [where k = "(if t1 then - g - rw0 - (if x then rb else 0) else g) + rm + rv"])
      (simp only: sh t g, simp add: w_def rw0 rb, simp add: w0_def rm rv algebra_simps)
qed

subsection \<open>All levels\<close>

definition gen_prefix ::
    "cipher \<Rightarrow> nat \<Rightarrow> nat \<Rightarrow> 128 word \<Rightarrow> 128 word \<Rightarrow> 128 word \<Rightarrow> 128 word \<Rightarrow> nat
      \<Rightarrow> dcf_cw list \<times> (dpf_state \<times> dpf_state) \<times> 128 word" where
  "gen_prefix enc m n alpha beta mk0 mk1 k =
     fold (dcf_gen_step enc m n alpha beta) [0 ..< k] ([], ((mk0, False), (mk1, True)), 0)"

definition eval_prefix ::
    "cipher \<Rightarrow> nat \<Rightarrow> nat \<Rightarrow> bool \<Rightarrow> dcf_cw list \<Rightarrow> 128 word \<Rightarrow> 128 word \<Rightarrow> nat \<Rightarrow> dpf_state \<times> 128 word" where
  "eval_prefix enc m n r cws mk x k =
     fold (\<lambda>i. dcf_eval_level enc n r (cws ! i) (GetBit x (m - i - 1))) [0 ..< k] ((mk, r), 0)"

lemma prefix_Suc:
  "gen_prefix enc m n alpha beta mk0 mk1 (Suc k) = dcf_gen_step enc m n alpha beta k (gen_prefix enc m n alpha beta mk0 mk1 k)"
  "eval_prefix enc m n r cws mk x (Suc k) =
     dcf_eval_level enc n r (cws ! k) (GetBit x (m - k - 1)) (eval_prefix enc m n r cws mk x k)"
  by (simp_all add: gen_prefix_def eval_prefix_def)

lemma gen_step_append: "\<exists>c. fst (dcf_gen_step enc m n alpha beta i acc) = fst acc @ [c]"
proof -
  obtain cws st v where acc: "acc = (cws, st, v)" by (cases acc) auto
  obtain c st' v' where "dcf_gen_level enc n beta (GetBit alpha (m - i - 1)) st v = (c, st', v')" by (metis prod.exhaust)
  then show ?thesis by (auto simp: dcf_gen_step_def acc)
qed

lemma gen_prefix_length: "length (fst (gen_prefix enc m n alpha beta mk0 mk1 k)) = k"
proof (induction k)
  case (Suc k)
  then show ?case unfolding prefix_Suc
    using gen_step_append [of enc m n alpha beta k "gen_prefix enc m n alpha beta mk0 mk1 k"] by auto
qed (simp add: gen_prefix_def)

lemma gen_prefix_take:
  "k \<le> j \<Longrightarrow> take k (fst (gen_prefix enc m n alpha beta mk0 mk1 j)) = fst (gen_prefix enc m n alpha beta mk0 mk1 k)"
proof (induction j)
  case (Suc j)
  let ?g = "gen_prefix enc m n alpha beta mk0 mk1"
  obtain c where c: "fst (?g (Suc j)) = fst (?g j) @ [c]"
    unfolding prefix_Suc using gen_step_append by blast
  show ?case
  proof (cases "k = Suc j")
    case True
    then show ?thesis using gen_prefix_length [of enc m n alpha beta mk0 mk1 "Suc j"] by simp
  next
    case False
    then have "k \<le> j" using Suc.prems by simp
    with Suc.IH c gen_prefix_length [of enc m n alpha beta mk0 mk1 j] show ?thesis by simp
  qed
qed (simp add: gen_prefix_def)

text \<open>The bits of a number that have been read, from the top, after \<open>k\<close> of \<open>m\<close> levels.\<close>

definition top_bits :: "nat \<Rightarrow> nat \<Rightarrow> 128 word \<Rightarrow> nat" where
  "top_bits m k x = unat (GetVal m x) div 2 ^ (m - k)"

lemma top_bits_Suc: "k < m \<Longrightarrow> m \<le> 64 \<Longrightarrow> top_bits m (Suc k) x = 2 * top_bits m k x + of_bool (GetBit x (m - k - 1))"
proof -
  assume k: "k < m" and m: "m \<le> 64"
  let ?u = "unat (GetVal m x)" and ?j = "m - Suc k"
  have mk: "m - k = Suc ?j" using k by simp
  have "?u div 2 ^ ?j = 2 * (?u div 2 ^ ?j div 2) + ?u div 2 ^ ?j mod 2" by simp
  moreover have "?u div 2 ^ ?j div 2 = ?u div 2 ^ Suc ?j" by (simp add: div_mult2_eq [symmetric] mult.commute)
  moreover have "?u div 2 ^ ?j mod 2 = of_bool (bit ?u ?j)" by (simp add: bit_iff_odd mod2_eq_if)
  moreover have "bit ?u ?j = GetBit x ?j"
    using k m by (simp add: GetBit_bit GetVal_take_bit bit_unsigned_iff bit_take_bit_iff)
  ultimately show ?thesis by (simp add: top_bits_def mk)
qed

text \<open>
  The invariant of the levels: on the path of \<open>\<alpha>\<close> the accumulators add up to \<open>v_working\<close>; off it the
  states agree and the accumulators add up to the final answer.
\<close>

lemma dcf_levels:
  assumes n: "n \<le> 128" and m: "m \<le> 64" and k: "k \<le> m" and c: "c = fst (gen_prefix enc m n alpha beta mk0 mk1 m)"
    and g: "gen_prefix enc m n alpha beta mk0 mk1 k = (cws, (a, b), v)"
    and e: "eval_prefix enc m n False c mk0 x k = (a', y0)" "eval_prefix enc m n True c mk1 x k = (b', y1)"
  shows "apart (a, b) \<and> (if top_bits m k x = top_bits m k alpha then a' = a \<and> b' = b \<and> same_val n (y0 + y1) v
    else a' = b' \<and> same_val n (y0 + y1) (if top_bits m k x < top_bits m k alpha then beta else 0))"
  using k g e
proof (induction k arbitrary: cws a b v a' b' y0 y1)
  case 0
  moreover have "unat (GetVal m z) < 2 ^ m" for z using m by (simp add: unat_GetVal)
  ultimately show ?case by (simp add: gen_prefix_def eval_prefix_def top_bits_def apart_def) auto
next
  case (Suc k)
  obtain cws1 a1 b1 v1 where g1: "gen_prefix enc m n alpha beta mk0 mk1 k = (cws1, (a1, b1), v1)" by (metis prod.exhaust)
  obtain a2 z0 b2 z1 where e1: "eval_prefix enc m n False c mk0 x k = (a2, z0)" "eval_prefix enc m n True c mk1 x k = (b2, z1)"
    by (metis prod.exhaust)
  note IH = Suc.IH [OF Suc_leD [OF Suc.prems(1)] g1 e1]
  let ?al = "GetBit alpha (m - k - 1)" and ?xb = "GetBit x (m - k - 1)"
  obtain w where w: "dcf_gen_level enc n beta ?al (a1, b1) v1 = (w, (a, b), v)" "cws = cws1 @ [w]"
    using Suc.prems(2) unfolding prefix_Suc g1 by (auto simp: dcf_gen_step_def Let_def split: prod.splits)
  have ck: "c ! k = w"
  proof -
    have "take (Suc k) c = cws1 @ [w]"
      using gen_prefix_take [OF Suc.prems(1), of enc m n alpha beta mk0 mk1] Suc.prems(2) w(2) by (simp add: c)
    moreover have "length cws1 = k" using gen_prefix_length [of enc m n alpha beta mk0 mk1 k] g1 by simp
    ultimately show ?thesis by (metis lessI nth_append_length nth_take)
  qed
  have E: "a' = below enc w ?xb a2" "y0 = z0 + share enc w ?xb a2"
    "b' = below enc w ?xb b2" "y1 = z1 + GetReverse n (share enc w ?xb b2)"
    using Suc.prems(3,4) unfolding prefix_Suc e1 dcf_eval_level_eq ck by auto
  have ap: "apart (a1, b1)" using IH by blast
  note S = dcf_level_states [OF ap w(1)] and V = dcf_level_shares [OF n ap w(1)]
  have sum: "same_val n (y0 + y1) (u + (share enc w ?xb a2 - share enc w ?xb b2))" if "same_val n (z0 + z1) u" for u
  proof -
    have "same_val n ((z0 + z1) + (share enc w ?xb a2 + GetReverse n (share enc w ?xb b2))) (u + (share enc w ?xb a2 + - share enc w ?xb b2))"
      by (intro same_val_add that same_val_refl same_val_reverse [OF n])
    then show ?thesis by (simp add: E algebra_simps)
  qed
  have k: "k < m" using Suc.prems(1) by simp
  note top = top_bits_Suc [OF k m]
  consider "top_bits m k x = top_bits m k alpha" "?xb = ?al" | "top_bits m k x = top_bits m k alpha" "?xb = (\<not> ?al)" | "top_bits m k x \<noteq> top_bits m k alpha"
    by blast
  then show ?case
  proof cases
    case 1
    with IH have i: "a2 = a1" "b2 = b1" "same_val n (z0 + z1) v1" by simp_all
    have "same_val n (y0 + y1) v" using same_val_trans [OF sum [OF i(3), unfolded i(1,2)] V(1) [folded 1(2)]] .
    with 1 S E i show ?thesis by (simp add: top)
  next
    case 2
    with IH have i: "a2 = a1" "b2 = b1" "same_val n (z0 + z1) v1" by simp_all
    have "same_val n (y0 + y1) (if ?al then beta else 0)"
      using same_val_trans [OF sum [OF i(3), unfolded i(1,2)] V(2) [folded 2(2)]] .
    with 2 S E i show ?thesis by (cases ?al) (simp_all add: top)
  next
    case 3
    with IH have i: "a2 = b2" "same_val n (z0 + z1) (if top_bits m k x < top_bits m k alpha then beta else 0)" by simp_all
    have "same_val n (y0 + y1) (if top_bits m k x < top_bits m k alpha then beta else 0)" using sum [OF i(2)] by (simp add: i(1))
    moreover have "top_bits m (Suc k) x \<noteq> top_bits m (Suc k) alpha" "top_bits m (Suc k) x < top_bits m (Suc k) alpha \<longleftrightarrow> top_bits m k x < top_bits m k alpha"
      using 3 unfolding top by (cases ?al; cases ?xb; simp; linarith)+
    ultimately show ?thesis using S(3) E i(1) by simp
  qed
qed

theorem dcf_comparison:
  assumes mn: "m \<le> 64" "n \<le> 128" and keys: "DcfKeyGen enc m n alpha beta mk0 mk1 = (k0, k1)"
  shows "GetVal n (DcfEval enc m n k0 x + DcfEval enc m n k1 x) = (if GetVal m x < GetVal m alpha then GetVal n beta else 0)"
proof -
  obtain cws s0 t0 s1 t1 v where g: "gen_prefix enc m n alpha beta mk0 mk1 m = (cws, ((s0, t0), (s1, t1)), v)"
    by (metis prod.exhaust)
  obtain a y0 b y1 where e: "eval_prefix enc m n False cws mk0 x m = (a, y0)" "eval_prefix enc m n True cws mk1 x m = (b, y1)"
    by (metis prod.exhaust)
  let ?p0 = "DcfPRG enc s0" and ?p1 = "DcfPRG enc s1"
  define u w where "u = GetReverse n ?p0 + ?p1 + GetReverse n v" and "w = GetVal n (if t1 then GetReverse n u else u)"
  have k: "k0 = \<lparr>dcf_cws_vec = cws, dcf_last_cw_vec = [w], dcf_rank = False, dcf_mseed = mk0\<rparr>"
    "k1 = \<lparr>dcf_cws_vec = cws, dcf_last_cw_vec = [w], dcf_rank = True, dcf_mseed = mk1\<rparr>"
    using keys g by (auto simp: DcfKeyGen_def gen_prefix_def Let_def u_def w_def)
  let ?f = "\<lambda>st. DcfPRG enc (fst st) + of_bool (snd st) * w"
  have E: "DcfEval enc m n k0 x = y0 + ?f a" "DcfEval enc m n k1 x = y1 + GetReverse n (?f b)"
    using e by (auto simp: DcfEval_def k eval_prefix_def split: prod.splits)
  have L: "apart ((s0, t0), (s1, t1)) \<and> (if top_bits m m x = top_bits m m alpha then a = (s0, t0) \<and> b = (s1, t1) \<and> same_val n (y0 + y1) v
    else a = b \<and> same_val n (y0 + y1) (if top_bits m m x < top_bits m m alpha then beta else 0))"
    using dcf_levels [OF mn(2,1) order_refl _ g e] g by simp
  have less: "GetVal m x < GetVal m alpha \<longleftrightarrow> top_bits m m x < top_bits m m alpha" by (simp add: top_bits_def word_less_nat_alt)
  have sum: "same_val n ((y0 + ?f a) + (y1 + GetReverse n (?f b))) (z + (?f a + - ?f b))" if "same_val n (y0 + y1) z" for z
    using same_val_add [OF that same_val_add [OF same_val_refl same_val_reverse [OF mn(2)]], of "?f a" "?f b"] by (simp add: algebra_simps)
  have "same_val n ((y0 + ?f a) + (y1 + GetReverse n (?f b))) (if top_bits m m x < top_bits m m alpha then beta else 0)"
  proof (cases "top_bits m m x = top_bits m m alpha")
    case True
    with L have l: "a = (s0, t0)" "b = (s1, t1)" "same_val n (y0 + y1) v" "t0 = (\<not> t1)" by (auto simp: apart_def)
    obtain ru where ru: "GetReverse n u = - u + 2 ^ n * ru" by (rule same_valE [OF same_val_reverse [OF mn(2)]])
    obtain rp where rp: "GetReverse n ?p0 = - ?p0 + 2 ^ n * rp" by (rule same_valE [OF same_val_reverse [OF mn(2)]])
    obtain rv where rv: "GetReverse n v = - v + 2 ^ n * rv" by (rule same_valE [OF same_val_reverse [OF mn(2)]])
    obtain gw where gw: "w = (if t1 then GetReverse n u else u) + 2 ^ n * gw"
      unfolding w_def by (rule same_valE [OF same_val_GetVal [OF mn(2)]])
    have "same_val n (v + (?f a + - ?f b)) 0"
      by (rule same_valI [where k = "(if t1 then - gw - ru else gw) + rp + rv"])
        (simp add: l gw ru, simp add: u_def rp rv algebra_simps)
    from same_val_trans [OF sum [OF l(3)] this] True show ?thesis by simp
  next
    case False
    with L have l: "a = b" "same_val n (y0 + y1) (if top_bits m m x < top_bits m m alpha then beta else 0)" by simp_all
    from sum [OF l(2)] show ?thesis by (simp add: l(1))
  qed
  then show ?thesis unfolding E less by (simp add: GetVal_eq_iff [OF mn(2), symmetric]) (simp add: GetVal_def)
qed

end
