(* ===== verification/Pprf.thy ===== *)
theory Pprf
  imports Ge2n
begin

text \<open>
  \<^verbatim>\<open>dpf/pprf.cc\<close>: the puncturable pseudo-random function on a binary tree of seeds.  The punctured key
  holds, for every level, the seed of the sibling of the path to the punctured point.  The theorem:
  at every other point the punctured key gives the value of the function, and at the punctured
  point the evaluation is refused.  The two halves of a seed come from the cipher in counter mode,
  with counters 0 and 1; the theorem holds for every cipher.
\<close>

record punc_key =
  punc_point :: "128 word"
  seeds :: "nat \<rightharpoonup> 128 word"

definition ggm_child :: "cipher \<Rightarrow> bool \<Rightarrow> 128 word \<Rightarrow> 128 word" where
  "ggm_child enc right inp = u128_of_bytes (snd (FillPRand enc AES128_CTR inp 0 (of_bool right) 16))"

definition GgmPrg :: "cipher \<Rightarrow> 128 word \<Rightarrow> 128 word \<times> 128 word" where
  "GgmPrg enc inp = (ggm_child enc False inp, ggm_child enc True inp)"

text \<open>\<^verbatim>\<open>unordered_map::insert\<close> keeps the value of a key that is present.\<close>

definition insert_seed :: "nat \<Rightarrow> 128 word \<Rightarrow> punc_key \<Rightarrow> punc_key" where
  "insert_seed i s out = (case seeds out i of None \<Rightarrow> out\<lparr>seeds := (seeds out)(i \<mapsto> s)\<rparr> | Some _ \<Rightarrow> out)"

fun log2_nat :: "nat \<Rightarrow> nat" where
  "log2_nat n = (if n \<le> 1 then 0 else Suc (log2_nat (n div 2)))"

declare log2_nat.simps [simp del]

text \<open>All leaves below a seed, in the order of the array (the first bit selects the half).\<close>

function GgmFullExpand :: "cipher \<Rightarrow> 128 word list \<Rightarrow> 128 word list" where
  "GgmFullExpand enc span =
     (let num = length span
      in if num > 1 then
           (let (l, r) = GgmPrg enc (span ! 0);
                span = span[0 := l, num div 2 := r]
            in GgmFullExpand enc (take (num div 2) span)
               @ GgmFullExpand enc (take (num div 2) (drop (num div 2) span)))
         else span)"
  by auto

termination
  by (relation "measure (\<lambda>(enc, span). length span)") auto

function GgmExpandAndPunc :: "cipher \<Rightarrow> nat \<Rightarrow> 128 word list \<Rightarrow> 128 word \<Rightarrow> punc_key \<Rightarrow> punc_key" where
  "GgmExpandAndPunc enc m span point out =
     (let num = length span;
          i = m - log2_nat num
      in if num > 1 then
           (let (l, r) = GgmPrg enc (span ! 0);
                span = span[0 := l, num div 2 := r]
            in if \<not> GetBit point i then
                 (let out = GgmExpandAndPunc enc m (take (num div 2) span) point out
                  in insert_seed i (span ! (num div 2)) out)
               else
                 (let out = insert_seed i (span ! 0) out
                  in GgmExpandAndPunc enc m (take (num div 2) (drop (num div 2) span)) point out))
         else out)"
  by auto

termination
  by (relation "measure (\<lambda>(enc, m, span, point, out). length span)") auto

declare GgmFullExpand.simps [simp del] GgmExpandAndPunc.simps [simp del]

definition PprfPunc :: "cipher \<Rightarrow> nat \<Rightarrow> 128 word \<Rightarrow> 128 word \<Rightarrow> punc_key \<Rightarrow> punc_key" where
  "PprfPunc enc m prf_key point out =
     (let working_vec = (replicate (2 ^ m) 0)[0 := prf_key];
          out = GgmExpandAndPunc enc m working_vec point out
      in out\<lparr>punc_point := GetVal m point\<rparr>)"

text \<open>The loop of \<^verbatim>\<open>PprfPuncEval\<close>; \<open>None\<close> where \<^verbatim>\<open>at\<close> throws.\<close>

fun punc_loop :: "cipher \<Rightarrow> punc_key \<Rightarrow> 128 word \<Rightarrow> nat list \<Rightarrow> bool \<Rightarrow> bool \<Rightarrow> 128 word \<Rightarrow> 128 word option" where
  "punc_loop enc key point [] is_same retrived current_seed = Some current_seed"
| "punc_loop enc key point (i # is) is_same retrived current_seed =
     (let is_same = (is_same \<and> GetBit point i = GetBit (punc_point key) i)
      in if \<not> is_same then
           (if \<not> retrived then
              (case seeds key i of None \<Rightarrow> None | Some s \<Rightarrow> punc_loop enc key point is is_same True s)
            else punc_loop enc key point is is_same retrived (ggm_child enc (GetBit point i) current_seed))
         else punc_loop enc key point is is_same retrived current_seed)"

text \<open>The outputs are stored unreduced, as \<^verbatim>\<open>GE2n\<close> does.\<close>

definition PprfPuncEval :: "cipher \<Rightarrow> nat \<Rightarrow> punc_key \<Rightarrow> 128 word \<Rightarrow> 128 word option" where
  "PprfPuncEval enc m key point =
     (if GetVal m (punc_point key) = GetVal m point then None
      else punc_loop enc key point [0 ..< m] True False 0)"

definition PprfEval :: "cipher \<Rightarrow> nat \<Rightarrow> 128 word \<Rightarrow> 128 word \<Rightarrow> 128 word" where
  "PprfEval enc m prf_key point = fold (\<lambda>i. ggm_child enc (GetBit point i)) [0 ..< m] prf_key"

subsection \<open>The seeds of the punctured key\<close>

lemma power_Suc_gt1: "1 < (2 :: nat) ^ Suc k"
  by (rule one_less_power) simp_all

lemma log2_power [simp]: "log2_nat (2 ^ k) = k"
proof (induction k)
  case (Suc k)
  then show ?case using power_Suc_gt1 [of k] by (subst log2_nat.simps) simp
qed (subst log2_nat.simps, simp)

text \<open>The seed at depth \<open>i\<close> on the path of a point.\<close>

definition path_seed :: "cipher \<Rightarrow> 128 word \<Rightarrow> 128 word \<Rightarrow> nat \<Rightarrow> 128 word" where
  "path_seed enc key point i = fold (\<lambda>j. ggm_child enc (GetBit point j)) [0 ..< i] key"

lemma path_seed_Suc: "path_seed enc key point (Suc i) = ggm_child enc (GetBit point i) (path_seed enc key point i)"
  by (simp add: path_seed_def)

lemma expand_seeds:
  assumes "length span = 2 ^ k" and "k \<le> m" and "span ! 0 = path_seed enc key point (m - k)"
    and "\<forall>i. m - k \<le> i \<longrightarrow> seeds out i = None"
  shows "seeds (GgmExpandAndPunc enc m span point out) =
    (\<lambda>i. if m - k \<le> i \<and> i < m then Some (ggm_child enc (\<not> GetBit point i) (path_seed enc key point i)) else seeds out i)
    \<and> punc_point (GgmExpandAndPunc enc m span point out) = punc_point out"
  using assms
proof (induction k arbitrary: span out)
  case 0
  then show ?case by (subst (1 2) GgmExpandAndPunc.simps) auto
next
  case (Suc k)
  let ?i = "m - Suc k" and ?h = "2 ^ k :: nat"
  have i: "m - k = Suc ?i" "m - Suc k < m" using Suc.prems(2) by simp_all
  have num: "length span = 2 ^ Suc k" "2 ^ Suc k div 2 = ?h" "1 < (2 :: nat) ^ Suc k" "0 < ?h" "?h < 2 ^ Suc k"
    using Suc.prems(1) power_Suc_gt1 [of k] by simp_all
  define span' where "span' = span[0 := ggm_child enc False (span ! 0), ?h := ggm_child enc True (span ! 0)]"
  have s: "length span' = 2 ^ Suc k" "span' ! 0 = ggm_child enc False (span ! 0)" "span' ! ?h = ggm_child enc True (span ! 0)"
    using num by (auto simp: span'_def)
  have G: "GgmExpandAndPunc enc m span point out =
    (if \<not> GetBit point ?i then insert_seed ?i (span' ! ?h) (GgmExpandAndPunc enc m (take ?h span') point out)
     else GgmExpandAndPunc enc m (take ?h (drop ?h span')) point (insert_seed ?i (span' ! 0) out))"
    by (subst GgmExpandAndPunc.simps) (simp only: num(1) Let_def GgmPrg_def prod.case log2_power num(2,3) if_True span'_def [symmetric])
  have key: "span ! 0 = path_seed enc key point ?i" using Suc.prems(3) .
  show ?case
  proof (cases "GetBit point ?i")
    case True
    define out' where "out' = insert_seed ?i (span' ! 0) out"
    have o: "seeds out' = (seeds out)(?i \<mapsto> span' ! 0)" "punc_point out' = punc_point out"
      using Suc.prems(4) by (simp_all add: out'_def insert_seed_def)
    have "seeds (GgmExpandAndPunc enc m (take ?h (drop ?h span')) point out') =
      (\<lambda>i. if m - k \<le> i \<and> i < m then Some (ggm_child enc (\<not> GetBit point i) (path_seed enc key point i)) else seeds out' i)
      \<and> punc_point (GgmExpandAndPunc enc m (take ?h (drop ?h span')) point out') = punc_point out'"
      by (rule Suc.IH) (use Suc.prems(2,4) s num(4) i key True in \<open>auto simp: o path_seed_Suc\<close>)
    then show ?thesis unfolding G out'_def [symmetric] using True i by (auto simp: o s(2) key fun_eq_iff)
  next
    case False
    let ?g = "GgmExpandAndPunc enc m (take ?h span') point out"
    have g: "seeds ?g =
      (\<lambda>i. if m - k \<le> i \<and> i < m then Some (ggm_child enc (\<not> GetBit point i) (path_seed enc key point i)) else seeds out i)
      \<and> punc_point ?g = punc_point out"
      by (rule Suc.IH) (use Suc.prems(2,4) s num(4) i key False in \<open>auto simp: path_seed_Suc\<close>)
    then have "seeds ?g ?i = None" using i Suc.prems(4) by simp
    with g show ?thesis unfolding G using False i by (auto simp: insert_seed_def s(3) key fun_eq_iff)
  qed
qed

lemma PprfPunc_seeds:
  assumes "seeds out = Map.empty"
  shows "seeds (PprfPunc enc m key point out) = (\<lambda>i. if i < m then Some (ggm_child enc (\<not> GetBit point i) (path_seed enc key point i)) else None)"
    and "punc_point (PprfPunc enc m key point out) = GetVal m point"
proof -
  let ?v = "(replicate (2 ^ m) 0)[0 := key]"
  have "seeds (GgmExpandAndPunc enc m ?v point out) =
    (\<lambda>i. if m - m \<le> i \<and> i < m then Some (ggm_child enc (\<not> GetBit point i) (path_seed enc key point i)) else seeds out i)
    \<and> punc_point (GgmExpandAndPunc enc m ?v point out) = punc_point out"
    by (rule expand_seeds) (simp_all add: assms path_seed_def)
  then show "seeds (PprfPunc enc m key point out) =
      (\<lambda>i. if i < m then Some (ggm_child enc (\<not> GetBit point i) (path_seed enc key point i)) else None)"
    by (simp add: PprfPunc_def assms fun_eq_iff)
  show "punc_point (PprfPunc enc m key point out) = GetVal m point" by (simp add: PprfPunc_def)
qed

subsection \<open>Evaluation with the punctured key\<close>

lemma punc_loop_after:
  "punc_loop enc key x is False True s = Some (fold (\<lambda>i. ggm_child enc (GetBit x i)) is s)"
  by (induction "is" arbitrary: s) (simp_all add: Let_def)

lemma GetBit_GetVal: "m \<le> 128 \<Longrightarrow> i < m \<Longrightarrow> GetBit (GetVal m p) i = GetBit p i"
  by (simp add: GetBit_bit GetVal_take_bit bit_take_bit_iff)

lemma punc_loop_before:
  assumes "m \<le> 128" and "punc_point k = GetVal m p"
    and "\<forall>i < m. seeds k i = Some (ggm_child enc (\<not> GetBit p i) (path_seed enc key p i))"
    and "j + l = m" and "\<forall>i < j. GetBit x i = GetBit p i" and "\<exists>i < m. GetBit x i \<noteq> GetBit p i"
  shows "punc_loop enc k x [j ..< j + l] True False s = Some (PprfEval enc m key x)"
  using assms(4,5)
proof (induction l arbitrary: j)
  case 0
  then have "\<forall>i < m. GetBit x i = GetBit p i" by simp
  with assms(6) show ?case by blast
next
  case (Suc l)
  have u: "[j ..< j + Suc l] = j # [Suc j ..< Suc j + l]" by (simp add: upt_conv_Cons del: upt_Suc)
  have jm: "j < m" using Suc.prems(1) by simp
  have pj: "GetBit (punc_point k) j = GetBit p j" using GetBit_GetVal [OF assms(1) jm] by (simp add: assms(2))
  show ?case
  proof (cases "GetBit x j = GetBit p j")
    case True
    have "punc_loop enc k x [Suc j ..< Suc j + l] True False s = Some (PprfEval enc m key x)"
      by (rule Suc.IH) (use Suc.prems True in \<open>auto simp: less_Suc_eq\<close>)
    then show ?thesis unfolding u by (simp add: True pj del: upt_Suc)
  next
    case False
    have "path_seed enc key p j = path_seed enc key x j"
      unfolding path_seed_def by (rule fold_cong) (use Suc.prems(2) in auto)
    then have "ggm_child enc (\<not> GetBit p j) (path_seed enc key p j) = path_seed enc key x (Suc j)"
      using False by (cases "GetBit x j"; cases "GetBit p j") (simp_all add: path_seed_Suc)
    moreover have "[0 ..< m] = [0 ..< Suc j] @ [Suc j ..< Suc j + l]"
      using upt_add_eq_append [of 0 "Suc j" l] Suc.prems(1) by (simp del: upt_Suc)
    then have "PprfEval enc m key x = fold (\<lambda>i. ggm_child enc (GetBit x i)) [Suc j ..< Suc j + l] (path_seed enc key x (Suc j))"
      by (simp add: PprfEval_def path_seed_def del: upt_Suc)
    ultimately show ?thesis
      unfolding u using False assms(3) jm by (simp add: pj punc_loop_after Let_def del: upt_Suc)
  qed
qed

theorem pprf_punctured:
  assumes "m < 31" and "seeds out = Map.empty"
  shows "PprfPuncEval enc m (PprfPunc enc m key p out) x = (if GetVal m x = GetVal m p then None else Some (PprfEval enc m key x))"
proof -
  let ?k = "PprfPunc enc m key p out"
  have m: "m \<le> 128" using assms(1) by simp
  note P = PprfPunc_seeds [OF assms(2), of enc m key p]
  have pp: "GetVal m (punc_point ?k) = GetVal m p" unfolding P(2) by (simp add: GetVal_def and.assoc)
  show ?thesis
  proof (cases "GetVal m x = GetVal m p")
    case True
    then show ?thesis by (simp add: PprfPuncEval_def pp)
  next
    case False
    then have "\<exists>i < m. GetBit x i \<noteq> GetBit p i" using same_bits [OF m, of x p] by blast
    then have "punc_loop enc ?k x [0 ..< 0 + m] True False 0 = Some (PprfEval enc m key x)"
      by (intro punc_loop_before [OF m P(2)]) (simp_all add: P(1))
    with False show ?thesis by (auto simp: PprfPuncEval_def pp)
  qed
qed

text \<open>The array of all leaves is the function on all points.\<close>

lemma GgmFullExpand_nth:
  assumes "length span = 2 ^ k" and "y < 2 ^ k"
  shows "length (GgmFullExpand enc span) = 2 ^ k
    \<and> GgmFullExpand enc span ! y = fold (\<lambda>i. ggm_child enc (bit y (k - 1 - i))) [0 ..< k] (span ! 0)"
  using assms
proof (induction k arbitrary: span y)
  case 0
  then show ?case by (subst (1 2) GgmFullExpand.simps) simp
next
  case (Suc k)
  let ?h = "2 ^ k :: nat"
  have num: "length span = 2 ^ Suc k" "2 ^ Suc k div 2 = ?h" "1 < (2 :: nat) ^ Suc k" "0 < ?h" "?h < 2 ^ Suc k"
    using Suc.prems(1) power_Suc_gt1 [of k] by simp_all
  define span' where "span' = span[0 := ggm_child enc False (span ! 0), ?h := ggm_child enc True (span ! 0)]"
  have s: "length span' = 2 ^ Suc k" "span' ! 0 = ggm_child enc False (span ! 0)" "span' ! ?h = ggm_child enc True (span ! 0)"
    using num by (auto simp: span'_def)
  have G: "GgmFullExpand enc span = GgmFullExpand enc (take ?h span') @ GgmFullExpand enc (take ?h (drop ?h span'))"
    by (subst GgmFullExpand.simps) (simp only: num(1) Let_def GgmPrg_def prod.case num(2,3) if_True span'_def [symmetric])
  have u: "fold (\<lambda>i. ggm_child enc (bit y (Suc k - 1 - i))) [0 ..< Suc k] z
      = fold (\<lambda>i. ggm_child enc (bit y (k - 1 - i))) [0 ..< k] (ggm_child enc (bit y k) z)" for z
  proof -
    have "[0 ..< Suc k] = 0 # map Suc [0 ..< k]" by (simp add: map_Suc_upt upt_conv_Cons del: upt_Suc)
    then show ?thesis by (simp add: fold_map comp_def del: upt_Suc)
  qed
  show ?case
  proof (cases "y < ?h")
    case True
    then have "\<not> bit y k" by (simp add: bit_iff_odd)
    with True Suc.IH [of "take ?h span'" y] Suc.IH [of "take ?h (drop ?h span')" 0] s num show ?thesis
      unfolding G u by (simp add: nth_append)
  next
    case False
    define z where "z = y - ?h"
    have z: "y = ?h + z" "z < ?h" using False Suc.prems(2) by (simp_all add: z_def)
    have "y div ?h = 1" using z by (simp add: div_add_self1)
    then have b: "bit y k" by (simp add: bit_iff_odd)
    have low: "bit y j = bit z j" if "j < k" for j
    proof -
      have "bit y j = bit (take_bit k y) j" "bit z j = bit (take_bit k z) j" using that by (simp_all add: bit_take_bit_iff)
      moreover have "take_bit k y = take_bit k z" using z by (simp add: take_bit_eq_mod)
      ultimately show ?thesis by simp
    qed
    have "fold (\<lambda>i. ggm_child enc (bit y (k - 1 - i))) [0 ..< k] w = fold (\<lambda>i. ggm_child enc (bit z (k - 1 - i))) [0 ..< k] w" for w
      by (rule fold_cong) (auto simp: low)
    with z b Suc.IH [of "take ?h span'" 0] Suc.IH [of "take ?h (drop ?h span')" z] s num show ?thesis
      unfolding G u by (simp add: nth_append)
  qed
qed

end
