(* ===== verification/CrHash.thy ===== *)
theory CrHash
  imports Prg
begin

text \<open>
  \<^verbatim>\<open>theoretical_tools/rp\<close> and \<^verbatim>\<open>theoretical_tools/crhash\<close>: the random permutation over the cipher and the
  correlation-robust hashes, for one block and for arrays in batches.  The vector instructions of
  \<open>Sigma\<close> are modelled lane by lane.  The results: the batched functions in place are the pointwise
  hash for every length; the \<open>Sigma\<close> of arrays is the injective linear map of the comment; the
  \<open>Sigma\<close> of a single block is another map, which forgets half of its argument.
\<close>

subsection \<open>The random permutation\<close>

record rp =
  ctype :: BlockCipherTy
  rp_key :: "128 word"
  rp_iv :: "128 word"

definition Gen :: "cipher \<Rightarrow> rp \<Rightarrow> 128 word \<Rightarrow> 128 word" where
  "Gen enc r x = u128_of_bytes (enc (ctype r) (rp_key r) (rp_iv r) (bytes_of_u128 x))"

definition GenForMultiInputs :: "cipher \<Rightarrow> rp \<Rightarrow> 128 word list \<Rightarrow> 128 word list" where
  "GenForMultiInputs enc r xs = u128s_of_bytes (enc (ctype r) (rp_key r) (rp_iv r) (concat (map bytes_of_u128 xs)))"

definition kDefaultRpIV :: "128 word" where
  "kDefaultRpIV = 0x12345678"

definition kDefaultRpKey :: "128 word" where
  "kDefaultRpKey = 0"

definition GetCrHashDefaultRP :: rp where
  "GetCrHashDefaultRP = \<lparr>ctype = AES128_ECB, rp_key = kDefaultRpKey, rp_iv = kDefaultRpIV\<rparr>"

subsection \<open>Sigma\<close>

definition lane64 :: "nat \<Rightarrow> 128 word \<Rightarrow> 64 word" where
  "lane64 i x = ucast (drop_bit (64 * i) x)"

definition lane32 :: "nat \<Rightarrow> 128 word \<Rightarrow> 32 word" where
  "lane32 i x = ucast (drop_bit (32 * i) x)"

definition mm_shuffle_epi32 :: "128 word \<Rightarrow> nat \<Rightarrow> 128 word" where
  "mm_shuffle_epi32 x imm =
     (let l = (\<lambda>i. lane32 (imm div 4 ^ i mod 4) x)
      in word_cat (word_cat (l 3) (l 2) :: 64 word) (word_cat (l 1) (l 0) :: 64 word))"

definition mm_unpacklo_epi64 :: "128 word \<Rightarrow> 128 word \<Rightarrow> 128 word" where
  "mm_unpacklo_epi64 a b = word_cat (lane64 0 b) (lane64 0 a)"

definition mm_unpackhi_epi64 :: "128 word \<Rightarrow> 128 word \<Rightarrow> 128 word" where
  "mm_unpackhi_epi64 a b = word_cat (lane64 1 b) (lane64 1 a)"

definition Sigma_block :: "128 word \<Rightarrow> 128 word" where
  "Sigma_block x = mm_shuffle_epi32 x 0x4E XOR mm_unpackhi_epi64 x 0"

definition sigma_lane :: "128 word \<Rightarrow> 128 word" where
  "sigma_lane x = mm_shuffle_epi32 x 0x4E XOR mm_unpacklo_epi64 x 0"

text \<open>The number of blocks is kept in 32 bits; the blocks after it stay zero.\<close>

definition Sigma_span :: "128 word list \<Rightarrow> 128 word list" where
  "Sigma_span xs =
     (let num = unat (word_of_nat (length xs) :: 32 word)
      in map sigma_lane (take num xs))"

definition SigmaInplace :: "128 word list \<Rightarrow> 128 word list" where
  "SigmaInplace xs =
     (let num = unat (word_of_nat (length xs) :: 32 word)
      in map sigma_lane (take num xs) @ drop num xs)"

subsection \<open>The hashes\<close>

definition kBatchSize :: nat where
  "kBatchSize = 1024"

definition CrHash_128 :: "cipher \<Rightarrow> 128 word \<Rightarrow> 128 word" where
  "CrHash_128 enc x = Gen enc GetCrHashDefaultRP x XOR x"

definition transform_xor :: "128 word list \<Rightarrow> 128 word list \<Rightarrow> 128 word list" where
  "transform_xor = map2 (XOR)"

definition ParaCrHash_128 :: "cipher \<Rightarrow> 128 word list \<Rightarrow> 128 word list" where
  "ParaCrHash_128 enc xs = transform_xor xs (GenForMultiInputs enc GetCrHashDefaultRP xs)"

text \<open>The batches in place; \<open>offset\<close> is the number of blocks already hashed.\<close>

definition update_span :: "nat \<Rightarrow> nat \<Rightarrow> (128 word list \<Rightarrow> 128 word list) \<Rightarrow> 128 word list \<Rightarrow> 128 word list" where
  "update_span offset n f xs = take offset xs @ f (take n (drop offset xs)) @ drop (offset + n) xs"

definition cr_span :: "cipher \<Rightarrow> 128 word list \<Rightarrow> 128 word list" where
  "cr_span enc xs = transform_xor (GenForMultiInputs enc GetCrHashDefaultRP xs) xs"

function cr_batches :: "cipher \<Rightarrow> nat \<Rightarrow> nat \<Rightarrow> 128 word list \<Rightarrow> 128 word list" where
  "cr_batches enc sz offset inout =
     (if offset + kBatchSize \<le> sz
      then cr_batches enc sz (offset + kBatchSize) (update_span offset kBatchSize (cr_span enc) inout)
      else
        (let remain = sz - offset
         in if remain > 0 then update_span offset remain (cr_span enc) inout else inout))"
  by auto

termination
  by (relation "measure (\<lambda>(enc, sz, offset, inout). sz - offset)") (auto simp: kBatchSize_def)

definition ParaCrHashInplace_128 :: "cipher \<Rightarrow> 128 word list \<Rightarrow> 128 word list" where
  "ParaCrHashInplace_128 enc inout = cr_batches enc (length inout) 0 inout"

definition CcrHash_128 :: "cipher \<Rightarrow> 128 word \<Rightarrow> 128 word" where
  "CcrHash_128 enc x = CrHash_128 enc (Sigma_block x)"

definition ParaCcrHash_128 :: "cipher \<Rightarrow> 128 word list \<Rightarrow> 128 word list" where
  "ParaCcrHash_128 enc x = ParaCrHashInplace_128 enc (Sigma_span x)"

definition ccr_span :: "cipher \<Rightarrow> 128 word list \<Rightarrow> 128 word list" where
  "ccr_span enc xs = ParaCrHashInplace_128 enc (SigmaInplace xs)"

function ccr_batches :: "cipher \<Rightarrow> nat \<Rightarrow> nat \<Rightarrow> 128 word list \<Rightarrow> 128 word list" where
  "ccr_batches enc sz offset inout =
     (if offset + kBatchSize < sz
      then ccr_batches enc sz (offset + kBatchSize) (update_span offset kBatchSize (ccr_span enc) inout)
      else update_span offset (sz - offset) (ccr_span enc) inout)"
  by auto

termination
  by (relation "measure (\<lambda>(enc, sz, offset, inout). sz - offset)") (auto simp: kBatchSize_def)

definition ParaCcrHashInplace_128 :: "cipher \<Rightarrow> 128 word list \<Rightarrow> 128 word list" where
  "ParaCcrHashInplace_128 enc inout = ccr_batches enc (length inout) 0 inout"

declare cr_batches.simps [simp del] ccr_batches.simps [simp del]

subsection \<open>The two maps\<close>

lemma lane64_bit: "bit (lane64 i x) n \<longleftrightarrow> n < 64 \<and> bit x (64 * i + n)"
  by (auto simp: lane64_def bit_simps ac_simps)

lemma lane32_bit: "bit (lane32 i x) n \<longleftrightarrow> n < 32 \<and> bit x (32 * i + n)"
  by (auto simp: lane32_def bit_simps ac_simps)

lemma shuffle_exchange: "mm_shuffle_epi32 x 0x4E = word_cat (lane64 0 x) (lane64 1 x)"
proof (rule bit_word_eqI)
  fix n assume "n < LENGTH(128)"
  then consider "n < 32" | "32 \<le> n" "n < 64" | "64 \<le> n" "n < 96" | "96 \<le> n" "n < 128" by fastforce
  then show "bit (mm_shuffle_epi32 x 0x4E) n = bit (word_cat (lane64 0 x) (lane64 1 x) :: 128 word) n"
    by cases (auto simp: mm_shuffle_epi32_def Let_def bit_word_cat_iff lane32_bit lane64_bit)
qed

lemma word_cat_xor: "(word_cat a b XOR word_cat c d :: 128 word) = word_cat (a XOR c) (b XOR d)" for a b c d :: "64 word"
  by (rule bit_word_eqI) (auto simp: bit_simps bit_word_cat_iff)

lemma lane64_zero [simp]: "lane64 i 0 = 0"
  by (simp add: lane64_def)

lemma Sigma_block_eq: "Sigma_block x = word_cat (lane64 0 x) (0 :: 64 word)"
  by (simp only: Sigma_block_def shuffle_exchange mm_unpackhi_epi64_def word_cat_xor lane64_zero xor_self_eq xor.right_neutral)

lemma sigma_lane_eq: "sigma_lane x = word_cat (lane64 0 x) (lane64 1 x XOR lane64 0 x)"
  by (simp only: sigma_lane_def shuffle_exchange mm_unpacklo_epi64_def word_cat_xor lane64_zero xor.right_neutral)

lemma lane64_cat [simp]: "lane64 0 (word_cat a b) = b" "lane64 1 (word_cat a b) = a" for a b :: "64 word"
  by (rule bit_word_eqI, simp add: lane64_bit bit_word_cat_iff)+

lemma cat_lane64: "word_cat (lane64 1 x) (lane64 0 x) = x"
proof (rule bit_word_eqI)
  fix n assume "n < LENGTH(128)"
  then show "bit (word_cat (lane64 1 x) (lane64 0 x) :: 128 word) n = bit x n"
    by (cases "n < 64") (auto simp: bit_word_cat_iff lane64_bit)
qed

lemma sigma_lane_inj: "inj sigma_lane"
proof (rule injI)
  fix x y assume "sigma_lane x = sigma_lane y"
  then have e: "lane64 1 (sigma_lane x) = lane64 1 (sigma_lane y)" "lane64 0 (sigma_lane x) = lane64 0 (sigma_lane y)" by simp_all
  then have l: "lane64 0 x = lane64 0 y" by (simp only: sigma_lane_eq lane64_cat)
  with e(2) have "lane64 1 x XOR lane64 0 y = lane64 1 y XOR lane64 0 y" by (simp only: sigma_lane_eq lane64_cat)
  then have "(lane64 1 x XOR lane64 0 y) XOR lane64 0 y = (lane64 1 y XOR lane64 0 y) XOR lane64 0 y" by (rule arg_cong)
  then have "lane64 1 x = lane64 1 y" by (simp only: xor.assoc xor_self_eq xor.right_neutral)
  with l show "x = y" by (metis cat_lane64)
qed

lemma Sigma_block_collision: "Sigma_block x = Sigma_block y \<longleftrightarrow> lane64 0 x = lane64 0 y"
proof
  assume "Sigma_block x = Sigma_block y"
  then have "lane64 1 (Sigma_block x) = lane64 1 (Sigma_block y)" by simp
  then show "lane64 0 x = lane64 0 y" by (simp only: Sigma_block_eq lane64_cat)
qed (simp add: Sigma_block_eq)

subsection \<open>Batches\<close>

lemma Gen_multi:
  assumes "ecb_mode enc" and "ctype r = AES128_ECB \<or> ctype r = SM4_ECB"
  shows "GenForMultiInputs enc r xs = map (Gen enc r) xs"
proof -
  let ?e = "enc (ctype r) (rp_key r) (rp_iv r)"
  have "?e (concat (map bytes_of_u128 xs)) = concat (map (\<lambda>x. ?e (bytes_of_u128 x)) xs)"
    by (induction xs) (simp_all add: ecb_modeD(1) [OF assms] ecb_modeD(4) [OF assms u128_roundtrip(2)])
  moreover have "\<forall>b \<in> set (map (\<lambda>x. ?e (bytes_of_u128 x)) xs). length b = 16"
    using ecb_modeD(2) [OF assms u128_roundtrip(2)] by simp
  ultimately show ?thesis by (simp add: GenForMultiInputs_def Gen_def u128s_of_blocks comp_def)
qed

lemma default_ecb: "ctype GetCrHashDefaultRP = AES128_ECB \<or> ctype GetCrHashDefaultRP = SM4_ECB"
  by (simp add: GetCrHashDefaultRP_def)

lemma transform_map: "transform_xor (map f xs) xs = map (\<lambda>x. f x XOR x) xs" "transform_xor xs (map f xs) = map (\<lambda>x. x XOR f x) xs"
  by (induction xs) (simp_all add: transform_xor_def)

lemma cr_span_map: "ecb_mode enc \<Longrightarrow> cr_span enc xs = map (CrHash_128 enc) xs"
  by (simp add: cr_span_def Gen_multi default_ecb transform_map CrHash_128_def)

lemma ParaCrHash_map: "ecb_mode enc \<Longrightarrow> ParaCrHash_128 enc xs = map (CrHash_128 enc) xs"
  by (simp add: ParaCrHash_128_def Gen_multi default_ecb transform_map CrHash_128_def xor.commute)

text \<open>A span replaced by its image: what is before and what is after stays.\<close>

lemma update_span_map:
  assumes "offset + n \<le> length xs" and "\<forall>ys. length ys \<le> n \<longrightarrow> f ys = map g ys"
  shows "update_span offset n f xs = take offset xs @ map g (take n (drop offset xs)) @ drop (offset + n) xs"
    and "length (update_span offset n f xs) = length xs"
    and "take (offset + n) (update_span offset n f xs) = take offset xs @ map g (take n (drop offset xs))"
    and "drop (offset + n) (update_span offset n f xs) = drop (offset + n) xs"
proof -
  have f: "f (take n (drop offset xs)) = map g (take n (drop offset xs))" using assms(2) by simp
  show u: "update_span offset n f xs = take offset xs @ map g (take n (drop offset xs)) @ drop (offset + n) xs"
    by (simp add: update_span_def f)
  show "length (update_span offset n f xs) = length xs" using assms(1) unfolding u by simp
  show "take (offset + n) (update_span offset n f xs) = take offset xs @ map g (take n (drop offset xs))"
    "drop (offset + n) (update_span offset n f xs) = drop (offset + n) xs" using assms(1) unfolding u by simp_all
qed

lemma map_drop_split: "map g (take n (drop k xs)) @ map g (drop (k + n) xs) = map g (drop k xs)"
  by (metis append_take_drop_id drop_drop add.commute map_append)

lemma cr_batches_map:
  assumes "ecb_mode enc" and "offset \<le> length xs"
  shows "cr_batches enc (length xs) offset xs = take offset xs @ map (CrHash_128 enc) (drop offset xs)"
  using assms(2)
proof (induction "length xs - offset" arbitrary: offset xs rule: less_induct)
  case less
  have "\<forall>ys. length ys \<le> n \<longrightarrow> cr_span enc ys = map (CrHash_128 enc) ys" for n using cr_span_map [OF assms(1)] by simp
  note u = update_span_map [OF _ this]
  show ?case
  proof (cases "offset + kBatchSize \<le> length xs")
    case True
    let ?ys = "update_span offset kBatchSize (cr_span enc) xs"
    note v = u [OF True]
    have "cr_batches enc (length xs) offset xs = cr_batches enc (length ?ys) (offset + kBatchSize) ?ys"
      using True by (subst cr_batches.simps) (simp add: v(2))
    also have "\<dots> = take (offset + kBatchSize) ?ys @ map (CrHash_128 enc) (drop (offset + kBatchSize) ?ys)"
      by (rule less.hyps) (use True v(2) in \<open>simp_all add: kBatchSize_def\<close>)
    finally show ?thesis unfolding v(3,4) by (simp add: map_drop_split)
  next
    case False
    have "offset + (length xs - offset) \<le> length xs" using less.prems by simp
    with False show ?thesis by (subst cr_batches.simps) (simp add: Let_def u(1))
  qed
qed

lemma ParaCrHashInplace_map:
  assumes "ecb_mode enc"
  shows "ParaCrHashInplace_128 enc xs = map (CrHash_128 enc) xs"
  using cr_batches_map [OF assms, of 0 xs] by (simp add: ParaCrHashInplace_128_def)

lemma SigmaInplace_small: "length xs < 2 ^ 32 \<Longrightarrow> SigmaInplace xs = map sigma_lane xs \<and> Sigma_span xs = map sigma_lane xs"
  by (simp add: SigmaInplace_def Sigma_span_def unat_of_nat)

lemma ccr_span_map:
  assumes "ecb_mode enc" and "length xs \<le> kBatchSize"
  shows "ccr_span enc xs = map (CrHash_128 enc \<circ> sigma_lane) xs"
proof -
  have "length xs < 2 ^ 32" using assms(2) by (simp add: kBatchSize_def)
  then show ?thesis using SigmaInplace_small [of xs] by (simp add: ccr_span_def ParaCrHashInplace_map [OF assms(1)])
qed

lemma ccr_batches_map:
  assumes "ecb_mode enc" and "offset \<le> length xs"
  shows "ccr_batches enc (length xs) offset xs = take offset xs @ map (CrHash_128 enc \<circ> sigma_lane) (drop offset xs)"
  using assms(2)
proof (induction "length xs - offset" arbitrary: offset xs rule: less_induct)
  case less
  have c: "\<forall>ys. length ys \<le> n \<longrightarrow> ccr_span enc ys = map (CrHash_128 enc \<circ> sigma_lane) ys" if "n \<le> kBatchSize" for n
    using ccr_span_map [OF assms(1)] that by simp
  show ?case
  proof (cases "offset + kBatchSize < length xs")
    case True
    let ?ys = "update_span offset kBatchSize (ccr_span enc) xs"
    note v = update_span_map [OF less_imp_le [OF True] c [OF order_refl]]
    have "ccr_batches enc (length xs) offset xs = ccr_batches enc (length ?ys) (offset + kBatchSize) ?ys"
      using True by (subst ccr_batches.simps) (simp add: v(2))
    also have "\<dots> = take (offset + kBatchSize) ?ys @ map (CrHash_128 enc \<circ> sigma_lane) (drop (offset + kBatchSize) ?ys)"
      by (rule less.hyps) (use True v(2) in \<open>simp_all add: kBatchSize_def\<close>)
    finally show ?thesis unfolding v(3,4) append_assoc map_drop_split .
  next
    case False
    have l: "offset + (length xs - offset) \<le> length xs" "length xs - offset \<le> kBatchSize" using less.prems False by simp_all
    from update_span_map(1) [OF l(1) c [OF l(2)]] False show ?thesis by (subst ccr_batches.simps) simp
  qed
qed

lemma ParaCcrHashInplace_map:
  assumes "ecb_mode enc"
  shows "ParaCcrHashInplace_128 enc xs = map (\<lambda>x. CrHash_128 enc (sigma_lane x)) xs"
  using ccr_batches_map [OF assms, of 0 xs] by (simp add: ParaCcrHashInplace_128_def comp_def)

lemma ParaCcrHash_map:
  assumes "ecb_mode enc" and "length xs < 2 ^ 32"
  shows "ParaCcrHash_128 enc xs = map (\<lambda>x. CrHash_128 enc (sigma_lane x)) xs"
  using SigmaInplace_small [OF assms(2)] by (simp add: ParaCcrHash_128_def ParaCrHashInplace_map [OF assms(1)])

text \<open>The hash of a single block is not the hash of the arrays, and it collides.\<close>

lemma CcrHash_collides: "lane64 0 x = lane64 0 y \<Longrightarrow> CcrHash_128 enc x = CcrHash_128 enc y"
  by (simp add: CcrHash_128_def Sigma_block_eq)

end
