(* ===== verification/OtStore.thy ===== *)
theory OtStore
  imports Prelude
begin

text \<open>
  \<^verbatim>\<open>ot/slice_base\<close> and \<^verbatim>\<open>ot/ot_store\<close>: the stores of the two parties of an oblivious transfer.  A store
  is a window of a buffer that it shares with the stores it was sliced from, so the buffers live in
  a heap: a store holds addresses, and slicing copies addresses.  The counters are 64-bit words with
  the wrap-around of the source.  A failed \<^verbatim>\<open>YACL_ENFORCE\<close> is the error \<open>Enforce\<close>; a null pointer that is
  followed and an index outside of a buffer are the error \<open>Undef\<close>.

  The results: windows made by \<open>Slice\<close> lie inside of the buffer, a write through one store is seen
  through every store that covers the position and by no other, consecutive slices are disjoint,
  the correlation of a sender store and a receiver store is kept by slicing, and \<open>Reset\<close> never
  returns.
\<close>

unbundle bit_operations_syntax

datatype ot_error = Enforce | Undef

type_synonym 'a ot_result = "ot_error + 'a"

definition enforce :: "bool \<Rightarrow> 'a ot_result \<Rightarrow> 'a ot_result" where
  "enforce b r = (if b then r else Inl Enforce)"

definition followed :: "'b ot_result \<Rightarrow> ('b \<Rightarrow> 'a ot_result) \<Rightarrow> 'a ot_result" where
  "followed r f = (case r of Inl e \<Rightarrow> Inl e | Inr x \<Rightarrow> f x)"

lemma enforce_Inr [simp]: "enforce b r = Inr x \<longleftrightarrow> b \<and> r = Inr x"
  by (simp add: enforce_def)

lemma followed_Inr [simp]: "followed r f = Inr x \<longleftrightarrow> (\<exists>y. r = Inr y \<and> f y = Inr x)"
  by (cases r) (simp_all add: followed_def)

lemma followed_simps [simp]: "followed (Inr x) f = f x" "followed (Inl e) f = Inl e" "enforce True r = r" "enforce False r = Inl Enforce"
  by (simp_all add: followed_def enforce_def)

subsection \<open>Windows\<close>

record slice_base =
  internal_use_ctr :: "64 word"
  internal_use_size :: "64 word"
  internal_buf_ctr :: "64 word"
  internal_buf_size :: "64 word"

definition base_ConsistencyCheck :: "'a slice_base_scheme \<Rightarrow> unit ot_result" where
  "base_ConsistencyCheck s =
     enforce (internal_use_size s > 0) (
     enforce (internal_buf_size s > 0) (
     enforce (internal_buf_size s \<ge> internal_use_size s) (
     enforce (internal_buf_size s \<ge> internal_buf_ctr s) (Inr ()))))"

definition GetBufIdx :: "'a slice_base_scheme \<Rightarrow> 64 word \<Rightarrow> 64 word ot_result" where
  "GetBufIdx s slice_idx = enforce (internal_use_size s > slice_idx) (Inr (internal_use_ctr s + slice_idx))"

definition IncreaseBufCtr :: "64 word \<Rightarrow> 'a slice_base_scheme \<Rightarrow> 'a slice_base_scheme ot_result" where
  "IncreaseBufCtr sz s =
     enforce (internal_buf_size s - internal_buf_ctr s \<ge> sz) (Inr (s\<lparr>internal_buf_ctr := internal_buf_ctr s + sz\<rparr>))"

definition IsSliced :: "'a slice_base_scheme \<Rightarrow> bool" where
  "IsSliced s \<longleftrightarrow> internal_buf_ctr s \<noteq> 0"

definition ResetSlice :: "'a slice_base_scheme \<Rightarrow> 'a slice_base_scheme" where
  "ResetSlice s = s\<lparr>internal_use_ctr := 0, internal_use_size := internal_buf_size s, internal_buf_ctr := 0\<rparr>"

definition zero_ctrs :: "'a slice_base_scheme \<Rightarrow> 'a slice_base_scheme" where
  "zero_ctrs s = s\<lparr>internal_use_ctr := 0, internal_use_size := 0, internal_buf_ctr := 0, internal_buf_size := 0\<rparr>"

subsection \<open>Buffers\<close>

record ot_heap =
  blk_bufs :: "nat \<rightharpoonup> 128 word list"
  bit_bufs :: "nat \<rightharpoonup> bool list"
  lim :: nat

definition deref :: "(nat \<rightharpoonup> 'a list) \<Rightarrow> nat option \<Rightarrow> 'a list ot_result" where
  "deref bufs p = (case p of None \<Rightarrow> Inl Undef | Some a \<Rightarrow> (case bufs a of None \<Rightarrow> Inl Undef | Some xs \<Rightarrow> Inr xs))"

definition load :: "'a list \<Rightarrow> 64 word \<Rightarrow> 'a ot_result" where
  "load xs i = (if unat i < length xs then Inr (xs ! unat i) else Inl Undef)"

definition store :: "(nat \<rightharpoonup> 'a list) \<Rightarrow> nat option \<Rightarrow> 64 word \<Rightarrow> 'a \<Rightarrow> (nat \<rightharpoonup> 'a list) ot_result" where
  "store bufs p i v =
     followed (deref bufs p) (\<lambda>xs. if unat i < length xs then Inr (bufs(the p \<mapsto> xs[unat i := v])) else Inl Undef)"

datatype OtStoreType = Normal | Compact

subsection \<open>The receiver's store\<close>

record OtRecvStore = slice_base +
  recv_type :: OtStoreType
  bit_buf :: "nat option"
  recv_blk_buf :: "nat option"

definition recv_ConsistencyCheck :: "ot_heap \<Rightarrow> OtRecvStore \<Rightarrow> unit ot_result" where
  "recv_ConsistencyCheck h s =
     followed (base_ConsistencyCheck s) (\<lambda>_.
     followed (deref (blk_bufs h) (recv_blk_buf s)) (\<lambda>blk.
     enforce (length blk \<ge> unat (internal_buf_size s)) (
     if recv_type s = Normal
     then followed (deref (bit_bufs h) (bit_buf s)) (\<lambda>bits. enforce (length bits = length blk) (Inr ()))
     else Inr ())))"

text \<open>
  The full constructor.  \<^verbatim>\<open>InitCtrs\<close> already calls the virtual \<^verbatim>\<open>ConsistencyCheck\<close>; the constructor
  calls it once more.
\<close>

definition recv_full :: "nat option \<Rightarrow> nat option \<Rightarrow> 64 word \<Rightarrow> 64 word \<Rightarrow> 64 word \<Rightarrow> 64 word \<Rightarrow> OtStoreType \<Rightarrow> ot_heap \<Rightarrow> OtRecvStore ot_result" where
  "recv_full bit_ptr blk_ptr use_ctr use_size buf_ctr buf_size type h =
     (let s = \<lparr>internal_use_ctr = use_ctr, internal_use_size = use_size, internal_buf_ctr = buf_ctr,
               internal_buf_size = buf_size, recv_type = type, bit_buf = bit_ptr, recv_blk_buf = blk_ptr\<rparr>
      in followed (recv_ConsistencyCheck h s) (\<lambda>_. followed (recv_ConsistencyCheck h s) (\<lambda>_. Inr s)))"

definition new_recv :: "64 word \<Rightarrow> OtStoreType \<Rightarrow> ot_heap \<Rightarrow> (OtRecvStore \<times> ot_heap) ot_result" where
  "new_recv num type h =
     (let a = lim h;
          bits = (if type = Normal then Some a else None);
          h = (if type = Normal then h\<lparr>bit_bufs := (bit_bufs h)(a \<mapsto> replicate (unat num) False)\<rparr> else h);
          h = h\<lparr>blk_bufs := (blk_bufs h)(a \<mapsto> replicate (unat num) 0), lim := Suc a\<rparr>
      in followed (recv_full bits (Some a) 0 num 0 num type h) (\<lambda>s. Inr (s, h)))"

definition recv_Slice :: "64 word \<Rightarrow> 64 word \<Rightarrow> ot_heap \<Rightarrow> OtRecvStore \<Rightarrow> OtRecvStore ot_result" where
  "recv_Slice first past h s = recv_full (bit_buf s) (recv_blk_buf s) first (past - first) first past (recv_type s) h"

definition recv_NextSlice :: "64 word \<Rightarrow> ot_heap \<Rightarrow> OtRecvStore \<Rightarrow> (OtRecvStore \<times> OtRecvStore) ot_result" where
  "recv_NextSlice num h s =
     followed (recv_Slice (internal_buf_ctr s) (internal_buf_ctr s + num) h s) (\<lambda>out.
     followed (IncreaseBufCtr num s) (\<lambda>s. Inr (out, s)))"

text \<open>\<^verbatim>\<open>SliceBase::Reset\<close> calls the virtual check on the zeroed counters, before the buffers are released.\<close>

definition recv_Reset :: "ot_heap \<Rightarrow> OtRecvStore \<Rightarrow> unit ot_result \<times> OtRecvStore" where
  "recv_Reset h s =
     (let s = zero_ctrs s
      in case recv_ConsistencyCheck h s of
           Inl e \<Rightarrow> (Inl e, s)
         | Inr _ \<Rightarrow>
             (let s = s\<lparr>bit_buf := None, recv_blk_buf := None, recv_type := Compact\<rparr>
              in (recv_ConsistencyCheck h s, s)))"

definition recv_GetBlock :: "ot_heap \<Rightarrow> OtRecvStore \<Rightarrow> 64 word \<Rightarrow> 128 word ot_result" where
  "recv_GetBlock h s idx =
     enforce (idx < internal_use_size s) (
     followed (GetBufIdx s idx) (\<lambda>i. followed (deref (blk_bufs h) (recv_blk_buf s)) (\<lambda>blk. load blk i)))"

definition recv_SetBlock :: "OtRecvStore \<Rightarrow> 64 word \<Rightarrow> 128 word \<Rightarrow> ot_heap \<Rightarrow> ot_heap ot_result" where
  "recv_SetBlock s idx val h =
     followed (GetBufIdx s idx) (\<lambda>i.
     followed (store (blk_bufs h) (recv_blk_buf s) i val) (\<lambda>b. Inr (h\<lparr>blk_bufs := b\<rparr>)))"

definition recv_GetBlkBufSpan :: "ot_heap \<Rightarrow> OtRecvStore \<Rightarrow> 128 word list ot_result" where
  "recv_GetBlkBufSpan h s =
     enforce (\<not> IsSliced s) (
     followed (deref (blk_bufs h) (recv_blk_buf s)) (\<lambda>blk. Inr (take (unat (internal_buf_size s)) blk)))"

text \<open>The number of owners of the buffer is an argument; the heap keeps no counts.\<close>

definition recv_StealBlkBuf :: "nat \<Rightarrow> ot_heap \<Rightarrow> OtRecvStore \<Rightarrow> nat option ot_result \<times> OtRecvStore" where
  "recv_StealBlkBuf use_count h s =
     (if use_count = 1
      then (let ret = recv_blk_buf s
            in case recv_Reset h (s\<lparr>recv_blk_buf := None\<rparr>) of
                 (Inl e, s) \<Rightarrow> (Inl e, s)
               | (Inr _, s) \<Rightarrow> (Inr ret, s))
      else (Inl Enforce, s))"

definition recv_CopyBlkBuf :: "ot_heap \<Rightarrow> OtRecvStore \<Rightarrow> 128 word list ot_result" where
  "recv_CopyBlkBuf h s =
     followed (deref (blk_bufs h) (recv_blk_buf s)) (\<lambda>blk.
     if unat (internal_use_ctr s) + unat (internal_use_size s) \<le> length blk
     then Inr (take (unat (internal_use_size s)) (drop (unat (internal_use_ctr s)) blk)) else Inl Undef)"

definition recv_GetChoice :: "ot_heap \<Rightarrow> OtRecvStore \<Rightarrow> 64 word \<Rightarrow> bool ot_result" where
  "recv_GetChoice h s idx =
     enforce (idx < internal_use_size s) (
     if recv_type s = Compact
     then followed (GetBufIdx s idx) (\<lambda>i. followed (deref (blk_bufs h) (recv_blk_buf s)) (\<lambda>blk.
            followed (load blk i) (\<lambda>x. Inr (x AND 1 = 1))))
     else followed (GetBufIdx s idx) (\<lambda>i. followed (deref (bit_bufs h) (bit_buf s)) (\<lambda>bits. load bits i)))"

definition recv_SetChoice :: "OtRecvStore \<Rightarrow> 64 word \<Rightarrow> bool \<Rightarrow> ot_heap \<Rightarrow> ot_heap ot_result" where
  "recv_SetChoice s idx val h =
     enforce (recv_type s = Normal) (
     followed (GetBufIdx s idx) (\<lambda>i.
     followed (store (bit_bufs h) (bit_buf s) i val) (\<lambda>b. Inr (h\<lparr>bit_bufs := b\<rparr>))))"

definition recv_FlipChoice :: "OtRecvStore \<Rightarrow> 64 word \<Rightarrow> ot_heap \<Rightarrow> ot_heap ot_result" where
  "recv_FlipChoice s idx h =
     enforce (recv_type s = Normal) (
     followed (GetBufIdx s idx) (\<lambda>i.
     followed (deref (bit_bufs h) (bit_buf s)) (\<lambda>bits.
     followed (load bits i) (\<lambda>b.
     followed (store (bit_bufs h) (bit_buf s) i (\<not> b)) (\<lambda>b. Inr (h\<lparr>bit_bufs := b\<rparr>))))))"

definition recv_SetBitBuf :: "bool list \<Rightarrow> ot_heap \<Rightarrow> OtRecvStore \<Rightarrow> OtRecvStore \<times> ot_heap" where
  "recv_SetBitBuf bits h s =
     (s\<lparr>bit_buf := Some (lim h)\<rparr>, h\<lparr>bit_bufs := (bit_bufs h)(lim h \<mapsto> bits), lim := Suc (lim h)\<rparr>)"

text \<open>Results of a loop, in order; the first error ends it.\<close>

fun collect :: "('b \<Rightarrow> 'a ot_result) \<Rightarrow> 'b list \<Rightarrow> 'a list ot_result" where
  "collect f [] = Inr []"
| "collect f (x # xs) = followed (f x) (\<lambda>y. followed (collect f xs) (\<lambda>ys. Inr (y # ys)))"

text \<open>\<^verbatim>\<open>>>=\<close> of the bit set fills with zeros, and so does \<^verbatim>\<open>resize\<close>.\<close>

definition recv_CopyBitBuf :: "ot_heap \<Rightarrow> OtRecvStore \<Rightarrow> bool list ot_result" where
  "recv_CopyBitBuf h s =
     (if recv_type s = Compact
      then collect (\<lambda>i. followed (recv_GetBlock h s (of_nat i)) (\<lambda>x. Inr (x AND 1 = 1))) [0 ..< unat (internal_use_size s)]
      else followed (deref (bit_bufs h) (bit_buf s)) (\<lambda>bits.
        let out = drop (unat (internal_use_ctr s)) bits;
            n = unat (internal_use_size s)
        in Inr (take n out @ replicate (n - length out) False)))"

subsection \<open>The sender's store\<close>

record OtSendStore = slice_base +
  send_type :: OtStoreType
  send_delta :: "128 word"
  send_blk_buf :: "nat option"

definition send_ConsistencyCheck :: "ot_heap \<Rightarrow> OtSendStore \<Rightarrow> unit ot_result" where
  "send_ConsistencyCheck h s =
     followed (base_ConsistencyCheck s) (\<lambda>_.
     followed (deref (blk_bufs h) (send_blk_buf s)) (\<lambda>blk.
     enforce (length blk \<ge> unat (internal_buf_size s)) (Inr ())))"

definition send_full :: "nat option \<Rightarrow> 128 word \<Rightarrow> 64 word \<Rightarrow> 64 word \<Rightarrow> 64 word \<Rightarrow> 64 word \<Rightarrow> OtStoreType \<Rightarrow> ot_heap \<Rightarrow> OtSendStore ot_result" where
  "send_full blk_ptr delta use_ctr use_size buf_ctr buf_size type h =
     (let s = \<lparr>internal_use_ctr = use_ctr, internal_use_size = use_size, internal_buf_ctr = buf_ctr,
               internal_buf_size = buf_size, send_type = type, send_delta = delta, send_blk_buf = blk_ptr\<rparr>
      in followed (send_ConsistencyCheck h s) (\<lambda>_. followed (send_ConsistencyCheck h s) (\<lambda>_. Inr s)))"

definition new_send :: "64 word \<Rightarrow> OtStoreType \<Rightarrow> ot_heap \<Rightarrow> (OtSendStore \<times> ot_heap) ot_result" where
  "new_send num type h =
     (let a = lim h;
          buf_size = (if type = Normal then num * 2 else num);
          h = h\<lparr>blk_bufs := (blk_bufs h)(a \<mapsto> replicate (unat buf_size) 0), lim := Suc a\<rparr>
      in followed (send_full (Some a) 0 0 buf_size 0 buf_size type h) (\<lambda>s. Inr (s, h)))"

definition ot_blk_num :: "OtSendStore \<Rightarrow> 64 word" where
  "ot_blk_num s = (if send_type s = Compact then 1 else 2)"

definition send_Slice :: "64 word \<Rightarrow> 64 word \<Rightarrow> ot_heap \<Rightarrow> OtSendStore \<Rightarrow> OtSendStore ot_result" where
  "send_Slice first past h s =
     send_full (send_blk_buf s) (send_delta s) (first * ot_blk_num s) ((past - first) * ot_blk_num s)
       (first * ot_blk_num s) (past * ot_blk_num s) (send_type s) h"

definition send_NextSlice :: "64 word \<Rightarrow> ot_heap \<Rightarrow> OtSendStore \<Rightarrow> (OtSendStore \<times> OtSendStore) ot_result" where
  "send_NextSlice num h s =
     followed (send_Slice (internal_buf_ctr s div ot_blk_num s) (internal_buf_ctr s div ot_blk_num s + num) h s) (\<lambda>out.
     followed (IncreaseBufCtr (num * ot_blk_num s) s) (\<lambda>s. Inr (out, s)))"

definition send_Reset :: "ot_heap \<Rightarrow> OtSendStore \<Rightarrow> unit ot_result \<times> OtSendStore" where
  "send_Reset h s =
     (let s = zero_ctrs s
      in case send_ConsistencyCheck h s of
           Inl e \<Rightarrow> (Inl e, s)
         | Inr _ \<Rightarrow>
             (let s = s\<lparr>send_blk_buf := None, send_type := Compact\<rparr>
              in (send_ConsistencyCheck h s, s)))"

definition send_Size :: "OtSendStore \<Rightarrow> 64 word" where
  "send_Size s = (if send_type s = Compact then internal_use_size s else internal_use_size s div 2)"

definition GetDelta :: "OtSendStore \<Rightarrow> 128 word ot_result" where
  "GetDelta s = enforce (send_delta s \<noteq> 0) (Inr (send_delta s))"

definition SetDelta :: "128 word \<Rightarrow> OtSendStore \<Rightarrow> OtSendStore ot_result" where
  "SetDelta delta s = enforce (delta \<noteq> 0) (Inr (s\<lparr>send_delta := delta\<rparr>))"

definition send_GetBlock :: "ot_heap \<Rightarrow> OtSendStore \<Rightarrow> 64 word \<Rightarrow> 64 word \<Rightarrow> 128 word ot_result" where
  "send_GetBlock h s ot_idx msg_idx =
     enforce (msg_idx = 0 \<or> msg_idx = 1) (
     if send_delta s = 0
     then followed (GetBufIdx s (2 * ot_idx)) (\<lambda>i. followed (deref (blk_bufs h) (send_blk_buf s)) (\<lambda>blk. load blk (i + msg_idx)))
     else followed (GetBufIdx s (ot_blk_num s * ot_idx)) (\<lambda>i. followed (deref (blk_bufs h) (send_blk_buf s)) (\<lambda>blk.
            followed (load blk i) (\<lambda>x. Inr (x XOR (send_delta s * ucast msg_idx))))))"

definition SetNormalBlock :: "OtSendStore \<Rightarrow> 64 word \<Rightarrow> 64 word \<Rightarrow> 128 word \<Rightarrow> ot_heap \<Rightarrow> ot_heap ot_result" where
  "SetNormalBlock s ot_idx msg_idx val h =
     enforce (send_type s = Normal) (
     enforce (msg_idx = 0 \<or> msg_idx = 1) (
     followed (GetBufIdx s (ot_idx * 2 + msg_idx)) (\<lambda>i.
     followed (store (blk_bufs h) (send_blk_buf s) i val) (\<lambda>b. Inr (h\<lparr>blk_bufs := b\<rparr>)))))"

definition SetCompactBlock :: "OtSendStore \<Rightarrow> 64 word \<Rightarrow> 128 word \<Rightarrow> ot_heap \<Rightarrow> ot_heap ot_result" where
  "SetCompactBlock s ot_idx val h =
     enforce (send_type s = Compact) (
     followed (GetBufIdx s ot_idx) (\<lambda>i.
     followed (store (blk_bufs h) (send_blk_buf s) i val) (\<lambda>b. Inr (h\<lparr>blk_bufs := b\<rparr>))))"

definition send_GetBlkBufSpan :: "ot_heap \<Rightarrow> OtSendStore \<Rightarrow> 128 word list ot_result" where
  "send_GetBlkBufSpan h s =
     enforce (\<not> IsSliced s) (
     followed (deref (blk_bufs h) (send_blk_buf s)) (\<lambda>blk. Inr (take (unat (internal_buf_size s)) blk)))"

definition send_StealBlkBuf :: "nat \<Rightarrow> ot_heap \<Rightarrow> OtSendStore \<Rightarrow> nat option ot_result \<times> OtSendStore" where
  "send_StealBlkBuf use_count h s =
     (if use_count = 1
      then (let ret = send_blk_buf s
            in case send_Reset h (s\<lparr>send_blk_buf := None\<rparr>) of
                 (Inl e, s) \<Rightarrow> (Inl e, s)
               | (Inr _, s) \<Rightarrow> (Inr ret, s))
      else (Inl Enforce, s))"

definition CopyCotBlkBuf :: "ot_heap \<Rightarrow> OtSendStore \<Rightarrow> 128 word list ot_result" where
  "CopyCotBlkBuf h s =
     enforce (send_type s = Compact) (
     followed (deref (blk_bufs h) (send_blk_buf s)) (\<lambda>blk.
     if unat (internal_buf_ctr s) + unat (internal_use_size s) \<le> length blk
     then Inr (take (unat (internal_use_size s)) (drop (unat (internal_buf_ctr s)) blk)) else Inl Undef))"

subsection \<open>Reset\<close>

lemma recv_Reset_throws: "recv_Reset h s = (Inl Enforce, zero_ctrs s)"
  by (simp add: recv_Reset_def recv_ConsistencyCheck_def base_ConsistencyCheck_def zero_ctrs_def)

lemma send_Reset_throws: "send_Reset h s = (Inl Enforce, zero_ctrs s)"
  by (simp add: send_Reset_def send_ConsistencyCheck_def base_ConsistencyCheck_def zero_ctrs_def)

lemma Steal_throws:
  "recv_StealBlkBuf n h s = (Inl Enforce, if n = 1 then zero_ctrs (s\<lparr>recv_blk_buf := None\<rparr>) else s)"
  "send_StealBlkBuf n h t = (Inl Enforce, if n = 1 then zero_ctrs (t\<lparr>send_blk_buf := None\<rparr>) else t)"
  by (simp_all add: recv_StealBlkBuf_def send_StealBlkBuf_def recv_Reset_throws send_Reset_throws)

subsection \<open>The contract of a window\<close>

text \<open>
  Reading and writing through windows of shared buffers.  \<open>cell\<close> is the place that an index of a
  window denotes; two windows may denote the same place.
\<close>

locale window =
  fixes size_of :: "'s \<Rightarrow> nat" and cell :: "'s \<Rightarrow> nat \<Rightarrow> 'c" and ok :: "'h \<Rightarrow> 's \<Rightarrow> bool"
    and rd :: "'h \<Rightarrow> 's \<Rightarrow> 64 word \<Rightarrow> 'v ot_result" and wr :: "'s \<Rightarrow> 64 word \<Rightarrow> 'v \<Rightarrow> 'h \<Rightarrow> 'h ot_result"
  assumes size_bound: "ok h s \<Longrightarrow> size_of s < 2 ^ 64"
    and cell_inj: "m < size_of s \<Longrightarrow> n < size_of s \<Longrightarrow> cell s m = cell s n \<Longrightarrow> m = n"
    and wr_ok: "ok h s \<Longrightarrow> unat i < size_of s \<Longrightarrow> \<exists>h'. wr s i v h = Inr h'"
    and wr_keeps: "ok h s \<Longrightarrow> ok h t \<Longrightarrow> wr s i v h = Inr h' \<Longrightarrow> ok h' t"
    and rd_wr: "ok h s \<Longrightarrow> ok h t \<Longrightarrow> unat j < size_of t \<Longrightarrow> wr s i v h = Inr h' \<Longrightarrow>
      rd h' t j = (if cell t (unat j) = cell s (unat i) then Inr v else rd h t j)"

fun write_all :: "('s \<Rightarrow> 64 word \<Rightarrow> 'v \<Rightarrow> 'h \<Rightarrow> 'h ot_result) \<Rightarrow> 's \<Rightarrow> nat \<Rightarrow> 'v list \<Rightarrow> 'h \<Rightarrow> 'h ot_result" where
  "write_all wr s i [] h = Inr h"
| "write_all wr s i (v # vs) h = followed (wr s (of_nat i) v h) (\<lambda>h. write_all wr s (Suc i) vs h)"

context window
begin

lemma write_all_frame:
  assumes "ok h s" and "ok h t" and "i + length vs \<le> size_of s"
  shows "\<exists>h'. write_all wr s i vs h = Inr h' \<and> ok h' s \<and> ok h' t
    \<and> (\<forall>j. unat j < size_of t \<longrightarrow> (\<forall>k < length vs. cell t (unat j) \<noteq> cell s (i + k)) \<longrightarrow> rd h' t j = rd h t j)"
  using assms
proof (induction vs arbitrary: i h)
  case (Cons v vs)
  have "i < 2 ^ 64" using Cons.prems(3) size_bound [OF Cons.prems(1)] by simp
  then have i: "unat (of_nat i :: 64 word) = i" by (simp add: unat_of_nat)
  then obtain h1 where h1: "wr s (of_nat i) v h = Inr h1"
    using wr_ok [OF Cons.prems(1), of "of_nat i" v] Cons.prems(3) by auto
  have ok1: "ok h1 s" "ok h1 t" using wr_keeps [OF Cons.prems(1) _ h1] Cons.prems(1,2) by blast+
  obtain h2 where h2: "write_all wr s (Suc i) vs h1 = Inr h2" "ok h2 s" "ok h2 t"
    "\<forall>j. unat j < size_of t \<longrightarrow> (\<forall>k < length vs. cell t (unat j) \<noteq> cell s (Suc i + k)) \<longrightarrow> rd h2 t j = rd h1 t j"
    using Cons.IH [OF ok1, of "Suc i"] Cons.prems(3) by auto
  have "rd h2 t j = rd h t j" if j: "unat j < size_of t" and d: "\<forall>k < length (v # vs). cell t (unat j) \<noteq> cell s (i + k)" for j
  proof -
    have "cell t (unat j) \<noteq> cell s (Suc i + k)" if "k < length vs" for k using d [rule_format, of "Suc k"] that by simp
    moreover have "cell t (unat j) \<noteq> cell s i" using d [rule_format, of 0] by simp
    ultimately show ?thesis using h2(4) j rd_wr [OF Cons.prems(1,2) j h1] i by simp
  qed
  then show ?case using h1 h2(1,2,3) by simp
qed simp

lemma write_all_read:
  assumes "ok h s" and "i + length vs \<le> size_of s"
  shows "\<exists>h'. write_all wr s i vs h = Inr h' \<and> ok h' s \<and> (\<forall>k < length vs. rd h' s (of_nat (i + k)) = Inr (vs ! k))"
  using assms
proof (induction vs arbitrary: i h)
  case (Cons v vs)
  have "i < 2 ^ 64" using Cons.prems(2) size_bound [OF Cons.prems(1)] by simp
  then have i: "unat (of_nat i :: 64 word) = i" by (simp add: unat_of_nat)
  have il: "i < size_of s" using Cons.prems(2) by simp
  obtain h1 where h1: "wr s (of_nat i) v h = Inr h1"
    using wr_ok [OF Cons.prems(1), of "of_nat i" v] il i by auto
  have ok1: "ok h1 s" using wr_keeps [OF Cons.prems(1,1) h1] .
  obtain h2 where h2: "write_all wr s (Suc i) vs h1 = Inr h2" "ok h2 s"
    "\<forall>k < length vs. rd h2 s (of_nat (Suc i + k)) = Inr (vs ! k)"
    using Cons.IH [OF ok1, of "Suc i"] Cons.prems(2) by auto
  have "\<forall>k < length vs. cell s i \<noteq> cell s (Suc i + k)"
  proof (intro allI impI notI)
    fix k assume "k < length vs" and "cell s i = cell s (Suc i + k)"
    then show False using cell_inj [OF il, of "Suc i + k"] Cons.prems(2) by simp
  qed
  then have "rd h2 s (of_nat i) = rd h1 s (of_nat i)"
    using write_all_frame [OF ok1 ok1, of "Suc i" vs] Cons.prems(2) h2(1) i il by auto
  also have "\<dots> = Inr v" using rd_wr [OF Cons.prems(1,1) _ h1, of "of_nat i"] i il by simp
  finally have hd: "rd h2 s (of_nat i) = Inr v" .
  have "rd h2 s (of_nat (i + k)) = Inr ((v # vs) ! k)" if "k < length (v # vs)" for k
    using hd h2(3) that by (cases k) (simp_all del: of_nat_add of_nat_Suc)
  then show ?case using h1 h2(1,2) by auto
qed simp

end

subsection \<open>Windows inside of their buffers\<close>

text \<open>The window lies in the buffer, and the buffer has fewer than \<open>2 ^ 64\<close> elements.\<close>

definition inside :: "'a slice_base_scheme \<Rightarrow> 'b list \<Rightarrow> bool" where
  "inside s xs \<longleftrightarrow> unat (internal_use_ctr s) + unat (internal_use_size s) \<le> length xs \<and> length xs < 2 ^ 64"

definition recv_ok :: "ot_heap \<Rightarrow> OtRecvStore \<Rightarrow> bool" where
  "recv_ok h s \<longleftrightarrow> (\<exists>blk. deref (blk_bufs h) (recv_blk_buf s) = Inr blk \<and> inside s blk
     \<and> (recv_type s = Normal \<longrightarrow> (\<exists>bits. deref (bit_bufs h) (bit_buf s) = Inr bits \<and> length bits = length blk)))"

definition send_ok :: "ot_heap \<Rightarrow> OtSendStore \<Rightarrow> bool" where
  "send_ok h s \<longleftrightarrow> (\<exists>blk. deref (blk_bufs h) (send_blk_buf s) = Inr blk \<and> inside s blk)"

definition position :: "'a slice_base_scheme \<Rightarrow> nat \<Rightarrow> nat" where
  "position s i = unat (internal_use_ctr s) + i"

lemma GetBufIdx_inside:
  assumes "inside s xs" and "i < internal_use_size s"
  shows "\<exists>a. GetBufIdx s i = Inr a \<and> unat a = position s (unat i) \<and> position s (unat i) < length xs"
proof -
  have l: "unat i < unat (internal_use_size s)" using assms(2) by (simp add: word_less_nat_alt)
  then have "unat (internal_use_ctr s) + unat i < 2 ^ 64" using assms(1) by (simp add: inside_def)
  then have "unat (internal_use_ctr s + i) = unat (internal_use_ctr s) + unat i" by (simp add: unat_word_ariths)
  with l assms show ?thesis by (simp add: GetBufIdx_def position_def inside_def)
qed

lemma load_inside: "unat a < length xs \<Longrightarrow> load xs a = Inr (xs ! unat a)"
  by (simp add: load_def)

text \<open>Storing in a buffer: every pointer to the same buffer sees it.\<close>

lemma store_Inr:
  assumes "store bufs p a v = Inr bufs'"
  shows "\<exists>xs. deref bufs p = Inr xs \<and> unat a < length xs
    \<and> (\<forall>q ys. deref bufs q = Inr ys \<longrightarrow> deref bufs' q = Inr (if q = p then ys[unat a := v] else ys))"
proof -
  obtain xs where xs: "deref bufs p = Inr xs" "unat a < length xs" "bufs' = bufs(the p \<mapsto> xs[unat a := v])"
    using assms by (auto simp: store_def split: if_splits)
  moreover have "deref bufs' q = Inr (if q = p then ys[unat a := v] else ys)" if "deref bufs q = Inr ys" for q ys
    using that xs by (auto simp: deref_def split: option.splits)
  ultimately show ?thesis by blast
qed

lemma store_inside:
  assumes "deref bufs p = Inr xs" and "unat a < length xs"
  shows "\<exists>bufs'. store bufs p a v = Inr bufs'"
  using assms by (simp add: store_def)

text \<open>The three kinds of cells: blocks of a receiver, choices of a receiver, blocks of a sender.\<close>

definition rsize :: "'a slice_base_scheme \<Rightarrow> nat" where
  "rsize s = unat (internal_use_size s)"

definition choices_ok :: "ot_heap \<Rightarrow> OtRecvStore \<Rightarrow> bool" where
  "choices_ok h s \<longleftrightarrow> recv_ok h s \<and> recv_type s = Normal"

definition compact_ok :: "ot_heap \<Rightarrow> OtSendStore \<Rightarrow> bool" where
  "compact_ok h s \<longleftrightarrow> send_ok h s \<and> send_type s = Compact"

definition raw_block :: "ot_heap \<Rightarrow> OtSendStore \<Rightarrow> 64 word \<Rightarrow> 128 word ot_result" where
  "raw_block h s i = followed (GetBufIdx s i) (\<lambda>i. followed (deref (blk_bufs h) (send_blk_buf s)) (\<lambda>blk. load blk i))"

lemma rsize_less: "i < internal_use_size s \<longleftrightarrow> unat i < rsize s"
  by (simp add: rsize_def word_less_nat_alt)

lemma window_read:
  assumes "deref bufs p = Inr xs" and "inside s xs" and "unat j < rsize s"
  shows "followed (GetBufIdx s j) (\<lambda>i. followed (deref bufs p) (\<lambda>xs. load xs i)) = Inr (xs ! position s (unat j))"
  using GetBufIdx_inside [OF assms(2), of j] assms by (auto simp: rsize_less load_def)

lemma window_write:
  assumes "deref bufs p = Inr xs" and "inside s xs" and "unat j < rsize s"
  shows "\<exists>bufs'. followed (GetBufIdx s j) (\<lambda>i. store bufs p i v) = Inr bufs'"
  using GetBufIdx_inside [OF assms(2), of j] assms store_inside [OF assms(1)] by (fastforce simp: rsize_less)

lemma window_update:
  assumes "followed (GetBufIdx s j) (\<lambda>i. store bufs p i v) = Inr bufs'" and "deref bufs p = Inr xs" and "inside s xs"
    and "deref bufs q = Inr ys"
  shows "deref bufs' q = Inr (if q = p then ys[position s (unat j) := v] else ys)"
proof -
  obtain a where a: "GetBufIdx s j = Inr a" "store bufs p a v = Inr bufs'" using assms(1) by auto
  have "j < internal_use_size s" using a(1) by (simp add: GetBufIdx_def)
  then have "unat a = position s (unat j)" using GetBufIdx_inside [OF assms(3), of j] a(1) by simp
  with store_Inr [OF a(2)] assms(4) show ?thesis by auto
qed

lemma inside_update [simp]: "inside s (xs[k := v]) = inside s xs"
  by (simp add: inside_def)

lemma followed_assoc: "followed (followed r f) g = followed r (\<lambda>x. followed (f x) g)"
  by (cases r) simp_all

text \<open>A kind of cells that lives in one of the maps of the heap gives windows.\<close>

locale buffer_view =
  fixes ptr :: "'a slice_base_scheme \<Rightarrow> nat option" and bufs :: "ot_heap \<Rightarrow> nat \<rightharpoonup> 'v list"
    and upd :: "(nat \<rightharpoonup> 'v list) \<Rightarrow> ot_heap \<Rightarrow> ot_heap" and ok :: "ot_heap \<Rightarrow> 'a slice_base_scheme \<Rightarrow> bool"
    and rd :: "ot_heap \<Rightarrow> 'a slice_base_scheme \<Rightarrow> 64 word \<Rightarrow> 'v ot_result"
    and wr :: "'a slice_base_scheme \<Rightarrow> 64 word \<Rightarrow> 'v \<Rightarrow> ot_heap \<Rightarrow> ot_heap ot_result"
  assumes ok_buffer: "ok h s \<Longrightarrow> \<exists>xs. deref (bufs h) (ptr s) = Inr xs \<and> inside s xs"
    and ok_upd: "ok h s \<Longrightarrow> (\<And>q ys. deref (bufs h) q = Inr ys \<Longrightarrow> \<exists>zs. deref b q = Inr zs \<and> length zs = length ys) \<Longrightarrow> ok (upd b h) s"
    and upd_bufs: "bufs (upd b h) = b"
    and rd_window: "ok h s \<Longrightarrow> unat j < rsize s \<Longrightarrow>
      rd h s j = followed (GetBufIdx s j) (\<lambda>i. followed (deref (bufs h) (ptr s)) (\<lambda>xs. load xs i))"
    and wr_window: "ok h s \<Longrightarrow>
      wr s i v h = followed (followed (GetBufIdx s i) (\<lambda>i. store (bufs h) (ptr s) i v)) (\<lambda>b. Inr (upd b h))"
begin

lemma rd_nth:
  assumes "ok h s" and "unat j < rsize s" and "deref (bufs h) (ptr s) = Inr xs" and "inside s xs"
  shows "rd h s j = Inr (xs ! position s (unat j))"
  using rd_window [OF assms(1,2)] window_read [OF assms(3,4,2)] by simp

lemma wr_update:
  assumes "ok h s" and "ok h t" and "wr s i v h = Inr h'"
  shows "\<exists>xs. deref (bufs h) (ptr t) = Inr xs \<and> inside t xs
    \<and> deref (bufs h') (ptr t) = Inr (if ptr t = ptr s then xs[position s (unat i) := v] else xs) \<and> ok h' t"
proof -
  obtain xs where x: "deref (bufs h) (ptr s) = Inr xs" "inside s xs" using ok_buffer [OF assms(1)] by blast
  obtain ys where y: "deref (bufs h) (ptr t) = Inr ys" "inside t ys" using ok_buffer [OF assms(2)] by blast
  obtain b where b: "followed (GetBufIdx s i) (\<lambda>i. store (bufs h) (ptr s) i v) = Inr b" "h' = upd b h"
    using assms(3) unfolding wr_window [OF assms(1)] by auto
  note u = window_update [OF b(1) x]
  have "ok (upd b h) t" by (rule ok_upd [OF assms(2)]) (use u in auto)
  with y u [OF y(1)] show ?thesis by (auto simp: b(2) upd_bufs)
qed

end

sublocale buffer_view \<subseteq> window rsize "\<lambda>s i. (ptr s, position s i)" ok rd wr
proof (unfold_locales, goal_cases)
  case (1 h s)
  then show ?case using ok_buffer [of h s] by (auto simp: rsize_def inside_def)
next
  case (2 m s n)
  then show ?case by (simp add: position_def)
next
  case (3 h s i v)
  obtain xs where "deref (bufs h) (ptr s) = Inr xs" "inside s xs" using ok_buffer [OF 3(1)] by blast
  from window_write [OF this 3(2)] show ?case unfolding wr_window [OF 3(1)] by auto
next
  case (4 h s t i v h')
  then show ?case using wr_update by blast
next
  case (5 h s t j i v h')
  obtain xs where x: "deref (bufs h) (ptr t) = Inr xs" "inside t xs"
    "deref (bufs h') (ptr t) = Inr (if ptr t = ptr s then xs[position s (unat i) := v] else xs)" "ok h' t"
    using wr_update [OF 5(1,2,4)] by blast
  have "rd h' t j = Inr ((if ptr t = ptr s then xs[position s (unat i) := v] else xs) ! position t (unat j))"
    by (rule rd_nth [OF x(4) 5(3) x(3)]) (use x(2) in simp)
  moreover have "position t (unat j) < length xs" using x(2) 5(3) by (simp add: position_def inside_def rsize_def)
  ultimately show ?case using rd_nth [OF 5(2,3) x(1,2)] by (auto simp: nth_list_update)
qed

interpretation recv_blocks: buffer_view recv_blk_buf blk_bufs "\<lambda>b h. h\<lparr>blk_bufs := b\<rparr>" recv_ok recv_GetBlock recv_SetBlock
proof (unfold_locales, goal_cases)
  case (2 h s b)
  then obtain blk where "deref (blk_bufs h) (recv_blk_buf s) = Inr blk" "inside s blk"
    "recv_type s = Normal \<longrightarrow> (\<exists>bits. deref (bit_bufs h) (bit_buf s) = Inr bits \<and> length bits = length blk)"
    by (auto simp: recv_ok_def)
  moreover from 2(2) [OF this(1)] obtain zs where "deref b (recv_blk_buf s) = Inr zs" "length zs = length blk" by blast
  ultimately show ?case by (simp add: recv_ok_def inside_def)
qed (auto simp: recv_ok_def recv_GetBlock_def recv_SetBlock_def rsize_less followed_assoc)

interpretation recv_choices: buffer_view bit_buf bit_bufs "\<lambda>b h. h\<lparr>bit_bufs := b\<rparr>" choices_ok recv_GetChoice recv_SetChoice
proof (unfold_locales, goal_cases)
  case (2 h s b)
  then obtain blk bits where "deref (blk_bufs h) (recv_blk_buf s) = Inr blk" "inside s blk" "recv_type s = Normal"
    "deref (bit_bufs h) (bit_buf s) = Inr bits" "length bits = length blk"
    by (auto simp: choices_ok_def recv_ok_def)
  moreover from 2(2) [OF this(4)] obtain zs where "deref b (bit_buf s) = Inr zs" "length zs = length bits" by blast
  ultimately show ?case by (simp add: choices_ok_def recv_ok_def)
qed (auto simp: choices_ok_def recv_ok_def inside_def recv_GetChoice_def recv_SetChoice_def rsize_less followed_assoc)

interpretation compact_blocks: buffer_view send_blk_buf blk_bufs "\<lambda>b h. h\<lparr>blk_bufs := b\<rparr>" compact_ok raw_block SetCompactBlock
proof (unfold_locales, goal_cases)
  case (2 h s b)
  then obtain blk where "deref (blk_bufs h) (send_blk_buf s) = Inr blk" "inside s blk" "send_type s = Compact"
    by (auto simp: compact_ok_def send_ok_def)
  moreover from 2(2) [OF this(1)] obtain zs where "deref b (send_blk_buf s) = Inr zs" "length zs = length blk" by blast
  ultimately show ?case by (simp add: compact_ok_def send_ok_def inside_def)
qed (auto simp: compact_ok_def send_ok_def raw_block_def SetCompactBlock_def rsize_less followed_assoc)

subsection \<open>Slices\<close>

lemma unat_window:
  fixes f p :: "64 word"
  assumes "f < p"
  shows "unat f + unat (p - f) = unat p"
  using assms unat_sub [of f p] by (simp add: word_less_nat_alt word_le_nat_alt)

lemma slice_check:
  "base_ConsistencyCheck \<lparr>internal_use_ctr = f, internal_use_size = p - f, internal_buf_ctr = f, internal_buf_size = p, \<dots> = m\<rparr> = Inr () \<longleftrightarrow> f < p"
proof -
  have "p - f \<le> p" if "f < p" using unat_window [OF that] by (simp add: word_le_nat_alt)
  moreover have "p - f > 0 \<longleftrightarrow> p \<noteq> f" by (auto simp: word_gt_0)
  moreover have "p > 0" if "f < p" using that by (auto simp: word_gt_0)
  ultimately show ?thesis by (auto simp: base_ConsistencyCheck_def)
qed

definition slice_of :: "64 word \<Rightarrow> 64 word \<Rightarrow> 'a slice_base_scheme \<Rightarrow> 'a slice_base_scheme" where
  "slice_of f p s = s\<lparr>internal_use_ctr := f, internal_use_size := p - f, internal_buf_ctr := f, internal_buf_size := p\<rparr>"

lemma recv_Slice_iff:
  assumes "recv_ok h s" and "deref (blk_bufs h) (recv_blk_buf s) = Inr blk"
  shows "recv_Slice f p h s = Inr t \<longleftrightarrow> f < p \<and> unat p \<le> length blk \<and> t = slice_of f p s"
  using assms by (auto simp: recv_Slice_def recv_full_def Let_def recv_ConsistencyCheck_def slice_check slice_of_def recv_ok_def)

lemma recv_Slice_ok:
  assumes "recv_ok h s" and "recv_Slice f p h s = Inr t"
  shows "recv_ok h t" and "t = slice_of f p s" and "f < p"
    and "\<forall>i. unat i < rsize t \<longrightarrow> position t (unat i) = unat f + unat i"
proof -
  obtain blk where b: "deref (blk_bufs h) (recv_blk_buf s) = Inr blk" using assms(1) by (auto simp: recv_ok_def)
  have t: "f < p" "unat p \<le> length blk" "t = slice_of f p s" using recv_Slice_iff [OF assms(1) b] assms(2) by simp_all
  show "recv_ok h t" using assms(1) b t(2) unat_window [OF t(1)] by (auto simp: recv_ok_def t(3) slice_of_def inside_def)
  show "t = slice_of f p s" "f < p" by (rule t)+
  show "\<forall>i. unat i < rsize t \<longrightarrow> position t (unat i) = unat f + unat i" by (simp add: position_def t(3) slice_of_def)
qed

lemma new_recv_ok:
  assumes "num > 0"
  shows "\<exists>s h'. new_recv num type h = Inr (s, h') \<and> recv_ok h' s \<and> internal_use_ctr s = 0
    \<and> internal_use_size s = num \<and> internal_buf_ctr s = 0 \<and> internal_buf_size s = num \<and> recv_type s = type"
proof -
  have "unat num < 2 ^ 64" using unsigned_less [of num] by simp
  with assms show ?thesis
    by (cases type) (auto simp: new_recv_def recv_full_def Let_def recv_ConsistencyCheck_def base_ConsistencyCheck_def deref_def recv_ok_def inside_def)
qed

text \<open>Slices taken one after another.\<close>

fun recv_slices :: "64 word list \<Rightarrow> ot_heap \<Rightarrow> OtRecvStore \<Rightarrow> (OtRecvStore list \<times> OtRecvStore) ot_result" where
  "recv_slices [] h s = Inr ([], s)"
| "recv_slices (n # ns) h s =
     followed (recv_NextSlice n h s) (\<lambda>(out, s). followed (recv_slices ns h s) (\<lambda>(outs, s). Inr (out # outs, s)))"

lemma recv_NextSlice_ok:
  assumes "recv_ok h s" and "recv_NextSlice n h s = Inr (out, s')"
  shows "recv_ok h out \<and> recv_ok h s' \<and> internal_use_ctr out = internal_buf_ctr s \<and> internal_use_size out = n \<and> n > 0
    \<and> recv_blk_buf out = recv_blk_buf s \<and> bit_buf out = bit_buf s \<and> recv_blk_buf s' = recv_blk_buf s \<and> bit_buf s' = bit_buf s
    \<and> unat (internal_buf_ctr s') = unat (internal_buf_ctr s) + unat n"
proof -
  let ?c = "internal_buf_ctr s"
  have sl: "recv_Slice ?c (?c + n) h s = Inr out" and s': "s' = s\<lparr>internal_buf_ctr := ?c + n\<rparr>"
    using assms(2) by (auto simp: recv_NextSlice_def IncreaseBufCtr_def)
  note o = recv_Slice_ok [OF assms(1) sl]
  have "n > 0" using o(3) by (auto simp: word_gt_0)
  moreover have "recv_ok h s'" using assms(1) by (simp add: recv_ok_def inside_def s')
  ultimately show ?thesis using o(1) unat_window [OF o(3)] by (simp add: o(2) slice_of_def s')
qed

lemma recv_slices_ok:
  assumes "recv_ok h s" and "recv_slices ns h s = Inr (outs, s')"
  shows "length outs = length ns \<and> (\<forall>t \<in> set outs. recv_ok h t \<and> recv_blk_buf t = recv_blk_buf s \<and> bit_buf t = bit_buf s
      \<and> unat (internal_buf_ctr s) \<le> unat (internal_use_ctr t))
    \<and> sorted_wrt (\<lambda>t u. unat (internal_use_ctr t) + rsize t \<le> unat (internal_use_ctr u)) outs \<and> map internal_use_size outs = ns"
  using assms
proof (induction ns arbitrary: s outs)
  case (Cons n ns)
  obtain out s1 outs1 where 1: "recv_NextSlice n h s = Inr (out, s1)" "recv_slices ns h s1 = Inr (outs1, s')" "outs = out # outs1"
    using Cons.prems(2) by auto
  have o: "recv_ok h out" "recv_ok h s1" "internal_use_ctr out = internal_buf_ctr s" "internal_use_size out = n"
    "recv_blk_buf out = recv_blk_buf s" "bit_buf out = bit_buf s" "recv_blk_buf s1 = recv_blk_buf s" "bit_buf s1 = bit_buf s"
    "unat (internal_buf_ctr s1) = unat (internal_buf_ctr s) + unat n"
    using recv_NextSlice_ok [OF Cons.prems(1) 1(1)] by simp_all
  from Cons.IH [OF o(2) 1(2)] show ?case by (auto simp: 1(3) o rsize_def)
qed simp

lemma disjoint_cells:
  assumes "sorted_wrt (\<lambda>t u. unat (internal_use_ctr t) + rsize t \<le> unat (internal_use_ctr u)) outs"
    and "i < length outs" and "j < length outs" and "i \<noteq> j" and "a < rsize (outs ! i)" and "b < rsize (outs ! j)"
  shows "position (outs ! i) a \<noteq> position (outs ! j) b"
  using assms(4)
proof (cases "i < j")
  case True
  then show ?thesis using sorted_wrt_nth_less [OF assms(1) _ assms(3)] assms(5) by (fastforce simp: position_def)
next
  case False
  then have "j < i" using assms(4) by simp
  then show ?thesis using sorted_wrt_nth_less [OF assms(1) _ assms(2)] assms(6) by (fastforce simp: position_def)
qed

theorem slices_independent:
  assumes "num > 0" and "new_recv num type h0 = Inr (s, h)" and "recv_slices ns h s = Inr (outs, s')"
    and "i < length ns" and "j < length ns" and "i \<noteq> j" and "length vs \<le> unat (ns ! i)"
  shows "\<exists>h'. write_all recv_SetBlock (outs ! i) 0 vs h = Inr h'
    \<and> (\<forall>k < length vs. recv_GetBlock h' (outs ! i) (of_nat k) = Inr (vs ! k))
    \<and> (\<forall>k < ns ! j. recv_GetBlock h' (outs ! j) k = recv_GetBlock h (outs ! j) k)"
proof -
  have "recv_ok h s" using new_recv_ok [OF assms(1), of type h0] assms(2) by auto
  from recv_slices_ok [OF this assms(3)]
  have len: "length outs = length ns" and ok: "\<forall>t \<in> set outs. recv_ok h t" and ns: "map internal_use_size outs = ns"
    and srt: "sorted_wrt (\<lambda>t u. unat (internal_use_ctr t) + rsize t \<le> unat (internal_use_ctr u)) outs" by simp_all
  have sz: "internal_use_size (outs ! k) = ns ! k" if "k < length ns" for k using ns len that by (metis nth_map)
  have o: "recv_ok h (outs ! i)" "recv_ok h (outs ! j)" using ok len assms(4,5) by simp_all
  have l: "0 + length vs \<le> rsize (outs ! i)" using assms(7) sz [OF assms(4)] by (simp add: rsize_def)
  obtain h' where h': "write_all recv_SetBlock (outs ! i) 0 vs h = Inr h'"
    "\<forall>k < length vs. recv_GetBlock h' (outs ! i) (of_nat (0 + k)) = Inr (vs ! k)"
    using recv_blocks.write_all_read [OF o(1) l] by blast
  have "recv_GetBlock h' (outs ! j) k = recv_GetBlock h (outs ! j) k" if k: "k < ns ! j" for k
  proof -
    have kj: "unat k < rsize (outs ! j)" using k sz [OF assms(5)] by (simp add: rsize_def word_less_nat_alt)
    have "position (outs ! j) (unat k) \<noteq> position (outs ! i) (0 + m)" if "m < length vs" for m
      using disjoint_cells [OF srt, of j i "unat k" m] assms(4,5,6) len kj l that by simp
    then show ?thesis using recv_blocks.write_all_frame [OF o l] h'(1) kj by auto
  qed
  with h' show ?thesis by auto
qed

subsection \<open>Correlated stores\<close>

definition blk_num :: "OtSendStore \<Rightarrow> nat" where
  "blk_num s = (if send_type s = Compact then 1 else 2)"

lemma unat_send_Size: "unat (send_Size s) = rsize s div blk_num s"
  by (simp add: send_Size_def rsize_def blk_num_def unat_div)

lemma unat_times_num:
  assumes "unat i * blk_num s < 2 ^ 64"
  shows "unat (i * ot_blk_num s) = unat i * blk_num s"
  using assms by (simp add: ot_blk_num_def blk_num_def unat_word_ariths split: if_splits)

text \<open>The message of a correlated pair, in both layouts of the buffer.\<close>

lemma send_GetBlock_cot:
  assumes "deref (blk_bufs h) (send_blk_buf s) = Inr blk" and "inside s blk" and "send_delta s \<noteq> 0" and "i < send_Size s"
  shows "send_GetBlock h s i (of_bool b) = Inr (blk ! position s (unat i * blk_num s) XOR (if b then send_delta s else 0))"
proof -
  have "unat i < rsize s div blk_num s" using assms(4) by (simp add: word_less_nat_alt unat_send_Size)
  then have l: "unat i * blk_num s < rsize s" using assms(2) by (auto simp: blk_num_def split: if_splits)
  then have "unat i * blk_num s < 2 ^ 64" using assms(2) by (simp add: inside_def rsize_def)
  then have u: "unat (i * ot_blk_num s) = unat i * blk_num s" by (rule unat_times_num)
  have "followed (GetBufIdx s (i * ot_blk_num s)) (\<lambda>i. followed (deref (blk_bufs h) (send_blk_buf s)) (\<lambda>xs. load xs i))
      = Inr (blk ! position s (unat i * blk_num s))"
    using window_read [OF assms(1,2), of "i * ot_blk_num s"] l u by simp
  then obtain a where "GetBufIdx s (i * ot_blk_num s) = Inr a" "load blk a = Inr (blk ! position s (unat i * blk_num s))"
    using assms(1) by auto
  with assms(1,3) show ?thesis by (simp add: send_GetBlock_def mult.commute)
qed

definition cot_pair :: "ot_heap \<Rightarrow> OtSendStore \<Rightarrow> ot_heap \<Rightarrow> OtRecvStore \<Rightarrow> bool" where
  "cot_pair hs s hr r \<longleftrightarrow> send_delta s \<noteq> 0 \<and> send_ok hs s \<and> recv_ok hr r \<and> send_Size s = internal_use_size r
     \<and> (\<forall>i < internal_use_size r. \<exists>b. recv_GetChoice hr r i = Inr b \<and> recv_GetBlock hr r i = send_GetBlock hs s i (of_bool b))"

lemma send_Slice_ok:
  assumes "send_ok h s" and "internal_use_ctr s = 0" and "f < p" and "p \<le> send_Size s"
  shows "send_Slice f p h s = Inr (slice_of (f * ot_blk_num s) (p * ot_blk_num s) s)"
    and "unat (f * ot_blk_num s) = unat f * blk_num s" and "unat (p * ot_blk_num s) = unat p * blk_num s"
    and "send_ok h (slice_of (f * ot_blk_num s) (p * ot_blk_num s) s)"
proof -
  obtain blk where b: "deref (blk_bufs h) (send_blk_buf s) = Inr blk" "inside s blk" using assms(1) by (auto simp: send_ok_def)
  have fp: "unat f < unat p" "unat p \<le> rsize s div blk_num s" using assms(3,4) by (simp_all add: word_less_nat_alt word_le_nat_alt unat_send_Size)
  then have l: "unat p * blk_num s \<le> rsize s" by (auto simp: blk_num_def split: if_splits)
  also have "\<dots> \<le> length blk" using b(2) assms(2) by (simp add: inside_def rsize_def)
  finally have pb: "unat p * blk_num s \<le> length blk" .
  have k: "0 < blk_num s" by (simp add: blk_num_def)
  have lt: "unat p * blk_num s < 2 ^ 64" using pb b(2) by (simp add: inside_def)
  have flt: "unat f * blk_num s < unat p * blk_num s" using fp(1) k by simp
  then have "unat f * blk_num s < 2 ^ 64" using lt by (rule less_trans)
  from unat_times_num [OF this] show uf: "unat (f * ot_blk_num s) = unat f * blk_num s" .
  from unat_times_num [OF lt] show up: "unat (p * ot_blk_num s) = unat p * blk_num s" .
  have w: "f * ot_blk_num s < p * ot_blk_num s" using flt uf up by (simp add: word_less_nat_alt)
  have d: "(p - f) * ot_blk_num s = p * ot_blk_num s - f * ot_blk_num s" by (simp add: left_diff_distrib)
  show "send_Slice f p h s = Inr (slice_of (f * ot_blk_num s) (p * ot_blk_num s) s)"
    using w pb by (simp add: send_Slice_def send_full_def Let_def send_ConsistencyCheck_def b(1) up d slice_check slice_of_def)
  show "send_ok h (slice_of (f * ot_blk_num s) (p * ot_blk_num s) s)"
    using b unat_window [OF w] pb up by (simp add: send_ok_def slice_of_def inside_def)
qed

lemma unat_offset:
  fixes f p i :: "64 word"
  assumes "f < p" and "i < p - f"
  shows "unat (f + i) = unat f + unat i" and "f + i < p"
proof -
  have "unat f + unat i < unat p" using unat_window [OF assms(1)] assms(2) by (simp add: word_less_nat_alt)
  moreover have "unat p < 2 ^ 64" using unsigned_less [of p] by simp
  ultimately have "unat f + unat i < 2 ^ 64" by simp
  then show u: "unat (f + i) = unat f + unat i" by (simp add: unat_word_ariths)
  show "f + i < p" using \<open>unat f + unat i < unat p\<close> u by (simp add: word_less_nat_alt)
qed

lemma recv_slice_reads:
  assumes "recv_ok h r" and "internal_use_ctr r = 0" and "f < p" and "p \<le> internal_use_size r" and "i < p - f"
  shows "recv_GetBlock h (slice_of f p r) i = recv_GetBlock h r (f + i)"
    and "recv_GetChoice h (slice_of f p r) i = recv_GetChoice h r (f + i)"
proof -
  have i: "i < internal_use_size (slice_of f p r)" "f + i < internal_use_size r"
    using assms(4,5) unat_offset(2) [OF assms(3,5)] by (simp_all add: slice_of_def)
  have idx: "GetBufIdx (slice_of f p r) i = GetBufIdx r (f + i)" using i assms(2) by (simp add: GetBufIdx_def slice_of_def)
  show "recv_GetBlock h (slice_of f p r) i = recv_GetBlock h r (f + i)"
    using i idx by (simp add: recv_GetBlock_def) (simp add: slice_of_def)
  show "recv_GetChoice h (slice_of f p r) i = recv_GetChoice h r (f + i)"
    using i idx by (simp add: recv_GetChoice_def) (simp add: slice_of_def)
qed

lemma send_slice_reads:
  assumes "send_ok h s" and "send_delta s \<noteq> 0" and "internal_use_ctr s = 0" and "f < p" and "p \<le> send_Size s" and "i < p - f"
  shows "send_GetBlock h (slice_of (f * ot_blk_num s) (p * ot_blk_num s) s) i (of_bool b) = send_GetBlock h s (f + i) (of_bool b)"
    and "send_Size (slice_of (f * ot_blk_num s) (p * ot_blk_num s) s) = p - f"
proof -
  let ?t = "slice_of (f * ot_blk_num s) (p * ot_blk_num s) s"
  note S = send_Slice_ok [OF assms(1,3,4,5)]
  obtain blk where b: "deref (blk_bufs h) (send_blk_buf s) = Inr blk" "inside s blk" using assms(1) by (auto simp: send_ok_def)
  have t: "deref (blk_bufs h) (send_blk_buf ?t) = Inr blk" "inside ?t blk" using S(4) b(1) by (auto simp: send_ok_def slice_of_def)
  have k: "blk_num ?t = blk_num s" "0 < blk_num s" by (simp_all add: blk_num_def slice_of_def)
  have "f * ot_blk_num s < p * ot_blk_num s" using assms(4) k(2) S(2,3) by (simp add: word_less_nat_alt)
  from unat_window [OF this] have "rsize ?t = (unat p - unat f) * blk_num s"
    using S(2,3) by (simp add: rsize_def slice_of_def diff_mult_distrib)
  then have "unat (send_Size ?t) = unat p - unat f" using k by (simp add: unat_send_Size)
  then show size: "send_Size ?t = p - f" using unat_window [OF assms(4)] by (simp add: word_unat_eq_iff)
  have o: "unat (f + i) = unat f + unat i" "f + i < p" using unat_offset [OF assms(4,6)] .
  have pl: "position ?t (unat i * blk_num s) = position s (unat (f + i) * blk_num s)"
    using S(2) assms(3) by (simp add: position_def slice_of_def o(1) distrib_right)
  have d: "send_delta ?t = send_delta s" by (simp add: slice_of_def)
  show "send_GetBlock h ?t i (of_bool b) = send_GetBlock h s (f + i) (of_bool b)"
    using send_GetBlock_cot [OF t, of i b] send_GetBlock_cot [OF b assms(2), of "f + i" b] assms(2,5,6) o(2) size pl
    by (simp add: k(1) d)
qed

lemma cot_pair_slice:
  assumes "cot_pair hs s hr r" and "internal_use_ctr s = 0" and "internal_use_ctr r = 0" and "f < p" and "p \<le> internal_use_size r"
  shows "\<exists>s' r'. send_Slice f p hs s = Inr s' \<and> recv_Slice f p hr r = Inr r' \<and> cot_pair hs s' hr r'
    \<and> (\<forall>i < p - f. recv_GetBlock hr r' i = recv_GetBlock hr r (f + i) \<and> recv_GetChoice hr r' i = recv_GetChoice hr r (f + i)
        \<and> (\<forall>b. send_GetBlock hs s' i (of_bool b) = send_GetBlock hs s (f + i) (of_bool b)))"
proof -
  have c: "send_delta s \<noteq> 0" "send_ok hs s" "recv_ok hr r" "send_Size s = internal_use_size r"
    and rel: "\<forall>i < internal_use_size r. \<exists>b. recv_GetChoice hr r i = Inr b \<and> recv_GetBlock hr r i = send_GetBlock hs s i (of_bool b)"
    using assms(1) by (simp_all add: cot_pair_def)
  let ?s = "slice_of (f * ot_blk_num s) (p * ot_blk_num s) s" and ?r = "slice_of f p r"
  have ps: "p \<le> send_Size s" using assms(5) c(4) by simp
  obtain blk where b: "deref (blk_bufs hr) (recv_blk_buf r) = Inr blk" "inside r blk" using c(3) by (auto simp: recv_ok_def)
  have "unat p \<le> length blk" using b(2) assms(3,5) by (simp add: inside_def word_le_nat_alt)
  then have rs: "recv_Slice f p hr r = Inr ?r" using recv_Slice_iff [OF c(3) b(1)] assms(4) by simp
  note S = send_Slice_ok [OF c(2) assms(2,4) ps] and R = recv_Slice_ok [OF c(3) rs]
  note sr = send_slice_reads [OF c(2,1) assms(2,4) ps] and rr = recv_slice_reads [OF c(3) assms(3,4,5)]
  have "0 < p - f" using assms(4) by (auto simp: word_gt_0)
  then have sz: "send_Size ?s = p - f" by (rule sr(2))
  have "cot_pair hs ?s hr ?r"
    unfolding cot_pair_def
  proof (intro conjI allI impI)
    show "send_delta ?s \<noteq> 0" using c(1) by (simp add: slice_of_def)
    show "send_Size ?s = internal_use_size ?r" using sz by (simp add: slice_of_def)
    fix i assume "i < internal_use_size ?r"
    then have i: "i < p - f" by (simp add: slice_of_def)
    have "f + i < internal_use_size r" using unat_offset(2) [OF assms(4) i] assms(5) by simp
    then show "\<exists>b. recv_GetChoice hr ?r i = Inr b \<and> recv_GetBlock hr ?r i = send_GetBlock hs ?s i (of_bool b)"
      using rel rr [OF i] sr(1) [OF i] by simp
  qed (use S(4) R(1) in simp_all)
  with S(1) rs rr sr(1) show ?thesis by blast
qed

text \<open>A slice is made from positions of the buffer, not of the window it is taken from.\<close>

lemma slice_of_slice:
  "send_Slice f p h s = Inr s' \<Longrightarrow> send_Slice f' p' h s' = send_Slice f' p' h s"
  "recv_Slice f p h r = Inr r' \<Longrightarrow> recv_Slice f' p' h r' = recv_Slice f' p' h r"
  by (auto simp: send_Slice_def recv_Slice_def send_full_def recv_full_def Let_def ot_blk_num_def)

text \<open>
  \<open>CopyCotBlkBuf\<close> starts at the counter of the next slice and not at the start of the window: on a
  store of which a slice has been taken it copies past the end of the buffer.
\<close>

lemma CopyCotBlkBuf_after_slice:
  assumes "send_type s = Compact" and "deref (blk_bufs h) (send_blk_buf s) = Inr blk" and "internal_use_ctr s = 0"
    and "unat (internal_use_size s) = length blk" and "send_NextSlice n h s = Inr (out, s')"
  shows "CopyCotBlkBuf h s' = Inl Undef"
proof -
  have k: "ot_blk_num s = 1" using assms(1) by (simp add: ot_blk_num_def)
  let ?c = "internal_buf_ctr s"
  have sl: "send_Slice ?c (?c + n) h s = Inr out" and s': "s' = s\<lparr>internal_buf_ctr := ?c + n\<rparr>"
    using assms(5) by (auto simp: send_NextSlice_def IncreaseBufCtr_def k)
  have "internal_buf_size out = ?c + n" "internal_buf_size out > 0"
    using sl by (auto simp: send_Slice_def k send_full_def Let_def send_ConsistencyCheck_def base_ConsistencyCheck_def)
  then have "unat (?c + n) > 0" by (simp add: word_less_nat_alt)
  then show ?thesis using assms(1,2,4) by (simp add: CopyCotBlkBuf_def s')
qed

end
