(* ===== verification/Gywz.thy ===== *)
theory Gywz
  imports CrHash OtStore
begin

text \<open>
  \<^verbatim>\<open>ot/gywz_ote.cc\<close>: single-point correlated transfer from a tree of correlated seeds.  The sender
  expands a tree in which the two children of a seed add up to the seed, and sends for every level
  the sum of the left children, masked with a message of a correlated pair.  The receiver rebuilds
  every seed but those on the path of its index.

  The expansion in place is the source's: the output array is the working array, with a second
  buffer for the right half of the last level when the number of messages is not a power of two.
  A first group of lemmas shows that the arrays hold the levels of the tree; a second one, on lists,
  that the punctured levels differ from the full ones at the index only, and there by the offset of
  the correlation.  Numbers of messages are natural numbers below \<open>2 ^ 32\<close>; the messages on the wire
  are lists of blocks and of bits.
\<close>

subsection \<open>\<^verbatim>\<open>math/gadget.h\<close>\<close>

fun bit_width :: "nat \<Rightarrow> nat" where
  "bit_width n = (if n = 0 then 0 else Suc (bit_width (n div 2)))"

declare bit_width.simps [simp del]

definition countl_zero :: "64 word \<Rightarrow> nat" where
  "countl_zero x = 64 - bit_width (unat x)"

definition Log2Floor :: "64 word \<Rightarrow> nat ot_result" where
  "Log2Floor x = enforce (x \<noteq> 0) (Inr ((8 * 8 - countl_zero x) - 1))"

definition Log2Ceil :: "64 word \<Rightarrow> nat ot_result" where
  "Log2Ceil x = enforce (x \<noteq> 0) (if x = 1 then Inr 0 else followed (Log2Floor (x - 1)) (\<lambda>l. Inr (l + 1)))"

definition DivCeil :: "64 word \<Rightarrow> 64 word \<Rightarrow> 64 word" where
  "DivCeil x y = (if x = 0 then 0 else 1 + (x - 1) div y)"

definition RoundUpTo :: "64 word \<Rightarrow> 64 word \<Rightarrow> 64 word" where
  "RoundUpTo x y = DivCeil x y * y"

subsection \<open>The tree in place\<close>

definition xor_sum :: "128 word list \<Rightarrow> 128 word \<Rightarrow> 128 word" where
  "xor_sum xs s = fold (\<lambda>x s. s XOR x) xs s"

text \<open>
  One level: the working array, the buffer of the last level, and the two new halves.  The right
  half is written behind the left one, or to the buffer.  (The source also forms the span behind the
  left half in the second case, where it may reach past the array, and then does not use it.)
\<close>

definition put_halves :: "bool \<Rightarrow> nat \<Rightarrow> 128 word list \<Rightarrow> 128 word list \<Rightarrow> 128 word list \<times> 128 word list \<Rightarrow> (128 word list \<times> 128 word list) ot_result" where
  "put_halves to_extra prev_size left right st =
     (case st of (msgs, extra) \<Rightarrow>
        if to_extra
        then (if prev_size \<le> length msgs then Inr (left @ drop prev_size msgs, right) else Inl Undef)
        else (if 2 * prev_size \<le> length msgs then Inr (left @ right @ drop (2 * prev_size) msgs, extra) else Inl Undef))"

definition full_level :: "cipher \<Rightarrow> 128 word \<Rightarrow> bool \<Rightarrow> nat \<Rightarrow> nat \<Rightarrow> (128 word list \<times> 128 word list) \<times> 128 word list \<Rightarrow>
    ((128 word list \<times> 128 word list) \<times> 128 word list) ot_result" where
  "full_level enc one is_two_power height level st =
     (case st of ((msgs, extra), left_sums) \<Rightarrow>
        let prev_size = 2 ^ level;
            seeds = take prev_size msgs;
            left = map (\<lambda>x. x AND one) (ParaCcrHashInplace_128 enc seeds);
            right = map2 (XOR) seeds left
        in followed (put_halves (\<not> is_two_power \<and> level = height - 1) prev_size left right (msgs, extra)) (\<lambda>st.
           Inr (st, left_sums @ [xor_sum left 0])))"

fun run_levels :: "(nat \<Rightarrow> 's \<Rightarrow> 's ot_result) \<Rightarrow> nat list \<Rightarrow> 's \<Rightarrow> 's ot_result" where
  "run_levels f [] st = Inr st"
| "run_levels f (l # ls) st = followed (f l st) (run_levels f ls)"

text \<open>The copy of the right half of the last level into the array.\<close>

definition copy_extra :: "bool \<Rightarrow> nat \<Rightarrow> nat \<Rightarrow> 128 word list \<times> 128 word list \<Rightarrow> 128 word list ot_result" where
  "copy_extra is_two_power n prev_size st =
     (case st of (msgs, extra) \<Rightarrow>
        if is_two_power then Inr msgs
        else if n \<le> length msgs \<and> n - prev_size \<le> length extra
        then Inr (take prev_size msgs @ take (n - prev_size) extra @ drop n msgs) else Inl Undef)"

definition CggmFullEval :: "cipher \<Rightarrow> 128 word \<Rightarrow> 128 word \<Rightarrow> nat \<Rightarrow> 128 word list \<Rightarrow> nat \<Rightarrow> 128 word \<Rightarrow>
    (128 word list \<times> 128 word list) ot_result" where
  "CggmFullEval enc delta seed n all_msgs sums_size one =
     followed (Log2Ceil (of_nat n)) (\<lambda>height.
     enforce (height = sums_size) (
     enforce (length all_msgs \<ge> n) (
     if height = 0 \<or> 32 \<le> height then Inl Undef
     else
       (let is_two_power = (n = 2 ^ height);
            seed = seed AND one;
            delta = delta AND one;
            msgs = all_msgs[0 := seed, 1 := seed XOR delta]
        in followed (run_levels (full_level enc one is_two_power height) [1 ..< height] ((msgs, []), [seed])) (\<lambda>(st, left_sums).
           followed (copy_extra is_two_power n (2 ^ (height - 1)) st) (\<lambda>msgs. Inr (msgs, left_sums)))))))"

definition punc_level :: "cipher \<Rightarrow> 128 word \<Rightarrow> nat \<Rightarrow> 128 word list \<Rightarrow> bool \<Rightarrow> nat \<Rightarrow> nat \<Rightarrow> (128 word list \<times> 128 word list) \<times> nat \<Rightarrow>
    ((128 word list \<times> 128 word list) \<times> nat) ot_result" where
  "punc_level enc one index sibling_sums is_two_power height level st =
     (case st of ((msgs, extra), punctured_idx) \<Rightarrow>
        let prev_size = 2 ^ level;
            seeds = take prev_size msgs;
            left = map (\<lambda>x. x AND one) (ParaCcrHashInplace_128 enc seeds);
            left_side_sum = xor_sum left (sibling_sums ! level);
            right = map2 (XOR) seeds left;
            left = left[punctured_idx := left ! punctured_idx XOR left_side_sum];
            right = right[punctured_idx := right ! punctured_idx XOR left_side_sum]
        in followed (put_halves (\<not> is_two_power \<and> level = height - 1) prev_size left right (msgs, extra)) (\<lambda>st.
           Inr (st, punctured_idx OR (index AND prev_size))))"

definition CggmPuncFullEval :: "cipher \<Rightarrow> nat \<Rightarrow> 128 word list \<Rightarrow> nat \<Rightarrow> 128 word list \<Rightarrow> 128 word \<Rightarrow> 128 word list ot_result" where
  "CggmPuncFullEval enc index sibling_sums n punctured_msgs one =
     enforce (length punctured_msgs \<ge> n) (
     let height = length sibling_sums
     in if height = 0 \<or> 32 \<le> height \<or> length punctured_msgs < 2 then Inl Undef
        else
          (let is_two_power = (n = 2 ^ height);
               s = sibling_sums ! 0 AND one;
               msgs = punctured_msgs[0 := s, 1 := s]
           in followed (run_levels (punc_level enc one index sibling_sums is_two_power height) [1 ..< height] ((msgs, []), index AND 1)) (\<lambda>(st, _).
              copy_extra is_two_power n (2 ^ (height - 1)) st)))"

subsection \<open>The protocols\<close>

text \<open>
  The blocks received are copied into a vector of \<open>height\<close> blocks without a look at their number: more
  of them overrun the vector, fewer leave it uninitialised.
\<close>

definition load_sums :: "128 word list \<Rightarrow> nat \<Rightarrow> 128 word list ot_result" where
  "load_sums recv_buf height = (if length recv_buf = height then Inr recv_buf else Inl Undef)"

definition unmask_sums :: "ot_heap \<Rightarrow> OtRecvStore \<Rightarrow> 128 word \<Rightarrow> 128 word list \<Rightarrow> 128 word list ot_result" where
  "unmask_sums h cot one sums =
     collect (\<lambda>i. followed (recv_GetBlock h cot (of_nat i)) (\<lambda>m. Inr (sums ! i XOR (m AND one)))) [0 ..< length sums]"

text \<open>The receiver up to the message to the sender, and from the answer on.\<close>

definition GywzOtExtRecv_choice :: "ot_heap \<Rightarrow> OtRecvStore \<Rightarrow> nat \<Rightarrow> nat \<Rightarrow> bool list ot_result" where
  "GywzOtExtRecv_choice h cot n index =
     followed (Log2Ceil (of_nat n)) (\<lambda>height.
     enforce (unat (internal_use_size cot) = height) (
     enforce (n > 1) (
     enforce (n > index) (
     collect (\<lambda>i. followed (recv_GetChoice h cot (of_nat i)) (\<lambda>b. Inr (bit index i \<noteq> b))) [0 ..< height]))))"

definition GywzOtExtRecv :: "cipher \<Rightarrow> ot_heap \<Rightarrow> OtRecvStore \<Rightarrow> nat \<Rightarrow> nat \<Rightarrow> 128 word list \<Rightarrow> 128 word list \<Rightarrow> 128 word list ot_result" where
  "GywzOtExtRecv enc h cot n index output recv_buf =
     followed (GywzOtExtRecv_choice h cot n index) (\<lambda>masked_choice.
     followed (load_sums recv_buf (length masked_choice)) (\<lambda>sums.
     followed (unmask_sums h cot (- 1) sums) (\<lambda>sibling_sums.
     CggmPuncFullEval enc index sibling_sums n output (- 1))))"

definition GywzOtExtSend :: "cipher \<Rightarrow> ot_heap \<Rightarrow> OtSendStore \<Rightarrow> nat \<Rightarrow> 128 word \<Rightarrow> 128 word list \<Rightarrow> bool list \<Rightarrow>
    (128 word list \<times> 128 word list) ot_result" where
  "GywzOtExtSend enc h cot n seed output masked_choice =
     followed (Log2Ceil (of_nat n)) (\<lambda>height.
     enforce (unat (send_Size cot) = height) (
     enforce (n > 1) (
     followed (GetDelta cot) (\<lambda>delta.
     followed (CggmFullEval enc delta seed n output height (- 1)) (\<lambda>(output, left_sums).
     if length masked_choice < height then Inl Undef
     else followed (collect (\<lambda>i. followed (send_GetBlock h cot (of_nat i) (1 - of_bool (masked_choice ! i))) (\<lambda>k. Inr (left_sums ! i XOR k))) [0 ..< height])
            (\<lambda>msgs. Inr (output, msgs)))))))"

text \<open>The index that the choices of the store spell.\<close>

definition choice_index :: "ot_heap \<Rightarrow> OtRecvStore \<Rightarrow> nat \<Rightarrow> nat ot_result" where
  "choice_index h cot height =
     followed (collect (\<lambda>i. recv_GetChoice h cot (of_nat i)) [0 ..< height]) (\<lambda>bs.
     Inr (fold (\<lambda>i index. index OR of_bool (bs ! i) * 2 ^ i) [0 ..< height] 0))"

definition ferret_one :: "128 word" where
  "ferret_one = push_bit 64 0xffffffffffffffff OR 0xfffffffffffffffe"

definition GywzOtExtRecv_ferret :: "cipher \<Rightarrow> ot_heap \<Rightarrow> OtRecvStore \<Rightarrow> nat \<Rightarrow> 128 word list \<Rightarrow> 128 word list \<Rightarrow> 128 word list ot_result" where
  "GywzOtExtRecv_ferret enc h cot n output recv_buf =
     followed (Log2Ceil (of_nat n)) (\<lambda>height.
     enforce (unat (internal_use_size cot) = height) (
     enforce (n > 1) (
     enforce (recv_type cot = Compact) (
     followed (choice_index h cot height) (\<lambda>index.
     followed (load_sums recv_buf height) (\<lambda>sums.
     followed (unmask_sums h cot ferret_one sums) (\<lambda>sibling_sums.
     followed (CggmPuncFullEval enc index sibling_sums n output ferret_one) (\<lambda>output.
     Inr (if n > index then output[index := output ! index OR NOT ferret_one] else output)))))))))"

definition GywzOtExtSend_ferret :: "cipher \<Rightarrow> ot_heap \<Rightarrow> OtSendStore \<Rightarrow> nat \<Rightarrow> 128 word \<Rightarrow> 128 word list \<Rightarrow>
    (128 word list \<times> 128 word list) ot_result" where
  "GywzOtExtSend_ferret enc h cot n seed output =
     followed (Log2Ceil (of_nat n)) (\<lambda>height.
     enforce (unat (send_Size cot) = height) (
     enforce (n > 1) (
     enforce (send_type cot = Compact) (
     followed (GetDelta cot) (\<lambda>delta.
     followed (CggmFullEval enc (delta AND ferret_one) (seed AND ferret_one) n output height ferret_one) (\<lambda>(output, left_sums).
     followed (collect (\<lambda>i. followed (send_GetBlock h cot (of_nat i) 1) (\<lambda>k. Inr (left_sums ! i XOR (k AND ferret_one)))) [0 ..< height])
       (\<lambda>msgs. Inr (output, msgs))))))))"

definition GywzOtExtRecv_fixed_index :: "cipher \<Rightarrow> ot_heap \<Rightarrow> OtRecvStore \<Rightarrow> nat \<Rightarrow> 128 word list \<Rightarrow> 128 word list \<Rightarrow> 128 word list ot_result" where
  "GywzOtExtRecv_fixed_index enc h cot n output recv_msgs =
     followed (Log2Ceil (of_nat n)) (\<lambda>height.
     enforce (unat (internal_use_size cot) = height) (
     enforce (n > 1) (
     enforce (length recv_msgs \<ge> height) (
     followed (choice_index h cot height) (\<lambda>index.
     followed (unmask_sums h cot (- 1) (take height recv_msgs)) (\<lambda>sibling_sums.
     CggmPuncFullEval enc index sibling_sums n output (- 1)))))))"

definition GywzOtExtSend_fixed_index :: "cipher \<Rightarrow> ot_heap \<Rightarrow> OtSendStore \<Rightarrow> nat \<Rightarrow> 128 word \<Rightarrow> 128 word list \<Rightarrow> nat \<Rightarrow>
    (128 word list \<times> 128 word list) ot_result" where
  "GywzOtExtSend_fixed_index enc h cot n seed output send_size =
     followed (Log2Ceil (of_nat n)) (\<lambda>height.
     enforce (unat (send_Size cot) = height) (
     enforce (n > 1) (
     enforce (send_size \<ge> height) (
     followed (GetDelta cot) (\<lambda>delta.
     followed (CggmFullEval enc delta seed n output send_size (- 1)) (\<lambda>(output, left_sums).
     followed (collect (\<lambda>i. followed (send_GetBlock h cot (of_nat i) 1) (\<lambda>k. Inr (left_sums ! i XOR k))) [0 ..< height])
       (\<lambda>msgs. Inr (output, msgs))))))))"

subsection \<open>The levels of the tree\<close>

lemma xor_sum_simps [simp]: "xor_sum [] s = s" "xor_sum (x # xs) s = xor_sum xs (s XOR x)"
  by (simp_all add: xor_sum_def)

lemma xor_sum_start: "xor_sum xs s = s XOR xor_sum xs 0"
proof (induction xs arbitrary: s)
  case (Cons x xs)
  have "xor_sum (x # xs) s = (s XOR x) XOR xor_sum xs 0" using Cons.IH [of "s XOR x"] by simp
  also have "\<dots> = s XOR xor_sum (x # xs) 0" using Cons.IH [of x] by (simp add: xor.assoc)
  finally show ?case .
qed simp

lemma xor_cancel [simp]: "a XOR (a XOR b) = b" for a b :: "128 word"
  by (simp flip: xor.assoc)

lemma xor_sum_update:
  assumes "p < length xs"
  shows "xor_sum (xs[p := v]) s = xor_sum xs s XOR (xs ! p XOR v)"
  using assms
proof (induction xs arbitrary: p s)
  case (Cons x xs)
  show ?case
  proof (cases p)
    case 0
    then show ?thesis using xor_sum_start [of xs "s XOR v"] xor_sum_start [of xs "s XOR x"] by (simp add: ac_simps)
  next
    case (Suc q)
    then show ?thesis using Cons.IH [of q "s XOR x"] Cons.prems by simp
  qed
qed simp

definition next_level :: "(128 word \<Rightarrow> 128 word) \<Rightarrow> 128 word list \<Rightarrow> 128 word list" where
  "next_level h W = map h W @ map (\<lambda>x. x XOR h x) W"

definition next_punc :: "(128 word \<Rightarrow> 128 word) \<Rightarrow> 128 word \<Rightarrow> nat \<Rightarrow> 128 word list \<Rightarrow> 128 word list" where
  "next_punc h sib p W =
     (let s = xor_sum (map h W) sib
      in (map h W)[p := h (W ! p) XOR s] @ (map (\<lambda>x. x XOR h x) W)[p := (W ! p XOR h (W ! p)) XOR s])"

text \<open>One level: the seed on the path moves to the child that the bit selects.\<close>

lemma next_punc_step:
  assumes "p < length W" and "sib = xor_sum (map h W) 0 XOR (if c then 0 else d)"
  shows "next_punc h sib p (W[p := W ! p XOR d])
    = (let V = next_level h W; q = (if c then length W + p else p) in V[q := V ! q XOR d])"
proof -
  let ?W = "W[p := W ! p XOR d]" and ?v = "h (W ! p XOR d)" and ?e = "if c then 0 else d"
  have m: "map h ?W = (map h W)[p := ?v]" by (rule map_update)
  have r: "map (\<lambda>x. x XOR h x) ?W = (map (\<lambda>x. x XOR h x) W)[p := (W ! p XOR d) XOR ?v]" by (rule map_update)
  have "xor_sum (map h ?W) sib = sib XOR (xor_sum (map h W) 0 XOR (h (W ! p) XOR ?v))"
    using xor_sum_update [of p "map h W" ?v sib] xor_sum_start [of "map h W" sib] assms(1)
    by (simp add: m xor.assoc)
  also have "\<dots> = ?e XOR (h (W ! p) XOR ?v)" unfolding assms(2) by (simp add: ac_simps)
  finally have s: "xor_sum (map h ?W) sib = ?e XOR (h (W ! p) XOR ?v)" .
  have l: "?v XOR (?e XOR (h (W ! p) XOR ?v)) = h (W ! p) XOR ?e" by (simp add: ac_simps)
  have rr: "((W ! p XOR d) XOR ?v) XOR (?e XOR (h (W ! p) XOR ?v)) = (W ! p XOR h (W ! p)) XOR (d XOR ?e)"
    by (simp add: ac_simps)
  have "next_punc h sib p ?W = (map h W)[p := h (W ! p) XOR ?e] @ (map (\<lambda>x. x XOR h x) W)[p := (W ! p XOR h (W ! p)) XOR (d XOR ?e)]"
    unfolding next_punc_def Let_def s using assms(1) by (simp add: m r l rr del: map_update)
  also have "\<dots> = (let V = next_level h W; q = (if c then length W + p else p) in V[q := V ! q XOR d])"
  proof (cases c)
    case True
    have "(map h W)[p := h (W ! p)] = map h W" using assms(1) by (metis list_update_id nth_map)
    with True assms(1) show ?thesis by (simp add: next_level_def Let_def list_update_append nth_append)
  next
    case False
    have "(map (\<lambda>x. x XOR h x) W)[p := W ! p XOR h (W ! p)] = map (\<lambda>x. x XOR h x) W" using assms(1) by (metis (no_types, lifting) list_update_id nth_map)
    with False assms(1) show ?thesis by (simp add: next_level_def Let_def list_update_append nth_append)
  qed
  finally show ?thesis .
qed

text \<open>The seeds at depth \<open>Suc L\<close>, the sums of the left children, and the punctured levels.\<close>

fun level_seeds :: "(128 word \<Rightarrow> 128 word) \<Rightarrow> 128 word \<Rightarrow> 128 word \<Rightarrow> nat \<Rightarrow> 128 word list" where
  "level_seeds h seed delta 0 = [seed, seed XOR delta]"
| "level_seeds h seed delta (Suc L) = next_level h (level_seeds h seed delta L)"

definition left_sum :: "(128 word \<Rightarrow> 128 word) \<Rightarrow> 128 word \<Rightarrow> 128 word \<Rightarrow> nat \<Rightarrow> 128 word" where
  "left_sum h seed delta i = (case i of 0 \<Rightarrow> seed | Suc L \<Rightarrow> xor_sum (map h (level_seeds h seed delta L)) 0)"

fun punc_seeds :: "(128 word \<Rightarrow> 128 word) \<Rightarrow> (nat \<Rightarrow> 128 word) \<Rightarrow> nat \<Rightarrow> nat \<Rightarrow> 128 word list" where
  "punc_seeds h sib index 0 = [sib 0, sib 0]"
| "punc_seeds h sib index (Suc L) = next_punc h (sib (Suc L)) (index mod 2 ^ Suc L) (punc_seeds h sib index L)"

lemma length_level_seeds [simp]: "length (level_seeds h seed delta L) = 2 ^ Suc L"
  by (induction L) (simp_all add: next_level_def)

lemma length_punc_seeds [simp]: "length (punc_seeds h sib index L) = 2 ^ Suc L"
  by (induction L) (simp_all add: next_punc_def Let_def)

lemma bit_mod_Suc: "(n :: nat) mod 2 ^ Suc k = n mod 2 ^ k + (if bit n k then 2 ^ k else 0)"
  by (simp add: bit_iff_odd mod_mult2_eq [of n "2 ^ k" 2, simplified mult.commute] odd_iff_mod_2_eq_one split: if_splits)

lemma punc_seeds_level:
  assumes "\<forall>i \<le> L. sib i = left_sum h seed delta i XOR (if bit index i then 0 else delta)"
  shows "punc_seeds h sib index L = (let V = level_seeds h seed delta L; q = index mod 2 ^ Suc L in V[q := V ! q XOR delta])"
  using assms
proof (induction L)
  case 0
  then have "sib 0 = seed XOR (if bit index 0 then 0 else delta)" by (simp add: left_sum_def)
  then show ?case by (cases "odd index") (simp_all add: bit_0 Let_def odd_iff_mod_2_eq_one even_iff_mod_2_eq_zero xor.assoc)
next
  case (Suc L)
  let ?W = "level_seeds h seed delta L" and ?p = "index mod 2 ^ Suc L"
  have "sib (Suc L) = left_sum h seed delta (Suc L) XOR (if bit index (Suc L) then 0 else delta)"
    using Suc.prems by (meson order_refl)
  then have s: "sib (Suc L) = xor_sum (map h ?W) 0 XOR (if bit index (Suc L) then 0 else delta)"
    by (simp add: left_sum_def)
  have IH: "punc_seeds h sib index L = ?W[?p := ?W ! ?p XOR delta]" using Suc.IH Suc.prems by (simp add: Let_def)
  have p: "?p < length ?W" by simp
  have q: "index mod 2 ^ Suc (Suc L) = (if bit index (Suc L) then length ?W + ?p else ?p)"
    using bit_mod_Suc [of index "Suc L"] by simp
  show ?case using next_punc_step [OF p s] by (simp only: punc_seeds.simps level_seeds.simps IH q)
qed

text \<open>The sum over a level is the offset.\<close>

lemma xor_sum_append: "xor_sum (xs @ ys) s = xor_sum ys (xor_sum xs s)"
  by (simp add: xor_sum_def)

lemma xor_sum_map_xor: "xor_sum (map (\<lambda>x. x XOR h x) W) s = s XOR (xor_sum W 0 XOR xor_sum (map h W) 0)"
proof (induction W arbitrary: s)
  case (Cons x W)
  show ?case
    using Cons.IH [of "s XOR (x XOR h x)"] xor_sum_start [of W x] xor_sum_start [of "map h W" "h x"] by (simp add: ac_simps)
qed simp

lemma level_sum: "xor_sum (level_seeds h seed delta L) 0 = delta"
proof (induction L)
  case (Suc L)
  let ?W = "level_seeds h seed delta L"
  have "xor_sum (next_level h ?W) 0 = xor_sum (map h ?W) 0 XOR (xor_sum ?W 0 XOR xor_sum (map h ?W) 0)"
    by (simp add: next_level_def xor_sum_append xor_sum_map_xor)
  then show ?case using Suc.IH by (simp add: ac_simps)
qed simp

subsection \<open>The arrays hold the levels\<close>

lemma run_levels_snoc: "run_levels f (ls @ [l]) st = followed (run_levels f ls st) (f l)"
proof (induction ls arbitrary: st)
  case Nil
  show ?case by (cases "f l st") simp_all
next
  case (Cons a ls)
  then show ?case by (cases "f a st") simp_all
qed

text \<open>
  Any function on levels that writes the two halves of level \<open>k\<close> with \<open>put_halves\<close>: after all levels
  and the copy, the array starts with the first \<open>n\<close> seeds of the last level, and the rest of it is
  untouched.
\<close>

lemma tree_run:
  assumes step: "\<And>k msgs extra. 1 \<le> k \<Longrightarrow> k < height \<Longrightarrow> take (2 ^ k) msgs = V (k - 1) \<Longrightarrow>
      \<exists>l r. f k ((msgs, extra), X k) = followed (put_halves (\<not> two \<and> k = height - 1) (2 ^ k) l r (msgs, extra)) (\<lambda>st. Inr (st, X (Suc k)))
        \<and> l @ r = V k \<and> length l = 2 ^ k \<and> length r = 2 ^ k"
    and V: "\<And>k. length (V k) = 2 ^ Suc k"
    and n: "two \<longleftrightarrow> n = 2 ^ height" "2 ^ (height - 1) < n" "n \<le> 2 ^ height" "n \<le> length msgs" "1 \<le> height"
  shows "\<exists>st. run_levels f [1 ..< height] ((V 0 @ drop 2 msgs, []), X 1) = Inr (st, X height)
    \<and> copy_extra two n (2 ^ (height - 1)) st = Inr (take n (V (height - 1)) @ drop n msgs)"
proof -
  have in_place: "run_levels f [1 ..< k] ((V 0 @ drop 2 msgs, []), X 1) = Inr ((V (k - 1) @ drop (2 ^ k) msgs, []), X k)"
    if "1 \<le> k" "if two then k \<le> height else k < height" for k
    using that
  proof (induction k)
    case (Suc k)
    show ?case
    proof (cases "k = 0")
      case False
      then have k: "1 \<le> k" "k < height" "two \<or> k \<noteq> height - 1" using Suc.prems by (simp_all split: if_splits)
      let ?m = "V (k - 1) @ drop (2 ^ k) msgs"
      have IH: "run_levels f [1 ..< k] ((V 0 @ drop 2 msgs, []), X 1) = Inr ((?m, []), X k)"
        by (rule Suc.IH) (use k Suc.prems in \<open>simp_all split: if_splits\<close>)
      have pk: "2 ^ Suc (k - 1) = (2 :: nat) ^ k" using k(1) by simp
      have "(2 :: nat) ^ Suc k \<le> 2 ^ height" using k(2) by (intro power_increasing) simp_all
      moreover have "\<not> two \<Longrightarrow> (2 :: nat) ^ Suc k \<le> 2 ^ (height - 1)" using k by (intro power_increasing) simp_all
      ultimately have big: "2 ^ Suc k \<le> length msgs" using n by (cases two) simp_all
      have Vk: "length (V (k - 1)) = 2 ^ k" using V pk by simp
      have len: "2 * 2 ^ k \<le> length ?m" using big Vk by simp
      have t: "take (2 ^ k) ?m = V (k - 1)" using Vk by simp
      obtain l r where f: "f k ((?m, []), X k) = followed (put_halves (\<not> two \<and> k = height - 1) (2 ^ k) l r (?m, [])) (\<lambda>st. Inr (st, X (Suc k)))"
        "l @ r = V k" "length l = 2 ^ k" "length r = 2 ^ k" using step [OF k(1,2) t] by blast
      have "drop (2 * 2 ^ k) ?m = drop (2 ^ Suc k) msgs" using Vk by (simp add: mult_2)
      with f len k(3) have "f k ((?m, []), X k) = Inr ((V k @ drop (2 ^ Suc k) msgs, []), X (Suc k))"
        by (auto simp: put_halves_def simp flip: f(2))
      then show ?thesis using k(1) IH by (simp add: run_levels_snoc)
    qed simp
  qed simp
  show ?thesis
  proof (cases two)
    case True
    then show ?thesis using in_place [of height] n V [of "height - 1"] by (simp add: copy_extra_def)
  next
    case False
    have h: "height \<noteq> 1" using n False by auto
    let ?k = "height - 1"
    let ?m = "V (?k - 1) @ drop (2 ^ ?k) msgs"
    have k: "1 \<le> ?k" "?k < height" using h n(5) by simp_all
    have "Suc (?k - 1) = ?k" using k(1) by simp
    then have pk: "2 ^ Suc (?k - 1) = (2 :: nat) ^ ?k" by (simp only:)
    have Vk: "length (V (?k - 1)) = 2 ^ ?k" using V pk by simp
    then have t: "take (2 ^ ?k) ?m = V (?k - 1)" by simp
    obtain l r where f: "f ?k ((?m, []), X ?k) = followed (put_halves (\<not> two \<and> ?k = height - 1) (2 ^ ?k) l r (?m, [])) (\<lambda>st. Inr (st, X (Suc ?k)))"
      "l @ r = V ?k" "length l = 2 ^ ?k" "length r = 2 ^ ?k" using step [OF k t] by blast
    have u: "[1 ..< height] = [1 ..< ?k] @ [?k]" using upt_Suc_append [OF k(1)] k by simp
    have r: "run_levels f [1 ..< ?k] ((V 0 @ drop 2 msgs, []), X 1) = Inr ((?m, []), X ?k)" using in_place [of ?k] k False by simp
    have d: "drop (2 ^ ?k) ?m = drop (2 ^ ?k) msgs" using Vk by simp
    have "f ?k ((?m, []), X ?k) = Inr ((l @ drop (2 ^ ?k) msgs, r), X height)"
      using f(1) False d k Vk by (simp add: put_halves_def)
    then have run: "run_levels f [1 ..< height] ((V 0 @ drop 2 msgs, []), X 1) = Inr ((l @ drop (2 ^ ?k) msgs, r), X height)"
      unfolding u run_levels_snoc r by simp
    have "2 ^ height = 2 * (2 :: nat) ^ ?k" using n(5) by (cases height) simp_all
    then have "take n (V ?k) = l @ take (n - 2 ^ ?k) r" unfolding f(2) [symmetric] using n(2,3) f(3) by simp
    moreover have "copy_extra two n (2 ^ ?k) (l @ drop (2 ^ ?k) msgs, r) = Inr (l @ take (n - 2 ^ ?k) r @ drop n msgs)"
      using False n(2,3,4) f(3,4) \<open>2 ^ height = 2 * (2 :: nat) ^ ?k\<close> by (simp add: copy_extra_def)
    ultimately show ?thesis using run by auto
  qed
qed

subsection \<open>The height\<close>

lemma bit_width_bounds: "0 < n \<Longrightarrow> 2 ^ (bit_width n - 1) \<le> n \<and> n < 2 ^ bit_width n \<and> 0 < bit_width n"
proof (induction n rule: less_induct)
  case (less n)
  have w: "bit_width n = Suc (bit_width (n div 2))" using less.prems by (subst bit_width.simps) simp
  show ?case
  proof (cases "n = 1")
    case True
    have "bit_width 0 = 0" by (subst bit_width.simps) simp
    with True w show ?thesis by simp
  next
    case False
    then have "0 < n div 2" using less.prems by (simp add: div_greater_zero_iff)
    then have IH: "2 ^ (bit_width (n div 2) - 1) \<le> n div 2" "n div 2 < 2 ^ bit_width (n div 2)" "0 < bit_width (n div 2)"
      using less.IH [of "n div 2"] less.prems by simp_all
    then have "2 ^ bit_width (n div 2) = 2 * (2 :: nat) ^ (bit_width (n div 2) - 1)" by (cases "bit_width (n div 2)") simp_all
    moreover have "n = 2 * (n div 2) + n mod 2" "n mod 2 < 2" by simp_all
    ultimately have "2 ^ bit_width (n div 2) \<le> n" "n < 2 * 2 ^ bit_width (n div 2)" using IH by linarith+
    then show ?thesis unfolding w by simp
  qed
qed

lemma bit_width_le:
  assumes "n < 2 ^ k"
  shows "bit_width n \<le> k"
proof (rule ccontr)
  assume c: "\<not> bit_width n \<le> k"
  then have "0 < n" by (cases n) (simp_all add: bit_width.simps [of 0])
  then have "2 ^ (bit_width n - 1) \<le> n" using bit_width_bounds by blast
  moreover have "(2 :: nat) ^ k \<le> 2 ^ (bit_width n - 1)" using c by (intro power_increasing) simp_all
  ultimately show False using assms by linarith
qed

lemma Log2Ceil_ok:
  assumes "1 < n" and "n < 2 ^ 32"
  shows "\<exists>height. Log2Ceil (of_nat n) = Inr height \<and> 1 \<le> height \<and> height \<le> 32 \<and> 2 ^ (height - 1) < n \<and> n \<le> 2 ^ height"
proof -
  have u: "unat (of_nat n :: 64 word) = n" using assms(2) by (simp add: unat_of_nat)
  then have nz: "(of_nat n :: 64 word) \<noteq> 0" "(of_nat n :: 64 word) \<noteq> 1" using assms(1) by auto
  have m: "unat (of_nat n - 1 :: 64 word) = n - 1" using u nz(1) by (simp add: unat_minus_one)
  then have mz: "(of_nat n - 1 :: 64 word) \<noteq> 0" using assms(1) by auto
  have w: "bit_width (n - 1) \<le> 32" using assms(2) by (intro bit_width_le) simp
  have b: "2 ^ (bit_width (n - 1) - 1) \<le> n - 1" "n - 1 < 2 ^ bit_width (n - 1)" "0 < bit_width (n - 1)"
    using bit_width_bounds [of "n - 1"] assms(1) by simp_all
  have "Log2Floor (of_nat n - 1) = Inr (bit_width (n - 1) - 1)" using mz w by (simp add: Log2Floor_def countl_zero_def m)
  then have "Log2Ceil (of_nat n) = Inr (bit_width (n - 1))" using nz b(3) by (simp add: Log2Ceil_def)
  with b w assms(1) show ?thesis by (intro exI [of _ "bit_width (n - 1)"]) (simp, linarith)
qed

lemma height_small:
  fixes n :: nat
  assumes "2 ^ (height - 1) < n" and "n \<le> 2 ^ 31"
  shows "height < 32"
proof (rule ccontr)
  assume "\<not> height < 32"
  then have "(2 :: nat) ^ 31 \<le> 2 ^ (height - 1)" by (intro power_increasing) simp_all
  with assms show False by linarith
qed

subsection \<open>The two expansions\<close>

text \<open>The function that gives the left child.\<close>

definition left_child :: "cipher \<Rightarrow> 128 word \<Rightarrow> 128 word \<Rightarrow> 128 word" where
  "left_child enc one x = CrHash_128 enc (sigma_lane x) AND one"

lemma left_half:
  assumes "ecb_mode enc"
  shows "map (\<lambda>x. x AND one) (ParaCcrHashInplace_128 enc W) = map (left_child enc one) W"
    and "map2 (XOR) W (map (left_child enc one) W) = map (\<lambda>x. x XOR left_child enc one x) W"
proof -
  show "map (\<lambda>x. x AND one) (ParaCcrHashInplace_128 enc W) = map (left_child enc one) W"
    by (simp add: ParaCcrHashInplace_map [OF assms] left_child_def)
  show "map2 (XOR) W (map (left_child enc one) W) = map (\<lambda>x. x XOR left_child enc one x) W"
    by (induction W) simp_all
qed

lemma update_two: "2 \<le> length xs \<Longrightarrow> xs[0 := a, 1 := b] = [a, b] @ drop 2 xs"
  by (cases xs; cases "tl xs") simp_all

theorem CggmFullEval_leaves:
  assumes "ecb_mode enc" and n: "Log2Ceil (of_nat n) = Inr height" "1 \<le> height" "height < 32" "2 ^ (height - 1) < n" "n \<le> 2 ^ height"
    and "n \<le> length all_msgs"
  shows "CggmFullEval enc delta seed n all_msgs height one =
    Inr (take n (level_seeds (left_child enc one) (seed AND one) (delta AND one) (height - 1)) @ drop n all_msgs,
         map (left_sum (left_child enc one) (seed AND one) (delta AND one)) [0 ..< height])"
proof -
  let ?h = "left_child enc one" and ?s = "seed AND one" and ?d = "delta AND one"
  let ?f = "full_level enc one (n = 2 ^ height) height"
  have "\<exists>st. run_levels ?f [1 ..< height] ((level_seeds ?h ?s ?d 0 @ drop 2 all_msgs, []), map (left_sum ?h ?s ?d) [0 ..< 1])
      = Inr (st, map (left_sum ?h ?s ?d) [0 ..< height])
    \<and> copy_extra (n = 2 ^ height) n (2 ^ (height - 1)) st = Inr (take n (level_seeds ?h ?s ?d (height - 1)) @ drop n all_msgs)"
  proof (rule tree_run)
    fix k :: nat and msgs extra
    assume "1 \<le> k"
    then obtain L where L: "k = Suc L" by (cases k) simp_all
    let ?W = "level_seeds ?h ?s ?d L"
    assume "take (2 ^ k) msgs = level_seeds ?h ?s ?d (k - 1)"
    then have t: "take (2 ^ Suc L) msgs = ?W" by (simp add: L)
    show "\<exists>l r. ?f k ((msgs, extra), map (left_sum ?h ?s ?d) [0 ..< k]) =
        followed (put_halves (n \<noteq> 2 ^ height \<and> k = height - 1) (2 ^ k) l r (msgs, extra)) (\<lambda>st. Inr (st, map (left_sum ?h ?s ?d) [0 ..< Suc k]))
        \<and> l @ r = level_seeds ?h ?s ?d k \<and> length l = 2 ^ k \<and> length r = 2 ^ k"
      by (intro exI [of _ "map ?h ?W"] exI [of _ "map (\<lambda>x. x XOR ?h x) ?W"])
        (simp add: full_level_def L t [simplified] left_half [OF assms(1)] Let_def left_sum_def next_level_def)
  qed (use n assms in simp_all)
  moreover have "(1 :: nat) \<le> 2 ^ (height - 1)" by simp
  then have "2 \<le> length all_msgs" using n(4) assms(7) by linarith
  ultimately show ?thesis
    using n(1,2,3) assms(7) update_two [of all_msgs ?s "?s XOR ?d"] by (auto simp: CggmFullEval_def Let_def left_sum_def)
qed

lemma index_bit: "index mod 2 ^ k OR (index AND 2 ^ k) = (index :: nat) mod 2 ^ Suc k"
  unfolding take_bit_eq_mod [symmetric] by (rule bit_eqI) (auto simp: bit_simps less_Suc_eq)

theorem CggmPuncFullEval_leaves:
  assumes "ecb_mode enc" and n: "length sib = height" "1 \<le> height" "height < 32" "2 ^ (height - 1) < n" "n \<le> 2 ^ height"
    and "n \<le> length msgs"
  shows "CggmPuncFullEval enc index sib n msgs one =
    Inr (take n (punc_seeds (left_child enc one) (\<lambda>i. if i = 0 then sib ! 0 AND one else sib ! i) index (height - 1)) @ drop n msgs)"
proof -
  let ?h = "left_child enc one" and ?s = "\<lambda>i. if i = 0 then sib ! 0 AND one else sib ! i"
  let ?f = "punc_level enc one index sib (n = 2 ^ height) height"
  have "\<exists>st. run_levels ?f [1 ..< height] ((punc_seeds ?h ?s index 0 @ drop 2 msgs, []), index mod 2 ^ 1) = Inr (st, index mod 2 ^ height)
    \<and> copy_extra (n = 2 ^ height) n (2 ^ (height - 1)) st = Inr (take n (punc_seeds ?h ?s index (height - 1)) @ drop n msgs)"
  proof (rule tree_run)
    fix k :: nat and ms extra
    assume "1 \<le> k"
    then obtain L where L: "k = Suc L" by (cases k) simp_all
    let ?W = "punc_seeds ?h ?s index L" and ?p = "index mod 2 ^ Suc L"
    assume "take (2 ^ k) ms = punc_seeds ?h ?s index (k - 1)"
    then have t: "take (2 ^ Suc L) ms = ?W" by (simp add: L)
    let ?x = "xor_sum (map ?h ?W) (sib ! Suc L)"
    have p: "?p < length ?W" by simp
    show "\<exists>l r. ?f k ((ms, extra), index mod 2 ^ k) =
        followed (put_halves (n \<noteq> 2 ^ height \<and> k = height - 1) (2 ^ k) l r (ms, extra)) (\<lambda>st. Inr (st, index mod 2 ^ Suc k))
        \<and> l @ r = punc_seeds ?h ?s index k \<and> length l = 2 ^ k \<and> length r = 2 ^ k"
      by (intro exI [of _ "(map ?h ?W)[?p := ?h (?W ! ?p) XOR ?x]"]
          exI [of _ "(map (\<lambda>x. x XOR ?h x) ?W)[?p := (?W ! ?p XOR ?h (?W ! ?p)) XOR ?x]"] conjI)
        (simp_all only: punc_level_def L prod.case Let_def t left_half [OF assms(1)] index_bit nth_map [OF p] punc_seeds.simps
          next_punc_def length_list_update length_map length_punc_seeds nat.simps if_False)
  qed (use n assms in simp_all)
  moreover have "(1 :: nat) \<le> 2 ^ (height - 1)" by simp
  then have "2 \<le> length msgs" using n(4) assms(7) by linarith
  ultimately show ?thesis
    using n(1,2,3) assms(7) update_two [of msgs "sib ! 0 AND one" "sib ! 0 AND one"]
    by (auto simp: CggmPuncFullEval_def Let_def and_one_eq)
qed

subsection \<open>Correctness of the protocols\<close>

lemma collect_map: "(\<And>x. x \<in> set xs \<Longrightarrow> f x = Inr (g x)) \<Longrightarrow> collect f xs = Inr (map g xs)"
  by (induction xs) simp_all

lemma cot_values:
  assumes "cot_pair hs s hr r"
  shows "\<exists>K b. \<forall>i < rsize r. recv_GetChoice hr r (of_nat i) = Inr (b i)
    \<and> recv_GetBlock hr r (of_nat i) = Inr (K i XOR (if b i then send_delta s else 0))
    \<and> (\<forall>x. send_GetBlock hs s (of_nat i) (of_bool x) = Inr (K i XOR (if x then send_delta s else 0)))"
proof -
  have c: "send_delta s \<noteq> 0" "send_ok hs s" "send_Size s = internal_use_size r"
    and rel: "\<And>i. i < internal_use_size r \<Longrightarrow> \<exists>b. recv_GetChoice hr r i = Inr b \<and> recv_GetBlock hr r i = send_GetBlock hs s i (of_bool b)"
    using assms by (simp_all add: cot_pair_def)
  obtain blk where blk: "deref (blk_bufs hs) (send_blk_buf s) = Inr blk" "inside s blk" using c(2) by (auto simp: send_ok_def)
  have lt: "of_nat i < internal_use_size r" if "i < rsize r" for i
  proof -
    have "rsize r < 2 ^ 64" unfolding rsize_def using unsigned_less [of "internal_use_size r"] by simp
    then have "unat (of_nat i :: 64 word) = i" using that by (simp add: unat_of_nat)
    then show ?thesis using that by (simp add: word_less_nat_alt rsize_def)
  qed
  define K where "K i = blk ! position s (unat (of_nat i :: 64 word) * blk_num s)" for i :: nat
  have S: "send_GetBlock hs s (of_nat i) (of_bool x) = Inr (K i XOR (if x then send_delta s else 0))" if "i < rsize r" for i x
    unfolding K_def by (rule send_GetBlock_cot [OF blk c(1)]) (use lt [OF that] c(3) in simp)
  define b where "b i = (SOME b. recv_GetChoice hr r (of_nat i) = Inr b \<and> recv_GetBlock hr r (of_nat i) = send_GetBlock hs s (of_nat i) (of_bool b))" for i :: nat
  have B: "recv_GetChoice hr r (of_nat i) = Inr (b i) \<and> recv_GetBlock hr r (of_nat i) = send_GetBlock hs s (of_nat i) (of_bool (b i))"
    if "i < rsize r" for i unfolding b_def by (rule someI_ex) (rule rel [OF lt [OF that]])
  show ?thesis using S B by (intro exI [of _ K] exI [of _ b]) simp
qed

text \<open>
  Both sides at once: the sums of the sender, corrected by the receiver to the sums of the siblings,
  give outputs that differ at the index only.
\<close>

lemma cggm_outputs:
  assumes "ecb_mode enc" and n: "Log2Ceil (of_nat n) = Inr height" "1 \<le> height" "height < 32" "2 ^ (height - 1) < n" "n \<le> 2 ^ height"
    and len: "n \<le> length out_s" "n \<le> length out_r" and idx: "index < 2 ^ height"
  obtains os sums where "CggmFullEval enc delta seed n out_s height one = Inr (os, sums)" and "length sums = height"
    and "\<forall>i < height. sums ! i AND one = sums ! i"
    and "\<forall>sib. length sib = height \<and> (\<forall>i < height. sib ! i = sums ! i XOR (if bit index i then 0 else delta AND one)) \<longrightarrow>
        (\<exists>or. CggmPuncFullEval enc index sib n out_r one = Inr or \<and> length or = length out_r
          \<and> (\<forall>i < n. os ! i AND one = os ! i \<and> or ! i = os ! i XOR (if i = index then delta AND one else 0)))"
proof -
  let ?h = "left_child enc one" and ?s = "seed AND one" and ?d = "delta AND one"
  let ?V = "level_seeds ?h ?s ?d (height - 1)"
  define sums where "sums = map (left_sum ?h ?s ?d) [0 ..< height]"
  have full: "CggmFullEval enc delta seed n out_s height one = Inr (take n ?V @ drop n out_s, sums)"
    unfolding sums_def by (rule CggmFullEval_leaves [OF assms(1) n len(1)])
  have masked: "x AND one = x \<Longrightarrow> y AND one = y \<Longrightarrow> (x XOR y) AND one = x XOR y" for x y by (metis and.commute bit.conj_xor_distrib)
  have hm: "?h x AND one = ?h x" for x by (simp add: left_child_def and.assoc)
  have sd: "?s AND one = ?s" "?d AND one = ?d" by (simp_all add: and.assoc)
  have seeds: "\<forall>x \<in> set (level_seeds ?h ?s ?d L). x AND one = x" for L
  proof (induction L)
    case 0
    show ?case using sd masked [OF sd] by simp
  next
    case (Suc L)
    show ?case
    proof
      fix x assume "x \<in> set (level_seeds ?h ?s ?d (Suc L))"
      then obtain w where w: "w \<in> set (level_seeds ?h ?s ?d L)" "x = ?h w \<or> x = w XOR ?h w" by (auto simp: next_level_def)
      have "w AND one = w" using Suc w(1) by blast
      then show "x AND one = x" using w(2) hm masked by blast
    qed
  qed
  have smask: "xor_sum xs z AND one = xor_sum xs z" if "\<forall>x \<in> set xs. x AND one = x" "z AND one = z" for xs z
    using that by (induction xs arbitrary: z) (simp_all add: masked)
  have lmask: "left_sum ?h ?s ?d i AND one = left_sum ?h ?s ?d i" for i
    by (cases i) (simp_all add: left_sum_def and.assoc smask hm)
  have V: "length ?V = 2 ^ height" using n(2) by simp
  have "\<exists>or. CggmPuncFullEval enc index sib n out_r one = Inr or \<and> length or = length out_r
      \<and> (\<forall>i < n. (take n ?V @ drop n out_s) ! i AND one = (take n ?V @ drop n out_s) ! i
        \<and> or ! i = (take n ?V @ drop n out_s) ! i XOR (if i = index then ?d else 0))"
    if sib: "length sib = height" "\<forall>i < height. sib ! i = sums ! i XOR (if bit index i then 0 else ?d)" for sib
  proof -
    let ?sib = "\<lambda>i. if i = 0 then sib ! 0 AND one else sib ! i"
    have s: "sib ! i = left_sum ?h ?s ?d i XOR (if bit index i then 0 else ?d)" if "i < height" for i
      using sib(2) that by (simp add: sums_def)
    have e0: "sib ! 0 AND one = sib ! 0"
      unfolding s [OF less_le_trans [OF zero_less_one n(2)]] by (rule masked [OF lmask]) (use sd in simp)
    have "\<forall>i \<le> height - 1. ?sib i = left_sum ?h ?s ?d i XOR (if bit index i then 0 else ?d)"
    proof (intro allI impI)
      fix i assume "i \<le> height - 1"
      then have "i < height" using n(2) by linarith
      then show "?sib i = left_sum ?h ?s ?d i XOR (if bit index i then 0 else ?d)" using s [of i] e0 by (cases "i = 0") simp_all
    qed
    from punc_seeds_level [OF this] have P: "punc_seeds ?h ?sib index (height - 1) = ?V[index := ?V ! index XOR ?d]"
      using n(2) idx by (simp add: Let_def)
    let ?or = "take n (?V[index := ?V ! index XOR ?d]) @ drop n out_r"
    have "CggmPuncFullEval enc index sib n out_r one = Inr ?or"
      using CggmPuncFullEval_leaves [OF assms(1) sib(1) n(2,3,4,5) len(2), of index one] unfolding P .
    moreover have "length ?or = length out_r" using len(2) n(5) V by simp
    moreover have "(take n ?V @ drop n out_s) ! i AND one = (take n ?V @ drop n out_s) ! i
        \<and> ?or ! i = (take n ?V @ drop n out_s) ! i XOR (if i = index then ?d else 0)" if i: "i < n" for i
    proof -
      have iV: "i < length ?V" using i V n(5) by simp
      then have "?V ! i AND one = ?V ! i" using seeds nth_mem by blast
      moreover have "(take n ?V @ drop n out_s) ! i = ?V ! i" "?or ! i = (?V[index := ?V ! index XOR ?d]) ! i"
        using i iV by (simp_all add: nth_append)
      ultimately show ?thesis using iV by (simp add: nth_list_update)
    qed
    ultimately show ?thesis by blast
  qed
  then have punctured: "\<forall>sib. length sib = height \<and> (\<forall>i < height. sib ! i = sums ! i XOR (if bit index i then 0 else ?d)) \<longrightarrow>
        (\<exists>or. CggmPuncFullEval enc index sib n out_r one = Inr or \<and> length or = length out_r
          \<and> (\<forall>i < n. (take n ?V @ drop n out_s) ! i AND one = (take n ?V @ drop n out_s) ! i
            \<and> or ! i = (take n ?V @ drop n out_s) ! i XOR (if i = index then ?d else 0)))"
    by (intro allI impI) (elim conjE)
  show ?thesis by (rule that [OF full _ _ punctured]) (simp_all add: sums_def lmask)
qed

text \<open>What the two stores hold, for the height of the tree.\<close>

definition cot_holds :: "ot_heap \<Rightarrow> OtSendStore \<Rightarrow> ot_heap \<Rightarrow> OtRecvStore \<Rightarrow> nat \<Rightarrow> (nat \<Rightarrow> 128 word) \<Rightarrow> (nat \<Rightarrow> bool) \<Rightarrow> bool" where
  "cot_holds hs s hr r height K b \<longleftrightarrow> send_delta s \<noteq> 0 \<and> unat (internal_use_size r) = height \<and> unat (send_Size s) = height
     \<and> (\<forall>i < height. recv_GetChoice hr r (of_nat i) = Inr (b i)
       \<and> recv_GetBlock hr r (of_nat i) = Inr (K i XOR (if b i then send_delta s else 0))
       \<and> (\<forall>x. send_GetBlock hs s (of_nat i) (of_bool x) = Inr (K i XOR (if x then send_delta s else 0))))"

lemma cot_setup:
  assumes "cot_pair hs s hr r" and "Log2Ceil (of_nat n) = Inr (rsize r)" and "1 < n" and "n \<le> 2 ^ 31"
  obtains height K b where "rsize r = height" and "Log2Ceil (of_nat n) = Inr height" and "1 \<le> height" and "height < 32"
    and "2 ^ (height - 1) < n" and "n \<le> 2 ^ height" and "cot_holds hs s hr r height K b"
proof -
  obtain height where h: "Log2Ceil (of_nat n) = Inr height" "1 \<le> height" "2 ^ (height - 1) < n" "n \<le> 2 ^ height"
    using Log2Ceil_ok [of n] assms(3,4) by auto
  have hr: "rsize r = height" using h(1) assms(2) by simp
  have h32: "height < 32" using height_small [OF h(3) assms(4)] .
  obtain K b where "\<forall>i < rsize r. recv_GetChoice hr r (of_nat i) = Inr (b i)
    \<and> recv_GetBlock hr r (of_nat i) = Inr (K i XOR (if b i then send_delta s else 0))
    \<and> (\<forall>x. send_GetBlock hs s (of_nat i) (of_bool x) = Inr (K i XOR (if x then send_delta s else 0)))"
    using cot_values [OF assms(1)] by blast
  then have "cot_holds hs s hr r height K b" using assms(1) hr by (simp add: cot_holds_def cot_pair_def rsize_def)
  with that h hr h32 show ?thesis by blast
qed

lemma cot_holdsD:
  assumes "cot_holds hs s hr r height K b"
  shows "send_delta s \<noteq> 0" and "unat (internal_use_size r) = height" and "unat (send_Size s) = height"
    and "\<And>i. i < height \<Longrightarrow> recv_GetChoice hr r (of_nat i) = Inr (b i)"
    and "\<And>i. i < height \<Longrightarrow> recv_GetBlock hr r (of_nat i) = Inr (K i XOR (if b i then send_delta s else 0))"
    and "\<And>i x. i < height \<Longrightarrow> send_GetBlock hs s (of_nat i) (of_bool x) = Inr (K i XOR (if x then send_delta s else 0))"
  using assms by (simp_all add: cot_holds_def)

lemma unmask_sums_ok:
  assumes "length sums = height" and "\<And>i. i < height \<Longrightarrow> recv_GetBlock h r (of_nat i) = Inr (M i)"
  shows "unmask_sums h r one sums = Inr (map (\<lambda>i. sums ! i XOR (M i AND one)) [0 ..< height])"
  unfolding unmask_sums_def assms(1) by (rule collect_map) (simp add: assms(2))

lemma one_minus: "(1 :: 64 word) - of_bool x = of_bool (\<not> x)"
  by (cases x) simp_all

theorem gywz_correct:
  assumes "ecb_mode enc" and "cot_pair hs s hr r" and "Log2Ceil (of_nat n) = Inr (rsize r)"
    and "1 < n" and "n \<le> 2 ^ 31" and "index < n" and "n \<le> length out_s" and "n \<le> length out_r"
  shows "\<exists>masked os msgs or. GywzOtExtRecv_choice hr r n index = Inr masked
    \<and> GywzOtExtSend enc hs s n seed out_s masked = Inr (os, msgs) \<and> GywzOtExtRecv enc hr r n index out_r msgs = Inr or
    \<and> (\<forall>i < n. or ! i = os ! i XOR (if i = index then send_delta s else 0))"
proof -
  let ?d = "send_delta s"
  obtain height K b where hr: "rsize r = height" and h: "Log2Ceil (of_nat n) = Inr height" "1 \<le> height" and h32: "height < 32"
    and hn: "2 ^ (height - 1) < n" "n \<le> 2 ^ height" and H: "cot_holds hs s hr r height K b"
    using cot_setup [OF assms(2,3,4,5)] .
  note c = cot_holdsD(1) [OF H] and sz = cot_holdsD(2,3) [OF H] and C = cot_holdsD(4) [OF H] and M = cot_holdsD(5) [OF H] and S = cot_holdsD(6) [OF H]
  have idx: "index < 2 ^ height" using assms(6) hn(2) by simp
  define masked where "masked = map (\<lambda>i. bit index i \<noteq> b i) [0 ..< height]"
  have mc: "GywzOtExtRecv_choice hr r n index = Inr masked"
    using collect_map [of "[0 ..< height]" _ "\<lambda>i. bit index i \<noteq> b i"] C h(1) sz assms(4,6)
    by (simp add: GywzOtExtRecv_choice_def masked_def)
  obtain os sums where F: "CggmFullEval enc ?d seed n out_s height (- 1) = Inr (os, sums)"
    and "length sums = height" and "\<forall>i < height. sums ! i AND - 1 = sums ! i"
    and P: "\<forall>sib. length sib = height \<and> (\<forall>i < height. sib ! i = sums ! i XOR (if bit index i then 0 else ?d AND - 1)) \<longrightarrow>
      (\<exists>or. CggmPuncFullEval enc index sib n out_r (- 1) = Inr or \<and> length or = length out_r
        \<and> (\<forall>i < n. os ! i AND - 1 = os ! i \<and> or ! i = os ! i XOR (if i = index then ?d AND - 1 else 0)))"
    using cggm_outputs [OF assms(1) h h32 hn assms(7,8) idx, of ?d seed "- 1"] .
  define msgs where "msgs = map (\<lambda>i. sums ! i XOR (K i XOR (if \<not> masked ! i then ?d else 0))) [0 ..< height]"
  have "collect (\<lambda>i. followed (send_GetBlock hs s (of_nat i) (1 - of_bool (masked ! i))) (\<lambda>k. Inr (sums ! i XOR k))) [0 ..< height] = Inr msgs"
    unfolding msgs_def by (rule collect_map) (simp add: one_minus S)
  then have send: "GywzOtExtSend enc hs s n seed out_s masked = Inr (os, msgs)"
    using h(1) sz(2) assms(4) c F by (simp add: GywzOtExtSend_def GetDelta_def masked_def)
  define sib where "sib = map (\<lambda>i. msgs ! i XOR ((K i XOR (if b i then ?d else 0)) AND - 1)) [0 ..< height]"
  have un: "unmask_sums hr r (- 1) msgs = Inr sib"
    unfolding sib_def by (rule unmask_sums_ok) (simp_all only: msgs_def length_map length_upt diff_zero M)
  have "sib ! i = sums ! i XOR (if bit index i then 0 else ?d AND - 1)" if "i < height" for i
    using that by (cases "bit index i"; cases "b i") (simp_all add: sib_def msgs_def masked_def ac_simps)
  then have "length sib = height \<and> (\<forall>i < height. sib ! i = sums ! i XOR (if bit index i then 0 else ?d AND - 1))" by (simp add: sib_def)
  from P [rule_format, OF this] obtain or where "CggmPuncFullEval enc index sib n out_r (- 1) = Inr or"
    "\<forall>i < n. or ! i = os ! i XOR (if i = index then ?d else 0)" by auto
  moreover have "GywzOtExtRecv enc hr r n index out_r msgs = CggmPuncFullEval enc index sib n out_r (- 1)"
    using mc un by (simp add: GywzOtExtRecv_def load_sums_def msgs_def masked_def)
  ultimately show ?thesis using mc send by auto
qed

lemma fold_bits:
  "bit (fold (\<lambda>i index. index OR of_bool (b i) * 2 ^ i) [0 ..< k] (0 :: nat)) j \<longleftrightarrow> j < k \<and> b j"
  by (induction k) (auto simp: bit_simps less_Suc_eq)

lemma fold_bits_less: "fold (\<lambda>i index. index OR of_bool (b i) * 2 ^ i) [0 ..< k] (0 :: nat) < 2 ^ k" (is "?x < _")
proof -
  have "take_bit k ?x = ?x" by (rule bit_eqI) (auto simp: bit_take_bit_iff fold_bits)
  then show ?thesis by (simp add: take_bit_nat_eq_self_iff)
qed

lemma choice_index_ok:
  assumes "\<And>i. i < height \<Longrightarrow> recv_GetChoice h r (of_nat i) = Inr (b i)"
  obtains index where "choice_index h r height = Inr index" and "index < 2 ^ height" and "\<forall>i < height. bit index i = b i"
proof -
  have c: "collect (\<lambda>i. recv_GetChoice h r (of_nat i)) [0 ..< height] = Inr (map b [0 ..< height])"
    by (rule collect_map) (simp add: assms)
  have "fold (\<lambda>i index. index OR of_bool (map b [0 ..< height] ! i) * 2 ^ i) [0 ..< height] 0
      = fold (\<lambda>i index. index OR of_bool (b i) * 2 ^ i) [0 ..< height] (0 :: nat)"
    by (rule fold_cong) simp_all
  with c that [of "fold (\<lambda>i index. index OR of_bool (b i) * 2 ^ i) [0 ..< height] 0"] show ?thesis
    by (simp add: choice_index_def fold_bits fold_bits_less)
qed

text \<open>
  The two variants in which the index is what the choices of the store spell.  An index past the
  number of messages leaves all of them equal.
\<close>

theorem gywz_fixed_index_correct:
  assumes "ecb_mode enc" and "cot_pair hs s hr r" and "Log2Ceil (of_nat n) = Inr (rsize r)"
    and "1 < n" and "n \<le> 2 ^ 31" and "n \<le> length out_s" and "n \<le> length out_r"
  shows "\<exists>index os msgs or. choice_index hr r (rsize r) = Inr index
    \<and> GywzOtExtSend_fixed_index enc hs s n seed out_s (rsize r) = Inr (os, msgs)
    \<and> GywzOtExtRecv_fixed_index enc hr r n out_r msgs = Inr or
    \<and> (\<forall>i < n. or ! i = os ! i XOR (if i = index then send_delta s else 0))"
proof -
  let ?d = "send_delta s"
  obtain height K b where hr: "rsize r = height" and h: "Log2Ceil (of_nat n) = Inr height" "1 \<le> height" and h32: "height < 32"
    and hn: "2 ^ (height - 1) < n" "n \<le> 2 ^ height" and H: "cot_holds hs s hr r height K b"
    using cot_setup [OF assms(2,3,4,5)] .
  note c = cot_holdsD(1) [OF H] and sz = cot_holdsD(2,3) [OF H] and C = cot_holdsD(4) [OF H] and M = cot_holdsD(5) [OF H] and S = cot_holdsD(6) [OF H]
  obtain index where I: "choice_index hr r height = Inr index" "index < 2 ^ height" "\<forall>i < height. bit index i = b i"
    using choice_index_ok [OF C] by blast
  obtain os sums where F: "CggmFullEval enc ?d seed n out_s height (- 1) = Inr (os, sums)"
    and "length sums = height" and "\<forall>i < height. sums ! i AND - 1 = sums ! i"
    and P: "\<forall>sib. length sib = height \<and> (\<forall>i < height. sib ! i = sums ! i XOR (if bit index i then 0 else ?d AND - 1)) \<longrightarrow>
      (\<exists>or. CggmPuncFullEval enc index sib n out_r (- 1) = Inr or \<and> length or = length out_r
        \<and> (\<forall>i < n. os ! i AND - 1 = os ! i \<and> or ! i = os ! i XOR (if i = index then ?d AND - 1 else 0)))"
    using cggm_outputs [OF assms(1) h h32 hn assms(6,7) I(2), of ?d seed "- 1"] .
  define msgs where "msgs = map (\<lambda>i. sums ! i XOR (K i XOR ?d)) [0 ..< height]"
  have "collect (\<lambda>i. followed (send_GetBlock hs s (of_nat i) 1) (\<lambda>k. Inr (sums ! i XOR k))) [0 ..< height] = Inr msgs"
    unfolding msgs_def by (rule collect_map) (use S [of _ True] in simp)
  then have send: "GywzOtExtSend_fixed_index enc hs s n seed out_s height = Inr (os, msgs)"
    using h(1) sz(2) assms(4) c F by (simp add: GywzOtExtSend_fixed_index_def GetDelta_def)
  define sib where "sib = map (\<lambda>i. msgs ! i XOR ((K i XOR (if b i then ?d else 0)) AND - 1)) [0 ..< height]"
  have un: "unmask_sums hr r (- 1) msgs = Inr sib"
    unfolding sib_def by (rule unmask_sums_ok) (simp_all only: msgs_def length_map length_upt diff_zero M)
  have "sib ! i = sums ! i XOR (if bit index i then 0 else ?d AND - 1)" if "i < height" for i
    using that I(3) by (cases "b i") (simp_all add: sib_def msgs_def ac_simps)
  then have "length sib = height \<and> (\<forall>i < height. sib ! i = sums ! i XOR (if bit index i then 0 else ?d AND - 1))" by (simp add: sib_def)
  from P [rule_format, OF this] obtain or where "CggmPuncFullEval enc index sib n out_r (- 1) = Inr or"
    "\<forall>i < n. or ! i = os ! i XOR (if i = index then ?d else 0)" by auto
  moreover have "GywzOtExtRecv_fixed_index enc hr r n out_r msgs = CggmPuncFullEval enc index sib n out_r (- 1)"
    using h(1) sz(1) assms(4) I(1) un by (simp add: GywzOtExtRecv_fixed_index_def msgs_def)
  ultimately show ?thesis using send I(1) unfolding hr by auto
qed

lemma NOT_ferret_one: "NOT ferret_one = 1" "ferret_one = NOT 1"
  by (simp_all add: ferret_one_def)

lemma mask_low: "x AND NOT 1 = x \<Longrightarrow> \<not> bit x 0" for x :: "128 word"
  by (metis bit_and_iff bit_not_iff bit_1_0)

text \<open>
  The variant for compact stores: the low bit of an output is its choice bit, so it is kept out of
  the tree and set at the index.
\<close>

theorem gywz_ferret_correct:
  assumes "ecb_mode enc" and "cot_pair hs s hr r" and "Log2Ceil (of_nat n) = Inr (rsize r)"
    and "1 < n" and "n \<le> 2 ^ 31" and "n \<le> length out_s" and "n \<le> length out_r"
    and "send_type s = Compact" and "recv_type r = Compact" and "bit (send_delta s) 0"
  shows "\<exists>index os msgs or. choice_index hr r (rsize r) = Inr index
    \<and> GywzOtExtSend_ferret enc hs s n seed out_s = Inr (os, msgs) \<and> GywzOtExtRecv_ferret enc hr r n out_r msgs = Inr or
    \<and> (\<forall>i < n. or ! i = os ! i XOR (if i = index then send_delta s else 0) \<and> \<not> bit (os ! i) 0 \<and> bit (or ! i) 0 = (i = index))"
proof -
  let ?d = "send_delta s"
  obtain height K b where hr: "rsize r = height" and h: "Log2Ceil (of_nat n) = Inr height" "1 \<le> height" and h32: "height < 32"
    and hn: "2 ^ (height - 1) < n" "n \<le> 2 ^ height" and H: "cot_holds hs s hr r height K b"
    using cot_setup [OF assms(2,3,4,5)] .
  note c = cot_holdsD(1) [OF H] and sz = cot_holdsD(2,3) [OF H] and C = cot_holdsD(4) [OF H] and M = cot_holdsD(5) [OF H] and S = cot_holdsD(6) [OF H]
  obtain index where I: "choice_index hr r height = Inr index" "index < 2 ^ height" "\<forall>i < height. bit index i = b i"
    using choice_index_ok [OF C] by blast
  let ?one = "ferret_one" and ?e = "?d AND ferret_one"
  have ee: "?e AND ?one = ?e" by (simp add: and.assoc)
  obtain os sums where F: "CggmFullEval enc ?e (seed AND ?one) n out_s height ?one = Inr (os, sums)"
    and ls: "length sums = height" and sm: "\<forall>i < height. sums ! i AND ?one = sums ! i"
    and P: "\<forall>sib. length sib = height \<and> (\<forall>i < height. sib ! i = sums ! i XOR (if bit index i then 0 else ?e AND ?one)) \<longrightarrow>
      (\<exists>or. CggmPuncFullEval enc index sib n out_r ?one = Inr or \<and> length or = length out_r
        \<and> (\<forall>i < n. os ! i AND ?one = os ! i \<and> or ! i = os ! i XOR (if i = index then ?e AND ?one else 0)))"
    using cggm_outputs [OF assms(1) h h32 hn assms(6,7) I(2), of ?e "seed AND ?one" ?one] .
  define msgs where "msgs = map (\<lambda>i. sums ! i XOR ((K i XOR ?d) AND ?one)) [0 ..< height]"
  have "collect (\<lambda>i. followed (send_GetBlock hs s (of_nat i) 1) (\<lambda>k. Inr (sums ! i XOR (k AND ?one)))) [0 ..< height] = Inr msgs"
    unfolding msgs_def by (rule collect_map) (use S [of _ True] in simp)
  then have send: "GywzOtExtSend_ferret enc hs s n seed out_s = Inr (os, msgs)"
    using h(1) sz(2) assms(4,8) c F by (simp add: GywzOtExtSend_ferret_def GetDelta_def)
  define sib where "sib = map (\<lambda>i. msgs ! i XOR ((K i XOR (if b i then ?d else 0)) AND ?one)) [0 ..< height]"
  have un: "unmask_sums hr r ?one msgs = Inr sib"
    unfolding sib_def by (rule unmask_sums_ok) (simp_all only: msgs_def length_map length_upt diff_zero M)
  have "sib ! i = sums ! i XOR (if bit index i then 0 else ?e AND ?one)" if "i < height" for i
    using that I(3) by (cases "b i") (simp_all add: sib_def msgs_def ee bit.conj_xor_distrib ac_simps)
  then have "length sib = height \<and> (\<forall>i < height. sib ! i = sums ! i XOR (if bit index i then 0 else ?e AND ?one))" by (simp add: sib_def)
  from P [rule_format, OF this] obtain or where O: "CggmPuncFullEval enc index sib n out_r ?one = Inr or" "length or = length out_r"
    "\<And>i. i < n \<Longrightarrow> os ! i AND ?one = os ! i \<and> or ! i = os ! i XOR (if i = index then ?e else 0)" unfolding ee by auto
  define res where "res = (if n > index then or[index := or ! index OR 1] else or)"
  have recv: "GywzOtExtRecv_ferret enc hr r n out_r msgs = Inr res"
    using h(1) sz(1) assms(4,9) I(1) un O(1) by (simp add: GywzOtExtRecv_ferret_def load_sums_def msgs_def res_def NOT_ferret_one(1))
  have low: "\<not> bit (os ! i) 0" if "i < n" for i using O(3) [OF that] NOT_ferret_one(2) mask_low by metis
  have "res ! i = os ! i XOR (if i = index then ?d else 0)" if i: "i < n" for i
  proof (cases "i = index")
    case True
    have "(os ! i XOR ?e) OR 1 = os ! i XOR ?d"
      using low [OF i] assms(10) by (intro bit_word_eqI) (auto simp: bit_simps NOT_ferret_one(2) bit_1_iff)
    then show ?thesis using True i O(2) O(3) [OF i] assms(7) by (simp add: res_def)
  qed (use O(3) [OF i] in \<open>simp add: res_def\<close>)
  moreover have "bit (os ! i XOR (if i = index then ?d else 0)) 0 = (i = index)" if "i < n" for i
    using low [OF that] assms(10) by (simp add: bit_xor_iff)
  ultimately show ?thesis using send recv I(1) low unfolding hr by auto
qed

subsection \<open>A sample pair of stores\<close>

definition sample_heap :: "128 word list \<Rightarrow> bool list \<Rightarrow> ot_heap" where
  "sample_heap blk bits = \<lparr>blk_bufs = [0 \<mapsto> blk], bit_bufs = [0 \<mapsto> bits], lim = 1\<rparr>"

definition sample_recv :: "OtStoreType \<Rightarrow> OtRecvStore" where
  "sample_recv type = \<lparr>internal_use_ctr = 0, internal_use_size = 2, internal_buf_ctr = 0, internal_buf_size = 2,
     recv_type = type, bit_buf = Some 0, recv_blk_buf = Some 0\<rparr>"

definition sample_send :: "128 word \<Rightarrow> OtSendStore" where
  "sample_send delta = \<lparr>internal_use_ctr = 0, internal_use_size = 2, internal_buf_ctr = 0, internal_buf_size = 2,
     send_type = Compact, send_delta = delta, send_blk_buf = Some 0\<rparr>"

lemma sample_ecb: "ecb_mode (\<lambda>_ _ _ b. b)"
  by (simp add: ecb_mode_def)

lemma word_less_2: "i < (2 :: 64 word) \<longleftrightarrow> i = 0 \<or> i = 1"
proof
  assume "i < 2"
  then have "unat i < 2" by (simp add: word_less_nat_alt)
  then have "unat i = unat (0 :: 64 word) \<or> unat i = unat (1 :: 64 word)" by (simp add: less_2_cases_iff)
  then show "i = 0 \<or> i = 1" by (simp only: word_unat_eq_iff)
qed auto

lemmas sample_defs = cot_pair_def send_ok_def recv_ok_def inside_def deref_def sample_heap_def sample_recv_def sample_send_def
  send_Size_def recv_GetChoice_def recv_GetBlock_def send_GetBlock_def GetBufIdx_def load_def ot_blk_num_def

lemma sample_pair: "cot_pair (sample_heap [16, 32] []) (sample_send 7) (sample_heap [16 XOR 7, 32] [True, False]) (sample_recv Normal)"
  by (auto simp: sample_defs word_less_2)

lemma sample_pair_compact: "cot_pair (sample_heap [16, 32] []) (sample_send 7) (sample_heap [16 XOR 7, 32] []) (sample_recv Compact)"
  by (auto simp: sample_defs word_less_2)

lemma sample_height: "Log2Ceil (of_nat 3) = Inr (rsize (sample_recv type))"
  by (simp add: Log2Ceil_def Log2Floor_def countl_zero_def bit_width.simps rsize_def sample_recv_def)

lemma sample_delta: "send_delta (sample_send x) = x"
  by (simp add: sample_send_def)

lemma sample_slices:
  "\<exists>s h outs s'. new_recv 3 Compact (sample_heap [] []) = Inr (s, h) \<and> recv_slices [1, 2] h s = Inr (outs, s')"
  by (simp add: new_recv_def recv_full_def Let_def recv_ConsistencyCheck_def base_ConsistencyCheck_def deref_def sample_heap_def
      recv_NextSlice_def recv_Slice_def IncreaseBufCtr_def)

end
