(* ===== verification/Sgrr.thy ===== *)
theory Sgrr
  imports Gywz
begin

text \<open>
  \<^verbatim>\<open>aes/aes_opt.h\<close> (the encryption of several blocks with several keys) and \<^verbatim>\<open>ot/sgrr_ote.cc\<close>:
  transfer of all but one of \<open>n\<close> seeds, from a tree of seeds without correlation.  The sender's
  messages are the sums of the left and of the right children of every level, masked with the two
  messages of a base transfer; the receiver opens the sum on the other side of its path and
  solves it for the sibling.  The malicious variant adds a check by hashing: the sender proves that all its
  outputs but one are determined by what it sent.

  The round instructions of the processor, the expanded keys, the hash function and the random seed
  are arguments.
\<close>

subsection \<open>Encryption of several blocks\<close>

record aes =
  aesenc :: "128 word \<Rightarrow> 128 word \<Rightarrow> 128 word"
  aesenclast :: "128 word \<Rightarrow> 128 word \<Rightarrow> 128 word"

type_synonym aes_key = "128 word list"

text \<open>One pass over the blocks: the first \<open>num\<close> with the first key, the next \<open>num\<close> with the next key.\<close>

fun para_round :: "(128 word \<Rightarrow> 128 word \<Rightarrow> 128 word) \<Rightarrow> nat \<Rightarrow> nat \<Rightarrow> aes_key list \<Rightarrow> 128 word list \<Rightarrow> 128 word list" where
  "para_round f r num [] blks = blks"
| "para_round f r num (k # ks) blks = map (\<lambda>b. f b (k ! r)) (take num blks) @ para_round f r num ks (drop num blks)"

definition ParaEnc :: "aes \<Rightarrow> 128 word list \<Rightarrow> aes_key list \<Rightarrow> nat \<Rightarrow> 128 word list" where
  "ParaEnc a blks keys num_encs =
     (let blks = para_round (XOR) 0 num_encs keys blks;
          blks = fold (\<lambda>r. para_round (aesenc a) r num_encs keys) [1 ..< 10] blks
      in para_round (aesenclast a) 10 num_encs keys blks)"

subsection \<open>Expansion\<close>

definition SplitAllSeeds :: "aes \<Rightarrow> aes_key list \<Rightarrow> 128 word list \<Rightarrow> 128 word list" where
  "SplitAllSeeds a kPrfKey seeds = ParaEnc a (seeds @ seeds) kPrfKey (length seeds)"

definition GetPuncturedIndex :: "nat \<Rightarrow> nat \<Rightarrow> nat" where
  "GetPuncturedIndex choice level = take_bit (level + 1) choice"

definition GetInsertedIndex :: "nat \<Rightarrow> nat \<Rightarrow> nat" where
  "GetInsertedIndex choice level = flip_bit level (take_bit (level + 1) choice)"

text \<open>One iteration over the seeds of a level: the two children are completed and added up.\<close>

definition send_seed :: "128 word list \<Rightarrow> nat \<Rightarrow> nat \<Rightarrow> 128 word list \<times> 128 word \<times> 128 word \<Rightarrow> 128 word list \<times> 128 word \<times> 128 word" where
  "send_seed output iter_num j st =
     (case st of (splits, m0, m1) \<Rightarrow>
        let splits = splits[j := splits ! j XOR output ! j];
            splits = splits[j + iter_num := splits ! (j + iter_num) XOR output ! j]
        in (splits, m0 XOR splits ! j, m1 XOR splits ! (j + iter_num)))"

text \<open>
  The copy of the children over the seeds, up to the number of messages.  The number of children is
  an unsigned number of 32 bits.
\<close>

definition copy_splits :: "nat \<Rightarrow> nat \<Rightarrow> 128 word list \<Rightarrow> 128 word list \<Rightarrow> 128 word list" where
  "copy_splits n iter_num splits output = take (min (2 * iter_num mod 2 ^ 32) n) splits @ drop (min (2 * iter_num mod 2 ^ 32) n) output"

definition send_level :: "aes \<Rightarrow> aes_key list \<Rightarrow> nat \<Rightarrow> (nat \<Rightarrow> 128 word \<times> 128 word) \<Rightarrow> nat \<Rightarrow> 128 word list \<times> (128 word \<times> 128 word) list \<Rightarrow>
    (128 word list \<times> (128 word \<times> 128 word) list) ot_result" where
  "send_level a kPrfKey n init i st =
     (case st of (output, send_msgs) \<Rightarrow>
        let iter_num = 2 ^ i
        in if length output < iter_num \<or> length output < min (2 * iter_num mod 2 ^ 32) n then Inl Undef
           else
             (let splits = SplitAllSeeds a kPrfKey (take iter_num output);
                  (splits, m0, m1) = fold (send_seed output iter_num) [0 ..< min iter_num n] (splits, fst (init i), snd (init i))
              in Inr (copy_splits n iter_num splits output, send_msgs @ [(m0, m1)])))"

definition recv_seed :: "128 word list \<Rightarrow> nat \<Rightarrow> bool \<Rightarrow> nat \<Rightarrow> nat \<Rightarrow> nat \<Rightarrow> 128 word list \<times> 128 word \<Rightarrow> 128 word list \<times> 128 word" where
  "recv_seed output iter_num c punctured_idx inserted_idx j st =
     (case st of (splits, insert_val) \<Rightarrow>
        if j = punctured_idx \<or> j = inserted_idx then (splits, insert_val)
        else
          (let splits = splits[j := splits ! j XOR output ! j];
               splits = splits[j + iter_num := splits ! (j + iter_num) XOR output ! j]
           in (splits, insert_val XOR (if c then splits ! j else splits ! (j + iter_num)))))"

definition recv_level :: "aes \<Rightarrow> aes_key list \<Rightarrow> nat \<Rightarrow> nat \<Rightarrow> 128 word list \<Rightarrow> nat \<Rightarrow> 128 word list \<Rightarrow> 128 word list ot_result" where
  "recv_level a kPrfKey n choice vals i output =
     (let punctured_idx = GetPuncturedIndex choice i;
          inserted_idx = GetInsertedIndex choice i;
          insert_val = vals ! i;
          iter_num = 2 ^ i
      in if i \<noteq> 0 \<and> (length output < iter_num \<or> length output < min (2 * iter_num mod 2 ^ 32) n) \<or> length output \<le> punctured_idx \<or> inserted_idx < n \<and> length output \<le> inserted_idx then Inl Undef
         else
           (let (output, insert_val) =
                  (if i \<noteq> 0 then
                     (let splits = SplitAllSeeds a kPrfKey (take iter_num output);
                          (splits, insert_val) = fold (recv_seed output iter_num (bit choice i) punctured_idx inserted_idx) [0 ..< min iter_num n] (splits, insert_val)
                      in (copy_splits n iter_num splits output, insert_val))
                   else (output, insert_val));
                output = output[punctured_idx := 0]
            in Inr (if inserted_idx < n then output[inserted_idx := insert_val] else output)))"

text \<open>The level of the variant with a fixed index, where the index is compared with the number of messages.\<close>

definition recv_level_fixed :: "aes \<Rightarrow> aes_key list \<Rightarrow> nat \<Rightarrow> nat \<Rightarrow> 128 word list \<Rightarrow> nat \<Rightarrow> 128 word list \<Rightarrow> 128 word list ot_result" where
  "recv_level_fixed a kPrfKey n choice vals i output =
     (let punctured_idx = GetPuncturedIndex choice i;
          inserted_idx = GetInsertedIndex choice i;
          insert_val = vals ! i;
          iter_num = 2 ^ i
      in if i \<noteq> 0 \<and> (length output < iter_num \<or> length output < min (2 * iter_num mod 2 ^ 32) n)
            \<or> punctured_idx < n \<and> length output \<le> punctured_idx \<or> inserted_idx < n \<and> length output \<le> inserted_idx then Inl Undef
         else
           (let (output, insert_val) =
                  (if i \<noteq> 0 then
                     (let splits = SplitAllSeeds a kPrfKey (take iter_num output);
                          (splits, insert_val) = fold (recv_seed output iter_num (bit choice i) punctured_idx inserted_idx) [0 ..< min iter_num n] (splits, insert_val)
                      in (copy_splits n iter_num splits output, insert_val))
                   else (output, insert_val));
                output = (if punctured_idx < n then output[punctured_idx := 0] else output)
            in Inr (if inserted_idx < n then output[inserted_idx := insert_val] else output)))"

subsection \<open>The check\<close>

definition xor_bytes :: "byte list \<Rightarrow> byte list \<Rightarrow> byte list" where
  "xor_bytes = map2 (XOR)"

text \<open>\<open>Blake3\<close> is the hash function, an argument.\<close>

definition GenCheckMsg :: "(byte list \<Rightarrow> byte list) \<Rightarrow> nat \<Rightarrow> 128 word list \<Rightarrow> byte list \<times> byte list" where
  "GenCheckMsg Blake3 n output =
     (let tmp = map (\<lambda>i. Blake3 (bytes_of_u128 (output ! i))) [0 ..< n];
          t = fold xor_bytes tmp (replicate 32 0)
      in (t, Blake3 (concat tmp)))"

definition VerifyCheckMsg :: "(byte list \<Rightarrow> byte list) \<Rightarrow> nat \<Rightarrow> nat \<Rightarrow> 128 word list \<Rightarrow> byte list \<times> byte list \<Rightarrow> bool ot_result" where
  "VerifyCheckMsg Blake3 n index output proof =
     enforce (index < n) (
     let tmp = map (\<lambda>i. Blake3 (bytes_of_u128 (output ! i))) [0 ..< n];
         t = fold xor_bytes tmp (fst proof);
         tmp = tmp[index := xor_bytes t (tmp ! index)]
     in Inr (Blake3 (concat tmp) = snd proof))"

subsection \<open>The protocols\<close>

text \<open>The receiver up to its message, what it opens of the answer, and the rest.\<close>

definition SgrrOtExtRecv_choice :: "ot_heap \<Rightarrow> OtRecvStore \<Rightarrow> nat \<Rightarrow> nat \<Rightarrow> bool list ot_result" where
  "SgrrOtExtRecv_choice h base_ot n index =
     followed (Log2Ceil (of_nat n)) (\<lambda>ot_num.
     enforce (n > 1) (
     enforce (128 \<ge> unat (internal_use_size base_ot)) (
     enforce (unat (internal_use_size base_ot) \<ge> ot_num) (
     enforce (index < n) (
     collect (\<lambda>i. followed (recv_GetChoice h base_ot (of_nat i)) (\<lambda>b. Inr ((\<not> bit index i) \<noteq> b))) [0 ..< ot_num])))))"

definition open_sums :: "ot_heap \<Rightarrow> OtRecvStore \<Rightarrow> nat \<Rightarrow> nat \<Rightarrow> (128 word \<times> 128 word) list \<Rightarrow> 128 word list ot_result" where
  "open_sums h base_ot choice ot_num recv_msgs =
     collect (\<lambda>i. followed (recv_GetBlock h base_ot (of_nat i)) (\<lambda>m.
       Inr ((if bit choice i then fst (recv_msgs ! i) else snd (recv_msgs ! i)) XOR m))) [0 ..< ot_num]"

text \<open>The end of the malicious variant: the outputs are replaced by their hashes.\<close>

definition recv_refresh :: "cipher \<Rightarrow> (byte list \<Rightarrow> byte list) \<Rightarrow> bool \<Rightarrow> nat \<Rightarrow> nat \<Rightarrow> byte list \<times> byte list \<Rightarrow> 128 word list \<Rightarrow> 128 word list ot_result" where
  "recv_refresh enc Blake3 mal n index proof output =
     (if mal
      then followed (VerifyCheckMsg Blake3 n index output proof) (\<lambda>ok.
           enforce ok (Inr ((ParaCrHashInplace_128 enc (take n output) @ drop n output)[index := 0])))
      else Inr output)"

definition send_refresh :: "cipher \<Rightarrow> bool \<Rightarrow> nat \<Rightarrow> 128 word list \<Rightarrow> 128 word list" where
  "send_refresh enc mal n output = (if mal then ParaCrHashInplace_128 enc (take n output) @ drop n output else output)"

definition SgrrOtExtRecv :: "aes \<Rightarrow> aes_key list \<Rightarrow> cipher \<Rightarrow> (byte list \<Rightarrow> byte list) \<Rightarrow> ot_heap \<Rightarrow> OtRecvStore \<Rightarrow> nat \<Rightarrow> nat \<Rightarrow> 128 word list \<Rightarrow> bool \<Rightarrow>
    (128 word \<times> 128 word) list \<Rightarrow> byte list \<times> byte list \<Rightarrow> 128 word list ot_result" where
  "SgrrOtExtRecv a kPrfKey enc Blake3 h base_ot n index output mal recv_msgs proof =
     followed (SgrrOtExtRecv_choice h base_ot n index) (\<lambda>masked_choice.
     let ot_num = length masked_choice
     in enforce (length recv_msgs \<ge> ot_num) (
     followed (open_sums h base_ot index ot_num recv_msgs) (\<lambda>vals.
     followed (run_levels (recv_level a kPrfKey n index vals) [0 ..< ot_num] output) (\<lambda>output.
     recv_refresh enc Blake3 mal n index proof output))))"

definition SgrrOtExtSend :: "aes \<Rightarrow> aes_key list \<Rightarrow> cipher \<Rightarrow> (byte list \<Rightarrow> byte list) \<Rightarrow> ot_heap \<Rightarrow> OtSendStore \<Rightarrow> nat \<Rightarrow> 128 word \<Rightarrow> 128 word list \<Rightarrow> bool \<Rightarrow> bool list \<Rightarrow>
    (128 word list \<times> (128 word \<times> 128 word) list \<times> (byte list \<times> byte list)) ot_result" where
  "SgrrOtExtSend a kPrfKey enc Blake3 h base_ot n seed output mal masked_choice =
     followed (Log2Ceil (of_nat n)) (\<lambda>ot_num.
     enforce (unat (send_Size base_ot) \<ge> ot_num) (
     enforce (n > 1) (
     if output = [] then Inl Undef
     else followed (run_levels (send_level a kPrfKey n (\<lambda>i. (0, 0))) [0 ..< ot_num] (output[0 := seed], [])) (\<lambda>(output, send_msgs).
     if length masked_choice < ot_num then Inl Undef
     else followed (collect (\<lambda>i.
            followed (send_GetBlock h base_ot (of_nat i) (of_bool (masked_choice ! i))) (\<lambda>k0.
            followed (send_GetBlock h base_ot (of_nat i) (1 - of_bool (masked_choice ! i))) (\<lambda>k1.
            Inr (fst (send_msgs ! i) XOR k0, snd (send_msgs ! i) XOR k1)))) [0 ..< ot_num]) (\<lambda>send_msgs.
     Inr (send_refresh enc mal n output, send_msgs, GenCheckMsg Blake3 n output))))))"

text \<open>The variants where the index is what the choices of the store spell.\<close>

definition SgrrOtExtRecv_fixed_index :: "aes \<Rightarrow> aes_key list \<Rightarrow> cipher \<Rightarrow> (byte list \<Rightarrow> byte list) \<Rightarrow> ot_heap \<Rightarrow> OtRecvStore \<Rightarrow> nat \<Rightarrow> 128 word list \<Rightarrow> bool \<Rightarrow>
    (128 word \<times> 128 word) list \<Rightarrow> byte list \<times> byte list \<Rightarrow> 128 word list ot_result" where
  "SgrrOtExtRecv_fixed_index a kPrfKey enc Blake3 h base_ot n output mal recv_msgs proof =
     followed (Log2Ceil (of_nat n)) (\<lambda>ot_num.
     enforce (n > 1) (
     enforce (128 \<ge> unat (internal_use_size base_ot)) (
     enforce (unat (internal_use_size base_ot) \<ge> ot_num) (
     enforce (length recv_msgs = ot_num) (
     followed (recv_CopyBitBuf h base_ot) (\<lambda>bits.
     let choice = horner_sum of_bool 2 bits;
         index = GetPuncturedIndex choice (ot_num - 1)
     in enforce (index < n) (
     followed (open_sums h base_ot choice ot_num recv_msgs) (\<lambda>vals.
     followed (run_levels (recv_level_fixed a kPrfKey n choice vals) [0 ..< ot_num] output) (\<lambda>output.
     recv_refresh enc Blake3 mal n index proof output)))))))))"

definition SgrrOtExtSend_fixed_index :: "aes \<Rightarrow> aes_key list \<Rightarrow> cipher \<Rightarrow> (byte list \<Rightarrow> byte list) \<Rightarrow> ot_heap \<Rightarrow> OtSendStore \<Rightarrow> nat \<Rightarrow> 128 word \<Rightarrow> 128 word list \<Rightarrow> bool \<Rightarrow>
    (128 word list \<times> (128 word \<times> 128 word) list \<times> (byte list \<times> byte list)) ot_result" where
  "SgrrOtExtSend_fixed_index a kPrfKey enc Blake3 h base_ot n seed output mal =
     followed (Log2Ceil (of_nat n)) (\<lambda>ot_num.
     enforce (unat (send_Size base_ot) \<ge> ot_num) (
     enforce (n > 1) (
     if output = [] then Inl Undef
     else followed (collect (\<lambda>i.
            followed (send_GetBlock h base_ot (of_nat i) 1) (\<lambda>k1.
            followed (send_GetBlock h base_ot (of_nat i) 0) (\<lambda>k0. Inr (k1, k0)))) [0 ..< ot_num]) (\<lambda>init.
     followed (run_levels (send_level a kPrfKey n (\<lambda>i. init ! i)) [0 ..< ot_num] (output[0 := seed], [])) (\<lambda>(output, send_msgs).
     Inr (send_refresh enc mal n output, send_msgs, GenCheckMsg Blake3 n output))))))"

subsection \<open>The encryptions block by block\<close>

definition aes_block :: "aes \<Rightarrow> aes_key \<Rightarrow> 128 word \<Rightarrow> 128 word" where
  "aes_block a k x = aesenclast a (fold (\<lambda>r b. aesenc a b (k ! r)) [1 ..< 10] (x XOR k ! 0)) (k ! 10)"

lemma para_round_two:
  assumes "length xs = num" and "length ys = num"
  shows "para_round f r num [k0, k1] (xs @ ys) = map (\<lambda>b. f b (k0 ! r)) xs @ map (\<lambda>b. f b (k1 ! r)) ys"
  using assms by simp

lemma fold_para_two:
  assumes "length xs = num" and "length ys = num"
  shows "fold (\<lambda>r. para_round f r num [k0, k1]) rs (xs @ ys)
    = map (fold (\<lambda>r b. f b (k0 ! r)) rs) xs @ map (fold (\<lambda>r b. f b (k1 ! r)) rs) ys"
  using assms
proof (induction rs arbitrary: xs ys)
  case (Cons r rs)
  have "fold (\<lambda>r. para_round f r num [k0, k1]) (r # rs) (xs @ ys)
    = fold (\<lambda>r. para_round f r num [k0, k1]) rs (map (\<lambda>b. f b (k0 ! r)) xs @ map (\<lambda>b. f b (k1 ! r)) ys)"
    by (simp only: fold_Cons comp_def para_round_two [OF Cons.prems])
  then show ?case using Cons.IH [of "map (\<lambda>b. f b (k0 ! r)) xs" "map (\<lambda>b. f b (k1 ! r)) ys"] Cons.prems by (simp add: comp_def)
qed (simp add: map_idI)

lemma SplitAllSeeds_blocks: "SplitAllSeeds a [k0, k1] W = map (aes_block a k0) W @ map (aes_block a k1) W"
  unfolding SplitAllSeeds_def ParaEnc_def Let_def para_round_two [OF refl refl]
  by (subst fold_para_two, simp, simp, subst para_round_two) (simp_all add: aes_block_def comp_def)

subsection \<open>The loops over the seeds of a level\<close>

text \<open>The children at the positions that satisfy \<open>P\<close> are completed with the seed.\<close>

definition completed :: "(nat \<Rightarrow> bool) \<Rightarrow> 128 word list \<Rightarrow> 128 word list \<Rightarrow> 128 word list" where
  "completed P out s = map (\<lambda>j. if P j then s ! j XOR out ! j else s ! j) [0 ..< length s]"

lemma length_completed [simp]: "length (completed P out s) = length s"
  by (simp add: completed_def)

lemma completed_nth [simp]: "j < length s \<Longrightarrow> completed P out s ! j = (if P j then s ! j XOR out ! j else s ! j)"
  by (simp add: completed_def)

lemma completed_none [simp]: "completed (\<lambda>j. False) out s = s"
  by (simp add: completed_def map_nth)

lemma completed_Suc:
  assumes "m < length s"
  shows "completed (\<lambda>j. j < Suc m \<and> P j) out s =
    (if P m then (completed (\<lambda>j. j < m \<and> P j) out s)[m := s ! m XOR out ! m] else completed (\<lambda>j. j < m \<and> P j) out s)"
  using assms by (intro nth_equalityI) (auto simp: nth_list_update less_Suc_eq)

lemma recv_fold:
  assumes "length s0 = it" and "length s1 = it" and "m \<le> it"
  shows "fold (recv_seed out it c p q) [0 ..< m] (s0 @ s1, v) =
    (completed (\<lambda>j. j < m \<and> j \<noteq> p \<and> j \<noteq> q) out s0 @ completed (\<lambda>j. j < m \<and> j \<noteq> p \<and> j \<noteq> q) out s1,
     xor_sum (map (\<lambda>j. (if c then s0 ! j else s1 ! j) XOR out ! j) (filter (\<lambda>j. j \<noteq> p \<and> j \<noteq> q) [0 ..< m])) v)"
  using assms(3)
proof (induction m)
  case (Suc m)
  let ?P = "\<lambda>j. j \<noteq> p \<and> j \<noteq> q"
  let ?l = "completed (\<lambda>j. j < m \<and> ?P j) out s0" and ?r = "completed (\<lambda>j. j < m \<and> ?P j) out s1"
  have m: "m < length s0" "m < length s1" "length ?l = it" using Suc.prems assms(1,2) by simp_all
  have "fold (recv_seed out it c p q) [0 ..< Suc m] (s0 @ s1, v) = recv_seed out it c p q m
    (?l @ ?r, xor_sum (map (\<lambda>j. (if c then s0 ! j else s1 ! j) XOR out ! j) (filter ?P [0 ..< m])) v)"
    using Suc.IH Suc.prems by simp
  also have "\<dots> = (if ?P m then (?l[m := s0 ! m XOR out ! m] @ ?r[m := s1 ! m XOR out ! m],
      xor_sum (map (\<lambda>j. (if c then s0 ! j else s1 ! j) XOR out ! j) (filter ?P [0 ..< m])) v XOR ((if c then s0 ! m else s1 ! m) XOR out ! m))
    else (?l @ ?r, xor_sum (map (\<lambda>j. (if c then s0 ! j else s1 ! j) XOR out ! j) (filter ?P [0 ..< m])) v))"
    using m assms(1,2) by (auto simp: recv_seed_def Let_def list_update_append nth_append)
  finally show ?case using m by (auto simp: completed_Suc xor_sum_append)
qed simp

lemma send_fold:
  assumes "length s0 = it" and "length s1 = it" and "m \<le> it"
  shows "fold (send_seed out it) [0 ..< m] (s0 @ s1, v, w) =
    (completed (\<lambda>j. j < m \<and> True) out s0 @ completed (\<lambda>j. j < m \<and> True) out s1,
     xor_sum (map (\<lambda>j. s0 ! j XOR out ! j) [0 ..< m]) v, xor_sum (map (\<lambda>j. s1 ! j XOR out ! j) [0 ..< m]) w)"
  using assms(3)
proof (induction m)
  case (Suc m)
  let ?l = "completed (\<lambda>j. j < m \<and> True) out s0" and ?r = "completed (\<lambda>j. j < m \<and> True) out s1"
  have m: "m < length s0" "m < length s1" "length ?l = it" using Suc.prems assms(1,2) by simp_all
  have "fold (send_seed out it) [0 ..< Suc m] (s0 @ s1, v, w) = send_seed out it m
    (?l @ ?r, xor_sum (map (\<lambda>j. s0 ! j XOR out ! j) [0 ..< m]) v, xor_sum (map (\<lambda>j. s1 ! j XOR out ! j) [0 ..< m]) w)"
    using Suc.IH Suc.prems by simp
  also have "\<dots> = (?l[m := s0 ! m XOR out ! m] @ ?r[m := s1 ! m XOR out ! m],
      xor_sum (map (\<lambda>j. s0 ! j XOR out ! j) [0 ..< m]) v XOR (s0 ! m XOR out ! m),
      xor_sum (map (\<lambda>j. s1 ! j XOR out ! j) [0 ..< m]) w XOR (s1 ! m XOR out ! m))"
    using m assms(1,2) by (auto simp: send_seed_def Let_def list_update_append nth_append)
  finally show ?case using m completed_Suc [of m _ "\<lambda>_. True" out] by (simp add: xor_sum_append)
qed simp

subsection \<open>The levels\<close>

definition seed_child :: "aes \<Rightarrow> aes_key \<Rightarrow> 128 word \<Rightarrow> 128 word" where
  "seed_child a k x = aes_block a k x XOR x"

fun ggm_seeds :: "(128 word \<Rightarrow> 128 word) \<Rightarrow> (128 word \<Rightarrow> 128 word) \<Rightarrow> 128 word \<Rightarrow> nat \<Rightarrow> 128 word list" where
  "ggm_seeds f0 f1 seed 0 = [seed]"
| "ggm_seeds f0 f1 seed (Suc L) = map f0 (ggm_seeds f0 f1 seed L) @ map f1 (ggm_seeds f0 f1 seed L)"

lemma length_ggm_seeds [simp]: "length (ggm_seeds f0 f1 seed L) = 2 ^ L"
  by (induction L) simp_all

lemma doubled:
  assumes "i < 31"
  shows "2 * 2 ^ i mod 2 ^ 32 = (2 * 2 ^ i :: nat)"
proof -
  have "(2 :: nat) ^ Suc i < 2 ^ 32" using assms by (intro power_strict_increasing) simp_all
  then show ?thesis by simp
qed

text \<open>On level 31 the number of children wraps around to 0, and none of them is copied.\<close>

lemma copy_splits_wraps: "copy_splits n (2 ^ 31) splits output = output"
  by (simp add: copy_splits_def)

lemma send_level_ok:
  assumes i31: "i < 31" and "length W = 2 ^ i" and "2 ^ i < n" and "min (2 ^ Suc i) n \<le> length output" and "take (2 ^ i) output = W"
  shows "send_level a [k0, k1] n init i (output, msgs) =
    Inr (take n (map (seed_child a k0) W @ map (seed_child a k1) W) @ drop (min (2 ^ Suc i) n) output,
         msgs @ [(xor_sum (map (seed_child a k0) W) (fst (init i)), xor_sum (map (seed_child a k1) W) (snd (init i)))])"
proof -
  let ?it = "2 ^ i :: nat"
  have len: "?it \<le> length output" using assms(3,4) by (auto simp: min_def split: if_splits)
  have o: "output ! j = W ! j" if "j < ?it" for j using that assms(2,5) by (metis nth_take)
  have s: "SplitAllSeeds a [k0, k1] (take ?it output) = map (aes_block a k0) W @ map (aes_block a k1) W"
    by (simp add: SplitAllSeeds_blocks assms(5))
  have c: "completed (\<lambda>j. j < ?it \<and> True) output (map (aes_block a k) W) = map (seed_child a k) W" for k
    using assms(2) by (intro nth_equalityI) (simp_all add: seed_child_def o)
  have m: "map (\<lambda>j. map (aes_block a k) W ! j XOR output ! j) [0 ..< ?it] = map (seed_child a k) W" for k
    using assms(2) by (intro nth_equalityI) (simp_all add: seed_child_def o)
  have f: "fold (send_seed output ?it) [0 ..< ?it] (map (aes_block a k0) W @ map (aes_block a k1) W, fst (init i), snd (init i)) =
    (map (seed_child a k0) W @ map (seed_child a k1) W, xor_sum (map (seed_child a k0) W) (fst (init i)), xor_sum (map (seed_child a k1) W) (snd (init i)))"
    using send_fold [of "map (aes_block a k0) W" ?it "map (aes_block a k1) W" ?it "output"] assms(2) by (simp only: c m length_map order_refl)
  have t: "take (min (2 * ?it) n) (map (seed_child a k0) W @ map (seed_child a k1) W) = take n (map (seed_child a k0) W @ map (seed_child a k1) W)"
    using assms(2) by (simp add: min_def)
  have g: "(length output < ?it \<or> length output < min (2 * ?it) n) = False" using len assms(4) by (auto simp: min_le_iff_disj)
  have mi: "min ?it n = ?it" using assms(3) by simp
  show ?thesis by (simp only: send_level_def prod.case Let_def s f g mi if_False copy_splits_def doubled [OF i31] t power_Suc)
qed

text \<open>The index and its sibling at a level.\<close>

lemma index_pair:
  "GetPuncturedIndex choice i = take_bit i choice + (if bit choice i then 2 ^ i else 0)"
  "GetInsertedIndex choice i = take_bit i choice + (if bit choice i then 0 else 2 ^ i)"
proof -
  have t: "take_bit (Suc i) choice = take_bit i choice OR (if bit choice i then 2 ^ i else 0)"
    by (rule bit_eqI) (auto simp: bit_simps less_Suc_eq)
  have d: "take_bit i choice OR 2 ^ i = take_bit i choice + 2 ^ i"
    by (rule disjunctive_add [symmetric]) (auto simp: bit_simps)
  show "GetPuncturedIndex choice i = take_bit i choice + (if bit choice i then 2 ^ i else 0)"
    by (simp add: GetPuncturedIndex_def t d)
  have "flip_bit i (take_bit (Suc i) choice) = take_bit i choice OR (if bit choice i then 0 else 2 ^ i)"
    by (rule bit_eqI) (auto simp: bit_simps less_Suc_eq)
  then show "GetInsertedIndex choice i = take_bit i choice + (if bit choice i then 0 else 2 ^ i)"
    by (simp add: GetInsertedIndex_def d)
qed

lemma xor_sum_except:
  assumes "p < length xs"
  shows "xor_sum (map ((!) xs) (filter (\<lambda>j. j \<noteq> p) [0 ..< length xs])) (xor_sum xs 0) = xs ! p"
proof -
  have f: "map ((!) xs) (filter (\<lambda>j. j \<noteq> p) [0 ..< length xs]) = take p xs @ drop (Suc p) xs"
  proof -
    have u: "[0 ..< length xs] = [0 ..< p] @ p # [Suc p ..< length xs]"
      using upt_add_eq_append [of 0 p "length xs - p"] upt_conv_Cons [OF assms] assms by simp
    have a: "filter (\<lambda>j. j \<noteq> p) [0 ..< p] = [0 ..< p]" "filter (\<lambda>j. j \<noteq> p) [Suc p ..< length xs] = [Suc p ..< length xs]"
      by (auto intro!: filter_True)
    have b: "map ((!) xs) [0 ..< p] = take p xs" using assms by (intro nth_equalityI) simp_all
    have c: "map ((!) xs) [Suc p ..< length xs] = drop (Suc p) xs" using assms by (intro nth_equalityI) simp_all
    show ?thesis unfolding u filter_append filter.simps map_append a by (simp add: b c)
  qed
  have "xs = take p xs @ xs ! p # drop (Suc p) xs" using assms by (rule id_take_nth_drop)
  then have x: "xor_sum xs 0 = xor_sum (take p xs @ xs ! p # drop (Suc p) xs) 0" by simp
  let ?A = "xor_sum (take p xs) 0" and ?B = "xor_sum (drop (Suc p) xs) 0"
  have "xor_sum xs 0 = (?A XOR xs ! p) XOR ?B"
    unfolding x xor_sum_append xor_sum_simps by (rule xor_sum_start)
  moreover have "xor_sum (take p xs @ drop (Suc p) xs) z = (z XOR ?A) XOR ?B" for z
    unfolding xor_sum_append using xor_sum_start [of "take p xs" z] xor_sum_start [of "drop (Suc p) xs" "xor_sum (take p xs) z"] by simp
  ultimately show ?thesis unfolding f by (simp add: ac_simps)
qed

lemma update_prefix:
  assumes "q < m" and "m \<le> length S" and "e < n \<longleftrightarrow> e < m"
  shows "(if e < n then ((take m S @ R)[q := y])[e := x] else (take m S @ R)[q := y]) = take m (S[q := y, e := x]) @ R"
  using assms by (simp add: list_update_append1 take_update_swap list_update_beyond)

text \<open>The same seeds with the one on the path of the index removed.\<close>

lemma recv_level_ok:
  assumes i31: "i < 31" and W: "length W = 2 ^ i" and i: "0 < i" "2 ^ i < n" and len: "min (2 ^ Suc i) n \<le> length output"
    and p: "p = take_bit i choice" and out: "take (2 ^ i) output = W[p := 0]"
    and q: "GetPuncturedIndex choice i < n"
    and v: "vals ! i = xor_sum (map (seed_child a (if bit choice i then k0 else k1)) W) 0"
  shows "recv_level a [k0, k1] n choice vals i output =
    Inr (take n ((map (seed_child a k0) W @ map (seed_child a k1) W)[GetPuncturedIndex choice i := 0]) @ drop (min (2 ^ Suc i) n) output)"
proof -
  let ?it = "2 ^ i :: nat" and ?c = "bit choice i"
  let ?P = "GetPuncturedIndex choice i" and ?I = "GetInsertedIndex choice i"
  let ?k = "if ?c then k0 else k1"
  let ?V = "W[p := 0]"
  let ?s = "\<lambda>k. completed (\<lambda>j. j < ?it \<and> j \<noteq> ?P \<and> j \<noteq> ?I) output (map (aes_block a k) ?V)"
  have pl: "p < ?it" unfolding p by (simp add: take_bit_eq_mod)
  have PI: "?P = p + (if ?c then ?it else 0)" "?I = p + (if ?c then 0 else ?it)" unfolding p by (rule index_pair)+
  have skip: "(j \<noteq> ?P \<and> j \<noteq> ?I) = (j \<noteq> p)" if "j < ?it" for j using that by (auto simp: PI)
  have o: "output ! j = ?V ! j" if "j < ?it" for j using that out W by (metis nth_take)
  have s: "SplitAllSeeds a [k0, k1] (take ?it output) = map (aes_block a k0) ?V @ map (aes_block a k1) ?V"
    by (simp add: SplitAllSeeds_blocks out)
  have sk: "?s k ! j = seed_child a k (W ! j)" if "j < ?it" "j \<noteq> p" for j k
    using that W by (simp add: skip o seed_child_def)
  have fl: "filter (\<lambda>j. j \<noteq> ?P \<and> j \<noteq> ?I) [0 ..< ?it] = filter (\<lambda>j. j \<noteq> p) [0 ..< ?it]" by (rule filter_cong) (simp_all add: skip)
  have me: "map (\<lambda>j. (if ?c then map (aes_block a k0) ?V ! j else map (aes_block a k1) ?V ! j) XOR output ! j) (filter (\<lambda>j. j \<noteq> p) [0 ..< ?it])
      = map ((!) (map (seed_child a ?k) W)) (filter (\<lambda>j. j \<noteq> p) [0 ..< length (map (seed_child a ?k) W)])"
    using W by (auto simp: o seed_child_def)
  have ins: "xor_sum (map (\<lambda>j. (if ?c then map (aes_block a k0) ?V ! j else map (aes_block a k1) ?V ! j) XOR output ! j)
      (filter (\<lambda>j. j \<noteq> ?P \<and> j \<noteq> ?I) [0 ..< ?it])) (vals ! i) = seed_child a ?k (W ! p)"
    unfolding fl v me using W pl by (subst xor_sum_except) simp_all
  have f: "fold (recv_seed output ?it ?c ?P ?I) [0 ..< ?it] (map (aes_block a k0) ?V @ map (aes_block a k1) ?V, vals ! i)
      = (?s k0 @ ?s k1, seed_child a ?k (W ! p))"
    using recv_fold [of "map (aes_block a k0) ?V" ?it "map (aes_block a k1) ?V" ?it "output" ?c ?P ?I "vals ! i"] W unfolding ins by simp
  let ?S = "?s k0 @ ?s k1" and ?G = "map (seed_child a k0) W @ map (seed_child a k1) W"
  have lS: "length ?S = 2 * ?it" "length ?G = 2 * ?it" using W by simp_all
  have eq: "?S[?P := 0, ?I := seed_child a ?k (W ! p)] = ?G[?P := 0]"
  proof (rule nth_equalityI)
    fix j assume "j < length (?S[?P := 0, ?I := seed_child a ?k (W ! p)])"
    then have j: "j < 2 * ?it" using lS(1) by simp
    consider "j = ?P" | "j = ?I" | "j \<noteq> ?P" "j \<noteq> ?I" by blast
    then show "?S[?P := 0, ?I := seed_child a ?k (W ! p)] ! j = ?G[?P := 0] ! j"
    proof cases
      case 1
      then show ?thesis using j lS PI pl by (auto simp: nth_list_update)
    next
      case 2
      then show ?thesis using j lS PI pl W by (auto simp: nth_list_update nth_append)
    next
      case 3
      have "?S ! j = ?G ! j"
      proof (cases "j < ?it")
        case True
        then show ?thesis using sk [OF True] skip [OF True] 3 W by (simp add: nth_append)
      next
        case False
        have "j \<noteq> p + ?it" using 3 PI by (cases ?c) simp_all
        then have "j - ?it < ?it" "j - ?it \<noteq> p" using False j by auto
        then show ?thesis using sk [of "j - ?it" k1] False W by (simp add: nth_append)
      qed
      then show ?thesis using 3 by simp
    qed
  qed (simp add: W)
  let ?m = "min (2 * ?it) n"
  let ?rest = "drop ?m output"
  have g: "(i \<noteq> 0 \<and> (length output < ?it \<or> length output < ?m) \<or> length output \<le> ?P \<or> ?I < n \<and> length output \<le> ?I) = False"
  proof -
    have "?P < 2 * ?it" "?I < 2 * ?it" using PI pl by (cases ?c; simp)+
    then have "?P < ?m" "?I < n \<longrightarrow> ?I < ?m" using q by simp_all
    moreover have "?m \<le> length output" using len by simp
    moreover have "?it \<le> ?m" using i(2) by simp
    ultimately have "\<not> length output < ?it" "\<not> length output < ?m" "\<not> length output \<le> ?P" "\<not> (?I < n \<and> length output \<le> ?I)" by linarith+
    then show ?thesis by (simp only: simp_thms)
  qed
  have mi: "min ?it n = ?it" and i0: "(i \<noteq> 0) = True" using i by simp_all
  have up: "(if ?I < n then ((take ?m ?S @ ?rest)[?P := 0])[?I := x] else (take ?m ?S @ ?rest)[?P := 0]) = take ?m (?S[?P := 0, ?I := x]) @ ?rest" for x
  proof -
    have "?P < 2 * ?it" "?I < 2 * ?it" using PI pl by (cases ?c, simp_all)+
    then have "?P < ?m" "?I < n \<longleftrightarrow> ?I < ?m" using q by simp_all
    moreover have "?m \<le> length ?S" using lS(1) by simp
    ultimately show ?thesis by (intro update_prefix)
  qed
  have "recv_level a [k0, k1] n choice vals i output = Inr (take ?m (?S[?P := 0, ?I := seed_child a ?k (W ! p)]) @ ?rest)"
    unfolding recv_level_def Let_def s mi f copy_splits_def doubled [OF i31] g by (simp only: i0 if_True if_False prod.case up)
  moreover have "take ?m (?G[?P := 0]) = take n (?G[?P := 0])" using lS by (simp add: min_def)
  ultimately show ?thesis unfolding eq by (simp only: power_Suc)
qed

text \<open>All levels.\<close>

lemma level_bound:
  fixes n :: nat
  assumes "2 ^ (height - 1) < n" and "k < height"
  shows "2 ^ k < n"
proof -
  have "(2 :: nat) ^ k \<le> 2 ^ (height - 1)" using assms(2) by (intro power_increasing) simp_all
  with assms(1) show ?thesis by linarith
qed

lemma punctured_inside:
  assumes "2 ^ (height - 1) < n" and "k < height" and "take_bit height choice < n"
  shows "GetPuncturedIndex choice k < n"
proof (cases "Suc k = height")
  case True
  then show ?thesis using assms(3) by (simp add: GetPuncturedIndex_def)
next
  case False
  then have "2 ^ Suc k < n" using level_bound [OF assms(1), of "Suc k"] assms(2) by simp
  moreover have "take_bit (Suc k) choice < 2 ^ Suc k" by (simp add: take_bit_eq_mod)
  ultimately show ?thesis by (simp add: GetPuncturedIndex_def)
qed

lemma send_run:
  assumes h31: "height \<le> 31" and n: "2 ^ (height - 1) < n" "n \<le> length output" and "k \<le> height"
  shows "run_levels (send_level a [k0, k1] n init) [0 ..< k] (output[0 := seed], []) =
    Inr (take n (ggm_seeds (seed_child a k0) (seed_child a k1) seed k) @ drop (min (2 ^ k) n) output,
      map (\<lambda>i. (xor_sum (map (seed_child a k0) (ggm_seeds (seed_child a k0) (seed_child a k1) seed i)) (fst (init i)),
                xor_sum (map (seed_child a k1) (ggm_seeds (seed_child a k0) (seed_child a k1) seed i)) (snd (init i)))) [0 ..< k])"
  using assms(4)
proof (induction k)
  case 0
  have "0 < n" using n(1) by (rule less_trans [rotated]) simp
  moreover obtain x xs where "output = x # xs" using n \<open>0 < n\<close> by (cases "output") simp_all
  ultimately show ?case by (simp add: min_def)
next
  case (Suc k)
  let ?W = "ggm_seeds (seed_child a k0) (seed_child a k1) seed k"
  have kn: "2 ^ k < n" by (rule level_bound [OF n(1)]) (use Suc.prems in simp)
  let ?o = "take n ?W @ drop (min (2 ^ k) n) output"
  have o: "?o = ?W @ drop (2 ^ k) output" using kn by simp
  have lo: "length ?o = length output" using kn n(2) by simp
  have "min (2 ^ Suc k) n \<le> length ?o" using n(2) lo by simp
  moreover have "take (2 ^ k) ?o = ?W" unfolding o by simp
  moreover have "drop (min (2 ^ Suc k) n) ?o = drop (min (2 ^ Suc k) n) output"
  proof -
    have "2 ^ k \<le> min (2 ^ Suc k) n" using kn by simp
    then show ?thesis unfolding o by simp
  qed
  ultimately show ?case
    using Suc.IH Suc.prems send_level_ok [of k ?W n ?o a k0 k1 init] kn h31 by (simp add: run_levels_snoc)
qed

lemma recv_level_first:
  assumes "1 < n" and "n \<le> length output" and "vals ! 0 = seed_child a (if bit choice 0 then k0 else k1) seed"
  shows "recv_level a [k0, k1] n choice vals 0 output =
    Inr ([seed_child a k0 seed, seed_child a k1 seed][take_bit 1 choice := 0] @ drop 2 output)"
proof -
  obtain x y ys where o: "output = x # y # ys" using assms(1,2) by (cases "output"; cases "tl output") simp_all
  have P: "GetPuncturedIndex choice 0 = (if bit choice 0 then 1 else 0)" "GetInsertedIndex choice 0 = (if bit choice 0 then 0 else 1)"
    using index_pair [of choice 0] by simp_all
  have t: "take_bit 1 choice = (if bit choice 0 then 1 else 0)" using P(1) by (simp add: GetPuncturedIndex_def)
  show ?thesis unfolding recv_level_def P t using assms by (cases "bit choice 0") (simp_all add: o)
qed

lemma recv_run:
  assumes h31: "height \<le> 31" and n: "2 ^ (height - 1) < n" "n \<le> length output" "1 < n" and k: "1 \<le> k" "k \<le> height" and idx: "take_bit height choice < n"
    and vals: "\<And>i. i < height \<Longrightarrow> vals ! i = xor_sum (map (seed_child a (if bit choice i then k0 else k1))
      (ggm_seeds (seed_child a k0) (seed_child a k1) seed i)) 0"
  shows "run_levels (recv_level a [k0, k1] n choice vals) [0 ..< k] output =
    Inr (take n ((ggm_seeds (seed_child a k0) (seed_child a k1) seed k)[take_bit k choice := 0]) @ drop (min (2 ^ k) n) output)"
  using k
proof (induction k)
  case (Suc k)
  let ?W = "ggm_seeds (seed_child a k0) (seed_child a k1) seed k" and ?p = "take_bit k choice"
  show ?case
  proof (cases "k = 0")
    case True
    have "vals ! 0 = seed_child a (if bit choice 0 then k0 else k1) seed" using vals [of 0] Suc.prems by simp
    note first = recv_level_first [OF n(3,2) this]
    have G: "ggm_seeds (seed_child a k0) (seed_child a k1) seed (Suc k) = [seed_child a k0 seed, seed_child a k1 seed]" using True by simp
    have "take n ([seed_child a k0 seed, seed_child a k1 seed][take_bit 1 choice := 0]) = [seed_child a k0 seed, seed_child a k1 seed][take_bit 1 choice := 0]"
      using n(3) by (intro take_all) (simp del: list_update.simps)
    moreover have "min (2 ^ Suc k) n = 2" "[0 ..< Suc k] = [0]" "take_bit (Suc k) choice = take_bit 1 choice" using True n(3) by simp_all
    ultimately show ?thesis unfolding G using first by (simp only: run_levels.simps followed_def sum.case)
  next
    case False
    have kh: "k < height" using Suc.prems by simp
    have kn: "2 ^ k < n" by (rule level_bound [OF n(1) kh])
    let ?o = "take n (?W[?p := 0]) @ drop (min (2 ^ k) n) output"
    have o: "?o = ?W[?p := 0] @ drop (2 ^ k) output" using kn by simp
    have lo: "length ?o = length output" using kn n(2) by simp
    have "min (2 ^ Suc k) n \<le> length ?o" using n(2) lo by simp
    moreover have "take (2 ^ k) ?o = ?W[?p := 0]" unfolding o by simp
    moreover have "drop (min (2 ^ Suc k) n) ?o = drop (min (2 ^ Suc k) n) output"
    proof -
      have "2 ^ k \<le> min (2 ^ Suc k) n" using kn by simp
      then show ?thesis unfolding o by simp
    qed
    moreover have "GetPuncturedIndex choice k < n" by (rule punctured_inside [OF n(1) kh idx])
    ultimately have "recv_level a [k0, k1] n choice vals k ?o =
        Inr (take n ((map (seed_child a k0) ?W @ map (seed_child a k1) ?W)[GetPuncturedIndex choice k := 0]) @ drop (min (2 ^ Suc k) n) output)"
      using recv_level_ok [of k ?W n ?o ?p choice vals a k0 k1] kn h31 kh False vals [OF kh] by simp
    then show ?thesis using Suc.IH False kh by (simp add: run_levels_snoc GetPuncturedIndex_def)
  qed
qed simp

subsection \<open>The check accepts\<close>

lemma xor_bytes_nth: "k < length x \<Longrightarrow> k < length y \<Longrightarrow> xor_bytes x y ! k = x ! k XOR y ! k"
  by (simp add: xor_bytes_def)

lemma length_xor_bytes [simp]: "length (xor_bytes x y) = min (length x) (length y)"
  by (simp add: xor_bytes_def)

lemma xor_bytes_laws:
  "xor_bytes x y = xor_bytes y x" "xor_bytes (xor_bytes x y) z = xor_bytes x (xor_bytes y z)"
  "xor_bytes y (xor_bytes x z) = xor_bytes x (xor_bytes y z)"
  by (rule nth_equalityI; simp add: xor_bytes_nth ac_simps)+

lemma xor_bytes_zero: "length x = m \<Longrightarrow> xor_bytes x (replicate m 0) = x" "length x = m \<Longrightarrow> xor_bytes x x = replicate m 0"
  by (rule nth_equalityI; simp add: xor_bytes_nth)+

lemma xor_bytes_cancel: "length x = length y \<Longrightarrow> xor_bytes x (xor_bytes x y) = y"
  by (rule nth_equalityI) (simp_all add: xor_bytes_nth flip: xor.assoc)

lemma fold_xor_start:
  assumes "\<forall>x \<in> set xs. length x = m" and "length z = m"
  shows "fold xor_bytes xs z = xor_bytes z (fold xor_bytes xs (replicate m 0)) \<and> length (fold xor_bytes xs z) = m"
  using assms
proof (induction xs arbitrary: z)
  case Nil
  then show ?case by (simp add: xor_bytes_zero)
next
  case (Cons x xs)
  have "fold xor_bytes xs (xor_bytes x z) = xor_bytes (xor_bytes x z) (fold xor_bytes xs (replicate m 0))"
    "length (fold xor_bytes xs (xor_bytes x z)) = m" using conjunct1 [OF Cons.IH [of "xor_bytes x z"]] conjunct2 [OF Cons.IH [of "xor_bytes x z"]] Cons.prems by auto
  moreover have "fold xor_bytes xs (xor_bytes x (replicate m 0)) = xor_bytes x (fold xor_bytes xs (replicate m 0))"
    using Cons.IH [of x] Cons.prems by (simp add: xor_bytes_zero)
  ultimately show ?case by (simp add: xor_bytes_laws)
qed

lemma fold_xor_update:
  assumes "\<forall>x \<in> set xs. length x = m" and "length v = m" and "p < length xs"
  shows "fold xor_bytes (xs[p := v]) (replicate m 0) = xor_bytes (xor_bytes (xs ! p) v) (fold xor_bytes xs (replicate m 0))"
proof -
  let ?z = "replicate m 0 :: byte list"
  have x: "xs = take p xs @ xs ! p # drop (Suc p) xs" using assms(3) by (rule id_take_nth_drop)
  have y: "xs[p := v] = take p xs @ v # drop (Suc p) xs" using assms(3) by (rule upd_conv_take_nth_drop)
  have l: "\<forall>x \<in> set (take p xs). length x = m" "\<forall>x \<in> set (drop (Suc p) xs). length x = m" "length (xs ! p) = m"
    using assms(1,3) by (auto dest: in_set_takeD in_set_dropD)
  define A where "A = fold xor_bytes (take p xs) ?z"
  have lA: "length A = m" using fold_xor_start [OF l(1), of ?z] by (simp add: A_def)
  have F: "fold xor_bytes (take p xs @ w # drop (Suc p) xs) ?z = xor_bytes w (xor_bytes A (fold xor_bytes (drop (Suc p) xs) ?z))" if "length w = m" for w
    using fold_xor_start [OF l(2), of "xor_bytes w A"] that lA by (simp add: A_def [symmetric] xor_bytes_laws)
  have "fold xor_bytes xs ?z = xor_bytes (xs ! p) (xor_bytes A (fold xor_bytes (drop (Suc p) xs) ?z))"
    using F [OF l(3)] x by simp
  then show ?thesis unfolding y F [OF assms(2)]
    using xor_bytes_cancel [of "xs ! p"] l(3) assms(2) lA fold_xor_start [OF l(2), of ?z]
    by (simp add: xor_bytes_laws(2,3) xor_bytes_laws(1) [of _ v])
qed

lemma check_accepts:
  assumes "\<And>x. length (Blake3 x) = 32" and "index < n" and "n \<le> length os" and "n \<le> length rs"
    and "\<And>i. i < n \<Longrightarrow> i \<noteq> index \<Longrightarrow> rs ! i = os ! i"
  shows "VerifyCheckMsg Blake3 n index rs (GenCheckMsg Blake3 n os) = Inr True"
proof -
  define S where "S = map (\<lambda>i. Blake3 (bytes_of_u128 (os ! i))) [0 ..< n]"
  define R where "R = map (\<lambda>i. Blake3 (bytes_of_u128 (rs ! i))) [0 ..< n]"
  let ?v = "Blake3 (bytes_of_u128 (rs ! index))" and ?z = "replicate 32 0 :: byte list"
  have R: "R = S[index := ?v]" using assms(2,5) by (intro nth_equalityI) (auto simp: R_def S_def nth_list_update)
  have lS: "\<forall>x \<in> set S. length x = 32" "\<forall>x \<in> set R. length x = 32" "index < length S" "length (S ! index) = 32"
    using assms(1,2) by (auto simp: S_def R_def)
  let ?X = "fold xor_bytes S ?z"
  have lX: "length ?X = 32" using fold_xor_start [OF lS(1), of ?z] by simp
  have "fold xor_bytes R ?X = xor_bytes ?X (fold xor_bytes R ?z)" using fold_xor_start [OF lS(2) lX] by simp
  also have "\<dots> = xor_bytes ?X (xor_bytes (xor_bytes (S ! index) ?v) ?X)"
    unfolding R using fold_xor_update [OF lS(1) assms(1) lS(3)] by simp
  also have "\<dots> = xor_bytes (S ! index) ?v"
    using xor_bytes_cancel [of ?X "xor_bytes (S ! index) ?v"] lX lS(4) assms(1) by (simp add: xor_bytes_laws(1) [of _ ?X])
  finally have T: "fold xor_bytes R ?X = xor_bytes (S ! index) ?v" .
  have "xor_bytes (fold xor_bytes R ?X) (R ! index) = S ! index"
    unfolding T unfolding R using lS(3,4) xor_bytes_cancel [of ?v "S ! index"] assms(1)
    by (simp add: xor_bytes_laws(1) [of _ ?v])
  then have "R[index := xor_bytes (fold xor_bytes R ?X) (R ! index)] = S" unfolding R using lS(3) by simp
  then show ?thesis using assms(2) by (simp add: VerifyCheckMsg_def GenCheckMsg_def Let_def S_def R_def)
qed


subsection \<open>Correctness of the protocols\<close>

text \<open>
  A pair of stores with random transfers: the receiver holds the message of its choice.  It need
  not be correlated.
\<close>

definition ot_pair :: "ot_heap \<Rightarrow> OtSendStore \<Rightarrow> ot_heap \<Rightarrow> OtRecvStore \<Rightarrow> bool" where
  "ot_pair hs s hr r \<longleftrightarrow> recv_ok hr r \<and> send_Size s = internal_use_size r
     \<and> (\<forall>i < internal_use_size r. \<exists>b k0 k1. recv_GetChoice hr r i = Inr b \<and> recv_GetBlock hr r i = Inr (if b then k1 else k0)
         \<and> send_GetBlock hs s i 0 = Inr k0 \<and> send_GetBlock hs s i 1 = Inr k1)"

definition ot_holds :: "ot_heap \<Rightarrow> OtSendStore \<Rightarrow> ot_heap \<Rightarrow> OtRecvStore \<Rightarrow> (nat \<Rightarrow> bool \<Rightarrow> 128 word) \<Rightarrow> (nat \<Rightarrow> bool) \<Rightarrow> bool" where
  "ot_holds hs s hr r K b \<longleftrightarrow> (\<forall>i < rsize r. recv_GetChoice hr r (of_nat i) = Inr (b i) \<and> recv_GetBlock hr r (of_nat i) = Inr (K i (b i))
     \<and> (\<forall>x. send_GetBlock hs s (of_nat i) (of_bool x) = Inr (K i x)))"

lemma of_nat_index:
  assumes "i < rsize r"
  shows "unat (of_nat i :: 64 word) = i" and "of_nat i < internal_use_size r"
proof -
  have "rsize r < 2 ^ 64" unfolding rsize_def using unsigned_less [of "internal_use_size r"] by simp
  then show u: "unat (of_nat i :: 64 word) = i" using assms by (simp add: unat_of_nat)
  show "of_nat i < internal_use_size r" using assms u by (simp add: word_less_nat_alt rsize_def)
qed

lemma ot_values:
  assumes "ot_pair hs s hr r"
  obtains K b where "ot_holds hs s hr r K b"
proof -
  have "\<forall>i. \<exists>b k. i < rsize r \<longrightarrow> recv_GetChoice hr r (of_nat i) = Inr b \<and> recv_GetBlock hr r (of_nat i) = Inr (k b)
     \<and> (\<forall>x. send_GetBlock hs s (of_nat i) (of_bool x) = Inr (k x))"
  proof (intro allI)
    fix i
    show "\<exists>b k. i < rsize r \<longrightarrow> recv_GetChoice hr r (of_nat i) = Inr b \<and> recv_GetBlock hr r (of_nat i) = Inr (k b)
     \<and> (\<forall>x. send_GetBlock hs s (of_nat i) (of_bool x) = Inr (k x))"
    proof (cases "i < rsize r")
      case True
      from of_nat_index(2) [OF True] assms obtain b k0 k1 where "recv_GetChoice hr r (of_nat i) = Inr b"
        "recv_GetBlock hr r (of_nat i) = Inr (if b then k1 else k0)" "send_GetBlock hs s (of_nat i) 0 = Inr k0" "send_GetBlock hs s (of_nat i) 1 = Inr k1"
        by (auto simp: ot_pair_def)
      then show ?thesis by (intro exI [of _ b] exI [of _ "\<lambda>x. if x then k1 else k0"]) simp
    qed simp
  qed
  then obtain b K where "\<forall>i. i < rsize r \<longrightarrow> recv_GetChoice hr r (of_nat i) = Inr (b i) \<and> recv_GetBlock hr r (of_nat i) = Inr (K i (b i))
     \<and> (\<forall>x. send_GetBlock hs s (of_nat i) (of_bool x) = Inr (K i x))" by metis
  then show ?thesis by (intro that [of K b]) (simp add: ot_holds_def)
qed

lemma recv_CopyBitBuf_ok:
  assumes "recv_ok h r" and c: "\<And>i. i < rsize r \<Longrightarrow> recv_GetChoice h r (of_nat i) = Inr (b i)"
  shows "recv_CopyBitBuf h r = Inr (map b [0 ..< rsize r])"
proof (cases "recv_type r")
  case Compact
  have "followed (recv_GetBlock h r (of_nat i)) (\<lambda>x. Inr (x AND 1 = 1)) = Inr (b i)" if "i < rsize r" for i
    using c [OF that] Compact by (auto simp: recv_GetChoice_def recv_GetBlock_def)
  then have "collect (\<lambda>i. followed (recv_GetBlock h r (of_nat i)) (\<lambda>x. Inr (x AND 1 = 1))) [0 ..< rsize r] = Inr (map b [0 ..< rsize r])"
    by (intro collect_map) simp
  then show ?thesis using Compact by (simp add: recv_CopyBitBuf_def rsize_def)
next
  case Normal
  then obtain bits where bits: "deref (bit_bufs h) (bit_buf r) = Inr bits" "inside r bits"
    using assms(1) by (auto simp: recv_ok_def inside_def)
  have b: "bits ! (unat (internal_use_ctr r) + i) = b i" if "i < rsize r" for i
  proof -
    have "unat (internal_use_ctr r + of_nat i) = unat (internal_use_ctr r) + i"
      using bits(2) that of_nat_index(1) [OF that] by (simp add: unat_word_ariths inside_def rsize_def)
    then show ?thesis using c [OF that] Normal bits(1) by (auto simp: recv_GetChoice_def GetBufIdx_def load_def split: if_splits)
  qed
  have "length (take (rsize r) (drop (unat (internal_use_ctr r)) bits)) = rsize r"
    using bits(2) unfolding inside_def rsize_def by (simp only: length_take length_drop) linarith
  then have "take (rsize r) (drop (unat (internal_use_ctr r)) bits) = map b [0 ..< rsize r]"
    using bits(2) b by (intro nth_equalityI) (simp_all add: inside_def rsize_def)
  then show ?thesis using Normal bits by (simp add: recv_CopyBitBuf_def rsize_def inside_def)
qed

text \<open>What both parties end with, from the seeds of the last level.\<close>

lemma nth_hashed: "i < n \<Longrightarrow> n \<le> length xs \<Longrightarrow> (map f (take n xs) @ drop n xs) ! i = f (xs ! i)"
  by (simp add: nth_append)

lemma refresh_ok:
  assumes "ecb_mode enc" and "\<forall>x. length (Blake3 x) = 32" and "index < n" and "n \<le> length W"
  shows "\<exists>rs. recv_refresh enc Blake3 mal n index (GenCheckMsg Blake3 n (take n W @ A)) (take n (W[index := 0]) @ B) = Inr rs
    \<and> (\<forall>i < n. rs ! i = (if i = index then 0 else send_refresh enc mal n (take n W @ A) ! i))"
proof -
  let ?os = "take n W @ A" and ?or = "take n (W[index := 0]) @ B"
  have l: "n \<le> length ?os" "n \<le> length ?or" "index < length ?or" using assms(3,4) by simp_all
  have eq: "?or ! i = (if i = index then 0 else ?os ! i)" if "i < n" for i using that assms(3,4) by (simp add: nth_append nth_list_update)
  show ?thesis
  proof (cases mal)
    case False
    then show ?thesis using eq by (simp add: recv_refresh_def send_refresh_def)
  next
    case True
    have v: "VerifyCheckMsg Blake3 n index ?or (GenCheckMsg Blake3 n ?os) = Inr True"
      by (rule check_accepts) (use assms l eq in simp_all)
    let ?rs = "(map (CrHash_128 enc) (take n ?or) @ drop n ?or)[index := 0]"
    have "?rs ! i = (if i = index then 0 else (map (CrHash_128 enc) (take n ?os) @ drop n ?os) ! i)" if "i < n" for i
    proof (cases "i = index")
      case True
      then show ?thesis using l(2,3) assms(3) by simp
    next
      case False
      then show ?thesis using eq [OF that] by (simp only: nth_list_update_neq nth_hashed [OF that l(1)] nth_hashed [OF that l(2)] if_False)
    qed
    then show ?thesis using True v by (simp add: recv_refresh_def send_refresh_def ParaCrHashInplace_map [OF assms(1)])
  qed
qed

text \<open>What the two stores hold, for the number of levels.\<close>

lemma ot_setup:
  assumes "ot_pair hs s hr r" and "Log2Ceil (of_nat n) = Inr height" and "height \<le> rsize r" and "1 < n" and "n \<le> 2 ^ 31"
  obtains K b where "1 \<le> height" and "height \<le> 31" and "2 ^ (height - 1) < n" and "n \<le> 2 ^ height"
    and "unat (send_Size s) = rsize r" and "ot_holds hs s hr r K b"
proof -
  obtain h where h: "Log2Ceil (of_nat n) = Inr h" "1 \<le> h" "2 ^ (h - 1) < n" "n \<le> 2 ^ h"
    using Log2Ceil_ok [of n] assms(4,5) by auto
  then have "h = height" using assms(2) by simp
  moreover have "h < 32" by (rule height_small [OF h(3) assms(5)])
  moreover obtain K b where "ot_holds hs s hr r K b" using ot_values [OF assms(1)] .
  moreover have "unat (send_Size s) = rsize r" using assms(1) by (simp add: ot_pair_def rsize_def)
  ultimately show ?thesis using that h by simp
qed

lemma ot_holdsD:
  assumes "ot_holds hs s hr r K b" and "i < height" and "height \<le> rsize r"
  shows "recv_GetChoice hr r (of_nat i) = Inr (b i)" and "recv_GetBlock hr r (of_nat i) = Inr (K i (b i))"
    and "send_GetBlock hs s (of_nat i) (of_bool x) = Inr (K i x)"
  using assms by (simp_all add: ot_holds_def)

lemma send_GetBlock_bits:
  assumes "ot_holds hs s hr r K b" and "i < height" and "height \<le> rsize r"
  shows "send_GetBlock hs s (of_nat i) 0 = Inr (K i False)" and "send_GetBlock hs s (of_nat i) 1 = Inr (K i True)"
  using ot_holdsD(3) [OF assms, of False] ot_holdsD(3) [OF assms, of True] by simp_all

lemma open_sums_ok:
  assumes "ot_holds hs s hr r K b" and "height \<le> rsize r"
  shows "open_sums hr r choice height msgs =
    Inr (map (\<lambda>i. (if bit choice i then fst (msgs ! i) else snd (msgs ! i)) XOR K i (b i)) [0 ..< height])"
  unfolding open_sums_def by (rule collect_map) (simp add: ot_holdsD [OF assms(1) _ assms(2)])

theorem sgrr_correct:
  assumes "ecb_mode enc" and "\<forall>x. length (Blake3 x) = 32" and "ot_pair hs s hr r" and "Log2Ceil (of_nat n) = Inr height" and "height \<le> rsize r"
    and "rsize r \<le> 128" and "1 < n" and "n \<le> 2 ^ 31" and "index < n" and "n \<le> length out_s" and "n \<le> length out_r"
  shows "\<exists>masked os msgs pf rs. SgrrOtExtRecv_choice hr r n index = Inr masked
    \<and> SgrrOtExtSend a [k0, k1] enc Blake3 hs s n seed out_s mal masked = Inr (os, msgs, pf)
    \<and> SgrrOtExtRecv a [k0, k1] enc Blake3 hr r n index out_r mal msgs pf = Inr rs
    \<and> (\<forall>i < n. rs ! i = (if i = index then 0 else os ! i))"
proof -
  obtain K b where h: "1 \<le> height" "height \<le> 31" "2 ^ (height - 1) < n" "n \<le> 2 ^ height"
    and sz: "unat (send_Size s) = rsize r" and H: "ot_holds hs s hr r K b" using ot_setup [OF assms(3,4,5,7,8)] .
  have usz: "unat (internal_use_size r) = rsize r" by (simp add: rsize_def)
  let ?f = "seed_child a k0" and ?g = "seed_child a k1"
  let ?W = "ggm_seeds ?f ?g seed" and ?idx = "take_bit height index"
  have idx: "?idx = index" using assms(9) h(4) by (simp add: take_bit_nat_eq_self)
  define masked where "masked = map (\<lambda>i. (\<not> bit index i) \<noteq> b i) [0 ..< height]"
  have mc: "SgrrOtExtRecv_choice hr r n index = Inr masked"
    using collect_map [of "[0 ..< height]" _ "\<lambda>i. (\<not> bit index i) \<noteq> b i"] assms(4,5,6,7,9) usz ot_holdsD(1) [OF H _ assms(5)]
    by (simp add: SgrrOtExtRecv_choice_def masked_def)
  define sums where "sums i = (xor_sum (map ?f (?W i)) 0, xor_sum (map ?g (?W i)) 0)" for i
  let ?os = "take n (?W height) @ drop n out_s"
  have run: "run_levels (send_level a [k0, k1] n (\<lambda>i. (0, 0))) [0 ..< height] (out_s[0 := seed], []) = Inr (?os, map sums [0 ..< height])"
    using send_run [OF h(2,3) assms(10) order_refl, of a k0 k1 "\<lambda>i. (0, 0)" seed] h(4) by (simp add: sums_def min_def)
  define msgs where "msgs = map (\<lambda>i. (fst (sums i) XOR K i (masked ! i), snd (sums i) XOR K i (\<not> masked ! i))) [0 ..< height]"
  have col: "collect (\<lambda>i. followed (send_GetBlock hs s (of_nat i) (of_bool (masked ! i))) (\<lambda>k0.
      followed (send_GetBlock hs s (of_nat i) (1 - of_bool (masked ! i))) (\<lambda>k1.
      Inr (fst (map sums [0 ..< height] ! i) XOR k0, snd (map sums [0 ..< height] ! i) XOR k1)))) [0 ..< height] = Inr msgs"
    unfolding msgs_def by (rule collect_map) (simp add: one_minus ot_holdsD(3) [OF H _ assms(5)] del: of_bool_not_iff)
  have ne: "out_s \<noteq> []" using assms(7,10) by auto
  have send: "SgrrOtExtSend a [k0, k1] enc Blake3 hs s n seed out_s mal masked = Inr (send_refresh enc mal n ?os, msgs, GenCheckMsg Blake3 n ?os)"
    unfolding SgrrOtExtSend_def assms(4) followed_simps run prod.case
    using col ne assms(5,7) sz by (simp add: masked_def)
  define vals where "vals = map (\<lambda>i. (if bit index i then fst (msgs ! i) else snd (msgs ! i)) XOR K i (b i)) [0 ..< height]"
  have v: "vals ! i = xor_sum (map (seed_child a (if bit index i then k0 else k1)) (?W i)) 0" if "i < height" for i
    using that by (cases "bit index i"; cases "b i") (simp_all add: vals_def msgs_def masked_def sums_def ac_simps)
  have rr: "run_levels (recv_level a [k0, k1] n index vals) [0 ..< height] out_r = Inr (take n ((?W height)[index := 0]) @ drop n out_r)"
    using recv_run [OF h(2,3) assms(11,7) h(1) order_refl, of index vals a k0 k1 seed] v h(4) assms(9) idx by (simp add: min_def)
  obtain rs where rs: "recv_refresh enc Blake3 mal n index (GenCheckMsg Blake3 n ?os) (take n ((?W height)[index := 0]) @ drop n out_r) = Inr rs"
    "\<forall>i < n. rs ! i = (if i = index then 0 else send_refresh enc mal n ?os ! i)"
    using refresh_ok [OF assms(1,2,9), of "?W height" mal "drop n out_s" "drop n out_r"] h(4) by auto
  have l: "length masked = height" "length msgs = height" by (simp_all add: masked_def msgs_def)
  have "SgrrOtExtRecv a [k0, k1] enc Blake3 hr r n index out_r mal msgs (GenCheckMsg Blake3 n ?os) = Inr rs"
    unfolding SgrrOtExtRecv_def mc followed_simps Let_def l open_sums_ok [OF H assms(5)] vals_def [symmetric] rr rs(1) by simp
  with mc send rs(2) show ?thesis by blast
qed

text \<open>The variant with a fixed index runs the same levels as long as the index is a message.\<close>

lemma recv_level_fixed_eq: "GetPuncturedIndex choice i < n \<Longrightarrow> recv_level_fixed a k n choice vals i = recv_level a k n choice vals i"
  by (rule ext) (simp only: recv_level_fixed_def recv_level_def Let_def simp_thms if_True)

lemma run_levels_cong: "\<forall>l \<in> set ls. f l = g l \<Longrightarrow> run_levels f ls st = run_levels g ls st"
proof (induction ls arbitrary: st)
  case (Cons l ls)
  then have "run_levels f ls = run_levels g ls" "f l = g l" by auto
  then show ?case by simp
qed simp

theorem sgrr_fixed_index_correct:
  assumes "ecb_mode enc" and "\<forall>x. length (Blake3 x) = 32" and "ot_pair hs s hr r" and "Log2Ceil (of_nat n) = Inr height" and "height \<le> rsize r"
    and "rsize r \<le> 128" and "1 < n" and "n \<le> 2 ^ 31" and "n \<le> length out_s" and "n \<le> length out_r"
  shows "\<exists>bits index os msgs pf. recv_CopyBitBuf hr r = Inr bits \<and> index = take_bit height (horner_sum of_bool 2 bits)
    \<and> SgrrOtExtSend_fixed_index a [k0, k1] enc Blake3 hs s n seed out_s mal = Inr (os, msgs, pf)
    \<and> (if index < n
       then \<exists>rs. SgrrOtExtRecv_fixed_index a [k0, k1] enc Blake3 hr r n out_r mal msgs pf = Inr rs \<and> (\<forall>i < n. rs ! i = (if i = index then 0 else os ! i))
       else \<forall>msgs' pf'. SgrrOtExtRecv_fixed_index a [k0, k1] enc Blake3 hr r n out_r mal msgs' pf' = Inl Enforce)"
proof -
  obtain K b where h: "1 \<le> height" "height \<le> 31" "2 ^ (height - 1) < n" "n \<le> 2 ^ height"
    and sz: "unat (send_Size s) = rsize r" and H: "ot_holds hs s hr r K b" using ot_setup [OF assms(3,4,5,7,8)] .
  have usz: "unat (internal_use_size r) = rsize r" by (simp add: rsize_def)
  let ?f = "seed_child a k0" and ?g = "seed_child a k1"
  let ?W = "ggm_seeds ?f ?g seed"
  define choice where "choice = (horner_sum of_bool 2 (map b [0 ..< rsize r]) :: nat)"
  define index where "index = take_bit height choice"
  have ok: "recv_ok hr r" using assms(3) by (simp add: ot_pair_def)
  have bits: "recv_CopyBitBuf hr r = Inr (map b [0 ..< rsize r])"
    by (rule recv_CopyBitBuf_ok [OF ok]) (use H in \<open>simp add: ot_holds_def\<close>)
  have cb: "bit choice i = b i" if "i < height" for i
    using that assms(5) by (simp add: choice_def bit_horner_sum_bit_iff)
  have P: "GetPuncturedIndex choice (height - 1) = index" using h(1) by (simp add: GetPuncturedIndex_def index_def)
  define init where "init = map (\<lambda>i. (K i True, K i False)) [0 ..< height]"
  have ini: "collect (\<lambda>i. followed (send_GetBlock hs s (of_nat i) 1) (\<lambda>k1. followed (send_GetBlock hs s (of_nat i) 0) (\<lambda>k0. Inr (k1, k0)))) [0 ..< height] = Inr init"
    unfolding init_def by (rule collect_map) (simp add: send_GetBlock_bits [OF H _ assms(5)])
  define msgs where "msgs = map (\<lambda>i. (xor_sum (map ?f (?W i)) (fst (init ! i)), xor_sum (map ?g (?W i)) (snd (init ! i)))) [0 ..< height]"
  let ?os = "take n (?W height) @ drop n out_s"
  have run: "run_levels (send_level a [k0, k1] n (\<lambda>i. init ! i)) [0 ..< height] (out_s[0 := seed], []) = Inr (?os, msgs)"
    using send_run [OF h(2,3) assms(9) order_refl, of a k0 k1 "\<lambda>i. init ! i" seed] h(4) by (simp add: msgs_def min_def)
  have ne: "out_s \<noteq> []" using assms(7,9) by auto
  have send: "SgrrOtExtSend_fixed_index a [k0, k1] enc Blake3 hs s n seed out_s mal = Inr (send_refresh enc mal n ?os, msgs, GenCheckMsg Blake3 n ?os)"
    unfolding SgrrOtExtSend_fixed_index_def assms(4) followed_simps ini run prod.case using ne assms(5,7) sz by simp
  define vals where "vals = map (\<lambda>i. (if bit choice i then fst (msgs ! i) else snd (msgs ! i)) XOR K i (b i)) [0 ..< height]"
  have v: "vals ! i = xor_sum (map (seed_child a (if bit choice i then k0 else k1)) (?W i)) 0" if "i < height" for i
    using that cb [OF that] xor_sum_start [of "map ?f (?W i)" "K i True"] xor_sum_start [of "map ?g (?W i)" "K i False"]
    by (cases "b i") (simp_all add: vals_def msgs_def init_def ac_simps)
  have l: "length msgs = height" by (simp add: msgs_def)
  have recv: "SgrrOtExtRecv_fixed_index a [k0, k1] enc Blake3 hr r n out_r mal msgs pf = enforce (index < n)
      (followed (run_levels (recv_level_fixed a [k0, k1] n choice vals) [0 ..< height] out_r) (recv_refresh enc Blake3 mal n index pf))" for pf
    unfolding SgrrOtExtRecv_fixed_index_def assms(4) followed_simps bits Let_def choice_def [symmetric] P l open_sums_ok [OF H assms(5)] vals_def [symmetric]
    using assms(5,6,7) usz by simp
  show ?thesis
  proof (cases "index < n")
    case True
    have "\<forall>i \<in> set [0 ..< height]. recv_level_fixed a [k0, k1] n choice vals i = recv_level a [k0, k1] n choice vals i"
      using punctured_inside [OF h(3)] True by (auto simp: index_def intro!: recv_level_fixed_eq)
    note fixed = run_levels_cong [OF this]
    have rr: "run_levels (recv_level_fixed a [k0, k1] n choice vals) [0 ..< height] out_r = Inr (take n ((?W height)[index := 0]) @ drop n out_r)"
      unfolding fixed using recv_run [OF h(2,3) assms(10,7) h(1) order_refl, of choice vals a k0 k1 seed] v h(4) True by (simp add: min_def index_def)
    obtain rs where "recv_refresh enc Blake3 mal n index (GenCheckMsg Blake3 n ?os) (take n ((?W height)[index := 0]) @ drop n out_r) = Inr rs"
      "\<forall>i < n. rs ! i = (if i = index then 0 else send_refresh enc mal n ?os ! i)"
      using refresh_ok [OF assms(1,2) True, of "?W height" mal "drop n out_s" "drop n out_r"] h(4) by auto
    with True bits send recv rr show ?thesis by (auto simp: index_def choice_def)
  next
    case False
    have "SgrrOtExtRecv_fixed_index a [k0, k1] enc Blake3 hr r n out_r mal msgs' pf' = Inl Enforce" for msgs' pf'
      unfolding SgrrOtExtRecv_fixed_index_def assms(4) followed_simps bits Let_def choice_def [symmetric] P using False by (simp add: enforce_def)
    then show ?thesis using False bits send by (auto simp: index_def choice_def)
  qed
qed

text \<open>Correlated transfers are transfers.\<close>

lemma cot_pair_ot_pair:
  assumes "cot_pair hs s hr r"
  shows "ot_pair hs s hr r"
  unfolding ot_pair_def
proof (intro conjI allI impI)
  show "recv_ok hr r" and "send_Size s = internal_use_size r" using assms by (simp_all add: cot_pair_def)
  fix i assume "i < internal_use_size r"
  then have i: "unat i < rsize r" by (simp add: rsize_def word_less_nat_alt)
  obtain K b where "\<forall>i < rsize r. recv_GetChoice hr r (of_nat i) = Inr (b i)
    \<and> recv_GetBlock hr r (of_nat i) = Inr (K i XOR (if b i then send_delta s else 0))
    \<and> (\<forall>x. send_GetBlock hs s (of_nat i) (of_bool x) = Inr (K i XOR (if x then send_delta s else 0)))"
    using cot_values [OF assms] by blast
  note V = this [rule_format, OF i]
  have "recv_GetChoice hr r i = Inr (b (unat i))" "recv_GetBlock hr r i = Inr (K (unat i) XOR (if b (unat i) then send_delta s else 0))"
    using V by simp_all
  moreover have "send_GetBlock hs s i 0 = Inr (K (unat i))" using V [THEN conjunct2, THEN conjunct2, THEN spec, of False] by simp
  moreover have "send_GetBlock hs s i 1 = Inr (K (unat i) XOR send_delta s)" using V [THEN conjunct2, THEN conjunct2, THEN spec, of True] by simp
  ultimately show "\<exists>b k0 k1. recv_GetChoice hr r i = Inr b \<and> recv_GetBlock hr r i = Inr (if b then k1 else k0)
      \<and> send_GetBlock hs s i 0 = Inr k0 \<and> send_GetBlock hs s i 1 = Inr k1"
    by (cases "b (unat i)") auto
qed

lemma sample_ot: "ot_pair (sample_heap [16, 32] []) (sample_send 7) (sample_heap [16 XOR 7, 32] [True, False]) (sample_recv Normal)"
  by (rule cot_pair_ot_pair [OF sample_pair])

end
