(* ===== verification/Cuckoo.thy ===== *)
theory Cuckoo
  imports Prelude "HOL-Library.Multiset"
begin

text \<open>
  \<^verbatim>\<open>coding/batch/cuckoo_index\<close>: the index that gives every input one bin.  A bin is a 64-bit word with
  8 bits for the number of the hash function and 56 bits for the number of the input; the word of
  ones is the empty bin.  \<open>CuckooInsert\<close> (\<^verbatim>\<open>Insert\<close>) is the loop of the source: the list of candidates is overwritten
  in place while it is read, an evicted input is tried with its next hash function, and what is
  left after the allowed number of rounds goes to the stash.

  The product of an integer with the scale factor is computed by the source in floating point; the
  factor is represented by the function that gives this product as a 64-bit number, and the
  theorems hold for every such function.  \<open>None\<close> is an access out of range or a division by zero.
\<close>

unbundle bit_operations_syntax

datatype cuckoo_error =
    Bad_num_hash
  | Too_many_inputs
  | No_stash_space "64 word"
  | Undefined
  | Already_exists "64 word"
  | Wrong_count
  | Cannot_find "64 word"

type_synonym 'a cuckoo_result = "cuckoo_error + 'a"

definition elem_at :: "'a list \<Rightarrow> nat \<Rightarrow> 'a option" where
  "elem_at xs i = (if i < length xs then Some (xs ! i) else None)"

definition umod :: "64 word \<Rightarrow> 64 word \<Rightarrow> 64 word option" where
  "umod x y = (if y = 0 then None else Some (x mod y))"

subsection \<open>Bins and hash codes\<close>

definition kEmpty :: "64 word" where
  "kEmpty = - 1"

definition HashIdx :: "64 word \<Rightarrow> 8 word" where
  "HashIdx encoded = ucast (drop_bit 56 encoded)"

definition InputIdx :: "64 word \<Rightarrow> 64 word" where
  "InputIdx encoded = encoded AND drop_bit 8 (- 1)"

definition IsEmpty :: "64 word \<Rightarrow> bool" where
  "IsEmpty encoded \<longleftrightarrow> encoded = kEmpty"

definition Encode :: "64 word \<Rightarrow> 8 word \<Rightarrow> 64 word" where
  "Encode input_idx hash_idx = input_idx OR push_bit 56 (ucast hash_idx)"

text \<open>Eight bytes of the code, from byte \<open>2 * idx\<close> on.\<close>

definition GetHash :: "128 word \<Rightarrow> nat \<Rightarrow> 64 word option" where
  "GetHash code idx = (if idx * 2 + 8 \<le> 16 then Some (ucast (drop_bit (8 * (idx * 2)) code)) else None)"

record cuckoo_options =
  num_input :: "64 word"
  num_stash :: "64 word"
  num_hash :: "64 word"
  scale_factor :: "64 word \<Rightarrow> 64 word"
  max_try_count :: "64 word"

definition NumBins :: "cuckoo_options \<Rightarrow> 64 word" where
  "NumBins opt =
     (let num_bins = scale_factor opt (num_input opt)
      in if num_stash opt = 0 \<and> num_input opt < 256 then num_bins + 8 else num_bins)"

record cuckoo =
  options :: cuckoo_options
  bins :: "64 word list"
  stash :: "64 word list"
  hashes :: "128 word list"

definition new_cuckoo :: "cuckoo_options \<Rightarrow> cuckoo cuckoo_result" where
  "new_cuckoo opt =
     (if (num_hash opt - 1) * 2 + 8 \<le> 16
      then Inr \<lparr>options = opt, bins = replicate (unat (NumBins opt)) kEmpty,
                stash = replicate (unat (num_stash opt)) kEmpty, hashes = []\<rparr>
      else Inl Bad_num_hash)"

subsection \<open>Insertion\<close>

text \<open>One iteration of the inner loop: the bins and the candidate made from the evicted input.\<close>

definition evict_step :: "cuckoo_options \<Rightarrow> 128 word list \<Rightarrow> 64 word list \<Rightarrow> 64 word \<Rightarrow> (64 word list \<times> 64 word option) option" where
  "evict_step opt hs bs candid = do {
     code \<leftarrow> elem_at hs (unat (InputIdx candid));
     h \<leftarrow> GetHash code (unat (HashIdx candid));
     bin_idx \<leftarrow> umod h (NumBins opt);
     evicted \<leftarrow> elem_at bs (unat bin_idx);
     let bs = bs[unat bin_idx := candid];
     if IsEmpty evicted then Some (bs, None)
     else do {
       n \<leftarrow> umod (ucast (HashIdx evicted) + 1) (num_hash opt);
       Some (bs, Some (Encode (InputIdx evicted) (ucast n))) } }"

text \<open>The inner loop, with the candidates overwritten up to \<open>write_idx\<close>.\<close>

function evict_round :: "cuckoo_options \<Rightarrow> 128 word list \<Rightarrow> nat \<Rightarrow> nat \<Rightarrow> 64 word list \<Rightarrow> 64 word list \<Rightarrow> (64 word list \<times> 64 word list) option" where
  "evict_round opt hs i write_idx candidates bs =
     (if i < length candidates then do {
        (bs, nxt) \<leftarrow> evict_step opt hs bs (candidates ! i);
        (case nxt of
           None \<Rightarrow> evict_round opt hs (Suc i) write_idx candidates bs
         | Some e \<Rightarrow> evict_round opt hs (Suc i) (Suc write_idx) (candidates[write_idx := e]) bs) }
      else Some (take write_idx candidates, bs))"
  by auto

termination
  by (relation "measure (\<lambda>(opt, hs, i, w, cs, bs). length cs - i)") auto

declare evict_round.simps [simp del]

text \<open>The outer loop; the number is what is left of \<open>max_try_count\<close>.\<close>

fun insert_loop :: "cuckoo_options \<Rightarrow> 128 word list \<Rightarrow> nat \<Rightarrow> 64 word list \<Rightarrow> 64 word list \<Rightarrow> (64 word list \<times> 64 word list) option" where
  "insert_loop opt hs 0 candidates bs = Some (candidates, bs)"
| "insert_loop opt hs (Suc k) candidates bs =
     (if candidates = [] then Some (candidates, bs)
      else do {
        (candidates, bs) \<leftarrow> evict_round opt hs 0 0 candidates bs;
        insert_loop opt hs k candidates bs })"

fun stash_slot :: "64 word \<Rightarrow> 64 word list \<Rightarrow> 64 word list option" where
  "stash_slot input_idx [] = None"
| "stash_slot input_idx (b # bs) =
     (if IsEmpty b then Some (input_idx # bs) else map_option ((#) b) (stash_slot input_idx bs))"

definition PutToStash :: "64 word \<Rightarrow> cuckoo \<Rightarrow> unit cuckoo_result \<times> cuckoo" where
  "PutToStash input_idx c =
     (case stash_slot input_idx (stash c) of
        None \<Rightarrow> (Inl (No_stash_space input_idx), c)
      | Some s \<Rightarrow> (Inr (), c\<lparr>stash := s\<rparr>))"

fun stash_all :: "64 word list \<Rightarrow> cuckoo \<Rightarrow> unit cuckoo_result \<times> cuckoo" where
  "stash_all [] c = (Inr (), c)"
| "stash_all (b # bs) c =
     (case PutToStash (InputIdx b) c of
        (Inl e, c) \<Rightarrow> (Inl e, c)
      | (Inr _, c) \<Rightarrow> stash_all bs c)"

definition CuckooInsert :: "128 word list \<Rightarrow> cuckoo \<Rightarrow> unit cuckoo_result \<times> cuckoo" where
  "CuckooInsert codes c =
     (let input_offset = length (hashes c);
          c = c\<lparr>hashes := hashes c @ codes\<rparr>
      in if \<not> length (hashes c) \<le> unat (num_input (options c)) then (Inl Too_many_inputs, c)
         else
           (let candidates = map (\<lambda>i. of_nat (input_offset + i)) [0 ..< length codes]
            in case insert_loop (options c) (hashes c) (unat (max_try_count (options c))) candidates (bins c) of
                 None \<Rightarrow> (Inl Undefined, c)
               | Some (candidates, bs) \<Rightarrow> stash_all candidates (c\<lparr>bins := bs\<rparr>)))"

subsection \<open>Queries\<close>

text \<open>The ordered set of the source is a sorted list.\<close>

fun sanity_insert :: "64 word list \<Rightarrow> 64 word list \<Rightarrow> 64 word list cuckoo_result" where
  "sanity_insert [] s = Inr s"
| "sanity_insert (b # bs) s =
     (if IsEmpty b then sanity_insert bs s
      else if InputIdx b \<in> set s then Inl (Already_exists (InputIdx b))
      else sanity_insert bs (insort (InputIdx b) s))"

fun sanity_order :: "nat \<Rightarrow> 64 word list \<Rightarrow> unit cuckoo_result" where
  "sanity_order idx [] = Inr ()"
| "sanity_order idx (i # is) = (if of_nat idx = i then sanity_order (Suc idx) is else Inl (Cannot_find i))"

definition SanityCheck :: "cuckoo \<Rightarrow> unit cuckoo_result" where
  "SanityCheck c =
     (case sanity_insert (bins c) [] of
        Inl e \<Rightarrow> Inl e
      | Inr s \<Rightarrow>
          (case sanity_insert (stash c) s of
             Inl e \<Rightarrow> Inl e
           | Inr s \<Rightarrow> if of_nat (length s) = num_input (options c) then sanity_order 0 s else Inl Wrong_count))"

fun colliding_loop :: "128 word \<Rightarrow> 64 word \<Rightarrow> 64 word \<Rightarrow> nat list \<Rightarrow> 8 word option" where
  "colliding_loop code num_bins bin_index [] = Some (- 1)"
| "colliding_loop code num_bins bin_index (i # is) = do {
     h \<leftarrow> GetHash code i;
     target \<leftarrow> umod h num_bins;
     if target = bin_index then Some (of_nat i) else colliding_loop code num_bins bin_index is }"

definition MinCollidingHashIdx :: "64 word \<Rightarrow> cuckoo \<Rightarrow> 8 word option" where
  "MinCollidingHashIdx bin_index c = do {
     bin \<leftarrow> elem_at (bins c) (unat bin_index);
     code \<leftarrow> elem_at (hashes c) (unat (InputIdx bin));
     colliding_loop code (NumBins (options c)) bin_index [0 ..< unat (num_hash (options c))] }"

subsection \<open>The encoding of bins\<close>

lemma unat_take_bit: "unat (take_bit n (x :: 64 word)) = unat x mod 2 ^ n"
  by (simp only: unsigned_take_bit_eq) (simp only: take_bit_eq_mod)

lemma take_bit_self: "unat (i :: 64 word) < 2 ^ n \<Longrightarrow> take_bit n i = i"
  by (simp add: word_unat_eq_iff unat_take_bit)

lemma InputIdx_take_bit: "InputIdx e = take_bit 56 e"
  by (rule bit_word_eqI) (auto simp: InputIdx_def bit_simps)

lemma HashIdx_Encode [simp]:
  assumes "unat i < 2 ^ 56"
  shows "HashIdx (Encode i h) = h"
proof (rule bit_word_eqI)
  fix n assume n: "n < LENGTH(8)"
  have "take_bit 56 i = i" using assms by (rule take_bit_self)
  then have "bit i (n + 56) = bit (take_bit 56 i) (n + 56)" by simp
  then have "\<not> bit i (n + 56)" by (simp add: bit_take_bit_iff)
  then show "bit (HashIdx (Encode i h)) n = bit h n" using n by (auto simp: HashIdx_def Encode_def bit_simps ac_simps)
qed

lemma InputIdx_Encode [simp]: "InputIdx (Encode i h) = InputIdx i"
  by (rule bit_word_eqI) (auto simp: InputIdx_take_bit Encode_def bit_simps)

lemma InputIdx_small [simp]: "unat i < 2 ^ 56 \<Longrightarrow> InputIdx i = i"
  by (simp add: InputIdx_take_bit take_bit_self)

lemma InputIdx_less: "unat (InputIdx e) < 2 ^ 56"
  by (simp add: InputIdx_take_bit unat_take_bit)

lemma InputIdx_InputIdx [simp]: "InputIdx (InputIdx e) = InputIdx e"
  by (simp add: InputIdx_take_bit)

lemma HashIdx_small [simp]:
  assumes "unat i < 2 ^ 56"
  shows "HashIdx i = 0"
  using HashIdx_Encode [OF assms, of 0] by (simp add: Encode_def)

lemma HashIdx_empty: "IsEmpty e \<Longrightarrow> HashIdx e = 255"
  by (simp add: IsEmpty_def kEmpty_def HashIdx_def) (simp add: mask_eq_exp_minus_1)

subsection \<open>The invariant\<close>

text \<open>The inputs named by the bins that are not empty.\<close>

definition entries :: "64 word list \<Rightarrow> 64 word multiset" where
  "entries bs = mset (map InputIdx (filter (\<lambda>b. \<not> IsEmpty b) bs))"

definition options_ok :: "cuckoo_options \<Rightarrow> bool" where
  "options_ok opt \<longleftrightarrow> NumBins opt \<noteq> 0 \<and> 1 \<le> unat (num_hash opt) \<and> unat (num_hash opt) \<le> 5 \<and> unat (num_input opt) \<le> 2 ^ 56"

definition candidate_ok :: "cuckoo_options \<Rightarrow> 128 word list \<Rightarrow> 64 word \<Rightarrow> bool" where
  "candidate_ok opt hs b \<longleftrightarrow> unat (InputIdx b) < length hs \<and> unat (HashIdx b) < unat (num_hash opt)"

text \<open>A bin holds an input of which one of the hash values is the number of the bin.\<close>

definition bin_ok :: "cuckoo_options \<Rightarrow> 128 word list \<Rightarrow> nat \<Rightarrow> 64 word \<Rightarrow> bool" where
  "bin_ok opt hs j b \<longleftrightarrow> IsEmpty b \<or>
     candidate_ok opt hs b
     \<and> map_option (\<lambda>h. unat (h mod NumBins opt)) (GetHash (hs ! unat (InputIdx b)) (unat (HashIdx b))) = Some j"

definition bins_ok :: "cuckoo_options \<Rightarrow> 128 word list \<Rightarrow> 64 word list \<Rightarrow> bool" where
  "bins_ok opt hs bs \<longleftrightarrow> length bs = unat (NumBins opt) \<and> (\<forall>j < length bs. bin_ok opt hs j (bs ! j))"

lemma entries_simps [simp]:
  "entries [] = {#}" "entries (b # bs) = (if IsEmpty b then entries bs else add_mset (InputIdx b) (entries bs))"
  "entries (bs @ cs) = entries bs + entries cs"
  by (simp_all add: entries_def)

lemma entries_update:
  assumes "j < length bs" and "\<not> IsEmpty x"
  shows "entries (bs[j := x]) + entries [bs ! j] = entries bs + {#InputIdx x#}"
proof -
  have "bs = take j bs @ bs ! j # drop (Suc j) bs" using assms(1) by (rule id_take_nth_drop)
  moreover have "bs[j := x] = take j bs @ x # drop (Suc j) bs" using assms(1) by (rule upd_conv_take_nth_drop)
  ultimately show ?thesis
    using assms(2) entries_simps(3) [of "take j bs" "bs ! j # drop (Suc j) bs"] by simp
qed

lemma candidate_not_empty: "candidate_ok opt hs b \<Longrightarrow> options_ok opt \<Longrightarrow> \<not> IsEmpty b"
  using HashIdx_empty [of b] by (auto simp: candidate_ok_def options_ok_def)

lemma GetHash_Some:
  assumes "candidate_ok opt hs b" and "options_ok opt"
  obtains h where "GetHash code (unat (HashIdx b)) = Some h"
  using assms by (auto simp: candidate_ok_def options_ok_def GetHash_def)

lemma next_hash:
  assumes "options_ok opt"
  obtains n where "umod (ucast h + 1) (num_hash opt) = Some n" and "unat (ucast n :: 8 word) < unat (num_hash opt)"
proof -
  let ?n = "(ucast h + 1) mod num_hash opt"
  have nz: "num_hash opt \<noteq> 0" using assms by (auto simp: options_ok_def)
  then have l: "unat ?n < unat (num_hash opt)" by (simp add: unat_mod word_gt_0_no unat_gt_0)
  then have "unat ?n < 256" using assms by (simp add: options_ok_def)
  then have "unat (ucast ?n :: 8 word) = unat ?n" by (simp add: unsigned_ucast_eq take_bit_nat_eq_self)
  with that [of ?n] l nz show ?thesis by (simp add: umod_def)
qed

text \<open>What one eviction does: it succeeds, keeps the bins in order, and loses no input.\<close>

lemma evict_step_ok:
  assumes opt: "options_ok opt" and b: "bins_ok opt hs bs" and c: "candidate_ok opt hs candid"
  obtains bs' nxt where "evict_step opt hs bs candid = Some (bs', nxt)" and "bins_ok opt hs bs'"
    and "\<forall>e. nxt = Some e \<longrightarrow> candidate_ok opt hs e"
    and "entries bs' + entries (case nxt of None \<Rightarrow> [] | Some e \<Rightarrow> [e]) = entries bs + {#InputIdx candid#}"
proof -
  have len: "length bs = unat (NumBins opt)" and ok: "\<And>j. j < length bs \<Longrightarrow> bin_ok opt hs j (bs ! j)"
    using b by (simp_all add: bins_ok_def)
  have nb: "NumBins opt \<noteq> 0" using opt by (simp add: options_ok_def)
  let ?code = "hs ! unat (InputIdx candid)"
  obtain h where h: "GetHash ?code (unat (HashIdx candid)) = Some h" using GetHash_Some [OF c opt] .
  define j where "j = unat (h mod NumBins opt)"
  have j: "j < length bs" using nb by (simp add: j_def len unat_mod unat_gt_0)
  have ne: "\<not> IsEmpty candid" using candidate_not_empty [OF c opt] .
  have code: "elem_at hs (unat (InputIdx candid)) = Some ?code" using c by (simp add: elem_at_def candidate_ok_def)
  have at_j: "elem_at bs j = Some (bs ! j)" using j by (simp add: elem_at_def)
  let ?bs = "bs[j := candid]"
  have "bin_ok opt hs j candid" using c h by (simp add: bin_ok_def j_def)
  then have "bin_ok opt hs i (?bs ! i)" if "i < length bs" for i
    using ok [OF that] that by (cases "i = j") simp_all
  then have bs': "bins_ok opt hs ?bs" by (simp add: bins_ok_def len)
  have old: "evict_step opt hs bs candid =
    (if IsEmpty (bs ! j) then Some (?bs, None)
     else do { n \<leftarrow> umod (ucast (HashIdx (bs ! j)) + 1) (num_hash opt);
               Some (?bs, Some (Encode (InputIdx (bs ! j)) (ucast n))) })"
    by (simp add: evict_step_def code h umod_def nb at_j j_def [symmetric] Let_def)
  show ?thesis
  proof (cases "IsEmpty (bs ! j)")
    case True
    then show ?thesis using that [of ?bs None] bs' old entries_update [OF j ne] by simp
  next
    case False
    obtain n where n: "umod (ucast (HashIdx (bs ! j)) + 1) (num_hash opt) = Some n"
      and l: "unat (ucast n :: 8 word) < unat (num_hash opt)" using next_hash [OF opt] .
    let ?e = "Encode (InputIdx (bs ! j)) (ucast n)"
    have e: "InputIdx ?e = InputIdx (bs ! j)" "HashIdx ?e = ucast n" using InputIdx_less [of "bs ! j"] by simp_all
    have "candidate_ok opt hs (bs ! j)" using ok [OF j] False by (simp add: bin_ok_def)
    then have ce: "candidate_ok opt hs ?e" using l by (simp add: candidate_ok_def e)
    then have "\<not> IsEmpty ?e" using opt by (rule candidate_not_empty)
    with that [of ?bs "Some ?e"] False bs' old n ce entries_update [OF j ne] show ?thesis by (simp add: e)
  qed
qed

text \<open>The inner loop without the overwritten list.\<close>

fun evict_all :: "cuckoo_options \<Rightarrow> 128 word list \<Rightarrow> 64 word list \<Rightarrow> 64 word list \<Rightarrow> (64 word list \<times> 64 word list) option" where
  "evict_all opt hs [] bs = Some ([], bs)"
| "evict_all opt hs (c # cs) bs = do {
     (bs, nxt) \<leftarrow> evict_step opt hs bs c;
     (cs, bs) \<leftarrow> evict_all opt hs cs bs;
     Some ((case nxt of None \<Rightarrow> cs | Some e \<Rightarrow> e # cs), bs) }"

lemma evict_round_eq:
  assumes "w \<le> i"
  shows "evict_round opt hs i w cs bs = map_option (\<lambda>(new, bs). (take w cs @ new, bs)) (evict_all opt hs (drop i cs) bs)"
  using assms
proof (induction "length cs - i" arbitrary: i w cs bs)
  case 0
  then show ?case by (subst evict_round.simps) simp
next
  case (Suc n)
  then have i: "i < length cs" by simp
  have d: "drop i cs = cs ! i # drop (Suc i) cs" using i by (rule Cons_nth_drop_Suc [symmetric])
  show ?case
  proof (cases "evict_step opt hs bs (cs ! i)")
    case None
    then show ?thesis by (subst evict_round.simps) (simp add: i d)
  next
    case (Some r)
    obtain bs' nxt where r: "r = (bs', nxt)" by (cases r)
    show ?thesis
    proof (cases nxt)
      case None
      have "evict_round opt hs (Suc i) w cs bs' =
        map_option (\<lambda>(new, bs). (take w cs @ new, bs)) (evict_all opt hs (drop (Suc i) cs) bs')"
        by (rule Suc.hyps) (use Suc.hyps(2) Suc.prems in auto)
      with Some r None show ?thesis
        by (subst evict_round.simps) (cases "evict_all opt hs (drop (Suc i) cs) bs'"; simp add: i d split_def)
    next
      case (Some e)
      let ?cs = "cs[w := e]"
      have "evict_round opt hs (Suc i) (Suc w) ?cs bs' =
        map_option (\<lambda>(new, bs). (take (Suc w) ?cs @ new, bs)) (evict_all opt hs (drop (Suc i) ?cs) bs')"
        by (rule Suc.hyps) (use Suc.hyps(2) Suc.prems in auto)
      moreover have "drop (Suc i) ?cs = drop (Suc i) cs" using Suc.prems by (simp add: drop_update_cancel)
      moreover have "take (Suc w) ?cs = take w cs @ [e]" using Suc.prems i by (simp add: take_Suc_conv_app_nth)
      ultimately show ?thesis using \<open>evict_step opt hs bs (cs ! i) = Some r\<close> r Some
        by (subst evict_round.simps) (cases "evict_all opt hs (drop (Suc i) cs) bs'"; simp add: i d split_def)
    qed
  qed
qed

lemma evict_all_ok:
  assumes "options_ok opt" and "bins_ok opt hs bs" and "\<forall>c \<in> set cs. candidate_ok opt hs c"
  shows "\<exists>cs' bs'. evict_all opt hs cs bs = Some (cs', bs') \<and> bins_ok opt hs bs' \<and> (\<forall>c \<in> set cs'. candidate_ok opt hs c)
    \<and> length cs' \<le> length cs \<and> entries bs' + entries cs' = entries bs + entries cs"
  using assms(2,3)
proof (induction cs arbitrary: bs)
  case (Cons c cs)
  have c: "candidate_ok opt hs c" using Cons.prems(2) by simp
  then have ne: "\<not> IsEmpty c" using assms(1) by (rule candidate_not_empty)
  obtain bs1 nxt where s: "evict_step opt hs bs c = Some (bs1, nxt)" "bins_ok opt hs bs1"
    "\<forall>e. nxt = Some e \<longrightarrow> candidate_ok opt hs e"
    "entries bs1 + entries (case nxt of None \<Rightarrow> [] | Some e \<Rightarrow> [e]) = entries bs + {#InputIdx c#}"
    using evict_step_ok [OF assms(1) Cons.prems(1) c] .
  obtain cs2 bs2 where r: "evict_all opt hs cs bs1 = Some (cs2, bs2)" "bins_ok opt hs bs2" "\<forall>c \<in> set cs2. candidate_ok opt hs c"
    "length cs2 \<le> length cs" "entries bs2 + entries cs2 = entries bs1 + entries cs"
    using Cons.IH [OF s(2)] Cons.prems(2) by auto
  let ?cs = "case nxt of None \<Rightarrow> cs2 | Some e \<Rightarrow> e # cs2"
  have e: "entries ?cs = entries (case nxt of None \<Rightarrow> [] | Some e \<Rightarrow> [e]) + entries cs2" by (simp split: option.split)
  have "entries bs2 + entries ?cs = (entries bs2 + entries cs2) + entries (case nxt of None \<Rightarrow> [] | Some e \<Rightarrow> [e])"
    unfolding e by (simp only: ac_simps)
  also have "\<dots> = (entries bs1 + entries (case nxt of None \<Rightarrow> [] | Some e \<Rightarrow> [e])) + entries cs"
    unfolding r(5) by (simp only: ac_simps)
  also have "\<dots> = entries bs + entries (c # cs)" unfolding s(4) using ne by simp
  finally have "entries bs2 + entries ?cs = entries bs + entries (c # cs)" .
  moreover have "evict_all opt hs (c # cs) bs = Some (?cs, bs2)" by (simp add: s(1) r(1))
  moreover have "\<forall>c \<in> set ?cs. candidate_ok opt hs c" "length ?cs \<le> length (c # cs)"
    using s(3) r(3,4) by (simp_all split: option.split)
  ultimately show ?case using r(2) by blast
qed simp

lemma insert_loop_ok:
  assumes "options_ok opt" and "bins_ok opt hs bs" and "\<forall>c \<in> set cs. candidate_ok opt hs c"
  shows "\<exists>cs' bs'. insert_loop opt hs k cs bs = Some (cs', bs') \<and> bins_ok opt hs bs' \<and> (\<forall>c \<in> set cs'. candidate_ok opt hs c)
    \<and> length cs' \<le> length cs \<and> entries bs' + entries cs' = entries bs + entries cs"
  using assms(2,3)
proof (induction k arbitrary: cs bs)
  case (Suc k)
  show ?case
  proof (cases "cs = []")
    case False
    obtain cs1 bs1 where r: "evict_all opt hs cs bs = Some (cs1, bs1)" "bins_ok opt hs bs1" "\<forall>c \<in> set cs1. candidate_ok opt hs c"
      "length cs1 \<le> length cs" "entries bs1 + entries cs1 = entries bs + entries cs"
      using evict_all_ok [OF assms(1) Suc.prems] by blast
    have "evict_round opt hs 0 0 cs bs = Some (cs1, bs1)" using evict_round_eq [of 0 0 opt hs cs bs] r(1) by simp
    then have l: "insert_loop opt hs (Suc k) cs bs = insert_loop opt hs k cs1 bs1" using False by simp
    show ?thesis unfolding l r(5) [symmetric] using Suc.IH [OF r(2,3)] r(4) by fastforce
  qed (use Suc.prems in simp)
qed simp

subsection \<open>The stash\<close>

definition free_slots :: "64 word list \<Rightarrow> nat" where
  "free_slots s = length (filter IsEmpty s)"

lemma stash_slot_None: "stash_slot i s = None \<longleftrightarrow> free_slots s = 0"
  by (induction s) (auto simp: free_slots_def)

lemma stash_slot_Some:
  assumes "stash_slot i s = Some s'" and "\<not> IsEmpty i"
  shows "entries s' = add_mset (InputIdx i) (entries s) \<and> length s' = length s \<and> free_slots s = Suc (free_slots s')"
  using assms
proof (induction s arbitrary: s')
  case (Cons b s)
  then show ?case by (cases "IsEmpty b") (auto simp: free_slots_def)
qed simp

lemma InputIdx_not_empty: "\<not> IsEmpty (InputIdx b)"
  using HashIdx_empty [of "InputIdx b"] InputIdx_less [of b] by auto

lemma stash_all_ok:
  assumes "\<forall>b \<in> set cs. \<not> IsEmpty b"
  shows "(length cs \<le> free_slots (stash c) \<longrightarrow> (\<exists>s. stash_all cs c = (Inr (), c\<lparr>stash := s\<rparr>)
      \<and> length s = length (stash c) \<and> entries s = entries (stash c) + entries cs))
    \<and> (\<not> length cs \<le> free_slots (stash c) \<longrightarrow>
      (\<exists>x s. stash_all cs c = (Inl (No_stash_space x), c\<lparr>stash := s\<rparr>) \<and> free_slots s = 0))"
  using assms
proof (induction cs arbitrary: c)
  case Nil
  have "c = c\<lparr>stash := stash c\<rparr>" by simp
  then show ?case by (metis add.right_neutral entries_simps(1) le0 list.size(3) stash_all.simps(1))
next
  case (Cons b cs)
  show ?case
  proof (cases "stash_slot (InputIdx b) (stash c)")
    case None
    then have full: "free_slots (stash c) = 0" by (simp add: stash_slot_None)
    from None have "stash_all (b # cs) c = (Inl (No_stash_space (InputIdx b)), c\<lparr>stash := stash c\<rparr>)"
      by (simp add: PutToStash_def)
    with full have "\<exists>x s. stash_all (b # cs) c = (Inl (No_stash_space x), c\<lparr>stash := s\<rparr>) \<and> free_slots s = 0" by blast
    with full show ?thesis by simp
  next
    case (Some s)
    have sl: "entries s = add_mset (InputIdx b) (entries (stash c))" "length s = length (stash c)" "free_slots (stash c) = Suc (free_slots s)"
      using stash_slot_Some [OF Some InputIdx_not_empty] by simp_all
    have st: "stash_all (b # cs) c = stash_all cs (c\<lparr>stash := s\<rparr>)" using Some by (simp add: PutToStash_def)
    show ?thesis unfolding st using Cons.IH [of "c\<lparr>stash := s\<rparr>"] Cons.prems by (auto simp: sl)
  qed
qed

subsection \<open>Insertion keeps the invariant\<close>

definition cuckoo_ok :: "cuckoo \<Rightarrow> bool" where
  "cuckoo_ok c \<longleftrightarrow> options_ok (options c) \<and> bins_ok (options c) (hashes c) (bins c)
     \<and> length (stash c) = unat (num_stash (options c)) \<and> length (hashes c) \<le> unat (num_input (options c))
     \<and> entries (bins c) + entries (stash c) = mset (map of_nat [0 ..< length (hashes c)])"

lemma bins_ok_append:
  assumes "bins_ok opt hs bs"
  shows "bins_ok opt (hs @ codes) bs"
proof -
  have "bin_ok opt (hs @ codes) j b" if "bin_ok opt hs j b" for j b
    using that by (auto simp: bin_ok_def candidate_ok_def nth_append)
  with assms show ?thesis by (simp add: bins_ok_def)
qed

lemma entries_of_nat:
  assumes "n \<le> 2 ^ 56"
  shows "entries (map of_nat [m ..< n]) = mset (map of_nat [m ..< n])"
    and "\<forall>i < n. unat (of_nat i :: 64 word) = i \<and> \<not> IsEmpty (of_nat i)"
proof -
  have u: "unat (of_nat i :: 64 word) = i" if "i < n" for i using that assms by (simp add: unat_of_nat)
  then have e: "InputIdx (of_nat i) = of_nat i" if "i < n" for i using that assms by (intro InputIdx_small) simp
  then have ne: "\<not> IsEmpty (of_nat i)" if "i < n" for i using that InputIdx_not_empty [of "of_nat i"] by simp
  have f: "filter (\<lambda>b. \<not> IsEmpty b) (map of_nat [m ..< n]) = map of_nat [m ..< n]" using ne by simp
  have "map InputIdx (map of_nat [m ..< n]) = map of_nat [m ..< n]" using e by simp
  then show "entries (map of_nat [m ..< n]) = mset (map of_nat [m ..< n])" by (simp only: entries_def f)
  show "\<forall>i < n. unat (of_nat i :: 64 word) = i \<and> \<not> IsEmpty (of_nat i)" using u ne by simp
qed

lemma new_candidates:
  assumes "options_ok opt" and "length (hs @ codes) \<le> unat (num_input opt)"
  shows "\<forall>c \<in> set (map (\<lambda>i. of_nat (length hs + i)) [0 ..< length codes]). candidate_ok opt (hs @ codes) c"
    and "entries (map (\<lambda>i. of_nat (length hs + i)) [0 ..< length codes]) = mset (map of_nat [length hs ..< length hs + length codes])"
proof -
  let ?n = "length hs + length codes"
  have n: "?n \<le> 2 ^ 56" using assms by (simp add: options_ok_def)
  have m: "map (\<lambda>i. of_nat (length hs + i)) [0 ..< length codes] = map of_nat [length hs ..< ?n]"
    by (rule nth_equalityI) simp_all
  have "candidate_ok opt (hs @ codes) (of_nat i)" if "i < ?n" for i
  proof -
    have "unat (of_nat i :: 64 word) = i" using entries_of_nat(2) [OF n] that by blast
    moreover from this have "InputIdx (of_nat i) = of_nat i" "HashIdx (of_nat i) = 0" using that n by simp_all
    ultimately show ?thesis using that assms(1) by (simp add: candidate_ok_def options_ok_def)
  qed
  then show "\<forall>c \<in> set (map (\<lambda>i. of_nat (length hs + i)) [0 ..< length codes]). candidate_ok opt (hs @ codes) c"
    unfolding m by simp
  show "entries (map (\<lambda>i. of_nat (length hs + i)) [0 ..< length codes]) = mset (map of_nat [length hs ..< ?n])"
    unfolding m by (rule entries_of_nat(1) [OF n])
qed

lemma Insert_result:
  assumes ok: "cuckoo_ok c" and n: "length (hashes c) + length codes \<le> unat (num_input (options c))"
  shows "(\<exists>c'. CuckooInsert codes c = (Inr (), c') \<and> cuckoo_ok c' \<and> hashes c' = hashes c @ codes \<and> options c' = options c)
    \<or> (\<exists>x c'. CuckooInsert codes c = (Inl (No_stash_space x), c') \<and> free_slots (stash c') = 0 \<and> free_slots (stash c) < length codes)"
proof -
  let ?opt = "options c" and ?hs = "hashes c @ codes"
  let ?cs = "map (\<lambda>i. of_nat (length (hashes c) + i)) [0 ..< length codes] :: 64 word list"
  have opt: "options_ok ?opt" and b: "bins_ok ?opt ?hs (bins c)"
    and len: "length (stash c) = unat (num_stash ?opt)"
    and e: "entries (bins c) + entries (stash c) = mset (map of_nat [0 ..< length (hashes c)])"
    using ok bins_ok_append by (simp_all add: cuckoo_ok_def)
  note nc = new_candidates [OF opt, of "hashes c" codes]
  obtain cs bs where l: "insert_loop ?opt ?hs (unat (max_try_count ?opt)) ?cs (bins c) = Some (cs, bs)" "bins_ok ?opt ?hs bs"
    "\<forall>c \<in> set cs. candidate_ok ?opt ?hs c" "length cs \<le> length codes" "entries bs + entries cs = entries (bins c) + entries ?cs"
    using insert_loop_ok [OF opt b nc(1)] n by force
  let ?c = "c\<lparr>hashes := ?hs, bins := bs\<rparr>"
  have I: "CuckooInsert codes c = stash_all cs ?c" using n by (simp add: CuckooInsert_def Let_def l(1) del: of_nat_add)
  have ne: "\<forall>b \<in> set cs. \<not> IsEmpty b" using l(3) candidate_not_empty opt by blast
  show ?thesis
  proof (cases "length cs \<le> free_slots (stash c)")
    case True
    then obtain s where s: "stash_all cs ?c = (Inr (), ?c\<lparr>stash := s\<rparr>)" "length s = length (stash c)"
      "entries s = entries (stash c) + entries cs" using stash_all_ok [OF ne, of ?c] by auto
    have u: "[0 ..< length ?hs] = [0 ..< length (hashes c)] @ [length (hashes c) ..< length ?hs]"
      using upt_add_eq_append [of 0 "length (hashes c)" "length codes"] by simp
    have "entries bs + entries s = (entries bs + entries cs) + entries (stash c)" unfolding s(3) by (simp only: ac_simps)
    also have "\<dots> = (entries (bins c) + entries (stash c)) + entries ?cs" unfolding l(5) by (simp only: ac_simps)
    also have "\<dots> = mset (map of_nat [0 ..< length ?hs])" unfolding u e using nc(2) n by simp
    finally have "cuckoo_ok (?c\<lparr>stash := s\<rparr>)" using opt l(2) n by (simp add: cuckoo_ok_def s(2) len)
    then show ?thesis unfolding I s(1) by simp
  next
    case False
    then obtain x s where "stash_all cs ?c = (Inl (No_stash_space x), ?c\<lparr>stash := s\<rparr>)" "free_slots s = 0"
      using stash_all_ok [OF ne, of ?c] by auto
    then show ?thesis unfolding I using False l(4) by auto
  qed
qed

lemma Insert_too_many:
  assumes "\<not> length (hashes c) + length codes \<le> unat (num_input (options c))"
  shows "CuckooInsert codes c = (Inl Too_many_inputs, c\<lparr>hashes := hashes c @ codes\<rparr>)"
  using assms by (simp add: CuckooInsert_def)

subsection \<open>One place for every input\<close>

definition places :: "64 word list \<Rightarrow> 64 word \<Rightarrow> nat set" where
  "places bs x = {j. j < length bs \<and> \<not> IsEmpty (bs ! j) \<and> InputIdx (bs ! j) = x}"

lemma count_entries: "count (entries bs) x = card (places bs x)"
proof -
  have "count (entries bs) x = length (filter (\<lambda>b. \<not> IsEmpty b \<and> InputIdx b = x) bs)"
    by (induction bs) auto
  then show ?thesis by (simp add: length_filter_conv_card places_def)
qed

lemma distinct_of_nat:
  assumes "n \<le> 2 ^ 56"
  shows "distinct (map of_nat [0 ..< n] :: 64 word list)" and "sorted (map of_nat [0 ..< n] :: 64 word list)"
proof -
  have u: "unat (of_nat i :: 64 word) = i" if "i < n" for i using entries_of_nat(2) [OF assms] that by blast
  have "inj_on (of_nat :: nat \<Rightarrow> 64 word) {0 ..< n}"
    by (rule inj_onI) (metis atLeastLessThan_iff u)
  then show "distinct (map of_nat [0 ..< n] :: 64 word list)" by (simp add: distinct_map)
  show "sorted (map of_nat [0 ..< n] :: 64 word list)"
    unfolding sorted_iff_nth_mono by (auto simp: word_le_nat_alt u)
qed

lemma one_place:
  assumes "cuckoo_ok c" and "i < length (hashes c)"
  shows "card (places (bins c) (of_nat i)) + card (places (stash c) (of_nat i)) = 1"
proof -
  have n: "length (hashes c) \<le> 2 ^ 56" and e: "entries (bins c) + entries (stash c) = mset (map of_nat [0 ..< length (hashes c)])"
    using assms(1) by (auto simp: cuckoo_ok_def options_ok_def)
  have "count (mset (map of_nat [0 ..< length (hashes c)])) (of_nat i :: 64 word) = 1"
    using distinct_of_nat(1) [OF n, unfolded distinct_count_atmost_1] assms(2) by auto
  then show ?thesis unfolding e [symmetric] by (simp add: count_entries)
qed

lemma sanity_insert_ok:
  assumes "\<forall>x. count (entries bs + mset s) x \<le> 1" and "sorted s"
  shows "\<exists>s'. sanity_insert bs s = Inr s' \<and> sorted s' \<and> mset s' = entries bs + mset s"
  using assms
proof (induction bs arbitrary: s)
  case (Cons b bs)
  show ?case
  proof (cases "IsEmpty b")
    case False
    have "count (entries (b # bs) + mset s) (InputIdx b) \<le> 1" using Cons.prems(1) by blast
    then have "InputIdx b \<notin> set s" using False count_greater_zero_iff [of "mset s" "InputIdx b"] by auto
    moreover have "\<exists>s'. sanity_insert bs (insort (InputIdx b) s) = Inr s' \<and> sorted s' \<and> mset s' = entries bs + mset (insort (InputIdx b) s)"
      by (rule Cons.IH) (use Cons.prems False in \<open>simp_all add: sorted_insort\<close>)
    ultimately show ?thesis using False by auto
  qed (use Cons in auto)
qed simp

lemma sanity_order_ok: "sanity_order k (map of_nat [k ..< n]) = Inr ()"
  by (induction "n - k" arbitrary: k) (simp_all add: upt_conv_Cons)

lemma SanityCheck_ok:
  assumes "cuckoo_ok c"
  shows "SanityCheck c = (if length (hashes c) = unat (num_input (options c)) then Inr () else Inl Wrong_count)"
proof -
  let ?n = "length (hashes c)" and ?l = "map of_nat [0 ..< length (hashes c)] :: 64 word list"
  have n: "?n \<le> 2 ^ 56" "?n \<le> unat (num_input (options c))" and e: "entries (bins c) + entries (stash c) = mset ?l"
    using assms by (auto simp: cuckoo_ok_def options_ok_def)
  have c: "count (mset ?l) x \<le> 1" for x
    using distinct_of_nat(1) [OF n(1), unfolded distinct_count_atmost_1] by simp
  have "\<forall>x. count (entries (bins c) + mset []) x \<le> 1"
  proof
    fix x show "count (entries (bins c) + mset []) x \<le> 1" using c [of x] unfolding e [symmetric] by simp
  qed
  from sanity_insert_ok [OF this] obtain s1 where s1: "sanity_insert (bins c) [] = Inr s1" "sorted s1" "mset s1 = entries (bins c)"
    by auto
  have m: "entries (stash c) + mset s1 = mset ?l" unfolding s1(3) e [symmetric] by (rule add.commute)
  obtain s2 where s2: "sanity_insert (stash c) s1 = Inr s2" "sorted s2" "mset s2 = mset ?l"
    using sanity_insert_ok [of "stash c" s1] s1(2) c unfolding m by blast
  have "s2 = ?l" using properties_for_sort [OF s2(3) s2(2)] distinct_of_nat(2) [OF n(1)] by (simp add: sorted_sort_id)
  moreover have "(of_nat ?n = num_input (options c)) = (?n = unat (num_input (options c)))"
    using n(1) by (auto simp: word_unat_eq_iff unat_of_nat)
  ultimately show ?thesis by (simp add: SanityCheck_def s1(1) s2(1) sanity_order_ok)
qed

subsection \<open>The smallest colliding hash function\<close>

lemma colliding_loop_ok:
  assumes "\<forall>i \<in> set is. i \<le> 4" and "num_bins \<noteq> 0" and "k \<in> set is" and "sorted is"
    and "map_option (\<lambda>h. h mod num_bins) (GetHash code k) = Some t"
  shows "\<exists>m \<in> set is. colliding_loop code num_bins t is = Some (of_nat m) \<and> m \<le> k
    \<and> map_option (\<lambda>h. h mod num_bins) (GetHash code m) = Some t
    \<and> (\<forall>i \<in> set is. i < m \<longrightarrow> map_option (\<lambda>h. h mod num_bins) (GetHash code i) \<noteq> Some t)"
  using assms(1,3,4)
proof (induction "is")
  case (Cons i "is")
  obtain h where h: "GetHash code i = Some h" using Cons.prems(1) by (simp add: GetHash_def)
  show ?case
  proof (cases "h mod num_bins = t")
    case True
    then show ?thesis using h assms(2) Cons.prems by (auto simp: umod_def intro!: bexI [of _ i])
  next
    case False
    then have "k \<noteq> i" using h assms(5) by auto
    then have "k \<in> set is" using Cons.prems(2) by simp
    moreover have "colliding_loop code num_bins t (i # is) = colliding_loop code num_bins t is"
      using False h assms(2) by (simp add: umod_def)
    ultimately show ?thesis using Cons.IH Cons.prems(1,3) False h by auto
  qed
qed simp

lemma MinColliding_ok:
  assumes "cuckoo_ok c" and "j < length (bins c)" and "\<not> IsEmpty (bins c ! j)"
  shows "\<exists>m \<le> unat (HashIdx (bins c ! j)). MinCollidingHashIdx (of_nat j) c = Some (of_nat m)
    \<and> map_option (\<lambda>h. unat (h mod NumBins (options c))) (GetHash (hashes c ! unat (InputIdx (bins c ! j))) m) = Some j
    \<and> (\<forall>i < m. map_option (\<lambda>h. unat (h mod NumBins (options c))) (GetHash (hashes c ! unat (InputIdx (bins c ! j))) i) \<noteq> Some j)"
proof -
  let ?b = "bins c ! j" and ?opt = "options c"
  let ?code = "hashes c ! unat (InputIdx ?b)" and ?n = "NumBins (options c)"
  have opt: "options_ok ?opt" and bs: "bins_ok ?opt (hashes c) (bins c)" using assms(1) by (simp_all add: cuckoo_ok_def)
  have b: "bin_ok ?opt (hashes c) j ?b" using bs assms(2) by (simp add: bins_ok_def)
  then have cb: "candidate_ok ?opt (hashes c) ?b" using assms(3) by (simp add: bin_ok_def)
  have "unat ?n < 2 ^ 64" using unsigned_less [of ?n] by simp
  then have "j < 2 ^ 64" using assms(2) bs by (simp add: bins_ok_def)
  then have uj: "unat (of_nat j :: 64 word) = j" by (simp add: unat_of_nat)
  have eq: "(map_option (\<lambda>h. h mod ?n) (GetHash ?code i) = Some (of_nat j))
      = (map_option (\<lambda>h. unat (h mod ?n)) (GetHash ?code i) = Some j)" for i
    using uj by (cases "GetHash ?code i") (auto simp: word_unat_eq_iff)
  have "map_option (\<lambda>h. unat (h mod ?n)) (GetHash ?code (unat (HashIdx ?b))) = Some j" using b assms(3) by (simp add: bin_ok_def)
  then have "map_option (\<lambda>h. h mod ?n) (GetHash ?code (unat (HashIdx ?b))) = Some (of_nat j)" by (simp only: eq)
  from colliding_loop_ok [OF _ _ _ _ this, of "[0 ..< unat (num_hash ?opt)]"]
  obtain m where m: "m < unat (num_hash ?opt)" "colliding_loop ?code ?n (of_nat j) [0 ..< unat (num_hash ?opt)] = Some (of_nat m)"
    "m \<le> unat (HashIdx ?b)" "map_option (\<lambda>h. h mod ?n) (GetHash ?code m) = Some (of_nat j)"
    "\<forall>i < unat (num_hash ?opt). i < m \<longrightarrow> map_option (\<lambda>h. h mod ?n) (GetHash ?code i) \<noteq> Some (of_nat j)"
    using opt cb by (auto simp: options_ok_def candidate_ok_def)
  have "MinCollidingHashIdx (of_nat j) c = Some (of_nat m)"
    using m(2) assms(2) cb uj by (simp add: MinCollidingHashIdx_def elem_at_def candidate_ok_def)
  moreover have "\<forall>i < m. map_option (\<lambda>h. unat (h mod ?n)) (GetHash ?code i) \<noteq> Some j"
    using m(1,5) less_trans unfolding eq by blast
  moreover have "map_option (\<lambda>h. unat (h mod ?n)) (GetHash ?code m) = Some j" using m(4) unfolding eq .
  ultimately show ?thesis using m(3) by blast
qed

subsection \<open>The index built from the options\<close>

inductive cuckoo_reachable :: "cuckoo_options \<Rightarrow> cuckoo \<Rightarrow> bool" for opt where
  new: "new_cuckoo opt = Inr c \<Longrightarrow> cuckoo_reachable opt c"
| insert: "cuckoo_reachable opt c \<Longrightarrow> CuckooInsert codes c = (Inr (), c') \<Longrightarrow> cuckoo_reachable opt c'"

lemma new_cuckoo_ok:
  assumes "options_ok opt"
  shows "\<exists>c. new_cuckoo opt = Inr c \<and> cuckoo_ok c \<and> options c = opt"
proof -
  have nz: "num_hash opt \<noteq> 0" and h: "unat (num_hash opt) \<le> 5" using assms by (auto simp: options_ok_def)
  have small: "x * 2 + 8 \<le> 16" if "unat x \<le> 4" for x :: "64 word"
    using that unfolding word_le_nat_alt by (simp add: unat_word_ariths)
  have "unat (num_hash opt - 1) = unat (num_hash opt) - 1" using nz by (simp add: unat_minus_one)
  then have c: "(num_hash opt - 1) * 2 + 8 \<le> 16" using h by (intro small) simp
  have "entries (replicate n kEmpty) = {#}" for n by (induction n) (simp_all add: IsEmpty_def)
  with assms c show ?thesis by (simp add: new_cuckoo_def cuckoo_ok_def bins_ok_def bin_ok_def IsEmpty_def)
qed

lemma reachable_ok:
  assumes "cuckoo_reachable opt c" and "options_ok opt"
  shows "cuckoo_ok c \<and> options c = opt"
  using assms(1)
proof induction
  case (new c)
  then show ?case using new_cuckoo_ok [OF assms(2)] by auto
next
  case (insert c codes c')
  then show ?case using Insert_result [of c codes] Insert_too_many [of c codes]
    by (cases "length (hashes c) + length codes \<le> unat (num_input (options c))") auto
qed

text \<open>The check of the constructor subtracts in 64 bits: zero hash functions pass it.\<close>

lemma zero_hash_functions: "num_hash opt = 0 \<Longrightarrow> \<exists>c. new_cuckoo opt = Inr c"
  by (simp add: new_cuckoo_def)

subsection \<open>A sample index\<close>

definition sample_options :: cuckoo_options where
  "sample_options = \<lparr>num_input = 2, num_stash = 0, num_hash = 3, scale_factor = (\<lambda>n. 2 * n), max_try_count = 128\<rparr>"

lemma sample_options_ok: "options_ok sample_options"
  by (simp add: options_ok_def sample_options_def NumBins_def)

lemma sample_cuckoo: "\<exists>c. cuckoo_reachable sample_options c \<and> hashes c = [5, 17]"
proof -
  obtain c where c: "new_cuckoo sample_options = Inr c" "cuckoo_ok c" "options c = sample_options"
    using new_cuckoo_ok [OF sample_options_ok] by blast
  have h: "hashes c = []" using c(1) by (auto simp: new_cuckoo_def split: if_splits)
  have "fst (CuckooInsert [5, 17] (case new_cuckoo sample_options of Inr c \<Rightarrow> c)) = Inr ()" by code_simp
  then have "fst (CuckooInsert [5, 17] c) = Inr ()" by (simp add: c(1))
  moreover have "length (hashes c) + length [5, 17 :: 128 word] \<le> unat (num_input (options c))" using c(3) h by (simp add: sample_options_def)
  ultimately obtain c' where "CuckooInsert [5, 17] c = (Inr (), c')" "hashes c' = hashes c @ [5, 17]"
    using Insert_result [OF c(2), of "[5, 17]"] by auto
  then show ?thesis using cuckoo_reachable.insert [OF cuckoo_reachable.new [OF c(1)]] h by auto
qed

subsection \<open>Options that the constructor accepts and an insertion does not\<close>

lemma new_cuckoo_options: "new_cuckoo opt = Inr c \<Longrightarrow> options c = opt \<and> hashes c = []"
  by (auto simp: new_cuckoo_def split: if_splits)

lemma Insert_no_bins:
  assumes "NumBins (options c) = 0" and "codes \<noteq> []" and "max_try_count (options c) \<noteq> 0"
    and "length (hashes c) + length codes \<le> unat (num_input (options c))" and "unat (num_input (options c)) \<le> 2 ^ 56"
  shows "fst (CuckooInsert codes c) = Inl Undefined"
proof -
  let ?n = "length (hashes c)" and ?hs = "hashes c @ codes" and ?cs = "map (\<lambda>i. of_nat (length (hashes c) + i)) [0 ..< length codes] :: 64 word list"
  have l: "?n < length ?hs" "length ?hs \<le> 2 ^ 56" using assms(2,4,5) by simp_all
  have u: "unat (of_nat ?n :: 64 word) = ?n" using l by (simp add: unat_of_nat)
  have "evict_step (options c) ?hs bs (of_nat ?n) = None" for bs
    using l u by (simp add: evict_step_def elem_at_def umod_def assms(1) InputIdx_small HashIdx_small GetHash_def)
  moreover have "?cs ! 0 = of_nat ?n" "0 < length ?cs" "?cs \<noteq> []" using assms(2) by simp_all
  ultimately have "evict_round (options c) ?hs 0 0 ?cs bs = None" for bs by (subst evict_round.simps) simp
  moreover obtain k where "unat (max_try_count (options c)) = Suc k" using assms(3) by (cases "unat (max_try_count (options c))") (simp_all add: unat_eq_0)
  ultimately show ?thesis using assms(4) \<open>?cs \<noteq> []\<close> by (simp add: CuckooInsert_def Let_def)
qed

lemma Insert_no_hash:
  assumes "num_hash opt = 0" and "new_cuckoo opt = Inr c" and "max_try_count opt \<noteq> 0" and "2 \<le> unat (num_input opt)" and "NumBins opt \<noteq> 0"
  shows "fst (CuckooInsert [x, x] c) = Inl Undefined"
proof -
  have c: "options c = opt" "hashes c = []" "bins c = replicate (unat (NumBins opt)) kEmpty" using assms(2) by (auto simp: new_cuckoo_def split: if_splits)
  obtain h where h: "GetHash x 0 = Some h" by (simp add: GetHash_def)
  let ?j = "unat (h mod NumBins opt)"
  have j: "?j < unat (NumBins opt)" using assms(5) by (simp add: unat_mod unat_gt_0)
  have z: "InputIdx 0 = 0" "HashIdx 0 = 0" "InputIdx 1 = 1" "HashIdx 1 = 0" by simp_all
  have one: "evict_step opt [x, x] (bins c) 0 = Some ((bins c)[?j := 0], None)"
    using j by (simp add: evict_step_def elem_at_def z h umod_def assms(5) c IsEmpty_def)
  have two: "evict_step opt [x, x] ((bins c)[?j := 0]) 1 = None"
    using j by (simp add: evict_step_def elem_at_def z h umod_def assms(1,5) c IsEmpty_def kEmpty_def)
  have r: "evict_round opt [x, x] 1 0 [0, 1] ((bins c)[?j := 0]) = None" by (subst evict_round.simps) (simp add: two [simplified])
  have "evict_round opt [x, x] 0 0 [0, 1] (bins c) = None" by (subst evict_round.simps) (use r in \<open>simp add: one\<close>)
  moreover obtain k where "unat (max_try_count opt) = Suc k" using assms(3) by (cases "unat (max_try_count opt)") (simp_all add: unat_eq_0)
  ultimately show ?thesis using assms(4) by (simp add: CuckooInsert_def Let_def c upt_rec)
qed

end
