(* ===== verification/Transpose.thy ===== *)
theory Transpose
  imports CrHash
begin

text \<open>
  \<^verbatim>\<open>utils/matrix_utils.*\<close>: transposition of a matrix of 128 rows of 128 bits, a row being a \<^verbatim>\<open>uint128_t\<close>. Three
  algorithms: bit by bit, by Eklundh's exchanges of blocks of halving size, and by the instruction that collects
  the top bits of the bytes of a vector (\<^verbatim>\<open>utils/block.h\<close>), also on eight matrices side by side.  All compute the
  same matrix.
\<close>

unbundle bit_operations_syntax

subsection \<open>Bit by bit\<close>

definition GetBit :: "128 word \<Rightarrow> nat \<Rightarrow> 128 word" where
  "GetBit i pos = drop_bit pos i AND 1"

definition naive_row :: "128 word list \<Rightarrow> nat \<Rightarrow> 128 word" where
  "naive_row rows i = fold (\<lambda>j t. t OR push_bit j (GetBit (rows ! j) i)) [0 ..< 128] 0"

definition NaiveTranspose :: "128 word list \<Rightarrow> 128 word list" where
  "NaiveTranspose inout = fold (\<lambda>i out. out[i := naive_row inout i]) [0 ..< 128] inout"

subsection \<open>By exchanges\<close>

definition MakeUint128 :: "64 word \<Rightarrow> 64 word \<Rightarrow> 128 word" where
  "MakeUint128 hi lo = push_bit 64 (ucast hi) OR ucast lo"

definition trans_mask :: "128 word list" where
  "trans_mask =
     [MakeUint128 0x0000000000000000 0xffffffffffffffff,
      MakeUint128 0x00000000ffffffff 0x00000000ffffffff,
      MakeUint128 0x0000ffff0000ffff 0x0000ffff0000ffff,
      MakeUint128 0x00ff00ff00ff00ff 0x00ff00ff00ff00ff,
      MakeUint128 0x0f0f0f0f0f0f0f0f 0x0f0f0f0f0f0f0f0f,
      MakeUint128 0x3333333333333333 0x3333333333333333,
      MakeUint128 0x5555555555555555 0x5555555555555555]"

definition trans_mask_inv :: "128 word list" where
  "trans_mask_inv =
     [MakeUint128 0xffffffffffffffff 0x0000000000000000,
      MakeUint128 0xffffffff00000000 0xffffffff00000000,
      MakeUint128 0xffff0000ffff0000 0xffff0000ffff0000,
      MakeUint128 0xff00ff00ff00ff00 0xff00ff00ff00ff00,
      MakeUint128 0xf0f0f0f0f0f0f0f0 0xf0f0f0f0f0f0f0f0,
      MakeUint128 0xcccccccccccccccc 0xcccccccccccccccc,
      MakeUint128 0xaaaaaaaaaaaaaaaa 0xaaaaaaaaaaaaaaaa]"

definition eklundh_swap :: "128 word \<Rightarrow> 128 word \<Rightarrow> nat \<Rightarrow> nat \<Rightarrow> nat \<Rightarrow> 128 word list \<Rightarrow> 128 word list" where
  "eklundh_swap msk inv_mask width j k rows =
     (let i1 = k + 2 * width * j;
          i2 = k + width + 2 * width * j;
          t = rows ! i1;
          tt = rows ! i2
      in rows[i1 := (t AND msk) XOR push_bit width (tt AND msk), i2 := (tt AND inv_mask) XOR drop_bit width (t AND inv_mask)])"

definition eklundh_level :: "nat \<Rightarrow> 128 word list \<times> nat \<times> nat \<Rightarrow> 128 word list \<times> nat \<times> nat" where
  "eklundh_level i st =
     (case st of (rows, width, nswaps) \<Rightarrow>
        (fold (\<lambda>j. fold (eklundh_swap (trans_mask ! i) (trans_mask_inv ! i) width j) [0 ..< width]) [0 ..< nswaps] rows,
         width div 2, nswaps * 2))"

definition EklundhTranspose128 :: "128 word list \<Rightarrow> 128 word list" where
  "EklundhTranspose128 inout = fst (fold eklundh_level [0 ..< 7] (inout, 64, 1))"

subsection \<open>By collecting top bits\<close>

text \<open>Parts of a vector: bytes and 16-bit numbers.\<close>

definition get_lane :: "nat \<Rightarrow> 128 word \<Rightarrow> 'b :: len word" where
  "get_lane l x = ucast (drop_bit (LENGTH('b) * l) x)"

definition set_lane :: "nat \<Rightarrow> 'b :: len word \<Rightarrow> 128 word \<Rightarrow> 128 word" where
  "set_lane l v x = (x AND NOT (push_bit (LENGTH('b) * l) (mask LENGTH('b)))) OR push_bit (LENGTH('b) * l) (ucast v)"

definition mm_slli_epi64 :: "128 word \<Rightarrow> nat \<Rightarrow> 128 word" where
  "mm_slli_epi64 x n = word_cat (push_bit n (lane64 1 x)) (push_bit n (lane64 0 x))"

definition movemask_epi8 :: "128 word \<Rightarrow> 16 word" where
  "movemask_epi8 x = horner_sum of_bool 2 (map (\<lambda>l. bit x (8 * l + 7)) [0 ..< 16])"

definition sse_loadSubSquare :: "128 word list \<Rightarrow> 128 word \<times> 128 word \<Rightarrow> nat \<Rightarrow> nat \<Rightarrow> 128 word \<times> 128 word" where
  "sse_loadSubSquare inp out x y =
     fold (\<lambda>l (out0, out1). (set_lane l (get_lane (2 * y) (inp ! (16 * x + l)) :: 8 word) out0,
                             set_lane l (get_lane (2 * y + 1) (inp ! (16 * x + l)) :: 8 word) out1)) [0 ..< 16] out"

definition sse_transpose_step :: "nat \<Rightarrow> nat \<Rightarrow> nat \<Rightarrow> 128 word list \<times> 128 word \<times> 128 word \<Rightarrow> 128 word list \<times> 128 word \<times> 128 word" where
  "sse_transpose_step x y j st =
     (case st of (out, in0, in1) \<Rightarrow>
        let out = out[16 * x + 7 - j := set_lane y (movemask_epi8 in0) (out ! (16 * x + 7 - j))];
            out = out[16 * x + 15 - j := set_lane y (movemask_epi8 in1) (out ! (16 * x + 15 - j))]
        in (out, mm_slli_epi64 in0 1, mm_slli_epi64 in1 1))"

definition sse_transposeSubSquare :: "128 word list \<Rightarrow> 128 word \<times> 128 word \<Rightarrow> nat \<Rightarrow> nat \<Rightarrow> 128 word list \<times> 128 word \<times> 128 word" where
  "sse_transposeSubSquare out inp x y = fold (sse_transpose_step x y) [0 ..< 8] (out, inp)"

text \<open>The two vectors that hold a square of 16 by 16 bits are not initialised: their first values are arguments.\<close>

definition sse_exchange :: "nat \<Rightarrow> nat \<Rightarrow> 128 word list \<times> (128 word \<times> 128 word) \<times> (128 word \<times> 128 word) \<Rightarrow> 128 word list \<times> (128 word \<times> 128 word) \<times> (128 word \<times> 128 word)" where
  "sse_exchange j k st =
     (case st of (mtx, a, b) \<Rightarrow>
        let a = sse_loadSubSquare mtx a k j;
            b = sse_loadSubSquare mtx b j k;
            (mtx, a) = sse_transposeSubSquare mtx a j k;
            (mtx, b) = sse_transposeSubSquare mtx b k j
        in (mtx, a, b))"

definition sse_diagonal :: "nat \<Rightarrow> 128 word list \<times> (128 word \<times> 128 word) \<times> (128 word \<times> 128 word) \<Rightarrow> 128 word list \<times> (128 word \<times> 128 word) \<times> (128 word \<times> 128 word)" where
  "sse_diagonal j st =
     (case st of (mtx, a, b) \<Rightarrow>
        let a = sse_loadSubSquare mtx a j j;
            (mtx, a) = sse_transposeSubSquare mtx a j j
        in fold (sse_exchange j) [0 ..< j] (mtx, a, b))"

definition SseTranspose128 :: "128 word \<times> 128 word \<Rightarrow> 128 word \<times> 128 word \<Rightarrow> 128 word list \<Rightarrow> 128 word list" where
  "SseTranspose128 a b inout = fst (fold sse_diagonal [0 ..< 8] (inout, a, b))"

definition MatrixTranspose128 :: "bool \<Rightarrow> 128 word \<times> 128 word \<Rightarrow> 128 word \<times> 128 word \<Rightarrow> 128 word list \<Rightarrow> 128 word list" where
  "MatrixTranspose128 kCPUSupportsSSE2 a b inout = (if kCPUSupportsSSE2 then SseTranspose128 a b inout else EklundhTranspose128 inout)"

text \<open>
  Eight matrices side by side: 128 rows of eight vectors.  The rows are also seen as 128 bytes and as
  64 numbers of 16 bits.
\<close>

definition byte_view :: "128 word list list \<Rightarrow> nat \<Rightarrow> nat \<Rightarrow> 8 word" where
  "byte_view m r b = get_lane (b mod 16) (m ! r ! (b div 16))"

definition set_u16_view :: "nat \<Rightarrow> nat \<Rightarrow> 16 word \<Rightarrow> 128 word list list \<Rightarrow> 128 word list list" where
  "set_u16_view r i v m = m[r := (m ! r)[i div 8 := set_lane (i mod 8) v (m ! r ! (i div 8))]]"

definition SseLoadSubSquarex :: "128 word list list \<Rightarrow> 128 word \<times> 128 word \<Rightarrow> nat \<Rightarrow> nat \<Rightarrow> nat \<Rightarrow> 128 word \<times> 128 word" where
  "SseLoadSubSquarex inp out x y i =
     (let x16 = x * 16;
          i16y2 = i * 16 + 2 * y;
          i16y21 = i * 16 + 2 * y + 1
      in fold (\<lambda>l (out0, out1). (set_lane l (byte_view inp (x16 + l) i16y2) out0, set_lane l (byte_view inp (x16 + l) i16y21) out1)) [0 ..< 16] out)"

definition SseTransposeSubSquarex :: "128 word list list \<Rightarrow> 128 word \<times> 128 word \<Rightarrow> nat \<Rightarrow> nat \<Rightarrow> nat \<Rightarrow> 128 word list list" where
  "SseTransposeSubSquarex out inp x y i =
     (let i8y = i * 8 + y;
          x16_7 = x * 16 + 7;
          x16_15 = x * 16 + 15;
          out = fold (\<lambda>j. set_u16_view (x16_7 - j) i8y (movemask_epi8 (mm_slli_epi64 (fst inp) j))) [0 ..< 8] out
      in fold (\<lambda>j. set_u16_view (x16_15 - j) i8y (movemask_epi8 (mm_slli_epi64 (snd inp) j))) [0 ..< 8] out)"

definition sse_exchangex :: "nat \<Rightarrow> nat \<Rightarrow> nat \<Rightarrow> 128 word list list \<times> (128 word \<times> 128 word) \<times> (128 word \<times> 128 word) \<Rightarrow> 128 word list list \<times> (128 word \<times> 128 word) \<times> (128 word \<times> 128 word)" where
  "sse_exchangex i j k st =
     (case st of (m, a, b) \<Rightarrow>
        let a = SseLoadSubSquarex m a k j i;
            b = SseLoadSubSquarex m b j k i;
            m = SseTransposeSubSquarex m a j k i;
            m = SseTransposeSubSquarex m b k j i
        in (m, a, b))"

definition sse_diagonalx :: "nat \<Rightarrow> nat \<Rightarrow> 128 word list list \<times> (128 word \<times> 128 word) \<times> (128 word \<times> 128 word) \<Rightarrow> 128 word list list \<times> (128 word \<times> 128 word) \<times> (128 word \<times> 128 word)" where
  "sse_diagonalx i j st =
     (case st of (m, a, b) \<Rightarrow>
        let a = SseLoadSubSquarex m a j j i;
            m = SseTransposeSubSquarex m a j j i
        in fold (sse_exchangex i j) [0 ..< j] (m, a, b))"

definition SseTranspose128x1024 :: "128 word \<times> 128 word \<Rightarrow> 128 word \<times> 128 word \<Rightarrow> 128 word list list \<Rightarrow> 128 word list list" where
  "SseTranspose128x1024 a b inout = fst (fold (\<lambda>i. fold (sse_diagonalx i) [0 ..< 8]) [0 ..< 8] (inout, a, b))"

definition eklundh_column :: "nat \<Rightarrow> 128 word list list \<Rightarrow> 128 word list list" where
  "eklundh_column i inout =
     (let sub = map (\<lambda>j. inout ! j ! i) [0 ..< 128];
          sub = EklundhTranspose128 sub
      in fold (\<lambda>j inout. inout[j := (inout ! j)[i := sub ! j]]) [0 ..< 128] inout)"

definition EklundhTranspose128x1024 :: "128 word list list \<Rightarrow> 128 word list list" where
  "EklundhTranspose128x1024 inout = fold eklundh_column [0 ..< 8] inout"

definition MatrixTranspose128x1024 :: "bool \<Rightarrow> 128 word \<times> 128 word \<Rightarrow> 128 word \<times> 128 word \<Rightarrow> 128 word list list \<Rightarrow> 128 word list list" where
  "MatrixTranspose128x1024 kCPUSupportsSSE2 a b inout = (if kCPUSupportsSSE2 then SseTranspose128x1024 a b inout else EklundhTranspose128x1024 inout)"

subsection \<open>The matrix of a list of rows\<close>

definition matrix :: "128 word list \<Rightarrow> (nat \<Rightarrow> nat \<Rightarrow> bool) \<Rightarrow> bool" where
  "matrix rows f \<longleftrightarrow> length rows = 128 \<and> (\<forall>r < 128. \<forall>c < 128. bit (rows ! r) c = f r c)"

definition transposed :: "128 word list \<Rightarrow> 128 word list" where
  "transposed rows = map (\<lambda>i. horner_sum of_bool 2 (map (\<lambda>j. bit (rows ! j) i) [0 ..< 128])) [0 ..< 128]"

lemma matrix_of: "length rows = 128 \<Longrightarrow> matrix rows (\<lambda>r c. bit (rows ! r) c)"
  by (simp add: matrix_def)

lemma transposed_matrix: "length rows = 128 \<Longrightarrow> matrix (transposed rows) (\<lambda>r c. bit (rows ! c) r)"
  by (simp add: matrix_def transposed_def bit_horner_sum_bit_word_iff)

lemma matrix_unique:
  assumes "matrix xs f" and "matrix ys f"
  shows "xs = ys"
proof (rule nth_equalityI)
  show l: "length xs = length ys" using assms by (simp add: matrix_def)
  fix i assume "i < length xs"
  then have i: "i < 128" using assms(1) by (simp add: matrix_def)
  show "xs ! i = ys ! i"
  proof (rule bit_word_eqI)
    fix c assume "c < LENGTH(128)"
    then show "bit (xs ! i) c = bit (ys ! i) c" using assms i by (simp add: matrix_def)
  qed
qed

lemma matrix_transposed: "length rows = 128 \<Longrightarrow> matrix xs (\<lambda>r c. bit (rows ! c) r) \<Longrightarrow> xs = transposed rows"
  by (erule matrix_unique) (rule transposed_matrix)

lemma fold_set_all: "length xs = n \<Longrightarrow> fold (\<lambda>i out. out[i := g i]) [0 ..< n] xs = map g [0 ..< n]"
proof -
  assume l: "length xs = n"
  have "fold (\<lambda>i out. out[i := g i]) [0 ..< k] xs = map g [0 ..< k] @ drop k xs" if "k \<le> n" for k
    using that
  proof (induction k)
    case (Suc k)
    then have "drop k xs = xs ! k # drop (Suc k) xs" using l by (simp add: Cons_nth_drop_Suc)
    then show ?case using Suc by (simp add: list_update_append)
  qed simp
  from this [of n] show ?thesis using l by simp
qed

lemma naive_row_bit:
  assumes "i < 128" and "c < 128"
  shows "bit (naive_row rows i) c = bit (rows ! c) i"
proof -
  have "bit (fold (\<lambda>j t. t OR push_bit j (GetBit (rows ! j) i)) [0 ..< k] 0) c = (c < k \<and> bit (rows ! c) i)" if "k \<le> 128" for k
    using that
  proof (induction k)
    case (Suc k)
    have "bit (push_bit k (GetBit (rows ! k) i)) c = (c = k \<and> bit (rows ! k) i)"
      using assms Suc.prems by (auto simp: GetBit_def bit_simps)
    then show ?case using Suc by (auto simp: bit_or_iff less_Suc_eq)
  qed simp
  from this [of 128] show ?thesis using assms by (simp add: naive_row_def)
qed

theorem naive_transposes: "length rows = 128 \<Longrightarrow> NaiveTranspose rows = transposed rows"
  by (rule matrix_transposed) (simp_all add: NaiveTranspose_def fold_set_all matrix_def naive_row_bit)

subsection \<open>Exchanges\<close>

lemma MakeUint128_bit: "bit (MakeUint128 hi lo) c = (c < 128 \<and> (if c < 64 then bit lo c else bit hi (c - 64)))"
  by (auto simp: MakeUint128_def bit_simps dest: bit_imp_le_length)

text \<open>The masks have runs of ones and zeros, of the width of the level.\<close>

definition level_width :: "nat \<Rightarrow> nat" where
  "level_width i = 64 div 2 ^ i"

lemma seven_cases: "i < 7 \<Longrightarrow> i = 0 \<or> i = 1 \<or> i = 2 \<or> i = 3 \<or> i = 4 \<or> i = 5 \<or> i = (6 :: nat)"
  by linarith

lemma mask_values:
  "trans_mask = [0xffffffffffffffff, 0x00000000ffffffff00000000ffffffff, 0x0000ffff0000ffff0000ffff0000ffff, 0x00ff00ff00ff00ff00ff00ff00ff00ff,
     0x0f0f0f0f0f0f0f0f0f0f0f0f0f0f0f0f, 0x33333333333333333333333333333333, 0x55555555555555555555555555555555]"
  "trans_mask_inv = [0xffffffffffffffff0000000000000000, 0xffffffff00000000ffffffff00000000, 0xffff0000ffff0000ffff0000ffff0000, 0xff00ff00ff00ff00ff00ff00ff00ff00,
     0xf0f0f0f0f0f0f0f0f0f0f0f0f0f0f0f0, 0xcccccccccccccccccccccccccccccccc, 0xaaaaaaaaaaaaaaaaaaaaaaaaaaaaaaaa]"
  by (simp_all add: trans_mask_def trans_mask_inv_def MakeUint128_def)

lemma masks_inverse: "i < 7 \<Longrightarrow> trans_mask_inv ! i = NOT (trans_mask ! i)"
  by (drule seven_cases) (elim disjE; simp add: mask_values)

lemma masks_halve: "i < 6 \<Longrightarrow> trans_mask ! Suc i = trans_mask ! i XOR push_bit (level_width (Suc i)) (trans_mask ! i)"
proof -
  assume "i < 6"
  then have "i = 0 \<or> i = 1 \<or> i = 2 \<or> i = 3 \<or> i = 4 \<or> i = 5" by linarith
  then show ?thesis by (elim disjE; simp add: mask_values level_width_def)
qed

lemma half_parity: "even m \<longleftrightarrow> (even (m div 2) \<noteq> (1 \<le> m \<and> even ((m - 1) div 2)))" for m :: nat
  by presburger

lemma level_width_Suc: "i < 6 \<Longrightarrow> level_width i = 2 * level_width (Suc i) \<and> 0 < level_width (Suc i)"
proof -
  assume "i < 6"
  then have "i = 0 \<or> i = 1 \<or> i = 2 \<or> i = 3 \<or> i = 4 \<or> i = 5" by linarith
  then show ?thesis by (elim disjE) (simp_all add: level_width_def)
qed

lemma mask_bit: "i < 7 \<Longrightarrow> c < 128 \<Longrightarrow> bit (trans_mask ! i) c = even (c div level_width i)"
proof (induction i arbitrary: c)
  case 0
  have "trans_mask ! 0 = mask 64" by (simp add: mask_values mask_eq_exp_minus_1)
  then have "bit (trans_mask ! 0) c \<longleftrightarrow> c < 64" by (auto simp: bit_mask_iff)
  also have "\<dots> \<longleftrightarrow> even (c div 64)" using 0 by (cases "c < 64") (auto simp: div_eq_0_iff le_div_geq)
  finally show ?case by (simp add: level_width_def)
next
  case (Suc i)
  let ?w = "level_width (Suc i)"
  have w: "level_width i = 2 * ?w" "0 < ?w" using level_width_Suc [of i] Suc.prems by auto
  have d: "c div level_width i = c div ?w div 2" "(c - ?w) div level_width i = (c div ?w - 1) div 2" if "?w \<le> c"
    using w that by (simp_all add: div_mult2_eq mult.commute [of 2] le_div_geq)
  have d0: "c div level_width i = c div ?w div 2" using w by (simp add: div_mult2_eq mult.commute [of 2])
  have "bit (trans_mask ! Suc i) c = (bit (trans_mask ! i) c \<noteq> (?w \<le> c \<and> bit (trans_mask ! i) (c - ?w)))"
    using Suc.prems masks_halve [of i] by (simp add: bit_xor_iff bit_push_bit_iff)
  also have "\<dots> = (even (c div ?w div 2) \<noteq> (1 \<le> c div ?w \<and> even ((c div ?w - 1) div 2)))"
  proof (cases "?w \<le> c")
    case True
    then have "1 \<le> c div ?w" using w by (simp add: Suc_le_eq div_greater_zero_iff)
    then show ?thesis using True Suc d by simp
  next
    case False
    then have "c div ?w = 0" by simp
    then show ?thesis using False Suc d0 by simp
  qed
  finally show ?case using half_parity [of "c div ?w"] by simp
qed

text \<open>One level: rows in pairs at the distance of the width.\<close>

definition pair_swap :: "('a \<Rightarrow> 'a \<Rightarrow> 'a) \<Rightarrow> ('a \<Rightarrow> 'a \<Rightarrow> 'a) \<Rightarrow> nat \<Rightarrow> nat \<Rightarrow> 'a list \<Rightarrow> 'a list" where
  "pair_swap F G w a rows = rows[a := F (rows ! a) (rows ! (a + w)), a + w := G (rows ! a) (rows ! (a + w))]"

lemma length_pair_swap [simp]: "length (pair_swap F G w a rows) = length rows" "length (fold (pair_swap F G w) as rows) = length rows"
  by (simp add: pair_swap_def) (induction as arbitrary: rows, simp_all add: pair_swap_def)

lemma fold_pair_swap:
  assumes "0 < w" and "distinct as" and "\<forall>a \<in> set as. even (a div w) \<and> a + w < length rows"
    and "r < length rows"
  shows "fold (pair_swap F G w) as rows ! r =
      (if r \<in> set as then F (rows ! r) (rows ! (r + w)) else if w \<le> r \<and> r - w \<in> set as then G (rows ! (r - w)) (rows ! r) else rows ! r)"
  using assms(2,3,4)
proof (induction as arbitrary: rows)
  case (Cons a as)
  note 2 = Cons.prems
  let ?s = "pair_swap F G w a rows"
    have a: "even (a div w)" "a + w < length rows" "a \<notin> set as" using 2 by auto
    have odd: "x + w \<noteq> y" if "even (x div w)" "even (y div w)" for x y
    proof
      assume "x + w = y"
      then have "y div w = Suc (x div w)" using assms(1) div_add_self2 [of w x] by simp
      then show False using that by simp
    qed
    have nth: "?s ! x = (if x = a then F (rows ! a) (rows ! (a + w)) else if x = a + w then G (rows ! a) (rows ! (a + w)) else rows ! x)" if "x < length rows" for x
      using that a assms(1) by (simp add: pair_swap_def nth_list_update)
    have IH: "fold (pair_swap F G w) as ?s ! r =
      (if r \<in> set as then F (?s ! r) (?s ! (r + w)) else if w \<le> r \<and> r - w \<in> set as then G (?s ! (r - w)) (?s ! r) else ?s ! r)"
      using Cons.IH [of ?s] 2 by simp
    consider "r = a" | "r = a + w" | "r \<noteq> a" "r \<noteq> a + w" "r \<in> set as" | "r \<noteq> a" "r \<noteq> a + w" "r \<notin> set as" "w \<le> r" "r - w \<in> set as"
      | "r \<noteq> a" "r \<noteq> a + w" "r \<notin> set as" "\<not> (w \<le> r \<and> r - w \<in> set as)" by blast
    then show ?case
    proof cases
      case 1
      have "\<not> (w \<le> r \<and> r - w \<in> set as)"
      proof
        assume "w \<le> r \<and> r - w \<in> set as"
        then have "(r - w) + w = a" "even ((r - w) div w)" using 1 Cons.prems(2) by auto
        then show False using odd [of "r - w" a] a by simp
      qed
      then show ?thesis using 1 IH a nth [of a] by auto
    next
      case 2
      have "r \<notin> set as"
      proof
        assume "r \<in> set as"
        then have "even (r div w)" using \<open>\<forall>a \<in> set (a # as). even (a div w) \<and> a + w < length rows\<close> by simp
        then show False using odd [of a r] a 2 by simp
      qed
      moreover have "r \<noteq> a" using 2 assms(1) by simp
      moreover have "\<not> (w \<le> r \<and> r - w \<in> set as)" using 2 a(3) by simp
      moreover have "?s ! r = G (rows ! a) (rows ! (a + w))" using nth [of r] a(2) 2 assms(1) by simp
      ultimately show ?thesis using IH 2 by simp
    next
      case 3
      then have e: "even (r div w)" "r + w < length rows" using Cons.prems(2) by auto
      then have "r + w \<noteq> a" "r + w \<noteq> a + w" using odd [of r a] a 3 by auto
      then show ?thesis using 3 IH nth [of r] nth [of "r + w"] e Cons.prems(3) by simp
    next
      case 4
      then have e: "even ((r - w) div w)" using Cons.prems(2) by auto
      have "r - w \<noteq> a" "r - w \<noteq> a + w" using 4 odd [of a "r - w"] a e by auto
      then show ?thesis using 4 IH nth [of r] nth [of "r - w"] Cons.prems(3) by simp
    next
      case 5
      have "\<not> (w \<le> r \<and> r - w = a)" using 5(2) by auto
      then show ?thesis using 5 IH nth [of r] Cons.prems(3) by auto
    qed
qed simp

lemma fold_nested: "fold (\<lambda>j. fold (\<lambda>k. f (g j k)) (ks j)) js s = fold f (concat (map (\<lambda>j. map (g j) (ks j)) js)) s"
  by (induction js arbitrary: s) (simp_all add: fold_map comp_def)

lemma even_rows:
  assumes "0 < w"
  shows "concat (map (\<lambda>j. map (\<lambda>k. k + 2 * w * j) [0 ..< w]) [0 ..< n]) = filter (\<lambda>r. even (r div w)) [0 ..< 2 * w * n]"
proof (induction n)
  case (Suc n)
  let ?a = "2 * w * n"
  have s: "[0 ..< 2 * w * Suc n] = [0 ..< ?a] @ [?a ..< ?a + w] @ [?a + w ..< ?a + 2 * w]"
    using upt_add_eq_append [of 0 ?a "w + w"] upt_add_eq_append [of ?a "?a + w" w] by (simp add: add.assoc algebra_simps)
  have "r div w = 2 * n" if "?a \<le> r" "r < ?a + w" for r using that by (intro div_nat_eqI) (simp_all add: algebra_simps)
  then have e: "filter (\<lambda>r. even (r div w)) [?a ..< ?a + w] = [?a ..< ?a + w]" by (intro filter_True) auto
  have "r div w = 2 * n + 1" if "?a + w \<le> r" "r < ?a + 2 * w" for r using that by (intro div_nat_eqI) (simp_all add: algebra_simps)
  then have o: "filter (\<lambda>r. even (r div w)) [?a + w ..< ?a + 2 * w] = []" by (intro filter_False) auto
  have "map (\<lambda>k. k + ?a) [0 ..< w] = [?a ..< ?a + w]" using map_add_upt [of ?a w] by (simp add: add.commute)
  then show ?case unfolding s filter_append e o using Suc.IH by simp
qed simp

text \<open>An exchange of level \<open>b\<close> swaps the bits \<open>b\<close> of the row and of the column.\<close>

definition put_bit :: "nat \<Rightarrow> nat \<Rightarrow> nat \<Rightarrow> nat" where
  "put_bit b s r = (if bit s b then set_bit b r else unset_bit b r)"

definition mix_bits :: "nat \<Rightarrow> nat \<Rightarrow> nat \<Rightarrow> nat" where
  "mix_bits m s r = push_bit m (drop_bit m s) OR take_bit m r"

lemma bit_put_bit: "bit (put_bit b s r) k = (if k = b then bit s b else bit r k)"
  by (auto simp: put_bit_def bit_set_bit_iff bit_unset_bit_iff)

lemma bit_mix_bits: "bit (mix_bits m s r) k = (if k < m then bit r k else bit s k)"
  by (auto simp: mix_bits_def bit_or_iff bit_push_bit_iff bit_drop_bit_eq bit_take_bit_iff)

lemma put_bit_less: "r < 2 ^ n \<Longrightarrow> b < n \<Longrightarrow> put_bit b s r < 2 ^ n"
proof -
  assume r: "r < 2 ^ n" and b: "b < n"
  have "take_bit n (put_bit b s r) = put_bit b s r"
  proof (rule bit_eqI)
    fix k
    have "bit r k \<Longrightarrow> k < n" using r by (metis bit_take_bit_iff take_bit_nat_eq_self_iff)
    then show "bit (take_bit n (put_bit b s r)) k = bit (put_bit b s r) k" using b by (auto simp: bit_take_bit_iff bit_put_bit)
  qed
  then show ?thesis by (simp add: take_bit_nat_eq_self_iff)
qed

lemma unset_bit_cases: "unset_bit b r = (if bit r b then r - 2 ^ b else r)" for r :: nat
proof (cases "bit r b")
  case True
  have "set_bit b (unset_bit b r) = r" using True by (intro bit_eqI) (auto simp: bit_set_bit_iff bit_unset_bit_iff)
  moreover have "set_bit b (unset_bit b r) = unset_bit b r + 2 ^ b" by (simp add: set_bit_eq bit_unset_bit_iff)
  ultimately show ?thesis using True by simp
next
  case False
  then have "unset_bit b r = r" by (intro bit_eqI) (auto simp: bit_unset_bit_iff)
  then show ?thesis using False by simp
qed

lemma put_bit_cases:
  "put_bit b s r = (if bit s b = bit r b then r else if bit r b then r - 2 ^ b else r + 2 ^ b)"
  by (auto simp: put_bit_def set_bit_eq unset_bit_cases)

lemma mix_bits_step: "mix_bits (Suc b) (put_bit b r c) (put_bit b c r) = mix_bits b c r"
  by (rule bit_eqI) (auto simp: bit_mix_bits bit_put_bit less_Suc_eq)

lemma level_matrix:
  assumes "i < 7" and "matrix rows f" and "eklundh_level i (rows, level_width i, 2 ^ i) = (rows', w', n')"
  shows "matrix rows' (\<lambda>r c. f (put_bit (6 - i) c r) (put_bit (6 - i) r c))" and "w' = level_width (Suc i)" and "n' = 2 ^ Suc i"
proof -
  define w where "w = level_width i"
  have w: "w = 2 ^ (6 - i)" "0 < w" "2 * w * 2 ^ i = 128"
    using seven_cases [OF assms(1)] by (elim disjE; simp add: w_def level_width_def)+
  define F where "F = (\<lambda>t tt. (t AND trans_mask ! i) XOR push_bit w (tt AND trans_mask ! i))"
  define G where "G = (\<lambda>t tt. (tt AND trans_mask_inv ! i) XOR drop_bit w (t AND trans_mask_inv ! i))"
  have sw: "eklundh_swap (trans_mask ! i) (trans_mask_inv ! i) w j k = pair_swap F G w (k + 2 * w * j)" for j k
  proof -
    have "k + w + 2 * w * j = k + 2 * w * j + w" by simp
    then show ?thesis by (intro ext) (simp only: eklundh_swap_def pair_swap_def F_def G_def Let_def)
  qed
  define as where "as = filter (\<lambda>r. even (r div w)) [0 ..< 128]"
  have sw': "eklundh_swap (trans_mask ! i) (trans_mask_inv ! i) w = (\<lambda>j k. pair_swap F G w (k + 2 * w * j))" by (intro ext) (simp only: sw)
  have lv: "rows' = fold (\<lambda>j. fold (\<lambda>k. pair_swap F G w (k + 2 * w * j)) [0 ..< w]) [0 ..< 2 ^ i] rows" and w': "w' = level_width i div 2" "n' = 2 ^ i * 2"
    using assms(3) unfolding eklundh_level_def prod.case w_def [symmetric] sw' by simp_all
  have out: "rows' = fold (pair_swap F G w) as rows"
    unfolding lv fold_nested [of "pair_swap F G w" "\<lambda>j k. k + 2 * w * j" "\<lambda>_. [0 ..< w]" "[0 ..< 2 ^ i]" rows] even_rows [OF w(2)] w(3) as_def ..
  show "w' = level_width (Suc i)" "n' = 2 ^ Suc i" using w' seven_cases [OF assms(1)] by (elim disjE; simp add: level_width_def)+
  have par: "even (x div w) \<longleftrightarrow> \<not> bit x (6 - i)" for x by (simp add: w(1) bit_iff_odd)
  have l: "length rows = 128" using assms(2) by (simp add: matrix_def)
  have ok: "\<forall>a \<in> set as. even (a div w) \<and> a + w < length rows"
  proof
    fix a assume "a \<in> set as"
    then have a: "even (a div w)" "a < 128" by (auto simp: as_def)
    have "put_bit (6 - i) (2 ^ (6 - i)) a < 2 ^ 7" using a by (intro put_bit_less) auto
    then have "a + w < 128" using a(1) unfolding par by (simp add: put_bit_cases w(1) bit_exp_iff)
    then show "even (a div w) \<and> a + w < length rows" using a(1) l by simp
  qed
  have m: "bit (trans_mask ! i) c = (\<not> bit c (6 - i))" "bit (trans_mask_inv ! i) c = bit c (6 - i)" if "c < 128" for c
    using mask_bit [OF assms(1) that] masks_inverse [OF assms(1)] that par [of c] by (simp_all add: w_def bit_not_iff)
  show "matrix rows' (\<lambda>r c. f (put_bit (6 - i) c r) (put_bit (6 - i) r c))"
    unfolding matrix_def
  proof (intro conjI allI impI)
    show "length rows' = 128" by (simp add: out l)
    fix r c :: nat assume r: "r < 128" and c: "c < 128"
    let ?b = "6 - i"
    have low: "bit (c - w) ?b = (\<not> bit c ?b)" if "w \<le> c"
      using par [of c] par [of "c - w"] le_div_geq [OF w(2) that] by simp
    have ge: "w \<le> x" if "bit x ?b" for x using par [of x] that w(2) by (cases "x < w") auto
    have bF: "bit (F t tt) c = (if bit c ?b then bit tt (c - w) else bit t c)" for t tt
      using m(1) [OF c] m(1) [of "c - w"] low ge [of c] c by (auto simp: F_def bit_simps)
    have bG: "bit (G t tt) c = (if bit c ?b then bit tt c else bit t (c + w))" for t tt
    proof -
      have "bit (trans_mask_inv ! i) (c + w) \<longleftrightarrow> c + w < 128 \<and> bit (c + w) ?b" using m(2) [of "c + w"] bit_imp_le_length [of "trans_mask_inv ! i" "c + w"] by auto
      moreover have "bit (c + w) ?b = (\<not> bit c ?b)" using par [of c] par [of "c + w"] div_add_self2 [of w c] w(2) by simp
      ultimately show ?thesis using m(2) [OF c] bit_imp_le_length [of t "c + w"] by (auto simp: G_def bit_simps add.commute [of w c])
    qed
    note N = fold_pair_swap [OF w(2) _ ok, of r F G]
    have d: "distinct as" by (simp add: as_def)
    show "bit (rows' ! r) c = f (put_bit ?b c r) (put_bit ?b r c)"
    proof (cases "bit r ?b")
      case False
      then have a: "r \<in> set as" using r par [of r] by (simp add: as_def)
      then have "r + w < 128" using ok l by auto
      moreover have "rows' ! r = F (rows ! r) (rows ! (r + w))" using N [OF d] a r l by (simp add: out)
      moreover have "c - w < 128" using c by simp
      ultimately show ?thesis using assms(2) r c False by (auto simp: matrix_def bF put_bit_cases w(1))
    next
      case True
      then have a: "r \<notin> set as" "w \<le> r" using par [of r] ge [of r] by (simp_all add: as_def)
      have "bit (r - w) ?b = False" using par [of r] par [of "r - w"] le_div_geq [OF w(2) a(2)] True by simp
      then have "r - w \<in> set as" using r par [of "r - w"] by (simp add: as_def)
      then have "rows' ! r = G (rows ! (r - w)) (rows ! r)" using N [OF d] a r l by (simp add: out)
      moreover have "c + w < 128" if "\<not> bit c ?b" using that c ok l par [of c] by (auto simp: as_def)
      moreover have "r - w < 128" using r by simp
      ultimately show ?thesis using assms(2) r c True by (auto simp: matrix_def bG put_bit_cases w(1))
    qed
  qed
qed

lemma levels_matrix:
  assumes "matrix rows f" and "k \<le> 7"
  shows "\<exists>rows'. fold eklundh_level [0 ..< k] (rows, 64, 1) = (rows', level_width k, 2 ^ k)
    \<and> matrix rows' (\<lambda>r c. f (mix_bits (7 - k) c r) (mix_bits (7 - k) r c))"
  using assms(2)
proof (induction k)
  case 0
  have "mix_bits 7 s r = r" if "r < 128" "s < 128" for r s
  proof (rule bit_eqI)
    fix n
    have "\<not> bit s n" if "7 \<le> n" using \<open>s < 128\<close> that bit_take_bit_iff [of 7 s n] take_bit_nat_eq_self_iff [of 7 s] by simp
    moreover have "\<not> bit r n" if "7 \<le> n" using \<open>r < 128\<close> that bit_take_bit_iff [of 7 r n] take_bit_nat_eq_self_iff [of 7 r] by simp
    ultimately show "bit (mix_bits 7 s r) n = bit r n" by (auto simp: bit_mix_bits)
  qed
  then show ?case using assms(1) by (simp add: level_width_def matrix_def)
next
  case (Suc k)
  then obtain rows1 where r1: "fold eklundh_level [0 ..< k] (rows, 64, 1) = (rows1, level_width k, 2 ^ k)"
    "matrix rows1 (\<lambda>r c. f (mix_bits (7 - k) c r) (mix_bits (7 - k) r c))" by auto
  obtain rows2 w2 n2 where r2: "eklundh_level k (rows1, level_width k, 2 ^ k) = (rows2, w2, n2)" by (metis prod.exhaust)
  have k: "k < 7" "7 - k = Suc (6 - k)" "7 - Suc k = 6 - k" using Suc.prems by auto
  note L = level_matrix [OF k(1) r1(2) r2]
  show ?case using L r1(1) r2 unfolding k by (simp add: mix_bits_step)
qed

theorem eklundh_transposes:
  assumes "length rows = 128"
  shows "EklundhTranspose128 rows = transposed rows"
proof -
  obtain rows' where "fold eklundh_level [0 ..< 7] (rows, 64, 1) = (rows', level_width 7, 2 ^ 7)"
    "matrix rows' (\<lambda>r c. bit (rows ! mix_bits 0 c r) (mix_bits 0 r c))"
    using levels_matrix [OF matrix_of [OF assms], of 7] by auto
  then show ?thesis using assms by (intro matrix_transposed) (simp_all add: EklundhTranspose128_def mix_bits_def)
qed

subsection \<open>Top bits\<close>

lemma bit_get_lane: "bit (get_lane l x :: 'b :: len word) k \<longleftrightarrow> k < LENGTH('b) \<and> bit x (LENGTH('b) * l + k)"
  by (auto simp: get_lane_def bit_simps)

lemma bit_set_lane:
  fixes v :: "'b :: len word"
  assumes "c < 128"
  shows "bit (set_lane l v x) c = (if c div LENGTH('b) = l then bit v (c mod LENGTH('b)) else bit x c)"
proof -
  let ?w = "LENGTH('b)"
  have c: "c = ?w * (c div ?w) + c mod ?w" by simp
  have "?w * l \<le> c \<and> c - ?w * l < ?w \<longleftrightarrow> c div ?w = l"
  proof
    assume "?w * l \<le> c \<and> c - ?w * l < ?w"
    then show "c div ?w = l" by (intro div_nat_eqI) (auto simp: algebra_simps)
  next
    assume "c div ?w = l"
    moreover have "c mod ?w < ?w" by simp
    ultimately show "?w * l \<le> c \<and> c - ?w * l < ?w" using c by (metis diff_add_inverse le_add1)
  qed
  moreover have "c - ?w * l = c mod ?w" if "c div ?w = l" using that minus_mult_div_eq_mod [of c ?w] by metis
  ultimately show ?thesis using assms by (auto simp: set_lane_def bit_simps dest: bit_imp_le_length)
qed

lemma bit_slli: "c < 128 \<Longrightarrow> bit (mm_slli_epi64 x n) c = (n \<le> c mod 64 \<and> bit x (c - n))"
proof (cases "c < 64")
  case True
  then show ?thesis by (auto simp: mm_slli_epi64_def lane64_def bit_word_cat_iff bit_simps)
next
  case False
  assume "c < 128"
  then have m: "c mod 64 = c - 64" using False by (simp add: mod_if)
  show ?thesis
  proof (cases "n \<le> c - 64")
    case True
    then have "64 + (c - 64 - n) = c - n" using False by simp
    then show ?thesis using True False m \<open>c < 128\<close> by (auto simp: mm_slli_epi64_def lane64_def bit_word_cat_iff bit_simps)
  next
    case False
    then show ?thesis using m \<open>\<not> c < 64\<close> by (auto simp: mm_slli_epi64_def lane64_def bit_word_cat_iff bit_simps)
  qed
qed

lemma bit_movemask: "l < 16 \<Longrightarrow> bit (movemask_epi8 x) l = bit x (8 * l + 7)"
  by (simp add: movemask_epi8_def bit_horner_sum_bit_word_iff)

lemma fold_two: "fold (\<lambda>l (a, b). (F l a, G l b)) xs (a, b) = (fold F xs a, fold G xs b)"
  by (induction xs arbitrary: a b) simp_all

lemma fold_set_bytes:
  assumes "c < 128" and "n \<le> 16"
  shows "bit (fold (\<lambda>l. set_lane l (v l :: 8 word)) [0 ..< n] x) c = (if c div 8 < n then bit (v (c div 8)) (c mod 8) else bit x c)"
  using assms(2)
proof (induction n)
  case (Suc n)
  then show ?case using assms(1) by (auto simp: bit_set_lane less_Suc_eq)
qed simp

text \<open>What the two vectors hold after loading a square: bytes of its rows.\<close>

definition square :: "128 word \<times> 128 word \<Rightarrow> (nat \<Rightarrow> nat \<Rightarrow> bool) \<Rightarrow> bool" where
  "square ab g \<longleftrightarrow> (\<forall>l < 16. \<forall>k < 8. bit (fst ab) (8 * l + k) = g l k \<and> bit (snd ab) (8 * l + k) = g l (8 + k))"

lemma load_square:
  assumes "matrix m f" and "x < 8" and "y < 8"
  shows "square (sse_loadSubSquare m ab x y) (\<lambda>l k. f (16 * x + l) (16 * y + k))"
proof -
  obtain a b where ab: "ab = (a, b)" by (cases ab)
  let ?F = "\<lambda>z. fold (\<lambda>l. set_lane l (get_lane z (m ! (16 * x + l)) :: 8 word)) [0 ..< 16]"
  have "sse_loadSubSquare m ab x y = (?F (2 * y) a, ?F (2 * y + 1) b)" unfolding sse_loadSubSquare_def ab fold_two ..
  moreover have "bit (?F (2 * y) a) (8 * l + k) = f (16 * x + l) (16 * y + k)" "bit (?F (2 * y + 1) b) (8 * l + k) = f (16 * x + l) (16 * y + (8 + k))"
    if "l < 16" "k < 8" for l k
  proof -
    have i: "(8 * l + k) div 8 = l" "(8 * l + k) mod 8 = k" "8 * l + k < 128" using that by auto
    have m: "bit (m ! (16 * x + l)) c = f (16 * x + l) c" if "c < 128" for c
      using assms(1,2) that \<open>l < 16\<close> by (simp add: matrix_def)
    show "bit (?F (2 * y) a) (8 * l + k) = f (16 * x + l) (16 * y + k)" "bit (?F (2 * y + 1) b) (8 * l + k) = f (16 * x + l) (16 * y + (8 + k))"
      using that assms(3) m by (simp_all add: fold_set_bytes [OF i(3)] i bit_get_lane add.assoc [symmetric] add.commute [of 8 "16 * y"])
  qed
  ultimately show ?thesis by (simp add: square_def)
qed

lemma matrix_cong: "matrix m f \<Longrightarrow> (\<And>r c. r < 128 \<Longrightarrow> c < 128 \<Longrightarrow> f r c = g r c) \<Longrightarrow> matrix m g"
  by (simp add: matrix_def)

lemma matrix_write:
  fixes v :: "16 word"
  assumes "matrix m f" and "p < 128"
  shows "matrix (m[p := set_lane y v (m ! p)]) (\<lambda>r c. if r = p \<and> c div 16 = y then bit v (c mod 16) else f r c)"
  using assms by (auto simp: matrix_def nth_list_update bit_set_lane)

definition squared :: "nat \<Rightarrow> nat \<Rightarrow> nat \<Rightarrow> (nat \<Rightarrow> nat \<Rightarrow> bool) \<Rightarrow> (nat \<Rightarrow> nat \<Rightarrow> bool) \<Rightarrow> nat \<Rightarrow> nat \<Rightarrow> bool" where
  "squared x y j g f r c = (if r div 16 = x \<and> c div 16 = y \<and> 8 \<le> r mod 8 + j then g (c mod 16) (r mod 16) else f r c)"

lemma mod_8_16: "t < 16 \<Longrightarrow> t mod 8 = (if t < 8 then t else t - 8)" for t :: nat
  using le_mod_geq [of 8 t] by simp

lemma squared_Suc:
  assumes "j < 8" and "\<And>l. l < 16 \<Longrightarrow> bit v0 l = g l (7 - j)" and "\<And>l. l < 16 \<Longrightarrow> bit v1 l = g l (15 - j)"
  shows "(if r = 16 * x + 15 - j \<and> c div 16 = y then bit v1 (c mod 16)
      else if r = 16 * x + 7 - j \<and> c div 16 = y then bit v0 (c mod 16) else squared x y j g f r c) = squared x y (Suc j) g f r c"
    (is "?l = ?r")
proof -
  have e: "16 * x + 15 - j = (15 - j) + 16 * x" "16 * x + 7 - j = (7 - j) + 16 * x" using assms(1) by auto
  have p: "(16 * x + 15 - j) div 16 = x" "(16 * x + 15 - j) mod 16 = 15 - j" "(16 * x + 7 - j) div 16 = x" "(16 * x + 7 - j) mod 16 = 7 - j"
    unfolding e by (simp_all add: div_mult_self2 mod_mult_self2)
  have q: "r mod 8 = (if r mod 16 < 8 then r mod 16 else r mod 16 - 8)" using mod_8_16 [of "r mod 16"] by (simp add: mod_mod_cancel)
  consider "r = 16 * x + 15 - j" | "r = 16 * x + 7 - j" | "r \<noteq> 16 * x + 15 - j" "r \<noteq> 16 * x + 7 - j" by blast
  then show ?thesis
  proof cases
    case 1
    then have "r mod 8 = 7 - j" unfolding q using p(2) assms(1) by auto
    then show ?thesis using 1 p assms by (simp add: squared_def)
  next
    case 2
    then have "r mod 8 = 7 - j" "r \<noteq> 16 * x + 15 - j" unfolding q using p(4) assms(1) by auto
    then show ?thesis using 2 p assms by (simp add: squared_def)
  next
    case 3
    have "8 \<le> r mod 8 + Suc j \<longleftrightarrow> 8 \<le> r mod 8 + j" if "r div 16 = x"
    proof -
      have "r mod 8 \<noteq> 7 - j"
      proof
        assume "r mod 8 = 7 - j"
        then have "r mod 16 = 7 - j \<or> r mod 16 = 15 - j" unfolding q using assms(1) by (cases "r mod 16 < 8") auto
        moreover have "r = 16 * x + r mod 16" by (metis mult_div_mod_eq that)
        ultimately show False using 3 assms(1) by linarith
      qed
      then show ?thesis by (cases "r mod 8 = 7 - j") auto
    qed
    then show ?thesis using 3 by (auto simp: squared_def)
  qed
qed

lemma transpose_steps:
  assumes "matrix m f" and "square (a, b) g" and "x < 8" and "y < 8" and "j \<le> 8"
  shows "\<exists>m' a' b'. fold (sse_transpose_step x y) [0 ..< j] (m, a, b) = (m', a', b') \<and> matrix m' (squared x y j g f)
    \<and> (\<forall>c < 128. bit a' c = (j \<le> c mod 64 \<and> bit a (c - j)) \<and> bit b' c = (j \<le> c mod 64 \<and> bit b (c - j)))"
  using assms(5)
proof (induction j)
  case 0
  have "squared x y 0 g f r c = f r c" for r c using mod_less_divisor [of 8 r] by (auto simp: squared_def)
  then have "squared x y 0 g f = f" by (intro ext)
  then show ?case using assms(1) by simp
next
  case (Suc j)
  then obtain m' a' b' where s: "fold (sse_transpose_step x y) [0 ..< j] (m, a, b) = (m', a', b')" "matrix m' (squared x y j g f)"
    "\<And>c. c < 128 \<Longrightarrow> bit a' c = (j \<le> c mod 64 \<and> bit a (c - j))" "\<And>c. c < 128 \<Longrightarrow> bit b' c = (j \<le> c mod 64 \<and> bit b (c - j))" by auto
  let ?p = "16 * x + 7 - j" and ?q = "16 * x + 15 - j"
  have p: "?p < 128" "?q < 128" using assms(3) by auto
  have top: "bit (movemask_epi8 a') l = g l (7 - j)" "bit (movemask_epi8 b') l = g l (15 - j)" if l: "l < 16" for l
  proof -
    have "(8 * l + 7) mod 64 mod 8 = 7" by (simp add: mod_mod_cancel)
    then have "j \<le> (8 * l + 7) mod 64" using Suc.prems mod_less_eq_dividend [of "(8 * l + 7) mod 64" 8] by linarith
    moreover have e: "8 * l + 7 - j = 8 * l + (7 - j)" "8 + (7 - j) = 15 - j" "7 - j < 8" "8 * l + 7 < 128" using Suc.prems l by auto
    moreover have "bit a (8 * l + 7 - j) = g l (7 - j)" "bit b (8 * l + 7 - j) = g l (15 - j)"
      unfolding e(1) e(2) [symmetric] using assms(2) l e(3) by (simp_all only: square_def fst_conv snd_conv)
    ultimately show "bit (movemask_epi8 a') l = g l (7 - j)" "bit (movemask_epi8 b') l = g l (15 - j)"
      using l by (simp_all add: bit_movemask s(3,4))
  qed
  let ?m = "m'[?p := set_lane y (movemask_epi8 a') (m' ! ?p), ?q := set_lane y (movemask_epi8 b') (m'[?p := set_lane y (movemask_epi8 a') (m' ! ?p)] ! ?q)]"
  have M: "matrix ?m (squared x y (Suc j) g f)"
    using matrix_write [OF matrix_write [OF s(2) p(1)] p(2), of y "movemask_epi8 a'" y "movemask_epi8 b'"]
    by (rule matrix_cong) (rule squared_Suc, use Suc.prems top in auto)
  have S: "bit (mm_slli_epi64 z' 1) c = (Suc j \<le> c mod 64 \<and> bit z (c - Suc j))"
    if "c < 128" "\<And>c. c < 128 \<Longrightarrow> bit z' c = (j \<le> c mod 64 \<and> bit z (c - j))" for z z' :: "128 word" and c
  proof (cases "1 \<le> c mod 64")
    case True
    then have "c \<noteq> 0" by (cases "c = 0") simp_all
    then have "(c - 1) mod 64 = c mod 64 - 1" using True mod_Suc [of "c - 1" 64] by (simp split: if_splits)
    then show ?thesis using True that by (auto simp: bit_slli)
  qed (use that in \<open>auto simp: bit_slli\<close>)
  have "fold (sse_transpose_step x y) [0 ..< Suc j] (m, a, b) = sse_transpose_step x y j (m', a', b')" using s(1) by simp
  also have "\<dots> = (?m, mm_slli_epi64 a' 1, mm_slli_epi64 b' 1)" by (simp only: sse_transpose_step_def Let_def prod.case)
  finally show ?case using M S [OF _ s(3)] S [OF _ s(4)] by blast
qed

lemma transpose_square:
  assumes "matrix m f" and "square ab g" and "x < 8" and "y < 8"
  shows "\<exists>m' ab'. sse_transposeSubSquare m ab x y = (m', ab') \<and> matrix m' (\<lambda>r c. if r div 16 = x \<and> c div 16 = y then g (c mod 16) (r mod 16) else f r c)"
proof -
  obtain a b where ab: "ab = (a, b)" by (cases ab)
  have "squared x y 8 g f = (\<lambda>r c. if r div 16 = x \<and> c div 16 = y then g (c mod 16) (r mod 16) else f r c)" by (intro ext) (simp add: squared_def)
  moreover obtain m' a' b' where "sse_transposeSubSquare m ab x y = (m', a', b')" "matrix m' (squared x y 8 g f)"
    using transpose_steps [OF assms(1) assms(2) [unfolded ab] assms(3,4), of 8] by (auto simp: sse_transposeSubSquare_def ab)
  ultimately show ?thesis by (metis (no_types, lifting))
qed

text \<open>The squares that have been transposed when the loops are at \<open>j\<close> and \<open>k\<close>.\<close>

definition swapped :: "(nat \<Rightarrow> nat \<Rightarrow> bool) \<Rightarrow> (nat \<Rightarrow> nat \<Rightarrow> bool) \<Rightarrow> nat \<Rightarrow> nat \<Rightarrow> bool" where
  "swapped S f r c = (if S (r div 16) (c div 16) then f c r else f r c)"

definition squares_done :: "nat \<Rightarrow> nat \<Rightarrow> nat \<Rightarrow> nat \<Rightarrow> bool" where
  "squares_done j k p q \<longleftrightarrow> max p q < j \<or> max p q = j \<and> (p = q \<or> min p q < k)"

lemma swap_square: "r div 16 = x \<Longrightarrow> c div 16 = y \<Longrightarrow> h (16 * y + c mod 16) (16 * x + r mod 16) = h c r" for r c :: nat
  by (metis mult_div_mod_eq)

lemma squares_done_Suc:
  assumes "\<not> (p = k \<and> q = j)" and "\<not> (p = j \<and> q = k)"
  shows "squares_done j (Suc k) p q = squares_done j k p q"
proof (cases "p \<le> q")
  case True
  then show ?thesis using assms by (auto simp: squares_done_def max_def min_def less_Suc_eq)
next
  case False
  then show ?thesis using assms by (auto simp: squares_done_def max_def min_def less_Suc_eq)
qed

lemma diagonal_done: "squares_done j j = (\<lambda>p q. max p q < Suc j)"
  by (intro ext) (auto simp: squares_done_def max_def min_def)

text \<open>
  The loops over the squares, for any representation of a matrix that squares can be loaded from and
  written to.  It serves the single matrix and each of the eight matrices side by side.
\<close>

locale square_transposer =
  fixes rep :: "'m \<Rightarrow> (nat \<Rightarrow> nat \<Rightarrow> bool) \<Rightarrow> bool" and load :: "'m \<Rightarrow> 128 word \<times> 128 word \<Rightarrow> nat \<Rightarrow> nat \<Rightarrow> 128 word \<times> 128 word"
    and tr :: "'m \<Rightarrow> 128 word \<times> 128 word \<Rightarrow> nat \<Rightarrow> nat \<Rightarrow> 'm \<times> 128 word \<times> 128 word"
    and exch :: "nat \<Rightarrow> nat \<Rightarrow> 'm \<times> (128 word \<times> 128 word) \<times> (128 word \<times> 128 word) \<Rightarrow> 'm \<times> (128 word \<times> 128 word) \<times> (128 word \<times> 128 word)"
    and diag :: "nat \<Rightarrow> 'm \<times> (128 word \<times> 128 word) \<times> (128 word \<times> 128 word) \<Rightarrow> 'm \<times> (128 word \<times> 128 word) \<times> (128 word \<times> 128 word)"
  assumes rep_cong: "rep m f \<Longrightarrow> (\<And>r c. r < 128 \<Longrightarrow> c < 128 \<Longrightarrow> f r c = g r c) \<Longrightarrow> rep m g"
    and load: "rep m f \<Longrightarrow> x < 8 \<Longrightarrow> y < 8 \<Longrightarrow> square (load m ab x y) (\<lambda>l k. f (16 * x + l) (16 * y + k))"
    and tr: "rep m f \<Longrightarrow> square ab g \<Longrightarrow> x < 8 \<Longrightarrow> y < 8 \<Longrightarrow>
      \<exists>m' ab'. tr m ab x y = (m', ab') \<and> rep m' (\<lambda>r c. if r div 16 = x \<and> c div 16 = y then g (c mod 16) (r mod 16) else f r c)"
    and exch: "exch j k (m, a, b) = (case tr m (load m a k j) j k of (m1, a') \<Rightarrow> case tr m1 (load m b j k) k j of (m2, b') \<Rightarrow> (m2, a', b'))"
    and diag: "diag j (m, a, b) = (case tr m (load m a j j) j j of (m', a') \<Rightarrow> fold (exch j) [0 ..< j] (m', a', b))"
begin

lemma diagonal_square:
  assumes "rep m (swapped (\<lambda>p q. max p q < j) f)" and "j < 8"
  shows "\<exists>m' a'. tr m (load m a j j) j j = (m', a') \<and> rep m' (swapped (squares_done j 0) f)"
proof -
  let ?h = "swapped (\<lambda>p q. max p q < j) f"
  obtain m' a' where t: "tr m (load m a j j) j j = (m', a')"
    "rep m' (\<lambda>r c. if r div 16 = j \<and> c div 16 = j then ?h (16 * j + c mod 16) (16 * j + r mod 16) else ?h r c)"
    using tr [OF assms(1) load [OF assms(1,2,2), of a] assms(2,2)] by blast
  have "rep m' (swapped (squares_done j 0) f)"
    using t(2)
  proof (rule rep_cong)
    fix r c :: nat
    show "(if r div 16 = j \<and> c div 16 = j then ?h (16 * j + c mod 16) (16 * j + r mod 16) else ?h r c) = swapped (squares_done j 0) f r c"
      using swap_square [of r j c j ?h] by (auto simp: swapped_def squares_done_def max_def)
  qed
  then show ?thesis using t(1) by blast
qed

lemma exchange_squares:
  assumes "rep m (swapped (squares_done j k) f)" and "k < j" and "j < 8"
  shows "\<exists>m' a' b'. exch j k (m, a, b) = (m', a', b') \<and> rep m' (swapped (squares_done j (Suc k)) f)"
proof -
  let ?h = "swapped (squares_done j k) f"
  have k: "k < 8" using assms by simp
  obtain m1 a' where t: "tr m (load m a k j) j k = (m1, a')"
    "rep m1 (\<lambda>r c. if r div 16 = j \<and> c div 16 = k then ?h (16 * k + c mod 16) (16 * j + r mod 16) else ?h r c)" (is "rep _ ?h1")
    using tr [OF assms(1) load [OF assms(1) k assms(3), of a] assms(3) k] by blast
  obtain m2 b' where u: "tr m1 (load m b j k) k j = (m2, b')"
    "rep m2 (\<lambda>r c. if r div 16 = k \<and> c div 16 = j then ?h (16 * j + c mod 16) (16 * k + r mod 16) else ?h1 r c)"
    using tr [OF t(2) load [OF assms(1) assms(3) k, of b] k assms(3)] by blast
  have "rep m2 (swapped (squares_done j (Suc k)) f)"
    using u(2)
  proof (rule rep_cong)
    fix r c :: nat
    consider "r div 16 = k" "c div 16 = j" | "r div 16 = j" "c div 16 = k" | "\<not> (r div 16 = k \<and> c div 16 = j)" "\<not> (r div 16 = j \<and> c div 16 = k)" by blast
    then show "(if r div 16 = k \<and> c div 16 = j then ?h (16 * j + c mod 16) (16 * k + r mod 16) else ?h1 r c) = swapped (squares_done j (Suc k)) f r c"
    proof cases
      case 1
      then show ?thesis using swap_square [OF 1, of ?h] assms(2) by (simp add: swapped_def squares_done_def)
    next
      case 2
      then show ?thesis using swap_square [OF 2, of ?h] assms(2) by (simp add: swapped_def squares_done_def)
    next
      case 3
      note squares_done_Suc [OF 3]
      then show ?thesis using 3 by (simp only: swapped_def if_False simp_thms)
    qed
  qed
  moreover have "exch j k (m, a, b) = (m2, a', b')" by (simp only: exch prod.case t(1) u(1))
  ultimately show ?thesis by blast
qed

lemma exchanges:
  assumes "rep m (swapped (squares_done j 0) f)" and "k \<le> j" and "j < 8"
  shows "\<exists>m' a' b'. fold (exch j) [0 ..< k] (m, a, b) = (m', a', b') \<and> rep m' (swapped (squares_done j k) f)"
  using assms(2)
proof (induction k)
  case (Suc k)
  then obtain m1 a1 b1 where 1: "fold (exch j) [0 ..< k] (m, a, b) = (m1, a1, b1)" "rep m1 (swapped (squares_done j k) f)" by auto
  with exchange_squares [OF 1(2) _ assms(3), of a1 b1] Suc.prems show ?case by auto
qed (use assms(1) in simp)

lemma diagonals:
  assumes "rep m f" and "j \<le> 8"
  shows "\<exists>m' a' b'. fold diag [0 ..< j] (m, a, b) = (m', a', b') \<and> rep m' (swapped (\<lambda>p q. max p q < j) f)"
  using assms(2)
proof (induction j)
  case 0
  have "swapped (\<lambda>p q. max p q < 0) f = f" by (intro ext) (simp add: swapped_def)
  then show ?case using assms(1) by simp
next
  case (Suc j)
  then obtain m1 a1 b1 where 1: "fold diag [0 ..< j] (m, a, b) = (m1, a1, b1)" "rep m1 (swapped (\<lambda>p q. max p q < j) f)" by auto
  obtain m2 a2 where 2: "tr m1 (load m1 a1 j j) j j = (m2, a2)" "rep m2 (swapped (squares_done j 0) f)"
    using diagonal_square [OF 1(2), of a1] Suc.prems by auto
  obtain m3 a3 b3 where 3: "fold (exch j) [0 ..< j] (m2, a2, b1) = (m3, a3, b3)" "rep m3 (swapped (squares_done j j) f)"
    using exchanges [OF 2(2) order_refl, of a2 b1] Suc.prems by auto
  have "diag j (m1, a1, b1) = (m3, a3, b3)" by (simp only: diag prod.case 2(1) 3(1))
  then have "fold diag [0 ..< Suc j] (m, a, b) = (m3, a3, b3)" using 1(1) by simp
  then show ?case using 3(2) unfolding diagonal_done by blast
qed

lemma transposes:
  assumes "rep m f"
  shows "\<exists>m' a' b'. fold diag [0 ..< 8] (m, a, b) = (m', a', b') \<and> rep m' (\<lambda>r c. f c r)"
proof -
  obtain m' a' b' where m: "fold diag [0 ..< 8] (m, a, b) = (m', a', b')" "rep m' (swapped (\<lambda>p q. max p q < 8) f)"
    using diagonals [OF assms order_refl, of a b] by auto
  from m(2) have "rep m' (\<lambda>r c. f c r)"
  proof (rule rep_cong)
    fix r c :: nat assume "r < 128" "c < 128"
    then have "r div 16 < 8" "c div 16 < 8" by auto
    then show "swapped (\<lambda>p q. max p q < 8) f r c = f c r" by (simp add: swapped_def)
  qed
  then show ?thesis using m(1) by blast
qed

end

interpretation single: square_transposer matrix sse_loadSubSquare sse_transposeSubSquare sse_exchange sse_diagonal
proof unfold_locales
  show "matrix m g" if "matrix m f" "\<And>r c. r < 128 \<Longrightarrow> c < 128 \<Longrightarrow> f r c = g r c" for m f g by (rule matrix_cong [OF that])
qed (simp_all only: load_square transpose_square sse_exchange_def sse_diagonal_def Let_def prod.case)

theorem sse_transposes:
  assumes "length rows = 128"
  shows "SseTranspose128 a b rows = transposed rows"
  using single.transposes [OF matrix_of [OF assms], of a b] matrix_transposed [OF assms] by (auto simp: SseTranspose128_def)

corollary matrix_transpose_correct: "length rows = 128 \<Longrightarrow> MatrixTranspose128 sse a b rows = transposed rows"
  by (simp add: MatrixTranspose128_def sse_transposes eklundh_transposes)

subsection \<open>Eight matrices side by side\<close>

definition wide :: "128 word list list \<Rightarrow> bool" where
  "wide m \<longleftrightarrow> length m = 128 \<and> (\<forall>row \<in> set m. length row = 8)"

definition column :: "nat \<Rightarrow> 128 word list list \<Rightarrow> 128 word list" where
  "column i m = map (\<lambda>row. row ! i) m"

text \<open>Column \<open>i\<close> holds a matrix, and the other columns are those of a given table.\<close>

definition wide_rep :: "nat \<Rightarrow> 128 word list list \<Rightarrow> 128 word list list \<Rightarrow> (nat \<Rightarrow> nat \<Rightarrow> bool) \<Rightarrow> bool" where
  "wide_rep i m0 m f \<longleftrightarrow> i < 8 \<and> wide m \<and> matrix (column i m) f \<and> (\<forall>k < 8. k \<noteq> i \<longrightarrow> column k m = column k m0)"

lemma wide_update:
  assumes "wide m" and "r < 128" and "i < 8"
  shows "wide (m[r := (m ! r)[i := v]])" and "column k (m[r := (m ! r)[i := v]]) = (if k = i then (column i m)[r := v] else column k m)"
proof -
  have r: "length (m ! r) = 8" "r < length m" using assms by (auto simp: wide_def)
  show "wide (m[r := (m ! r)[i := v]])" using assms r by (auto simp: wide_def dest: set_update_subset_insert [THEN subsetD])
  show "column k (m[r := (m ! r)[i := v]]) = (if k = i then (column i m)[r := v] else column k m)"
    using assms(3) r by (intro nth_equalityI) (auto simp: column_def nth_list_update)
qed

lemma wide_write:
  fixes v :: "16 word"
  assumes "wide_rep i m0 m f" and "p < 128" and "y < 8"
  shows "wide_rep i m0 (set_u16_view p (i * 8 + y) v m) (\<lambda>r c. if r = p \<and> c div 16 = y then bit v (c mod 16) else f r c)"
proof -
  have m: "wide m" "i < 8" "matrix (column i m) f" using assms(1) by (simp_all add: wide_rep_def)
  have d: "(i * 8 + y) div 8 = i" "(i * 8 + y) mod 8 = y" using assms(3) by simp_all
  have c: "m ! p ! i = column i m ! p" using m(1) assms(2) by (simp add: column_def wide_def)
  note U = wide_update [OF m(1) assms(2) m(2)]
  have s: "set_u16_view p (i * 8 + y) v m = m[p := (m ! p)[i := set_lane y v (column i m ! p)]]" by (simp only: set_u16_view_def d c)
  have "column k (m[p := (m ! p)[i := set_lane y v (column i m ! p)]]) = column k m0" if "k < 8" "k \<noteq> i" for k
    using U(2) that assms(1) by (simp add: wide_rep_def)
  then show ?thesis using U(1) m(2) U(2) [of i] matrix_write [OF m(3) assms(2), of y v] unfolding s wide_rep_def by presburger
qed

lemma wide_rep_cong: "wide_rep i m0 m f \<Longrightarrow> (\<And>r c. r < 128 \<Longrightarrow> c < 128 \<Longrightarrow> f r c = g r c) \<Longrightarrow> wide_rep i m0 m g"
  unfolding wide_rep_def using matrix_cong by blast

lemma wide_load:
  assumes "wide_rep i m0 m f" and "x < 8" and "y < 8"
  shows "square (SseLoadSubSquarex m ab x y i) (\<lambda>l k. f (16 * x + l) (16 * y + k))"
proof -
  have m: "wide m" "i < 8" "matrix (column i m) f" using assms(1) by (simp_all add: wide_rep_def)
  have b: "byte_view m (x * 16 + l) (i * 16 + 2 * y) = get_lane (2 * y) (column i m ! (16 * x + l))"
    "byte_view m (x * 16 + l) (i * 16 + 2 * y + 1) = get_lane (2 * y + 1) (column i m ! (16 * x + l))" if "l < 16" for l
  proof -
    have d: "(i * 16 + 2 * y) div 16 = i" "(i * 16 + 2 * y) mod 16 = 2 * y" "(i * 16 + 2 * y + 1) div 16 = i" "(i * 16 + 2 * y + 1) mod 16 = 2 * y + 1"
      using assms(3) div_mult_self3 [of 16 i "2 * y"] div_mult_self3 [of 16 i "2 * y + 1"] mod_mult_self3 [of i 16 "2 * y"] mod_mult_self3 [of i 16 "2 * y + 1"]
      by (simp_all add: add.assoc)
    have "column i m ! (16 * x + l) = m ! (x * 16 + l) ! i" using m(1) assms(2) that by (simp add: column_def wide_def mult.commute)
    then show "byte_view m (x * 16 + l) (i * 16 + 2 * y) = get_lane (2 * y) (column i m ! (16 * x + l))"
      "byte_view m (x * 16 + l) (i * 16 + 2 * y + 1) = get_lane (2 * y + 1) (column i m ! (16 * x + l))"
      by (simp_all only: byte_view_def d)
  qed
  have "SseLoadSubSquarex m ab x y i = sse_loadSubSquare (column i m) ab x y"
    unfolding SseLoadSubSquarex_def sse_loadSubSquare_def Let_def by (rule fold_cong) (auto simp only: b fun_eq_iff set_upt atLeastLessThan_iff)
  then show ?thesis using load_square [OF m(3) assms(2,3), of ab] by simp
qed

lemma wide_writes:
  assumes "wide_rep i m0 m f" and "y < 8" and "p < 128" and "7 \<le> p" and "n \<le> 8"
  shows "wide_rep i m0 (fold (\<lambda>j. set_u16_view (p - j) (i * 8 + y) (V j)) [0 ..< n] m)
    (\<lambda>r c. if c div 16 = y \<and> r \<le> p \<and> p - r < n then bit (V (p - r)) (c mod 16) else f r c)"
  using assms(5)
proof (induction n)
  case (Suc n)
  let ?f = "\<lambda>r c. if c div 16 = y \<and> r \<le> p \<and> p - r < n then bit (V (p - r)) (c mod 16) else f r c"
  have "wide_rep i m0 (set_u16_view (p - n) (i * 8 + y) (V n) (fold (\<lambda>j. set_u16_view (p - j) (i * 8 + y) (V j)) [0 ..< n] m))
    (\<lambda>r c. if r = p - n \<and> c div 16 = y then bit (V n) (c mod 16) else ?f r c)"
    using Suc assms(2,3) by (intro wide_write) auto
  moreover have "(if r = p - n \<and> c div 16 = y then bit (V n) (c mod 16) else ?f r c) =
      (if c div 16 = y \<and> r \<le> p \<and> p - r < Suc n then bit (V (p - r)) (c mod 16) else f r c)" for r c
  proof (cases "r = p - n")
    case True
    then have "p - r = n" "r \<le> p" using Suc.prems assms(4) by auto
    then show ?thesis using True by simp
  next
    case False
    then have "r \<le> p \<and> p - r < Suc n \<longleftrightarrow> r \<le> p \<and> p - r < n" using Suc.prems assms(4) by auto
    then show ?thesis using False by simp
  qed
  ultimately show ?case by simp
qed (use assms(1) in simp)

lemma square_top:
  assumes "square (a, b) g" and "j < 8" and "l < 16"
  shows "bit (movemask_epi8 (mm_slli_epi64 a j)) l = g l (7 - j)" and "bit (movemask_epi8 (mm_slli_epi64 b j)) l = g l (15 - j)"
proof -
  have "(8 * l + 7) mod 64 mod 8 = 7" by (simp add: mod_mod_cancel)
  then have m: "j \<le> (8 * l + 7) mod 64" using assms(2) mod_less_eq_dividend [of "(8 * l + 7) mod 64" 8] by linarith
  have e: "8 * l + 7 - j = 8 * l + (7 - j)" "8 + (7 - j) = 15 - j" "7 - j < 8" "8 * l + 7 < 128" using assms by auto
  have "bit a (8 * l + 7 - j) = g l (7 - j)" "bit b (8 * l + 7 - j) = g l (15 - j)"
    unfolding e(1) e(2) [symmetric] using assms(1,3) e(3) by (simp_all only: square_def fst_conv snd_conv)
  then show "bit (movemask_epi8 (mm_slli_epi64 a j)) l = g l (7 - j)" "bit (movemask_epi8 (mm_slli_epi64 b j)) l = g l (15 - j)"
    using assms(3) e(4) m by (simp_all add: bit_movemask bit_slli)
qed

lemma row_in_square:
  fixes r x :: nat
  assumes "r \<le> 16 * x + 15" and "16 * x + 15 - r < 8"
  shows "r div 16 = x" and "15 - (16 * x + 15 - r) = r mod 16" and "\<not> (r \<le> 16 * x + 7 \<and> 16 * x + 7 - r < 8)"
proof -
  have b: "16 * x \<le> r" "r < 16 * x + 16" "16 * x + 8 \<le> r" using assms by auto
  show d: "r div 16 = x" using b by (intro div_nat_eqI) auto
  have "r = 16 * x + r mod 16" by (metis d mult_div_mod_eq)
  then show "15 - (16 * x + 15 - r) = r mod 16" using b by linarith
  show "\<not> (r \<le> 16 * x + 7 \<and> 16 * x + 7 - r < 8)" using b by linarith
qed

lemma row_in_square_low:
  fixes r x :: nat
  assumes "r \<le> 16 * x + 7" and "16 * x + 7 - r < 8"
  shows "r div 16 = x" and "7 - (16 * x + 7 - r) = r mod 16"
proof -
  have b: "16 * x \<le> r" "r < 16 * x + 16" using assms by auto
  show d: "r div 16 = x" using b by (intro div_nat_eqI) auto
  have "r = 16 * x + r mod 16" by (metis d mult_div_mod_eq)
  then show "7 - (16 * x + 7 - r) = r mod 16" using b assms by linarith
qed

lemma row_of_square:
  fixes r x :: nat
  assumes "r div 16 = x" shows "r \<le> 16 * x + 15 \<and> 16 * x + 15 - r < 8 \<or> r \<le> 16 * x + 7 \<and> 16 * x + 7 - r < 8"
proof -
  have "r = 16 * x + r mod 16" by (metis assms mult_div_mod_eq)
  moreover have "r mod 16 < 16" by simp
  ultimately show ?thesis by linarith
qed

lemma wide_transpose:
  assumes "wide_rep i m0 m f" and "square ab g" and "x < 8" and "y < 8"
  shows "wide_rep i m0 (SseTransposeSubSquarex m ab x y i) (\<lambda>r c. if r div 16 = x \<and> c div 16 = y then g (c mod 16) (r mod 16) else f r c)"
proof -
  obtain a b where ab: "ab = (a, b)" by (cases ab)
  note sq = square_top [OF assms(2) [unfolded ab]]
  let ?p = "16 * x + 7" and ?q = "16 * x + 15"
  let ?V = "\<lambda>j. movemask_epi8 (mm_slli_epi64 a j)" and ?W = "\<lambda>j. movemask_epi8 (mm_slli_epi64 b j)"
  have p: "?p < 128" "?q < 128" "7 \<le> ?p" "7 \<le> ?q" using assms(3) by auto
  note 1 = wide_writes [OF assms(1,4) p(1,3) order_refl, of ?V]
  note 2 = wide_writes [OF 1 assms(4) p(2,4) order_refl, of ?W]
  have "SseTransposeSubSquarex m ab x y i = fold (\<lambda>j. set_u16_view (?q - j) (i * 8 + y) (?W j)) [0 ..< 8] (fold (\<lambda>j. set_u16_view (?p - j) (i * 8 + y) (?V j)) [0 ..< 8] m)"
    by (simp add: SseTransposeSubSquarex_def ab Let_def mult.commute)
  then show ?thesis
  proof (simp only:, intro wide_rep_cong [OF 2])
    fix r c :: nat
    have c: "c mod 16 < 16" by simp
    consider "c div 16 = y" "r \<le> ?q" "?q - r < 8" | "c div 16 = y" "\<not> (r \<le> ?q \<and> ?q - r < 8)" "r \<le> ?p" "?p - r < 8"
      | "c div 16 \<noteq> y \<or> \<not> (r \<le> ?q \<and> ?q - r < 8) \<and> \<not> (r \<le> ?p \<and> ?p - r < 8)" by blast
    then show "(if c div 16 = y \<and> r \<le> ?q \<and> ?q - r < 8 then bit (?W (?q - r)) (c mod 16)
        else if c div 16 = y \<and> r \<le> ?p \<and> ?p - r < 8 then bit (?V (?p - r)) (c mod 16) else f r c) =
      (if r div 16 = x \<and> c div 16 = y then g (c mod 16) (r mod 16) else f r c)"
    proof cases
      case 1
      note R = row_in_square [OF 1(2,3)]
      show ?thesis using 1 R(1) sq(2) [OF 1(3) c] unfolding R(2) by simp
    next
      case 2
      note R = row_in_square_low [OF 2(3,4)]
      show ?thesis using 2 R(1) sq(1) [OF 2(4) c] unfolding R(2) by auto
    next
      case 3
      then have "\<not> (r div 16 = x \<and> c div 16 = y)" using row_of_square [of r x] by blast
      then show ?thesis using 3 by auto
    qed
  qed
qed

interpretation eight: square_transposer "wide_rep i m0" "\<lambda>m ab x y. SseLoadSubSquarex m ab x y i" "\<lambda>m ab x y. (SseTransposeSubSquarex m ab x y i, ab)"
  "sse_exchangex i" "sse_diagonalx i" for i m0
proof unfold_locales
  show "wide_rep i m0 m g" if "wide_rep i m0 m f" "\<And>r c. r < 128 \<Longrightarrow> c < 128 \<Longrightarrow> f r c = g r c" for m f g by (rule wide_rep_cong [OF that])
  show "\<exists>m' ab'. (SseTransposeSubSquarex m ab x y i, ab) = (m', ab') \<and> wide_rep i m0 m' (\<lambda>r c. if r div 16 = x \<and> c div 16 = y then g (c mod 16) (r mod 16) else f r c)"
    if "wide_rep i m0 m f" "square ab g" "x < 8" "y < 8" for m f ab g x y
    using wide_transpose [OF that] by blast
qed (simp_all only: wide_load sse_exchangex_def sse_diagonalx_def Let_def prod.case)

definition transposed_columns :: "128 word list list \<Rightarrow> 128 word list list" where
  "transposed_columns m = map (\<lambda>r. map (\<lambda>i. transposed (column i m) ! r) [0 ..< 8]) [0 ..< 128]"

lemma wide_length: "wide m \<Longrightarrow> length (column i m) = 128"
  by (simp add: wide_def column_def)

lemma columns_eq:
  assumes "wide m'" and "\<And>i. i < 8 \<Longrightarrow> column i m' = transposed (column i m)"
  shows "m' = transposed_columns m"
proof (rule nth_equalityI)
  show l: "length m' = length (transposed_columns m)" using assms(1) by (simp add: wide_def transposed_columns_def)
  fix r assume "r < length m'"
  then have r: "r < 128" "length (m' ! r) = 8" using assms(1) by (auto simp: wide_def)
  show "m' ! r = transposed_columns m ! r"
  proof (rule nth_equalityI)
    fix i assume "i < length (m' ! r)"
    then have i: "i < 8" using r by simp
    have "m' ! r ! i = column i m' ! r" using assms(1) r by (simp add: column_def wide_def)
    then show "m' ! r ! i = transposed_columns m ! r ! i" using assms(2) [OF i] r i by (simp add: transposed_columns_def)
  qed (use r in \<open>simp add: transposed_columns_def\<close>)
qed

lemma columns_fold:
  assumes "wide m" and "\<And>i m st. i < 8 \<Longrightarrow> wide m \<Longrightarrow> \<exists>m' st'. F i (m, st) = (m', st') \<and> wide m' \<and> column i m' = transposed (column i m) \<and> (\<forall>k < 8. k \<noteq> i \<longrightarrow> column k m' = column k m)"
  shows "\<exists>m' st'. fold F [0 ..< 8] (m, st) = (m', st') \<and> m' = transposed_columns m"
proof -
  have "\<exists>m' st'. fold F [0 ..< n] (m, st) = (m', st') \<and> wide m' \<and> (\<forall>k < 8. column k m' = (if k < n then transposed (column k m) else column k m))" if "n \<le> 8" for n
    using that
  proof (induction n)
    case (Suc n)
    then obtain m1 s1 where 1: "fold F [0 ..< n] (m, st) = (m1, s1)" "wide m1" "\<forall>k < 8. column k m1 = (if k < n then transposed (column k m) else column k m)" by auto
    obtain m2 s2 where 2: "F n (m1, s1) = (m2, s2)" "wide m2" "column n m2 = transposed (column n m1)" "\<forall>k < 8. k \<noteq> n \<longrightarrow> column k m2 = column k m1"
      using assms(2) [OF _ 1(2), of n s1] Suc.prems by auto
    have "column k m2 = (if k < Suc n then transposed (column k m) else column k m)" if "k < 8" for k
      using 1(3) 2(3,4) that Suc.prems by (cases "k = n") (auto simp: less_Suc_eq)
    then show ?case using 1(1) 2(1,2) by simp
  qed (use assms(1) in simp)
  from this [OF order_refl] obtain m' st' where m: "fold F [0 ..< 8] (m, st) = (m', st')" "wide m'" "\<forall>k < 8. column k m' = transposed (column k m)" by auto
  moreover have "m' = transposed_columns m" using m by (intro columns_eq) auto
  ultimately show ?thesis by blast
qed

theorem sse_transposes_wide:
  assumes "wide m"
  shows "SseTranspose128x1024 a b m = transposed_columns m"
proof -
  have "\<exists>m' st'. fold (sse_diagonalx i) [0 ..< 8] (m, st) = (m', st') \<and> wide m' \<and> column i m' = transposed (column i m) \<and> (\<forall>k < 8. k \<noteq> i \<longrightarrow> column k m' = column k m)"
    if "i < 8" "wide m" for i m st
  proof -
    obtain a b where st: "st = (a, b)" by (cases st)
    have l: "length (column i m) = 128" using wide_length [OF that(2)] .
    have "wide_rep i m m (\<lambda>r c. bit (column i m ! r) c)" using that matrix_of [OF l] by (simp add: wide_rep_def)
    from eight.transposes [OF this, of a b] obtain m' a' b' where "fold (sse_diagonalx i) [0 ..< 8] (m, a, b) = (m', a', b')"
      "wide_rep i m m' (\<lambda>r c. bit (column i m ! c) r)" by auto
    then show ?thesis using matrix_transposed [OF l] by (auto simp: st wide_rep_def)
  qed
  from columns_fold [where F = "\<lambda>i. fold (sse_diagonalx i) [0 ..< 8]", OF assms this, of "(a, b)"] show ?thesis by (auto simp: SseTranspose128x1024_def)
qed

lemma eklundh_column_step:
  assumes "i < 8" and "wide m"
  shows "wide (eklundh_column i m)" and "k < 8 \<Longrightarrow> column k (eklundh_column i m) = (if k = i then transposed (column i m) else column k m)"
proof -
  let ?s = "EklundhTranspose128 (map (\<lambda>j. m ! j ! i) [0 ..< 128])"
  have "map (\<lambda>j. m ! j ! i) [0 ..< 128] = column i m" using assms(2) by (intro nth_equalityI) (simp_all add: column_def wide_def)
  then have s: "?s = transposed (column i m)" using eklundh_transposes [OF wide_length [OF assms(2), of i]] by simp
  have st: "wide (fold (\<lambda>j inout. inout[j := (inout ! j)[i := ?s ! j]]) [0 ..< n] m)
      \<and> column k (fold (\<lambda>j inout. inout[j := (inout ! j)[i := ?s ! j]]) [0 ..< n] m) = (if k = i then take n ?s @ drop n (column i m) else column k m)"
    if "n \<le> 128" for n k
    using that
  proof (induction n)
    case (Suc n)
    have "(take n ?s @ drop n (column i m))[n := ?s ! n] = take (Suc n) ?s @ drop (Suc n) (column i m)"
      using Suc.prems wide_length [OF assms(2), of i]
      by (intro nth_equalityI) (auto simp: s transposed_def nth_append nth_list_update less_Suc_eq)
    then show ?case using Suc wide_update [where r = n and i = i and v = "?s ! n"] assms(1) by (cases "k = i") simp_all
  qed (use assms(2) in simp)
  show "wide (eklundh_column i m)" using st [of 128] by (simp add: eklundh_column_def Let_def)
  have "length ?s = 128" by (simp add: s transposed_def)
  then show "column k (eklundh_column i m) = (if k = i then transposed (column i m) else column k m)" if "k < 8"
    using st [of 128 k] s wide_length [OF assms(2), of i] by (simp add: eklundh_column_def Let_def)
qed

theorem eklundh_transposes_wide:
  assumes "wide m"
  shows "EklundhTranspose128x1024 m = transposed_columns m"
proof -
  have "\<exists>m' st'. (\<lambda>(m, s). (eklundh_column i m, s)) (m, st) = (m', st') \<and> wide m' \<and> column i m' = transposed (column i m) \<and> (\<forall>k < 8. k \<noteq> i \<longrightarrow> column k m' = column k m)"
    if "i < 8" "wide m" for i m and st :: unit
    using eklundh_column_step [OF that] that by simp
  from columns_fold [where F = "\<lambda>i (m, s). (eklundh_column i m, s)", OF assms this, of "()"]
  have "fst (fold (\<lambda>i (m, s). (eklundh_column i m, s)) [0 ..< 8] (m, ())) = transposed_columns m" by auto
  moreover have "fold (\<lambda>i (m, s). (eklundh_column i m, s)) xs (m, ()) = (fold eklundh_column xs m, ())" for xs
    by (induction xs arbitrary: m) simp_all
  ultimately show ?thesis by (simp add: EklundhTranspose128x1024_def)
qed

corollary matrix_transpose_wide_correct: "wide m \<Longrightarrow> MatrixTranspose128x1024 sse a b m = transposed_columns m"
  by (simp add: MatrixTranspose128x1024_def sse_transposes_wide eklundh_transposes_wide)

end
