(* ===== verification/DynamicBitset.thy ===== *)
theory DynamicBitset
  imports Prelude
begin

text \<open>
  \<^verbatim>\<open>utils/dynamic_bitset.h\<close>: a sequence of bits in a vector of blocks.  The width of a block, a template
  parameter, is the width of the word type.  The header's own \<^verbatim>\<open>check_consistency\<close> is the invariant,
  and every operation refines an operation on lists of truth values.

  An operation that starts with an assertion returns \<open>None\<close> where the assertion fails: that is the end of
  the program in a debugging build and an access out of range in the others.  Sizes are natural
  numbers; a vector has less than \<open>2^64\<close> elements, and where the number \<^verbatim>\<open>npos\<close> matters this is a
  hypothesis.
\<close>

unbundle bit_operations_syntax

subsection \<open>Blocks\<close>

record 'b dynamic_bitset =
  m_blocks :: "'b list"
  m_bits_number :: nat

definition npos :: nat where
  "npos = 2 ^ 64 - 1"

definition one_block :: "'a :: len word" where
  "one_block = NOT 0"

definition blocks_required :: "nat \<Rightarrow> nat \<Rightarrow> nat" where
  "blocks_required bits_per_block nbits = nbits div bits_per_block + of_bool (nbits mod bits_per_block > 0)"

definition block_index :: "nat \<Rightarrow> nat \<Rightarrow> nat" where
  "block_index bits_per_block pos = pos div bits_per_block"

definition bit_index :: "nat \<Rightarrow> nat \<Rightarrow> nat" where
  "bit_index bits_per_block pos = pos mod bits_per_block"

definition bit_mask :: "nat \<Rightarrow> 'a :: len word" where
  "bit_mask pos = push_bit (bit_index LENGTH('a) pos) 1"

definition range_mask :: "nat \<Rightarrow> nat \<Rightarrow> 'a :: len word" where
  "range_mask first final =
     (let first = bit_index LENGTH('a) first;
          final = bit_index LENGTH('a) final
      in if final = LENGTH('a) - 1 then push_bit first one_block
         else (push_bit (final + 1) 1 - 1) XOR (push_bit first 1 - 1))"

definition set_block_bits :: "'a :: len word \<Rightarrow> nat \<Rightarrow> nat \<Rightarrow> bool \<Rightarrow> 'a word" where
  "set_block_bits block first final val =
     (if val then block OR range_mask first final else block AND NOT (range_mask first final))"

definition flip_block_bits :: "'a :: len word \<Rightarrow> nat \<Rightarrow> nat \<Rightarrow> 'a word" where
  "flip_block_bits block first final = block XOR range_mask first final"

definition extra_bits_number :: "'a :: len word dynamic_bitset \<Rightarrow> nat" where
  "extra_bits_number b = bit_index LENGTH('a) (m_bits_number b)"

definition unused_bits_number :: "'a :: len word dynamic_bitset \<Rightarrow> nat" where
  "unused_bits_number b = LENGTH('a) - extra_bits_number b"

definition last_block :: "'a :: len word dynamic_bitset \<Rightarrow> 'a word" where
  "last_block b = m_blocks b ! (length (m_blocks b) - 1)"

definition set_last_block :: "'a :: len word \<Rightarrow> 'a word dynamic_bitset \<Rightarrow> 'a word dynamic_bitset" where
  "set_last_block x b = b\<lparr>m_blocks := (m_blocks b)[length (m_blocks b) - 1 := x]\<rparr>"

definition sanitize :: "'a :: len word dynamic_bitset \<Rightarrow> 'a word dynamic_bitset" where
  "sanitize b =
     (let shift = m_bits_number b mod LENGTH('a)
      in if shift > 0 then set_last_block (last_block b AND NOT (push_bit shift one_block)) b else b)"

definition check_unused_bits :: "'a :: len word dynamic_bitset \<Rightarrow> bool" where
  "check_unused_bits b =
     (let extra_bits = extra_bits_number b
      in if extra_bits > 0 then last_block b AND push_bit extra_bits one_block = 0 else True)"

definition check_size :: "'a :: len word dynamic_bitset \<Rightarrow> bool" where
  "check_size b = (blocks_required LENGTH('a) (m_bits_number b) = length (m_blocks b))"

definition check_consistency :: "'a :: len word dynamic_bitset \<Rightarrow> bool" where
  "check_consistency b = (check_unused_bits b \<and> check_size b)"

subsection \<open>Construction and size\<close>

definition empty_bitset :: "'a :: len word dynamic_bitset" where
  "empty_bitset = \<lparr>m_blocks = [], m_bits_number = 0\<rparr>"

definition new_bitset :: "nat \<Rightarrow> 128 word \<Rightarrow> 'a :: len word dynamic_bitset" where
  "new_bitset nbits init_val =
     (let b = \<lparr>m_blocks = replicate (blocks_required LENGTH('a) nbits) 0, m_bits_number = nbits\<rparr>;
          init_val_required_blocks = 128 div LENGTH('a)
      in if nbits = 0 \<or> init_val = 0 then b
         else sanitize (b\<lparr>m_blocks :=
           (if init_val_required_blocks = 1 then (m_blocks b)[0 := ucast init_val]
            else fold (\<lambda>i blocks. blocks[i := ucast (drop_bit (i * LENGTH('a)) init_val AND ucast (one_block :: 'a word))])
                   [0 ..< min (length (m_blocks b)) init_val_required_blocks] (m_blocks b))\<rparr>))"

definition resize :: "nat \<Rightarrow> bool \<Rightarrow> 'a :: len word dynamic_bitset \<Rightarrow> 'a word dynamic_bitset" where
  "resize nbits value b =
     (if nbits = m_bits_number b then b
      else
        (let old_num_blocks = length (m_blocks b);
             new_num_blocks = blocks_required LENGTH('a) nbits;
             init_value = (if value then one_block else 0);
             blocks = (if new_num_blocks \<noteq> old_num_blocks
                       then take new_num_blocks (m_blocks b) @ replicate (new_num_blocks - old_num_blocks) init_value else m_blocks b);
             blocks = (if value \<and> nbits > m_bits_number b \<and> old_num_blocks > 0 \<and> extra_bits_number b > 0
                       then blocks[old_num_blocks - 1 := blocks ! (old_num_blocks - 1) OR push_bit (extra_bits_number b) init_value]
                       else blocks)
         in sanitize (b\<lparr>m_blocks := blocks, m_bits_number := nbits\<rparr>)))"

definition clear_bits :: "'a :: len word dynamic_bitset \<Rightarrow> 'a word dynamic_bitset" where
  "clear_bits b = b\<lparr>m_blocks := [], m_bits_number := 0\<rparr>"

definition set_pos :: "nat \<Rightarrow> bool \<Rightarrow> 'a :: len word dynamic_bitset \<Rightarrow> 'a word dynamic_bitset option" where
  "set_pos pos value b =
     (if pos < m_bits_number b
      then Some (b\<lparr>m_blocks := (m_blocks b)[block_index LENGTH('a) pos :=
             (if value then m_blocks b ! block_index LENGTH('a) pos OR bit_mask pos
              else m_blocks b ! block_index LENGTH('a) pos AND NOT (bit_mask pos))]\<rparr>)
      else None)"

definition push_back :: "bool \<Rightarrow> 'a :: len word dynamic_bitset \<Rightarrow> 'a word dynamic_bitset" where
  "push_back value b =
     (let new_last_bit = m_bits_number b;
          b = b\<lparr>m_bits_number := m_bits_number b + 1\<rparr>
      in if m_bits_number b \<le> length (m_blocks b) * LENGTH('a)
         then (if value then the (set_pos new_last_bit value b) else b)
         else b\<lparr>m_blocks := m_blocks b @ [of_bool value]\<rparr>)"

definition pop_back :: "'a :: len word dynamic_bitset \<Rightarrow> 'a word dynamic_bitset" where
  "pop_back b =
     (if m_bits_number b = 0 then b
      else
        (let b = b\<lparr>m_bits_number := m_bits_number b - 1\<rparr>
         in if length (m_blocks b) > blocks_required LENGTH('a) (m_bits_number b)
            then b\<lparr>m_blocks := butlast (m_blocks b)\<rparr>
            else sanitize b))"

definition append_block :: "'a :: len word \<Rightarrow> 'a word dynamic_bitset \<Rightarrow> 'a word dynamic_bitset" where
  "append_block block b =
     (let extra_bits = extra_bits_number b;
          b = (if extra_bits = 0 then b\<lparr>m_blocks := m_blocks b @ [block]\<rparr>
               else
                 (let b = set_last_block (last_block b OR push_bit extra_bits block) b
                  in b\<lparr>m_blocks := m_blocks b @ [drop_bit (LENGTH('a) - extra_bits) block]\<rparr>))
      in b\<lparr>m_bits_number := m_bits_number b + LENGTH('a)\<rparr>)"

text \<open>The loop over the remaining blocks, with the block that is carried from one to the next.\<close>

fun append_carry :: "nat \<Rightarrow> nat \<Rightarrow> 'a :: len word \<Rightarrow> 'a word list \<Rightarrow> 'a word dynamic_bitset \<Rightarrow> 'a word dynamic_bitset" where
  "append_carry extra_bits unused_bits block [] b =
     b\<lparr>m_blocks := m_blocks b @ [block], m_bits_number := m_bits_number b + LENGTH('a)\<rparr>"
| "append_carry extra_bits unused_bits block (x # xs) b =
     append_carry extra_bits unused_bits (drop_bit unused_bits x) xs
       (b\<lparr>m_blocks := m_blocks b @ [block OR push_bit extra_bits x], m_bits_number := m_bits_number b + LENGTH('a)\<rparr>)"

definition append_range :: "'a :: len word list \<Rightarrow> 'a word dynamic_bitset \<Rightarrow> 'a word dynamic_bitset" where
  "append_range blocks b =
     (case blocks of [] \<Rightarrow> b
      | x # xs \<Rightarrow>
          (let extra_bits = extra_bits_number b;
               unused_bits = unused_bits_number b
           in if extra_bits = 0
              then b\<lparr>m_blocks := m_blocks b @ blocks, m_bits_number := m_bits_number b + length blocks * LENGTH('a)\<rparr>
              else append_carry extra_bits unused_bits (drop_bit unused_bits x) xs
                     (set_last_block (last_block b OR push_bit extra_bits x) b)))"

definition append_other :: "'a :: len word dynamic_bitset \<Rightarrow> 'a word dynamic_bitset \<Rightarrow> 'a word dynamic_bitset" where
  "append_other other b = resize (m_bits_number b + m_bits_number other) False (append_range (m_blocks other) b)"

text \<open>Appending a bit set to itself reads the blocks while they are extended.\<close>

definition append_self :: "'a :: len word dynamic_bitset \<Rightarrow> 'a word dynamic_bitset" where
  "append_self b = resize (m_bits_number b + m_bits_number b) False
     (fold (\<lambda>i b. append_block (m_blocks b ! i) b) [0 ..< length (m_blocks b)] b)"


subsection \<open>Operations on all bits\<close>

definition combine :: "('a :: len word \<Rightarrow> 'a word \<Rightarrow> 'a word) \<Rightarrow> 'a word dynamic_bitset \<Rightarrow> 'a word dynamic_bitset \<Rightarrow> 'a word dynamic_bitset option" where
  "combine f b rhs =
     (if m_bits_number b = m_bits_number rhs
      then Some (b\<lparr>m_blocks := fold (\<lambda>i blocks. blocks[i := f (blocks ! i) (m_blocks rhs ! i)]) [0 ..< length (m_blocks b)] (m_blocks b)\<rparr>)
      else None)"

definition and_assign :: "'a :: len word dynamic_bitset \<Rightarrow> 'a word dynamic_bitset \<Rightarrow> 'a word dynamic_bitset option" where
  "and_assign = combine (AND)"

definition or_assign :: "'a :: len word dynamic_bitset \<Rightarrow> 'a word dynamic_bitset \<Rightarrow> 'a word dynamic_bitset option" where
  "or_assign = combine (OR)"

definition xor_assign :: "'a :: len word dynamic_bitset \<Rightarrow> 'a word dynamic_bitset \<Rightarrow> 'a word dynamic_bitset option" where
  "xor_assign = combine (XOR)"

definition minus_assign :: "'a :: len word dynamic_bitset \<Rightarrow> 'a word dynamic_bitset \<Rightarrow> 'a word dynamic_bitset option" where
  "minus_assign = combine (\<lambda>x y. x AND NOT y)"

definition set_all :: "'a :: len word dynamic_bitset \<Rightarrow> 'a word dynamic_bitset" where
  "set_all b = sanitize (b\<lparr>m_blocks := map (\<lambda>_. one_block) (m_blocks b)\<rparr>)"

definition reset_all :: "'a :: len word dynamic_bitset \<Rightarrow> 'a word dynamic_bitset" where
  "reset_all b = b\<lparr>m_blocks := map (\<lambda>_. 0) (m_blocks b)\<rparr>"

definition flip_all :: "'a :: len word dynamic_bitset \<Rightarrow> 'a word dynamic_bitset" where
  "flip_all b = sanitize (b\<lparr>m_blocks := map NOT (m_blocks b)\<rparr>)"

definition fill_blocks :: "nat \<Rightarrow> nat \<Rightarrow> 'a :: len word list \<Rightarrow> 'a word list" where
  "fill_blocks lo hi blocks = fold (\<lambda>i blocks. blocks[i := 0]) [lo ..< hi] blocks"

definition apply_left_shift :: "nat \<Rightarrow> 'a :: len word list \<Rightarrow> 'a word list" where
  "apply_left_shift shift blocks =
     (let blocks_shift = shift div LENGTH('a);
          bits_offset = shift mod LENGTH('a);
          blocks =
            (if bits_offset = 0
             then fold (\<lambda>i blocks. blocks[i := blocks ! (i - blocks_shift)]) (rev [blocks_shift ..< length blocks]) blocks
             else
               (let reverse_bits_offset = LENGTH('a) - bits_offset;
                    blocks = fold (\<lambda>i blocks. blocks[i := push_bit bits_offset (blocks ! (i - blocks_shift))
                                                      OR drop_bit reverse_bits_offset (blocks ! (i - blocks_shift - 1))])
                               (rev [Suc blocks_shift ..< length blocks]) blocks
                in blocks[blocks_shift := push_bit bits_offset (blocks ! 0)]))
      in fill_blocks 0 blocks_shift blocks)"

definition apply_right_shift :: "nat \<Rightarrow> 'a :: len word list \<Rightarrow> 'a word list" where
  "apply_right_shift shift blocks =
     (let blocks_shift = shift div LENGTH('a);
          bits_offset = shift mod LENGTH('a);
          last_block_to_shift = length blocks - blocks_shift - 1;
          blocks =
            (if bits_offset = 0
             then fold (\<lambda>i blocks. blocks[i := blocks ! (i + blocks_shift)]) [0 ..< Suc last_block_to_shift] blocks
             else
               (let reverse_bits_offset = LENGTH('a) - bits_offset;
                    blocks = fold (\<lambda>i blocks. blocks[i := drop_bit bits_offset (blocks ! (i + blocks_shift))
                                                      OR push_bit reverse_bits_offset (blocks ! (i + blocks_shift + 1))])
                               [0 ..< last_block_to_shift] blocks
                in blocks[last_block_to_shift := drop_bit bits_offset (blocks ! (length blocks - 1))]))
      in fill_blocks (last_block_to_shift + 1) (length blocks) blocks)"

definition shift_left_assign :: "nat \<Rightarrow> 'a :: len word dynamic_bitset \<Rightarrow> 'a word dynamic_bitset" where
  "shift_left_assign shift b =
     (if shift \<noteq> 0
      then if shift \<ge> m_bits_number b then reset_all b
           else sanitize (b\<lparr>m_blocks := apply_left_shift shift (m_blocks b)\<rparr>)
      else b)"

definition shift_right_assign :: "nat \<Rightarrow> 'a :: len word dynamic_bitset \<Rightarrow> 'a word dynamic_bitset" where
  "shift_right_assign shift b =
     (if shift \<noteq> 0
      then if shift \<ge> m_bits_number b then reset_all b
           else b\<lparr>m_blocks := apply_right_shift shift (m_blocks b)\<rparr>
      else b)"

subsection \<open>Operations on one bit and on ranges of bits\<close>

text \<open>
  The end of a range is computed in \<^verbatim>\<open>size_t\<close>, where it may wrap, and so is the number of the block before the first
  one.  A range that ends before it starts can then pass both assertions.  \<open>None\<close> is a failed assertion, or a loop
  over blocks that runs past the last one.
\<close>

definition range_update :: "('a :: len word \<Rightarrow> nat \<Rightarrow> nat \<Rightarrow> 'a word) \<Rightarrow> ('a word \<Rightarrow> 'a word) \<Rightarrow> nat \<Rightarrow> nat \<Rightarrow> 'a word dynamic_bitset \<Rightarrow> 'a word dynamic_bitset option" where
  "range_update part whole pos len b =
     (if pos < m_bits_number b
      then if len = 0 then Some b
           else if (pos + len - 1) mod 2 ^ 64 < m_bits_number b
           then
             (let first_block = block_index LENGTH('a) pos;
                  final_block = block_index LENGTH('a) ((pos + len - 1) mod 2 ^ 64);
                  first_bit_index = bit_index LENGTH('a) pos;
                  final_bit_index = bit_index LENGTH('a) ((pos + len - 1) mod 2 ^ 64);
                  blocks = m_blocks b
              in if first_block = final_block
                 then Some (b\<lparr>m_blocks := blocks[first_block := part (blocks ! first_block) first_bit_index final_bit_index]\<rparr>)
                 else
                   (let (first_full_block, blocks) =
                          (if first_bit_index \<noteq> 0
                           then (first_block + 1, blocks[first_block := part (blocks ! first_block) first_bit_index (LENGTH('a) - 1)])
                           else (first_block, blocks));
                        (final_full_block, blocks) =
                          (if final_bit_index \<noteq> LENGTH('a) - 1
                           then ((final_block + (2 ^ 64 - 1)) mod 2 ^ 64, blocks[final_block := part (blocks ! final_block) 0 final_bit_index])
                           else (final_block, blocks))
                    in if first_full_block \<le> final_full_block \<and> length blocks \<le> final_full_block then None
                       else Some (b\<lparr>m_blocks := fold (\<lambda>i blocks. blocks[i := whole (blocks ! i)]) [first_full_block ..< Suc final_full_block] blocks\<rparr>)))
           else None
      else None)"

definition set_range :: "nat \<Rightarrow> nat \<Rightarrow> bool \<Rightarrow> 'a :: len word dynamic_bitset \<Rightarrow> 'a word dynamic_bitset option" where
  "set_range pos len value =
     range_update (\<lambda>block first final. set_block_bits block first final value) (\<lambda>_. if value then one_block else 0) pos len"

definition flip_range :: "nat \<Rightarrow> nat \<Rightarrow> 'a :: len word dynamic_bitset \<Rightarrow> 'a word dynamic_bitset option" where
  "flip_range pos len = range_update flip_block_bits NOT pos len"

definition flip_pos :: "nat \<Rightarrow> 'a :: len word dynamic_bitset \<Rightarrow> 'a word dynamic_bitset option" where
  "flip_pos pos b =
     (if pos < m_bits_number b
      then Some (b\<lparr>m_blocks := (m_blocks b)[block_index LENGTH('a) pos := m_blocks b ! block_index LENGTH('a) pos XOR bit_mask pos]\<rparr>)
      else None)"

definition test :: "nat \<Rightarrow> 'a :: len word dynamic_bitset \<Rightarrow> bool option" where
  "test pos b =
     (if pos < m_bits_number b
      then Some (m_blocks b ! block_index LENGTH('a) pos AND bit_mask pos \<noteq> 0)
      else None)"

definition test_set :: "nat \<Rightarrow> bool \<Rightarrow> 'a :: len word dynamic_bitset \<Rightarrow> (bool \<times> 'a word dynamic_bitset) option" where
  "test_set pos value b =
     (case test pos b of None \<Rightarrow> None
      | Some result \<Rightarrow>
          if result \<noteq> value then (case set_pos pos value b of None \<Rightarrow> None | Some b \<Rightarrow> Some (result, b))
          else Some (result, b))"

text \<open>
  A reference to a bit is the index of its block and the mask of the bit; what is assigned to it goes
  to the bit set it was made from.
\<close>

record 'b reference =
  m_block :: nat
  m_mask :: 'b

definition subscript :: "nat \<Rightarrow> 'a :: len word dynamic_bitset \<Rightarrow> 'a word reference option" where
  "subscript pos b =
     (if pos < m_bits_number b then Some \<lparr>m_block = block_index LENGTH('a) pos, m_mask = bit_mask pos\<rparr> else None)"

definition ref_block :: "'a :: len word reference \<Rightarrow> ('a word \<Rightarrow> 'a word) \<Rightarrow> 'a word dynamic_bitset \<Rightarrow> 'a word dynamic_bitset" where
  "ref_block r f b = b\<lparr>m_blocks := (m_blocks b)[m_block r := f (m_blocks b ! m_block r)]\<rparr>"

definition ref_set :: "'a :: len word reference \<Rightarrow> 'a word dynamic_bitset \<Rightarrow> 'a word dynamic_bitset" where
  "ref_set r = ref_block r (\<lambda>block. block OR m_mask r)"

definition ref_reset :: "'a :: len word reference \<Rightarrow> 'a word dynamic_bitset \<Rightarrow> 'a word dynamic_bitset" where
  "ref_reset r = ref_block r (\<lambda>block. block AND NOT (m_mask r))"

definition ref_flip :: "'a :: len word reference \<Rightarrow> 'a word dynamic_bitset \<Rightarrow> 'a word dynamic_bitset" where
  "ref_flip r = ref_block r (\<lambda>block. block XOR m_mask r)"

definition ref_assign :: "'a :: len word reference \<Rightarrow> bool \<Rightarrow> 'a word dynamic_bitset \<Rightarrow> 'a word dynamic_bitset" where
  "ref_assign r v b = (if v then ref_set r b else ref_reset r b)"

definition ref_and :: "'a :: len word reference \<Rightarrow> bool \<Rightarrow> 'a word dynamic_bitset \<Rightarrow> 'a word dynamic_bitset" where
  "ref_and r v b = (if \<not> v then ref_reset r b else b)"

definition ref_or :: "'a :: len word reference \<Rightarrow> bool \<Rightarrow> 'a word dynamic_bitset \<Rightarrow> 'a word dynamic_bitset" where
  "ref_or r v b = (if v then ref_set r b else b)"

definition ref_xor :: "'a :: len word reference \<Rightarrow> bool \<Rightarrow> 'a word dynamic_bitset \<Rightarrow> 'a word dynamic_bitset" where
  "ref_xor r v b = (if v then ref_flip r b else b)"

definition ref_minus :: "'a :: len word reference \<Rightarrow> bool \<Rightarrow> 'a word dynamic_bitset \<Rightarrow> 'a word dynamic_bitset" where
  "ref_minus r v b = (if v then ref_reset r b else b)"

definition ref_bool :: "'a :: len word reference \<Rightarrow> 'a word dynamic_bitset \<Rightarrow> bool" where
  "ref_bool r b \<longleftrightarrow> m_blocks b ! m_block r AND m_mask r \<noteq> 0"

definition ref_not :: "'a :: len word reference \<Rightarrow> 'a word dynamic_bitset \<Rightarrow> bool" where
  "ref_not r b \<longleftrightarrow> m_blocks b ! m_block r AND m_mask r = 0"

subsection \<open>Queries\<close>

definition all_bits :: "'a :: len word dynamic_bitset \<Rightarrow> bool" where
  "all_bits b =
     (if m_bits_number b = 0 then True
      else if extra_bits_number b = 0 then list_all (\<lambda>block. block = one_block) (m_blocks b)
      else list_all (\<lambda>block. block = one_block) (butlast (m_blocks b))
        \<and> last_block b = drop_bit (unused_bits_number b) one_block)"

definition any_bit :: "'a :: len word dynamic_bitset \<Rightarrow> bool" where
  "any_bit b = list_ex (\<lambda>block. block \<noteq> 0) (m_blocks b)"

text \<open>
  The compiler's functions for counting bits and trailing zeros, and the header's choice between them
  by the width of a block. A block of up to 128 bits is counted in two halves. Where only the low bits of a
  block count, the other bits are shifted out, except in a block wider than 64 bits.
\<close>

definition builtin_popcount :: "'b :: len word \<Rightarrow> nat" where
  "builtin_popcount x = length (filter (bit x) [0 ..< LENGTH('b)])"

definition builtin_ctz :: "'b :: len word \<Rightarrow> nat" where
  "builtin_ctz x = length (takeWhile (\<lambda>i. \<not> bit x i) [0 ..< LENGTH('b)])"

definition block_count :: "'a :: len word \<Rightarrow> nat" where
  "block_count block =
     (if block = 0 then 0
      else if LENGTH('a) \<le> 16 then builtin_popcount (ucast block :: 16 word)
      else if LENGTH('a) \<le> 32 then builtin_popcount (ucast block :: 32 word)
      else if LENGTH('a) \<le> 64 then builtin_popcount (ucast block :: 64 word)
      else if LENGTH('a) \<le> 128
      then builtin_popcount (ucast (drop_bit 64 block) :: 64 word) + builtin_popcount (ucast block :: 64 word)
      else length (filter (\<lambda>bit_index. block AND push_bit bit_index 1 \<noteq> 0) [0 ..< LENGTH('a)]))"

definition block_count_low :: "'a :: len word \<Rightarrow> nat \<Rightarrow> nat" where
  "block_count_low block nbits =
     (let shifted_block = push_bit (LENGTH('a) - nbits) block
      in if shifted_block = 0 then 0
         else if LENGTH('a) \<le> 16 then builtin_popcount (ucast shifted_block :: 16 word)
         else if LENGTH('a) \<le> 32 then builtin_popcount (ucast shifted_block :: 32 word)
         else if LENGTH('a) \<le> 64 then builtin_popcount (ucast shifted_block :: 64 word)
         else if LENGTH('a) \<le> 128
         then builtin_popcount (ucast (drop_bit 64 block) :: 64 word) + builtin_popcount (ucast block :: 64 word)
         else length (filter (\<lambda>bit_index. block AND push_bit bit_index 1 \<noteq> 0) [0 ..< nbits]))"

definition count_bits :: "'a :: len word dynamic_bitset \<Rightarrow> nat" where
  "count_bits b =
     (if m_bits_number b = 0 then 0
      else sum_list (map block_count (butlast (m_blocks b)))
        + (if extra_bits_number b = 0 then block_count (last_block b) else block_count_low (last_block b) (extra_bits_number b)))"

definition is_subset_of :: "'a :: len word dynamic_bitset \<Rightarrow> 'a word dynamic_bitset \<Rightarrow> bool option" where
  "is_subset_of b other =
     (if m_bits_number b = m_bits_number other
      then Some (list_all (\<lambda>i. m_blocks b ! i AND NOT (m_blocks other ! i) = 0) [0 ..< length (m_blocks b)])
      else None)"

definition is_proper_subset_of :: "'a :: len word dynamic_bitset \<Rightarrow> 'a word dynamic_bitset \<Rightarrow> bool option" where
  "is_proper_subset_of b other =
     (if m_bits_number b = m_bits_number other
      then Some (list_all (\<lambda>i. m_blocks b ! i AND NOT (m_blocks other ! i) = 0) [0 ..< length (m_blocks b)]
        \<and> list_ex (\<lambda>i. NOT (m_blocks b ! i) AND m_blocks other ! i \<noteq> 0) [0 ..< length (m_blocks b)])
      else None)"

definition intersects :: "'a :: len word dynamic_bitset \<Rightarrow> 'a word dynamic_bitset \<Rightarrow> bool" where
  "intersects b other =
     list_ex (\<lambda>i. m_blocks b ! i AND m_blocks other ! i \<noteq> 0) [0 ..< min (length (m_blocks b)) (length (m_blocks other))]"

definition count_block_trailing_zero :: "'a :: len word \<Rightarrow> nat" where
  "count_block_trailing_zero block =
     (if LENGTH('a) \<le> 16 then builtin_ctz (ucast block :: 16 word)
      else if LENGTH('a) \<le> 32 then builtin_ctz (ucast block :: 32 word)
      else if LENGTH('a) \<le> 64 then builtin_ctz (ucast block :: 64 word)
      else if LENGTH('a) \<le> 128
      then if (ucast block :: 64 word) = 0 then builtin_ctz (ucast (drop_bit 64 block) :: 64 word) + 64
           else builtin_ctz (ucast block :: 64 word)
      else length (takeWhile (\<lambda>i. block AND push_bit i 1 = 0) [0 ..< LENGTH('a)]))"

fun find_from :: "nat \<Rightarrow> 'a :: len word list \<Rightarrow> nat" where
  "find_from i [] = npos"
| "find_from i (block # blocks) =
     (if block \<noteq> 0 then i * LENGTH('a) + count_block_trailing_zero block else find_from (Suc i) blocks)"

definition find_first :: "'a :: len word dynamic_bitset \<Rightarrow> nat" where
  "find_first b = find_from 0 (m_blocks b)"

definition find_next :: "nat \<Rightarrow> 'a :: len word dynamic_bitset \<Rightarrow> nat" where
  "find_next prev b =
     (if m_bits_number b = 0 \<or> prev \<ge> m_bits_number b - 1 then npos
      else
        (let first_bit = prev + 1;
             first_block = block_index LENGTH('a) first_bit;
             first_block_shifted = drop_bit (bit_index LENGTH('a) first_bit) (m_blocks b ! first_block)
         in if first_block_shifted \<noteq> 0 then first_bit + count_block_trailing_zero first_block_shifted
            else find_from (first_block + 1) (drop (first_block + 1) (m_blocks b))))"

text \<open>
  The iteration over the set bits, with a function that also says whether to go on.  A loop that does not
  end has the value \<open>None\<close>.
\<close>

partial_function (option) iterate_from :: "(nat \<Rightarrow> 's \<Rightarrow> bool \<times> 's) \<Rightarrow> 'a :: len word dynamic_bitset \<Rightarrow> nat \<Rightarrow> 's \<Rightarrow> 's option" where
  "iterate_from f b i_bit s =
     (if i_bit = npos then Some s
      else if fst (f i_bit s) then iterate_from f b (find_next i_bit b) (snd (f i_bit s)) else Some (snd (f i_bit s)))"

definition iterate_bits_on :: "(nat \<Rightarrow> 's \<Rightarrow> bool \<times> 's) \<Rightarrow> 'a :: len word dynamic_bitset \<Rightarrow> 's \<Rightarrow> 's option" where
  "iterate_bits_on f b s = iterate_from f b (find_first b) s"

definition equal_bitset :: "'a :: len word dynamic_bitset \<Rightarrow> 'a word dynamic_bitset \<Rightarrow> bool" where
  "equal_bitset lhs rhs = (m_bits_number lhs = m_bits_number rhs \<and> m_blocks lhs = m_blocks rhs)"

fun less_from :: "nat \<Rightarrow> 'a :: len word list \<Rightarrow> 'a word list \<Rightarrow> bool \<Rightarrow> bool" where
  "less_from 0 l r d = (if l ! 0 \<noteq> r ! 0 then l ! 0 < r ! 0 else d)"
| "less_from (Suc i) l r d = (if l ! Suc i \<noteq> r ! Suc i then l ! Suc i < r ! Suc i else less_from i l r d)"

definition less_bitset :: "'a :: len word dynamic_bitset \<Rightarrow> 'a word dynamic_bitset \<Rightarrow> bool" where
  "less_bitset lhs rhs =
     (let lhs_size = m_bits_number lhs;
          rhs_size = m_bits_number rhs;
          lhs_blocks_size = length (m_blocks lhs);
          rhs_blocks_size = length (m_blocks rhs)
      in if lhs_size = rhs_size
         then if lhs_size = 0 then False else less_from (lhs_blocks_size - 1) (m_blocks lhs) (m_blocks rhs) False
         else if lhs_size = 0 then True
         else if rhs_size = 0 then False
         else
           (let rhs_longer = rhs_size > lhs_size;
                longest = (if rhs_longer then m_blocks rhs else m_blocks lhs);
                longest_blocks_size = max lhs_blocks_size rhs_blocks_size;
                shortest_blocks_size = min lhs_blocks_size rhs_blocks_size
            in if list_ex (\<lambda>i. longest ! i \<noteq> 0) (rev [shortest_blocks_size ..< longest_blocks_size]) then rhs_longer
               else less_from (shortest_blocks_size - 1) (m_blocks lhs) (m_blocks rhs) (lhs_size < rhs_size)))"

subsection \<open>Text\<close>

definition string_bit :: "nat \<Rightarrow> nat \<Rightarrow> 'a :: len word \<Rightarrow> char \<Rightarrow> nat \<Rightarrow> string \<times> 'a word \<Rightarrow> string \<times> 'a word" where
  "string_bit len i_block block one i_bit st =
     (case st of (str, msk) \<Rightarrow>
        (if block AND msk \<noteq> 0 then str[len - (i_block * LENGTH('a) + i_bit + 1) := one] else str, push_bit 1 msk))"

definition string_block :: "nat \<Rightarrow> char \<Rightarrow> 'a :: len word list \<Rightarrow> nat \<Rightarrow> string \<Rightarrow> string" where
  "string_block len one blocks i_block str =
     (if blocks ! i_block = 0 then str
      else
        (let limit = (if i_block * LENGTH('a) < len then len - i_block * LENGTH('a) else LENGTH('a))
         in fst (fold (string_bit len i_block (blocks ! i_block) one) [0 ..< limit] (str, 1))))"

definition bitset_string :: "char \<Rightarrow> char \<Rightarrow> 'a :: len word dynamic_bitset \<Rightarrow> string" where
  "bitset_string zero one b =
     fold (string_block (m_bits_number b) one (m_blocks b)) [0 ..< length (m_blocks b)] (replicate (m_bits_number b) zero)"

definition init_from_string :: "string \<Rightarrow> nat \<Rightarrow> nat \<Rightarrow> char \<Rightarrow> char \<Rightarrow> 'a :: len word dynamic_bitset option" where
  "init_from_string str pos n zero one =
     (if pos < length str
      then
        (let sz = min n (length str - pos);
             b = \<lparr>m_blocks = replicate (blocks_required LENGTH('a) sz) 0, m_bits_number = sz\<rparr>
         in fold (\<lambda>i r. case r of None \<Rightarrow> None
              | Some b \<Rightarrow>
                  (let c = str ! ((pos + sz - 1) - i)
                   in if c = zero \<or> c = one then if c = one then set_pos i True b else Some b else None)) [0 ..< sz] (Some b))
      else None)"

text \<open>
  Reading from a stream, given by the characters it still holds. The sentry skips white space and
  fails at the end of the input, which leaves the bit set alone; then digits are read up to another
  character, which is put back, or up to the end, where the last \<open>get\<close> fails; then their order is
  reversed. The result is the bit set, what the stream still holds and whether the stream failed.
\<close>

definition is_space :: "char \<Rightarrow> bool" where
  "is_space c \<longleftrightarrow> c \<in> {CHR '' '', CHR 0x09, CHR 0x0A, CHR 0x0B, CHR 0x0C, CHR 0x0D}"

fun read_digits_loop :: "string \<Rightarrow> 'a :: len word dynamic_bitset \<Rightarrow> 'a word dynamic_bitset \<times> string \<times> bool" where
  "read_digits_loop [] b = (b, [], True)"
| "read_digits_loop (val # is) b =
     (if val = CHR ''1'' then read_digits_loop is (push_back True b)
      else if val = CHR ''0'' then read_digits_loop is (push_back False b)
      else (b, val # is, False))"

definition read_bitset :: "string \<Rightarrow> 'a :: len word dynamic_bitset \<Rightarrow> 'a word dynamic_bitset \<times> string \<times> bool" where
  "read_bitset is bitset =
     (case dropWhile is_space is of
        [] \<Rightarrow> (bitset, [], True)
      | _ \<Rightarrow>
        (case read_digits_loop (dropWhile is_space is) (empty_bitset :: 'a word dynamic_bitset) of (reverse_bitset, st) \<Rightarrow>
           (fold (\<lambda>i b. push_back (the (test i reverse_bitset)) b) (rev [0 ..< m_bits_number reverse_bitset]) (clear_bits bitset), st)))"

subsection \<open>Blocks as sequences of bits\<close>

definition block_bit :: "'a :: len word list \<Rightarrow> nat \<Rightarrow> bool" where
  "block_bit xs i \<longleftrightarrow> i div LENGTH('a) < length xs \<and> bit (xs ! (i div LENGTH('a))) (i mod LENGTH('a))"

definition bits_of :: "'a :: len word dynamic_bitset \<Rightarrow> bool list" where
  "bits_of b = map (block_bit (m_blocks b)) [0 ..< m_bits_number b]"

text \<open>The relation between a bit set and the list it stands for.\<close>

definition bits_rep :: "'a :: len word dynamic_bitset \<Rightarrow> bool list \<Rightarrow> bool" where
  "bits_rep b xs \<longleftrightarrow> m_bits_number b = length xs \<and> length (m_blocks b) = blocks_required LENGTH('a) (length xs)
     \<and> (\<forall>i. block_bit (m_blocks b) i \<longleftrightarrow> i < length xs \<and> xs ! i)"

lemma div_less_iff: "0 < w \<Longrightarrow> i div w < n \<longleftrightarrow> i < n * (w :: nat)"
  by (simp add: div_less_iff_less_mult)

lemma blocks_required_bounds:
  assumes "0 < w"
  shows "n \<le> blocks_required w n * w" and "blocks_required w n * w < n + w"
proof -
  have d: "n = n div w * w + n mod w" "n mod w < w" using assms by simp_all
  have e: "blocks_required w n * w = n div w * w + (if n mod w = 0 then 0 else w)" by (simp add: blocks_required_def algebra_simps)
  show "n \<le> blocks_required w n * w" unfolding e by (cases "n mod w = 0"; simp only: if_True if_False; use d in linarith)
  show "blocks_required w n * w < n + w"
  proof (cases "n mod w = 0")
    case True
    then have "n div w * w = n" using d(1) by linarith
    then show ?thesis unfolding e using True assms by simp
  next
    case False
    then have "0 < n mod w" by simp
    then have "n div w * w < n" using d(1) by linarith
    then show ?thesis unfolding e using False by simp
  qed
qed

lemma blocks_required_unique:
  assumes "0 < w" and "n \<le> k * w" and "k * w < n + w"
  shows "blocks_required w n = k"
proof -
  note b = blocks_required_bounds [OF assms(1), of n]
  have "blocks_required w n * w < (k + 1) * w" "k * w < (blocks_required w n + 1) * w" using b assms by simp_all
  then show ?thesis using assms(1) by (simp only: mult_less_cancel2) linarith
qed

lemma block_bit_inside: "block_bit xs i \<Longrightarrow> i < length xs * LENGTH('a)" for xs :: "'a :: len word list"
  by (simp add: block_bit_def div_less_iff)

lemma block_bit_append:
  fixes xs :: "'a :: len word list"
  shows "block_bit (xs @ ys) i = (if i < length xs * LENGTH('a) then block_bit xs i else block_bit ys (i - length xs * LENGTH('a)))"
proof (cases "i < length xs * LENGTH('a)")
  case True
  then show ?thesis by (simp add: block_bit_def div_less_iff [symmetric] nth_append)
next
  case False
  then obtain k where i: "i = length xs * LENGTH('a) + k" by (metis add.commute le_Suc_ex not_less)
  show ?thesis by (simp add: i block_bit_def nth_append)
qed

lemma block_bit_update:
  fixes xs :: "'a :: len word list"
  assumes "p < length xs"
  shows "block_bit (xs[p := x]) i = (if i div LENGTH('a) = p then bit x (i mod LENGTH('a)) else block_bit xs i)"
  using assms by (auto simp: block_bit_def)

lemma block_bit_replicate: "block_bit (replicate n (x :: 'a :: len word)) i \<longleftrightarrow> i < n * LENGTH('a) \<and> bit x (i mod LENGTH('a))"
  by (auto simp: block_bit_def div_less_iff)

lemma block_bit_take: "block_bit (take n (xs :: 'a :: len word list)) i \<longleftrightarrow> i < n * LENGTH('a) \<and> block_bit xs i"
  by (auto simp: block_bit_def div_less_iff)

lemma block_bit_map: "block_bit (map (f :: 'a word \<Rightarrow> 'a word) (xs :: 'a :: len word list)) i \<longleftrightarrow> i < length xs * LENGTH('a) \<and> bit (f (xs ! (i div LENGTH('a)))) (i mod LENGTH('a))"
  by (auto simp: block_bit_def div_less_iff)

lemma block_bit_Nil [simp]: "\<not> block_bit [] i"
  by (simp add: block_bit_def)

lemma block_bit_single: "block_bit [x] i = bit x i"
  using bit_imp_le_length [of x i] by (auto simp: block_bit_def div_eq_0_iff)

lemma block_bit_at:
  fixes xs :: "'a :: len word list"
  assumes "k < length xs" and "j < LENGTH('a)"
  shows "block_bit xs (k * LENGTH('a) + j) = bit (xs ! k) j"
  using assms by (simp add: block_bit_def)

lemma blocks_ext:
  fixes xs ys :: "'a :: len word list"
  assumes "length xs = length ys" and "\<And>i. i < length xs * LENGTH('a) \<Longrightarrow> block_bit xs i = block_bit ys i"
  shows "xs = ys"
proof (rule nth_equalityI [OF assms(1)])
  fix k assume k: "k < length xs"
  show "xs ! k = ys ! k"
  proof (rule bit_word_eqI)
    fix j assume j: "j < LENGTH('a)"
    have "k * LENGTH('a) + j < (k + 1) * LENGTH('a)" using j by simp
    also have "\<dots> \<le> length xs * LENGTH('a)" using k by (intro mult_right_mono) simp_all
    finally have "block_bit xs (k * LENGTH('a) + j) = block_bit ys (k * LENGTH('a) + j)" by (rule assms(2))
    then show "bit (xs ! k) j = bit (ys ! k) j" using block_bit_at [OF k j] block_bit_at [of k ys j] k j assms(1) by simp
  qed
qed

lemma bit_one_block [simp]: "bit (one_block :: 'a :: len word) i \<longleftrightarrow> i < LENGTH('a)"
  by (simp add: one_block_def bit_simps)

subsection \<open>The invariant\<close>

lemma last_index:
  fixes n w :: nat
  assumes "0 < w" and "n mod w > 0"
  shows "blocks_required w n - 1 = n div w" and "0 < blocks_required w n"
  using assms by (simp_all add: blocks_required_def)

lemma last_block_bits:
  fixes b :: "'a :: len word dynamic_bitset"
  assumes "length (m_blocks b) = blocks_required LENGTH('a) (m_bits_number b)" and "m_bits_number b mod LENGTH('a) > 0"
  shows "last_block b = m_blocks b ! (m_bits_number b div LENGTH('a))" and "m_bits_number b div LENGTH('a) < length (m_blocks b)"
    and "length (m_blocks b) - 1 = m_bits_number b div LENGTH('a)"
  using last_index [of "LENGTH('a)", OF _ assms(2)] assms(1) by (simp_all add: last_block_def)

lemma past_end_iff:
  fixes b :: "'a :: len word dynamic_bitset"
  assumes "length (m_blocks b) = blocks_required LENGTH('a) (m_bits_number b)" and "i < length (m_blocks b) * LENGTH('a)"
  shows "m_bits_number b \<le> i \<longleftrightarrow> m_bits_number b mod LENGTH('a) > 0 \<and> i div LENGTH('a) = m_bits_number b div LENGTH('a) \<and> m_bits_number b mod LENGTH('a) \<le> i mod LENGTH('a)"
proof -
  let ?w = "LENGTH('a)" and ?n = "m_bits_number b"
  have i: "i div ?w < blocks_required ?w ?n" using assms by (simp add: div_less_iff)
  have d: "i = i div ?w * ?w + i mod ?w" "?n = ?n div ?w * ?w + ?n mod ?w" "i mod ?w < ?w" "?n mod ?w < ?w" by simp_all
  show ?thesis
  proof (cases "?n mod ?w = 0")
    case True
    then have "i div ?w < ?n div ?w" using i by (simp add: blocks_required_def)
    then have "(i div ?w + 1) * ?w \<le> ?n div ?w * ?w" by (intro mult_right_mono) simp_all
    then have "i div ?w * ?w + ?w \<le> ?n div ?w * ?w" by (simp only: distrib_right mult_1)
    then have "i < ?n" using d by linarith
    then show ?thesis using True by simp
  next
    case False
    then have le: "i div ?w \<le> ?n div ?w" using i by (simp add: blocks_required_def)
    show ?thesis
    proof (cases "i div ?w = ?n div ?w")
      case True
      then show ?thesis using d False by (metis add_le_cancel_left neq0_conv)
    next
      case neq: False
      then have "(i div ?w + 1) * ?w \<le> ?n div ?w * ?w" using le by (intro mult_right_mono) simp_all
      then have "i div ?w * ?w + ?w \<le> ?n div ?w * ?w" by (simp only: distrib_right mult_1)
      then have "i < ?n" using d by linarith
      then show ?thesis using neq by simp
    qed
  qed
qed

lemma unused_bits_iff:
  fixes b :: "'a :: len word dynamic_bitset"
  assumes "check_size b"
  shows "check_unused_bits b \<longleftrightarrow> (\<forall>i \<ge> m_bits_number b. \<not> block_bit (m_blocks b) i)"
proof -
  let ?w = "LENGTH('a)" and ?n = "m_bits_number b"
  have len: "length (m_blocks b) = blocks_required ?w ?n" using assms by (simp add: check_size_def)
  show ?thesis
  proof (cases "?n mod ?w > 0")
    case False
    then have "\<not> block_bit (m_blocks b) i" if "?n \<le> i" for i
      using that block_bit_inside [of "m_blocks b" i] past_end_iff [OF len, of i] by auto
    then show ?thesis using False by (simp add: check_unused_bits_def extra_bits_number_def bit_index_def)
  next
    case True
    note L = last_block_bits [OF len True]
    have "check_unused_bits b \<longleftrightarrow> (\<forall>j < ?w. ?n mod ?w \<le> j \<longrightarrow> \<not> bit (last_block b) j)"
      using True by (auto simp: check_unused_bits_def extra_bits_number_def bit_index_def Let_def bit_eq_iff bit_simps)
    also have "\<dots> \<longleftrightarrow> (\<forall>i \<ge> ?n. \<not> block_bit (m_blocks b) i)"
    proof (intro iffI allI impI)
      fix i assume a: "\<forall>j < ?w. ?n mod ?w \<le> j \<longrightarrow> \<not> bit (last_block b) j" and "?n \<le> i"
      show "\<not> block_bit (m_blocks b) i"
      proof
        assume bb: "block_bit (m_blocks b) i"
        have "i div ?w = ?n div ?w" "?n mod ?w \<le> i mod ?w" using past_end_iff [OF len block_bit_inside [OF bb]] \<open>?n \<le> i\<close> by simp_all
        with a bb L(1) show False by (simp add: block_bit_def)
      qed
    next
      fix j assume a: "\<forall>i \<ge> ?n. \<not> block_bit (m_blocks b) i" and j: "j < ?w" "?n mod ?w \<le> j"
      have "?n \<le> ?n div ?w * ?w + j" using j(2) by (metis add_le_cancel_left div_mult_mod_eq)
      then show "\<not> bit (last_block b) j" using a block_bit_at [OF L(2) j(1)] L(1) by simp
    qed
    finally show ?thesis .
  qed
qed

lemma bits_rep_iff: "bits_rep b xs \<longleftrightarrow> check_consistency b \<and> bits_of b = xs"
proof
  assume r: "bits_rep b xs"
  then have "check_size b" by (simp add: bits_rep_def check_size_def)
  moreover from this r have "check_unused_bits b" by (simp add: unused_bits_iff bits_rep_def)
  moreover have "bits_of b = xs" using r by (intro nth_equalityI) (simp_all add: bits_of_def bits_rep_def)
  ultimately show "check_consistency b \<and> bits_of b = xs" by (simp add: check_consistency_def)
next
  assume c: "check_consistency b \<and> bits_of b = xs"
  then have s: "check_size b" and u: "\<forall>i \<ge> m_bits_number b. \<not> block_bit (m_blocks b) i"
    by (auto simp: check_consistency_def unused_bits_iff)
  have "length xs = m_bits_number b" "\<forall>i < length xs. xs ! i = block_bit (m_blocks b) i" using c by (auto simp: bits_of_def)
  with s u show "bits_rep b xs" unfolding bits_rep_def check_size_def by (metis not_le)
qed

lemma sanitize_bits:
  fixes b :: "'a :: len word dynamic_bitset"
  assumes "check_size b"
  shows "block_bit (m_blocks (sanitize b)) i \<longleftrightarrow> i < m_bits_number b \<and> block_bit (m_blocks b) i"
    and "length (m_blocks (sanitize b)) = length (m_blocks b)" and "m_bits_number (sanitize b) = m_bits_number b"
proof -
  let ?w = "LENGTH('a)" and ?n = "m_bits_number b"
  have len: "length (m_blocks b) = blocks_required ?w ?n" using assms by (simp add: check_size_def)
  show "length (m_blocks (sanitize b)) = length (m_blocks b)" "m_bits_number (sanitize b) = ?n"
    by (simp_all add: sanitize_def Let_def set_last_block_def)
  show "block_bit (m_blocks (sanitize b)) i \<longleftrightarrow> i < ?n \<and> block_bit (m_blocks b) i"
  proof (cases "?n mod ?w > 0")
    case False
    then show ?thesis using past_end_iff [OF len, of i] block_bit_inside [of "m_blocks b" i] by (auto simp: sanitize_def)
  next
    case True
    note L = last_block_bits [OF len True]
    have "m_blocks (sanitize b) = (m_blocks b)[?n div ?w := m_blocks b ! (?n div ?w) AND NOT (push_bit (?n mod ?w) one_block)]"
      using True unfolding sanitize_def Let_def set_last_block_def L(1,3) by simp
    moreover have "i mod ?w - ?n mod ?w < ?w" using mod_less_divisor [of ?w i] by (rule le_less_trans [rotated]) simp_all
    ultimately have "block_bit (m_blocks (sanitize b)) i \<longleftrightarrow> block_bit (m_blocks b) i \<and> \<not> (i div ?w = ?n div ?w \<and> ?n mod ?w \<le> i mod ?w)"
      using L(2) by (auto simp: block_bit_update bit_simps) (simp_all add: block_bit_def)
    then show ?thesis using past_end_iff [OF len, of i] block_bit_inside [of "m_blocks b" i] True by auto
  qed
qed

lemma bits_rep_sanitize:
  fixes b :: "'a :: len word dynamic_bitset"
  assumes "m_bits_number b = length xs" and "length (m_blocks b) = blocks_required LENGTH('a) (length xs)"
    and "\<And>i. i < length xs \<Longrightarrow> block_bit (m_blocks b) i = xs ! i"
  shows "bits_rep (sanitize b) xs"
proof -
  have "check_size b" using assms(1,2) by (simp add: check_size_def)
  then show ?thesis using sanitize_bits [of b] assms by (auto simp: bits_rep_def)
qed

text \<open>Two consistent bit sets with the same bits are equal, so comparing blocks compares bits.\<close>

lemma bits_rep_unique:
  assumes "bits_rep b xs" and "bits_rep c xs"
  shows "m_blocks b = m_blocks c"
  using assms by (intro blocks_ext) (simp_all add: bits_rep_def)

lemma equal_bitset_iff:
  assumes "bits_rep b xs" and "bits_rep c ys"
  shows "equal_bitset b c \<longleftrightarrow> xs = ys"
proof
  assume e: "equal_bitset b c"
  then have l: "length xs = length ys" using assms by (simp add: equal_bitset_def bits_rep_def)
  have "xs ! i = block_bit (m_blocks b) i" "ys ! i = block_bit (m_blocks c) i" if "i < length xs" for i
    using that assms l by (simp_all add: bits_rep_def)
  with l e show "xs = ys" by (intro nth_equalityI) (simp_all add: equal_bitset_def)
next
  assume "xs = ys"
  then have "m_blocks b = m_blocks c" using assms by (intro bits_rep_unique) simp_all
  moreover have "m_bits_number b = m_bits_number c" using assms \<open>xs = ys\<close> unfolding bits_rep_def by (elim conjE) simp
  ultimately show "equal_bitset b c" by (simp add: equal_bitset_def)
qed


subsection \<open>Construction and size refine lists\<close>

lemma blocks_required_len:
  "n \<le> blocks_required LENGTH('a :: len) n * LENGTH('a)" "blocks_required LENGTH('a) n * LENGTH('a) < n + LENGTH('a)"
  by (rule blocks_required_bounds, simp)+

lemma blocks_required_mono: "n \<le> m \<Longrightarrow> blocks_required LENGTH('a :: len) n \<le> blocks_required LENGTH('a) m"
proof (rule ccontr)
  assume "n \<le> m" and "\<not> ?thesis"
  then have "(blocks_required LENGTH('a) m + 1) * LENGTH('a) \<le> blocks_required LENGTH('a) n * LENGTH('a)" by (intro mult_right_mono) simp_all
  then show False unfolding distrib_right using \<open>n \<le> m\<close> blocks_required_len(1) [where n = m and 'a = 'a] blocks_required_len(2) [where n = n and 'a = 'a]
    by linarith
qed

lemma empty_rep [intro, simp]: "bits_rep empty_bitset []" "bits_rep (clear_bits b) []"
  by (simp_all add: bits_rep_def empty_bitset_def clear_bits_def blocks_required_def)

lemma bits_repD:
  fixes b :: "'a :: len word dynamic_bitset"
  assumes "bits_rep b xs"
  shows "m_bits_number b = length xs" and "length (m_blocks b) = blocks_required LENGTH('a) (length xs)"
    and "\<And>i. block_bit (m_blocks b) i \<longleftrightarrow> i < length xs \<and> xs ! i"
    and "\<And>i. i < length xs \<Longrightarrow> i div LENGTH('a) < length (m_blocks b)" and "check_size b"
proof -
  show r: "m_bits_number b = length xs" "length (m_blocks b) = blocks_required LENGTH('a) (length xs)"
    "\<And>i. block_bit (m_blocks b) i \<longleftrightarrow> i < length xs \<and> xs ! i" using assms by (simp_all add: bits_rep_def)
  show "i div LENGTH('a) < length (m_blocks b)" if "i < length xs" for i
    using that blocks_required_len(1) [where n = "length xs" and 'a = 'a] by (simp add: r(2) div_less_iff)
  show "check_size b" using r by (simp add: check_size_def)
qed

lemma set_pos_rep:
  fixes b :: "'a :: len word dynamic_bitset"
  assumes "bits_rep b xs"
  shows "if pos < length xs then \<exists>b'. set_pos pos v b = Some b' \<and> bits_rep b' (xs[pos := v]) else set_pos pos v b = None"
proof (cases "pos < length xs")
  case False
  then show ?thesis using bits_repD(1) [OF assms] by (simp add: set_pos_def)
next
  case True
  note R = bits_repD [OF assms]
  let ?w = "LENGTH('a)"
  define blk where "blk = (if v then m_blocks b ! (pos div ?w) OR bit_mask pos else m_blocks b ! (pos div ?w) AND NOT (bit_mask pos))"
  have k: "bit blk j = (if j = pos mod ?w then v else bit (m_blocks b ! (pos div ?w)) j)" if "j < ?w" for j
    using that by (cases v) (auto simp: blk_def bit_mask_def bit_index_def bit_simps)
  have "block_bit ((m_blocks b)[pos div ?w := blk]) i = (i < length xs \<and> xs[pos := v] ! i)" for i
  proof (cases "i div ?w = pos div ?w")
    case False
    then have "i \<noteq> pos" by auto
    then show ?thesis using False R(3) [of i] R(4) [OF True] by (simp add: block_bit_update nth_list_update)
  next
    case same: True
    have e: "i = pos \<longleftrightarrow> i mod ?w = pos mod ?w" using same by (metis div_mult_mod_eq)
    have "bit (m_blocks b ! (pos div ?w)) (i mod ?w) = (i < length xs \<and> xs ! i)"
      using R(3) [of i] R(4) [OF True] same by (simp add: block_bit_def)
    then show ?thesis using same R(4) [OF True] k [of "i mod ?w"] e True by (cases "i = pos") (simp_all add: block_bit_update nth_list_update)
  qed
  then have "bits_rep (b\<lparr>m_blocks := (m_blocks b)[pos div ?w := blk]\<rparr>) (xs[pos := v])" using R(1,2) by (simp add: bits_rep_def)
  then show ?thesis using True R(1) by (cases v) (simp_all add: set_pos_def block_index_def blk_def)
qed

lemma push_back_rep:
  fixes b :: "'a :: len word dynamic_bitset"
  assumes "bits_rep b xs"
  shows "bits_rep (push_back v b) (xs @ [v])"
proof -
  note R = bits_repD [OF assms]
  let ?w = "LENGTH('a)"
  note B = blocks_required_len [where n = "length xs" and 'a = 'a]
  show ?thesis
  proof (cases "length xs < length (m_blocks b) * ?w")
    case True
    let ?b = "b\<lparr>m_bits_number := m_bits_number b + 1\<rparr>"
    have "blocks_required ?w (Suc (length xs)) = length (m_blocks b)"
      by (rule blocks_required_unique) (use True B(2) R(2) in simp_all)
    then have b: "bits_rep ?b (xs @ [False])" using R(1,3) by (auto simp: bits_rep_def nth_append less_Suc_eq)
    have "bits_rep (the (set_pos (length xs) v ?b)) (xs @ [v])" using set_pos_rep [OF b, of "length xs" v] by auto
    then show ?thesis using True b R(1) by (cases v) (simp_all add: push_back_def Suc_le_eq)
  next
    case False
    then have e: "length (m_blocks b) * ?w = length xs" using B(1) R(2) by simp
    have "(Suc (length (m_blocks b))) * ?w = length xs + ?w" using e by simp
    then have "blocks_required ?w (Suc (length xs)) = Suc (length (m_blocks b))"
      by (intro blocks_required_unique) (simp_all add: Suc_le_eq)
    moreover have "block_bit (m_blocks b @ [of_bool v]) i = (i < Suc (length xs) \<and> (xs @ [v]) ! i)" for i
    proof (cases "i < length xs")
      case True
      then show ?thesis using R(3) [of i] e by (simp add: block_bit_append nth_append)
    next
      case ge: False
      then have "block_bit (m_blocks b @ [of_bool v]) i \<longleftrightarrow> v \<and> (i - length xs) div ?w = 0 \<and> (i - length xs) mod ?w = 0"
        using e by (simp add: block_bit_append) (auto simp: block_bit_def bit_1_iff)
      also have "\<dots> \<longleftrightarrow> v \<and> i = length xs"
      proof -
        have "(k div ?w = 0 \<and> k mod ?w = 0) = (k = 0)" for k :: nat by (metis add.right_neutral div_mult_mod_eq div_0 mod_0 mult_0)
        then show ?thesis using ge by auto
      qed
      finally show ?thesis using ge by (auto simp: nth_append)
    qed
    ultimately show ?thesis using False R(1) e by (simp add: push_back_def bits_rep_def)
  qed
qed

lemma pop_back_rep:
  fixes b :: "'a :: len word dynamic_bitset"
  assumes "bits_rep b xs"
  shows "bits_rep (pop_back b) (butlast xs)"
proof (cases "xs = []")
  case True
  then show ?thesis using assms bits_repD(1) [OF assms] by (simp add: pop_back_def)
next
  case False
  note R = bits_repD [OF assms]
  let ?w = "LENGTH('a)" and ?n = "length xs - 1" and ?b = "b\<lparr>m_bits_number := m_bits_number b - 1\<rparr>"
  note B = blocks_required_len [where n = "length xs" and 'a = 'a] and C = blocks_required_len [where n = ?n and 'a = 'a]
  have n: "length xs = Suc ?n" "length (butlast xs) = ?n" using False by simp_all
  have nth: "butlast xs ! i = xs ! i" if "i < ?n" for i using that by (simp add: nth_butlast)
  show ?thesis
  proof (cases "length (m_blocks b) > blocks_required ?w ?n")
    case True
    have lb: "length (m_blocks b) - 1 = blocks_required ?w ?n"
    proof -
      have "length (m_blocks b) * ?w < (blocks_required ?w ?n + 2) * ?w" 
        unfolding R(2) distrib_right using B(2) C(1) n(1) len_gt_0 [where 'a = 'a] by linarith
      then show ?thesis using True by (simp only: mult_less_cancel2) linarith
    qed
    have e: "(length (m_blocks b) - 1) * ?w = ?n"
    proof -
      have "length xs > (length (m_blocks b) - 1) * ?w" using B(2) unfolding R(2) [symmetric]
        using True by (cases "length (m_blocks b)") simp_all
      then show ?thesis using C(1) lb n(1) by simp
    qed
    have "block_bit (butlast (m_blocks b)) i = (i < ?n \<and> butlast xs ! i)" for i
      unfolding butlast_conv_take block_bit_take e using R(3) [of i] nth [of i] n(1) by auto
    then show ?thesis using True False R(1) lb n by (simp add: pop_back_def bits_rep_def)
  next
    case False
    have "blocks_required ?w ?n \<le> length (m_blocks b)" using B(1) C(2) R(2) n(1)
    proof -
      have "blocks_required ?w ?n * ?w < (length (m_blocks b) + 1) * ?w" 
        unfolding R(2) distrib_right using B(1) C(2) n(1) len_gt_0 [where 'a = 'a] by linarith
      then show ?thesis by (simp only: mult_less_cancel2) linarith
    qed
    then have l: "length (m_blocks b) = blocks_required ?w ?n" using False by simp
    have "bits_rep (sanitize ?b) (butlast xs)"
      by (rule bits_rep_sanitize) (use R(1) l n nth R(3) in simp_all)
    then show ?thesis using False \<open>xs \<noteq> []\<close> R(1) by (simp add: pop_back_def)
  qed
qed


lemma extra_bits_rep: "bits_rep b xs \<Longrightarrow> extra_bits_number b = length xs mod LENGTH('a)" for b :: "'a :: len word dynamic_bitset"
  by (simp add: extra_bits_number_def bit_index_def bits_repD(1))

lemma resize_blocks:
  fixes b :: "'a :: len word dynamic_bitset"
  assumes "bits_rep b xs" and "i < nbits"
  defines "k \<equiv> blocks_required LENGTH('a) nbits"
  shows "block_bit (take k (m_blocks b) @ replicate (k - length (m_blocks b)) (if v then one_block else 0)) i =
    (if i < length xs then xs ! i else v \<and> length (m_blocks b) * LENGTH('a) \<le> i)"
proof -
  note R = bits_repD [OF assms(1)]
  let ?w = "LENGTH('a)" and ?l = "length (m_blocks b)"
  have ik: "i < k * ?w" using assms(2) blocks_required_len(1) [where n = nbits and 'a = 'a] by (simp add: k_def)
  have B: "length xs \<le> length (m_blocks b) * ?w" using blocks_required_len(1) [where n = "length xs" and 'a = 'a] R(2) by simp
  have m: "length (take k (m_blocks b)) * ?w = min (k * ?w) (length (m_blocks b) * ?w)" by (simp add: min_def)
  show ?thesis
  proof (cases "i < length (m_blocks b) * ?w")
    case True
    then have "i < length (take k (m_blocks b)) * ?w" using ik m by simp
    then show ?thesis using True ik R(3) [of i] by (simp only: block_bit_append if_True block_bit_take) auto
  next
    case False
    then have "length (m_blocks b) < k" using ik by (metis less_trans_Suc mult_less_cancel2 not_less_eq not_le linorder_neqE_nat order.strict_trans)
    moreover have "i - ?l * ?w < k * ?w - ?l * ?w" using False ik by (intro diff_less_mono) simp_all
    ultimately show ?thesis using False ik B by (simp add: block_bit_append block_bit_replicate diff_mult_distrib)
  qed
qed

lemma resize_rep:
  fixes b :: "'a :: len word dynamic_bitset"
  assumes "bits_rep b xs"
  shows "bits_rep (resize nbits v b) (take nbits xs @ replicate (nbits - length xs) v)"
proof (cases "nbits = length xs")
  case True
  then show ?thesis using assms bits_repD(1) [OF assms] by (simp add: resize_def)
next
  case False
  note R = bits_repD [OF assms]
  let ?w = "LENGTH('a)" and ?l = "length (m_blocks b)" and ?k = "blocks_required LENGTH('a) nbits" and ?i = "if v then one_block else 0 :: 'a word"
  let ?ys = "take nbits xs @ replicate (nbits - length xs) v"
  define blocks where "blocks = take ?k (m_blocks b) @ replicate (?k - ?l) ?i"
  define blocks' where "blocks' = (if v \<and> nbits > length xs \<and> ?l > 0 \<and> length xs mod ?w > 0
    then blocks[?l - 1 := blocks ! (?l - 1) OR push_bit (length xs mod ?w) ?i] else blocks)"
  have res: "resize nbits v b = sanitize (b\<lparr>m_blocks := blocks', m_bits_number := nbits\<rparr>)"
    using False R(1) extra_bits_rep [OF assms] by (auto simp: resize_def Let_def blocks'_def blocks_def)
  have len: "length blocks' = length blocks" "length blocks = ?k" by (simp_all add: blocks'_def blocks_def min_def)
  have ly: "length ?ys = nbits" by (simp add: min_def)
  have ys: "?ys ! i = (if i < length xs then xs ! i else v)" if "i < nbits" for i using that by (auto simp: nth_append)
  have bb: "block_bit blocks i = (if i < length xs then xs ! i else v \<and> ?l * ?w \<le> i)" if "i < nbits" for i
    unfolding blocks_def by (rule resize_blocks [OF assms that])
  have "block_bit blocks' i = ?ys ! i" if i: "i < nbits" for i
  proof (cases "v \<and> nbits > length xs \<and> ?l > 0 \<and> length xs mod ?w > 0")
    case True
    then have v: v and m: "length xs mod ?w > 0" and n: "length xs < nbits" by simp_all
    note L = last_index [OF len_gt_0 m]
    have l1: "?l - 1 = length xs div ?w" "?l = Suc (length xs div ?w)" using L R(2) by simp_all
    have "?k \<ge> ?l"
    proof -
      have "?l * ?w < (?k + 1) * ?w"
        unfolding R(2) distrib_right using blocks_required_len(2) [where n = "length xs" and 'a = 'a] blocks_required_len(1) [where n = nbits and 'a = 'a] n by linarith
      then show ?thesis by (simp only: mult_less_cancel2) linarith
    qed
    then have lk: "length xs div ?w < length blocks" using l1 len by simp
    have b': "blocks' = blocks[length xs div ?w := blocks ! (length xs div ?w) OR push_bit (length xs mod ?w) ?i]"
      using True unfolding blocks'_def l1(1) by simp
    show ?thesis
    proof (cases "i div ?w = length xs div ?w")
      case False
      have "\<not> i < length xs \<Longrightarrow> ?l * ?w \<le> i"
      proof -
        assume "\<not> i < length xs"
        then have "length xs div ?w \<le> i div ?w" by (intro div_le_mono) simp
        then have "?l \<le> i div ?w" using False l1(2) by simp
        then have "?l * ?w \<le> i div ?w * ?w" by (rule mult_right_mono) simp
        then show ?thesis using div_times_less_eq_dividend [of i ?w] by linarith
      qed
      then show ?thesis using False bb [OF i] ys [OF i] v lk by (auto simp: b' block_bit_update)
    next
      case same: True
      have d: "i = length xs div ?w * ?w + i mod ?w" "length xs = length xs div ?w * ?w + length xs mod ?w" using same by (metis div_mult_mod_eq)+
      have c: "i < length xs \<longleftrightarrow> i mod ?w < length xs mod ?w" using d by linarith
      have u: "i mod ?w - length xs mod ?w < ?w" using mod_less_divisor [of ?w i] by (rule le_less_trans [rotated]) simp_all
      have "bit (blocks ! (length xs div ?w)) (i mod ?w) = block_bit blocks i" using same lk by (simp add: block_bit_def)
      then show ?thesis using same lk v c u bb [OF i] ys [OF i] by (auto simp: b' block_bit_update bit_simps)
    qed
  next
    case False
    have "v \<Longrightarrow> \<not> i < length xs \<Longrightarrow> ?l * ?w \<le> i"
    proof -
      assume a: v "\<not> i < length xs"
      then have "?l = 0 \<or> length xs mod ?w = 0" using False i by auto
      then have "?l * ?w \<le> length xs"
        using R(2) by (auto simp: blocks_required_def)
      then show ?thesis using a(2) by simp
    qed
    then show ?thesis using False bb [OF i] ys [OF i] by (auto simp: blocks'_def)
  qed
  then show ?thesis unfolding res using len by (intro bits_rep_sanitize) (simp_all only: ly, simp_all)
qed


subsection \<open>Appending\<close>

definition block_bools :: "'a :: len word \<Rightarrow> bool list" where
  "block_bools x = map (bit x) [0 ..< LENGTH('a)]"

lemma block_bools_simps [simp]: "length (block_bools (x :: 'a :: len word)) = LENGTH('a)" "i < LENGTH('a) \<Longrightarrow> block_bools x ! i = bit x i"
  by (simp_all add: block_bools_def)

lemma append_block_rep:
  fixes b :: "'a :: len word dynamic_bitset"
  assumes "bits_rep b xs"
  shows "bits_rep (append_block x b) (xs @ block_bools x)"
proof -
  note R = bits_repD [OF assms]
  let ?w = "LENGTH('a)" and ?n = "length xs" and ?l = "length (m_blocks b)"
  have req: "blocks_required ?w (?n + ?w) = Suc ?l" by (simp add: R(2) blocks_required_def div_add_self2)
  have size: "m_bits_number (append_block x b) = ?n + ?w" by (simp add: append_block_def Let_def R(1) set_last_block_def)
  have x: "bit x k \<Longrightarrow> k < ?w" for k by (rule bit_imp_le_length)
  have nth: "(xs @ block_bools x) ! i = (if i < ?n then xs ! i else bit x (i - ?n))" if "i < ?n + ?w" for i
    using that by (simp add: nth_append)
  have "length (m_blocks (append_block x b)) = Suc ?l \<and> (\<forall>i. block_bit (m_blocks (append_block x b)) i = (if i < ?n then xs ! i else bit x (i - ?n)))"
  proof (cases "?n mod ?w = 0")
    case True
    then have l: "?l * ?w = ?n" by (simp add: R(2) blocks_required_def mod_eq_0_iff_dvd)
    have "m_blocks (append_block x b) = m_blocks b @ [x]" using True by (simp add: append_block_def Let_def extra_bits_rep [OF assms])
    then show ?thesis using R(3) l by (simp add: block_bit_append block_bit_single)
  next
    case False
    then have m: "?n mod ?w > 0" by simp
    note L = last_index [OF len_gt_0 m]
    have l1: "?l - 1 = ?n div ?w" "?l = Suc (?n div ?w)" using L R(2) by simp_all
    let ?B = "(m_blocks b)[?n div ?w := m_blocks b ! (?n div ?w) OR push_bit (?n mod ?w) x]"
    have blk: "m_blocks (append_block x b) = ?B @ [drop_bit (?w - ?n mod ?w) x]"
      using False unfolding append_block_def Let_def set_last_block_def last_block_def l1(1) by (simp add: extra_bits_rep [OF assms])
    have "block_bit (?B @ [drop_bit (?w - ?n mod ?w) x]) i = (if i < ?n then xs ! i else bit x (i - ?n))" for i
    proof -
      have d: "?n = ?n div ?w * ?w + ?n mod ?w" "i = i div ?w * ?w + i mod ?w" "i mod ?w < ?w" "?n mod ?w < ?w" by simp_all
      have lw: "?l * ?w = ?n div ?w * ?w + ?w" using l1(2) by simp
      consider "i < ?l * ?w" "i div ?w \<noteq> ?n div ?w" | "i < ?l * ?w" "i div ?w = ?n div ?w" | "\<not> i < ?l * ?w" by blast
      then show ?thesis
      proof cases
        case 1
        have "i div ?w < ?l" using 1(1) by (simp only: div_less_iff [OF len_gt_0])
        then have "i div ?w < ?n div ?w" using 1(2) l1(2) by simp
        then have "(i div ?w + 1) * ?w \<le> ?n div ?w * ?w" by (intro mult_right_mono) simp_all
        then have "i div ?w * ?w + ?w \<le> ?n div ?w * ?w" by (simp only: distrib_right mult_1)
        then have "i < ?n" using d by linarith
        then show ?thesis using 1 l1(2) R(3) [of i] by (simp add: block_bit_append block_bit_update)
      next
        case 2
        have e: "i < ?n \<longleftrightarrow> i mod ?w < ?n mod ?w" "?n mod ?w \<le> i mod ?w \<Longrightarrow> i mod ?w - ?n mod ?w = i - ?n"
          using d(1,2) unfolding 2(2) by linarith+
        have "bit (m_blocks b ! (?n div ?w)) (i mod ?w) = (i < ?n \<and> xs ! i)" using R(3) [of i] 2(2) l1(2) by (simp add: block_bit_def)
        then show ?thesis using 2 l1(2) e by (auto simp: block_bit_append block_bit_update bit_simps)
      next
        case 3
        then have "?n \<le> i" using d(1,4) lw by linarith
        moreover have "block_bit [drop_bit (?w - ?n mod ?w) x] (i - ?l * ?w) = bit x (i - ?n)"
        proof -
          have "block_bit [drop_bit (?w - ?n mod ?w) x] k = bit x (?w - ?n mod ?w + k)" for k by (simp add: block_bit_single bit_simps)
          moreover have "?w - ?n mod ?w + (i - ?l * ?w) = i - ?n" using 3 d(1,4) lw by linarith
          ultimately show ?thesis by simp
        qed
        ultimately show ?thesis using 3 by (simp add: block_bit_append)
      qed
    qed
    then show ?thesis unfolding blk by simp
  qed
  moreover have "(if i < ?n then xs ! i else bit x (i - ?n)) = (i < ?n + ?w \<and> (xs @ block_bools x) ! i)" for i
    using nth [of i] x [of "i - ?n"] by auto
  ultimately show ?thesis using req size by (simp add: bits_rep_def)
qed

lemma append_carry_range:
  fixes b :: "'a :: len word dynamic_bitset"
  assumes "extra_bits_number b = e" and "0 < e" and "u = LENGTH('a) - e"
  shows "append_carry e u blk xs b = append_range xs (b\<lparr>m_blocks := m_blocks b @ [blk], m_bits_number := m_bits_number b + LENGTH('a)\<rparr>)"
proof -
  have "extra_bits_number (b\<lparr>m_blocks := ys, m_bits_number := m_bits_number b + LENGTH('a)\<rparr>) = e" for ys :: "'a word list"
    using assms(1) by (simp add: extra_bits_number_def bit_index_def)
  then show ?thesis using assms(2,3)
    by (cases b; cases xs) (simp_all add: append_range_def Let_def unused_bits_number_def set_last_block_def last_block_def)
qed

lemma append_range_Cons: "append_range (x # xs) b = append_range xs (append_block x b)" for b :: "'a :: len word dynamic_bitset"
proof (cases "extra_bits_number b = 0")
  case True
  have "extra_bits_number (b\<lparr>m_blocks := ys, m_bits_number := m_bits_number b + LENGTH('a)\<rparr>) = 0" for ys :: "'a word list"
    using True by (simp add: extra_bits_number_def bit_index_def)
  then show ?thesis using True by (cases xs) (simp_all add: append_range_def append_block_def Let_def)
next
  case False
  let ?b = "set_last_block (last_block b OR push_bit (extra_bits_number b) x) b"
  have "extra_bits_number ?b = extra_bits_number b" by (simp add: extra_bits_number_def set_last_block_def)
  note carry = append_carry_range [OF this]
  show ?thesis using False by (simp add: append_range_def [of "x # xs"] Let_def unused_bits_number_def carry append_block_def)
qed

lemma append_range_fold: "append_range xs b = fold append_block xs b"
proof (induction xs arbitrary: b)
  case Nil
  show ?case by (simp add: append_range_def)
next
  case (Cons x xs)
  then show ?case by (simp add: append_range_Cons)
qed

lemma append_range_rep: "bits_rep b xs \<Longrightarrow> bits_rep (append_range ys b) (xs @ concat (map block_bools ys))"
  unfolding append_range_fold
proof (induction ys arbitrary: b xs)
  case (Cons y ys)
  show ?case using Cons.IH [OF append_block_rep [OF Cons.prems], of y] by simp
qed simp

lemma concat_blocks: "concat (map block_bools ys) = map (block_bit ys) [0 ..< length ys * LENGTH('a)]" for ys :: "'a :: len word list"
proof (induction ys rule: rev_induct)
  case (snoc y ys)
  let ?w = "LENGTH('a)"
  have "map (block_bit (ys @ [y])) [0 ..< length ys * ?w + ?w] = map (block_bit ys) [0 ..< length ys * ?w] @ block_bools y"
    by (rule nth_equalityI) (auto simp: nth_append block_bit_append block_bit_single)
  then show ?case using snoc by (simp add: add.commute)
qed simp

lemma append_other_rep:
  fixes b :: "'a :: len word dynamic_bitset"
  assumes "bits_rep b xs" and "bits_rep other ys"
  shows "bits_rep (append_other other b) (xs @ ys)"
proof -
  note R = bits_repD [OF assms(1)] and S = bits_repD [OF assms(2)]
  let ?c = "concat (map block_bools (m_blocks other))"
  have l: "length ys \<le> length ?c" unfolding concat_blocks using blocks_required_len(1) [where n = "length ys" and 'a = 'a] S(2) by simp
  have "take (length ys) ?c = ys" using l S(3) unfolding concat_blocks by (intro nth_equalityI) simp_all
  then have "take (length xs + length ys) (xs @ ?c) @ replicate (length xs + length ys - length (xs @ ?c)) False = xs @ ys" using l by simp
  then show ?thesis using resize_rep [OF append_range_rep [OF assms(1), of "m_blocks other"], of "length xs + length ys" False] R(1) S(1)
    by (simp add: append_other_def)
qed

lemma append_self_steps:
  fixes b :: "'a :: len word dynamic_bitset"
  assumes "bits_rep b xs" and "k \<le> length (m_blocks b)"
  shows "\<exists>ys. bits_rep (fold (\<lambda>i b. append_block (m_blocks b ! i) b) [0 ..< k] b) (xs @ ys) \<and> length ys = k * LENGTH('a)
    \<and> (\<forall>j < k * LENGTH('a). j < length xs \<longrightarrow> ys ! j = xs ! j)"
  using assms(2)
proof (induction k)
  case (Suc k)
  let ?w = "LENGTH('a)" and ?b = "fold (\<lambda>i b. append_block (m_blocks b ! i) b) [0 ..< k] b"
  obtain ys where ys: "bits_rep ?b (xs @ ys)" "length ys = k * ?w" "\<forall>j < k * ?w. j < length xs \<longrightarrow> ys ! j = xs ! j"
    using Suc by auto
  let ?x = "m_blocks ?b ! k"
  have "(ys @ block_bools ?x) ! j = xs ! j" if j: "j < Suc k * ?w" "j < length xs" for j
  proof (cases "j < k * ?w")
    case True
    then show ?thesis using ys(2,3) j by (simp add: nth_append)
  next
    case False
    then obtain i where i: "j = k * ?w + i" "i < ?w" using j(1) by (metis add.commute add_less_cancel_left le_Suc_ex mult_Suc not_less)
    have "k < length (m_blocks ?b)" using bits_repD(4) [OF ys(1), of j] i j(2) by simp
    then have "bit ?x i = xs ! j" using bits_repD(3) [OF ys(1), of j] block_bit_at [of k "m_blocks ?b" i] i j(2) by (simp add: nth_append)
    then show ?thesis using i ys(2) by (simp add: nth_append)
  qed
  then show ?case using append_block_rep [OF ys(1), of ?x] ys(2) by (intro exI [of _ "ys @ block_bools ?x"]) simp
qed (use assms(1) in simp)

lemma append_self_rep:
  fixes b :: "'a :: len word dynamic_bitset"
  assumes "bits_rep b xs"
  shows "bits_rep (append_self b) (xs @ xs)"
proof -
  note R = bits_repD [OF assms]
  obtain ys where ys: "bits_rep (fold (\<lambda>i b. append_block (m_blocks b ! i) b) [0 ..< length (m_blocks b)] b) (xs @ ys)"
    "length ys = length (m_blocks b) * LENGTH('a)" "\<forall>j < length (m_blocks b) * LENGTH('a). j < length xs \<longrightarrow> ys ! j = xs ! j"
    using append_self_steps [OF assms order_refl] by auto
  have l: "length xs \<le> length ys" using blocks_required_len(1) [where n = "length xs" and 'a = 'a] R(2) ys(2) by simp
  then have "take (length xs) ys = xs" using ys(2,3) by (intro nth_equalityI) simp_all
  then have "take (length xs + length xs) (xs @ ys) @ replicate (length xs + length xs - length (xs @ ys)) False = xs @ xs" using l by simp
  then show ?thesis using resize_rep [OF ys(1), of "length xs + length xs" False] R(1) by (simp add: append_self_def)
qed


subsection \<open>Loops that update every block once\<close>

lemma fold_updates:
  assumes "distinct is" and "\<forall>i \<in> set is. i < length xs"
    and "\<And>k ys. k < length is \<Longrightarrow> length ys = length xs \<Longrightarrow> (\<forall>j < length xs. j \<notin> set (take k is) \<longrightarrow> ys ! j = xs ! j) \<Longrightarrow> f (is ! k) ys = f (is ! k) xs"
  shows "fold (\<lambda>i ys. ys[i := f i ys]) is xs = map (\<lambda>j. if j \<in> set is then f j xs else xs ! j) [0 ..< length xs]"
proof -
  let ?g = "\<lambda>k. map (\<lambda>j. if j \<in> set (take k is) then f j xs else xs ! j) [0 ..< length xs]"
  have "fold (\<lambda>i ys. ys[i := f i ys]) (take k is) xs = ?g k" if "k \<le> length is" for k
    using that
  proof (induction k)
    case 0
    show ?case by (simp add: map_nth)
  next
    case (Suc k)
    then have k: "k < length is" and ih: "fold (\<lambda>i ys. ys[i := f i ys]) (take k is) xs = ?g k" by simp_all
    have "f (is ! k) (?g k) = f (is ! k) xs" by (intro assms(3) k) simp_all
    moreover have "(?g k)[is ! k := f (is ! k) xs] = ?g (Suc k)"
      using k assms(2) by (intro nth_equalityI) (auto simp: take_Suc_conv_app_nth nth_list_update)
    ultimately show ?case using k ih by (simp add: take_Suc_conv_app_nth)
  qed
  from this [of "length is"] show ?thesis by simp
qed


text \<open>Every block is replaced by a function of itself.\<close>

lemma fold_update_each:
  assumes "hi \<le> length xs"
  shows "fold (\<lambda>i ys. ys[i := g i (ys ! i)]) [lo ..< hi] xs = map (\<lambda>j. if lo \<le> j \<and> j < hi then g j (xs ! j) else xs ! j) [0 ..< length xs]"
proof -
  have n: "[lo ..< hi] ! k \<notin> set (take k [lo ..< hi])" if "k < hi - lo" for k using that by (auto simp: in_set_conv_nth)
  have "fold (\<lambda>i ys. ys[i := g i (ys ! i)]) [lo ..< hi] xs = map (\<lambda>j. if j \<in> set [lo ..< hi] then g j (xs ! j) else xs ! j) [0 ..< length xs]"
    by (rule fold_updates) (use assms n in auto)
  then show ?thesis by simp
qed

subsection \<open>Operations on all bits\<close>

lemma map_upt_bits:
  fixes xs :: "'a :: len word list"
  shows "block_bit (map f [0 ..< n]) i \<longleftrightarrow> i < n * LENGTH('a) \<and> bit (f (i div LENGTH('a)) :: 'a word) (i mod LENGTH('a))"
  by (auto simp: block_bit_def div_less_iff)

lemma combine_rep:
  fixes b :: "'a :: len word dynamic_bitset"
  assumes "bits_rep b xs" and "bits_rep c ys" and f: "\<And>x y i. i < LENGTH('a) \<Longrightarrow> bit (f x y) i = g (bit x i) (bit y i)" and g: "\<not> g False False"
  shows "if length xs = length ys then \<exists>b'. combine f b c = Some b' \<and> bits_rep b' (map2 g xs ys) else combine f b c = None"
proof (cases "length xs = length ys")
  case False
  then show ?thesis using bits_repD(1) [OF assms(1)] bits_repD(1) [OF assms(2)] by (simp add: combine_def)
next
  case True
  note R = bits_repD [OF assms(1)] and S = bits_repD [OF assms(2)]
  let ?w = "LENGTH('a)" and ?n = "length (m_blocks b)"
  let ?B = "map (\<lambda>j. f (m_blocks b ! j) (m_blocks c ! j)) [0 ..< ?n]"
  have "fold (\<lambda>i blocks. blocks[i := f (blocks ! i) (m_blocks c ! i)]) [0 ..< ?n] (m_blocks b) = ?B"
    using fold_update_each [of ?n "m_blocks b" "\<lambda>i x. f x (m_blocks c ! i)" 0] by simp
  then have c: "combine f b c = Some (b\<lparr>m_blocks := ?B\<rparr>)" using True R(1) S(1) by (simp add: combine_def)
  have "block_bit ?B i = (i < length xs \<and> map2 g xs ys ! i)" for i
  proof (cases "i < ?n * ?w")
    case i: True
    then have d: "i div ?w < ?n" "i div ?w < length (m_blocks c)" using True R(2) S(2) by (simp_all add: div_less_iff)
    have "bit (m_blocks b ! (i div ?w)) (i mod ?w) = (i < length xs \<and> xs ! i)" "bit (m_blocks c ! (i div ?w)) (i mod ?w) = (i < length ys \<and> ys ! i)"
      using R(3) [of i] S(3) [of i] d by (simp_all add: block_bit_def)
    then show ?thesis using i True f g by (cases "i < length xs") (simp_all add: map_upt_bits)
  next
    case False
    then have "\<not> i < length xs" using blocks_required_len(1) [where n = "length xs" and 'a = 'a] R(2) by simp
    then show ?thesis using False by (simp add: map_upt_bits)
  qed
  then have "bits_rep (b\<lparr>m_blocks := ?B\<rparr>) (map2 g xs ys)" using R(1,2) True by (simp add: bits_rep_def)
  then show ?thesis using c True by simp
qed

lemma bitwise_rep:
  assumes "bits_rep b xs" and "bits_rep c ys" and "length xs = length ys"
  shows "\<exists>b'. and_assign b c = Some b' \<and> bits_rep b' (map2 (\<and>) xs ys)" and "\<exists>b'. or_assign b c = Some b' \<and> bits_rep b' (map2 (\<or>) xs ys)"
    and "\<exists>b'. xor_assign b c = Some b' \<and> bits_rep b' (map2 (\<noteq>) xs ys)" and "\<exists>b'. minus_assign b c = Some b' \<and> bits_rep b' (map2 (\<lambda>x y. x \<and> \<not> y) xs ys)"
  using combine_rep [OF assms(1,2), of "(AND)" "(\<and>)"] combine_rep [OF assms(1,2), of "(OR)" "(\<or>)"] combine_rep [OF assms(1,2), of "(XOR)" "(\<noteq>)"]
    combine_rep [OF assms(1,2), of "\<lambda>x y. x AND NOT y" "\<lambda>x y. x \<and> \<not> y"] assms(3)
  by (simp_all add: and_assign_def or_assign_def xor_assign_def minus_assign_def bit_simps)

lemma all_rep:
  fixes b :: "'a :: len word dynamic_bitset"
  assumes "bits_rep b xs"
  shows "bits_rep (set_all b) (replicate (length xs) True)" and "bits_rep (reset_all b) (replicate (length xs) False)"
    and "bits_rep (flip_all b) (map Not xs)"
proof -
  note R = bits_repD [OF assms]
  have i: "i < length (m_blocks b) * LENGTH('a)" if "i < length xs" for i using R(4) [OF that] by (simp add: div_less_iff)
  show "bits_rep (set_all b) (replicate (length xs) True)"
    unfolding set_all_def by (rule bits_rep_sanitize) (use R i in \<open>simp_all add: block_bit_map\<close>)
  show "bits_rep (flip_all b) (map Not xs)"
    unfolding flip_all_def
  proof (rule bits_rep_sanitize)
    fix i assume "i < length (map Not xs)"
    then show "block_bit (m_blocks (b\<lparr>m_blocks := map NOT (m_blocks b)\<rparr>)) i = map Not xs ! i"
      using R(3) [of i] R(4) [of i] i [of i] by (simp add: block_bit_map bit_simps) (simp add: block_bit_def)
  qed (use R in simp_all)
  show "bits_rep (reset_all b) (replicate (length xs) False)" using R by (simp add: reset_all_def bits_rep_def block_bit_map)
qed


subsection \<open>Shifts\<close>

lemma block_bit_decomp: "m < LENGTH('a) \<Longrightarrow> block_bit xs (k * LENGTH('a) + m) \<longleftrightarrow> k < length xs \<and> bit (xs ! k) m" for xs :: "'a :: len word list"
  by (simp add: block_bit_def)

lemma fill_blocks_map:
  "hi \<le> length xs \<Longrightarrow> fill_blocks lo hi xs = map (\<lambda>j. if lo \<le> j \<and> j < hi then 0 else xs ! j) [0 ..< length xs]"
  unfolding fill_blocks_def using fold_update_each [of hi xs "\<lambda>_ _. 0" lo] by simp

lemma fold_down:
  assumes "\<And>i ys. lo \<le> i \<Longrightarrow> i < length xs \<Longrightarrow> length ys = length xs \<Longrightarrow> \<forall>j \<le> i. ys ! j = xs ! j \<Longrightarrow> f i ys = f i xs"
  shows "fold (\<lambda>i ys. ys[i := f i ys]) (rev [lo ..< length xs]) xs = map (\<lambda>j. if lo \<le> j then f j xs else xs ! j) [0 ..< length xs]"
proof -
  let ?is = "rev [lo ..< length xs]"
  have "fold (\<lambda>i ys. ys[i := f i ys]) ?is xs = map (\<lambda>j. if j \<in> set ?is then f j xs else xs ! j) [0 ..< length xs]"
  proof (rule fold_updates)
    fix k and ys :: "'a list"
    assume k: "k < length ?is" and l: "length ys = length xs" and a: "\<forall>j < length xs. j \<notin> set (take k ?is) \<longrightarrow> ys ! j = xs ! j"
    have ik: "?is ! m = length xs - Suc m" if "m < length ?is" for m using that by (simp add: rev_nth)
    have n: "j \<notin> set (take k ?is)" if "j \<le> ?is ! k" for j
    proof
      assume "j \<in> set (take k ?is)"
      then obtain m where "m < k" "j = ?is ! m" using k by (auto simp: in_set_conv_nth)
      then show False using that ik [of m] ik [OF k] k by simp
    qed
    have i: "?is ! k < length xs" "lo \<le> ?is ! k" using ik [OF k] k by simp_all
    have "\<forall>j \<le> ?is ! k. ys ! j = xs ! j"
    proof (intro allI impI)
      fix j assume "j \<le> ?is ! k"
      then show "ys ! j = xs ! j" using a n i(1) by (meson le_less_trans)
    qed
    then show "f (?is ! k) ys = f (?is ! k) xs" by (rule assms [OF i(2,1) l])
  qed simp_all
  then show ?thesis by (simp cong: map_cong)
qed

lemma fold_up:
  assumes "hi \<le> length xs" and "\<And>i ys. i < hi \<Longrightarrow> length ys = length xs \<Longrightarrow> \<forall>j \<ge> i. j < length xs \<longrightarrow> ys ! j = xs ! j \<Longrightarrow> f i ys = f i xs"
  shows "fold (\<lambda>i ys. ys[i := f i ys]) [0 ..< hi] xs = map (\<lambda>j. if j < hi then f j xs else xs ! j) [0 ..< length xs]"
proof -
  have "fold (\<lambda>i ys. ys[i := f i ys]) [0 ..< hi] xs = map (\<lambda>j. if j \<in> set [0 ..< hi] then f j xs else xs ! j) [0 ..< length xs]"
  proof (rule fold_updates)
    fix k and ys :: "'a list"
    assume k: "k < length [0 ..< hi]" and l: "length ys = length xs" and a: "\<forall>j < length xs. j \<notin> set (take k [0 ..< hi]) \<longrightarrow> ys ! j = xs ! j"
    have i: "[0 ..< hi] ! k = k" "k < hi" "set (take k [0 ..< hi]) = {..< k}" using k by (simp_all add: lessThan_atLeast0)
    show "f ([0 ..< hi] ! k) ys = f ([0 ..< hi] ! k) xs" unfolding i(1)
      by (rule assms(2) [OF i(2) l]) (use a i(3) in auto)
  qed (use assms(1) in auto)
  then show ?thesis by simp
qed

lemma left_shift_blocks:
  fixes xs :: "'a :: len word list"
  assumes "0 < s" and "s div LENGTH('a) < length xs"
  defines "q \<equiv> s div LENGTH('a)" and "m \<equiv> s mod LENGTH('a)"
  shows "apply_left_shift s xs = map (\<lambda>j. if j < q then 0 else if j = q then push_bit m (xs ! 0)
    else push_bit m (xs ! (j - q)) OR (if m = 0 then 0 else drop_bit (LENGTH('a) - m) (xs ! (j - q - 1)))) [0 ..< length xs]"
proof (cases "m = 0")
  case True
  then have q: "0 < q" using assms(1) by (auto simp: q_def m_def)
  have "fold (\<lambda>i ys. ys[i := ys ! (i - q)]) (rev [q ..< length xs]) xs = map (\<lambda>j. if q \<le> j then xs ! (j - q) else xs ! j) [0 ..< length xs]"
    by (rule fold_down) simp
  then show ?thesis using True assms(2) unfolding apply_left_shift_def Let_def q_def [symmetric] m_def [symmetric]
    by (auto simp: fill_blocks_map intro!: map_cong)
next
  case False
  let ?f = "\<lambda>i ys. push_bit m (ys ! (i - q)) OR drop_bit (LENGTH('a) - m) (ys ! (i - q - 1))"
  have "fold (\<lambda>i ys. ys[i := ?f i ys]) (rev [Suc q ..< length xs]) xs = map (\<lambda>j. if Suc q \<le> j then ?f j xs else xs ! j) [0 ..< length xs]"
    by (rule fold_down) simp
  moreover have "q < length xs" "0 < length xs" using assms(2) by (auto simp: q_def)
  ultimately show ?thesis using False unfolding apply_left_shift_def Let_def q_def [symmetric] m_def [symmetric]
    by (intro nth_equalityI) (auto simp: fill_blocks_map nth_list_update)
qed

lemma left_shift_bits:
  fixes xs :: "'a :: len word list"
  assumes "0 < s" and "s div LENGTH('a) < length xs"
  shows "block_bit (apply_left_shift s xs) i \<longleftrightarrow> s \<le> i \<and> i < length xs * LENGTH('a) \<and> block_bit xs (i - s)"
proof -
  let ?w = "LENGTH('a)" and ?q = "s div LENGTH('a)" and ?m = "s mod LENGTH('a)" and ?j = "i div LENGTH('a)" and ?r = "i mod LENGTH('a)"
  have d: "i = ?j * ?w + ?r" "s = ?q * ?w + ?m" "?r < ?w" "?m < ?w" by simp_all
  have j: "i < length xs * ?w \<longleftrightarrow> ?j < length xs" by (simp add: div_less_iff)
  consider "\<not> ?j < length xs" | "?j < length xs" "?j < ?q" | "?j < length xs" "?j = ?q" | "?j < length xs" "?q < ?j" by linarith
  then show ?thesis
  proof cases
    case 1
    then show ?thesis using j by (simp add: left_shift_blocks [OF assms] map_upt_bits)
  next
    case 2
    then have "(?j + 1) * ?w \<le> ?q * ?w" by (intro mult_right_mono) simp_all
    then have "?j * ?w + ?w \<le> ?q * ?w" by (simp only: distrib_right mult_1)
    then have "i < s" using d by linarith
    then show ?thesis using 2 by (simp add: left_shift_blocks [OF assms] map_upt_bits)
  next
    case 3
    have "s \<le> i \<longleftrightarrow> ?m \<le> ?r" using d(1,2) unfolding 3(2) by linarith
    moreover have "i - s = 0 * ?w + (?r - ?m)" using d(1,2) unfolding 3(2) by linarith
    moreover have "block_bit xs (0 * ?w + (?r - ?m)) = bit (xs ! 0) (?r - ?m)" 
      using 3(1) by (subst block_bit_decomp) (auto intro: le_less_trans [OF diff_le_self d(3)])
    ultimately show ?thesis using 3 j by (simp add: left_shift_blocks [OF assms] map_upt_bits bit_simps)
  next
    case 4
    then obtain k where k: "?j = Suc (?q + k)" by (metis less_iff_Suc_add)
    then have jw: "?j * ?w = ?q * ?w + k * ?w + ?w" by (simp add: algebra_simps)
    have le: "s \<le> i" using d jw by linarith
    have jk: "?j - ?q = Suc k" "?j - ?q - 1 = k" "Suc k < length xs" using 4 k by simp_all
    have lhs: "block_bit (apply_left_shift s xs) i \<longleftrightarrow> ?m \<le> ?r \<and> bit (xs ! Suc k) (?r - ?m) \<or> ?m \<noteq> 0 \<and> bit (xs ! k) (?w - ?m + ?r)"
      using 4 j jk by (auto simp: left_shift_blocks [OF assms] map_upt_bits bit_simps)
    show ?thesis
    proof (cases "?m \<le> ?r")
      case True
      have "i - s = Suc k * ?w + (?r - ?m)" unfolding mult_Suc using d(1,2) jw True by linarith
      moreover have "\<not> bit (xs ! k) (?w - ?m + ?r)" using True d(4) bit_imp_le_length [of "xs ! k" "?w - ?m + ?r"] by auto
      moreover have "?r - ?m < ?w" using d(3) by linarith
      ultimately show ?thesis using True 4 j jk le lhs block_bit_decomp [of "?r - ?m" xs "Suc k"] by simp
    next
      case False
      have "i - s = k * ?w + (?w - ?m + ?r)" using d jw False by linarith
      moreover have "?w - ?m + ?r < ?w" using False d by linarith
      ultimately show ?thesis using False 4 j jk le lhs block_bit_decomp [of "?w - ?m + ?r" xs k] by simp
    qed
  qed
qed

lemma right_shift_blocks:
  fixes xs :: "'a :: len word list"
  assumes "0 < s" and "s div LENGTH('a) < length xs"
  defines "q \<equiv> s div LENGTH('a)" and "m \<equiv> s mod LENGTH('a)"
  shows "apply_right_shift s xs = map (\<lambda>j. if j + q < length xs then drop_bit m (xs ! (j + q)) OR
    (if m = 0 \<or> j + q + 1 = length xs then 0 else push_bit (LENGTH('a) - m) (xs ! (j + q + 1))) else 0) [0 ..< length xs]"
proof -
  let ?l = "length xs - q - 1"
  have q: "q < length xs" using assms(2) by (simp add: q_def)
  show ?thesis
  proof (cases "m = 0")
    case True
    have "fold (\<lambda>i ys. ys[i := ys ! (i + q)]) [0 ..< Suc ?l] xs = map (\<lambda>j. if j < Suc ?l then xs ! (j + q) else xs ! j) [0 ..< length xs]"
      by (rule fold_up) (use q in auto)
    then show ?thesis using True q unfolding apply_right_shift_def Let_def q_def [symmetric] m_def [symmetric]
      by (auto simp: fill_blocks_map intro!: map_cong)
  next
    case False
    let ?f = "\<lambda>i ys. drop_bit m (ys ! (i + q)) OR push_bit (LENGTH('a) - m) (ys ! (i + q + 1))"
    have "fold (\<lambda>i ys. ys[i := ?f i ys]) [0 ..< ?l] xs = map (\<lambda>j. if j < ?l then ?f j xs else xs ! j) [0 ..< length xs]"
      by (rule fold_up) (use q in auto)
    then show ?thesis using False q unfolding apply_right_shift_def Let_def q_def [symmetric] m_def [symmetric]
      by (intro nth_equalityI) (auto simp: fill_blocks_map nth_list_update)
  qed
qed

lemma right_shift_bits:
  fixes xs :: "'a :: len word list"
  assumes "0 < s" and "s div LENGTH('a) < length xs"
  shows "block_bit (apply_right_shift s xs) i \<longleftrightarrow> block_bit xs (i + s)"
proof -
  let ?w = "LENGTH('a)" and ?q = "s div LENGTH('a)" and ?m = "s mod LENGTH('a)" and ?j = "i div LENGTH('a)" and ?r = "i mod LENGTH('a)"
  have d: "i = ?j * ?w + ?r" "s = ?q * ?w + ?m" "?r < ?w" "?m < ?w" by simp_all
  have lhs: "block_bit (apply_right_shift s xs) i \<longleftrightarrow> ?j + ?q < length xs \<and> (bit (xs ! (?j + ?q)) (?m + ?r)
      \<or> ?m \<noteq> 0 \<and> ?j + ?q + 1 < length xs \<and> ?w - ?m \<le> ?r \<and> bit (xs ! (?j + ?q + 1)) (?r - (?w - ?m)))"
    by (auto simp: right_shift_blocks [OF assms] map_upt_bits bit_simps div_less_iff [symmetric])
  show ?thesis
  proof (cases "?m + ?r < ?w")
    case True
    have "i + s = (?j + ?q) * ?w + (?m + ?r)" unfolding distrib_right using d(1,2) by linarith
    moreover have "\<not> ?w - ?m \<le> ?r" using True by simp
    ultimately show ?thesis using True lhs block_bit_decomp [of "?m + ?r" xs "?j + ?q"] by auto
  next
    case False
    have "i + s = (?j + ?q + 1) * ?w + (?r - (?w - ?m))" unfolding distrib_right using d False by linarith
    moreover have "\<not> bit (xs ! (?j + ?q)) (?m + ?r)" using False bit_imp_le_length [of "xs ! (?j + ?q)" "?m + ?r"] by auto
    moreover have "?r - (?w - ?m) < ?w" "?w - ?m \<le> ?r" "?m \<noteq> 0" using False d(3,4) by linarith+
    ultimately show ?thesis using lhs block_bit_decomp [of "?r - (?w - ?m)" xs "?j + ?q + 1"] by auto
  qed
qed

lemma shift_rep:
  fixes b :: "'a :: len word dynamic_bitset"
  assumes "bits_rep b xs"
  shows "bits_rep (shift_left_assign s b) (replicate (min s (length xs)) False @ take (length xs - s) xs)"
    and "bits_rep (shift_right_assign s b) (drop s xs @ replicate (min s (length xs)) False)"
proof -
  note R = bits_repD [OF assms]
  let ?l = "replicate (min s (length xs)) False @ take (length xs - s) xs" and ?r = "drop s xs @ replicate (min s (length xs)) False"
  consider "s = 0" | "0 < s" "length xs \<le> s" | "0 < s" "s < length xs" by linarith
  then have "bits_rep (shift_left_assign s b) ?l \<and> bits_rep (shift_right_assign s b) ?r"
  proof cases
    case 1
    then show ?thesis using assms by (simp add: shift_left_assign_def shift_right_assign_def)
  next
    case 2
    then have "?l = replicate (length xs) False" "?r = replicate (length xs) False" by simp_all
    then show ?thesis using 2 R(1) all_rep(2) [OF assms] by (simp add: shift_left_assign_def shift_right_assign_def)
  next
    case 3
    note L = left_shift_bits [OF 3(1) R(4) [OF 3(2)]] and D = right_shift_bits [OF 3(1) R(4) [OF 3(2)]]
    have len: "length ?l = length xs" "length ?r = length xs" using 3 by simp_all
    have ls: "length (apply_left_shift s (m_blocks b)) = length (m_blocks b)" "length (apply_right_shift s (m_blocks b)) = length (m_blocks b)"
      using left_shift_blocks [OF 3(1) R(4) [OF 3(2)]] right_shift_blocks [OF 3(1) R(4) [OF 3(2)]] by simp_all
    have "bits_rep (sanitize (b\<lparr>m_blocks := apply_left_shift s (m_blocks b)\<rparr>)) ?l"
    proof (rule bits_rep_sanitize)
      fix i assume "i < length ?l"
      then have i: "i < length xs" using len(1) by simp
      then have "i < length (m_blocks b) * LENGTH('a)" using R(4) [OF i] by (simp add: div_less_iff)
      then show "block_bit (m_blocks (b\<lparr>m_blocks := apply_left_shift s (m_blocks b)\<rparr>)) i = ?l ! i" using L [of i] R(3) [of "i - s"] i 3 by (auto simp: nth_append)
    qed (use len ls R in simp_all)
    moreover have "bits_rep (b\<lparr>m_blocks := apply_right_shift s (m_blocks b)\<rparr>) ?r"
      unfolding bits_rep_def len(2) using R(1,2) ls(2) D R(3) 3(2) by (auto simp: nth_append add.commute less_diff_conv)
    ultimately show ?thesis using 3 R(1) by (simp add: shift_left_assign_def shift_right_assign_def)
  qed
  then show "bits_rep (shift_left_assign s b) ?l" "bits_rep (shift_right_assign s b) ?r" by simp_all
qed


subsection \<open>Ranges and single bits\<close>

lemma le_lex:
  fixes p i w :: nat
  assumes "0 < w"
  shows "p \<le> i \<longleftrightarrow> p div w < i div w \<or> p div w = i div w \<and> p mod w \<le> i mod w"
proof -
  have d: "p = p div w * w + p mod w" "i = i div w * w + i mod w" "p mod w < w" "i mod w < w" using assms by simp_all
  consider "p div w < i div w" | "p div w = i div w" | "i div w < p div w" by linarith
  then show ?thesis
  proof cases
    case 1
    then have "(p div w + 1) * w \<le> i div w * w" by (intro mult_right_mono) simp_all
    then have "p div w * w + w \<le> i div w * w" by (simp only: distrib_right mult_1)
    then show ?thesis using 1 d by linarith
  next
    case 2
    have "p \<le> i \<longleftrightarrow> p mod w \<le> i mod w" using d(1,2) unfolding 2 by linarith
    then show ?thesis using 2 by simp
  next
    case 3
    then have "(i div w + 1) * w \<le> p div w * w" by (intro mult_right_mono) simp_all
    then have "i div w * w + w \<le> p div w * w" by (simp only: distrib_right mult_1)
    then show ?thesis using 3 d by linarith
  qed
qed

lemma bit_range_mask:
  assumes "f \<le> l" and "l < LENGTH('a)" and "k < LENGTH('a)"
  shows "bit (range_mask f l :: 'a :: len word) k \<longleftrightarrow> f \<le> k \<and> k \<le> l"
proof (cases "l = LENGTH('a) - 1")
  case True
  then show ?thesis using assms by (auto simp: range_mask_def bit_index_def bit_simps)
next
  case False
  have "range_mask f l = mask (l + 1) XOR (mask f :: 'a word)" using False assms
    by (simp add: range_mask_def bit_index_def mask_eq_exp_minus_1)
  then show ?thesis using assms by (auto simp: bit_simps)
qed

definition part_ok :: "(bool \<Rightarrow> bool) \<Rightarrow> ('a :: len word \<Rightarrow> nat \<Rightarrow> nat \<Rightarrow> 'a word) \<Rightarrow> ('a word \<Rightarrow> 'a word) \<Rightarrow> bool" where
  "part_ok h part whole \<longleftrightarrow> (\<forall>x k. k < LENGTH('a) \<longrightarrow> bit (whole x) k = h (bit x k))
     \<and> (\<forall>x f l k. f \<le> l \<longrightarrow> l < LENGTH('a) \<longrightarrow> k < LENGTH('a) \<longrightarrow> bit (part x f l) k = (if f \<le> k \<and> k \<le> l then h (bit x k) else bit x k))"

lemma range_blocks:
  fixes B :: "'a :: len word list"
  assumes "part_ok h part whole" and "fb \<le> lb" and "lb < length B" and "f0 < LENGTH('a)" and "l0 < LENGTH('a)" and "fb = lb \<Longrightarrow> f0 \<le> l0"
  shows "\<exists>B'. (if fb = lb then B[fb := part (B ! fb) f0 l0]
     else (let (ff, B) = (if f0 \<noteq> 0 then (fb + 1, B[fb := part (B ! fb) f0 (LENGTH('a) - 1)]) else (fb, B));
               (lf, B) = (if l0 \<noteq> LENGTH('a) - 1 then (lb - 1, B[lb := part (B ! lb) 0 l0]) else (lb, B))
           in fold (\<lambda>i B. B[i := whole (B ! i)]) [ff ..< Suc lf] B)) = B' \<and> length B' = length B
     \<and> (\<forall>j < length B. \<forall>k < LENGTH('a). bit (B' ! j) k =
         (if (fb < j \<or> fb = j \<and> f0 \<le> k) \<and> (j < lb \<or> j = lb \<and> k \<le> l0) then h (bit (B ! j) k) else bit (B ! j) k))"
proof -
  let ?w = "LENGTH('a)"
  have P: "bit (part x f l) k = (if f \<le> k \<and> k \<le> l then h (bit x k) else bit x k)" if "f \<le> l" "l < ?w" "k < ?w" for x f l k
    using assms(1) that by (simp add: part_ok_def)
  have W: "bit (whole x) k = h (bit x k)" if "k < ?w" for x k using assms(1) that by (simp add: part_ok_def)
  show ?thesis
  proof (cases "fb = lb")
    case True
    then show ?thesis using assms P by (auto simp: nth_list_update)
  next
    case False
    then have lt: "fb < lb" using assms(2) by simp
    define B1 where "B1 = (if f0 \<noteq> 0 then B[fb := part (B ! fb) f0 (?w - 1)] else B)"
    define ff where "ff = (if f0 \<noteq> 0 then fb + 1 else fb)"
    define B2 where "B2 = (if l0 \<noteq> ?w - 1 then B1[lb := part (B1 ! lb) 0 l0] else B1)"
    define lf where "lf = (if l0 \<noteq> ?w - 1 then lb - 1 else lb)"
    let ?B = "map (\<lambda>j. if ff \<le> j \<and> j < Suc lf then whole (B2 ! j) else B2 ! j) [0 ..< length B2]"
    have len: "length B2 = length B" by (simp add: B1_def B2_def)
    have fo: "fold (\<lambda>i B. B[i := whole (B ! i)]) [ff ..< Suc lf] B2 = ?B"
      using fold_update_each [of "Suc lf" B2 "\<lambda>_. whole" ff] assms(3) len by (auto simp: lf_def)
    have b2: "B2 ! j = (if j = fb \<and> f0 \<noteq> 0 then part (B ! j) f0 (?w - 1) else if j = lb \<and> l0 \<noteq> ?w - 1 then part (B ! j) 0 l0 else B ! j)" if "j < length B" for j
      using that lt assms(3) by (auto simp: B1_def B2_def nth_list_update)
    have bits: "bit ((if ff \<le> j \<and> j < Suc lf then whole else id) (if j = fb \<and> f0 \<noteq> 0 then part (B ! j) f0 (?w - 1) else if j = lb \<and> l0 \<noteq> ?w - 1 then part (B ! j) 0 l0 else B ! j)) k
        = (if (fb < j \<or> fb = j \<and> f0 \<le> k) \<and> (j < lb \<or> j = lb \<and> k \<le> l0) then h (bit (B ! j) k) else bit (B ! j) k)" if "k < ?w" for j k
      using that lt assms(4,5) by (auto simp: ff_def lf_def P W)
    have "\<forall>j < length B. \<forall>k < ?w. bit (?B ! j) k =
         (if (fb < j \<or> fb = j \<and> f0 \<le> k) \<and> (j < lb \<or> j = lb \<and> k \<le> l0) then h (bit (B ! j) k) else bit (B ! j) k)"
    proof (intro allI impI)
      fix j k assume j: "j < length B" and k: "k < ?w"
      have "?B ! j = (if ff \<le> j \<and> j < Suc lf then whole else id) (B2 ! j)" using j len by simp
      then show "bit (?B ! j) k = (if (fb < j \<or> fb = j \<and> f0 \<le> k) \<and> (j < lb \<or> j = lb \<and> k \<le> l0) then h (bit (B ! j) k) else bit (B ! j) k)"
        by (simp only: b2 [OF j] bits [OF k])
    qed
    moreover have "(let (ff, B) = (if f0 \<noteq> 0 then (fb + 1, B[fb := part (B ! fb) f0 (?w - 1)]) else (fb, B));
               (lf, B) = (if l0 \<noteq> ?w - 1 then (lb - 1, B[lb := part (B ! lb) 0 l0]) else (lb, B))
           in fold (\<lambda>i B. B[i := whole (B ! i)]) [ff ..< Suc lf] B) = fold (\<lambda>i B. B[i := whole (B ! i)]) [ff ..< Suc lf] B2"
      by (cases "f0 = 0"; cases "l0 = ?w - 1"; simp only: ff_def lf_def B1_def B2_def Let_def if_True if_False simp_thms prod.case)
    ultimately show ?thesis using False len fo by (intro exI [of _ ?B]) simp
  qed
qed


lemma range_update_rep:
  fixes b :: "'a :: len word dynamic_bitset"
  assumes "bits_rep b xs" and "part_ok h part whole" and "pos + len \<le> 2 ^ 64"
  shows "if pos < length xs \<and> pos + len \<le> length xs
    then \<exists>b'. range_update part whole pos len b = Some b' \<and> bits_rep b' (map (\<lambda>i. if pos \<le> i \<and> i < pos + len then h (xs ! i) else xs ! i) [0 ..< length xs])
    else range_update part whole pos len b = None"
proof -
  note R = bits_repD [OF assms(1)]
  let ?w = "LENGTH('a)" and ?ys = "map (\<lambda>i. if pos \<le> i \<and> i < pos + len then h (xs ! i) else xs ! i) [0 ..< length xs]" and ?B = "m_blocks b"
  consider "\<not> pos < length xs" | "pos < length xs" "\<not> pos + len \<le> length xs" | "pos < length xs" "len = 0" | "pos < length xs" "pos + len \<le> length xs" "0 < len" by linarith
  then show ?thesis
  proof cases
    case 1
    then show ?thesis using R(1) by (simp add: range_update_def)
  next
    case 2
    then have "(pos + len - 1) mod 2 ^ 64 = pos + len - 1" using assms(3) by (intro mod_less) linarith
    then show ?thesis using 2 R(1) unfolding range_update_def by (simp only: if_True) auto
  next
    case 3
    then have "?ys = xs" by (intro nth_equalityI) auto
    then show ?thesis using 3 assms(1) R(1) by (simp add: range_update_def)
  next
    case 4
    let ?e = "pos + len - 1"
    have e: "?e < length xs" "pos \<le> ?e" "i < pos + len \<longleftrightarrow> i \<le> ?e" for i using 4 by auto
    have lx: "(pos \<le> i) = (pos div ?w < i div ?w \<or> pos div ?w = i div ?w \<and> pos mod ?w \<le> i mod ?w)"
      "(i \<le> ?e) = (i div ?w < ?e div ?w \<or> i div ?w = ?e div ?w \<and> i mod ?w \<le> ?e mod ?w)" for i by (rule le_lex [OF len_gt_0])+
    have fl: "pos div ?w \<le> ?e div ?w" "pos div ?w = ?e div ?w \<Longrightarrow> pos mod ?w \<le> ?e mod ?w"
      using e(2) le_lex [of ?w pos ?e] by (auto intro: div_le_mono)
    obtain B' where B': "(if pos div ?w = ?e div ?w then ?B[pos div ?w := part (?B ! (pos div ?w)) (pos mod ?w) (?e mod ?w)]
     else (let (ff, B) = (if pos mod ?w \<noteq> 0 then (pos div ?w + 1, ?B[pos div ?w := part (?B ! (pos div ?w)) (pos mod ?w) (?w - 1)]) else (pos div ?w, ?B));
               (lf, B) = (if ?e mod ?w \<noteq> ?w - 1 then (?e div ?w - 1, B[?e div ?w := part (B ! (?e div ?w)) 0 (?e mod ?w)]) else (?e div ?w, B))
           in fold (\<lambda>i B. B[i := whole (B ! i)]) [ff ..< Suc lf] B)) = B'" "length B' = length ?B"
      "\<forall>j < length ?B. \<forall>k < ?w. bit (B' ! j) k = (if (pos div ?w < j \<or> pos div ?w = j \<and> pos mod ?w \<le> k) \<and> (j < ?e div ?w \<or> j = ?e div ?w \<and> k \<le> ?e mod ?w)
         then h (bit (?B ! j) k) else bit (?B ! j) k)"
      using range_blocks [OF assms(2) fl(1) R(4) [OF e(1)] mod_less_divisor [OF len_gt_0] mod_less_divisor [OF len_gt_0] fl(2)] by blast
    have wrap: "?e mod 2 ^ 64 = ?e" using assms(3) 4 by (intro mod_less) linarith
    have prev: "(?e div ?w + (2 ^ 64 - 1)) mod 2 ^ 64 = ?e div ?w - 1" if "pos div ?w \<noteq> ?e div ?w"
    proof -
      have "0 < ?e div ?w" using that fl(1) by linarith
      moreover have "?e div ?w \<le> ?e" by simp
      moreover have "?e < 2 ^ 64" using assms(3) 4 by linarith
      ultimately have "?e div ?w + (2 ^ 64 - 1) = ?e div ?w - 1 + 2 ^ 64" "?e div ?w - 1 < 2 ^ 64" by linarith+
      then show ?thesis by (simp only: mod_add_self2 mod_less)
    qed
    have inb: "?e div ?w < length ?B" using R(4) [OF e(1)] .
    have "range_update part whole pos len b = Some (b\<lparr>m_blocks := B'\<rparr>)"
    proof (cases "pos div ?w = ?e div ?w")
      case True
      then show ?thesis using 4 e(1) B'(1) unfolding range_update_def R(1) Let_def block_index_def bit_index_def wrap by simp
    next
      case False
      have "\<not> (F \<le> ?e div ?w - 1 \<and> length ?B \<le> ?e div ?w - 1)" "\<not> (F \<le> ?e div ?w \<and> length ?B \<le> ?e div ?w)" for F using inb by linarith+
      then show ?thesis using 4 e(1) B'(1) False
        unfolding range_update_def R(1) Let_def block_index_def bit_index_def wrap prev [OF False]
        by (cases "pos mod ?w = 0"; cases "?e mod ?w = ?w - 1") (simp_all only: if_True if_False not_gr_zero prod.case length_list_update simp_thms, simp_all)
    qed
    moreover have "block_bit B' i = (i < length xs \<and> ?ys ! i)" for i
    proof (cases "i div ?w < length ?B")
      case False
      then show ?thesis using R(4) [of i] B'(2) by (auto simp: block_bit_def)
    next
      case True
      have o: "bit (?B ! (i div ?w)) (i mod ?w) = (i < length xs \<and> xs ! i)" using True R(3) [of i] by (simp add: block_bit_def)
      have "block_bit B' i = bit (B' ! (i div ?w)) (i mod ?w)" using True B'(2) by (simp add: block_bit_def)
      also have "\<dots> = (if pos \<le> i \<and> i \<le> ?e then h (i < length xs \<and> xs ! i) else (i < length xs \<and> xs ! i))"
        using B'(3) [rule_format, OF True mod_less_divisor [OF len_gt_0, of i]] by (simp only: lx [symmetric] o)
      finally have "block_bit B' i = (if pos \<le> i \<and> i \<le> ?e then h (i < length xs \<and> xs ! i) else (i < length xs \<and> xs ! i))" .
      then show ?thesis using e(1) e(3) [of i] by (cases "i < length xs") simp_all
    qed
    ultimately show ?thesis using 4 R(1,2) B'(2) by (simp add: bits_rep_def)
  qed
qed

lemma parts_ok: "part_ok (\<lambda>_. v) (\<lambda>block first final. set_block_bits block first final v) (\<lambda>_. if v then one_block else 0 :: 'a :: len word)"
  "part_ok Not flip_block_bits (NOT :: 'a word \<Rightarrow> 'a word)"
  by (auto simp: part_ok_def set_block_bits_def flip_block_bits_def bit_simps bit_range_mask)

lemma flip_pos_rep:
  fixes b :: "'a :: len word dynamic_bitset"
  assumes "bits_rep b xs"
  shows "if pos < length xs then \<exists>b'. flip_pos pos b = Some b' \<and> bits_rep b' (xs[pos := \<not> xs ! pos]) else flip_pos pos b = None"
proof (cases "pos < length xs")
  case True
  let ?w = "LENGTH('a)"
  have k: "pos div ?w < length (m_blocks b)" by (rule bits_repD(4) [OF assms True])
  have "m_blocks b ! (pos div ?w) XOR bit_mask pos = (if \<not> xs ! pos then m_blocks b ! (pos div ?w) OR bit_mask pos else m_blocks b ! (pos div ?w) AND NOT (bit_mask pos))"
    using bits_repD(3) [OF assms, of pos] True k by (intro bit_word_eqI) (auto simp: block_bit_def bit_mask_def bit_index_def bit_simps)
  then have "flip_pos pos b = set_pos pos (\<not> xs ! pos) b" by (simp add: flip_pos_def set_pos_def block_index_def)
  then show ?thesis using set_pos_rep [OF assms, of pos "\<not> xs ! pos"] True by simp
next
  case False
  then show ?thesis using bits_repD(1) [OF assms] by (simp add: flip_pos_def)
qed

lemma test_rep:
  fixes b :: "'a :: len word dynamic_bitset"
  assumes "bits_rep b xs"
  shows "test pos b = (if pos < length xs then Some (xs ! pos) else None)"
proof (cases "pos < length xs")
  case True
  let ?w = "LENGTH('a)"
  have m: "x AND bit_mask pos \<noteq> 0 \<longleftrightarrow> bit x (pos mod ?w)" for x :: "'a word"
    by (simp add: bit_mask_def bit_index_def and_exp_eq_0_iff_not_bit)
  have "bit (m_blocks b ! (pos div ?w)) (pos mod ?w) = xs ! pos"
    using bits_repD(3) [OF assms, of pos] bits_repD(4) [OF assms True] True by (simp add: block_bit_def)
  then show ?thesis using True bits_repD(1) [OF assms] by (simp add: test_def block_index_def m)
next
  case False
  then show ?thesis using bits_repD(1) [OF assms] by (simp add: test_def)
qed

lemma test_set_rep:
  assumes "bits_rep b xs"
  shows "if pos < length xs then \<exists>b'. test_set pos v b = Some (xs ! pos, b') \<and> bits_rep b' (xs[pos := v]) else test_set pos v b = None"
proof (cases "pos < length xs")
  case True
  show ?thesis
  proof (cases "xs ! pos = v")
    case e: True
    then have "xs[pos := v] = xs" by (simp add: list_update_same_conv True)
    then show ?thesis using True e assms by (simp add: test_set_def test_rep [OF assms])
  next
    case False
    then show ?thesis using True set_pos_rep [OF assms, of pos v] by (auto simp: test_set_def test_rep [OF assms])
  qed
qed (simp add: test_set_def test_rep [OF assms])


text \<open>What a reference does is what the bit set does at its position.\<close>

lemma subscript_iff: "subscript pos b = Some r \<longleftrightarrow> pos < m_bits_number b \<and> r = \<lparr>m_block = block_index LENGTH('a) pos, m_mask = bit_mask pos\<rparr>"
  for b :: "'a :: len word dynamic_bitset"
  by (auto simp: subscript_def)

lemma ref_ops:
  assumes "subscript pos b = Some r"
  shows "Some (ref_set r b) = set_pos pos True b" "Some (ref_reset r b) = set_pos pos False b" "Some (ref_flip r b) = flip_pos pos b"
    and "Some (ref_bool r b) = test pos b" "ref_not r b \<longleftrightarrow> \<not> ref_bool r b"
  using assms unfolding subscript_iff
  by (simp_all add: ref_set_def ref_reset_def ref_flip_def ref_block_def ref_bool_def ref_not_def set_pos_def flip_pos_def test_def)

lemma ref_rep:
  assumes "bits_rep b xs" and "subscript pos b = Some r"
  shows "pos < length xs" "ref_bool r b = xs ! pos" "ref_not r b = (\<not> xs ! pos)"
    and "bits_rep (ref_assign r v b) (xs[pos := v])" and "bits_rep (ref_and r v b) (xs[pos := xs ! pos \<and> v])"
    and "bits_rep (ref_or r v b) (xs[pos := xs ! pos \<or> v])" and "bits_rep (ref_xor r v b) (xs[pos := xs ! pos \<noteq> v])"
    and "bits_rep (ref_minus r v b) (xs[pos := xs ! pos \<and> \<not> v])"
proof -
  note O = ref_ops [OF assms(2)]
  show p: "pos < length xs" using assms by (simp add: subscript_iff bits_repD(1))
  show g: "ref_bool r b = xs ! pos" using O(4) test_rep [OF assms(1), of pos] p by simp
  then show "ref_not r b = (\<not> xs ! pos)" using O(5) by simp
  have id: "xs[pos := xs ! pos] = xs" by simp
  have s: "bits_rep (ref_set r b) (xs[pos := True])" "bits_rep (ref_reset r b) (xs[pos := False])"
    using set_pos_rep [OF assms(1), of pos True] set_pos_rep [OF assms(1), of pos False] p O(1,2) [symmetric] by simp_all
  have f: "bits_rep (ref_flip r b) (xs[pos := \<not> xs ! pos])" using flip_pos_rep [OF assms(1), of pos] p O(3) [symmetric] by simp
  show "bits_rep (ref_assign r v b) (xs[pos := v])" using s by (cases v) (simp_all add: ref_assign_def)
  show "bits_rep (ref_and r v b) (xs[pos := xs ! pos \<and> v])" using s assms(1) by (cases v) (simp_all add: ref_and_def)
  show "bits_rep (ref_or r v b) (xs[pos := xs ! pos \<or> v])" using s assms(1) by (cases v) (simp_all add: ref_or_def)
  show "bits_rep (ref_xor r v b) (xs[pos := xs ! pos \<noteq> v])" using f assms(1) by (cases v) (simp_all add: ref_xor_def)
  show "bits_rep (ref_minus r v b) (xs[pos := xs ! pos \<and> \<not> v])" using s assms(1) by (cases v) (simp_all add: ref_minus_def)
qed

end
