(* ===== verification/BitsetQueries.thy ===== *)
theory BitsetQueries
  imports DynamicBitset
begin

text \<open>
  The queries of \<^verbatim>\<open>utils/dynamic_bitset.h\<close> on the list a bit set stands for: tests of all bits, counts,
  subsets, the search for set bits and the iteration over them, the order, and the conversions from
  and to text and numbers.
\<close>

unbundle bit_operations_syntax

subsection \<open>Queries\<close>

lemma word_nonzero_iff: "x \<noteq> 0 \<longleftrightarrow> (\<exists>k < LENGTH('a). bit x k)" for x :: "'a :: len word"
proof
  assume "\<exists>k < LENGTH('a). bit x k"
  then show "x \<noteq> 0" by auto
next
  assume "x \<noteq> 0"
  show "\<exists>k < LENGTH('a). bit x k"
  proof (rule ccontr)
    assume "\<not> (\<exists>k < LENGTH('a). bit x k)"
    then have "x = 0" by (intro bit_word_eqI) auto
    with \<open>x \<noteq> 0\<close> show False ..
  qed
qed

lemma nonzero_block_iff: "(\<exists>j < length B. B ! j \<noteq> 0) \<longleftrightarrow> (\<exists>i. block_bit B i)" for B :: "'a :: len word list"
proof
  assume "\<exists>j < length B. B ! j \<noteq> 0"
  then obtain j k where "j < length B" "k < LENGTH('a)" "bit (B ! j) k" by (auto simp: word_nonzero_iff)
  then show "\<exists>i. block_bit B i" using block_bit_at [of j B k] by blast
next
  assume "\<exists>i. block_bit B i"
  then obtain i where "i div LENGTH('a) < length B" "bit (B ! (i div LENGTH('a))) (i mod LENGTH('a))" by (auto simp: block_bit_def)
  then show "\<exists>j < length B. B ! j \<noteq> 0" by (auto intro!: exI [of _ "i div LENGTH('a)"])
qed

lemma any_bit_rep: "bits_rep b xs \<Longrightarrow> any_bit b \<longleftrightarrow> True \<in> set xs"
  using nonzero_block_iff [of "m_blocks b"] bits_repD(3) [of b xs]
  by (simp add: any_bit_def list_ex_iff in_set_conv_nth Bex_def) metis

lemma set_all_blocks:
  fixes b :: "'a :: len word dynamic_bitset"
  assumes "check_size b"
  shows "m_bits_number b = 0 \<or> (all_bits b \<longleftrightarrow> m_blocks b = m_blocks (set_all b))"
proof (cases "m_bits_number b = 0")
  case False
  let ?w = "LENGTH('a)" and ?B = "m_blocks b"
  show ?thesis
  proof (cases "m_bits_number b mod ?w = 0")
    case True
    have "list_all (\<lambda>x. x = one_block) ?B \<longleftrightarrow> ?B = map (\<lambda>_. one_block) ?B" by (simp add: list_eq_iff_nth_eq list_all_length)
    then show ?thesis using True False by (simp add: all_bits_def extra_bits_number_def bit_index_def set_all_def sanitize_def Let_def)
  next
    case m: False
    then have "?B \<noteq> []" using assms by (auto simp: check_size_def blocks_required_def)
    then obtain C y where B: "?B = C @ [y]" by (metis append_butlast_last_id)
    have e: "one_block AND NOT (push_bit k one_block) = drop_bit (?w - k) (one_block :: 'a word)" if "k < ?w" for k
      using that by (intro bit_word_eqI) (auto simp: bit_simps)
    have "C = map (\<lambda>_. one_block) C \<longleftrightarrow> list_all (\<lambda>x. x = one_block) C" by (simp add: list_eq_iff_nth_eq list_all_length)
    then show ?thesis using False m B e [of "m_bits_number b mod ?w"]
      by (simp add: all_bits_def extra_bits_number_def unused_bits_number_def bit_index_def set_all_def sanitize_def Let_def set_last_block_def last_block_def
        list_update_append nth_append)
  qed
qed simp

lemma all_bits_rep:
  assumes "bits_rep b xs"
  shows "all_bits b \<longleftrightarrow> False \<notin> set xs"
proof (cases "xs = []")
  case True
  then show ?thesis using bits_repD(1) [OF assms] by (simp add: all_bits_def)
next
  case False
  have "all_bits b \<longleftrightarrow> m_blocks b = m_blocks (set_all b)" using set_all_blocks [OF bits_repD(5) [OF assms]] bits_repD(1) [OF assms] False by simp
  also have "\<dots> \<longleftrightarrow> equal_bitset b (set_all b)"
    using bits_repD(1) [OF assms] bits_repD(1) [OF all_rep(1) [OF assms]] by (simp add: equal_bitset_def)
  also have "\<dots> \<longleftrightarrow> xs = replicate (length xs) True" by (rule equal_bitset_iff [OF assms all_rep(1) [OF assms]])
  also have "\<dots> \<longleftrightarrow> False \<notin> set xs" by (auto simp: list_eq_iff_nth_eq in_set_conv_nth)
  finally show ?thesis .
qed

lemma mask_test: "x AND push_bit k 1 \<noteq> 0 \<longleftrightarrow> bit x k" for x :: "'a :: len word"
  by (simp add: and_exp_eq_0_iff_not_bit)

lemma popcount_card: "builtin_popcount x = card {i. bit x i}" for x :: "'b :: len word"
proof -
  have "{i. bit x i} = set (filter (bit x) [0 ..< LENGTH('b)])" by (auto dest: bit_imp_le_length)
  moreover have "distinct (filter (bit x) [0 ..< LENGTH('b)])" by simp
  ultimately show ?thesis by (simp only: builtin_popcount_def distinct_card)
qed

lemma popcount_ucast: "LENGTH('a) \<le> LENGTH('b :: len) \<Longrightarrow> builtin_popcount (ucast x :: 'b word) = card {i. bit x i}" for x :: "'a :: len word"
proof -
  assume "LENGTH('a) \<le> LENGTH('b)"
  then have "bit x i \<Longrightarrow> i < LENGTH('b)" for i using bit_imp_le_length [of x i] by simp
  then have "{i. bit (ucast x :: 'b word) i} = {i. bit x i}" by (auto simp: bit_simps)
  then show ?thesis by (simp only: popcount_card)
qed

lemma finite_bits: "finite {i. bit x i}" for x :: "'a :: len word"
  by (rule finite_subset [of _ "{..< LENGTH('a)}"]) (auto dest: bit_imp_le_length)

lemma popcount_halves:
  fixes x :: "'a :: len word"
  assumes "LENGTH('a) \<le> 128"
  shows "builtin_popcount (ucast (drop_bit 64 x) :: 64 word) + builtin_popcount (ucast x :: 64 word) = card {i. bit x i}"
proof -
  have h: "{i. bit (ucast (drop_bit 64 x) :: 64 word) i} = {i. bit x (64 + i)}"
    using assms by (auto simp: bit_simps dest: bit_imp_le_length)
  have l: "{i. bit (ucast x :: 64 word) i} = {i. i < 64 \<and> bit x i}" by (auto simp: bit_simps)
  have "{i. bit x i} = (+) 64 ` {i. bit x (64 + i)} \<union> {i. i < 64 \<and> bit x i}"
  proof (intro set_eqI iffI)
    fix i assume "i \<in> {i. bit x i}"
    then show "i \<in> (+) 64 ` {i. bit x (64 + i)} \<union> {i. i < 64 \<and> bit x i}"
      by (cases "i < 64") (auto intro!: image_eqI [of _ _ "i - 64"])
  qed auto
  moreover have "card ((+) 64 ` {i. bit x (64 + i)} \<union> {i. i < 64 \<and> bit x i}) = card ((+) 64 ` {i. bit x (64 + i)}) + card {i. i < 64 \<and> bit x i}"
    using finite_bits [of x] by (intro card_Un_disjoint) (auto intro: finite_subset [of _ "{i. bit x i}"])
  ultimately show ?thesis unfolding popcount_card h l by (simp add: card_image)
qed

lemma mask_filter: "length (filter (\<lambda>i. x AND push_bit i 1 \<noteq> 0) [0 ..< LENGTH('a)]) = card {i. bit x i}" for x :: "'a :: len word"
  unfolding mask_test by (simp add: popcount_card [symmetric] builtin_popcount_def)

lemma block_count_card: "block_count x = card {i. bit x i}" for x :: "'a :: len word"
proof (cases "x = 0")
  case False
  then show ?thesis unfolding block_count_def mask_filter by (simp add: popcount_ucast popcount_halves)
qed (simp add: block_count_def)

lemma block_count_low_eq:
  fixes x :: "'a :: len word"
  assumes "e \<le> LENGTH('a)" and "\<And>i. e \<le> i \<Longrightarrow> \<not> bit x i"
  shows "block_count_low x e = block_count x"
proof -
  let ?s = "push_bit (LENGTH('a) - e) x"
  have "{i. bit ?s i} = (+) (LENGTH('a) - e) ` {i. bit x i}"
  proof (intro set_eqI iffI)
    fix i assume "i \<in> {i. bit ?s i}"
    then have "LENGTH('a) - e \<le> i" "bit x (i - (LENGTH('a) - e))" by (auto simp: bit_simps)
    then show "i \<in> (+) (LENGTH('a) - e) ` {i. bit x i}" by (intro image_eqI [of _ _ "i - (LENGTH('a) - e)"]) simp_all
  next
    fix i assume "i \<in> (+) (LENGTH('a) - e) ` {i. bit x i}"
    then obtain j where j: "i = LENGTH('a) - e + j" "bit x j" by auto
    then have "j < e" using assms(2) [of j] by (meson not_le)
    then show "i \<in> {i. bit ?s i}" using j assms(1) by (auto simp: bit_simps)
  qed
  then have c: "card {i. bit ?s i} = card {i. bit x i}" by (simp add: card_image)
  have low: "length (filter (\<lambda>i. x AND push_bit i 1 \<noteq> 0) [0 ..< e]) = card {i. bit x i}"
  proof -
    have "[0 ..< LENGTH('a)] = [0 ..< e] @ [e ..< LENGTH('a)]" using assms(1) upt_add_eq_append [of 0 e "LENGTH('a) - e"] by simp
    moreover have "filter (\<lambda>i. x AND push_bit i 1 \<noteq> 0) [e ..< LENGTH('a)] = []" unfolding mask_test using assms(2) by (simp add: filter_empty_conv)
    ultimately show ?thesis using mask_filter [of x] by simp
  qed
  show ?thesis
  proof (cases "?s = 0")
    case True
    then have "card {i. bit x i} = 0" using c by simp
    then show ?thesis using True by (simp add: block_count_low_def block_count_card)
  next
    case False
    then show ?thesis
      by (simp only: block_count_low_def Let_def block_count_card low c if_False popcount_ucast popcount_halves split: if_split) (simp add: popcount_ucast popcount_halves c)
  qed
qed

lemma count_bits_rep:
  fixes b :: "'a :: len word dynamic_bitset"
  assumes "bits_rep b xs"
  shows "count_bits b = length (filter (\<lambda>x. x) xs)"
proof (cases "xs = []")
  case True
  then show ?thesis using bits_repD(1) [OF assms] by (simp add: count_bits_def)
next
  case False
  note R = bits_repD [OF assms]
  let ?B = "m_blocks b" and ?w = "LENGTH('a)"
  have "?B \<noteq> []" using R(4) [of 0] False by auto
  then have B: "?B = butlast ?B @ [last_block b]" by (metis append_butlast_last_id last_block_def last_conv_nth)
  have "?w * length ?B \<ge> length xs" using blocks_required_len(1) [where n = "length xs" and 'a = 'a] R(2) by (simp add: mult.commute)
  then have c: "concat (map block_bools ?B) = xs @ replicate (length ?B * ?w - length xs) False"
    unfolding concat_blocks using R(3) by (intro nth_equalityI) (auto simp: nth_append mult.commute)
  have bc: "length (filter (\<lambda>x. x) (block_bools x)) = block_count x" for x :: "'a word"
    unfolding block_count_card popcount_card [symmetric] by (simp add: block_bools_def builtin_popcount_def filter_map comp_def)
  have f: "length (filter (\<lambda>x. x) (concat (map block_bools ys))) = sum_list (map block_count ys)" for ys :: "'a word list"
    by (induction ys) (simp_all add: bc)
  have "block_count_low (last_block b) (extra_bits_number b) = block_count (last_block b)" if "extra_bits_number b \<noteq> 0"
  proof (rule block_count_low_eq)
    have m: "m_bits_number b mod ?w > 0" using that by (simp add: extra_bits_number_def bit_index_def)
    have e: "extra_bits_number b = m_bits_number b mod ?w" by (simp add: extra_bits_number_def bit_index_def)
    show "extra_bits_number b \<le> ?w" by (simp add: e less_imp_le)
    fix i assume i: "extra_bits_number b \<le> i"
    have "check_unused_bits b" using assms by (simp add: bits_rep_iff check_consistency_def)
    then have "last_block b AND push_bit (extra_bits_number b) one_block = 0" using that by (simp add: check_unused_bits_def Let_def)
    then have "\<not> bit (last_block b AND push_bit (extra_bits_number b) one_block) i" by simp
    then show "\<not> bit (last_block b) i" using i bit_imp_le_length [of "last_block b" i] by (auto simp: bit_simps)
  qed
  then have "count_bits b = sum_list (map block_count (butlast ?B @ [last_block b]))" using False R(1) by (simp add: count_bits_def)
  also have "\<dots> = length (filter (\<lambda>x. x) (concat (map block_bools ?B)))" using f [of ?B] B by simp
  finally show ?thesis unfolding c by simp
qed

lemma blocks_disjoint_iff:
  fixes B C :: "'a :: len word list" and f :: "'a word \<Rightarrow> 'a word \<Rightarrow> 'a word"
  assumes "length B = length C" and "\<And>x y k. k < LENGTH('a) \<Longrightarrow> bit (f x y) k = g (bit x k) (bit y k)"
  shows "(\<forall>j < length B. f (B ! j) (C ! j) = 0) \<longleftrightarrow> (\<forall>i < length B * LENGTH('a). \<not> g (block_bit B i) (block_bit C i))"
proof -
  have "f x y = 0 \<longleftrightarrow> (\<forall>k < LENGTH('a). \<not> g (bit x k) (bit y k))" for x y
  proof -
    have "f x y = 0 \<longleftrightarrow> (\<forall>k < LENGTH('a). \<not> bit (f x y) k)" using word_nonzero_iff [of "f x y"] by blast
    then show ?thesis by (simp add: assms(2))
  qed
  then have "(\<forall>j < length B. f (B ! j) (C ! j) = 0) \<longleftrightarrow> (\<forall>j < length B. \<forall>k < LENGTH('a). \<not> g (bit (B ! j) k) (bit (C ! j) k))" by simp
  also have "\<dots> \<longleftrightarrow> (\<forall>i < length B * LENGTH('a). \<not> g (block_bit B i) (block_bit C i))"
  proof (intro iffI allI impI)
    fix i assume a: "\<forall>j < length B. \<forall>k < LENGTH('a). \<not> g (bit (B ! j) k) (bit (C ! j) k)" and "i < length B * LENGTH('a)"
    then have "i div LENGTH('a) < length B" by (simp add: div_less_iff)
    with a assms(1) show "\<not> g (block_bit B i) (block_bit C i)" by (simp add: block_bit_def)
  next
    fix j k assume a: "\<forall>i < length B * LENGTH('a). \<not> g (block_bit B i) (block_bit C i)" and j: "j < length B" and k: "k < LENGTH('a)"
    have "(j + 1) * LENGTH('a) \<le> length B * LENGTH('a)" using j by (intro mult_right_mono) simp_all
    then have "j * LENGTH('a) + k < length B * LENGTH('a)" using k unfolding distrib_right by linarith
    with a have "\<not> g (block_bit B (j * LENGTH('a) + k)) (block_bit C (j * LENGTH('a) + k))" by blast
    then show "\<not> g (bit (B ! j) k) (bit (C ! j) k)" using block_bit_at [OF j k] block_bit_at [of j C k] j k assms(1) by simp
  qed
  finally show ?thesis .
qed

lemma subset_rep:
  fixes b c :: "'a :: len word dynamic_bitset"
  assumes "bits_rep b xs" and "bits_rep c ys"
  shows "is_subset_of b c = (if length xs = length ys then Some (\<forall>i < length xs. xs ! i \<longrightarrow> ys ! i) else None)"
    and "is_proper_subset_of b c = (if length xs = length ys then Some ((\<forall>i < length xs. xs ! i \<longrightarrow> ys ! i) \<and> xs \<noteq> ys) else None)"
proof -
  note R = bits_repD [OF assms(1)] and S = bits_repD [OF assms(2)]
  let ?B = "m_blocks b" and ?C = "m_blocks c" and ?w = "LENGTH('a)"
  have a: "is_subset_of b c = Some (\<forall>i < length xs. xs ! i \<longrightarrow> ys ! i)
      \<and> is_proper_subset_of b c = Some ((\<forall>i < length xs. xs ! i \<longrightarrow> ys ! i) \<and> xs \<noteq> ys)" if e: "length xs = length ys"
  proof -
    have l: "length ?B = length ?C" using e R(2) S(2) by simp
    have le: "length xs \<le> length ?B * ?w" using blocks_required_len(1) [where n = "length xs" and 'a = 'a] R(2) by simp
    have lt: "(\<forall>i < length ?B * ?w. \<not> (i < length xs \<and> P i)) \<longleftrightarrow> (\<forall>i < length xs. \<not> P i)" for P using le by (meson less_le_trans)
    have s: "(\<forall>j < length ?B. ?B ! j AND NOT (?C ! j) = 0) \<longleftrightarrow> (\<forall>i < length xs. xs ! i \<longrightarrow> ys ! i)"
      using blocks_disjoint_iff [OF l, of "\<lambda>x y. x AND NOT y" "\<lambda>x y. x \<and> \<not> y"] R(3) S(3) e lt [of "\<lambda>i. xs ! i \<and> \<not> ys ! i"] by (auto simp: bit_simps)
    have t: "(\<forall>j < length ?B. NOT (?B ! j) AND ?C ! j = 0) \<longleftrightarrow> (\<forall>i < length xs. ys ! i \<longrightarrow> xs ! i)"
      using blocks_disjoint_iff [OF l, of "\<lambda>x y. NOT x AND y" "\<lambda>x y. \<not> x \<and> y"] R(3) S(3) e lt [of "\<lambda>i. ys ! i \<and> \<not> xs ! i"] by (auto simp: bit_simps)
    have "is_subset_of b c = Some (\<forall>j < length ?B. ?B ! j AND NOT (?C ! j) = 0)" using e R(1) S(1) by (simp add: is_subset_of_def list_all_iff Ball_def)
    moreover have "is_proper_subset_of b c = Some ((\<forall>j < length ?B. ?B ! j AND NOT (?C ! j) = 0) \<and> \<not> (\<forall>j < length ?B. NOT (?B ! j) AND ?C ! j = 0))"
      using e R(1) S(1) by (simp add: is_proper_subset_of_def list_all_iff list_ex_iff Ball_def Bex_def)
    moreover have ne: "(xs = ys) \<longleftrightarrow> (\<forall>i < length xs. xs ! i \<longrightarrow> ys ! i) \<and> (\<forall>i < length xs. ys ! i \<longrightarrow> xs ! i)"
      using e by (auto simp: list_eq_iff_nth_eq)
    moreover have "((\<forall>i < length xs. xs ! i \<longrightarrow> ys ! i) \<and> \<not> (\<forall>i < length xs. ys ! i \<longrightarrow> xs ! i)) \<longleftrightarrow> (\<forall>i < length xs. xs ! i \<longrightarrow> ys ! i) \<and> xs \<noteq> ys"
      unfolding ne by blast
    ultimately show ?thesis unfolding s t by (simp only: simp_thms)
  qed
  have b: "is_subset_of b c = None \<and> is_proper_subset_of b c = None" if "length xs \<noteq> length ys"
    using that R(1) S(1) by (simp add: is_subset_of_def is_proper_subset_of_def)
  show "is_subset_of b c = (if length xs = length ys then Some (\<forall>i < length xs. xs ! i \<longrightarrow> ys ! i) else None)"
    "is_proper_subset_of b c = (if length xs = length ys then Some ((\<forall>i < length xs. xs ! i \<longrightarrow> ys ! i) \<and> xs \<noteq> ys) else None)"
    using a b by simp_all
qed

lemma intersects_rep:
  fixes b c :: "'a :: len word dynamic_bitset"
  assumes "bits_rep b xs" and "bits_rep c ys"
  shows "intersects b c \<longleftrightarrow> (\<exists>i. i < length xs \<and> i < length ys \<and> xs ! i \<and> ys ! i)"
proof -
  note R = bits_repD [OF assms(1)] and S = bits_repD [OF assms(2)]
  define m where "m = min (length (m_blocks b)) (length (m_blocks c))"
  let ?B = "take m (m_blocks b)" and ?C = "take m (m_blocks c)"
  have l: "length ?B = m" "length ?C = m" by (simp_all add: m_def)
  have bb: "block_bit (m_blocks b) i \<and> block_bit (m_blocks c) i \<Longrightarrow> i < m * LENGTH('a)" for i
    using block_bit_inside [of "m_blocks b" i] block_bit_inside [of "m_blocks c" i] by (auto simp: m_def min_def)
  have "intersects b c \<longleftrightarrow> \<not> (\<forall>j < length ?B. ?B ! j AND ?C ! j = 0)" using l by (auto simp: intersects_def list_ex_iff m_def)
  also have "(\<forall>j < length ?B. ?B ! j AND ?C ! j = 0) \<longleftrightarrow> (\<forall>i < length ?B * LENGTH('a). \<not> (block_bit ?B i \<and> block_bit ?C i))"
    by (rule blocks_disjoint_iff) (simp_all only: l bit_and_iff)
  also have "(\<not> \<dots>) \<longleftrightarrow> (\<exists>i. block_bit (m_blocks b) i \<and> block_bit (m_blocks c) i)" unfolding l(1) using bb by (auto simp: block_bit_take)
  finally show ?thesis using R(3) S(3) by auto
qed


subsection \<open>Search and iteration\<close>

definition first_from :: "nat \<Rightarrow> bool list \<Rightarrow> nat" where
  "first_from lo xs = (if True \<in> set (drop lo xs) then lo + length (takeWhile Not (drop lo xs)) else npos)"

lemma takeWhile_Not:
  assumes "\<And>i. i < k \<Longrightarrow> \<not> xs ! i" and "k < length xs" and "xs ! k"
  shows "length (takeWhile Not xs) = k" and "True \<in> set xs"
proof -
  have "takeWhile Not xs = take k xs" using assms by (intro takeWhile_eq_take_P_nth) auto
  then show "length (takeWhile Not xs) = k" using assms(2) by simp
  show "True \<in> set xs" using assms(2,3) by (auto simp: in_set_conv_nth)
qed

text \<open>The least bit that is set.\<close>

definition low_bit :: "'a :: len word \<Rightarrow> nat \<Rightarrow> bool" where
  "low_bit x k \<longleftrightarrow> bit x k \<and> (\<forall>j < k. \<not> bit x j)"

lemma ctz_low_bit: "x \<noteq> 0 \<Longrightarrow> low_bit x (builtin_ctz x)" for x :: "'a :: len word"
proof -
  assume "x \<noteq> 0"
  then obtain k where k: "k < LENGTH('a)" "bit x k" by (auto simp: word_nonzero_iff)
  let ?p = "\<lambda>i. \<not> bit x i" and ?is = "[0 ..< LENGTH('a)]"
  have "takeWhile ?p ?is \<noteq> ?is" using k by (auto simp: takeWhile_eq_all_conv)
  then have l: "length (takeWhile ?p ?is) < length ?is" by (metis length_takeWhile_le le_neq_implies_less takeWhile_eq_take take_all order_refl)
  have lt: "builtin_ctz x < LENGTH('a)" using l by (simp add: builtin_ctz_def)
  have "bit x (builtin_ctz x)" using nth_length_takeWhile [OF l] lt by (simp add: builtin_ctz_def)
  moreover have "\<not> bit x j" if j: "j < builtin_ctz x" for j
  proof -
    have "takeWhile ?p ?is ! j \<in> set (takeWhile ?p ?is)" using j by (intro nth_mem) (simp add: builtin_ctz_def)
    then have "?p (takeWhile ?p ?is ! j)" by (auto dest: set_takeWhileD)
    then show ?thesis using j lt takeWhile_nth [of j ?p ?is] by (simp add: builtin_ctz_def)
  qed
  ultimately show ?thesis by (simp add: low_bit_def)
qed

lemma low_bit_ucast:
  fixes x :: "'a :: len word"
  assumes "(ucast x :: 'b :: len word) \<noteq> 0"
  shows "low_bit x (builtin_ctz (ucast x :: 'b word))"
  using ctz_low_bit [OF assms] bit_imp_le_length [of "ucast x :: 'b word" "builtin_ctz (ucast x :: 'b word)"] by (auto simp: low_bit_def bit_simps)

lemma ucast_up_nonzero: "LENGTH('a) \<le> LENGTH('b :: len) \<Longrightarrow> x \<noteq> 0 \<Longrightarrow> (ucast x :: 'b word) \<noteq> 0" for x :: "'a :: len word"
  unfolding word_nonzero_iff by (auto simp: bit_simps intro: less_le_trans)

lemma low_bit_high:
  fixes x :: "'a :: len word"
  assumes "(ucast x :: 64 word) = 0" and "x \<noteq> 0" and "LENGTH('a) \<le> 128"
  shows "low_bit x (builtin_ctz (ucast (drop_bit 64 x) :: 64 word) + 64)"
proof -
  have lo: "\<not> bit x j" if "j < 64" for j
  proof
    assume "bit x j"
    then have "bit (ucast x :: 64 word) j" using that by (simp add: bit_simps)
    then show False using assms(1) by simp
  qed
  obtain k where k: "bit x k" using assms(2) by (auto simp: word_nonzero_iff)
  then have "64 \<le> k" "k < 128" using k lo [of k] assms(3) bit_imp_le_length [OF k] by (simp_all add: not_less [symmetric]) blast
  then have "bit (ucast (drop_bit 64 x) :: 64 word) (k - 64)" using k by (simp add: bit_simps)
  then have "(ucast (drop_bit 64 x) :: 64 word) \<noteq> 0" by auto
  from low_bit_ucast [OF this] have h: "low_bit (drop_bit 64 x) (builtin_ctz (ucast (drop_bit 64 x) :: 64 word))" (is "low_bit _ ?c") .
  have "\<not> bit x j" if "j < ?c + 64" for j
  proof (cases "j < 64")
    case False
    then have "j - 64 < ?c" "64 + (j - 64) = j" using that by auto
    then show ?thesis using h by (metis bit_drop_bit_eq comp_apply low_bit_def)
  qed (rule lo)
  moreover have "bit x (?c + 64)" using h by (simp add: low_bit_def bit_simps add.commute)
  ultimately show ?thesis by (simp add: low_bit_def)
qed

lemma trailing_zeros:
  fixes x :: "'a :: len word"
  assumes "x \<noteq> 0"
  shows "bit x (count_block_trailing_zero x)" and "count_block_trailing_zero x < LENGTH('a)" and "\<And>j. j < count_block_trailing_zero x \<Longrightarrow> \<not> bit x j"
proof -
  have m: "(x AND push_bit i 1 = 0) \<longleftrightarrow> \<not> bit x i" for i using mask_test [of x i] by blast
  have "low_bit x (count_block_trailing_zero x)"
    using assms unfolding count_block_trailing_zero_def m builtin_ctz_def [of x, symmetric]
    by (simp add: low_bit_ucast ucast_up_nonzero low_bit_high ctz_low_bit)
  then show "bit x (count_block_trailing_zero x)" and "\<And>j. j < count_block_trailing_zero x \<Longrightarrow> \<not> bit x j" by (auto simp: low_bit_def)
  then show "count_block_trailing_zero x < LENGTH('a)" by (metis bit_imp_le_length)
qed

lemma find_from_spec:
  fixes B :: "'a :: len word list"
  shows "(\<exists>t. find_from i0 B = i0 * LENGTH('a) + t \<and> block_bit B t \<and> (\<forall>j < t. \<not> block_bit B j)) \<or> find_from i0 B = npos \<and> (\<forall>j. \<not> block_bit B j)"
proof (induction B arbitrary: i0)
  case (Cons x B)
  let ?w = "LENGTH('a)"
  have bb: "block_bit (x # B) j = (if j < ?w then bit x j else block_bit B (j - ?w))" for j
    using block_bit_append [of "[x]" B j] by (simp add: block_bit_single)
  show ?case
  proof (cases "x = 0")
    case False
    note T = trailing_zeros [OF False]
    have "\<not> block_bit (x # B) j" if "j < count_block_trailing_zero x" for j using T(2) T(3) [OF that] that by (simp add: bb)
    moreover have "block_bit (x # B) (count_block_trailing_zero x)" unfolding bb using T(1,2) by simp
    ultimately show ?thesis using False by (intro disjI1 exI [of _ "count_block_trailing_zero x"]) simp
  next
    case True
    from Cons.IH [of "Suc i0"] show ?thesis
    proof
      assume "\<exists>t. find_from (Suc i0) B = Suc i0 * ?w + t \<and> block_bit B t \<and> (\<forall>j < t. \<not> block_bit B j)"
      then obtain t where t: "find_from (Suc i0) B = Suc i0 * ?w + t" "block_bit B t" "\<forall>j < t. \<not> block_bit B j" by blast
      have "\<not> block_bit (x # B) j" if "j < ?w + t" for j unfolding bb using t(3) that True by auto
      moreover have "block_bit (x # B) (?w + t)" unfolding bb using t(2) by simp
      ultimately show ?thesis using True t(1) by (intro disjI1 exI [of _ "?w + t"]) simp
    next
      assume "find_from (Suc i0) B = npos \<and> (\<forall>j. \<not> block_bit B j)"
      then show ?thesis unfolding bb using True by (intro disjI2) simp
    qed
  qed
qed simp

lemma first_fromI:
  assumes "lo \<le> k" and "k < length xs" and "xs ! k" and "\<And>i. lo \<le> i \<Longrightarrow> i < k \<Longrightarrow> \<not> xs ! i"
  shows "first_from lo xs = k"
proof -
  have "\<not> drop lo xs ! i" if "i < k - lo" for i using that assms(1,2) assms(4) [of "lo + i"] by simp
  then have "length (takeWhile Not (drop lo xs)) = k - lo" "True \<in> set (drop lo xs)"
    using takeWhile_Not [of "k - lo" "drop lo xs"] assms(1,2,3) by simp_all
  then show ?thesis using assms(1) by (simp add: first_from_def)
qed

lemma first_from_none: "(\<And>i. lo \<le> i \<Longrightarrow> i < length xs \<Longrightarrow> \<not> xs ! i) \<Longrightarrow> first_from lo xs = npos"
  by (auto simp: first_from_def in_set_conv_nth)

lemma find_first_rep: "bits_rep b xs \<Longrightarrow> find_first b = first_from 0 xs" for b :: "'a :: len word dynamic_bitset"
proof -
  assume b: "bits_rep b xs"
  note R = bits_repD(3) [OF b]
  from find_from_spec [of 0 "m_blocks b"] show ?thesis
  proof
    assume "\<exists>t. find_from 0 (m_blocks b) = 0 * LENGTH('a) + t \<and> block_bit (m_blocks b) t \<and> (\<forall>j < t. \<not> block_bit (m_blocks b) j)"
    then obtain t where "find_from 0 (m_blocks b) = t" "t < length xs" "xs ! t" "\<forall>j < t. \<not> xs ! j" unfolding R by auto
    then show ?thesis using first_fromI [of 0 t xs] by (simp add: find_first_def)
  next
    assume "find_from 0 (m_blocks b) = npos \<and> (\<forall>j. \<not> block_bit (m_blocks b) j)"
    then show ?thesis unfolding R using first_from_none [of 0 xs] by (simp add: find_first_def)
  qed
qed

lemma block_bit_drop: "block_bit (drop n B) i = block_bit B (n * LENGTH('a) + i)" for B :: "'a :: len word list"
  by (auto simp: block_bit_def)

lemma find_next_rep:
  fixes b :: "'a :: len word dynamic_bitset"
  assumes "bits_rep b xs"
  shows "find_next prev b = first_from (Suc prev) xs"
proof (cases "prev + 1 < length xs")
  case False
  then have "m_bits_number b = 0 \<or> prev \<ge> m_bits_number b - 1" using bits_repD(1) [OF assms] by auto
  moreover have "first_from (Suc prev) xs = npos" using False by (intro first_from_none) simp
  ultimately show ?thesis by (simp add: find_next_def)
next
  case True
  note R = bits_repD [OF assms]
  let ?w = "LENGTH('a)" and ?p = "prev + 1"
  let ?k = "?p div ?w" and ?m = "?p mod ?w"
  define x where "x = drop_bit ?m (m_blocks b ! ?k)"
  have d: "?p = ?k * ?w + ?m" "?m < ?w" by simp_all
  have k: "?k < length (m_blocks b)" using R(4) [OF True] .
  have def: "find_next prev b = (if x \<noteq> 0 then ?p + count_block_trailing_zero x else find_from (?k + 1) (drop (?k + 1) (m_blocks b)))"
  proof -
    have "(m_bits_number b = 0 \<or> prev \<ge> m_bits_number b - 1) = False" using True R(1) by auto
    then show ?thesis unfolding find_next_def Let_def block_index_def bit_index_def x_def by (simp only: if_False)
  qed
  have xb: "bit x j = block_bit (m_blocks b) (?p + j)" if "?m + j < ?w" for j
  proof -
    have "?p + j = ?k * ?w + (?m + j)" using d(1) by linarith
    then show ?thesis using block_bit_decomp [OF that, of "m_blocks b" ?k] k by (simp add: x_def bit_simps)
  qed
  show ?thesis
  proof (cases "x = 0")
    case False
    note T = trailing_zeros [OF False]
    let ?t = "count_block_trailing_zero x"
    have t: "?m + ?t < ?w" using T(1) bit_imp_le_length [of "m_blocks b ! ?k" "?m + ?t"] by (simp add: x_def bit_simps)
    have "first_from (Suc prev) xs = ?p + ?t"
    proof (rule first_fromI)
      show "?p + ?t < length xs" "xs ! (?p + ?t)" using T(1) xb [OF t] R(3) [of "?p + ?t"] by simp_all
      fix i assume i: "Suc prev \<le> i" "i < ?p + ?t"
      then have "i = ?p + (i - ?p)" "i - ?p < ?t" by simp_all
      then show "\<not> xs ! i" using T(3) [of "i - ?p"] xb [of "i - ?p"] t R(3) [of i] i \<open>?p + ?t < length xs\<close> by simp
    qed simp
    then show ?thesis using False def by simp
  next
    case zero: True
    have z: "\<not> block_bit (m_blocks b) i" if i: "?p \<le> i" "i < (?k + 1) * ?w" for i
    proof -
      have "?m + (i - ?p) < ?w" using i d unfolding distrib_right by linarith
      then show ?thesis using xb [of "i - ?p"] zero i(1) by simp
    qed
    have bd: "block_bit (drop (?k + 1) (m_blocks b)) j = block_bit (m_blocks b) ((?k + 1) * ?w + j)" for j by (rule block_bit_drop)
    have pk: "?p \<le> (?k + 1) * ?w" using d unfolding distrib_right by linarith
    from find_from_spec [of "?k + 1" "drop (?k + 1) (m_blocks b)"] show ?thesis
    proof
      assume "\<exists>t. find_from (?k + 1) (drop (?k + 1) (m_blocks b)) = (?k + 1) * ?w + t \<and> block_bit (drop (?k + 1) (m_blocks b)) t
        \<and> (\<forall>j < t. \<not> block_bit (drop (?k + 1) (m_blocks b)) j)"
      then obtain t where t: "find_from (?k + 1) (drop (?k + 1) (m_blocks b)) = (?k + 1) * ?w + t" "block_bit (m_blocks b) ((?k + 1) * ?w + t)"
        "\<forall>j < t. \<not> block_bit (m_blocks b) ((?k + 1) * ?w + j)" unfolding bd by blast
      have "first_from (Suc prev) xs = (?k + 1) * ?w + t"
      proof (rule first_fromI)
        show "Suc prev \<le> (?k + 1) * ?w + t" using pk by linarith
        show l: "(?k + 1) * ?w + t < length xs" "xs ! ((?k + 1) * ?w + t)" using t(2) R(3) by blast+
        fix i assume i: "Suc prev \<le> i" "i < (?k + 1) * ?w + t"
        have "\<not> block_bit (m_blocks b) i"
        proof (cases "i < (?k + 1) * ?w")
          case True
          then show ?thesis using z i(1) by simp
        next
          case False
          then have "i = (?k + 1) * ?w + (i - (?k + 1) * ?w)" "i - (?k + 1) * ?w < t" using i(2) by linarith+
          then show ?thesis using t(3) by metis
        qed
        then show "\<not> xs ! i" using R(3) [of i] i(2) l(1) by simp
      qed
      then show ?thesis using zero def t(1) by simp
    next
      assume n: "find_from (?k + 1) (drop (?k + 1) (m_blocks b)) = npos \<and> (\<forall>j. \<not> block_bit (drop (?k + 1) (m_blocks b)) j)"
      have "\<not> block_bit (m_blocks b) i" if "Suc prev \<le> i" for i
      proof (cases "i < (?k + 1) * ?w")
        case False
        then have "i = (?k + 1) * ?w + (i - (?k + 1) * ?w)" by linarith
        then show ?thesis using n unfolding bd by metis
      qed (use z that in simp)
      then have "first_from (Suc prev) xs = npos" using R(3) by (intro first_from_none) blast
      then show ?thesis using zero def n by simp
    qed
  qed
qed


text \<open>What the iteration does, on the list of the positions of set bits.\<close>

fun visit_while :: "(nat \<Rightarrow> 's \<Rightarrow> bool \<times> 's) \<Rightarrow> nat list \<Rightarrow> 's \<Rightarrow> 's" where
  "visit_while f [] s = s"
| "visit_while f (i # is) s = (if fst (f i s) then visit_while f is (snd (f i s)) else snd (f i s))"

lemma first_from_cases:
  "(\<exists>k. lo \<le> k \<and> k < length xs \<and> xs ! k \<and> first_from lo xs = k \<and> filter ((!) xs) [lo ..< length xs] = k # filter ((!) xs) [Suc k ..< length xs])
   \<or> first_from lo xs = npos \<and> filter ((!) xs) [lo ..< length xs] = []"
proof (cases "\<exists>i. lo \<le> i \<and> i < length xs \<and> xs ! i")
  case False
  then have "filter ((!) xs) [lo ..< length xs] = []" by (auto simp: filter_empty_conv)
  moreover have "first_from lo xs = npos" using False by (intro first_from_none) blast
  ultimately show ?thesis by blast
next
  case True
  define k where "k = (LEAST i. lo \<le> i \<and> i < length xs \<and> xs ! i)"
  have k: "lo \<le> k" "k < length xs" "xs ! k" using LeastI_ex [OF True] by (simp_all add: k_def)
  have n: "\<not> xs ! i" if "lo \<le> i" "i < k" for i
    using not_less_Least [of i "\<lambda>i. lo \<le> i \<and> i < length xs \<and> xs ! i"] that k(2) by (auto simp: k_def [symmetric])
  have "[lo ..< length xs] = [lo ..< k] @ k # [Suc k ..< length xs]"
    using k upt_add_eq_append [of lo k "length xs - k"] upt_conv_Cons [of k "length xs"] by simp
  moreover have "filter ((!) xs) [lo ..< k] = []" using n by (auto simp: filter_empty_conv)
  ultimately show ?thesis using k first_fromI [OF k n] by auto
qed

lemma iterate_rep:
  assumes "bits_rep b xs" and "length xs \<le> npos"
  shows "iterate_bits_on f b s = Some (visit_while f (filter ((!) xs) [0 ..< length xs]) s)"
proof -
  have "iterate_from f b (first_from lo xs) s = Some (visit_while f (filter ((!) xs) [lo ..< length xs]) s)" for lo s
  proof (induction "length xs - lo" arbitrary: lo s rule: less_induct)
    case less
    from first_from_cases [of lo xs] show ?case
    proof
      assume "\<exists>k. lo \<le> k \<and> k < length xs \<and> xs ! k \<and> first_from lo xs = k \<and> filter ((!) xs) [lo ..< length xs] = k # filter ((!) xs) [Suc k ..< length xs]"
      then obtain k where k: "lo \<le> k" "k < length xs" "first_from lo xs = k" "filter ((!) xs) [lo ..< length xs] = k # filter ((!) xs) [Suc k ..< length xs]" by blast
      have "k \<noteq> npos" using k(2) assms(2) by simp
      moreover have "length xs - Suc k < length xs - lo" using k(1,2) by simp
      note ih = less [OF this]
      ultimately show ?thesis unfolding k(3,4) by (subst iterate_from.simps) (simp add: find_next_rep [OF assms(1)] ih)
    next
      assume "first_from lo xs = npos \<and> filter ((!) xs) [lo ..< length xs] = []"
      then show ?thesis by (simp add: iterate_from.simps)
    qed
  qed
  then show ?thesis by (simp add: iterate_bits_on_def find_first_rep [OF assms(1)])
qed

subsection \<open>Order\<close>

definition bits_val :: "bool list \<Rightarrow> nat" where
  "bits_val xs = horner_sum of_bool 2 xs"

fun blocks_val :: "'a :: len word list \<Rightarrow> nat" where
  "blocks_val [] = 0"
| "blocks_val (x # xs) = unat x + 2 ^ LENGTH('a) * blocks_val xs"

lemma block_bools_val: "bits_val (block_bools x) = unat x" for x :: "'a :: len word"
proof -
  have "block_bools x = map (bit (unat x)) [0 ..< LENGTH('a)]" by (simp add: block_bools_def bit_unsigned_iff)
  then show ?thesis using unsigned_less [of x] by (simp add: bits_val_def horner_sum_bit_eq_take_bit take_bit_nat_eq_self)
qed

lemma bits_val_append: "bits_val (xs @ ys) = bits_val xs + 2 ^ length xs * bits_val ys"
  by (simp add: bits_val_def horner_sum_append)

lemma bits_val_zeros: "bits_val (replicate n False) = 0"
  by (induction n) (simp_all add: bits_val_def)

lemma blocks_val_bits: "blocks_val xs = bits_val (concat (map block_bools xs))"
proof (induction xs)
  case (Cons x xs)
  then show ?case by (simp add: bits_val_append block_bools_val)
qed (simp add: bits_val_def)

lemma blocks_val_append: "blocks_val (xs @ ys) = blocks_val xs + 2 ^ (LENGTH('a) * length xs) * blocks_val ys" for xs :: "'a :: len word list"
  by (induction xs) (simp_all add: algebra_simps power_add)

lemma blocks_val_less: "blocks_val xs < 2 ^ (LENGTH('a) * length xs)" for xs :: "'a :: len word list"
proof (induction xs)
  case (Cons x xs)
  have "unat x < 2 ^ LENGTH('a)" by (rule unsigned_less)
  moreover have "2 ^ LENGTH('a) * (blocks_val xs + 1) \<le> 2 ^ LENGTH('a) * 2 ^ (LENGTH('a) * length xs)" using Cons by (intro mult_left_mono) simp_all
  moreover have "2 ^ LENGTH('a) * (blocks_val xs + 1) = 2 ^ LENGTH('a) * blocks_val xs + 2 ^ LENGTH('a)" by simp
  moreover have "(2 :: nat) ^ (LENGTH('a) * length (x # xs)) = 2 ^ LENGTH('a) * 2 ^ (LENGTH('a) * length xs)" by (simp add: power_add)
  ultimately show ?case unfolding blocks_val.simps by linarith
qed simp

lemma bits_rep_val:
  fixes b :: "'a :: len word dynamic_bitset"
  assumes "bits_rep b xs"
  shows "blocks_val (m_blocks b) = bits_val xs"
proof -
  note R = bits_repD [OF assms]
  let ?n = "length (m_blocks b) * LENGTH('a)"
  have "length xs \<le> ?n" using blocks_required_len(1) [where n = "length xs" and 'a = 'a] R(2) by simp
  then have "concat (map block_bools (m_blocks b)) = xs @ replicate (?n - length xs) False"
    unfolding concat_blocks using R(3) by (intro nth_equalityI) (auto simp: nth_append)
  then show ?thesis by (simp add: blocks_val_bits bits_val_append bits_val_zeros)
qed

lemma top_block_less:
  fixes a b c d m :: nat
  assumes "a < m" and "b < m"
  shows "a + m * c < b + m * d \<longleftrightarrow> c < d \<or> c = d \<and> a < b" and "a + m * c = b + m * d \<longleftrightarrow> c = d \<and> a = b"
proof -
  have l: "x + m * p < y + m * q" if "x < m" "y < m" "p < q" for x y p q :: nat
  proof -
    have "m * (p + 1) \<le> m * q" using that by (intro mult_left_mono) simp_all
    then show ?thesis using that by simp
  qed
  consider "c < d" "a + m * c < b + m * d" | "c = d" | "d < c" "b + m * d < a + m * c" using l [OF assms, of c d] l [OF assms(2,1), of d c] by linarith
  then have "(a + m * c < b + m * d \<longleftrightarrow> c < d \<or> c = d \<and> a < b) \<and> (a + m * c = b + m * d \<longleftrightarrow> c = d \<and> a = b)"
    by cases (simp_all only: less_not_sym less_irrefl less_imp_neq simp_thms not_less_iff_gr_or_eq, simp_all)
  then show "a + m * c < b + m * d \<longleftrightarrow> c < d \<or> c = d \<and> a < b" "a + m * c = b + m * d \<longleftrightarrow> c = d \<and> a = b" by simp_all
qed

lemma less_from_val:
  assumes "k < length l" and "k < length r"
  shows "less_from k l r d \<longleftrightarrow> blocks_val (take (Suc k) l) < blocks_val (take (Suc k) r) \<or> blocks_val (take (Suc k) l) = blocks_val (take (Suc k) r) \<and> d"
  using assms
proof (induction k)
  case 0
  then show ?case by (cases l; cases r) (auto simp: word_less_nat_alt word_unat_eq_iff)
next
  case (Suc k)
  let ?l = "take (Suc k) l" and ?r = "take (Suc k) r" and ?m = "2 ^ (LENGTH('a) * Suc k) :: nat"
  have b: "blocks_val ?l < ?m" "blocks_val ?r < ?m"
    using blocks_val_less [of ?l] blocks_val_less [of ?r] Suc.prems by (simp_all add: min_def)
  have e: "blocks_val (take (Suc (Suc k)) xs) = blocks_val (take (Suc k) xs) + ?m * unat (xs ! Suc k)" if "Suc k < length xs" for xs :: "'a word list"
    using that by (simp add: take_Suc_conv_app_nth [of "Suc k"] blocks_val_append min_def)
  show ?case unfolding e [OF Suc.prems(1)] e [OF Suc.prems(2)] top_block_less [OF b]
    using Suc by (auto simp: word_less_nat_alt word_unat_eq_iff)
qed

lemma high_zero:
  assumes "\<forall>i. m \<le> i \<and> i < length B \<longrightarrow> B ! i = 0"
  shows "blocks_val B = blocks_val (take m B)"
proof -
  have "drop m B = replicate (length B - m) 0" using assms by (intro nth_equalityI) simp_all
  moreover have "blocks_val (replicate n (0 :: 'a :: len word)) = 0" for n by (induction n) simp_all
  ultimately have "blocks_val (take m B @ drop m B) = blocks_val (take m B)" by (simp add: blocks_val_append)
  then show ?thesis by simp
qed

lemma high_nonzero:
  fixes B C :: "'a :: len word list"
  assumes "m \<le> i" and "i < length B" and "B ! i \<noteq> 0" and "length C \<le> m"
  shows "blocks_val C < blocks_val B"
proof -
  have "blocks_val C < 2 ^ (LENGTH('a) * length C)" by (rule blocks_val_less)
  also have "\<dots> \<le> 2 ^ (LENGTH('a) * i)" using assms(1,4) by (intro power_increasing) simp_all
  also have "\<dots> \<le> 2 ^ (LENGTH('a) * i) * unat (B ! i)" using assms(3) by (simp add: unat_gt_0 Suc_le_eq)
  also have "\<dots> \<le> blocks_val (take (Suc i) B)" using assms(2) by (simp add: take_Suc_conv_app_nth blocks_val_append min_def)
  also have "\<dots> \<le> blocks_val B" using blocks_val_append [of "take (Suc i) B" "drop (Suc i) B"] by simp
  finally show ?thesis .
qed

lemma less_bitset_rep:
  assumes "bits_rep b xs" and "bits_rep c ys"
  shows "less_bitset b c \<longleftrightarrow> bits_val xs < bits_val ys \<or> bits_val xs = bits_val ys \<and> length xs < length ys"
proof -
  note R = bits_repD [OF assms(1)] and S = bits_repD [OF assms(2)]
  let ?B = "m_blocks b" and ?C = "m_blocks c"
  have V: "blocks_val ?B = bits_val xs" "blocks_val ?C = bits_val ys" using assms by (simp_all add: bits_rep_val)
  have ne: "?B \<noteq> []" if "xs \<noteq> []" using R(4) [of 0] that by auto
  have nf: "?C \<noteq> []" if "ys \<noteq> []" using S(4) [of 0] that by auto
  have z: "bits_val [] = 0" by (simp add: bits_val_def)
  consider "length xs = length ys" "xs = []" | "length xs = length ys" "xs \<noteq> []" | "length xs \<noteq> length ys" "xs = []" | "length xs \<noteq> length ys" "ys = []"
    | "length xs \<noteq> length ys" "xs \<noteq> []" "ys \<noteq> []" by blast
  then show ?thesis
  proof cases
    case 1
    then show ?thesis using R(1) S(1) by (simp add: less_bitset_def)
  next
    case 2
    have l: "length ?B = length ?C" using R(2) S(2) 2(1) by simp
    have l0: "0 < length ?B" using ne 2(2) by simp
    have "length ys \<noteq> 0" by (metis 2 length_0_conv)
    then have "less_bitset b c = less_from (length ?B - 1) ?B ?C False" using R(1) S(1) 2(1) by (simp add: less_bitset_def)
    then show ?thesis using less_from_val [of "length ?B - 1" ?B ?C False] l l0 2(1) V by simp
  next
    case 3
    then show ?thesis using R(1) S(1) z by (auto simp: less_bitset_def)
  next
    case 4
    then show ?thesis using R(1) S(1) z by (auto simp: less_bitset_def)
  next
    case 5
    define m where "m = min (length ?B) (length ?C)"
    have m: "0 < m" using ne nf 5 by (simp add: m_def)
    have m: "0 < m" "m - 1 < length ?B" "m - 1 < length ?C" "Suc (m - 1) = m" using m unfolding m_def by linarith+
    have mono: "length ?B \<le> length ?C" if "length xs < length ys"
      using that unfolding R(2) S(2) by (intro blocks_required_mono) simp
    have mono': "length ?C \<le> length ?B" if "length ys < length xs"
      using that unfolding R(2) S(2) by (intro blocks_required_mono) simp
    let ?L = "if length xs < length ys then ?C else ?B"
    have def: "less_bitset b c = (if \<exists>i. m \<le> i \<and> i < max (length ?B) (length ?C) \<and> ?L ! i \<noteq> 0 then length xs < length ys
        else less_from (m - 1) ?B ?C (length xs < length ys))"
    proof -
      have ex: "list_ex (\<lambda>i. ?L ! i \<noteq> 0) (rev [m ..< max (length ?B) (length ?C)]) \<longleftrightarrow> (\<exists>i. m \<le> i \<and> i < max (length ?B) (length ?C) \<and> ?L ! i \<noteq> 0)"
        unfolding list_ex_iff set_rev set_upt by (simp only: Bex_def atLeastLessThan_iff conj_assoc)
      have "less_bitset b c = (if list_ex (\<lambda>i. ?L ! i \<noteq> 0) (rev [m ..< max (length ?B) (length ?C)]) then length xs < length ys
          else less_from (m - 1) ?B ?C (length xs < length ys))"
        using 5 by (simp only: less_bitset_def Let_def R(1) S(1) m_def length_0_conv simp_thms if_False if_True)
      then show ?thesis unfolding ex .
    qed
    show ?thesis
    proof (cases "length xs < length ys")
      case True
      then have B: "m = length ?B" "max (length ?B) (length ?C) = length ?C" using mono by (simp_all add: m_def)
      show ?thesis
      proof (cases "\<exists>i. m \<le> i \<and> i < length ?C \<and> ?C ! i \<noteq> 0")
        case e: True
        then have "bits_val xs < bits_val ys" using high_nonzero [of m _ ?C ?B] B V by auto
        then show ?thesis using def e B True by simp
      next
        case False
        then have "blocks_val (take m ?C) = bits_val ys" using high_zero [of m ?C] V by simp
        moreover have "blocks_val (take m ?B) = bits_val xs" using B V by simp
        ultimately show ?thesis using def False True B(2) less_from_val [OF m(2,3), of True] m(4) by auto
      qed
    next
      case False
      then have gt: "length ys < length xs" using 5 by simp
      then have B: "m = length ?C" "max (length ?B) (length ?C) = length ?B" using mono' by (simp_all add: m_def)
      show ?thesis
      proof (cases "\<exists>i. m \<le> i \<and> i < length ?B \<and> ?B ! i \<noteq> 0")
        case e: True
        then have "bits_val ys < bits_val xs" using high_nonzero [of m _ ?B ?C] B V by auto
        then show ?thesis using def e B False by simp
      next
        case n: False
        then have "blocks_val (take m ?B) = bits_val xs" using high_zero [of m ?B] V by simp
        moreover have "blocks_val (take m ?C) = bits_val ys" using B V by simp
        ultimately show ?thesis using def n False B(2) less_from_val [OF m(2,3), of False] m(4) by auto
      qed
    qed
  qed
qed


subsection \<open>Text\<close>

lemma string_bits:
  fixes x :: "'a :: len word"
  assumes "length str = len" and "k + ib * LENGTH('a) \<le> len"
  shows "fold (string_bit len ib x one) [0 ..< k] (str, 1) =
    (map (\<lambda>p. if ib * LENGTH('a) \<le> len - 1 - p \<and> len - 1 - p < ib * LENGTH('a) + k \<and> bit x (len - 1 - p - ib * LENGTH('a)) then one else str ! p) [0 ..< len], push_bit k 1)"
  using assms(2)
proof (induction k)
  case 0
  have "(ib * LENGTH('a) \<le> len - 1 - p \<and> len - 1 - p < ib * LENGTH('a) + 0 \<and> b) = False" for p b by auto
  then have "map (\<lambda>p. if ib * LENGTH('a) \<le> len - 1 - p \<and> len - 1 - p < ib * LENGTH('a) + 0 \<and> bit x (len - 1 - p - ib * LENGTH('a)) then one else str ! p) [0 ..< len] = str"
    unfolding assms(1) [symmetric] by (simp only: if_False map_nth)
  then show ?case by (simp only: upt_conv_Nil order_refl fold_simps id_apply push_bit_0_id)
next
  case (Suc k)
  let ?w = "LENGTH('a)"
  let ?g = "\<lambda>k. map (\<lambda>p. if ib * ?w \<le> len - 1 - p \<and> len - 1 - p < ib * ?w + k \<and> bit x (len - 1 - p - ib * ?w) then one else str ! p) [0 ..< len]"
  let ?p = "len - (ib * ?w + k + 1)"
  have p: "?p < len" "len - 1 - ?p = ib * ?w + k" "\<And>q. q < len \<Longrightarrow> len - 1 - q = ib * ?w + k \<longleftrightarrow> q = ?p" using Suc.prems by auto
  have "(if bit x k then (?g k)[?p := one] else ?g k) = ?g (Suc k)"
  proof (rule nth_equalityI)
    fix q assume "q < length (if bit x k then (?g k)[?p := one] else ?g k)"
    then have q: "q < len" by (simp split: if_splits)
    show "(if bit x k then (?g k)[?p := one] else ?g k) ! q = ?g (Suc k) ! q"
    proof (cases "q = ?p")
      case True
      then show ?thesis using q p(1,2) by simp
    next
      case False
      then have "len - 1 - q < ib * ?w + Suc k \<longleftrightarrow> len - 1 - q < ib * ?w + k" using p(3) [OF q] by linarith
      then show ?thesis using q False by (simp add: nth_list_update)
    qed
  qed simp
  moreover have "fold (string_bit len ib x one) [0 ..< Suc k] (str, 1) = string_bit len ib x one k (fold (string_bit len ib x one) [0 ..< k] (str, 1))" by simp
  moreover have "fold (string_bit len ib x one) [0 ..< k] (str, 1) = (?g k, push_bit k 1)" using Suc by linarith
  moreover have "push_bit 1 (push_bit k 1) = (push_bit (Suc k) 1 :: 'a word)" by simp
  moreover have "string_bit len ib x one k (?g k, push_bit k 1) = (if bit x k then (?g k)[?p := one] else ?g k, push_bit 1 (push_bit k 1))"
    by (simp only: string_bit_def mask_test prod.case)
  ultimately show ?case by presburger
qed

lemma bitset_string_rep:
  fixes b :: "'a :: len word dynamic_bitset"
  assumes "bits_rep b xs"
  shows "bitset_string zero one b = rev (map (\<lambda>x. if x then one else zero) xs)"
proof -
  note R = bits_repD [OF assms]
  let ?w = "LENGTH('a)" and ?B = "m_blocks b" and ?n = "length xs"
  let ?g = "\<lambda>m. map (\<lambda>p. if block_bit (take m ?B) (?n - 1 - p) then one else zero) [0 ..< ?n]"
  have "fold (string_block ?n one ?B) [0 ..< m] (replicate ?n zero) = ?g m" if "m \<le> length ?B" for m
    using that
  proof (induction m)
    case 0
    show ?case by (simp add: map_replicate_const)
  next
    case (Suc m)
    have mw: "m * ?w < ?n"
    proof -
      have "(m + 1) * ?w \<le> length ?B * ?w" using Suc.prems by (intro mult_right_mono) simp_all
      then show ?thesis unfolding distrib_right using blocks_required_len(2) [where n = ?n and 'a = 'a] R(2) by simp
    qed
    have tk: "block_bit (take (Suc m) ?B) i \<longleftrightarrow> block_bit (take m ?B) i \<or> m * ?w \<le> i \<and> bit (?B ! m) (i - m * ?w)" for i
      using Suc.prems block_bit_inside [of "take m ?B" i] by (auto simp: take_Suc_conv_app_nth block_bit_append block_bit_single min_def)
    have "string_block ?n one ?B m (?g m) = ?g (Suc m)"
    proof (cases "?B ! m = 0")
      case True
      then show ?thesis using tk by (simp add: string_block_def)
    next
      case False
      have "fst (fold (string_bit ?n m (?B ! m) one) [0 ..< ?n - m * ?w] (?g m, 1)) = ?g (Suc m)"
        using mw by (subst string_bits) (auto simp: tk intro!: map_cong)
      then show ?thesis using False mw by (simp add: string_block_def)
    qed
    then show ?case using Suc by simp
  qed
  from this [OF order_refl] have "bitset_string zero one b = map (\<lambda>p. if block_bit ?B (?n - 1 - p) then one else zero) [0 ..< ?n]"
    by (simp add: bitset_string_def R(1))
  also have "\<dots> = rev (map (\<lambda>x. if x then one else zero) xs)"
  proof (rule nth_equalityI)
    fix p assume "p < length (map (\<lambda>p. if block_bit ?B (?n - 1 - p) then one else zero) [0 ..< ?n])"
    then have "p < ?n" by simp
    moreover from this have "block_bit ?B (?n - 1 - p) = xs ! (?n - 1 - p)" using R(3) [of "?n - 1 - p"] by linarith
    ultimately show "map (\<lambda>p. if block_bit ?B (?n - 1 - p) then one else zero) [0 ..< ?n] ! p = rev (map (\<lambda>x. if x then one else zero) xs) ! p"
      by (simp add: rev_nth)
  qed simp
  finally show ?thesis .
qed

lemma zeros_rep: "bits_rep \<lparr>m_blocks = replicate (blocks_required LENGTH('a) n) (0 :: 'a :: len word), m_bits_number = n\<rparr> (replicate n False)"
  by (simp add: bits_rep_def block_bit_replicate)

definition digit_step :: "char \<Rightarrow> char \<Rightarrow> (nat \<Rightarrow> char) \<Rightarrow> nat \<Rightarrow> 'a :: len word dynamic_bitset option \<Rightarrow> 'a word dynamic_bitset option" where
  "digit_step zero one c i r = (case r of None \<Rightarrow> None
     | Some b \<Rightarrow> if c i = zero \<or> c i = one then if c i = one then set_pos i True b else Some b else None)"

lemma digit_step_None: "digit_step zero one c i None = None"
  by (simp add: digit_step_def)

lemma digit_step_Some: "digit_step zero one c i (Some b) = (if c i = zero \<or> c i = one then if c i = one then set_pos i True b else Some b else None)"
  by (simp add: digit_step_def)

lemma fold_digits:
  fixes b :: "'a :: len word dynamic_bitset" and c :: "nat \<Rightarrow> char" and zero one :: char and sz :: nat
  assumes "k \<le> sz" and b: "bits_rep b (replicate sz False)"
  shows "if \<forall>i < k. c i = zero \<or> c i = one
    then \<exists>b'. fold (digit_step zero one c) [0 ..< k] (Some b) = Some b' \<and> bits_rep b' (map (\<lambda>i. c i = one) [0 ..< k] @ replicate (sz - k) False)
    else fold (digit_step zero one c) [0 ..< k] (Some b) = None"
  using assms(1)
proof (induction k)
  case 0
  show ?case using b by simp
next
  case (Suc k)
  show ?case
  proof (cases "\<forall>i < k. c i = zero \<or> c i = one")
    case False
    then have "\<not> (\<forall>i < Suc k. c i = zero \<or> c i = one)" by (metis less_SucI)
    moreover have "fold (digit_step zero one c) [0 ..< k] (Some b) = None" using Suc False by simp
    ultimately show ?thesis by (simp add: digit_step_None)
  next
    case True
    then obtain d where d: "fold (digit_step zero one c) [0 ..< k] (Some b) = Some d" "bits_rep d (map (\<lambda>i. c i = one) [0 ..< k] @ replicate (sz - k) False)"
      using Suc by auto
    have rp: "replicate (sz - k) False = False # replicate (sz - Suc k) False" using Suc.prems by (metis Suc_diff_le diff_Suc_Suc replicate_Suc)
    have up: "(map (\<lambda>i. c i = one) [0 ..< k] @ replicate (sz - k) False)[k := True] = map (\<lambda>i. c i = one) [0 ..< k] @ [True] @ replicate (sz - Suc k) False"
      unfolding rp by (simp add: list_update_append)
    consider "c k = one" | "c k \<noteq> one" "c k = zero" | "c k \<noteq> one" "c k \<noteq> zero" by blast
    then show ?thesis
    proof cases
      case 1
      then show ?thesis using d(1) True set_pos_rep [OF d(2), of k True] Suc.prems unfolding up by (auto simp: less_Suc_eq digit_step_Some)
    next
      case 2
      then show ?thesis using d True by (auto simp: less_Suc_eq digit_step_Some rp)
    next
      case 3
      then show ?thesis using d(1) by (auto simp: digit_step_Some)
    qed
  qed
qed

lemma all_reversed: "(\<forall>i < sz. P (pos + sz - 1 - i)) \<longleftrightarrow> (\<forall>i < sz. P (pos + i))" for sz :: nat
proof (intro iffI allI impI)
  fix i assume "\<forall>i < sz. P (pos + i)" "i < sz"
  moreover from this(2) have "pos + sz - 1 - i = pos + (sz - 1 - i)" "sz - 1 - i < sz" by auto
  ultimately show "P (pos + sz - 1 - i)" by metis
next
  fix i assume "\<forall>i < sz. P (pos + sz - 1 - i)" "i < sz"
  moreover from this(2) have "pos + i = pos + sz - 1 - (sz - 1 - i)" "sz - 1 - i < sz" by auto
  ultimately show "P (pos + i)" by metis
qed

lemma init_from_string_rep:
  assumes "pos < length str" and sz_def: "sz = min n (length str - pos)"
  shows "if \<forall>c \<in> set (take sz (drop pos str)). c = zero \<or> c = one
    then \<exists>b :: 'a :: len word dynamic_bitset. init_from_string str pos n zero one = Some b \<and> bits_rep b (rev (map (\<lambda>c. c = one) (take sz (drop pos str))))
    else init_from_string str pos n zero one = (None :: 'a word dynamic_bitset option)"
proof -
  let ?b = "\<lparr>m_blocks = replicate (blocks_required LENGTH('a) sz) (0 :: 'a word), m_bits_number = sz\<rparr>"
  let ?c = "\<lambda>i. str ! (pos + sz - 1 - i)"
  have t: "take sz (drop pos str) = map (\<lambda>i. str ! (pos + i)) [0 ..< sz]" using assms by (intro nth_equalityI) simp_all
  have "(\<forall>c \<in> set (take sz (drop pos str)). c = zero \<or> c = one) \<longleftrightarrow> (\<forall>i < sz. ?c i = zero \<or> ?c i = one)"
    using all_reversed [of sz "\<lambda>i. str ! i = zero \<or> str ! i = one" pos] unfolding t by auto
  moreover have "map (\<lambda>i. ?c i = one) [0 ..< sz] = rev (map (\<lambda>c. c = one) (take sz (drop pos str)))"
    unfolding t by (intro nth_equalityI) (auto simp: rev_nth)
  moreover have "init_from_string str pos n zero one = fold (digit_step zero one ?c) [0 ..< sz] (Some ?b)"
    using assms(1) unfolding init_from_string_def sz_def [symmetric] digit_step_def Let_def by (simp only: if_True)
  ultimately show ?thesis using fold_digits [OF order_refl zeros_rep, of sz ?c zero one, where 'a = 'a]
    by (simp only: diff_self_eq_0 replicate_0 append_Nil2)
qed

subsection \<open>Construction from a number, and ranges\<close>

lemma block_bit_chunks:
  assumes "LENGTH('a :: len) dvd 128" and "m \<le> l" and "m \<le> 128 div LENGTH('a)" and "i < l * LENGTH('a)" and "m = l \<or> m = 128 div LENGTH('a)"
  shows "block_bit (map (\<lambda>j. if j < m then ucast (drop_bit (j * LENGTH('a)) (v :: 128 word) AND ucast (one_block :: 'a word)) else (0 :: 'a word)) [0 ..< l]) i = bit v i"
proof -
  let ?w = "LENGTH('a)"
  have w: "?w * (128 div ?w) = 128" using assms(1) by simp
  have i: "i = i div ?w * ?w + i mod ?w" by simp
  have l: "i div ?w < l" using assms(4) by (simp add: div_less_iff)
  have b: "i mod ?w < ?w" by simp
  have g: "\<not> bit v i" if "\<not> i div ?w < m"
  proof -
    have "m = 128 div ?w" using that l assms(5) by auto
    then have "128 div ?w * ?w \<le> i div ?w * ?w" using that by (intro mult_right_mono) simp_all
    then have "128 \<le> i" using w i unfolding mult.commute [of _ ?w] by linarith
    then show ?thesis using bit_imp_le_length [of v i] by auto
  qed
  show ?thesis
  proof (cases "i div ?w < m")
    case True
    have "bit (ucast (drop_bit (i div ?w * ?w) v AND ucast (one_block :: 'a word)) :: 'a word) (i mod ?w) \<longleftrightarrow> bit v (i div ?w * ?w + i mod ?w) \<and> i mod ?w < 128"
      using b by (auto simp: bit_simps dest: bit_imp_le_length)
    moreover have "bit v i \<Longrightarrow> i mod ?w < 128" using bit_imp_le_length [of v i] i by (auto intro: le_less_trans [OF mod_less_eq_dividend])
    ultimately show ?thesis using l True i by (auto simp: block_bit_def)
  next
    case False
    then show ?thesis using l g by (simp add: block_bit_def)
  qed
qed

lemma new_bitset_rep:
  assumes "LENGTH('a :: len) dvd 128"
  shows "bits_rep (new_bitset nbits v :: 'a word dynamic_bitset) (map (bit v) [0 ..< nbits])"
proof (cases "nbits = 0 \<or> v = 0")
  case True
  then have "map (bit v) [0 ..< nbits] = replicate nbits False" by (auto simp: map_replicate_const intro: nth_equalityI)
  then show ?thesis using True zeros_rep [where n = nbits and 'a = 'a] by (simp add: new_bitset_def)
next
  case False
  let ?w = "LENGTH('a)" and ?l = "blocks_required LENGTH('a) nbits" and ?k = "128 div LENGTH('a)"
  let ?m = "min ?l ?k"
  let ?c = "\<lambda>j. ucast (drop_bit (j * ?w) v AND ucast (one_block :: 'a word)) :: 'a word"
  let ?bs = "map (\<lambda>j. if j < ?m then ?c j else (0 :: 'a word)) [0 ..< ?l]"
  have l: "nbits \<le> ?l * ?w" by (rule blocks_required_len)
  then have l0: "0 < ?l" using False by (cases "?l = 0") auto
  have "(if ?k = 1 then (replicate ?l (0 :: 'a word))[0 := ucast v] else fold (\<lambda>i blocks. blocks[i := ?c i]) [0 ..< ?m] (replicate ?l 0)) = ?bs" (is "?new = _")
  proof (cases "?k = 1")
    case True
    then have w: "?w = 128" using assms by (metis dvd_mult_div_cancel mult.right_neutral)
    have "?c 0 = ucast v" using w by (intro bit_word_eqI) (auto simp: bit_simps dest: bit_imp_le_length)
    then show ?thesis using True l0 by (intro nth_equalityI) (auto simp: nth_list_update)
  next
    case False
    then show ?thesis using fold_up [of ?m "replicate ?l 0" "\<lambda>i ys. ?c i"] by (auto intro!: nth_equalityI)
  qed
  moreover have "new_bitset nbits v = sanitize \<lparr>m_blocks = ?new, m_bits_number = nbits\<rparr>" using False by (simp add: new_bitset_def Let_def)
  moreover have "bits_rep (sanitize \<lparr>m_blocks = ?bs, m_bits_number = nbits\<rparr>) (map (bit v) [0 ..< nbits])"
    using l block_bit_chunks [OF assms, of ?m ?l _ v] by (intro bits_rep_sanitize) (auto simp: min_def)
  ultimately show ?thesis by simp
qed

lemma range_rep:
  fixes b :: "'a :: len word dynamic_bitset"
  assumes "bits_rep b xs" and "pos < length xs" and "pos + len \<le> length xs" and "pos + len \<le> 2 ^ 64"
  shows "\<exists>b'. set_range pos len v b = Some b' \<and> bits_rep b' (take pos xs @ replicate len v @ drop (pos + len) xs)"
    and "\<exists>b'. flip_range pos len b = Some b' \<and> bits_rep b' (take pos xs @ map Not (take len (drop pos xs)) @ drop (pos + len) xs)"
proof -
  have e: "map (\<lambda>i. if pos \<le> i \<and> i < pos + len then h (xs ! i) else xs ! i) [0 ..< length xs] = take pos xs @ map h (take len (drop pos xs)) @ drop (pos + len) xs" for h
    using assms(2,3) by (intro nth_equalityI) (auto simp: nth_append)
  have "map (\<lambda>_. v) (take len (drop pos xs)) = replicate len v" using assms(3) by (simp add: map_replicate_const)
  then show "\<exists>b'. set_range pos len v b = Some b' \<and> bits_rep b' (take pos xs @ replicate len v @ drop (pos + len) xs)"
    using range_update_rep [OF assms(1) parts_ok(1) [of v] assms(4)] e [of "\<lambda>_. v"] assms(2,3) unfolding set_range_def by simp
  show "\<exists>b'. flip_range pos len b = Some b' \<and> bits_rep b' (take pos xs @ map Not (take len (drop pos xs)) @ drop (pos + len) xs)"
    using range_update_rep [OF assms(1) parts_ok(2) assms(4)] assms(2,3) unfolding flip_range_def e by (simp only: simp_thms if_True)
qed

subsection \<open>What the clients of a bit set rely on\<close>

text \<open>
  The interface the other components use: bits are appended, looked up, shifted out from below and
  cut off at a length. Copying the bits of one set in another order, and taking a window of a set,
  follow from these laws alone.
\<close>

locale bit_sequence =
  fixes repr :: "'s \<Rightarrow> bool list \<Rightarrow> bool" and emp :: 's and push :: "bool \<Rightarrow> 's \<Rightarrow> 's" and look :: "nat \<Rightarrow> 's \<Rightarrow> bool option"
    and shr :: "nat \<Rightarrow> 's \<Rightarrow> 's" and cut :: "nat \<Rightarrow> 's \<Rightarrow> 's"
  assumes emp: "repr emp []"
    and push: "repr s xs \<Longrightarrow> repr (push v s) (xs @ [v])"
    and look: "repr s xs \<Longrightarrow> look i s = (if i < length xs then Some (xs ! i) else None)"
    and shr: "repr s xs \<Longrightarrow> repr (shr k s) (drop k xs @ replicate (min k (length xs)) False)"
    and cut: "repr s xs \<Longrightarrow> repr (cut n s) (take n xs @ replicate (n - length xs) False)"
begin

lemma push_all: "repr s xs \<Longrightarrow> repr (fold push vs s) (xs @ vs)"
proof (induction vs arbitrary: s xs)
  case (Cons v vs)
  from Cons.IH [OF push [OF Cons.prems]] show ?case by simp
qed simp

lemma rebuild: "repr s xs \<Longrightarrow> repr t ys \<Longrightarrow> \<forall>i \<in> set is. i < length xs \<Longrightarrow> repr (fold (\<lambda>i. push (the (look i s))) is t) (ys @ map ((!) xs) is)"
proof (induction "is" arbitrary: t ys)
  case Nil
  then show ?case by simp
next
  case (Cons i "is")
  have "repr (push (xs ! i) t) (ys @ [xs ! i])" using Cons.prems(2) by (rule push)
  from Cons.IH [OF Cons.prems(1) this] Cons.prems(3) show ?case by (simp add: look [OF Cons.prems(1)])
qed

lemma reversed:
  assumes "repr s xs" and "repr t []"
  shows "repr (fold (\<lambda>i. push (the (look i s))) (rev [0 ..< length xs]) t) (rev xs)"
proof -
  have "map ((!) xs) (rev [0 ..< length xs]) = rev xs" using map_nth [of xs] by (simp only: rev_map [symmetric])
  then show ?thesis using rebuild [OF assms, of "rev [0 ..< length xs]"] by simp
qed

lemma window: "repr s xs \<Longrightarrow> from + len \<le> length xs \<Longrightarrow> repr (cut len (shr from s)) (take len (drop from xs))"
  using cut [OF shr, of s xs len "from"] by simp

end

interpretation bits: bit_sequence "bits_rep :: 'a :: len word dynamic_bitset \<Rightarrow> _" empty_bitset push_back test shift_right_assign "\<lambda>n. resize n False"
  by unfold_locales (simp_all add: empty_rep push_back_rep test_rep shift_rep resize_rep)

lemma read_digits_loop_append:
  "set ds \<subseteq> {CHR ''0'', CHR ''1''} \<Longrightarrow> read_digits_loop (ds @ rest) b = read_digits_loop rest (fold push_back (map (\<lambda>c. c = CHR ''1'') ds) b)"
  by (induction ds arbitrary: b) auto

lemma read_bitset_rep:
  fixes b :: "'a :: len word dynamic_bitset"
  assumes "set ds \<subseteq> {CHR ''0'', CHR ''1''}" and "ds \<noteq> []" and "rest = [] \<or> hd rest \<notin> {CHR ''0'', CHR ''1''}" and "list_all is_space ws"
  shows "\<exists>b'. read_bitset (ws @ ds @ rest) b = (b', rest, rest = []) \<and> bits_rep b' (rev (map (\<lambda>c. c = CHR ''1'') ds))"
proof -
  obtain c cs where ds: "ds = c # cs" "c \<in> {CHR ''0'', CHR ''1''}" using assms(1,2) by (cases ds) auto
  have ws: "dropWhile is_space (ws @ ds @ rest) = ds @ rest"
    using assms(4) ds by (auto simp: dropWhile_append list_all_iff is_space_def)
  define r :: "'a word dynamic_bitset" where "r = fold push_back (map (\<lambda>c. c = CHR ''1'') ds) empty_bitset"
  have r: "bits_rep r (map (\<lambda>c. c = CHR ''1'') ds)" using bits.push_all [OF bits.emp] by (simp add: r_def)
  have "read_digits_loop (ds @ rest) empty_bitset = (r, rest, rest = [])"
    unfolding read_digits_loop_append [OF assms(1)] r_def [symmetric] using assms(3) by (cases rest) auto
  then have "read_bitset (ws @ ds @ rest) b = (fold (\<lambda>i b. push_back (the (test i r)) b) (rev [0 ..< length ds]) (clear_bits b), rest, rest = [])"
    using bits_repD(1) [OF r] unfolding read_bitset_def ws by (simp add: ds(1))
  moreover have "bits_rep (fold (\<lambda>i b. push_back (the (test i r)) b) (rev [0 ..< length ds]) (clear_bits b)) (rev (map (\<lambda>c. c = CHR ''1'') ds))"
    using bits.reversed [OF r empty_rep(2)] by simp
  ultimately show ?thesis by blast
qed

lemma string_digits: "zero \<noteq> one \<Longrightarrow> map (\<lambda>c. c = one) (map (\<lambda>x. if x then one else zero) xs) = xs"
  by (induction xs) auto

lemma digits_rev: "rev (map (\<lambda>c. c = one) (rev (map (\<lambda>x. if x then one else zero) xs))) = xs" if "zero \<noteq> one"
  using string_digits [OF that] by (simp only: rev_map rev_rev_ident)

lemma init_from_string_inverse:
  fixes b :: "'a :: len word dynamic_bitset"
  assumes "bits_rep b xs" and "xs \<noteq> []" and "length xs \<le> n" and "zero \<noteq> one"
  shows "\<exists>c. init_from_string (bitset_string zero one b) 0 n zero one = Some c \<and> equal_bitset c b"
proof -
  let ?s = "bitset_string zero one b"
  note s = bitset_string_rep [OF assms(1), of zero one]
  have "0 < length ?s" and "length ?s = min n (length ?s - 0)" using assms(2,3) by (simp_all add: s)
  from init_from_string_rep [OF this, of zero one, where 'a = 'a]
  obtain c :: "'a word dynamic_bitset" where c: "init_from_string ?s 0 n zero one = Some c" "bits_rep c (rev (map (\<lambda>c. c = one) ?s))"
    by (auto simp: s split: if_splits)
  from c(2) have "bits_rep c xs" unfolding s digits_rev [OF assms(4)] .
  then show ?thesis using c(1) equal_bitset_iff [of c xs b xs] assms(1) by simp
qed

lemma read_bitset_inverse:
  fixes b d :: "'a :: len word dynamic_bitset"
  assumes "bits_rep b xs" and "xs \<noteq> []" and "rest = [] \<or> hd rest \<notin> {CHR ''0'', CHR ''1''}" and "list_all is_space ws"
  shows "\<exists>c. read_bitset (ws @ bitset_string CHR ''0'' CHR ''1'' b @ rest) d = (c, rest, rest = []) \<and> equal_bitset c b"
proof -
  let ?s = "bitset_string CHR ''0'' CHR ''1'' b"
  note s = bitset_string_rep [OF assms(1), of "CHR ''0''" "CHR ''1''"]
  have "set ?s \<subseteq> {CHR ''0'', CHR ''1''}" "?s \<noteq> []" using assms(2) by (auto simp: s)
  from read_bitset_rep [OF this assms(3,4), of d]
  obtain c where c: "read_bitset (ws @ ?s @ rest) d = (c, rest, rest = [])" "bits_rep c (rev (map (\<lambda>c. c = CHR ''1'') ?s))" by blast
  have ne: "CHR ''0'' \<noteq> CHR ''1''" by simp
  from c(2) have "bits_rep c xs" unfolding s digits_rev [OF ne] .
  then show ?thesis using c(1) equal_bitset_iff [of c xs b xs] assms(1) by simp
qed

end
