(* ===== verification/BitsetUse.thy ===== *)
theory BitsetUse
  imports BitsetQueries Sgrr
begin

text \<open>
  Sequences of operations on a bit set, and the bit sets of other components: the copy of a part of the
  choices of a transfer store (\<^verbatim>\<open>ot/ot_store.cc\<close>) and the indices on the path of a receiver
  (\<^verbatim>\<open>ot/sgrr_ote.cc\<close>).  The theories \<^verbatim>\<open>OtStore\<close> and \<^verbatim>\<open>Sgrr\<close> work with lists of truth values and with
  numbers; here these are the bits that the code's bit sets hold.
\<close>

unbundle bit_operations_syntax

subsection \<open>The bit sets of the transfers\<close>

definition MakeDynamicBitset :: "128 word \<Rightarrow> nat \<Rightarrow> 128 word dynamic_bitset option" where
  "MakeDynamicBitset input bits =
     (let out = resize bits False (append_block input empty_bitset)
      in if length (m_blocks out) = 1 then Some out else None)"

definition punctured_bitset :: "128 word dynamic_bitset \<Rightarrow> nat \<Rightarrow> 128 word" where
  "punctured_bitset choice level = m_blocks (resize (level + 1) False choice) ! 0"

definition inserted_bitset :: "128 word dynamic_bitset \<Rightarrow> nat \<Rightarrow> 128 word option" where
  "inserted_bitset choice level = map_option (\<lambda>b. m_blocks b ! 0) (flip_pos level (resize (level + 1) False choice))"

definition copy_bitset :: "nat \<Rightarrow> nat \<Rightarrow> 128 word dynamic_bitset \<Rightarrow> 128 word dynamic_bitset" where
  "copy_bitset use_ctr use_size buf = resize use_size False (shift_right_assign use_ctr buf)"

subsection \<open>Sequences of operations\<close>

datatype 'b bitset_op =
  Push_back bool | Pop_back | Resize nat bool | Clear
| Append_block 'b | Append_range "'b list" | Append_other "'b dynamic_bitset" | Append_self
| And_assign "'b dynamic_bitset" | Or_assign "'b dynamic_bitset" | Xor_assign "'b dynamic_bitset" | Minus_assign "'b dynamic_bitset"
| Shift_left nat | Shift_right nat | Set_all | Reset_all | Flip_all
| Set_pos nat bool | Flip_pos nat | Set_range nat nat bool | Flip_range nat nat

fun run_op :: "'a :: len word bitset_op \<Rightarrow> 'a word dynamic_bitset \<Rightarrow> 'a word dynamic_bitset option" where
  "run_op (Push_back v) b = Some (push_back v b)"
| "run_op Pop_back b = Some (pop_back b)"
| "run_op (Resize n v) b = Some (resize n v b)"
| "run_op Clear b = Some (clear_bits b)"
| "run_op (Append_block x) b = Some (append_block x b)"
| "run_op (Append_range xs) b = Some (append_range xs b)"
| "run_op (Append_other c) b = Some (append_other c b)"
| "run_op Append_self b = Some (append_self b)"
| "run_op (And_assign c) b = and_assign b c"
| "run_op (Or_assign c) b = or_assign b c"
| "run_op (Xor_assign c) b = xor_assign b c"
| "run_op (Minus_assign c) b = minus_assign b c"
| "run_op (Shift_left s) b = Some (shift_left_assign s b)"
| "run_op (Shift_right s) b = Some (shift_right_assign s b)"
| "run_op Set_all b = Some (set_all b)"
| "run_op Reset_all b = Some (reset_all b)"
| "run_op Flip_all b = Some (flip_all b)"
| "run_op (Set_pos p v) b = set_pos p v b"
| "run_op (Flip_pos p) b = flip_pos p b"
| "run_op (Set_range p n v) b = set_range p n v b"
| "run_op (Flip_range p n) b = flip_range p n b"

fun run_ops :: "'a :: len word bitset_op list \<Rightarrow> 'a word dynamic_bitset \<Rightarrow> 'a word dynamic_bitset option" where
  "run_ops [] b = Some b"
| "run_ops (p # ps) b = Option.bind (run_op p b) (run_ops ps)"

text \<open>The same operations on lists of truth values.\<close>

fun list_op :: "'a :: len word bitset_op \<Rightarrow> bool list \<Rightarrow> bool list option" where
  "list_op (Push_back v) xs = Some (xs @ [v])"
| "list_op Pop_back xs = Some (butlast xs)"
| "list_op (Resize n v) xs = Some (take n xs @ replicate (n - length xs) v)"
| "list_op Clear xs = Some []"
| "list_op (Append_block x) xs = Some (xs @ block_bools x)"
| "list_op (Append_range ys) xs = Some (xs @ concat (map block_bools ys))"
| "list_op (Append_other c) xs = Some (xs @ bits_of c)"
| "list_op Append_self xs = Some (xs @ xs)"
| "list_op (And_assign c) xs = (if length xs = m_bits_number c then Some (map2 (\<and>) xs (bits_of c)) else None)"
| "list_op (Or_assign c) xs = (if length xs = m_bits_number c then Some (map2 (\<or>) xs (bits_of c)) else None)"
| "list_op (Xor_assign c) xs = (if length xs = m_bits_number c then Some (map2 (\<noteq>) xs (bits_of c)) else None)"
| "list_op (Minus_assign c) xs = (if length xs = m_bits_number c then Some (map2 (\<lambda>x y. x \<and> \<not> y) xs (bits_of c)) else None)"
| "list_op (Shift_left s) xs = Some (replicate (min s (length xs)) False @ take (length xs - s) xs)"
| "list_op (Shift_right s) xs = Some (drop s xs @ replicate (min s (length xs)) False)"
| "list_op Set_all xs = Some (replicate (length xs) True)"
| "list_op Reset_all xs = Some (replicate (length xs) False)"
| "list_op Flip_all xs = Some (map Not xs)"
| "list_op (Set_pos p v) xs = (if p < length xs then Some (xs[p := v]) else None)"
| "list_op (Flip_pos p) xs = (if p < length xs then Some (xs[p := \<not> xs ! p]) else None)"
| "list_op (Set_range p n v) xs = (if p < length xs \<and> p + n \<le> length xs then Some (take p xs @ replicate n v @ drop (p + n) xs) else None)"
| "list_op (Flip_range p n) xs = (if p < length xs \<and> p + n \<le> length xs then Some (take p xs @ map Not (take n (drop p xs)) @ drop (p + n) xs) else None)"

fun list_ops :: "'a :: len word bitset_op list \<Rightarrow> bool list \<Rightarrow> bool list option" where
  "list_ops [] xs = Some xs"
| "list_ops (p # ps) xs = Option.bind (list_op p xs) (list_ops ps)"

fun operand_ok :: "'a :: len word bitset_op \<Rightarrow> bool" where
  "operand_ok (Append_other c) = check_consistency c"
| "operand_ok (And_assign c) = check_consistency c"
| "operand_ok (Or_assign c) = check_consistency c"
| "operand_ok (Xor_assign c) = check_consistency c"
| "operand_ok (Minus_assign c) = check_consistency c"
| "operand_ok (Set_range p n v) = (p + n \<le> 2 ^ 64)"
| "operand_ok (Flip_range p n) = (p + n \<le> 2 ^ 64)"
| "operand_ok _ = True"

lemma consistent_rep: "check_consistency c \<Longrightarrow> bits_rep c (bits_of c)"
  by (simp add: bits_rep_iff)

lemma length_bits_of [simp]: "length (bits_of c) = m_bits_number c"
  by (simp add: bits_of_def)

lemma bitwise_fails:
  assumes "m_bits_number b \<noteq> m_bits_number c"
  shows "and_assign b c = None" "or_assign b c = None" "xor_assign b c = None" "minus_assign b c = None"
  using assms by (simp_all add: and_assign_def or_assign_def xor_assign_def minus_assign_def combine_def)

lemma range_fails:
  assumes "bits_rep b xs" and "\<not> (p < length xs \<and> p + n \<le> length xs)" and "p + n \<le> 2 ^ 64"
  shows "set_range p n v b = None" "flip_range p n b = None"
  using range_update_rep [OF assms(1) parts_ok(1) [of v] assms(3)] range_update_rep [OF assms(1) parts_ok(2) assms(3)] assms(2)
  unfolding set_range_def flip_range_def by auto

lemma run_op_rep:
  assumes "bits_rep b xs" and "operand_ok p"
  shows "rel_option bits_rep (run_op p b) (list_op p xs)"
proof (cases p)
  case (And_assign c)
  note c = consistent_rep [of c]
  show ?thesis using bitwise_rep(1) [OF assms(1) c] bitwise_fails(1) [of b c] bits_repD(1) [OF assms(1)] assms(2) by (auto simp: And_assign)
next
  case (Or_assign c)
  note c = consistent_rep [of c]
  show ?thesis using bitwise_rep(2) [OF assms(1) c] bitwise_fails(2) [of b c] bits_repD(1) [OF assms(1)] assms(2) by (auto simp: Or_assign)
next
  case (Xor_assign c)
  note c = consistent_rep [of c]
  show ?thesis using bitwise_rep(3) [OF assms(1) c] bitwise_fails(3) [of b c] bits_repD(1) [OF assms(1)] assms(2) by (auto simp: Xor_assign)
next
  case (Minus_assign c)
  note c = consistent_rep [of c]
  show ?thesis using bitwise_rep(4) [OF assms(1) c] bitwise_fails(4) [of b c] bits_repD(1) [OF assms(1)] assms(2) by (auto simp: Minus_assign)
next
  case (Append_other c)
  show ?thesis using append_other_rep [OF assms(1) consistent_rep [of c]] assms(2) by (simp add: Append_other)
next
  case (Set_pos i v)
  show ?thesis using set_pos_rep [OF assms(1), of i v] by (auto simp: Set_pos split: if_splits)
next
  case (Flip_pos i)
  show ?thesis using flip_pos_rep [OF assms(1), of i] by (auto simp: Flip_pos split: if_splits)
next
  case (Set_range i n v)
  show ?thesis using range_rep(1) [OF assms(1), of i n v] range_fails(1) [OF assms(1), of i n v] assms(2) by (auto simp: Set_range)
next
  case (Flip_range i n)
  show ?thesis using range_rep(2) [OF assms(1), of i n] range_fails(2) [OF assms(1), of i n] assms(2) by (auto simp: Flip_range)
qed (use assms(1) in \<open>simp_all add: push_back_rep pop_back_rep resize_rep empty_rep append_block_rep append_range_rep append_self_rep shift_rep all_rep\<close>)

lemma run_ops_rep: "bits_rep b xs \<Longrightarrow> list_all operand_ok ps \<Longrightarrow> rel_option bits_rep (run_ops ps b) (list_ops ps xs)"
proof (induction ps arbitrary: b xs)
  case (Cons p ps)
  have "rel_option bits_rep (run_op p b) (list_op p xs)" using Cons.prems by (intro run_op_rep) simp_all
  then show ?case using Cons.IH Cons.prems(2) by (cases "run_op p b"; cases "list_op p xs") auto
qed simp

lemma operations_refine:
  fixes ops :: "'a :: len word bitset_op list"
  assumes "LENGTH('a) dvd 128" and "list_all operand_ok ops"
  shows "case list_ops ops (map (bit v) [0 ..< n]) of
      None \<Rightarrow> run_ops ops (new_bitset n v) = None
    | Some xs \<Rightarrow> \<exists>b. run_ops ops (new_bitset n v) = Some b \<and> check_consistency b \<and> bits_of b = xs"
  using run_ops_rep [OF new_bitset_rep [OF assms(1)] assms(2), of n v] by (auto simp: bits_rep_iff option_rel_Some2 split: option.split)

text \<open>A range whose end wraps passes the assertions and changes bits outside of it.\<close>

lemma set_range_wraps:
  "set_range 5 (2 ^ 64 - 3) True (new_bitset 8 0 :: 8 word dynamic_bitset) = Some \<lparr>m_blocks = [28], m_bits_number = 8\<rparr>"
proof -
  have n: "new_bitset 8 0 = (\<lparr>m_blocks = [0], m_bits_number = 8\<rparr> :: 8 word dynamic_bitset)" by code_simp
  have e: "(5 + (2 ^ 64 - 3) - 1 :: nat) mod 2 ^ 64 = 1" by simp
  have "range_mask 5 1 = (28 :: 8 word)" by code_simp
  then show ?thesis unfolding n set_range_def range_update_def e by (simp add: block_index_def bit_index_def set_block_bits_def Let_def)
qed

lemma wrapped_range:
  "\<exists>b. run_ops [Set_range 5 (2 ^ 64 - 3) True] (new_bitset 8 0 :: 8 word dynamic_bitset) = Some b
     \<and> bits_of b = [False, False, True, True, True, False, False, False]"
proof -
  have "bits_of \<lparr>m_blocks = [28 :: 8 word], m_bits_number = 8\<rparr> = [False, False, True, True, True, False, False, False]" by code_simp
  then show ?thesis using set_range_wraps by (simp only: run_ops.simps run_op.simps) simp
qed

subsection \<open>The clients\<close>

lemma first_block_val:
  fixes b :: "128 word dynamic_bitset"
  assumes "bits_rep b xs" and "xs \<noteq> []" and "length xs \<le> 128"
  shows "length (m_blocks b) = 1" and "unat (m_blocks b ! 0) = horner_sum of_bool 2 xs"
proof -
  have "blocks_required 128 (length xs) = 1"
  proof (cases "length xs = 128")
    case False
    then have "length xs < 128" using assms(3) by simp
    then show ?thesis using assms(2) by (simp add: blocks_required_def)
  qed (simp add: blocks_required_def)
  then show l: "length (m_blocks b) = 1" using bits_repD(2) [OF assms(1)] by simp
  then obtain x where x: "m_blocks b = [x]" by (auto simp: length_Suc_conv)
  show "unat (m_blocks b ! 0) = horner_sum of_bool 2 xs" using bits_rep_val [OF assms(1)] x by (simp add: bits_val_def)
qed

lemma resized_val: "horner_sum of_bool 2 (take n xs @ replicate k False) = (take_bit n (horner_sum of_bool 2 xs) :: nat)"
  by (simp add: horner_sum_append take_bit_horner_sum_bit_eq bits_val_zeros [unfolded bits_val_def])

lemma MakeDynamicBitset_rep:
  assumes "0 < bits" and "bits \<le> 128"
  shows "\<exists>b. MakeDynamicBitset input bits = Some b \<and> bits_rep b (map (bit input) [0 ..< bits]) \<and> unat (m_blocks b ! 0) = take_bit bits (unat input)"
proof -
  let ?b = "resize bits False (append_block input empty_bitset)"
  have "bits_rep (append_block input empty_bitset) (block_bools input)" using append_block_rep [OF empty_rep(1), of input] by simp
  from resize_rep [OF this, of bits False]
  have r: "bits_rep ?b (take bits (block_bools input) @ replicate (bits - 128) False)" by simp
  have e: "take bits (block_bools input) = map (bit input) [0 ..< bits]" using assms by (simp add: block_bools_def take_map)
  from r assms have r': "bits_rep ?b (map (bit input) [0 ..< bits])" by (simp add: e)
  note f = first_block_val [OF r]
  have "unat (m_blocks ?b ! 0) = take_bit bits (unat input)"
    using f(2) assms resized_val [of bits "block_bools input" "bits - 128"] block_bools_val [of input] by (auto simp: e bits_val_def)
  then show ?thesis using f(1) r' assms by (auto simp: MakeDynamicBitset_def e)
qed

lemma punctured_bitset_eq:
  assumes "bits_rep choice xs" and "level < 128"
  shows "unat (punctured_bitset choice level) = GetPuncturedIndex (horner_sum of_bool 2 xs) level"
  using first_block_val(2) [OF resize_rep [OF assms(1), of "Suc level" False]] assms(2) resized_val [of "Suc level" xs]
  by (cases "xs = []") (auto simp: punctured_bitset_def GetPuncturedIndex_def)

lemma flip_val: "l < length xs \<Longrightarrow> horner_sum of_bool 2 (xs[l := \<not> xs ! l]) = (flip_bit l (horner_sum of_bool 2 xs) :: nat)"
  by (rule bit_eqI) (auto simp: bit_horner_sum_bit_iff bit_flip_bit_iff nth_list_update)

lemma inserted_bitset_eq:
  assumes "bits_rep choice xs" and "level < 128"
  shows "\<exists>w. inserted_bitset choice level = Some w \<and> unat w = GetInsertedIndex (horner_sum of_bool 2 xs) level"
proof -
  let ?ys = "take (Suc level) xs @ replicate (Suc level - length xs) False"
  have l: "level < length ?ys" "length ?ys = Suc level" by simp_all
  obtain b where b: "flip_pos level (resize (Suc level) False choice) = Some b" "bits_rep b (?ys[level := \<not> ?ys ! level])"
    using flip_pos_rep [OF resize_rep [OF assms(1), of "Suc level" False], of level] l by auto
  have "unat (m_blocks b ! 0) = flip_bit level (horner_sum of_bool 2 ?ys)"
    using first_block_val(2) [OF b(2)] flip_val [OF l(1)] assms(2) l by fastforce
  then show ?thesis using b(1) unfolding resized_val by (simp add: inserted_bitset_def GetInsertedIndex_def)
qed

lemma take_padded: "take n (ys @ replicate k v) @ replicate (n - (length ys + k)) v = take n ys @ replicate (n - length ys) v"
proof -
  have "min (n - length ys) k + (n - (length ys + k)) = n - length ys" by simp
  then have "replicate (min (n - length ys) k) v @ replicate (n - (length ys + k)) v = replicate (n - length ys) v" by (metis replicate_add)
  then show ?thesis by (simp only: take_append take_replicate append_assoc)
qed

lemma copy_bitset_rep:
  assumes "bits_rep buf bits"
  shows "bits_rep (copy_bitset ctr n buf) (take n (drop ctr bits) @ replicate (n - length (drop ctr bits)) False)"
  using resize_rep [OF shift_rep(2) [OF assms, of ctr], of n False]
  unfolding copy_bitset_def length_append length_replicate take_padded .

end
