(* ===== verification/OtMake.thy ===== *)
theory OtMake
  imports BitsetUse
begin

text \<open>
  \<^verbatim>\<open>ot/ot_store_utils.cc\<close>: stores made from vectors, and pairs of stores that one program makes for both
  parties.  A store is made over fresh buffers of the heap.  The overloads for the four kinds of
  vectors differ in copying or moving their argument only and share a definition.  The seed of the generator
  and the random offset are arguments.
\<close>

unbundle bit_operations_syntax

subsection \<open>Stores from vectors\<close>

definition flat :: "('a \<times> 'a) list \<Rightarrow> 'a list" where
  "flat blocks = concat (map (\<lambda>(x, y). [x, y]) blocks)"

definition MakeOtSendStore :: "(128 word \<times> 128 word) list \<Rightarrow> ot_heap \<Rightarrow> (OtSendStore \<times> ot_heap) ot_result" where
  "MakeOtSendStore blocks h =
     (let a = lim h;
          h = h\<lparr>blk_bufs := (blk_bufs h)(a \<mapsto> flat blocks), lim := Suc a\<rparr>;
          n = of_nat (length blocks) * 2
      in followed (send_full (Some a) 0 0 n 0 n Normal h) (\<lambda>s. Inr (s, h)))"

definition MakeCompactOtSendStore :: "128 word list \<Rightarrow> 128 word \<Rightarrow> ot_heap \<Rightarrow> (OtSendStore \<times> ot_heap) ot_result" where
  "MakeCompactOtSendStore blocks delta h =
     (let a = lim h;
          h = h\<lparr>blk_bufs := (blk_bufs h)(a \<mapsto> blocks), lim := Suc a\<rparr>;
          n = of_nat (length blocks)
      in followed (send_full (Some a) delta 0 n 0 n Compact h) (\<lambda>s. Inr (s, h)))"

definition MakeOtRecvStore :: "128 word dynamic_bitset \<Rightarrow> 128 word list \<Rightarrow> ot_heap \<Rightarrow> (OtRecvStore \<times> ot_heap) ot_result" where
  "MakeOtRecvStore choices blocks h =
     (let a = lim h;
          h = h\<lparr>bit_bufs := (bit_bufs h)(a \<mapsto> bits_of choices), blk_bufs := (blk_bufs h)(a \<mapsto> blocks), lim := Suc a\<rparr>;
          n = of_nat (m_bits_number choices)
      in followed (recv_full (Some a) (Some a) 0 n 0 n Normal h) (\<lambda>s. Inr (s, h)))"

definition MakeCompactOtRecvStore :: "128 word list \<Rightarrow> ot_heap \<Rightarrow> (OtRecvStore \<times> ot_heap) ot_result" where
  "MakeCompactOtRecvStore blocks h =
     (let a = lim h;
          h = h\<lparr>blk_bufs := (blk_bufs h)(a \<mapsto> blocks), lim := Suc a\<rparr>;
          n = of_nat (length blocks)
      in followed (recv_full None (Some a) 0 n 0 n Compact h) (\<lambda>s. Inr (s, h)))"

subsection \<open>Pairs of stores\<close>

definition mock_rot :: "cipher \<Rightarrow> 128 word dynamic_bitset \<Rightarrow> nat \<Rightarrow> prg \<times> (128 word \<times> 128 word) list \<times> 128 word list \<Rightarrow> prg \<times> (128 word \<times> 128 word) list \<times> 128 word list" where
  "mock_rot enc choices i st =
     (case st of (gen, send_blocks, recv_blocks) \<Rightarrow>
        let (x, gen) = prg_next enc gen;
            (y, gen) = prg_next enc gen;
            send_blocks = send_blocks @ [(x, y)];
            recv_blocks = recv_blocks @ [if test i choices = Some True then snd (send_blocks ! i) else fst (send_blocks ! i)]
        in (gen, send_blocks, recv_blocks))"

definition MockRots :: "cipher \<Rightarrow> 128 word \<Rightarrow> 64 word \<Rightarrow> 128 word dynamic_bitset \<Rightarrow> ot_heap \<Rightarrow> ((OtSendStore \<times> OtRecvStore) \<times> ot_heap) ot_result" where
  "MockRots enc seed num choices h =
     enforce (m_bits_number choices = unat num) (
     case fold (mock_rot enc choices) [0 ..< unat num] (new_prg 16 seed kAesEcb, [], []) of (_, send_blocks, recv_blocks) \<Rightarrow>
       followed (MakeOtSendStore send_blocks h) (\<lambda>(s, h).
       followed (MakeOtRecvStore choices recv_blocks h) (\<lambda>(r, h). Inr ((s, r), h))))"

definition mock_cot :: "cipher \<Rightarrow> 128 word \<Rightarrow> 128 word dynamic_bitset \<Rightarrow> nat \<Rightarrow> prg \<times> 128 word list \<times> 128 word list \<Rightarrow> prg \<times> 128 word list \<times> 128 word list" where
  "mock_cot enc delta choices i st =
     (case st of (gen, send_blocks, recv_blocks) \<Rightarrow>
        let (msg, gen) = prg_next enc gen;
            send_blocks = send_blocks @ [msg];
            recv_blocks = recv_blocks @ [if \<not> test i choices = Some True then send_blocks ! i else send_blocks ! i XOR delta]
        in (gen, send_blocks, recv_blocks))"

definition MockCots :: "cipher \<Rightarrow> 128 word \<Rightarrow> 64 word \<Rightarrow> 128 word \<Rightarrow> 128 word dynamic_bitset \<Rightarrow> ot_heap \<Rightarrow> ((OtSendStore \<times> OtRecvStore) \<times> ot_heap) ot_result" where
  "MockCots enc seed num delta choices h =
     enforce (m_bits_number choices = unat num) (
     case fold (mock_cot enc delta choices) [0 ..< unat num] (new_prg 16 seed kAesEcb, [], []) of (_, send_blocks, recv_blocks) \<Rightarrow>
       followed (MakeCompactOtSendStore send_blocks delta h) (\<lambda>(s, h).
       followed (MakeOtRecvStore choices recv_blocks h) (\<lambda>(r, h). Inr ((s, r), h))))"

definition mock_compact :: "cipher \<Rightarrow> 128 word \<Rightarrow> nat \<Rightarrow> prg \<times> 128 word list \<times> 128 word list \<Rightarrow> prg \<times> 128 word list \<times> 128 word list" where
  "mock_compact enc delta i st =
     (case st of (gen, send_blocks, recv_blocks) \<Rightarrow>
        let (recv_msg, gen) = prg_next enc gen;
            choice = recv_msg AND 1
        in (gen, send_blocks @ [recv_msg XOR choice * delta], recv_blocks @ [recv_msg]))"

definition MockCompactOts :: "cipher \<Rightarrow> 128 word \<Rightarrow> 128 word \<Rightarrow> 64 word \<Rightarrow> ot_heap \<Rightarrow> ((OtSendStore \<times> OtRecvStore) \<times> ot_heap) ot_result" where
  "MockCompactOts enc rand_delta seed num h =
     (let delta = rand_delta OR 1
      in case fold (mock_compact enc delta) [0 ..< unat num] (new_prg 16 seed kAesEcb, [], []) of (_, send_blocks, recv_blocks) \<Rightarrow>
           followed (MakeCompactOtSendStore send_blocks delta h) (\<lambda>(s, h).
           followed (MakeCompactOtRecvStore recv_blocks h) (\<lambda>(r, h). Inr ((s, r), h))))"

subsection \<open>What the stores hold\<close>

lemma length_flat [simp]: "length (flat xs) = 2 * length xs"
  by (induction xs) (auto simp: flat_def)

lemma flat_nth: "i < length xs \<Longrightarrow> flat xs ! (2 * i) = fst (xs ! i) \<and> flat xs ! (2 * i + 1) = snd (xs ! i)"
proof (induction xs arbitrary: i)
  case (Cons x xs)
  have f: "flat (x # xs) = fst x # snd x # flat xs" by (simp add: flat_def split_beta)
  show ?case using Cons.IH [of "i - 1"] Cons.prems unfolding f by (cases i) simp_all
qed simp

lemma unat_double: "i < n \<Longrightarrow> 2 * n < 2 ^ 64 \<Longrightarrow> unat (of_nat i :: 64 word) = i \<and> unat (2 * of_nat i :: 64 word) = 2 * i" for i n :: nat
proof -
  assume i: "i < n" "2 * n < 2 ^ 64"
  have u: "unat (of_nat i :: 64 word) = i" using i by (simp add: unat_of_nat)
  then show ?thesis using i by (simp add: unat_mult_lem [THEN iffD1])
qed

definition send_holds :: "ot_heap \<Rightarrow> OtSendStore \<Rightarrow> nat \<Rightarrow> (nat \<Rightarrow> bool \<Rightarrow> 128 word) \<Rightarrow> bool" where
  "send_holds h s n K \<longleftrightarrow> send_ok h s \<and> send_Size s = of_nat n \<and> \<not> IsSliced s
     \<and> (\<forall>i < n. \<forall>x. send_GetBlock h s (of_nat i) (of_bool x) = Inr (K i x))"

definition recv_holds :: "ot_heap \<Rightarrow> OtRecvStore \<Rightarrow> nat \<Rightarrow> (nat \<Rightarrow> bool) \<Rightarrow> (nat \<Rightarrow> 128 word) \<Rightarrow> bool" where
  "recv_holds h r n b B \<longleftrightarrow> recv_ok h r \<and> internal_use_size r = of_nat n \<and> \<not> IsSliced r
     \<and> (\<forall>i < n. recv_GetChoice h r (of_nat i) = Inr (b i) \<and> recv_GetBlock h r (of_nat i) = Inr (B i))"

lemma holds_ot_pair:
  assumes "send_holds hs s n K" and "recv_holds hr r n b B" and "\<And>i. i < n \<Longrightarrow> B i = K i (b i)" and "n < 2 ^ 64"
  shows "ot_pair hs s hr r"
  unfolding ot_pair_def
proof (intro conjI allI impI)
  show "recv_ok hr r" "send_Size s = internal_use_size r" using assms(1,2) by (simp_all add: send_holds_def recv_holds_def)
  fix i assume "i < internal_use_size r"
  then have i: "unat i < n" using assms(2,4) by (simp add: recv_holds_def word_less_nat_alt unat_of_nat)
  have "send_GetBlock hs s i 0 = Inr (K (unat i) False)" "send_GetBlock hs s i 1 = Inr (K (unat i) True)"
    using assms(1) i unfolding send_holds_def by (auto dest!: spec [where x = "unat i"] simp: all_bool_eq)
  moreover have "recv_GetChoice hr r i = Inr (b (unat i))" "recv_GetBlock hr r i = Inr (K (unat i) (b (unat i)))"
    using assms(2,3) i unfolding recv_holds_def by (auto dest!: spec [where x = "unat i"])
  ultimately show "\<exists>b k0 k1. recv_GetChoice hr r i = Inr b \<and> recv_GetBlock hr r i = Inr (if b then k1 else k0)
         \<and> send_GetBlock hs s i 0 = Inr k0 \<and> send_GetBlock hs s i 1 = Inr k1"
    by (cases "b (unat i)") auto
qed

lemma holds_cot_pair:
  assumes "send_holds hs s n K" and "recv_holds hr r n b B" and "\<And>i. i < n \<Longrightarrow> B i = K i (b i)" and "n < 2 ^ 64" and "send_delta s \<noteq> 0"
  shows "cot_pair hs s hr r"
  unfolding cot_pair_def
proof (intro conjI allI impI)
  show "send_delta s \<noteq> 0" "send_ok hs s" "recv_ok hr r" "send_Size s = internal_use_size r" using assms(1,2,5) by (simp_all add: send_holds_def recv_holds_def)
  fix i assume "i < internal_use_size r"
  then have i: "unat i < n" using assms(2,4) by (simp add: recv_holds_def word_less_nat_alt unat_of_nat)
  have "send_GetBlock hs s i (of_bool x) = Inr (K (unat i) x)" for x
    using assms(1) i unfolding send_holds_def by (auto dest!: spec [where x = "unat i"] simp: all_bool_eq)
  moreover have "recv_GetChoice hr r i = Inr (b (unat i))" "recv_GetBlock hr r i = Inr (K (unat i) (b (unat i)))"
    using assms(2,3) i unfolding recv_holds_def by (auto dest!: spec [where x = "unat i"])
  ultimately show "\<exists>b. recv_GetChoice hr r i = Inr b \<and> recv_GetBlock hr r i = send_GetBlock hs s i (of_bool b)" by simp
qed

text \<open>Each maker succeeds on a vector that is not empty and returns a store over a fresh buffer.\<close>

lemma make_send:
  assumes "0 < length blocks" and "2 * length blocks < 2 ^ 64"
  obtains s where "MakeOtSendStore blocks h = Inr (s, h\<lparr>blk_bufs := (blk_bufs h)(lim h \<mapsto> flat blocks), lim := Suc (lim h)\<rparr>)"
    and "send_delta s = 0"
    and "\<And>H. blk_bufs H (lim h) = Some (flat blocks) \<Longrightarrow> send_holds H s (length blocks) (\<lambda>i x. if x then snd (blocks ! i) else fst (blocks ! i))"
    and "\<And>H delta. blk_bufs H (lim h) = Some (flat blocks) \<Longrightarrow> delta \<noteq> 0 \<Longrightarrow> (\<forall>i < length blocks. snd (blocks ! i) = fst (blocks ! i) XOR delta)
       \<Longrightarrow> send_holds H (s\<lparr>send_delta := delta\<rparr>) (length blocks) (\<lambda>i x. if x then snd (blocks ! i) else fst (blocks ! i))"
proof -
  let ?n = "of_nat (length blocks) * 2 :: 64 word"
  have n: "unat ?n = 2 * length blocks"
  proof -
    have "?n = of_nat (2 * length blocks)" by simp
    then show ?thesis using assms(2) by (simp only: unat_of_nat) simp
  qed
  have pos: "0 < ?n" using n assms(1) by (simp add: word_less_nat_alt)
  define s where "s = \<lparr>internal_use_ctr = 0, internal_use_size = ?n, internal_buf_ctr = 0, internal_buf_size = ?n, send_type = Normal, send_delta = 0, send_blk_buf = Some (lim h)\<rparr>"
  have 1: "MakeOtSendStore blocks h = Inr (s, h\<lparr>blk_bufs := (blk_bufs h)(lim h \<mapsto> flat blocks), lim := Suc (lim h)\<rparr>)"
    using n pos by (simp add: MakeOtSendStore_def send_full_def send_ConsistencyCheck_def base_ConsistencyCheck_def deref_def s_def Let_def)
  have ok: "send_ok H (s\<lparr>send_delta := delta\<rparr>)" "send_Size (s\<lparr>send_delta := delta\<rparr>) = of_nat (length blocks)" "\<not> IsSliced (s\<lparr>send_delta := delta\<rparr>)"
    if "blk_bufs H (lim h) = Some (flat blocks)" for H delta
  proof -
    show "send_ok H (s\<lparr>send_delta := delta\<rparr>)" using that n assms(2) by (simp add: send_ok_def deref_def inside_def s_def)
    have "unat (?n div 2) = unat (of_nat (length blocks) :: 64 word)" using n assms(2) by (simp add: unat_div unat_of_nat)
    then have "?n div 2 = of_nat (length blocks)" by (simp only: word_unat_eq_iff)
    then show "send_Size (s\<lparr>send_delta := delta\<rparr>) = of_nat (length blocks)" by (simp add: send_Size_def s_def)
    show "\<not> IsSliced (s\<lparr>send_delta := delta\<rparr>)" by (simp add: IsSliced_def s_def)
  qed
  have rd: "GetBufIdx (s\<lparr>send_delta := delta\<rparr>) (2 * of_nat i) = Inr (2 * of_nat i)" "load (flat blocks) (2 * of_nat i) = Inr (fst (blocks ! i))"
    "load (flat blocks) (2 * of_nat i + of_bool x) = Inr (if x then snd (blocks ! i) else fst (blocks ! i))" if "i < length blocks" for i x delta
  proof -
    note u = conjunct2 [OF unat_double [OF that assms(2)]]
    show "GetBufIdx (s\<lparr>send_delta := delta\<rparr>) (2 * of_nat i) = Inr (2 * of_nat i)" using u n that by (simp add: GetBufIdx_def s_def word_less_nat_alt)
    show "load (flat blocks) (2 * of_nat i) = Inr (fst (blocks ! i))" using u that flat_nth [OF that] by (simp add: load_def)
    have "unat (2 * of_nat i + 1 :: 64 word) = 2 * i + 1" using u that assms(2) by (simp add: unat_word_ariths)
    then show "load (flat blocks) (2 * of_nat i + of_bool x) = Inr (if x then snd (blocks ! i) else fst (blocks ! i))"
      using u that flat_nth [OF that] by (cases x) (simp_all add: load_def)
  qed
  have s0: "s\<lparr>send_delta := 0\<rparr> = s" by (simp add: s_def)
  show ?thesis
  proof (rule that [OF 1])
    show "send_delta s = 0" by (simp add: s_def)
    fix H :: ot_heap assume H: "blk_bufs H (lim h) = Some (flat blocks)"
    show "send_holds H s (length blocks) (\<lambda>i x. if x then snd (blocks ! i) else fst (blocks ! i))"
      using ok [OF H, of 0] rd(1) [of _ 0] rd(3) H unfolding s0 by (auto simp: send_holds_def send_GetBlock_def deref_def s_def)
    fix delta :: "128 word" assume d: "delta \<noteq> 0" "\<forall>i < length blocks. snd (blocks ! i) = fst (blocks ! i) XOR delta"
    have "send_GetBlock H (s\<lparr>send_delta := delta\<rparr>) (of_nat i) (of_bool x) = Inr (if x then snd (blocks ! i) else fst (blocks ! i))" if "i < length blocks" for i x
      using rd(1) [OF that, of delta] rd(2) [OF that] d(1) d(2) that H by (cases x) (simp_all add: send_GetBlock_def deref_def s_def ot_blk_num_def)
    then show "send_holds H (s\<lparr>send_delta := delta\<rparr>) (length blocks) (\<lambda>i x. if x then snd (blocks ! i) else fst (blocks ! i))"
      using ok [OF H, of delta] by (simp add: send_holds_def)
  qed
qed

lemma make_compact_send:
  assumes "0 < length blocks" and "length blocks < 2 ^ 64" and "delta \<noteq> 0"
  obtains s where "MakeCompactOtSendStore blocks delta h = Inr (s, h\<lparr>blk_bufs := (blk_bufs h)(lim h \<mapsto> blocks), lim := Suc (lim h)\<rparr>)"
    and "send_delta s = delta"
    and "\<And>H. blk_bufs H (lim h) = Some blocks \<Longrightarrow> send_holds H s (length blocks) (\<lambda>i x. if x then blocks ! i XOR delta else blocks ! i)"
proof -
  let ?n = "of_nat (length blocks) :: 64 word"
  have n: "unat ?n = length blocks" using assms(2) by (simp add: unat_of_nat)
  have pos: "0 < ?n" using n assms(1) by (simp add: word_less_nat_alt)
  define s where "s = \<lparr>internal_use_ctr = 0, internal_use_size = ?n, internal_buf_ctr = 0, internal_buf_size = ?n, send_type = Compact, send_delta = delta, send_blk_buf = Some (lim h)\<rparr>"
  have 1: "MakeCompactOtSendStore blocks delta h = Inr (s, h\<lparr>blk_bufs := (blk_bufs h)(lim h \<mapsto> blocks), lim := Suc (lim h)\<rparr>)"
    using n pos by (simp add: MakeCompactOtSendStore_def send_full_def send_ConsistencyCheck_def base_ConsistencyCheck_def deref_def s_def Let_def)
  have "send_holds H s (length blocks) (\<lambda>i x. if x then blocks ! i XOR delta else blocks ! i)" if H: "blk_bufs H (lim h) = Some blocks" for H
    unfolding send_holds_def
  proof (intro conjI allI impI)
    show "send_ok H s" using H n assms(2) by (simp add: send_ok_def deref_def inside_def s_def)
    show "send_Size s = of_nat (length blocks)" "\<not> IsSliced s" by (simp_all add: send_Size_def IsSliced_def s_def)
    fix i x assume i: "i < length blocks"
    have u: "unat (of_nat i :: 64 word) = i" using i assms(2) by (simp add: unat_of_nat)
    then have "(of_nat i :: 64 word) < ?n" using i n by (simp add: word_less_nat_alt)
    then show "send_GetBlock H s (of_nat i) (of_bool x) = Inr (if x then blocks ! i XOR delta else blocks ! i)"
      using u i assms(3) H by (cases x) (simp_all add: send_GetBlock_def GetBufIdx_def load_def deref_def s_def ot_blk_num_def)
  qed
  then show ?thesis by (intro that [OF 1]) (simp_all add: s_def)
qed

lemma make_recv:
  assumes "0 < length blocks" and "length blocks < 2 ^ 64" and "m_bits_number choices = length blocks"
  obtains r where "MakeOtRecvStore choices blocks h = Inr (r, h\<lparr>bit_bufs := (bit_bufs h)(lim h \<mapsto> bits_of choices), blk_bufs := (blk_bufs h)(lim h \<mapsto> blocks), lim := Suc (lim h)\<rparr>)"
    and "\<And>H. blk_bufs H (lim h) = Some blocks \<Longrightarrow> bit_bufs H (lim h) = Some (bits_of choices)
       \<Longrightarrow> recv_holds H r (length blocks) (\<lambda>i. bits_of choices ! i) (\<lambda>i. blocks ! i)"
proof -
  let ?n = "of_nat (length blocks) :: 64 word"
  have n: "unat ?n = length blocks" using assms(2) by (simp add: unat_of_nat)
  have pos: "0 < ?n" using n assms(1) by (simp add: word_less_nat_alt)
  have b: "length (bits_of choices) = length blocks" using assms(3) by (simp add: bits_of_def)
  define r where "r = \<lparr>internal_use_ctr = 0, internal_use_size = ?n, internal_buf_ctr = 0, internal_buf_size = ?n, recv_type = Normal, bit_buf = Some (lim h), recv_blk_buf = Some (lim h)\<rparr>"
  have 1: "MakeOtRecvStore choices blocks h = Inr (r, h\<lparr>bit_bufs := (bit_bufs h)(lim h \<mapsto> bits_of choices), blk_bufs := (blk_bufs h)(lim h \<mapsto> blocks), lim := Suc (lim h)\<rparr>)"
    using n pos b assms(3) by (simp add: MakeOtRecvStore_def recv_full_def recv_ConsistencyCheck_def base_ConsistencyCheck_def deref_def r_def Let_def)
  have "recv_holds H r (length blocks) (\<lambda>i. bits_of choices ! i) (\<lambda>i. blocks ! i)" if H: "blk_bufs H (lim h) = Some blocks" "bit_bufs H (lim h) = Some (bits_of choices)" for H
    unfolding recv_holds_def
  proof (intro conjI allI impI)
    show "recv_ok H r" using H n assms(2) b by (simp add: recv_ok_def deref_def inside_def r_def)
    show "internal_use_size r = of_nat (length blocks)" "\<not> IsSliced r" by (simp_all add: IsSliced_def r_def)
    fix i assume i: "i < length blocks"
    have u: "unat (of_nat i :: 64 word) = i" using i assms(2) by (simp add: unat_of_nat)
    then have "(of_nat i :: 64 word) < ?n" using i n by (simp add: word_less_nat_alt)
    then show "recv_GetChoice H r (of_nat i) = Inr (bits_of choices ! i)" "recv_GetBlock H r (of_nat i) = Inr (blocks ! i)"
      using u i b H by (simp_all add: recv_GetChoice_def recv_GetBlock_def GetBufIdx_def load_def deref_def r_def)
  qed
  then show ?thesis by (rule that [OF 1])
qed

lemma make_compact_recv:
  assumes "0 < length blocks" and "length blocks < 2 ^ 64"
  obtains r where "MakeCompactOtRecvStore blocks h = Inr (r, h\<lparr>blk_bufs := (blk_bufs h)(lim h \<mapsto> blocks), lim := Suc (lim h)\<rparr>)"
    and "\<And>H. blk_bufs H (lim h) = Some blocks \<Longrightarrow> recv_holds H r (length blocks) (\<lambda>i. blocks ! i AND 1 = 1) (\<lambda>i. blocks ! i)"
proof -
  let ?n = "of_nat (length blocks) :: 64 word"
  have n: "unat ?n = length blocks" using assms(2) by (simp add: unat_of_nat)
  have pos: "0 < ?n" using n assms(1) by (simp add: word_less_nat_alt)
  define r where "r = \<lparr>internal_use_ctr = 0, internal_use_size = ?n, internal_buf_ctr = 0, internal_buf_size = ?n, recv_type = Compact, bit_buf = None, recv_blk_buf = Some (lim h)\<rparr>"
  have 1: "MakeCompactOtRecvStore blocks h = Inr (r, h\<lparr>blk_bufs := (blk_bufs h)(lim h \<mapsto> blocks), lim := Suc (lim h)\<rparr>)"
    using n pos by (simp add: MakeCompactOtRecvStore_def recv_full_def recv_ConsistencyCheck_def base_ConsistencyCheck_def deref_def r_def Let_def)
  have "recv_holds H r (length blocks) (\<lambda>i. blocks ! i AND 1 = 1) (\<lambda>i. blocks ! i)" if H: "blk_bufs H (lim h) = Some blocks" for H
    unfolding recv_holds_def
  proof (intro conjI allI impI)
    show "recv_ok H r" using H n assms(2) by (simp add: recv_ok_def deref_def inside_def r_def)
    show "internal_use_size r = of_nat (length blocks)" "\<not> IsSliced r" by (simp_all add: IsSliced_def r_def)
    fix i assume i: "i < length blocks"
    have u: "unat (of_nat i :: 64 word) = i" using i assms(2) by (simp add: unat_of_nat)
    then have "(of_nat i :: 64 word) < ?n" using i n by (simp add: word_less_nat_alt)
    then show "recv_GetChoice H r (of_nat i) = Inr (blocks ! i AND 1 = 1)" "recv_GetBlock H r (of_nat i) = Inr (blocks ! i)"
      using u i H by (simp_all add: recv_GetChoice_def recv_GetBlock_def GetBufIdx_def load_def deref_def r_def)
  qed
  then show ?thesis by (rule that [OF 1])
qed

subsection \<open>Mocked transfers\<close>

text \<open>A loop that appends to two vectors, with a relation between their elements.\<close>

lemma fold_append_two:
  assumes "\<And>i gen xs ys. length xs = i \<Longrightarrow> length ys = i \<Longrightarrow> \<exists>gen' x y. f i (gen, xs, ys) = (gen', xs @ [x], ys @ [y]) \<and> P i x y"
  shows "\<exists>gen' xs ys. fold f [0 ..< n] (gen, [], []) = (gen', xs, ys) \<and> length xs = n \<and> length ys = n \<and> (\<forall>i < n. P i (xs ! i) (ys ! i))"
proof (induction n)
  case (Suc n)
  then obtain gen' xs ys where *: "fold f [0 ..< n] (gen, [], []) = (gen', xs, ys)" "length xs = n" "length ys = n" "\<forall>i < n. P i (xs ! i) (ys ! i)"
    by blast
  obtain gen'' x y where "f n (gen', xs, ys) = (gen'', xs @ [x], ys @ [y])" "P n x y" using assms [OF *(2,3)] by blast
  then show ?case using * by (auto simp: nth_append less_Suc_eq)
qed simp

lemma test_bits: "check_consistency c \<Longrightarrow> i < m_bits_number c \<Longrightarrow> test i c = Some True \<longleftrightarrow> bits_of c ! i"
  using test_rep [of c "bits_of c" i] by (simp add: bits_rep_iff bits_of_def)

theorem MockRots_pair:
  assumes "check_consistency choices" and "m_bits_number choices = unat num" and "0 < num" and "2 * unat num < 2 ^ 64"
  shows "\<exists>s r h'. MockRots enc seed num choices h = Inr ((s, r), h') \<and> ot_pair h' s h' r
    \<and> internal_use_size r = num \<and> \<not> IsSliced s \<and> \<not> IsSliced r \<and> recv_CopyBitBuf h' r = Inr (bits_of choices)"
proof -
  let ?n = "unat num"
  have "\<exists>gen' sb rb. fold (mock_rot enc choices) [0 ..< ?n] (new_prg 16 seed kAesEcb, [], []) = (gen', sb, rb) \<and> length sb = ?n \<and> length rb = ?n
    \<and> (\<forall>i < ?n. rb ! i = (if test i choices = Some True then snd (sb ! i) else fst (sb ! i)))"
    by (rule fold_append_two) (auto simp: mock_rot_def split_beta Let_def)
  then obtain gen' sb rb where *: "fold (mock_rot enc choices) [0 ..< ?n] (new_prg 16 seed kAesEcb, [], []) = (gen', sb, rb)" "length sb = ?n" "length rb = ?n"
    "\<forall>i < ?n. rb ! i = (if test i choices = Some True then snd (sb ! i) else fst (sb ! i))" by blast
  have n: "0 < ?n" "?n < 2 ^ 64" using assms(3,4) by (simp_all add: word_less_nat_alt)
  let ?h = "h\<lparr>blk_bufs := (blk_bufs h)(lim h \<mapsto> flat sb), lim := Suc (lim h)\<rparr>"
  have l: "0 < length sb" "2 * length sb < 2 ^ 64" "0 < length rb" "length rb < 2 ^ 64" "m_bits_number choices = length rb" using n assms(2,4) *(2,3) by simp_all
  obtain s where s: "MakeOtSendStore sb h = Inr (s, ?h)" "\<And>H. blk_bufs H (lim h) = Some (flat sb) \<Longrightarrow> send_holds H s (length sb) (\<lambda>i x. if x then snd (sb ! i) else fst (sb ! i))"
    by (rule make_send [OF l(1,2), of h]) (rule that)
  let ?h' = "?h\<lparr>bit_bufs := (bit_bufs ?h)(lim ?h \<mapsto> bits_of choices), blk_bufs := (blk_bufs ?h)(lim ?h \<mapsto> rb), lim := Suc (lim ?h)\<rparr>"
  obtain r where r: "MakeOtRecvStore choices rb ?h = Inr (r, ?h')"
    "\<And>H. blk_bufs H (lim ?h) = Some rb \<Longrightarrow> bit_bufs H (lim ?h) = Some (bits_of choices) \<Longrightarrow> recv_holds H r (length rb) (\<lambda>i. bits_of choices ! i) (\<lambda>i. rb ! i)"
    by (rule make_recv [OF l(3,4,5), of ?h]) (rule that)
  have S: "send_holds ?h' s ?n (\<lambda>i x. if x then snd (sb ! i) else fst (sb ! i))" unfolding *(2) [symmetric] by (rule s(2)) simp
  have R: "recv_holds ?h' r ?n (\<lambda>i. bits_of choices ! i) (\<lambda>i. rb ! i)" unfolding *(3) [symmetric] by (rule r(2)) simp_all
  have "ot_pair ?h' s ?h' r" using *(4) test_bits [OF assms(1)] assms(2) n by (intro holds_ot_pair [OF S R]) simp_all
  moreover have "recv_CopyBitBuf ?h' r = Inr (map (\<lambda>i. bits_of choices ! i) [0 ..< rsize r])"
    using R by (intro recv_CopyBitBuf_ok) (simp_all add: recv_holds_def rsize_def unat_of_nat)
  moreover have "map (\<lambda>i. bits_of choices ! i) [0 ..< rsize r] = bits_of choices"
    using R assms(2) by (intro nth_equalityI) (simp_all add: recv_holds_def rsize_def bits_of_def)
  moreover have "internal_use_size r = num" using R by (simp add: recv_holds_def)
  ultimately have "ot_pair ?h' s ?h' r \<and> internal_use_size r = num \<and> recv_CopyBitBuf ?h' r = Inr (bits_of choices)" by simp
  moreover have "MockRots enc seed num choices h = Inr ((s, r), ?h')" using s(1) r(1) *(1) assms(2) by (simp add: MockRots_def)
  ultimately show ?thesis using S R unfolding send_holds_def recv_holds_def by blast
qed

theorem MockCots_pair:
  assumes "check_consistency choices" and "m_bits_number choices = unat num" and "0 < num" and "delta \<noteq> 0"
  shows "\<exists>s r h'. MockCots enc seed num delta choices h = Inr ((s, r), h') \<and> cot_pair h' s h' r \<and> send_delta s = delta \<and> internal_use_size r = num"
proof -
  let ?n = "unat num"
  have "\<exists>gen' sb rb. fold (mock_cot enc delta choices) [0 ..< ?n] (new_prg 16 seed kAesEcb, [], []) = (gen', sb, rb) \<and> length sb = ?n \<and> length rb = ?n
    \<and> (\<forall>i < ?n. rb ! i = (if test i choices = Some True then sb ! i XOR delta else sb ! i))"
    by (rule fold_append_two) (auto simp: mock_cot_def split_beta Let_def)
  then obtain gen' sb rb where *: "fold (mock_cot enc delta choices) [0 ..< ?n] (new_prg 16 seed kAesEcb, [], []) = (gen', sb, rb)" "length sb = ?n" "length rb = ?n"
    "\<forall>i < ?n. rb ! i = (if test i choices = Some True then sb ! i XOR delta else sb ! i)" by blast
  have n: "0 < ?n" "?n < 2 ^ 64" using assms(3) unsigned_less [of num] by (simp_all add: word_less_nat_alt)
  have l: "0 < length sb" "length sb < 2 ^ 64" "0 < length rb" "length rb < 2 ^ 64" "m_bits_number choices = length rb" using n assms(2) *(2,3) by simp_all
  let ?h = "h\<lparr>blk_bufs := (blk_bufs h)(lim h \<mapsto> sb), lim := Suc (lim h)\<rparr>"
  obtain s where s: "MakeCompactOtSendStore sb delta h = Inr (s, ?h)" "send_delta s = delta"
    "\<And>H. blk_bufs H (lim h) = Some sb \<Longrightarrow> send_holds H s (length sb) (\<lambda>i x. if x then sb ! i XOR delta else sb ! i)"
    by (rule make_compact_send [OF l(1,2) assms(4), of h]) (rule that)
  let ?h' = "?h\<lparr>bit_bufs := (bit_bufs ?h)(lim ?h \<mapsto> bits_of choices), blk_bufs := (blk_bufs ?h)(lim ?h \<mapsto> rb), lim := Suc (lim ?h)\<rparr>"
  obtain r where r: "MakeOtRecvStore choices rb ?h = Inr (r, ?h')"
    "\<And>H. blk_bufs H (lim ?h) = Some rb \<Longrightarrow> bit_bufs H (lim ?h) = Some (bits_of choices) \<Longrightarrow> recv_holds H r (length rb) (\<lambda>i. bits_of choices ! i) (\<lambda>i. rb ! i)"
    by (rule make_recv [OF l(3,4,5), of ?h]) (rule that)
  have S: "send_holds ?h' s ?n (\<lambda>i x. if x then sb ! i XOR delta else sb ! i)" unfolding *(2) [symmetric] by (rule s(3)) simp
  have R: "recv_holds ?h' r ?n (\<lambda>i. bits_of choices ! i) (\<lambda>i. rb ! i)" unfolding *(3) [symmetric] by (rule r(2)) simp_all
  have "cot_pair ?h' s ?h' r" using *(4) test_bits [OF assms(1)] assms(2,4) n s(2) by (intro holds_cot_pair [OF S R]) simp_all
  moreover have "internal_use_size r = num" using R by (simp add: recv_holds_def)
  moreover have "MockCots enc seed num delta choices h = Inr ((s, r), ?h')" using s(1) r(1) *(1) assms(2) by (simp add: MockCots_def)
  ultimately show ?thesis using s(2) by blast
qed

theorem MockCompactOts_pair:
  assumes "0 < num"
  shows "\<exists>s r h'. MockCompactOts enc rand_delta seed num h = Inr ((s, r), h') \<and> cot_pair h' s h' r \<and> send_delta s = rand_delta OR 1 \<and> internal_use_size r = num"
proof -
  let ?n = "unat num" and ?d = "rand_delta OR 1"
  have d: "?d \<noteq> 0"
  proof
    assume "?d = 0"
    then have "bit ?d 0 = bit (0 :: 128 word) 0" by simp
    then show False by (simp add: bit_or_iff)
  qed
  have one: "x AND 1 = (if x AND 1 = 1 then 1 else 0)" for x :: "128 word" by (simp add: and_one_eq mod_2_eq_odd)
  have "\<exists>gen' sb rb. fold (mock_compact enc ?d) [0 ..< ?n] (new_prg 16 seed kAesEcb, [], []) = (gen', sb, rb) \<and> length sb = ?n \<and> length rb = ?n
    \<and> (\<forall>i < ?n. sb ! i = rb ! i XOR (rb ! i AND 1) * ?d)"
    by (rule fold_append_two) (auto simp: mock_compact_def split_beta Let_def)
  then obtain gen' sb rb where *: "fold (mock_compact enc ?d) [0 ..< ?n] (new_prg 16 seed kAesEcb, [], []) = (gen', sb, rb)" "length sb = ?n" "length rb = ?n"
    "\<forall>i < ?n. sb ! i = rb ! i XOR (rb ! i AND 1) * ?d" by blast
  have n: "0 < ?n" "?n < 2 ^ 64" using assms unsigned_less [of num] by (simp_all add: word_less_nat_alt)
  have l: "0 < length sb" "length sb < 2 ^ 64" "0 < length rb" "length rb < 2 ^ 64" using n *(2,3) by simp_all
  let ?h = "h\<lparr>blk_bufs := (blk_bufs h)(lim h \<mapsto> sb), lim := Suc (lim h)\<rparr>"
  obtain s where s: "MakeCompactOtSendStore sb ?d h = Inr (s, ?h)" "send_delta s = ?d"
    "\<And>H. blk_bufs H (lim h) = Some sb \<Longrightarrow> send_holds H s (length sb) (\<lambda>i x. if x then sb ! i XOR ?d else sb ! i)"
    by (rule make_compact_send [OF l(1,2) d, of h]) (rule that)
  let ?h' = "?h\<lparr>blk_bufs := (blk_bufs ?h)(lim ?h \<mapsto> rb), lim := Suc (lim ?h)\<rparr>"
  obtain r where r: "MakeCompactOtRecvStore rb ?h = Inr (r, ?h')"
    "\<And>H. blk_bufs H (lim ?h) = Some rb \<Longrightarrow> recv_holds H r (length rb) (\<lambda>i. rb ! i AND 1 = 1) (\<lambda>i. rb ! i)"
    by (rule make_compact_recv [OF l(3,4), of ?h]) (rule that)
  have S: "send_holds ?h' s ?n (\<lambda>i x. if x then sb ! i XOR ?d else sb ! i)" unfolding *(2) [symmetric] by (rule s(3)) simp
  have R: "recv_holds ?h' r ?n (\<lambda>i. rb ! i AND 1 = 1) (\<lambda>i. rb ! i)" unfolding *(3) [symmetric] by (rule r(2)) simp
  have "rb ! i = (if rb ! i AND 1 = 1 then sb ! i XOR ?d else sb ! i)" if "i < ?n" for i
    using *(4) that one [of "rb ! i"] by (cases "rb ! i AND 1 = 1") (simp_all add: ac_simps)
  then have "cot_pair ?h' s ?h' r" using n s(2) d by (intro holds_cot_pair [OF S R]) simp_all
  moreover have "internal_use_size r = num" using R by (simp add: recv_holds_def)
  moreover have "MockCompactOts enc rand_delta seed num h = Inr ((s, r), ?h')" using s(1) r(1) *(1) by (simp add: MockCompactOts_def)
  ultimately show ?thesis using s(2) by blast
qed

end
