(* ===== verification/Iknp.thy ===== *)
theory Iknp
  imports Transpose OtMake
begin

text \<open>
  \<^verbatim>\<open>ot/iknp_ote.cc\<close>: the extension of 128 base transfers to any number of transfers. The sender of the
  extension is the receiver of the base transfers. Batches of 128 are columns of a matrix that both
  parties transpose.

  A message is a list of \<^verbatim>\<open>uint128_t\<close>. The array that a message is copied to, and the vectors of the
  transposition, are not initialised: their contents are arguments.
\<close>

unbundle bit_operations_syntax

definition PrgAesCtr :: "cipher \<Rightarrow> 128 word \<Rightarrow> nat \<Rightarrow> 128 word list" where
  "PrgAesCtr enc seed num =
     (let buf = snd (FillPRand enc AES128_CTR seed 0 0 (16 * num))
      in map (\<lambda>i. u128_of_bytes (take 16 (drop (16 * i) buf))) [0 ..< num])"

record iknp_stack =
  sse2 :: bool
  vec_a :: "128 word \<times> 128 word"
  vec_b :: "128 word \<times> 128 word"
  array :: "128 word list"

definition kKappa :: nat where
  "kKappa = 128"

definition XorBatchedBlock :: "128 word list \<Rightarrow> 128 word \<Rightarrow> 128 word list" where
  "XorBatchedBlock inp block = map (\<lambda>x. x XOR block) inp"

definition batches :: "nat \<Rightarrow> nat" where
  "batches n = (n + 128 - 1) div 128"

subsection \<open>The sender\<close>

definition iknp_select :: "ot_heap \<Rightarrow> OtRecvStore \<Rightarrow> 128 word list list \<Rightarrow> nat \<Rightarrow> nat \<Rightarrow> 128 word list \<Rightarrow> 128 word list ot_result" where
  "iknp_select h base_ot ts batch_offset k batch0 =
     followed (recv_GetChoice h base_ot (of_nat k)) (\<lambda>choice.
     Inr (batch0[k := (if choice then batch0 ! k XOR ts ! k ! batch_offset else ts ! k ! batch_offset)]))"

definition iknp_send_batch :: "cipher \<Rightarrow> iknp_stack \<Rightarrow> ot_heap \<Rightarrow> OtRecvStore \<Rightarrow> 128 word list list \<Rightarrow> 128 word list list \<Rightarrow> bool \<Rightarrow> nat \<Rightarrow>
    (128 word \<times> 128 word) list \<Rightarrow> (128 word \<times> 128 word) list ot_result" where
  "iknp_send_batch enc st h base_ot ts msgs cot i send_blocks =
     (let batch_offset = i * 128 div 128;
          buf = msgs ! i
      in if length buf > 128 then Inl Undef
         else
           followed (run_levels (iknp_select h base_ot ts batch_offset) [0 ..< kKappa] (buf @ drop (length buf) (array st))) (\<lambda>batch0.
           followed (recv_CopyBitBuf h base_ot) (\<lambda>tmp_choice.
           let batch0 = MatrixTranspose128 (sse2 st) (vec_a st) (vec_b st) batch0;
               batch1 = XorBatchedBlock batch0 (horner_sum of_bool 2 (take 128 tmp_choice));
               batch0 = (if \<not> cot then ParaCrHashInplace_128 enc batch0 else batch0);
               batch1 = (if \<not> cot then ParaCrHashInplace_128 enc batch1 else batch1);
               limit = min 128 (length send_blocks - i * 128)
           in Inr (fold (\<lambda>j out. out[i * 128 + j := (batch0 ! j, batch1 ! j)]) [0 ..< limit] send_blocks))))"

definition IknpOtExtSend :: "cipher \<Rightarrow> iknp_stack \<Rightarrow> ot_heap \<Rightarrow> OtRecvStore \<Rightarrow> 128 word list list \<Rightarrow> bool \<Rightarrow>
    (128 word \<times> 128 word) list \<Rightarrow> (128 word \<times> 128 word) list ot_result" where
  "IknpOtExtSend enc st h base_ot msgs cot send_blocks =
     enforce (unat (internal_use_size base_ot) = kKappa) (
     enforce (send_blocks \<noteq> []) (
     enforce (\<not> IsSliced base_ot) (
     let batch_num = batches (length send_blocks);
         block_num = batch_num * 128 div 128
     in followed (collect (\<lambda>k. followed (recv_GetBlock h base_ot (of_nat k)) (\<lambda>seed. Inr (PrgAesCtr enc seed block_num))) [0 ..< kKappa]) (\<lambda>ts.
        enforce (length msgs \<ge> block_num) (
        run_levels (iknp_send_batch enc st h base_ot ts msgs cot) [0 ..< block_num] send_blocks)))))"

subsection \<open>The receiver\<close>

definition iknp_recv_batch :: "cipher \<Rightarrow> iknp_stack \<Rightarrow> 128 word list list \<Rightarrow> 128 word list list \<Rightarrow> 128 word dynamic_bitset \<Rightarrow> bool \<Rightarrow> nat \<Rightarrow>
    128 word list list \<times> 128 word list \<Rightarrow> 128 word list list \<times> 128 word list" where
  "iknp_recv_batch enc st t0 t1 choices_copy cot i out =
     (case out of (sent, recv_blocks) \<Rightarrow>
        let batch_offset = i * 128 div 128;
            batch_choice = m_blocks choices_copy ! i;
            batch_data = map (\<lambda>k. t0 ! k ! batch_offset XOR t1 ! k ! batch_offset XOR batch_choice) [0 ..< kKappa];
            batch = map (\<lambda>k. t0 ! k ! batch_offset) [0 ..< kKappa];
            batch = MatrixTranspose128 (sse2 st) (vec_a st) (vec_b st) batch;
            limit = min 128 (length recv_blocks - i * 128);
            batch = (if \<not> cot then ParaCrHashInplace_128 enc batch else batch)
        in (sent @ [batch_data], fold (\<lambda>j out. out[i * 128 + j := batch ! j]) [0 ..< limit] recv_blocks))"

definition IknpOtExtRecv :: "cipher \<Rightarrow> iknp_stack \<Rightarrow> ot_heap \<Rightarrow> OtSendStore \<Rightarrow> 128 word dynamic_bitset \<Rightarrow> bool \<Rightarrow>
    128 word list \<Rightarrow> (128 word list list \<times> 128 word list) ot_result" where
  "IknpOtExtRecv enc st h base_ot choices cot recv_blocks =
     enforce (unat (send_Size base_ot) = kKappa) (
     enforce (length recv_blocks = m_bits_number choices) (
     enforce (recv_blocks \<noteq> []) (
     enforce (\<not> IsSliced base_ot) (
     let batch_num = batches (length recv_blocks);
         block_num = batch_num * 128 div 128
     in followed (collect (\<lambda>k. followed (send_GetBlock h base_ot (of_nat k) 0) (\<lambda>seed0. followed (send_GetBlock h base_ot (of_nat k) 1) (\<lambda>seed1.
            Inr (PrgAesCtr enc seed0 block_num, PrgAesCtr enc seed1 block_num)))) [0 ..< kKappa]) (\<lambda>t.
        let choices_copy = resize (batch_num * 128) False choices
        in Inr (fold (iknp_recv_batch enc st (map fst t) (map snd t) choices_copy cot) [0 ..< batch_num] ([], recv_blocks)))))))"

subsection \<open>Stores as results\<close>

definition IknpOtExtSend_store :: "cipher \<Rightarrow> iknp_stack \<Rightarrow> OtRecvStore \<Rightarrow> 128 word list list \<Rightarrow> 32 word \<Rightarrow> bool \<Rightarrow> ot_heap \<Rightarrow> (OtSendStore \<times> ot_heap) ot_result" where
  "IknpOtExtSend_store enc st base_ot msgs ot_num cot h =
     followed (IknpOtExtSend enc st h base_ot msgs cot (replicate (unat ot_num) (0, 0))) (\<lambda>blocks.
     followed (MakeOtSendStore blocks h) (\<lambda>(ret, h).
     if cot
     then followed (recv_CopyBitBuf h base_ot) (\<lambda>tmp_choice.
          followed (SetDelta (horner_sum of_bool 2 (take 128 tmp_choice)) ret) (\<lambda>ret. Inr (ret, h)))
     else Inr (ret, h)))"

definition IknpOtExtRecv_store :: "cipher \<Rightarrow> iknp_stack \<Rightarrow> OtSendStore \<Rightarrow> 128 word dynamic_bitset \<Rightarrow> 32 word \<Rightarrow> bool \<Rightarrow> ot_heap \<Rightarrow>
    (128 word list list \<times> OtRecvStore \<times> ot_heap) ot_result" where
  "IknpOtExtRecv_store enc st base_ot choices ot_num cot h =
     followed (IknpOtExtRecv enc st h base_ot choices cot (replicate (unat ot_num) 0)) (\<lambda>(msgs, blocks).
     followed (MakeOtRecvStore choices blocks h) (\<lambda>(ret, h). Inr (msgs, ret, h)))"

subsection \<open>The matrices of a batch\<close>

lemma PrgAesCtr_length [simp]: "length (PrgAesCtr enc seed num) = num"
  by (simp add: PrgAesCtr_def Let_def)

text \<open>The columns of the sender and of the receiver differ by the choices where the sender's bit is set.\<close>

lemma transposed_xor:
  assumes "length q = 128" and "length t = 128" and "\<And>k. k < 128 \<Longrightarrow> q ! k = (if s k then t ! k XOR r else t ! k)" and "j < 128"
  shows "transposed t ! j = (if bit r j then transposed q ! j XOR horner_sum of_bool 2 (map s [0 ..< 128]) else transposed q ! j)"
proof (rule bit_word_eqI)
  fix k assume "k < LENGTH(128)"
  then have k: "k < 128" by simp
  have "bit (transposed t ! j) k = bit (t ! k) j" "bit (transposed q ! j) k = bit (q ! k) j"
    using transposed_matrix assms(1,2,4) k by (simp_all add: matrix_def)
  moreover have "bit (horner_sum of_bool 2 (map s [0 ..< 128]) :: 128 word) k = s k"
    using k by (simp add: bit_horner_sum_bit_word_iff)
  ultimately show "bit (transposed t ! j) k = bit (if bit r j then transposed q ! j XOR horner_sum of_bool 2 (map s [0 ..< 128]) else transposed q ! j) k"
    using assms(3) [OF k] by (simp add: bit_xor_iff)
qed

subsection \<open>Writing batches\<close>

definition write_batch :: "nat \<Rightarrow> (nat \<Rightarrow> 'a) \<Rightarrow> 'a list \<Rightarrow> 'a list" where
  "write_batch i v xs = fold (\<lambda>j out. out[i * 128 + j := v j]) [0 ..< min 128 (length xs - i * 128)] xs"

lemma write_batch_nth:
  "length (write_batch i v xs) = length xs" "p < length xs \<Longrightarrow> write_batch i v xs ! p = (if p div 128 = i then v (p mod 128) else xs ! p)"
proof -
  let ?F = "\<lambda>n. fold (\<lambda>j out. out[i * 128 + j := v j]) [0 ..< n] xs"
  have F: "length (?F n) = length xs \<and> (p < length xs \<longrightarrow> ?F n ! p = (if i * 128 \<le> p \<and> p < i * 128 + n then v (p - i * 128) else xs ! p))" for n p
    by (induction n) (auto simp: nth_list_update less_Suc_eq)
  show "length (write_batch i v xs) = length xs" using F by (simp add: write_batch_def)
  assume p: "p < length xs"
  have e: "i * 128 \<le> p \<and> p < i * 128 + min 128 (length xs - i * 128) \<longleftrightarrow> p div 128 = i"
  proof
    assume "i * 128 \<le> p \<and> p < i * 128 + min 128 (length xs - i * 128)"
    then show "p div 128 = i" by (intro div_nat_eqI) auto
  next
    assume "p div 128 = i"
    then have "p = i * 128 + p mod 128" by (metis div_mult_mod_eq)
    moreover have "p mod 128 < 128" by simp
    ultimately show "i * 128 \<le> p \<and> p < i * 128 + min 128 (length xs - i * 128)" using p by linarith
  qed
  have m: "p - i * 128 = p mod 128" if "p div 128 = i" using that by (metis minus_div_mult_eq_mod)
  show "write_batch i v xs ! p = (if p div 128 = i then v (p mod 128) else xs ! p)"
    using F [of "min 128 (length xs - i * 128)" p] p m unfolding e write_batch_def by auto
qed

lemma fold_writes: "length (fold (\<lambda>i. write_batch i (V i)) [0 ..< m] xs) = length xs
    \<and> (p < length xs \<longrightarrow> fold (\<lambda>i. write_batch i (V i)) [0 ..< m] xs ! p = (if p div 128 < m then V (p div 128) (p mod 128) else xs ! p))"
  by (induction m) (auto simp: write_batch_nth less_Suc_eq)

lemma run_writes:
  assumes "\<And>i ys. i < m \<Longrightarrow> length ys = length xs \<Longrightarrow> f i ys = Inr (write_batch i (V i) ys)"
  shows "run_levels f [0 ..< m] xs = Inr (fold (\<lambda>i. write_batch i (V i)) [0 ..< m] xs)"
  using assms
proof (induction m)
  case (Suc m)
  have "length (fold (\<lambda>i. write_batch i (V i)) [0 ..< m] xs) = length xs" using fold_writes by blast
  then show ?case using Suc by (simp add: run_levels_snoc)
qed simp

lemma select_all:
  assumes "length batch = 128" and "\<And>k. k < 128 \<Longrightarrow> recv_GetChoice h r (of_nat k) = Inr (b k)"
  shows "run_levels (iknp_select h r ts off) [0 ..< 128] batch = Inr (map (\<lambda>k. if b k then batch ! k XOR ts ! k ! off else ts ! k ! off) [0 ..< 128])"
proof -
  let ?g = "\<lambda>k. if b k then batch ! k XOR ts ! k ! off else ts ! k ! off"
  have "run_levels (iknp_select h r ts off) [0 ..< n] batch = Inr (map ?g [0 ..< n] @ drop n batch)" if "n \<le> 128" for n
    using that
  proof (induction n)
    case (Suc n)
    have "drop n batch = batch ! n # drop (Suc n) batch" using Suc.prems assms(1) by (simp add: Cons_nth_drop_Suc)
    then show ?case using Suc assms(2) [of n] by (simp add: run_levels_snoc iknp_select_def list_update_append nth_append)
  qed simp
  from this [of 128] show ?thesis using assms(1) by simp
qed

lemma batch_bits:
  fixes choices :: "128 word dynamic_bitset"
  assumes "bits_rep choices xs" and "i < batches (length xs)" and "j < 128"
  shows "bit (m_blocks (resize (batches (length xs) * 128) False choices) ! i) j = (i * 128 + j < length xs \<and> xs ! (i * 128 + j))"
proof -
  let ?n = "batches (length xs) * 128"
  let ?ys = "take ?n xs @ replicate (?n - length xs) False"
  have n: "length xs \<le> ?n"
  proof -
    have "length xs + 127 = (length xs + 127) div 128 * 128 + (length xs + 127) mod 128" by simp
    moreover have "(length xs + 127) mod 128 < 128" by simp
    ultimately show ?thesis unfolding batches_def by simp
  qed
  have R: "bits_rep (resize ?n False choices) ?ys" by (rule resize_rep [OF assms(1)])
  have l: "i * 128 + j < ?n"
  proof -
    have "(i + 1) * 128 \<le> ?n" using assms(2) by (intro mult_right_mono) simp_all
    then show ?thesis using assms(3) by simp
  qed
  have d: "(i * 128 + j) div 128 = i" "(i * 128 + j) mod 128 = j" using assms(3) by simp_all
  have "length (m_blocks (resize ?n False choices)) = batches (length xs)"
    using bits_repD(2) [OF R] n by (simp add: blocks_required_def)
  then have "bit (m_blocks (resize ?n False choices) ! i) j = block_bit (m_blocks (resize ?n False choices)) (i * 128 + j)"
    using assms(2) d by (simp add: block_bit_def)
  also have "\<dots> = (i * 128 + j < length xs \<and> xs ! (i * 128 + j))"
    using bits_repD(3) [OF R, of "i * 128 + j"] l n by (auto simp: nth_append)
  finally show ?thesis .
qed

subsection \<open>Both parties\<close>

lemma batches_pos: "p < n \<Longrightarrow> p div 128 < batches n"
  unfolding batches_def by (simp add: less_eq_div_iff_mult_less_eq div_less_iff_less_mult)

lemma hash_batch: "cot \<or> ecb_mode enc \<Longrightarrow> (if \<not> cot then ParaCrHashInplace_128 enc xs else xs) = map (if cot then id else CrHash_128 enc) xs"
  by (cases cot) (simp_all add: ParaCrHashInplace_map)

lemma recv_batches:
  fixes V :: "nat \<Rightarrow> nat \<Rightarrow> 128 word"
  assumes "\<And>i sent ys. i < m \<Longrightarrow> f i (sent, ys) = (sent @ [D i], write_batch i (V i) ys)"
  shows "fold f [0 ..< m] (sent, xs) = (sent @ map D [0 ..< m], fold (\<lambda>i. write_batch i (V i)) [0 ..< m] xs)"
  using assms by (induction m) simp_all

theorem iknp_correct:
  assumes pair: "ot_pair hs s hr r" and size: "unat (internal_use_size r) = 128" and sliced: "\<not> IsSliced s" "\<not> IsSliced r"
    and choices: "check_consistency choices" "m_bits_number choices = n" "0 < n"
    and len: "length recv_blocks = n" "length send_blocks = n" "length (array st) = 128" and enc: "cot \<or> ecb_mode enc"
  shows "\<exists>msgs rb sb bits. IknpOtExtRecv enc st' hs s choices cot recv_blocks = Inr (msgs, rb)
    \<and> IknpOtExtSend enc st hr r msgs cot send_blocks = Inr sb \<and> recv_CopyBitBuf hr r = Inr bits \<and> length rb = n \<and> length sb = n
    \<and> (\<forall>j < n. rb ! j = (if bits_of choices ! j then snd (sb ! j) else fst (sb ! j))
        \<and> (cot \<longrightarrow> snd (sb ! j) = fst (sb ! j) XOR horner_sum of_bool 2 bits))"
proof -
  obtain K b where K: "ot_holds hs s hr r K b" using ot_values [OF pair] .
  have rs: "rsize r = 128" using size by (simp add: rsize_def)
  have v: "recv_GetChoice hr r (of_nat k) = Inr (b k)" "recv_GetBlock hr r (of_nat k) = Inr (K k (b k))"
    "send_GetBlock hs s (of_nat k) 0 = Inr (K k False)" "send_GetBlock hs s (of_nat k) 1 = Inr (K k True)" if "k < 128" for k
    using K that rs unfolding ot_holds_def by (auto dest: spec [where x = k] simp: all_bool_eq)
  define m where "m = batches n"
  define H where "H = (if cot then id else CrHash_128 enc)"
  define S where "S = (horner_sum of_bool 2 (map b [0 ..< 128]) :: 128 word)"
  define T where "T x k = PrgAesCtr enc (K k x) m" for x k
  define rc where "rc i = m_blocks (resize (m * 128) False choices) ! i" for i
  define D where "D i = map (\<lambda>k. T False k ! i XOR T True k ! i XOR rc i) [0 ..< 128]" for i
  define t where "t i = map (\<lambda>k. T False k ! i) [0 ..< 128]" for i
  define q where "q i = map (\<lambda>k. if b k then D i ! k XOR T (b k) k ! i else T (b k) k ! i) [0 ..< 128]" for i
  define R where "R i j = H (transposed (t i) ! j)" for i j
  define Q where "Q i j = (H (transposed (q i) ! j), H (transposed (q i) ! j XOR S))" for i j
  have bits: "recv_CopyBitBuf hr r = Inr (map b [0 ..< 128])" using recv_CopyBitBuf_ok [of hr r b] pair v(1) rs by (simp add: ot_pair_def)
  have tl: "length (transposed x) = 128" for x by (simp add: transposed_def)
  have recv: "iknp_recv_batch enc st' (map (T False) [0 ..< 128]) (map (T True) [0 ..< 128]) (resize (m * 128) False choices) cot i (sent, ys) = (sent @ [D i], write_batch i (R i) ys)" for i sent ys
  proof -
    have "map (\<lambda>k. map (T False) [0 ..< 128] ! k ! i) [0 ..< 128] = t i" "map (\<lambda>k. map (T False) [0 ..< 128] ! k ! i XOR map (T True) [0 ..< 128] ! k ! i XOR rc i) [0 ..< 128] = D i"
      by (simp_all add: t_def D_def)
    moreover have "length (t i) = 128" by (simp add: t_def)
    moreover have "fold (\<lambda>j out. out[i * 128 + j := map H (transposed (t i)) ! j]) [0 ..< min 128 (length ys - i * 128)] ys = write_batch i (R i) ys"
      unfolding write_batch_def by (rule fold_cong) (simp_all add: R_def tl)
    ultimately show ?thesis
      unfolding iknp_recv_batch_def Let_def prod.case kKappa_def hash_batch [OF enc] H_def [symmetric] by (simp add: matrix_transpose_correct rc_def)
  qed
  have send: "iknp_send_batch enc st hr r (map (\<lambda>k. T (b k) k) [0 ..< 128]) (map D [0 ..< m]) cot i ys = Inr (write_batch i (Q i) ys)" if "i < m" for i ys
  proof -
    have "length (D i) = 128" by (simp add: D_def)
    moreover have "map (\<lambda>k. if b k then D i ! k XOR map (\<lambda>k. T (b k) k) [0 ..< 128] ! k ! i else map (\<lambda>k. T (b k) k) [0 ..< 128] ! k ! i) [0 ..< 128] = q i"
      by (simp add: q_def)
    moreover have "length (q i) = 128" by (simp add: q_def)
    moreover have "fold (\<lambda>j out. out[i * 128 + j := (map H (transposed (q i)) ! j, map H (XorBatchedBlock (transposed (q i)) S) ! j)]) [0 ..< min 128 (length ys - i * 128)] ys = write_batch i (Q i) ys"
      unfolding write_batch_def by (rule fold_cong) (simp_all add: Q_def tl XorBatchedBlock_def)
    ultimately show ?thesis
      unfolding iknp_send_batch_def Let_def kKappa_def hash_batch [OF enc] H_def [symmetric]
      using that select_all [OF _ v(1), of "D i" "map (\<lambda>k. T (b k) k) [0 ..< 128]" i] len(3) bits by (simp add: matrix_transpose_correct S_def)
  qed
  let ?rb = "fold (\<lambda>i. write_batch i (R i)) [0 ..< m] recv_blocks" and ?sb = "fold (\<lambda>i. write_batch i (Q i)) [0 ..< m] send_blocks"
  have c: "collect (\<lambda>k. followed (send_GetBlock hs s (of_nat k) 0) (\<lambda>seed0. followed (send_GetBlock hs s (of_nat k) 1) (\<lambda>seed1.
        Inr (PrgAesCtr enc seed0 m, PrgAesCtr enc seed1 m)))) [0 ..< 128] = Inr (map (\<lambda>k. (T False k, T True k)) [0 ..< 128])"
    "collect (\<lambda>k. followed (recv_GetBlock hr r (of_nat k)) (\<lambda>seed. Inr (PrgAesCtr enc seed m))) [0 ..< 128] = Inr (map (\<lambda>k. T (b k) k) [0 ..< 128])"
    by (rule collect_map; simp add: v T_def)+
  have ne: "recv_blocks \<noteq> []" "send_blocks \<noteq> []" using len choices(3) by auto
  have sz: "unat (send_Size s) = 128" using pair size by (simp add: ot_pair_def)
  have 1: "IknpOtExtRecv enc st' hs s choices cot recv_blocks = Inr (map D [0 ..< m], ?rb)"
    using recv_batches [of m "iknp_recv_batch enc st' (map (T False) [0 ..< 128]) (map (T True) [0 ..< 128]) (resize (m * 128) False choices) cot" D R "[]" recv_blocks] recv
      sz len choices(2) ne sliced c(1) by (simp add: IknpOtExtRecv_def kKappa_def m_def Let_def comp_def)
  have 2: "IknpOtExtSend enc st hr r (map D [0 ..< m]) cot send_blocks = Inr ?sb"
    using run_writes [of m send_blocks "iknp_send_batch enc st hr r (map (\<lambda>k. T (b k) k) [0 ..< 128]) (map D [0 ..< m]) cot" Q] send
      size len ne sliced c(2) by (simp add: IknpOtExtSend_def kKappa_def m_def Let_def)
  have "?rb ! p = (if bits_of choices ! p then snd (?sb ! p) else fst (?sb ! p)) \<and> (cot \<longrightarrow> snd (?sb ! p) = fst (?sb ! p) XOR S)" if p: "p < n" for p
  proof -
    let ?i = "p div 128" and ?j = "p mod 128"
    have i: "?i < m" using batches_pos [OF p] by (simp add: m_def)
    have rep: "bits_rep choices (bits_of choices)" "length (bits_of choices) = n" using choices by (simp_all add: bits_rep_iff)
    have "bit (rc ?i) ?j = bits_of choices ! p"
      using batch_bits [OF rep(1), of ?i ?j] rep(2) i p unfolding rc_def m_def by (simp add: mult.commute)
    moreover have "q ?i ! k = (if b k then t ?i ! k XOR rc ?i else t ?i ! k)" if "k < 128" for k
      using that by (cases "b k") (simp_all add: q_def t_def D_def ac_simps)
    then have "transposed (t ?i) ! ?j = (if bit (rc ?i) ?j then transposed (q ?i) ! ?j XOR S else transposed (q ?i) ! ?j)"
      unfolding S_def by (intro transposed_xor) (simp_all add: q_def t_def)
    moreover have "?rb ! p = R ?i ?j" "?sb ! p = Q ?i ?j" using fold_writes [of R m recv_blocks p] fold_writes [of Q m send_blocks p] i p len by simp_all
    ultimately show ?thesis by (simp add: R_def Q_def H_def)
  qed
  moreover have "length ?rb = n" "length ?sb = n" using fold_writes [of R m recv_blocks 0] fold_writes [of Q m send_blocks 0] len by simp_all
  ultimately show ?thesis using 1 2 bits by (intro exI [of _ "map D [0 ..< m]"] exI [of _ ?rb] exI [of _ ?sb] exI [of _ "map b [0 ..< 128]"]) (simp add: S_def)
qed

text \<open>A message that is longer than the array it is copied to.\<close>

lemma iknp_long_message:
  assumes "length (hd msgs) > 128" and "msgs \<noteq> []" and "unat (internal_use_size r) = 128" and "\<not> IsSliced r" and "length send_blocks \<in> {1 .. 128}"
    and "\<And>k. k < 128 \<Longrightarrow> \<exists>x. recv_GetBlock hr r (of_nat k) = Inr x"
  shows "IknpOtExtSend enc st hr r msgs cot send_blocks = Inl Undef"
proof -
  have "batches (length send_blocks) = 1" using assms(5) unfolding batches_def by (intro div_nat_eqI) auto
  moreover obtain g where "\<And>k. k < 128 \<Longrightarrow> recv_GetBlock hr r (of_nat k) = Inr (g k)" using assms(6) by metis
  then have "collect (\<lambda>k. followed (recv_GetBlock hr r (of_nat k)) (\<lambda>seed. Inr (PrgAesCtr enc seed 1))) [0 ..< 128] = Inr (map (\<lambda>k. PrgAesCtr enc (g k) 1) [0 ..< 128])"
    by (intro collect_map) simp
  moreover have "send_blocks \<noteq> []" "Suc 0 \<le> length msgs" using assms(2,5) by (auto simp: Suc_le_eq)
  ultimately show ?thesis using assms(1,2,3,4) by (simp add: IknpOtExtSend_def kKappa_def iknp_send_batch_def hd_conv_nth Let_def)
qed

subsection \<open>The stores are pairs again\<close>

lemma fresh_buffer:
  assumes "recv_ok h r" and "blk_bufs h (lim h) = None"
  shows "recv_CopyBitBuf (h\<lparr>blk_bufs := (blk_bufs h)(lim h \<mapsto> xs), lim := n\<rparr>) r = recv_CopyBitBuf h r"
proof -
  have "deref ((blk_bufs h)(lim h \<mapsto> xs)) (recv_blk_buf r) = deref (blk_bufs h) (recv_blk_buf r)"
    using assms unfolding recv_ok_def deref_def by (auto split: option.splits)
  then show ?thesis by (simp add: recv_CopyBitBuf_def recv_GetBlock_def)
qed

lemma made_pair:
  assumes "length sb = n" and "length rb = n" and "0 < n" and "2 * n < 2 ^ 64" and "m_bits_number choices = n"
    and "\<forall>j < n. rb ! j = (if bits_of choices ! j then snd (sb ! j) else fst (sb ! j))"
  obtains s r where "MakeOtSendStore sb h = Inr (s, h\<lparr>blk_bufs := (blk_bufs h)(lim h \<mapsto> flat sb), lim := Suc (lim h)\<rparr>)"
    and "MakeOtRecvStore choices rb h' = Inr (r, h'\<lparr>bit_bufs := (bit_bufs h')(lim h' \<mapsto> bits_of choices), blk_bufs := (blk_bufs h')(lim h' \<mapsto> rb), lim := Suc (lim h')\<rparr>)"
    and "ot_pair (h\<lparr>blk_bufs := (blk_bufs h)(lim h \<mapsto> flat sb), lim := Suc (lim h)\<rparr>) s
      (h'\<lparr>bit_bufs := (bit_bufs h')(lim h' \<mapsto> bits_of choices), blk_bufs := (blk_bufs h')(lim h' \<mapsto> rb), lim := Suc (lim h')\<rparr>) r"
    and "\<And>delta. delta \<noteq> 0 \<Longrightarrow> (\<forall>j < n. snd (sb ! j) = fst (sb ! j) XOR delta) \<Longrightarrow>
      cot_pair (h\<lparr>blk_bufs := (blk_bufs h)(lim h \<mapsto> flat sb), lim := Suc (lim h)\<rparr>) (s\<lparr>send_delta := delta\<rparr>)
      (h'\<lparr>bit_bufs := (bit_bufs h')(lim h' \<mapsto> bits_of choices), blk_bufs := (blk_bufs h')(lim h' \<mapsto> rb), lim := Suc (lim h')\<rparr>) r"
proof -
  let ?h = "h\<lparr>blk_bufs := (blk_bufs h)(lim h \<mapsto> flat sb), lim := Suc (lim h)\<rparr>"
  let ?h' = "h'\<lparr>bit_bufs := (bit_bufs h')(lim h' \<mapsto> bits_of choices), blk_bufs := (blk_bufs h')(lim h' \<mapsto> rb), lim := Suc (lim h')\<rparr>"
  have l: "0 < length sb" "2 * length sb < 2 ^ 64" "0 < length rb" "length rb < 2 ^ 64" "m_bits_number choices = length rb" using assms by simp_all
  obtain s where s: "MakeOtSendStore sb h = Inr (s, ?h)" "send_delta s = 0"
    "\<And>H. blk_bufs H (lim h) = Some (flat sb) \<Longrightarrow> send_holds H s (length sb) (\<lambda>i x. if x then snd (sb ! i) else fst (sb ! i))"
    "\<And>H delta. blk_bufs H (lim h) = Some (flat sb) \<Longrightarrow> delta \<noteq> 0 \<Longrightarrow> (\<forall>i < length sb. snd (sb ! i) = fst (sb ! i) XOR delta)
       \<Longrightarrow> send_holds H (s\<lparr>send_delta := delta\<rparr>) (length sb) (\<lambda>i x. if x then snd (sb ! i) else fst (sb ! i))"
    by (rule make_send [OF l(1,2), of h]) (rule that)
  obtain r where r: "MakeOtRecvStore choices rb h' = Inr (r, ?h')"
    "\<And>H. blk_bufs H (lim h') = Some rb \<Longrightarrow> bit_bufs H (lim h') = Some (bits_of choices) \<Longrightarrow> recv_holds H r (length rb) (\<lambda>i. bits_of choices ! i) (\<lambda>i. rb ! i)"
    by (rule make_recv [OF l(3,4,5), of h']) (rule that)
  have S: "send_holds ?h s n (\<lambda>i x. if x then snd (sb ! i) else fst (sb ! i))" using s(3) [of ?h] assms(1) by simp
  have R: "recv_holds ?h' r n (\<lambda>i. bits_of choices ! i) (\<lambda>i. rb ! i)" using r(2) [of ?h'] assms(2) by simp
  have "cot_pair ?h (s\<lparr>send_delta := delta\<rparr>) ?h' r" if "delta \<noteq> 0" "\<forall>j < n. snd (sb ! j) = fst (sb ! j) XOR delta" for delta
    using that assms(1,4,6) s(4) [of ?h delta] by (intro holds_cot_pair [OF _ R]) simp_all
  moreover have "ot_pair ?h s ?h' r" using assms(4,6) by (intro holds_ot_pair [OF S R]) simp_all
  ultimately show ?thesis using that [OF s(1) r(1)] by blast
qed

theorem iknp_stores:
  assumes pair: "ot_pair hs s hr r" and size: "unat (internal_use_size r) = 128" and sliced: "\<not> IsSliced s" "\<not> IsSliced r"
    and choices: "check_consistency choices" "m_bits_number choices = unat ot_num" "0 < ot_num"
    and st: "length (array st) = 128" and enc: "cot \<or> ecb_mode enc" and fresh: "blk_bufs hr (lim hr) = None"
  shows "\<exists>msgs r' hs' bits. IknpOtExtRecv_store enc st' s choices ot_num cot hs = Inr (msgs, r', hs') \<and> recv_CopyBitBuf hr r = Inr bits
    \<and> (if cot \<and> True \<notin> set bits then IknpOtExtSend_store enc st r msgs ot_num cot hr = Inl Enforce
       else \<exists>s' hr'. IknpOtExtSend_store enc st r msgs ot_num cot hr = Inr (s', hr') \<and> ot_pair hr' s' hs' r'
         \<and> (cot \<longrightarrow> cot_pair hr' s' hs' r' \<and> send_delta s' = horner_sum of_bool 2 bits))"
proof -
  let ?n = "unat ot_num" and ?d = "\<lambda>bits. horner_sum of_bool 2 bits :: 128 word"
  have n: "0 < ?n" "2 * ?n < 2 ^ 64" using choices(3) unsigned_less [of ot_num, where 'a = nat] by (simp_all add: word_less_nat_alt)
  obtain msgs rb sb bits where run: "IknpOtExtRecv enc st' hs s choices cot (replicate ?n 0) = Inr (msgs, rb)"
    "IknpOtExtSend enc st hr r msgs cot (replicate ?n (0, 0)) = Inr sb" "recv_CopyBitBuf hr r = Inr bits" "length rb = ?n" "length sb = ?n"
    "\<forall>j < ?n. rb ! j = (if bits_of choices ! j then snd (sb ! j) else fst (sb ! j))"
    "cot \<Longrightarrow> \<forall>j < ?n. snd (sb ! j) = fst (sb ! j) XOR ?d bits"
    using iknp_correct [OF pair size sliced choices(1,2) n(1) _ _ st enc, of "replicate ?n 0" "replicate ?n (0, 0)" st'] by auto
  obtain s' r' where made: "MakeOtSendStore sb hr = Inr (s', hr\<lparr>blk_bufs := (blk_bufs hr)(lim hr \<mapsto> flat sb), lim := Suc (lim hr)\<rparr>)"
    "MakeOtRecvStore choices rb hs = Inr (r', hs\<lparr>bit_bufs := (bit_bufs hs)(lim hs \<mapsto> bits_of choices), blk_bufs := (blk_bufs hs)(lim hs \<mapsto> rb), lim := Suc (lim hs)\<rparr>)"
    "ot_pair (hr\<lparr>blk_bufs := (blk_bufs hr)(lim hr \<mapsto> flat sb), lim := Suc (lim hr)\<rparr>) s'
      (hs\<lparr>bit_bufs := (bit_bufs hs)(lim hs \<mapsto> bits_of choices), blk_bufs := (blk_bufs hs)(lim hs \<mapsto> rb), lim := Suc (lim hs)\<rparr>) r'"
    "\<And>delta. delta \<noteq> 0 \<Longrightarrow> (\<forall>j < ?n. snd (sb ! j) = fst (sb ! j) XOR delta) \<Longrightarrow>
      cot_pair (hr\<lparr>blk_bufs := (blk_bufs hr)(lim hr \<mapsto> flat sb), lim := Suc (lim hr)\<rparr>) (s'\<lparr>send_delta := delta\<rparr>)
      (hs\<lparr>bit_bufs := (bit_bufs hs)(lim hs \<mapsto> bits_of choices), blk_bufs := (blk_bufs hs)(lim hs \<mapsto> rb), lim := Suc (lim hs)\<rparr>) r'"
    by (rule made_pair [OF run(5,4) n choices(2) run(6), of hr hs]) (rule that)
  have lb: "length bits = 128"
  proof -
    obtain K b where "ot_holds hs s hr r K b" using ot_values [OF pair] .
    then have "recv_CopyBitBuf hr r = Inr (map b [0 ..< rsize r])" using pair by (intro recv_CopyBitBuf_ok) (simp_all add: ot_pair_def ot_holds_def)
    then show ?thesis using run(3) size by (auto simp: rsize_def)
  qed
  have zero: "?d bits = 0 \<longleftrightarrow> True \<notin> set bits"
  proof
    assume "?d bits = 0"
    then have "\<not> bits ! k" if "k < 128" for k using that lb bit_horner_sum_bit_word_iff [of bits k, where 'a = 128] by simp
    then show "True \<notin> set bits" using lb by (auto simp: in_set_conv_nth)
  next
    assume "True \<notin> set bits"
    then have "bits = replicate 128 False" using lb by (intro replicate_eqI) auto
    then show "?d bits = 0" by (auto intro!: bit_word_eqI simp: bit_horner_sum_bit_word_iff)
  qed
  have copy: "recv_CopyBitBuf (hr\<lparr>blk_bufs := (blk_bufs hr)(lim hr \<mapsto> flat sb), lim := Suc (lim hr)\<rparr>) r = Inr bits"
    using fresh_buffer [of hr r] pair fresh run(3) by (simp add: ot_pair_def)
  have tk: "take 128 bits = bits" using lb by simp
  note defs = IknpOtExtSend_store_def IknpOtExtRecv_store_def SetDelta_def
  show ?thesis
  proof (cases "cot \<and> True \<notin> set bits")
    case True
    then show ?thesis using run(1,2,3) made(1,2) copy zero by (simp add: defs tk)
  next
    case False
    show ?thesis
    proof (cases cot)
      case True
      then have d: "?d bits \<noteq> 0" using False zero by simp
      note P = made(4) [OF d run(7) [OF True]]
      show ?thesis using True False d run(1,2,3) made(1,2) copy P cot_pair_ot_pair [OF P] by (simp add: defs tk)
    next
      case False
      then show ?thesis using run(1,2,3) made(1,2,3) by (simp add: defs)
    qed
  qed
qed

subsection \<open>A sample\<close>

definition sample_stack :: iknp_stack where
  "sample_stack = \<lparr>sse2 = True, vec_a = (1, 2), vec_b = (3, 4), array = replicate 128 9\<rparr>"

lemma sample_choices:
  "check_consistency (new_bitset n 5 :: 128 word dynamic_bitset)" "m_bits_number (new_bitset n 5 :: 128 word dynamic_bitset) = n"
  using new_bitset_rep [of n 5, where 'a = 128] bits_repD(1) [of "new_bitset n 5" "map (bit 5) [0 ..< n]"] by (simp_all add: bits_rep_iff)

lemma sample_base:
  "\<exists>s r h. ot_pair h s h r \<and> internal_use_size r = 128 \<and> \<not> IsSliced s \<and> \<not> IsSliced r \<and> blk_bufs h (lim h) = None"
proof -
  obtain s r h' where m: "MockRots (\<lambda>_ _ _ b. b) 9 128 (new_bitset 128 5) (sample_heap [] []) = Inr ((s, r), h')" "ot_pair h' s h' r" "internal_use_size r = 128"
    "\<not> IsSliced s" "\<not> IsSliced r"
    using MockRots_pair [of "new_bitset 128 5" 128 "\<lambda>_ _ _ b. b" 9 "sample_heap [] []"] sample_choices [of 128] by auto
  have "blk_bufs h' (lim h') = None"
    using m(1) by (auto simp: MockRots_def MakeOtSendStore_def MakeOtRecvStore_def sample_heap_def Let_def split: prod.splits)
  then show ?thesis using m by blast
qed

end
