(* ===== verification/Spec2Isabelle.thy ===== *)
theory Spec2Isabelle
  imports SimplestOT Link Dcf Pprf Sgrr Cuckoo Iknp
begin

text \<open>
  A verification of parts of yacl-r, a C/C++ library of cryptographic primitives and of the
  communication layer that multi-party protocols run on.  The sources are under
  \<^verbatim>\<open>src/yacl/\<close>; paths below are relative to it.

  \<^bold>\<open>The base oblivious transfer\<close>, \<^verbatim>\<open>ot/simplest_ot_portable/\<close> (C).  A sender and a receiver exchange
  points of the twisted Edwards curve of Ed25519 and derive keys by hashing.

    \<^item> \<open>Prelude\<close>, \<open>Limbs\<close>: checked machine arithmetic (signed overflow has no value), checked sums of
      products, little-endian bytes; straight-line code on limbs with an interval analysis that
      proves absence of overflow for whole blocks of code.
    \<^item> \<open>Fe25519\<close>, \<open>FeBytes\<close>, \<open>FePow\<close>: the field of order \<open>2^255 - 19\<close> in ten limbs (\<^verbatim>\<open>fe_*.c\<close>,
      \<^verbatim>\<open>verify.c\<close>, \<^verbatim>\<open>pow*.h\<close>); \<open>Gf25519\<close> is the abstract ring of integers modulo that number, and its
      lemmas are the refinement of the limb operations to it.
    \<^item> \<open>Sc25519\<close>, \<open>ScMulAdd\<close>: scalars modulo the group order (\<^verbatim>\<open>sc_*.c\<close>).
    \<^item> \<open>Keccak\<close>: \<^verbatim>\<open>Keccak-simple.c\<close> against a specification of Keccak by its five step mappings and of
      the sponge construction.
    \<^item> \<open>Ge25519\<close>, \<open>GeBase\<close>, \<open>GeScalar\<close>: points in five representations, the addition formulas, the
      encoding, the two precomputed tables, signed recodings and scalar multiplication (\<^verbatim>\<open>ge*.c\<close>).
    \<^item> \<open>SimplestOT\<close>: the parties (\<^verbatim>\<open>ot_sender.c\<close>, \<^verbatim>\<open>ot_receiver.c\<close>, \<^verbatim>\<open>randombytes.c\<close>) as records and one
      function for each call.

  \<^bold>\<open>The communication link\<close>, \<^verbatim>\<open>link/transport/channel.cc\<close> (C++).

    \<^item> \<open>SegmentTree\<close>, \<open>Strings\<close>: the set of sequence numbers (\<^verbatim>\<open>utils/segment_tree.h\<close>) with the interface
      \<open>id_set\<close>, and the string functions (\<^verbatim>\<open>utils/strings.cc\<close>).
    \<^item> \<open>Channel\<close>: the state of one channel as a record; message keys, chunks and their reassembly,
      retries, the queue and the sending tasks, receiving, acknowledgements, throttling, closing and
      aborting.  A section under a mutex is one function on the record.  Functions that block are
      modelled by the test of their waiting loop.
    \<^item> \<open>Link\<close>: two channels and a network that may lose, repeat and reorder requests, as a step
      relation; the invariant of the reachable states is proved by rule induction.

  \<^bold>\<open>Function secret sharing\<close>, \<^verbatim>\<open>dpf/\<close> and \<^verbatim>\<open>theoretical_tools/prg.*\<close> (C++).

    \<^item> \<open>Prg\<close>: pseudo-random bytes and the buffered generator over a block cipher, which is an argument
      of the model (it is OpenSSL's), and reduction modulo Mersenne primes.
    \<^item> \<open>Ge2n\<close>, \<open>Dpf\<close>, \<open>Dcf\<close>, \<open>Pprf\<close>: the group of \<open>n\<close>-bit numbers, the distributed point function, the
      distributed comparison function and the puncturable pseudo-random function.  The template
      parameters are arguments \<open>m\<close> and \<open>n\<close>.

  \<^bold>\<open>Stores and extension of oblivious transfer, cuckoo hashing\<close> (C++).

    \<^item> \<open>OtStore\<close>: the stores of the two parties (\<^verbatim>\<open>ot/slice_base.*\<close>, \<^verbatim>\<open>ot/ot_store.*\<close>) as windows of
      buffers in a heap, since slices share buffers; the locale \<open>window\<close> states what reading and
      writing through windows promise, and it is interpreted for the blocks and the choices of a
      receiver and the blocks of a sender.
    \<^item> \<open>CrHash\<close>: the random permutation and the correlation-robust hashes (\<^verbatim>\<open>theoretical_tools/rp.*\<close>,
      \<^verbatim>\<open>theoretical_tools/crhash.*\<close>).
    \<^item> \<open>Gywz\<close>: single-point correlated transfer (\<^verbatim>\<open>ot/gywz_ote.cc\<close>, \<^verbatim>\<open>math/gadget.h\<close>).
    \<^item> \<open>Sgrr\<close>: transfer of all but one of \<open>n\<close> seeds (\<^verbatim>\<open>ot/sgrr_ote.cc\<close>, \<^verbatim>\<open>aes/aes_opt.h\<close>).
    \<^item> \<open>Cuckoo\<close>: the cuckoo index (\<^verbatim>\<open>coding/batch/cuckoo_index.*\<close>).
    \<^item> \<open>DynamicBitset\<close>, \<open>BitsetQueries\<close>: bit sets (\<^verbatim>\<open>utils/dynamic_bitset.h\<close>), for every width of a block; what
      the clients rely on is the locale \<open>bit_sequence\<close>.  \<open>BitsetUse\<close>: sequences of operations on a bit set, and
      the bit sets inside of the stores and of the transfer of all but one seed.
    \<^item> \<open>OtMake\<close>: stores made from vectors, and pairs of stores made by one program (\<^verbatim>\<open>ot/ot_store_utils.cc\<close>).
    \<^item> \<open>Transpose\<close>: transposition of bit matrices by three algorithms (\<^verbatim>\<open>utils/matrix_utils.*\<close>); what the two
      routines that work by squares of 16 bits rely on is the locale \<open>square_transposer\<close>, interpreted for rows of
      128 and of 1024 bits.
    \<^item> \<open>Iknp\<close>: extension of 128 transfers to any number of transfers (\<^verbatim>\<open>ot/iknp_ote.*\<close>).

  \<^bold>\<open>What the theorems show.\<close>  The properties C1, C2, ... follow, by subject.

    \<^item> For the oblivious transfer: which points are hashed into which keys, that every step of both
      parties runs without signed overflow and establishes the invariant of the next step, which
      messages are refused, and that the arithmetic below is field, curve, scalar and hash arithmetic.
    \<^item> For the link: messages arrive unchanged and at most once; what the closing protocol guarantees;
      chunks are equivalent to whole messages; retries end; the two ways in which a malformed chunk
      makes the code write outside of its buffer.
    \<^item> For function secret sharing: the sums of the parties' outputs are the shared functions, for
      every cipher and every seed.
    \<^item> For the stores and the extension: slices of one store do not interfere, the correlation of two
      stores survives slicing, and the single-point transfer gives outputs that differ at the
      receiver's index only, by the sender's offset; all but one of \<open>n\<close> seeds are transferred; where the stores and a hash do not do what they
      mean to.
    \<^item> For the cuckoo index: every input has one place, and every insertion ends without undefined
      behaviour in one of three stated ways.
    \<^item> For the bit sets: every sequence of operations keeps the consistency check of the header and
      refines the operations on lists of truth values; what the queries answer; iteration ends; text
      gives the bit set back.
    \<^item> For the transposition: all routines compute the transposed matrix.  For the extension by transposition: two stores that are a pair give
      two stores that are a pair, so that extensions compose.

  \<^bold>\<open>Conventions.\<close>  A definition keeps the name of the C or C++ function where it is one.  A loop or a
  branch that has a name of its own here is mapped to its lines in the manifest.  \<open>None\<close> is undefined
  behaviour in the C part and a failed enforcement in the C++ part; named errors are constructors
  of error types.  There is no fuel: every loop of the model is a total function, but for two.  The
  loop that reads entropy from the system is a function of the list of answers the system gives; the
  iteration over a bit set is a partial function, and a property shows that it ends.  Sizes and sequence numbers are 64-bit words; where a
  theorem needs that a length does not come near \<open>2^63\<close> it says so.

  \<^bold>\<open>Not modelled.\<close>  The group law of the curve and the equality of the two parties' keys (that
  needs the primality of \<open>2^255 - 19\<close> and associativity of the addition); secrecy and timing of any part;
  timeouts, logging and the thread pool of the chunk sender in the channel; the remainder of the
  library: wrappers of OpenSSL, libtommath, mcl and FourQlib, the assembler implementation of the
  oblivious transfer, the AVX routine of the transposition, the other oblivious-transfer extensions, linear codes, commitments, proofs and other
  protocols built on them, file and circuit input, and the test and benchmark programs.
\<close>

section \<open>The base oblivious transfer\<close>



text \<open>
  C2. The receiver's message for choice bit 0 encodes its multiple \<open>xB\<close> of the base point, and for choice
  bit 1 it encodes the difference \<open>S - xB\<close>; the masked move leaves exactly the chosen point in the
  receiver's state, and neither the other fields nor the scalar depend on the choice.
\<close>

theorem receiver_choice:
  assumes "length rnd = 32" and "receiver_ready r" and "c = 0 \<or> c = 1"
  shows "\<exists>B cB t D R. ge_scalarmult_base (sc_random rnd 1) = Some B \<and> ge_p3_to_cached B = Some cB
    \<and> ge_sub (receiver_S r) cB = Some t \<and> ge_p1p1_to_p3 t = Some D
    \<and> ge_p3_tobytes (if c = 0 then B else D) = Some R
    \<and> portable_receiver_rsgen rnd r c =
        Some (r\<lparr>receiver_x := sc_random rnd 1, receiver_xB := if c = 0 then B else D\<rparr>, R)"
  using assms by (rule rsgen_choice)

theorem receiver_choice_witness:
  "\<exists>D R. portable_receiver_rsgen (replicate 32 9) zero_receiver 1 =
     Some (zero_receiver\<lparr>receiver_x := sc_random (replicate 32 9) 1, receiver_xB := D\<rparr>, R)"
  using receiver_choice [OF _ zero_states(2), of "replicate 32 9" 1] by auto

text \<open>
  C3. Every step of the protocol returns without signed overflow, from any random bytes and any received
  bytes, and establishes the representation invariant that the next step of that party relies on.
  When the sender's key generation accepts the message it has written 32 bytes to each output, and when
  it refuses it has changed neither the message buffer nor the keys.
\<close>

theorem protocol_runs:
  assumes "length rnd = 32" and "length temp = 136" and "length (receiver_S_pack r0) = 32"
    and "receiver_ready r1" and "c = 0 \<or> c = 1" and "receiver_inv r2"
    and "length temp1 = 136" and "sender_inv s1" and "length Rs = 32"
  shows "(\<exists>s' S_pack. portable_sender_genS rnd s = Some (s', S_pack) \<and> sender_inv s' \<and> length S_pack = 32)
    \<and> (\<exists>ok r'. portable_receiver_procS_check r0 = Some (ok, r') \<and> (if ok then receiver_ready r' else r' = r0))
    \<and> (\<exists>r' Rs_pack. portable_receiver_rsgen rnd r1 c = Some (r', Rs_pack) \<and> receiver_inv r' \<and> length Rs_pack = 32)
    \<and> (\<exists>r' k. portable_receiver_keygen temp r2 = Some (r', k) \<and> receiver_inv r' \<and> length k = 32)
    \<and> (\<exists>ok Rs' k0 k1. portable_sender_keygen_check temp temp1 s1 Rs keys = Some (ok, Rs', k0, k1)
        \<and> (if ok then length Rs' = 32 \<and> length k0 = 32 \<and> length k1 = 32 else Rs' = Rs \<and> (k0, k1) = keys))"
  using genS_runs [OF assms(1), of s] procS_check_runs [OF assms(3)] rsgen_runs [OF assms(1,4,5)]
    receiver_keygen_runs [OF assms(2,6)] keygen_check_runs [OF assms(2,7,8,9), of keys]
  by (auto simp: runs_def)

theorem protocol_runs_witness:
  "(\<exists>s' S_pack. portable_sender_genS (replicate 32 77) zero_sender = Some (s', S_pack) \<and> sender_inv s' \<and> length S_pack = 32)
    \<and> (\<exists>r' k. portable_receiver_keygen zero_block zero_receiver = Some (r', k) \<and> receiver_inv r' \<and> length k = 32)
    \<and> (\<exists>ok Rs' k0 k1. portable_sender_keygen_check zero_block zero_block zero_sender (replicate 32 7) ([1], [2]) = Some (ok, Rs', k0, k1)
        \<and> (if ok then length Rs' = 32 \<and> length k0 = 32 \<and> length k1 = 32 else Rs' = replicate 32 7 \<and> (k0, k1) = ([1], [2])))"
  using protocol_runs [of "replicate 32 77" zero_block zero_receiver zero_receiver 1 zero_receiver zero_block zero_sender "replicate 32 7" zero_sender "([1], [2])"]
    zero_states by (simp add: receiver_ready_def)

text \<open>
  C4. The keys of both parties do not depend on the uninitialised stack block of the hash function.
\<close>

theorem keys_ignore_stack:
  assumes "length t0 = 136" and "length t1 = 136" and "length t0' = 136" and "length t1' = 136"
  shows "portable_sender_keygen_check t0 t1 s Rs_pack keys = portable_sender_keygen_check t0' t1' s Rs_pack keys
    \<and> portable_receiver_keygen t0 r = portable_receiver_keygen t0' r"
  using keygen_check_temp [OF assms] receiver_keygen_temp [OF assms(1,3)] by blast

theorem keys_ignore_stack_witness:
  "portable_receiver_keygen zero_block zero_receiver = portable_receiver_keygen (replicate 136 255) zero_receiver"
  using keys_ignore_stack [of zero_block zero_block "replicate 136 255" "replicate 136 255"] by simp

text \<open>
  C5. The entropy loop returns, with exactly the requested number of bytes, once the device has answered
  as many reads with at least one byte as bytes were requested; reads that deliver nothing are retried.
\<close>

theorem randombytes_returns:
  assumes "xlen \<le> length (filter (\<lambda>b. b \<noteq> []) reads)"
  shows "\<exists>x. simpleot_randombytes reads xlen = Some x \<and> length x = xlen"
  using simpleot_randombytes_returns [OF assms] simpleot_randombytes_length by blast

theorem randombytes_returns_witness:
  "\<exists>x. simpleot_randombytes [[], [1, 2, 3], [], [4], [5]] 3 = Some x \<and> length x = 3"
  by (rule randombytes_returns) simp

section \<open>The curve\<close>

text \<open>
  C6. Decompression returns on all 32-byte inputs: it fails exactly where neither candidate root works, and
  otherwise yields a point of the curve with the encoded \<open>y\<close>, \<open>Z = 1\<close>, and the encoded parity of \<open>x\<close>.
  Compression inverts it: an accepted encoding with a reduced \<open>y\<close> (and sign bit 0 where \<open>x\<close> is
  zero) is reproduced bit for bit.
\<close>

theorem decompression:
  assumes "length s = 32" and "y = gf_int (le_val s mod 2 ^ 255)"
  shows "\<exists>r. ge_frombytes_vartime s = Some r \<and> (case r of
      Inl e \<Rightarrow> \<not> decompressible y
    | Inr P \<Rightarrow> decompressible y \<and> (\<exists>x. p3_rep P x y 1 \<and> on_curve x y
        \<and> (x = 0 \<or> Rep_gf x mod 2 = le_val s div 2 ^ 255))
        \<and> (le_val s mod 2 ^ 255 < p25519 \<and> (gf_of (p3_X P) = 0 \<longrightarrow> le_val s < 2 ^ 255) \<longrightarrow> ge_p3_tobytes P = Some s))"
proof -
  obtain r where r: "ge_frombytes_vartime s = Some r"
    "case r of Inl e \<Rightarrow> \<not> decompressible y
      | Inr P \<Rightarrow> decompressible y \<and> (\<exists>x. p3_rep P x y 1 \<and> on_curve x y \<and> (x = 0 \<or> Rep_gf x mod 2 = le_val s div 2 ^ 255))"
    using ge_frombytes_vartime_rep [OF assms(1)] unfolding assms(2) runs_def by blast
  show ?thesis
  proof (cases r)
    case (Inr P)
    with r have "ge_frombytes_vartime s = Some (Inr P)" by simp
    note i = frombytes_tobytes [OF assms(1) this]
    show ?thesis using r Inr by (intro exI [of _ r]) (simp add: i)
  qed (use r in simp)
qed

theorem decompression_witness:
  "\<exists>P x. ge_frombytes_vartime neutral_bytes = Some (Inr P) \<and> p3_rep P x 1 1 \<and> on_curve x 1 \<and> ge_p3_tobytes P = Some neutral_bytes"
proof -
  obtain P where "ge_frombytes_vartime neutral_bytes = Some (Inr P)" using neutral_decompresses by blast
  with decompression [OF neutral_bytes_val(1), of 1] show ?thesis
    by (auto simp: neutral_bytes_val(2) gf_int_hom p25519_def)
qed

text \<open>
  C7. Addition and subtraction in extended coordinates, each with the conversions its callers put around it, refine the
  Edwards law.  For records that stand for points (with an invertible \<open>Z\<close>, which makes the point unique) and
  invertible denominators of the law, both return without overflow, and the results stand for exactly the
  sum and the difference, again with an invertible \<open>Z\<close>; on the curve these are points of the curve.
\<close>

theorem point_addition:
  assumes "p3_point P x1 y1" and "p3_point Q x2 y2"
    and "1 + gf_d * (x1 * x2 * y1 * y2) dvd 1" and "1 - gf_d * (x1 * x2 * y1 * y2) dvd 1"
  shows "\<exists>c. ge_p3_to_cached Q = Some c
    \<and> (\<exists>t R. ge_add P c = Some t \<and> ge_p1p1_to_p3 t = Some R
        \<and> (\<exists>!(x3, y3). p3_point R x3 y3) \<and> (\<forall>x3 y3. p3_point R x3 y3 \<longleftrightarrow> ed_sum x1 y1 x2 y2 x3 y3)
        \<and> (\<forall>x3 y3. on_curve x1 y1 \<and> on_curve x2 y2 \<and> p3_point R x3 y3 \<longrightarrow> on_curve x3 y3))
    \<and> (\<exists>t R. ge_sub P c = Some t \<and> ge_p1p1_to_p3 t = Some R
        \<and> (\<exists>!(x3, y3). p3_point R x3 y3) \<and> (\<forall>x3 y3. p3_point R x3 y3 \<longleftrightarrow> ed_sum x1 y1 (- x2) y2 x3 y3)
        \<and> (\<forall>x3 y3. on_curve x1 y1 \<and> on_curve x2 y2 \<and> p3_point R x3 y3 \<longrightarrow> on_curve x3 y3))"
proof -
  obtain c where c: "ge_p3_to_cached Q = Some c"
    using ge_p3_to_cached_val [of Q] assms(2) by (auto simp: runs_def p3_point_def p3_rep_def)
  show ?thesis
    by (rule exI [of _ c], rule conjI [OF c conjI], rule add_point_exact [OF assms c], rule sub_point_exact [OF assms c])
qed

theorem point_addition_witness:
  "\<exists>c t R. ge_p3_to_cached ge_p3_0 = Some c \<and> ge_add ge_p3_0 c = Some t \<and> ge_p1p1_to_p3 t = Some R
    \<and> p3_point R 0 1"
proof -
  have "ed_sum 0 1 0 1 0 1" by (simp add: ed_sum_def)
  moreover have "1 + gf_d * (0 * 0 * 1 * 1) dvd 1" "1 - gf_d * (0 * 0 * 1 * 1) dvd 1" by simp_all
  note point_addition [OF ge_p3_0_point ge_p3_0_point this]
  ultimately show ?thesis by blast
qed

text \<open>
  C8. The three scalar multiplications return without overflow for every scalar below \<open>2^255\<close> and every point
  in the size class of points, and their results are in that class again.  Both recodings of such a scalar
  represent it exactly: the signed radix-16 recoding of the base-point multiplication in 64 digits between -8
  and 8, and the sliding-window recoding in 256 signed digits, of which each nonzero one is odd, at most 15 in
  absolute value, and followed by at least four zero digits.
\<close>

theorem scalar_multiplication_safe:
  assumes "length a = 32" and "a ! 31 \<le> 127" and "length b = 32" and "b ! 31 \<le> 127" and "p3_ok A"
  shows "(\<exists>R. ge_scalarmult_base a = Some R \<and> p3_ok R) \<and> (\<exists>R. ge_scalarmult_vartime a A = Some R \<and> p3_ok R)
    \<and> (\<exists>R. ge_double_scalarmult_vartime a A b = Some R \<and> p2_ok R)
    \<and> digits_val 16 (radix16_carry 0 (radix16 a)) = le_val a
    \<and> list_all (\<lambda>e. - 8 \<le> e \<and> e \<le> 8) (radix16_carry 0 (radix16 a)) \<and> length (radix16_carry 0 (radix16 a)) = 64
    \<and> length (slide a) = 256 \<and> slide_val (slide a) = le_val a \<and> (\<forall>j<256. digit_ok (slide a) j)"
  using ge_scalarmult_base_ok [OF assms(1,2)] ge_scalarmult_vartime_ok [OF assms(1,2,5)]
    ge_double_scalarmult_vartime_ok [OF assms] radix16_recoding [OF assms(1,2)] slide_spec [OF assms(1,2)] by (simp add: runs_def)

theorem scalar_multiplication_safe_witness:
  "(\<exists>R. ge_double_scalarmult_vartime (replicate 32 127) ge_p3_0 (replicate 32 5) = Some R \<and> p2_ok R)
   \<and> slide_val (slide (replicate 32 127)) = le_val (replicate 32 127)"
  using scalar_multiplication_safe [of "replicate 32 127" "replicate 32 5" ge_p3_0] ge_p3_0_ok by simp

section \<open>The field and the scalars\<close>

text \<open>
  C9. Field multiplication never overflows on loose operands and computes the product modulo \<open>2^255 - 19\<close>, with
  tight limbs; the two addition chains compute \<open>z^(p - 2)\<close>, the inverse, and \<open>z^((p - 5) / 8)\<close>; and reading 32
  bytes and packing them again gives the canonical form: the low 255 bits reduced modulo \<open>2^255 - 19\<close>.
\<close>

theorem field_multiplication:
  assumes "fe_loose f" and "fe_loose g" and "length s = 32"
  shows "(\<exists>h. fe_mul f g = Some h \<and> fe_tight h \<and> fe_val h mod p25519 = fe_val f * fe_val g mod p25519)
    \<and> (\<exists>r. fe_invert f = Some r \<and> fe_tight r \<and> fe_val r mod p25519 = fe_val f ^ nat (p25519 - 2) mod p25519)
    \<and> (\<exists>r. fe_pow22523 f = Some r \<and> fe_tight r \<and> fe_val r mod p25519 = fe_val f ^ nat ((p25519 - 5) div 8) mod p25519)
    \<and> (\<exists>h t. fe_frombytes s = Some h \<and> fe_tobytes h = Some t \<and> length t = 32 \<and> le_val t = le_val s mod 2 ^ 255 mod p25519)"
proof -
  have "nat (p25519 - 2) = 2 ^ 255 - 21" "nat ((p25519 - 5) div 8) = 2 ^ 252 - 3"
    by (simp_all add: p25519_def)
  moreover obtain h where h: "fe_frombytes s = Some h" "fe_tight h" "fe_val h mod p25519 = (le_val s mod 2 ^ 255) mod p25519"
    using fe_frombytes_spec [OF assms(3)] by blast
  with fe_tobytes_spec [of h] have "\<exists>h t. fe_frombytes s = Some h \<and> fe_tobytes h = Some t \<and> length t = 32 \<and> le_val t = le_val s mod 2 ^ 255 mod p25519"
    by (auto simp: fe_bounds_chain)
  ultimately show ?thesis using fe_mul_spec [OF assms(1,2)] fe_invert_spec [OF assms(1)] fe_pow22523_spec [OF assms(1)] by (intro conjI) metis+
qed

theorem field_multiplication_witness:
  "(\<exists>h. fe_mul d sqrtm1 = Some h \<and> fe_tight h \<and> fe_val h mod p25519 = fe_val d * fe_val sqrtm1 mod p25519)
    \<and> (\<exists>h t. fe_frombytes (replicate 32 255) = Some h \<and> fe_tobytes h = Some t \<and> length t = 32
      \<and> le_val t = le_val (replicate 32 255) mod 2 ^ 255 mod p25519)"
proof -
  have l: "fe_loose d" "fe_loose sqrtm1" "length (replicate 32 (255 :: byte)) = 32" using const_tight by (simp_all add: fe_bounds_chain)
  show ?thesis using field_multiplication [OF l] by blast
qed

text \<open>
  C10. \<open>sc_reduce\<close> replaces the first half of its 64-byte buffer by the number in the buffer modulo the group
  order and leaves the second half alone; \<open>sc_muladd\<close> computes \<open>(a * b + c) mod L\<close> for all 32-byte
  operands.  No 64-bit intermediate overflows.
\<close>

theorem scalar_arithmetic:
  assumes "length s = 64" and "length a = 32" and "length b = 32" and "length c = 32"
  shows "(\<exists>r. sc_reduce s = Some (r @ drop 32 s) \<and> length r = 32 \<and> le_val r = le_val s mod sc_L)
    \<and> (\<exists>r. sc_muladd a b c = Some r \<and> length r = 32 \<and> le_val r = (le_val a * le_val b + le_val c) mod sc_L)"
  using sc_reduce_spec [OF assms(1)] sc_muladd_spec [OF assms(2,3,4)] by blast

theorem scalar_arithmetic_witness:
  "(\<exists>r. sc_reduce (replicate 64 255) = Some (r @ replicate 32 255) \<and> le_val r = le_val (replicate 64 255) mod sc_L)
    \<and> (\<exists>r. sc_muladd (replicate 32 255) (replicate 32 255) (replicate 32 255) = Some r
      \<and> le_val r = (le_val (replicate 32 255) * le_val (replicate 32 255) + le_val (replicate 32 255)) mod sc_L)"
  using scalar_arithmetic [of "replicate 64 255" "replicate 32 255" "replicate 32 255" "replicate 32 255"] by auto

section \<open>The hash\<close>

text \<open>
  C11. The hash of a message of any length is the Keccak sponge of rate 1088 with the padding 10*1, cut to 256
  bits.  The unrolled permutation below it equals the specification: the message lanes are xored
  in, then 24 rounds of theta, rho, pi, chi and iota are applied with the round constants of the
  specification's shift register.
\<close>

theorem hash_refines_sponge:
  assumes "length temp = 136" and "length s = 25" and "length inp = n" and "n \<le> 25"
  shows "simplest_ot_crypto_hash temp m = keccak_sponge m \<and> KeccakF s inp n = keccak_f (xor_lanes s inp)"
  using hash_is_sponge [OF assms(1)] KeccakF_spec [OF assms(2,3,4)] by simp

theorem hash_refines_sponge_witness:
  "simplest_ot_crypto_hash (replicate 136 170) (replicate 300 1) = keccak_sponge (replicate 300 1)
   \<and> KeccakF (replicate 25 1) (replicate 17 2) 17 = keccak_f (xor_lanes (replicate 25 1) (replicate 17 2))"
  by (rule hash_refines_sponge) simp_all

section \<open>The channel between two parties\<close>

text \<open>
  C12. In every state that two channels can reach, over a network that loses, repeats and reorders requests,
  what a side's receive calls have returned are messages the peer has sent, each unchanged under its
  own key and sequence number, and none is returned twice.  Chunked messages, retransmissions, tasks
  that fail, closing and aborting are all steps of the run.  Sequence numbers are enabled, as they are unless they
  are switched off, there is no connection test, and a chunk has at least 20 bytes, the longest decimal number.
\<close>

theorem delivered_unchanged_once:
  assumes "reachable b n" and "20 \<le> unat b"
  shows "distinct (map fst (got (n s)))
    \<and> (\<forall>q k v. (q, k, v) \<in> set (got (n s)) \<longrightarrow> 1 \<le> unat q \<and> unat q \<le> length (sent (n (\<not> s)))
        \<and> sent (n (\<not> s)) ! (unat q - 1) = (k, v))"
  using delivered_once [OF assms] unfolding numbered_def by blast

theorem delivered_unchanged_once_witness:
  "reachable 20 sample_link \<and> (1, ''k'', ''v'') \<in> set (got (sample_link False))
   \<and> sent (sample_link True) ! 0 = (''k'', ''v'')"
  using delivered_unchanged_once [OF sample_reachable, of False] sample_reachable by (simp add: sample_facts)

text \<open>
  C13. In a run of two channels with sequence numbers enabled and chunks of at least 20 bytes: when a closing side's wait
  for acknowledgements returns, every message it has ever sent has arrived at the peer.  When its wait for the peer's
  last message returns, all messages the peer had sent when it announced its count have arrived, and the
  announced count is not more than what the peer has sent.  Both conditions are needed: with chunks of one byte, chunks of the
  acknowledgements 12 and 21 are taken for the acknowledgement 11, and with sequence numbers switched off the wait for
  acknowledgements returns at once.
\<close>

theorem closing_is_complete:
  assumes "reachable b n" and "20 \<le> unat b"
  shows "(WaitForFlyingAck (ch (n s)) = Returns () \<longrightarrow>
      (\<forall>i. 1 \<le> i \<and> i \<le> length (sent (n s)) \<longrightarrow> Contains (received_msg_ids (ch (n (\<not> s)))) (word_of_nat i)))
    \<and> (WaitForFinAndFlyingMsg (ch (n s)) = Returns () \<longrightarrow>
      (\<forall>i. 1 \<le> i \<and> i \<le> unat (peer_sent_msg_count (ch (n s))) \<longrightarrow>
        Contains (received_msg_ids (ch (n s))) (word_of_nat i) \<and> i \<le> length (sent (n (\<not> s)))))
    \<and> (\<exists>r1 \<in> set (SendImpl 1 kAckKey (to_string 12)). \<exists>r2 \<in> set (SendImpl 1 kAckKey (to_string 21)).
        Contains (received_ack_ids (snd (OnRequest r2 (snd (OnRequest r1 new_channel))))) 11)
    \<and> WaitForFlyingAck (snd (SendAsync k v (new_channel\<lparr>disable_msg_seq_id := True\<rparr>))) = Returns ()"
proof (intro conjI small_chunks_false_ack)
  show "WaitForFlyingAck (snd (SendAsync k v (new_channel\<lparr>disable_msg_seq_id := True\<rparr>))) = Returns ()"
    by (simp add: WaitForFlyingAck_def SendAsync_def new_channel_def split: sum.split)
  show "WaitForFlyingAck (ch (n s)) = Returns () \<longrightarrow>
      (\<forall>i. 1 \<le> i \<and> i \<le> length (sent (n s)) \<longrightarrow> Contains (received_msg_ids (ch (n (\<not> s)))) (word_of_nat i))"
  proof (intro impI allI)
  fix i assume w: "WaitForFlyingAck (ch (n s)) = Returns ()" and "1 \<le> i \<and> i \<le> length (sent (n s))"
  then have i: "1 \<le> i" "i \<le> length (sent (n s))" by simp_all
  show "Contains (received_msg_ids (ch (n (\<not> s)))) (word_of_nat i)"
    using acked_means_arrived [OF assms w i] link_facts(2) [OF assms, of "\<not> s"] by (simp add: Contains_spec receiver_ok_def)
  qed
  show "WaitForFinAndFlyingMsg (ch (n s)) = Returns () \<longrightarrow>
      (\<forall>i. 1 \<le> i \<and> i \<le> unat (peer_sent_msg_count (ch (n s))) \<longrightarrow>
        Contains (received_msg_ids (ch (n s))) (word_of_nat i) \<and> i \<le> length (sent (n (\<not> s))))"
  proof (intro impI allI conjI)
  fix i assume w: "WaitForFinAndFlyingMsg (ch (n s)) = Returns ()" and "1 \<le> i \<and> i \<le> unat (peer_sent_msg_count (ch (n s)))"
  then have i: "1 \<le> i" "i \<le> unat (peer_sent_msg_count (ch (n s)))" by simp_all
  note f = fin_means_arrived [OF assms w i]
  show "Contains (received_msg_ids (ch (n s))) (word_of_nat i)"
    using f link_facts(2) [OF assms, of s] by (simp add: Contains_spec receiver_ok_def)
  show "i \<le> length (sent (n (\<not> s)))" using f by simp
  qed
qed

theorem closing_is_complete_witness:
  "reachable 20 sample_link \<and> WaitForFlyingAck (ch (sample_link True)) = Returns ()
   \<and> WaitForFinAndFlyingMsg (ch (sample_link False)) = Returns () \<and> Contains (received_msg_ids (ch (sample_link False))) 1"
  using closing_is_complete [OF sample_reachable, where s = True, THEN conjunct1] sample_reachable by (auto simp: sample_facts sample_waits)

text \<open>
  C14. A request of a peer that runs this code, with sequence numbers enabled and chunks of at least 20 bytes, is accepted,
  or refused because the channel is aborting or because the peer's application used one key for two messages:
  never for its format, and never with a write outside of the buffer of a chunked message.  The bound on the chunks
  is needed: with chunks of one byte, the acknowledgements 10 and 100 of such a peer share a buffer of two bytes, and
  the third chunk of the longer one is written outside of it.
\<close>

theorem peer_requests_answered:
  assumes "reachable b n" and "20 \<le> unat b" and "r \<in> wire (n (\<not> s))"
  shows "fst (OnRequest r (ch (n s))) \<in> {Inr (), Inl Link_aborted, Inl Duplicate_key}
    \<and> (distinct (map fst (sent (n (\<not> s)))) \<longrightarrow> fst (OnRequest r (ch (n s))) \<noteq> Inl Duplicate_key)
    \<and> (\<exists>r1 \<in> set (SendImpl 1 kAckKey (to_string 10)). \<exists>r2 \<in> set (SendImpl 1 kAckKey (to_string 100)).
        fst (OnRequest r2 (snd (OnRequest r1 new_channel))) = Inl Out_of_bounds)"
  using answers_safe [OF assms] small_chunks_out_of_bounds by blast

theorem peer_requests_answered_witness:
  "sample_data \<in> wire (sample_link True)
   \<and> fst (OnRequest sample_data (ch (sample_link False))) \<in> {Inr (), Inl Link_aborted}"
  using peer_requests_answered [OF sample_reachable, of sample_data False] by (auto simp: sample_facts)

text \<open>
  C15. The chunks of a value, delivered in any order and any number of times, act on the receiving channel
  exactly as the value sent in one request: the delivery that completes the set has the same answer and
  leaves the same state.
\<close>

theorem chunked_equals_whole:
  assumes "0 < unat B" and "length value + unat B \<le> 2 ^ 63" and "\<not> aborting c" and "chunked_values c key = None"
    and "set (rs @ [r]) = set (SendChunked B key value)" and "set rs \<noteq> set (SendChunked B key value)"
  shows "OnRequest r (deliver_all rs c) = OnRequest (Mono key value) c"
  using assms by (rule chunks_reassemble)

theorem chunked_equals_whole_witness:
  "OnRequest (Chunked ''k'' ''ab'' 0 3) (deliver_all [Chunked ''k'' ''c'' 2 3, Chunked ''k'' ''c'' 2 3] new_channel)
   = OnRequest (Mono ''k'' ''abc'') new_channel"
proof -
  have "SendChunked 2 ''k'' ''abc'' = [Chunked ''k'' ''ab'' 0 3, Chunked ''k'' ''c'' 2 3]"
    by (simp add: SendChunked_nat chunk_count_def nat_chunk_def chunk_size_def upt_rec)
  then show ?thesis by (intro chunked_equals_whole [of 2]) (auto simp: new_channel_def)
qed

text \<open>
  C16. Sending a request ends: at most \<open>max_retry + 1\<close> requests are made, no wait is longer than
  \<open>max_retry_interval_ms\<close> (also when the product of its computation wraps), and if the link fails that
  often the call ends with the link's error.
\<close>

theorem retries_end:
  assumes "SendRequestWithRetry opts 0 turns = (r, n, ws)"
  shows "n \<le> Suc (unat (max_retry opts)) \<and> list_all (\<lambda>w. w \<le> max_retry_interval_ms opts) ws
    \<and> ((\<forall>t \<in> set turns. \<exists>e. t = (False, Some e)) \<and> unat (max_retry opts) < length turns \<longrightarrow> (\<exists>e. r = Failed e))"
  using retry_bounded [OF _ assms] retry_gives_up [of turns 0 opts] assms by auto

theorem retries_end_witness:
  "\<exists>r n ws. SendRequestWithRetry \<lparr>max_retry = 1, retry_interval_ms = 1000, retry_interval_incr_ms = 2000,
      max_retry_interval_ms = 10000, error_codes = [], http_codes = [], aggressive_retry = True\<rparr> 0
      (replicate 3 (False, Some \<lparr>error_code = 7, http_code = 0\<rparr>)) = (r, n, ws) \<and> n \<le> 2 \<and> (\<exists>e. r = Failed e)"
proof -
  let ?o = "\<lparr>max_retry = 1, retry_interval_ms = 1000, retry_interval_incr_ms = 2000,
      max_retry_interval_ms = 10000, error_codes = [], http_codes = [], aggressive_retry = True\<rparr>"
  let ?t = "replicate 3 (False, Some \<lparr>error_code = 7, http_code = 0\<rparr>)"
  obtain r n ws where s: "SendRequestWithRetry ?o 0 ?t = (r, n, ws)" by (cases "SendRequestWithRetry ?o 0 ?t")
  from retries_end [OF s] show ?thesis using s by auto
qed

text \<open>
  C17. The guard on chunks does not bound the write.  It adds two \<^verbatim>\<open>size_t\<close> values, so that an offset near
  \<open>2^64\<close> passes it; and it uses the length claimed by the present request, which may be larger than
  the buffer that the first request of that key has allocated.  If neither happens the write is inside.
\<close>

theorem malformed_chunks:
  "fst (OnRequest (Chunked k ''x'' (- 1) 5) new_channel) = Inl Out_of_bounds
   \<and> fst (OnRequest (Chunked k ''x'' 1 2) (snd (OnRequest (Chunked k [] 0 1) new_channel))) = Inl Out_of_bounds
   \<and> (unat offset + length v < 2 ^ 64 \<and> \<not> aborting c
      \<and> (case chunked_values c key of None \<Rightarrow> True | Some cm \<Rightarrow> length (message_buf cm) = unat total_length)
      \<longrightarrow> fst (OnRequest (Chunked key v offset total_length) c) \<noteq> Inl Out_of_bounds)"
  using chunk_offset_wraps chunk_length_changes chunk_in_bounds by blast

theorem malformed_chunks_witness:
  "fst (OnRequest (Chunked ''k'' ''x'' 0 5) new_channel) \<noteq> Inl Out_of_bounds"
  using malformed_chunks [where key = "''k''" and offset = 0 and v = "''x''" and c = new_channel and total_length = 5] by (simp add: new_channel_def)

section \<open>Containers and strings\<close>

text \<open>
  C18. The segment tree refines a finite set of numbers: whatever sequence of numbers below \<open>2^64 - 1\<close> is
  inserted, the segments stay sorted, nonempty and separated, the tree contains exactly the inserted
  numbers, an insertion answers whether the number is new, and the count is the number of elements.
\<close>

theorem segment_tree_is_set:
  assumes "- 1 \<notin> set is" and "x \<noteq> - 1"
  defines "t \<equiv> fold (\<lambda>i t. snd (Insert t i)) is empty_tree"
  shows "seg_ok (segments t) \<and> (\<forall>i. Contains t i \<longleftrightarrow> i \<in> set is) \<and> unat (Count t) = card (set is)
    \<and> fst (Insert t x) = (x \<notin> set is)"
proof -
  have "tree_inv t \<and> tree_set t = set is"
    using st.ins_all [OF empty_tree_inv(1), of "is"] assms(1) by (auto simp: t_def empty_tree_inv)
  with Contains_spec Count_spec st.ins_fresh [OF _ assms(2), of t] show ?thesis by (auto simp: tree_inv_def)
qed

theorem segment_tree_is_set_witness:
  "Contains (fold (\<lambda>i t. snd (Insert t i)) [4, 2, 3 :: 64 word] empty_tree) 2
   \<and> fst (Insert (fold (\<lambda>i t. snd (Insert t i)) [4, 2, 3 :: 64 word] empty_tree) 9)"
  using segment_tree_is_set [of "[4, 2, 3]" 9] by simp

section \<open>Function secret sharing\<close>

text \<open>
  C19. Distributed point function: for keys made for the point \<open>alpha\<close> and the value \<open>beta\<close>, both parties'
  evaluations return, and their sum modulo \<open>2^n\<close> is \<open>beta\<close> at the point and 0 everywhere else.  This
  holds for every input width up to 64, every output width up to 128, every pair of master seeds and
  every cipher; the bits of \<open>alpha\<close>, \<open>beta\<close> and the input above their widths play no role.
  The full-domain evaluation fills the whole output array of either party with values whose sums are
  the same, also when the tree ends above the leaves and several values are expanded from one seed.
\<close>

theorem dpf_shares:
  assumes "n \<le> 128"
  shows "(\<forall>k0 k1 x. 0 < m \<and> m \<le> 64 \<and> DpfKeyGen enc m n alpha beta mk0 mk1 False = (k0, k1) \<longrightarrow>
      (\<exists>y0 y1. DpfEval enc m n k0 x = Some y0 \<and> DpfEval enc m n k1 x = Some y1
        \<and> GetVal n (y0 + y1) = (if GetVal m x = GetVal m alpha then GetVal n beta else 0)))
    \<and> (\<forall>k0 k1 out0 out1 x. 0 < n \<and> m < 32 \<and> DpfKeyGen enc m n alpha beta mk0 mk1 True = (k0, k1)
        \<and> length out0 = 2 ^ m \<and> length out1 = 2 ^ m \<and> x < 2 ^ m \<longrightarrow>
      (\<exists>r0 r1. DpfEvalAll enc m n k0 out0 = Some r0 \<and> DpfEvalAll enc m n k1 out1 = Some r1
        \<and> GetVal n (r0 ! x + r1 ! x) = (if x = unat (GetVal m alpha) then GetVal n beta else 0)))"
proof (intro conjI allI impI; elim conjE)
  fix k0 k1 x assume "0 < m" "m \<le> 64" and k: "DpfKeyGen enc m n alpha beta mk0 mk1 False = (k0, k1)"
  then show "\<exists>y0 y1. DpfEval enc m n k0 x = Some y0 \<and> DpfEval enc m n k1 x = Some y1
      \<and> GetVal n (y0 + y1) = (if GetVal m x = GetVal m alpha then GetVal n beta else 0)"
    using assms by (intro dpf_point [OF _ _ _ k])
next
  fix k0 k1 and out0 out1 :: "128 word list" and x :: nat assume "0 < n" "m < 32" and k: "DpfKeyGen enc m n alpha beta mk0 mk1 True = (k0, k1)"
    and "length out0 = 2 ^ m" "length out1 = 2 ^ m" "x < 2 ^ m"
  then show "\<exists>r0 r1. DpfEvalAll enc m n k0 out0 = Some r0 \<and> DpfEvalAll enc m n k1 out1 = Some r1
      \<and> GetVal n (r0 ! x + r1 ! x) = (if x = unat (GetVal m alpha) then GetVal n beta else 0)"
    using assms by (intro dpf_eval_all [OF _ _ _ _ _ k])
qed

theorem dpf_shares_witness:
  "(\<exists>k0 k1 y0 y1. DpfKeyGen (\<lambda>_ _ _ b. b) 4 8 5 7 11 13 False = (k0, k1)
     \<and> DpfEval (\<lambda>_ _ _ b. b) 4 8 k0 5 = Some y0 \<and> DpfEval (\<lambda>_ _ _ b. b) 4 8 k1 5 = Some y1
     \<and> GetVal 8 (y0 + y1) = GetVal 8 7)
   \<and> (\<exists>k0 k1 r0 r1. DpfKeyGen (\<lambda>_ _ _ b. b) 4 8 5 7 11 13 True = (k0, k1)
     \<and> DpfEvalAll (\<lambda>_ _ _ b. b) 4 8 k0 (replicate 16 0) = Some r0
     \<and> DpfEvalAll (\<lambda>_ _ _ b. b) 4 8 k1 (replicate 16 0) = Some r1 \<and> GetVal 8 (r0 ! 6 + r1 ! 6) = 0)"
proof -
  obtain k0 k1 where k: "DpfKeyGen (\<lambda>_ _ _ b. b) 4 8 5 7 11 13 False = (k0, k1)" by (metis prod.exhaust)
  obtain l0 l1 where l: "DpfKeyGen (\<lambda>_ _ _ b. b) 4 8 5 7 11 13 True = (l0, l1)" by (metis prod.exhaust)
  note s = dpf_shares [of 8 4 "\<lambda>_ _ _ b. b" 5 7 11 13]
  have "unat (GetVal 4 5) \<noteq> 6" by (simp add: unat_GetVal)
  moreover have "\<exists>r0 r1. DpfEvalAll (\<lambda>_ _ _ b. b) 4 8 l0 (replicate 16 0) = Some r0
     \<and> DpfEvalAll (\<lambda>_ _ _ b. b) 4 8 l1 (replicate 16 0) = Some r1
     \<and> GetVal 8 (r0 ! 6 + r1 ! 6) = (if 6 = unat (GetVal 4 5) then GetVal 8 7 else 0)"
    using s [THEN conjunct2, THEN spec, THEN spec, THEN spec, THEN spec, THEN spec, of l0 l1 "replicate 16 0" "replicate 16 0" 6] l by simp
  moreover have "\<exists>y0 y1. DpfEval (\<lambda>_ _ _ b. b) 4 8 k0 5 = Some y0 \<and> DpfEval (\<lambda>_ _ _ b. b) 4 8 k1 5 = Some y1
     \<and> GetVal 8 (y0 + y1) = (if GetVal 4 5 = GetVal 4 5 then GetVal 8 7 else 0)"
    using s [THEN conjunct1, THEN spec, THEN spec, THEN spec, of k0 k1 5] k by simp
  ultimately show ?thesis using k l by auto
qed

text \<open>
  C20. Distributed comparison function: the two evaluations add up modulo \<open>2^n\<close> to \<open>beta\<close> for inputs below
  \<open>alpha\<close> and to 0 for all others, \<open>alpha\<close> included.
\<close>

theorem dcf_shares_comparison:
  assumes "m \<le> 64" and "n \<le> 128" and "DcfKeyGen enc m n alpha beta mk0 mk1 = (k0, k1)"
  shows "GetVal n (DcfEval enc m n k0 x + DcfEval enc m n k1 x) = (if GetVal m x < GetVal m alpha then GetVal n beta else 0)"
  using assms by (rule dcf_comparison)

theorem dcf_shares_comparison_witness:
  "\<exists>k0 k1. DcfKeyGen (\<lambda>_ _ _ b. b) 8 64 5 7 11 13 = (k0, k1)
     \<and> GetVal 64 (DcfEval (\<lambda>_ _ _ b. b) 8 64 k0 3 + DcfEval (\<lambda>_ _ _ b. b) 8 64 k1 3) = GetVal 64 7"
proof -
  obtain k0 k1 where k: "DcfKeyGen (\<lambda>_ _ _ b. b) 8 64 5 7 11 13 = (k0, k1)" by (metis prod.exhaust)
  have "GetVal 8 3 < GetVal 8 5" by (simp add: word_less_nat_alt unat_GetVal)
  with dcf_shares_comparison [OF _ _ k, of 3] k show ?thesis by auto
qed

text \<open>
  C21. A punctured key evaluates the pseudo-random function at every point but the punctured one, where the
  evaluation is refused; every seed the evaluation looks up is in the key.
\<close>

theorem pprf_punctured_key:
  assumes "m < 31" and "seeds out = Map.empty"
  shows "PprfPuncEval enc m (PprfPunc enc m key p out) x = (if GetVal m x = GetVal m p then None else Some (PprfEval enc m key x))"
  using assms by (rule pprf_punctured)

theorem pprf_punctured_key_witness:
  "PprfPuncEval (\<lambda>_ _ _ b. b) 4 (PprfPunc (\<lambda>_ _ _ b. b) 4 9 3 \<lparr>punc_point = 0, seeds = Map.empty\<rparr>) 5
   = Some (PprfEval (\<lambda>_ _ _ b. b) 4 9 5)"
proof -
  have "unat (GetVal 4 5) \<noteq> unat (GetVal 4 3)" by (simp add: unat_GetVal)
  then have "GetVal 4 5 \<noteq> GetVal 4 3" by auto
  then show ?thesis using pprf_punctured_key [of 4 "\<lparr>punc_point = 0, seeds = Map.empty\<rparr>"] by simp
qed

section \<open>Pseudo-random generation\<close>

text \<open>
  C22. The values of a generator are the encryptions of the counters 0, 1, 2, ... under its seed: the size of
  its buffer and the refilling of it cannot be observed.  The cipher is a parameter, of which only the
  documented behaviour of the ECB modes is used.
\<close>

theorem prg_buffer_unobservable:
  assumes "ecb_mode enc" and "0 < n" and "m + n < 2 ^ 64"
  shows "fst (prg_outputs enc m (new_prg n seed mode)) = map (prg_value enc mode seed) [0 ..< m]"
  using assms by (rule prg_stream)

theorem prg_buffer_unobservable_witness:
  "fst (prg_outputs (\<lambda>_ k _ b. map ((+) (ucast k)) b) 5 (new_prg 2 42 kAesEcb))
   = map (prg_value (\<lambda>_ k _ b. map ((+) (ucast k)) b) kAesEcb 42) [0 ..< 5]"
proof (rule prg_buffer_unobservable)
  show "ecb_mode (\<lambda>_ k _ b. map ((+) (ucast k)) b)" by (simp add: ecb_mode_def)
qed simp_all

section \<open>Stores and extension of oblivious transfer\<close>

text \<open>
  C23. Single-point correlated transfer, both parties run on a correlated pair of stores: the receiver's
  message is accepted, the sender answers, and the receiver's outputs equal the sender's at every
  position but its index, where they differ by the offset of the sender.  This covers numbers of
  messages that are not powers of two, where the last level goes through a second buffer, and output
  spans longer than needed, whatever they hold before.
\<close>

theorem gywz_single_point:
  assumes "ecb_mode enc" and "cot_pair hs s hr r" and "Log2Ceil (of_nat n) = Inr (rsize r)"
    and "1 < n" and "n \<le> 2 ^ 31" and "index < n" and "n \<le> length out_s" and "n \<le> length out_r"
  shows "\<exists>masked os msgs or. GywzOtExtRecv_choice hr r n index = Inr masked
    \<and> GywzOtExtSend enc hs s n seed out_s masked = Inr (os, msgs) \<and> GywzOtExtRecv enc hr r n index out_r msgs = Inr or
    \<and> (\<forall>i < n. or ! i = os ! i XOR (if i = index then send_delta s else 0))"
  using assms by (rule gywz_correct)

theorem gywz_single_point_witness:
  "\<exists>masked os msgs or. GywzOtExtRecv_choice (sample_heap [16 XOR 7, 32] [True, False]) (sample_recv Normal) 3 2 = Inr masked
    \<and> GywzOtExtSend (\<lambda>_ _ _ b. b) (sample_heap [16, 32] []) (sample_send 7) 3 99 [0, 0, 0] masked = Inr (os, msgs)
    \<and> GywzOtExtRecv (\<lambda>_ _ _ b. b) (sample_heap [16 XOR 7, 32] [True, False]) (sample_recv Normal) 3 2 [0, 0, 0] msgs = Inr or
    \<and> or ! 2 = os ! 2 XOR 7"
proof -
  have "\<exists>masked os msgs or. GywzOtExtRecv_choice (sample_heap [16 XOR 7, 32] [True, False]) (sample_recv Normal) 3 2 = Inr masked
    \<and> GywzOtExtSend (\<lambda>_ _ _ b. b) (sample_heap [16, 32] []) (sample_send 7) 3 99 [0, 0, 0] masked = Inr (os, msgs)
    \<and> GywzOtExtRecv (\<lambda>_ _ _ b. b) (sample_heap [16 XOR 7, 32] [True, False]) (sample_recv Normal) 3 2 [0, 0, 0] msgs = Inr or
    \<and> (\<forall>i < 3. or ! i = os ! i XOR (if i = 2 then send_delta (sample_send 7) else 0))"
    by (rule gywz_single_point [OF sample_ecb sample_pair sample_height]) simp_all
  then show ?thesis unfolding sample_delta by fastforce
qed

text \<open>
  C24. The variant for compact stores, where the low bit of a block is its choice bit: the index is the
  number that the receiver's choices spell, the outputs differ at the index only, there by the
  offset, and the low bit of a receiver's output is set exactly at the index.
\<close>

theorem gywz_compact_point:
  assumes "ecb_mode enc" and "cot_pair hs s hr r" and "Log2Ceil (of_nat n) = Inr (rsize r)"
    and "1 < n" and "n \<le> 2 ^ 31" and "n \<le> length out_s" and "n \<le> length out_r"
    and "send_type s = Compact" and "recv_type r = Compact" and "bit (send_delta s) 0"
  shows "\<exists>index os msgs or. choice_index hr r (rsize r) = Inr index
    \<and> GywzOtExtSend_ferret enc hs s n seed out_s = Inr (os, msgs) \<and> GywzOtExtRecv_ferret enc hr r n out_r msgs = Inr or
    \<and> (\<forall>i < n. or ! i = os ! i XOR (if i = index then send_delta s else 0) \<and> \<not> bit (os ! i) 0 \<and> bit (or ! i) 0 = (i = index))"
  using assms by (rule gywz_ferret_correct)

theorem gywz_compact_point_witness:
  "\<exists>index os msgs or. choice_index (sample_heap [16 XOR 7, 32] []) (sample_recv Compact) (rsize (sample_recv Compact)) = Inr index
    \<and> GywzOtExtSend_ferret (\<lambda>_ _ _ b. b) (sample_heap [16, 32] []) (sample_send 7) 3 99 [0, 0, 0] = Inr (os, msgs)
    \<and> GywzOtExtRecv_ferret (\<lambda>_ _ _ b. b) (sample_heap [16 XOR 7, 32] []) (sample_recv Compact) 3 [0, 0, 0] msgs = Inr or
    \<and> (\<forall>i < 3. or ! i = os ! i XOR (if i = index then send_delta (sample_send 7) else 0) \<and> \<not> bit (os ! i) 0 \<and> bit (or ! i) 0 = (i = index))"
  by (rule gywz_compact_point [OF sample_ecb sample_pair_compact sample_height]) (simp_all add: sample_send_def sample_recv_def)

text \<open>
  C25. Transfer of all but one of \<open>n\<close> seeds, both parties run on a pair of stores with random transfers: the
  receiver gets the sender's outputs at every position but its index, and zero there.  With the check
  against a malicious sender the run of an honest one is accepted, for every hash function with
  digests of 32 bytes.  This covers numbers of messages that are not powers of two.
\<close>

theorem sgrr_all_but_one:
  assumes "ecb_mode enc" and "\<forall>x. length (Blake3 x) = 32" and "ot_pair hs s hr r" and "Log2Ceil (of_nat n) = Inr height" and "height \<le> rsize r"
    and "rsize r \<le> 128" and "1 < n" and "n \<le> 2 ^ 31" and "index < n" and "n \<le> length out_s" and "n \<le> length out_r"
  shows "\<exists>masked os msgs pf rs. SgrrOtExtRecv_choice hr r n index = Inr masked
    \<and> SgrrOtExtSend a [k0, k1] enc Blake3 hs s n seed out_s mal masked = Inr (os, msgs, pf)
    \<and> SgrrOtExtRecv a [k0, k1] enc Blake3 hr r n index out_r mal msgs pf = Inr rs
    \<and> (\<forall>i < n. rs ! i = (if i = index then 0 else os ! i))"
  using assms by (rule sgrr_correct)

theorem sgrr_all_but_one_witness:
  "\<exists>masked os msgs pf rs. SgrrOtExtRecv_choice (sample_heap [16 XOR 7, 32] [True, False]) (sample_recv Normal) 3 1 = Inr masked
    \<and> SgrrOtExtSend \<lparr>aesenc = (XOR), aesenclast = (XOR)\<rparr> [[1], [2]] (\<lambda>_ _ _ b. b) (\<lambda>x. replicate 32 (hd x))
        (sample_heap [16, 32] []) (sample_send 7) 3 99 [0, 0, 0] True masked = Inr (os, msgs, pf)
    \<and> SgrrOtExtRecv \<lparr>aesenc = (XOR), aesenclast = (XOR)\<rparr> [[1], [2]] (\<lambda>_ _ _ b. b) (\<lambda>x. replicate 32 (hd x))
        (sample_heap [16 XOR 7, 32] [True, False]) (sample_recv Normal) 3 1 [0, 0, 0] True msgs pf = Inr rs
    \<and> (\<forall>i < 3. rs ! i = (if i = 1 then 0 else os ! i))"
  by (rule sgrr_all_but_one [OF sample_ecb _ sample_ot sample_height]) (simp_all add: rsize_def sample_recv_def)

text \<open>
  C26. The variant where the index is the number that the receiver's choices spell: if it is the number of a
  message, a run with the sender gives the receiver all outputs but that one; if it is not, the receiver stops with
  an error, whatever messages and whatever proof it is given.
\<close>

theorem sgrr_fixed_index:
  assumes "ecb_mode enc" and "\<forall>x. length (Blake3 x) = 32" and "ot_pair hs s hr r" and "Log2Ceil (of_nat n) = Inr height" and "height \<le> rsize r"
    and "rsize r \<le> 128" and "1 < n" and "n \<le> 2 ^ 31" and "n \<le> length out_s" and "n \<le> length out_r"
  shows "\<exists>bits index os msgs pf. recv_CopyBitBuf hr r = Inr bits \<and> index = take_bit height (horner_sum of_bool 2 bits)
    \<and> SgrrOtExtSend_fixed_index a [k0, k1] enc Blake3 hs s n seed out_s mal = Inr (os, msgs, pf)
    \<and> (if index < n
       then \<exists>rs. SgrrOtExtRecv_fixed_index a [k0, k1] enc Blake3 hr r n out_r mal msgs pf = Inr rs \<and> (\<forall>i < n. rs ! i = (if i = index then 0 else os ! i))
       else \<forall>msgs' pf'. SgrrOtExtRecv_fixed_index a [k0, k1] enc Blake3 hr r n out_r mal msgs' pf' = Inl Enforce)"
  using assms by (rule sgrr_fixed_index_correct)

theorem sgrr_fixed_index_witness:
  "\<exists>bits index os msgs pf. recv_CopyBitBuf (sample_heap [16 XOR 7, 32] [True, False]) (sample_recv Normal) = Inr bits
    \<and> index = take_bit (rsize (sample_recv Normal)) (horner_sum of_bool 2 bits)
    \<and> SgrrOtExtSend_fixed_index \<lparr>aesenc = (XOR), aesenclast = (XOR)\<rparr> [[1], [2]] (\<lambda>_ _ _ b. b) (\<lambda>x. replicate 32 (hd x))
        (sample_heap [16, 32] []) (sample_send 7) 3 99 [0, 0, 0] False = Inr (os, msgs, pf)
    \<and> (if index < 3
       then \<exists>rs. SgrrOtExtRecv_fixed_index \<lparr>aesenc = (XOR), aesenclast = (XOR)\<rparr> [[1], [2]] (\<lambda>_ _ _ b. b) (\<lambda>x. replicate 32 (hd x))
         (sample_heap [16 XOR 7, 32] [True, False]) (sample_recv Normal) 3 [0, 0, 0] False msgs pf = Inr rs \<and> (\<forall>i < 3. rs ! i = (if i = index then 0 else os ! i))
       else \<forall>msgs' pf'. SgrrOtExtRecv_fixed_index \<lparr>aesenc = (XOR), aesenclast = (XOR)\<rparr> [[1], [2]] (\<lambda>_ _ _ b. b) (\<lambda>x. replicate 32 (hd x))
         (sample_heap [16 XOR 7, 32] [True, False]) (sample_recv Normal) 3 [0, 0, 0] False msgs' pf' = Inl Enforce)"
  by (rule sgrr_fixed_index [OF sample_ecb _ sample_ot sample_height]) (simp_all add: rsize_def sample_recv_def)

text \<open>
  C27. Slicing two stores that start at the first position of their buffers, at the same place, keeps the correlation,
  in the layout with one and in the layout with two blocks per transfer: both slices succeed, and what they return
  at an index is what the stores return at the shifted index.  The positions of a slice are those of the buffer:
  to slice one of the results again is to slice the store it was made from, without the shift.
\<close>

theorem correlation_kept_by_slices:
  assumes "cot_pair hs s hr r" and "internal_use_ctr s = 0" and "internal_use_ctr r = 0" and "f < p" and "p \<le> internal_use_size r"
  shows "\<exists>s' r'. send_Slice f p hs s = Inr s' \<and> recv_Slice f p hr r = Inr r' \<and> cot_pair hs s' hr r'
    \<and> (\<forall>i < p - f. recv_GetBlock hr r' i = recv_GetBlock hr r (f + i) \<and> recv_GetChoice hr r' i = recv_GetChoice hr r (f + i)
        \<and> (\<forall>b. send_GetBlock hs s' i (of_bool b) = send_GetBlock hs s (f + i) (of_bool b)))
    \<and> (\<forall>f' p'. send_Slice f' p' hs s' = send_Slice f' p' hs s \<and> recv_Slice f' p' hr r' = recv_Slice f' p' hr r)"
  using cot_pair_slice [OF assms] slice_of_slice by blast

theorem correlation_kept_by_slices_witness:
  "\<exists>s' r'. send_Slice 1 2 (sample_heap [16, 32] []) (sample_send 7) = Inr s'
    \<and> recv_Slice 1 2 (sample_heap [16 XOR 7, 32] [True, False]) (sample_recv Normal) = Inr r'
    \<and> cot_pair (sample_heap [16, 32] []) s' (sample_heap [16 XOR 7, 32] [True, False]) r'"
  using correlation_kept_by_slices [OF sample_pair, of 1 2] by (auto simp: sample_send_def sample_recv_def)

text \<open>
  C28. Slices taken one after another from a store share its buffer and do not overlap: what is written
  through one of them is read back through it, and every other slice still reads what it read before.
\<close>

theorem slices_do_not_interfere:
  assumes "num > 0" and "new_recv num type h0 = Inr (s, h)" and "recv_slices ns h s = Inr (outs, s')"
    and "i < length ns" and "j < length ns" and "i \<noteq> j" and "length vs \<le> unat (ns ! i)"
  shows "\<exists>h'. write_all recv_SetBlock (outs ! i) 0 vs h = Inr h'
    \<and> (\<forall>k < length vs. recv_GetBlock h' (outs ! i) (of_nat k) = Inr (vs ! k))
    \<and> (\<forall>k < ns ! j. recv_GetBlock h' (outs ! j) k = recv_GetBlock h (outs ! j) k)"
  using assms by (rule slices_independent)

theorem slices_do_not_interfere_witness:
  "\<exists>s h outs s' h'. new_recv 3 Compact (sample_heap [] []) = Inr (s, h) \<and> recv_slices [1, 2] h s = Inr (outs, s')
    \<and> write_all recv_SetBlock (outs ! 0) 0 [5] h = Inr h' \<and> (\<forall>k < [1, 2] ! 1. recv_GetBlock h' (outs ! 1) k = recv_GetBlock h (outs ! 1) k)"
proof -
  obtain s h outs s' where n: "new_recv 3 Compact (sample_heap [] []) = Inr (s, h)" "recv_slices [1, 2] h s = Inr (outs, s')"
    using sample_slices by blast
  from slices_do_not_interfere [OF _ n, of 0 1 "[5]"] n show ?thesis by auto
qed

text \<open>
  C29. Resetting a store always fails: the check at the end of the base class's reset refuses the counters
  that the reset has just set to zero.  The store keeps its buffer and has no usable index.  Taking the
  buffer out of a store goes through the reset, so it fails too, and then the buffer is gone.
\<close>

theorem reset_never_returns:
  "recv_Reset h r = (Inl Enforce, zero_ctrs r) \<and> send_Reset h s = (Inl Enforce, zero_ctrs s)
    \<and> recv_StealBlkBuf n h r = (Inl Enforce, if n = 1 then zero_ctrs (r\<lparr>recv_blk_buf := None\<rparr>) else r)
    \<and> send_StealBlkBuf n h s = (Inl Enforce, if n = 1 then zero_ctrs (s\<lparr>send_blk_buf := None\<rparr>) else s)
    \<and> recv_GetBlock h (zero_ctrs r) i = Inl Enforce"
  by (simp add: recv_Reset_throws send_Reset_throws Steal_throws recv_GetBlock_def zero_ctrs_def)

text \<open>
  C30. The hashes of arrays are the hash of the single elements, for every length, whatever the batches;
  the linear map inside the circular hash of arrays is injective.  The circular hash of a single
  block, however, uses another map: it depends on the low half of the block only.
\<close>

theorem correlation_robust_hashes:
  assumes "ecb_mode enc"
  shows "ParaCrHash_128 enc xs = map (CrHash_128 enc) xs \<and> ParaCrHashInplace_128 enc xs = map (CrHash_128 enc) xs
    \<and> ParaCcrHashInplace_128 enc xs = map (\<lambda>x. CrHash_128 enc (sigma_lane x)) xs \<and> inj sigma_lane
    \<and> CcrHash_128 enc (word_cat (hi :: 64 word) (lo :: 64 word)) = CcrHash_128 enc (word_cat (hi' :: 64 word) lo)"
  using CcrHash_collides [of "word_cat hi lo" "word_cat hi' lo" enc]
  by (simp add: assms ParaCrHash_map ParaCrHashInplace_map ParaCcrHashInplace_map sigma_lane_inj)

theorem correlation_robust_hashes_witness:
  "ParaCcrHashInplace_128 (\<lambda>_ _ _ b. b) [1, 2] = map (\<lambda>x. CrHash_128 (\<lambda>_ _ _ b. b) (sigma_lane x)) [1, 2]"
  using correlation_robust_hashes [OF sample_ecb, of "[1, 2]"] by simp

section \<open>Cuckoo hashing\<close>

text \<open>
  C31. In every index built by successful insertions each input has exactly one place, in the bins or in
  the stash, and an input in a bin is there because one of its hash values is the number of the bin;
  the smallest hash function with that value is the one that the query returns.  The sanity check of
  the code accepts the index exactly when it holds as many inputs as announced.  This is for options with at
  least one bin, one to five hash functions and at most \<open>2^56\<close> inputs.
\<close>

theorem cuckoo_one_place:
  assumes "cuckoo_reachable opt c" and "options_ok opt"
  shows "SanityCheck c = (if length (hashes c) = unat (num_input opt) then Inr () else Inl Wrong_count)
    \<and> (\<forall>i < length (hashes c). card (places (bins c) (of_nat i)) + card (places (stash c) (of_nat i)) = 1)
    \<and> (\<forall>j < length (bins c). \<not> IsEmpty (bins c ! j) \<longrightarrow> (\<exists>m \<le> unat (HashIdx (bins c ! j)).
        MinCollidingHashIdx (of_nat j) c = Some (of_nat m)
        \<and> map_option (\<lambda>h. unat (h mod NumBins opt)) (GetHash (hashes c ! unat (InputIdx (bins c ! j))) m) = Some j
        \<and> (\<forall>i < m. map_option (\<lambda>h. unat (h mod NumBins opt)) (GetHash (hashes c ! unat (InputIdx (bins c ! j))) i) \<noteq> Some j)))"
  using reachable_ok [OF assms] SanityCheck_ok [of c] one_place [of c] MinColliding_ok [of c] by auto

theorem cuckoo_one_place_witness:
  "\<exists>c. cuckoo_reachable sample_options c \<and> hashes c = [5, 17] \<and> SanityCheck c = Inr ()
    \<and> card (places (bins c) 0) + card (places (stash c) 0) = 1"
proof -
  obtain c where c: "cuckoo_reachable sample_options c" "hashes c = [5, 17]" using sample_cuckoo by blast
  from cuckoo_one_place [OF c(1) sample_options_ok] c have "SanityCheck c = Inr ()"
    "\<forall>i < length (hashes c). card (places (bins c) (of_nat i)) + card (places (stash c) (of_nat i)) = 1"
    by (simp_all add: sample_options_def)
  from this(1) this(2) [rule_format, of 0] c show ?thesis by auto
qed



section \<open>Bit sets\<close>



text \<open>
  C34. What the queries on consistent bit sets answer, in terms of their bits: the test of a position and of
  all bits, the number of bits that are set, the position of the first one and of the next one after a
  position, subset, proper subset and intersection.  Two bit sets are equal iff their bits are, and they
  are ordered by the number their bits spell, the shorter one first among equal numbers.
\<close>

theorem bitset_queries:
  fixes b c :: "'a :: len word dynamic_bitset"
  assumes "check_consistency b" and "check_consistency c" and "xs = bits_of b" and "ys = bits_of c"
  shows "test pos b = (if pos < length xs then Some (xs ! pos) else None)
    \<and> (all_bits b \<longleftrightarrow> False \<notin> set xs) \<and> (any_bit b \<longleftrightarrow> True \<in> set xs) \<and> count_bits b = length (filter (\<lambda>x. x) xs)
    \<and> find_first b = first_from 0 xs \<and> find_next pos b = first_from (Suc pos) xs
    \<and> is_subset_of b c = (if length xs = length ys then Some (\<forall>i < length xs. xs ! i \<longrightarrow> ys ! i) else None)
    \<and> is_proper_subset_of b c = (if length xs = length ys then Some ((\<forall>i < length xs. xs ! i \<longrightarrow> ys ! i) \<and> xs \<noteq> ys) else None)
    \<and> (intersects b c \<longleftrightarrow> (\<exists>i. i < length xs \<and> i < length ys \<and> xs ! i \<and> ys ! i))
    \<and> (equal_bitset b c \<longleftrightarrow> xs = ys)
    \<and> (less_bitset b c \<longleftrightarrow> bits_val xs < bits_val ys \<or> bits_val xs = bits_val ys \<and> length xs < length ys)"
proof -
  have r: "bits_rep b xs" "bits_rep c ys" using assms by (simp_all add: bits_rep_iff)
  show ?thesis
    by (intro conjI test_rep [OF r(1)] all_bits_rep [OF r(1)] any_bit_rep [OF r(1)] count_bits_rep [OF r(1)] find_first_rep [OF r(1)]
      find_next_rep [OF r(1)] subset_rep [OF r] intersects_rep [OF r] equal_bitset_iff [OF r] less_bitset_rep [OF r])
qed

theorem bitset_queries_witness:
  "count_bits \<lparr>m_blocks = [0x81, 1 :: 8 word], m_bits_number = 9\<rparr> = 3
   \<and> find_next 0 \<lparr>m_blocks = [0x81, 1 :: 8 word], m_bits_number = 9\<rparr> = 7"
proof -
  let ?b = "\<lparr>m_blocks = [0x81, 1 :: 8 word], m_bits_number = 9\<rparr>"
  have c: "check_consistency ?b" by code_simp
  have x: "bits_of ?b = [True, False, False, False, False, False, False, True, True]" by code_simp
  show ?thesis using bitset_queries [OF c c refl refl, of 0] unfolding x by (simp add: first_from_def)
qed

text \<open>
  C35. The iteration over the bits of a set ends: the function is called on the positions of the bits that
  are set, in ascending order, up to the first call that answers with false.
\<close>

theorem bitset_iteration:
  assumes "check_consistency b" and "m_bits_number b \<le> npos"
  shows "iterate_bits_on f b s = Some (visit_while f (filter (\<lambda>i. bits_of b ! i) [0 ..< m_bits_number b]) s)"
  using iterate_rep [of b "bits_of b" f s] assms by (simp add: bits_rep_iff)

theorem bitset_iteration_witness:
  "iterate_bits_on (\<lambda>i s. (i < 5, s @ [i])) \<lparr>m_blocks = [0xA9, 1 :: 8 word], m_bits_number = 9\<rparr> [] = Some [0, 3, 5]"
proof -
  let ?b = "\<lparr>m_blocks = [0xA9, 1 :: 8 word], m_bits_number = 9\<rparr>"
  have c: "check_consistency ?b" by code_simp
  have x: "bits_of ?b = [True, False, False, True, False, True, False, True, True]" by code_simp
  show ?thesis using bitset_iteration [OF c, of "\<lambda>i s. (i < 5, s @ [i])" "[]"] unfolding x by (simp add: npos_def upt_conv_Cons)
qed

text \<open>
  C36. The text of a bit set that is not empty gives an equal bit set back: through the constructor from a
  string, for any two different digits, and through the stream operator, which skips white space and leaves
  what follows the digits.  The stream operator sets the failure bit of the stream if and only if the digits
  are the end of the input.
\<close>

theorem bitset_text_roundtrip:
  assumes "check_consistency b" and "0 < m_bits_number b" and "m_bits_number b \<le> n" and "zero \<noteq> one"
    and "list_all is_space ws" and "rest = [] \<or> hd rest \<notin> {CHR ''0'', CHR ''1''}"
  shows "(\<exists>c. init_from_string (bitset_string zero one b) 0 n zero one = Some c \<and> equal_bitset c b)
    \<and> (\<exists>c. read_bitset (ws @ bitset_string CHR ''0'' CHR ''1'' b @ rest) target = (c, rest, rest = []) \<and> equal_bitset c b)"
proof -
  have r: "bits_rep b (bits_of b)" "length (bits_of b) \<le> n" "bits_of b \<noteq> []" using assms(1,2,3) by (simp_all add: bits_rep_iff bits_of_def)
  show ?thesis using init_from_string_inverse [OF r(1,3,2) assms(4)] read_bitset_inverse [OF r(1,3) assms(6,5), of target] by blast
qed

theorem bitset_text_roundtrip_witness:
  "\<exists>c. read_bitset ''  10110;'' (empty_bitset :: 8 word dynamic_bitset) = (c, '';'', False)
     \<and> equal_bitset c \<lparr>m_blocks = [0x16 :: 8 word], m_bits_number = 5\<rparr>"
proof -
  let ?b = "\<lparr>m_blocks = [0x16 :: 8 word], m_bits_number = 5\<rparr>"
  have c: "check_consistency ?b" by code_simp
  have t: "bitset_string CHR ''0'' CHR ''1'' ?b = ''10110''" by code_simp
  show ?thesis
    using bitset_text_roundtrip [OF c, of 5 "CHR ''0''" "CHR ''1''" "''  ''" "'';''" empty_bitset] unfolding t by (simp add: is_space_def)
qed

text \<open>
  C37. The bit sets inside the transfers: a set made from a number holds its low bits in one block; the two
  indices that a receiver computes for a level by resizing its choices and flipping the last bit are
  those of the model on numbers; and the choices a store copies by shifting and resizing its bit set
  are the slice of the list that the model of the store copies.
\<close>

theorem transfer_bitsets:
  assumes "0 < bits" and "bits \<le> 128" and "level < 128" and "check_consistency choice"
    and "recv_type s = Normal" and "deref (bit_bufs h) (bit_buf s) = Inr (bits_of buf)" and "check_consistency buf"
  shows "(\<exists>b. MakeDynamicBitset inp bits = Some b \<and> bits_of b = map (bit inp) [0 ..< bits] \<and> unat (m_blocks b ! 0) = take_bit bits (unat inp))
    \<and> unat (punctured_bitset choice level) = GetPuncturedIndex (bits_val (bits_of choice)) level
    \<and> (\<exists>w. inserted_bitset choice level = Some w \<and> unat w = GetInsertedIndex (bits_val (bits_of choice)) level)
    \<and> recv_CopyBitBuf h s = Inr (bits_of (copy_bitset (unat (internal_use_ctr s)) (unat (internal_use_size s)) buf))"
proof -
  have c: "bits_rep choice (bits_of choice)" and r: "bits_rep buf (bits_of buf)" using assms(4,7) by (simp_all add: bits_rep_iff)
  have "recv_CopyBitBuf h s = Inr (bits_of (copy_bitset (unat (internal_use_ctr s)) (unat (internal_use_size s)) buf))"
    using copy_bitset_rep [OF r, of "unat (internal_use_ctr s)" "unat (internal_use_size s)"] assms(5,6)
    by (simp add: bits_rep_iff recv_CopyBitBuf_def followed_def Let_def)
  moreover have "\<exists>b. MakeDynamicBitset inp bits = Some b \<and> bits_of b = map (bit inp) [0 ..< bits] \<and> unat (m_blocks b ! 0) = take_bit bits (unat inp)"
    using MakeDynamicBitset_rep [OF assms(1,2), of inp] by (auto simp: bits_rep_iff)
  ultimately show ?thesis
    using punctured_bitset_eq [OF c assms(3)] inserted_bitset_eq [OF c assms(3)] by (simp add: bits_val_def)
qed

theorem transfer_bitsets_witness:
  "unat (punctured_bitset \<lparr>m_blocks = [0x16], m_bits_number = 5\<rparr> 2) = 6"
proof -
  let ?b = "\<lparr>m_blocks = [0x16], m_bits_number = 5\<rparr> :: 128 word dynamic_bitset"
  let ?h = "\<lparr>blk_bufs = Map.empty, bit_bufs = [0 \<mapsto> bits_of ?b], lim = 1\<rparr> :: ot_heap"
  have c: "check_consistency ?b" by code_simp
  have x: "bits_of ?b = [False, True, True, False, True]" by code_simp
  show ?thesis
    using transfer_bitsets [of 5 2 ?b "\<lparr>internal_use_ctr = 0, internal_use_size = 5, internal_buf_ctr = 0, internal_buf_size = 5, recv_type = Normal, bit_buf = Some 0, recv_blk_buf = None\<rparr>" ?h ?b] c
    unfolding x by (simp add: deref_def GetPuncturedIndex_def bits_val_def)
qed

section \<open>Transposition and the extension by transposition\<close>

text \<open>
  C38. All transpositions of a matrix of 128 rows of 128 bits compute the same matrix, whose bit \<open>c\<close> of row \<open>r\<close>
  is bit \<open>r\<close> of row \<open>c\<close>: bit by bit, by exchanges of blocks of halving size, and by collecting the top bits
  of bytes, whatever the vectors of the stack hold.  The routines for rows of 1024 bits transpose each of the eight
  columns of 128 bits in its place.
\<close>

theorem matrix_transposes:
  assumes "length rows = 128" and "wide m" and "r < 128" and "c < 128"
  shows "NaiveTranspose rows = transposed rows \<and> EklundhTranspose128 rows = transposed rows
    \<and> SseTranspose128 a b rows = transposed rows \<and> MatrixTranspose128 sse a b rows = transposed rows
    \<and> bit (transposed rows ! r) c = bit (rows ! c) r
    \<and> EklundhTranspose128x1024 m = transposed_columns m \<and> SseTranspose128x1024 a b m = transposed_columns m
    \<and> MatrixTranspose128x1024 sse a b m = transposed_columns m
    \<and> (\<forall>i < 8. bit (transposed_columns m ! r ! i) c = bit (m ! c ! i) r)"
proof -
  have "bit (transposed rows ! r) c = bit (rows ! c) r" using transposed_matrix [OF assms(1)] assms(3,4) by (simp add: matrix_def)
  moreover have "bit (transposed_columns m ! r ! i) c = bit (m ! c ! i) r" if "i < 8" for i
    using transposed_matrix [OF wide_length [OF assms(2)]] assms that by (simp add: matrix_def transposed_columns_def column_def wide_def)
  ultimately show ?thesis
    using naive_transposes [OF assms(1)] eklundh_transposes [OF assms(1)] sse_transposes [OF assms(1)] matrix_transpose_correct [OF assms(1)]
      eklundh_transposes_wide [OF assms(2)] sse_transposes_wide [OF assms(2)] matrix_transpose_wide_correct [OF assms(2)] by simp
qed

theorem matrix_transposes_witness:
  "bit (SseTranspose128 (0, 0) (0, 0) (replicate 128 2) ! 1) 100 \<and> \<not> bit (EklundhTranspose128 (replicate 128 2) ! 2) 100"
proof -
  have l: "length (replicate 128 (2 :: 128 word)) = 128" "wide (replicate 128 (replicate 8 0))" by (simp_all add: wide_def)
  have "bit (2 :: 128 word) 1" "\<not> bit (2 :: 128 word) 2" by simp_all
  then show ?thesis using matrix_transposes [OF l, of 1 100] matrix_transposes [OF l, of 2 100] by simp
qed

text \<open>
  C39. Extension of 128 base transfers to any number of transfers, both parties run on a pair of stores: the
  messages of the receiver are those the sender needs, and the two stores that come out are a pair again, so that
  the receiver holds the message of its choice at every position.  Without hashing they are correlated, and the
  offset is the sender's choices read as a number; if these are all zero, then the sender fails after the run.
  This holds whatever the stacks of the parties hold.
\<close>

theorem iknp_transfer:
  assumes "ot_pair hs s hr r" and "unat (internal_use_size r) = 128" and "\<not> IsSliced s" and "\<not> IsSliced r"
    and "check_consistency choices" and "m_bits_number choices = unat ot_num" and "0 < ot_num"
    and "length (array st) = 128" and "correlated \<or> ecb_mode enc" and "blk_bufs hr (lim hr) = None"
  shows "\<exists>msgs r' hs' bits. IknpOtExtRecv_store enc st' s choices ot_num correlated hs = Inr (msgs, r', hs') \<and> recv_CopyBitBuf hr r = Inr bits
    \<and> (if correlated \<and> True \<notin> set bits then IknpOtExtSend_store enc st r msgs ot_num correlated hr = Inl Enforce
       else \<exists>s' hr'. IknpOtExtSend_store enc st r msgs ot_num correlated hr = Inr (s', hr') \<and> ot_pair hr' s' hs' r'
         \<and> (correlated \<longrightarrow> cot_pair hr' s' hs' r' \<and> send_delta s' = horner_sum of_bool 2 bits))"
  using assms by (rule iknp_stores)

theorem iknp_transfer_witness:
  "\<exists>hs s hr r msgs r' hs' s' hr'. IknpOtExtRecv_store (\<lambda>_ _ _ b. b) sample_stack s (new_bitset 200 5) 200 False hs = Inr (msgs, r', hs')
    \<and> IknpOtExtSend_store (\<lambda>_ _ _ b. b) sample_stack r msgs 200 False hr = Inr (s', hr') \<and> ot_pair hr' s' hs' r'"
proof -
  obtain s r h where m: "ot_pair h s h r" "internal_use_size r = 128" "\<not> IsSliced s" "\<not> IsSliced r" "blk_bufs h (lim h) = None"
    using sample_base by blast
  have c: "check_consistency (new_bitset 200 5 :: 128 word dynamic_bitset)" "m_bits_number (new_bitset 200 5 :: 128 word dynamic_bitset) = unat (200 :: 32 word)"
    using sample_choices by simp_all
  have "unat (internal_use_size r) = 128" "length (array sample_stack) = 128" using m(2) by (simp_all add: sample_stack_def)
  then show ?thesis
    using iknp_transfer [OF m(1) _ m(3,4) c, of sample_stack False "\<lambda>_ _ _ b. b" sample_stack] sample_ecb m(5) by fastforce
qed

text \<open>
  C40. The stores that one program makes for both parties are pairs, for every cipher, seed and number of
  transfers: random transfers with the given choices, correlated transfers with the given choices and offset,
  and compact ones whose offset is odd.
\<close>

theorem mock_stores:
  assumes "check_consistency choices" and "m_bits_number choices = unat num" and "0 < num" and "2 * unat num < 2 ^ 64" and "delta \<noteq> 0"
  shows "(\<exists>s r h'. MockRots enc seed num choices h = Inr ((s, r), h') \<and> ot_pair h' s h' r \<and> internal_use_size r = num
       \<and> recv_CopyBitBuf h' r = Inr (bits_of choices))
    \<and> (\<exists>s r h'. MockCots enc seed num delta choices h = Inr ((s, r), h') \<and> cot_pair h' s h' r \<and> send_delta s = delta \<and> internal_use_size r = num)
    \<and> (\<exists>s r h'. MockCompactOts enc delta seed num h = Inr ((s, r), h') \<and> cot_pair h' s h' r \<and> send_delta s = delta OR 1 \<and> internal_use_size r = num)"
  using MockRots_pair [OF assms(1-4)] MockCots_pair [OF assms(1-3,5)] MockCompactOts_pair [OF assms(3)] by blast

theorem mock_stores_witness:
  "\<exists>s r h'. MockCots (\<lambda>_ _ _ b. b) 9 200 7 (new_bitset 200 5) (sample_heap [] []) = Inr ((s, r), h') \<and> cot_pair h' s h' r \<and> send_delta s = 7"
proof -
  have "check_consistency (new_bitset 200 5 :: 128 word dynamic_bitset)" "m_bits_number (new_bitset 200 5 :: 128 word dynamic_bitset) = unat (200 :: 64 word)"
    using sample_choices by simp_all
  then show ?thesis using mock_stores [of "new_bitset 200 5" 200 7 "\<lambda>_ _ _ b. b" 9 "sample_heap [] []"] by fastforce
qed

end
